(* ===== verification/Prelude.thy ===== *)
theory Prelude
  imports Main "HOL-Library.Word" "HOL-Library.List_Lexorder" "HOL-Library.AList" "HOL-Library.Sublist"
begin

text \<open>
  The vocabulary shared by every component of the tracker: bytes and machine integers, the
  errors the JavaScript throws, the two small monads in which fallible and stateful code is
  written, fixed-width big- and little-endian integers, the bytewise order of LevelDB keys,
  and association lists used as JavaScript Maps.

  A hexadecimal string argument of the source (a txid, a block hash, a script hash) is
  represented by the byte list it denotes: a guard \<open>hex.length !== 64\<close> becomes a guard on
  32 bytes. The theory of hexadecimal text (theory Hexadecimal) shows that printing and
  parsing are inverse, so nothing is lost.
\<close>

named_theorems codec_simps \<open>what the key builders and value encoders compute\<close>
named_theorems view_simps \<open>how the batch operations change the staged view\<close>

subsection \<open>Types\<close>

type_synonym byte = "8 word"
type_synonym bytes = "byte list"
type_synonym u16 = "16 word"
type_synonym u32 = "32 word"

text \<open>
  The errors the modelled code throws. \<open>KeyLength b f n\<close> is the width guard of builder \<open>b\<close> for
  field \<open>f\<close>; \<open>OutOfRange\<close> is the range error of Node's Buffer writers.
\<close>

datatype error =
    KeyLength string string nat
  | OutOfRange
  | AddressTooLarge nat
  | InvalidCursor
  | BadRequest string
  | MissingOutputMatch
  | MissingOutputHintMatch
  | BatchInsertFailed
  | DbError
  | LayoutRefused
  | UnrecoverableReorg string
  | TipBelowCommittedTip string
  | NotLastBlock
  | CorruptBlockIndex
  | InconsistentHeight
  | RollbackGaveUp
  | BlockFetchDesync
  | MissingFullTxHash
  | MempoolFetchIncomplete nat
  | MempoolTxMismatch bytes bytes
  | UnparsableTx
  | WireError string
  | TransactionParse string
  | BadConfig string
  | TypeError

subsection \<open>Fallible computations\<close>

definition rbind :: "error + 'a \<Rightarrow> ('a \<Rightarrow> error + 'b) \<Rightarrow> error + 'b" where
  "rbind r f = (case r of Inl e \<Rightarrow> Inl e | Inr a \<Rightarrow> f a)"

lemma rbind_simps [simp]:
  "rbind (Inl e) f = Inl e"
  "rbind (Inr a) f = f a"
  by (simp_all add: rbind_def)

lemma rbind_Inr_iff: "rbind r f = Inr b \<longleftrightarrow> (\<exists>a. r = Inr a \<and> f a = Inr b)"
  by (cases r) auto

lemma rbind_cong [fundef_cong]:
  "r = r' \<Longrightarrow> (\<And>a. r' = Inr a \<Longrightarrow> f a = g a) \<Longrightarrow> rbind r f = rbind r' g"
  by (cases r') auto

subsection \<open>Stateful computations that may throw\<close>

text \<open>
  A method of the tracker or of the store takes the state and gives back the state together
  with a result or the error it threw. The state is kept when an error is thrown, as the
  mutations made before a JavaScript throw are.
\<close>

type_synonym ('s, 'a) m = "'s \<Rightarrow> (error + 'a) \<times> 's"

definition mret :: "'a \<Rightarrow> ('s, 'a) m" where
  "mret a s = (Inr a, s)"

definition mthrow :: "error \<Rightarrow> ('s, 'a) m" where
  "mthrow e s = (Inl e, s)"

definition mbind :: "('s, 'a) m \<Rightarrow> ('a \<Rightarrow> ('s, 'b) m) \<Rightarrow> ('s, 'b) m" where
  "mbind x f s = (case x s of (Inl e, s') \<Rightarrow> (Inl e, s') | (Inr a, s') \<Rightarrow> f a s')"

definition mseq :: "('s, 'a) m \<Rightarrow> ('s, 'b) m \<Rightarrow> ('s, 'b) m" where
  "mseq x y = mbind x (\<lambda>_. y)"

definition mlift :: "error + 'a \<Rightarrow> ('s, 'a) m" where
  "mlift r s = (r, s)"

definition mget :: "('s \<Rightarrow> 'a) \<Rightarrow> ('s, 'a) m" where
  "mget f s = (Inr (f s), s)"

definition mmod :: "('s \<Rightarrow> 's) \<Rightarrow> ('s, unit) m" where
  "mmod f s = (Inr (), f s)"

definition mwhen :: "bool \<Rightarrow> ('s, unit) m \<Rightarrow> ('s, unit) m" where
  "mwhen b x = (if b then x else mret ())"

definition mcatch :: "('s, 'a) m \<Rightarrow> (error \<Rightarrow> ('s, 'a) m) \<Rightarrow> ('s, 'a) m" where
  "mcatch x h s = (case x s of (Inl e, s') \<Rightarrow> h e s' | (Inr a, s') \<Rightarrow> (Inr a, s'))"

text \<open>\<open>for (const x of xs) await f(x)\<close>: in order, stopping at the first throw.\<close>

fun mfor :: "'x list \<Rightarrow> ('x \<Rightarrow> ('s, unit) m) \<Rightarrow> ('s, unit) m" where
  "mfor [] f = mret ()"
| "mfor (x # xs) f = mseq (f x) (mfor xs f)"

lemma m_run [simp]:
  "mret a s = (Inr a, s)"
  "mthrow e s = (Inl e, s)"
  "mlift r s = (r, s)"
  "mget g s = (Inr (g s), s)"
  "mmod h s = (Inr (), h s)"
  "mwhen True x = x"
  "mwhen False x = mret ()"
  by (simp_all add: mret_def mthrow_def mlift_def mget_def mmod_def mwhen_def)

lemma mbind_run:
  "x s = (Inr a, s') \<Longrightarrow> mbind x f s = f a s'"
  "x s = (Inl e, s') \<Longrightarrow> mbind x f s = (Inl e, s')"
  by (simp_all add: mbind_def)

lemma mbind_simps [simp]:
  "mbind (mret a) f = f a"
  "mbind (mthrow e) f = mthrow e"
  "mbind (mlift (Inr a)) f = f a"
  "mbind (mlift (Inl e)) f = mthrow e"
  "mbind (mget g) f s = f (g s) s"
  "mbind (mmod h) f2 s = f2 () (h s)"
  by (simp_all add: mbind_def fun_eq_iff)

lemma mseq_simps [simp]:
  "mseq (mret a) y = y"
  "mseq (mthrow e) y = mthrow e"
  "mseq (mlift (Inr a)) y = y"
  "mseq (mlift (Inl e)) y = mthrow e"
  "mseq (mget g) y = y"
  "mseq (mmod h) y s = y (h s)"
  by (simp_all add: mseq_def fun_eq_iff mthrow_def mbind_def)

text \<open>The monad laws, used left to right so that the simplifier runs a program on a state.\<close>

lemma m_assoc [simp]:
  "mbind (mbind x f) g = mbind x (\<lambda>a. mbind (f a) g)"
  "mbind (mseq x y) g = mseq x (mbind y g)"
  "mseq (mbind x f) z = mbind x (\<lambda>a. mseq (f a) z)"
  "mseq (mseq x y) z = mseq x (mseq y z)"
  by (auto simp: mseq_def mbind_def fun_eq_iff split: prod.splits sum.splits)

lemma m_if [simp]:
  "mbind (if b then x else y) f s = (if b then mbind x f s else mbind y f s)"
  "mseq (if b then x else y) z s = (if b then mseq x z s else mseq y z s)"
  "mseq (mwhen b w) z s = (if b then mseq w z s else z s)"
  "mbind (mwhen b w) f s = (if b then mbind w f s else f () s)"
  by simp_all

lemma m_pure [simp]:
  "mbind (\<lambda>s. (g s, s)) f s = (case g s of Inl e \<Rightarrow> (Inl e, s) | Inr b \<Rightarrow> f b s)"
  "mseq (\<lambda>s. (g s, s)) z s = (case g s of Inl e \<Rightarrow> (Inl e, s) | Inr b \<Rightarrow> z s)"
  by (simp_all add: mseq_def mbind_def)

lemma m_if_run: "(if b then x else y) s = (if b then x s else (y :: ('s, 'a) m) s)"
  by simp

lemma mseq_run:
  "x s = (Inr a, s') \<Longrightarrow> mseq x y s = y s'"
  "x s = (Inl e, s') \<Longrightarrow> mseq x y s = (Inl e, s')"
  by (simp_all add: mseq_def mbind_def)

lemma mbind_Inr_iff:
  "mbind x f s = (Inr b, s'') \<longleftrightarrow> (\<exists>a s'. x s = (Inr a, s') \<and> f a s' = (Inr b, s''))"
  by (auto simp: mbind_def split: prod.splits sum.splits)

lemma mseq_Inr_iff:
  "mseq x y s = (Inr b, s'') \<longleftrightarrow> (\<exists>a s'. x s = (Inr a, s') \<and> y s' = (Inr b, s''))"
  by (simp add: mseq_def mbind_Inr_iff)

text \<open>
  A loop whose body never throws runs to its end, and what it does to the state is the fold of
  the body's effect.
\<close>

lemma mfor_fold:
  assumes "\<And>x s. x \<in> set xs \<Longrightarrow> f x s = (Inr (), g x s)"
  shows "mfor xs f s = (Inr (), fold g xs s)"
  using assms by (induction xs arbitrary: s) (simp_all add: mseq_run)

lemma mfor_append: "mfor (xs @ ys) f s = mseq (mfor xs f) (mfor ys f) s"
  by (induction xs arbitrary: s) (auto simp: mseq_def mbind_def split: prod.splits sum.splits)

text \<open>\<open>keeps p f\<close>: whatever \<open>f\<close> returns or throws, the part \<open>p\<close> of the state is as before.\<close>

definition keeps :: "('s \<Rightarrow> 'p) \<Rightarrow> ('s, 'a) m \<Rightarrow> bool" where
  "keeps p f \<longleftrightarrow> (\<forall>s. p (snd (f s)) = p s)"

named_theorems keeps_intros

lemma keepsD: "keeps p f \<Longrightarrow> f s = (r, s') \<Longrightarrow> p s' = p s"
  by (metis keeps_def snd_conv)

lemma keeps_basic [keeps_intros]:
  "keeps p (mret a)" "keeps p (Pair x)" "keeps p (mthrow e)" "keeps p (mlift r)" "keeps p (mget g)"
  "(\<And>s. p (h s) = p s) \<Longrightarrow> keeps p (mmod h)"
  by (simp_all add: keeps_def)

lemma keeps_mbind [keeps_intros]: "keeps p f \<Longrightarrow> (\<And>a. keeps p (g a)) \<Longrightarrow> keeps p (mbind f g)"
  by (auto simp: keeps_def mbind_def split: prod.split sum.split) (metis snd_conv)+

lemma keeps_mseq [keeps_intros]: "keeps p f \<Longrightarrow> keeps p g \<Longrightarrow> keeps p (mseq f g)"
  unfolding mseq_def by (rule keeps_mbind)

lemma keeps_mcatch [keeps_intros]: "keeps p f \<Longrightarrow> (\<And>e. keeps p (h e)) \<Longrightarrow> keeps p (mcatch f h)"
  by (auto simp: keeps_def mcatch_def split: prod.split sum.split) (metis snd_conv)+

lemma keeps_if [keeps_intros]:
  "keeps p f \<Longrightarrow> keeps p g \<Longrightarrow> keeps p (if b then f else g)"
  "keeps p w \<Longrightarrow> keeps p (mwhen b w)"
  by (simp_all add: mwhen_def keeps_basic)

lemma keeps_option [keeps_intros]:
  "keeps p f \<Longrightarrow> (\<And>x. keeps p (g x)) \<Longrightarrow> keeps p (case y of None \<Rightarrow> f | Some x \<Rightarrow> g x)"
  by (cases y) simp_all

lemma keeps_sum [keeps_intros]:
  "(\<And>x. keeps p (f x)) \<Longrightarrow> (\<And>y. keeps p (g y)) \<Longrightarrow> keeps p (case z of Inl x \<Rightarrow> f x | Inr y \<Rightarrow> g y)"
  by (cases z) simp_all

lemma keeps_list [keeps_intros]:
  "keeps p f \<Longrightarrow> (\<And>x xs. keeps p (g x xs)) \<Longrightarrow> keeps p (case z of [] \<Rightarrow> f | x # xs \<Rightarrow> g x xs)"
  by (cases z) simp_all

lemma keeps_prod [keeps_intros]: "(\<And>x y. keeps p (g x y)) \<Longrightarrow> keeps p (case z of (x, y) \<Rightarrow> g x y)"
  by (cases z) simp

lemma keeps_mfor [keeps_intros]: "(\<And>x. x \<in> set xs \<Longrightarrow> keeps p (f x)) \<Longrightarrow> keeps p (mfor xs f)"
  by (induction xs) (auto intro: keeps_intros)

text \<open>\<open>stays P f\<close>: started where \<open>P\<close> holds, \<open>f\<close> leaves a state where it holds, also when it throws.\<close>

definition stays :: "('s \<Rightarrow> bool) \<Rightarrow> ('s, 'a) m \<Rightarrow> bool" where
  "stays P f \<longleftrightarrow> (\<forall>s. P s \<longrightarrow> P (snd (f s)))"

named_theorems stays_intros

lemma stays_kept: "keeps P f \<Longrightarrow> stays P f"
  by (simp add: stays_def keeps_def)

lemma stays_basic [stays_intros]:
  "stays P (mret a)" "stays P (mthrow e)" "stays P (mlift r)" "stays P (mget g)"
  "(\<And>s. P s \<Longrightarrow> P (h s)) \<Longrightarrow> stays P (mmod h)"
  by (simp_all add: stays_def)

lemma stays_mbind [stays_intros]: "stays P f \<Longrightarrow> (\<And>a. stays P (g a)) \<Longrightarrow> stays P (mbind f g)"
  by (force simp: stays_def mbind_def split: prod.split sum.split)

lemma stays_mseq [stays_intros]: "stays P f \<Longrightarrow> stays P g \<Longrightarrow> stays P (mseq f g)"
  unfolding mseq_def by (rule stays_mbind)

lemma stays_if [stays_intros]:
  "stays P f \<Longrightarrow> stays P g \<Longrightarrow> stays P (if b then f else g)"
  "stays P w \<Longrightarrow> stays P (mwhen b w)"
  by (simp_all add: mwhen_def stays_basic)

lemma stays_option [stays_intros]:
  "stays P f \<Longrightarrow> (\<And>x. stays P (g x)) \<Longrightarrow> stays P (case y of None \<Rightarrow> f | Some x \<Rightarrow> g x)"
  by (cases y) simp_all

lemma stays_prod [stays_intros]: "(\<And>x y. stays P (g x y)) \<Longrightarrow> stays P (case z of (x, y) \<Rightarrow> g x y)"
  by (cases z) simp

lemma stays_bool [stays_intros]: "stays P f \<Longrightarrow> stays P g \<Longrightarrow> stays P (case b of True \<Rightarrow> f | False \<Rightarrow> g)"
  by (cases b) simp_all

text \<open>\<open>valid P f Q\<close>: run where \<open>P\<close> holds, \<open>f\<close> throws or ends with a result and a state in \<open>Q\<close>.\<close>

definition valid :: "('s \<Rightarrow> bool) \<Rightarrow> ('s, 'a) m \<Rightarrow> ('a \<Rightarrow> 's \<Rightarrow> bool) \<Rightarrow> bool" where
  "valid P f Q \<longleftrightarrow> (\<forall>s a s'. P s \<longrightarrow> f s = (Inr a, s') \<longrightarrow> Q a s')"

named_theorems valid_intros

lemma validD: "valid P f Q \<Longrightarrow> f s = (Inr a, s') \<Longrightarrow> P s \<Longrightarrow> Q a s'"
  by (auto simp: valid_def)

lemma valid_mbind: "valid P f R \<Longrightarrow> (\<And>a. valid (R a) (g a) Q) \<Longrightarrow> valid P (mbind f g) Q"
  unfolding valid_def by (metis mbind_Inr_iff)

lemma valid_mseq: "valid P f R \<Longrightarrow> (\<And>a. valid (R a) g Q) \<Longrightarrow> valid P (mseq f g) Q"
  unfolding mseq_def by (rule valid_mbind)

lemma valid_basic [valid_intros]:
  "(\<And>s. P s \<Longrightarrow> Q a s) \<Longrightarrow> valid P (mret a) Q"
  "valid P (mthrow e) Q"
  "(\<And>x. valid (\<lambda>s. P s \<and> g s = x) (f x) Q) \<Longrightarrow> valid P (mbind (mget g) f) Q"
  "valid (\<lambda>s. \<exists>s0. P s0 \<and> s = h s0) f2 Q \<Longrightarrow> valid P (mseq (mmod h) f2) Q"
  "(\<And>s. P s \<Longrightarrow> Q5 () (h s)) \<Longrightarrow> valid P (mmod h) Q5"
  "(\<And>a. r = Inr a \<Longrightarrow> valid P (f3 a) Q) \<Longrightarrow> valid P (mbind (mlift r) f3) Q"
  by (auto simp: valid_def mlift_def mbind_def split: sum.splits)

lemma valid_split [valid_intros]:
  "(b \<Longrightarrow> valid P f Q) \<Longrightarrow> (\<not> b \<Longrightarrow> valid P g Q) \<Longrightarrow> valid P (if b then f else g) Q"
  "(y = None \<Longrightarrow> valid P f2 Q) \<Longrightarrow> (\<And>x. y = Some x \<Longrightarrow> valid P (g2 x) Q)
     \<Longrightarrow> valid P (case y of None \<Rightarrow> f2 | Some x \<Rightarrow> g2 x) Q"
  "(\<And>x1 x2. z = (x1, x2) \<Longrightarrow> valid P (g3 x1 x2) Q) \<Longrightarrow> valid P (case z of (x1, x2) \<Rightarrow> g3 x1 x2) Q"
  by ((cases b; simp), (cases y; simp), (cases z; simp))

text \<open>A step that keeps what the precondition speaks of can be passed over.\<close>

lemma valid_skip: "keeps p f \<Longrightarrow> (\<And>s. P s \<longleftrightarrow> R (p s)) \<Longrightarrow> (\<And>a. valid P (g a) Q) \<Longrightarrow> valid P (mbind f g) Q"
  unfolding valid_def keeps_def by (metis mbind_Inr_iff snd_conv)

lemma valid_skip_seq: "keeps p f \<Longrightarrow> (\<And>s. P s \<longleftrightarrow> R (p s)) \<Longrightarrow> valid P g Q \<Longrightarrow> valid P (mseq f g) Q"
  unfolding mseq_def by (rule valid_skip)

lemma valid_kept: "keeps p f \<Longrightarrow> (\<And>s. P s \<longleftrightarrow> R (p s)) \<Longrightarrow> valid P f (\<lambda>_. P)"
  unfolding valid_def keeps_def by (metis snd_conv)

subsection \<open>Fixed-width integers in buffers\<close>

text \<open>\<open>be n x\<close>: the \<open>n\<close> low bytes of \<open>x\<close>, most significant first; \<open>unbe\<close> reads them back.\<close>

fun be :: "nat \<Rightarrow> nat \<Rightarrow> bytes" where
  "be 0 x = []"
| "be (Suc n) x = be n (x div 256) @ [of_nat x]"

definition unbe :: "bytes \<Rightarrow> nat" where
  "unbe bs = foldl (\<lambda>a b. a * 256 + unat b) 0 bs"

definition le :: "nat \<Rightarrow> nat \<Rightarrow> bytes" where
  "le n x = rev (be n x)"

definition unle :: "bytes \<Rightarrow> nat" where
  "unle bs = unbe (rev bs)"

lemma length_be [simp]: "length (be n x) = n"
  by (induction n arbitrary: x) auto

lemma length_le [simp]: "length (le n x) = n"
  by (simp add: le_def)

lemma unbe_snoc [simp]: "unbe (bs @ [b]) = unbe bs * 256 + unat b"
  by (simp add: unbe_def)

lemma unbe_Nil [simp]: "unbe [] = 0"
  by (simp add: unbe_def)

lemma unat_byte_lt [simp]: "unat (b :: byte) < 256"
  using unsigned_less [of b] by simp

lemma unat_of_nat_byte [simp]: "unat (of_nat x :: byte) = x mod 256"
  by (simp add: unat_of_nat)

lemma unbe_be [simp]: "unbe (be n x) = x mod 256 ^ n"
proof (induction n arbitrary: x)
  case 0
  then show ?case by simp
next
  case (Suc n)
  have "x mod (256 * 256 ^ n) = 256 * (x div 256 mod 256 ^ n) + x mod 256"
    by (rule mod_mult2_eq)
  with Suc show ?case by (simp add: mult.commute)
qed

lemma unbe_bound: "unbe bs < 256 ^ length bs"
proof (induction bs rule: rev_induct)
  case Nil
  then show ?case by simp
next
  case (snoc b bs)
  have "unbe bs * 256 + unat b < (unbe bs + 1) * 256" by simp
  also have "\<dots> \<le> 256 ^ length bs * 256" using snoc.IH by (intro mult_right_mono) auto
  finally show ?case by (simp add: mult.commute)
qed

lemma be_unbe [simp]: "be (length bs) (unbe bs) = bs"
proof (induction bs rule: rev_induct)
  case Nil
  then show ?case by simp
next
  case (snoc b bs)
  have "(unbe bs * 256 + unat b) div 256 = unbe bs" by simp
  moreover have "(of_nat (unbe bs * 256 + unat b) :: byte) = b"
    by (simp add: word_unat_eq_iff unat_of_nat del: of_nat_add of_nat_mult)
  ultimately show ?case using snoc.IH by simp
qed

lemma be_inj: "x < 256 ^ n \<Longrightarrow> y < 256 ^ n \<Longrightarrow> be n x = be n y \<Longrightarrow> x = y"
  by (metis mod_less unbe_be)

lemma unle_le [simp]: "unle (le n x) = x mod 256 ^ n"
  by (simp add: unle_def le_def)

lemma le_unle [simp]: "le (length bs) (unle bs) = bs"
  using be_unbe [of "rev bs"] by (simp add: unle_def le_def)

lemma unle_bound: "unle bs < 256 ^ length bs"
  using unbe_bound [of "rev bs"] by (simp add: unle_def)

text \<open>The 4-byte big-endian index of a key, from an unsigned 32-bit number.\<close>

definition be32 :: "u32 \<Rightarrow> bytes" where
  "be32 w = be 4 (unat w)"

definition unbe32 :: "bytes \<Rightarrow> u32" where
  "unbe32 bs = of_nat (unbe bs)"

lemma length_be32 [simp]: "length (be32 w) = 4"
  by (simp add: be32_def)

lemma unat_u32_lt: "unat (w :: u32) < 256 ^ 4"
  using unsigned_less [of w] by simp

lemma unbe32_be32 [simp]: "unbe32 (be32 w) = w"
  using unat_u32_lt [of w] by (simp add: unbe32_def be32_def)

lemma be32_inj [simp]: "be32 v = be32 w \<longleftrightarrow> v = w"
  by (metis unbe32_be32)

lemma be32_unbe32: "length bs = 4 \<Longrightarrow> be32 (unbe32 bs) = bs"
proof -
  assume l: "length bs = 4"
  have "unbe bs < 256 ^ 4" using unbe_bound [of bs] l by simp
  then have "unat (of_nat (unbe bs) :: u32) = unbe bs" by (simp add: unat_of_nat)
  then show ?thesis using be_unbe [of bs] l by (simp add: be32_def unbe32_def)
qed

subsection \<open>The bytewise order\<close>

text \<open>
  LevelDB compares keys byte by byte, a proper prefix first: the lexicographic order of
  byte lists. A scan bounded by a prefix and by that prefix followed by enough 0xFF bytes meets
  exactly the keys that start with the prefix.
\<close>

lemma Cons_le_Cons_iff:
  "x # xs \<le> y # (ys :: 'a :: linorder list) \<longleftrightarrow> x < y \<or> x = y \<and> xs \<le> ys"
  by (auto simp: list_le_def list_less_def)

lemma Nil_le [simp]: "[] \<le> (ys :: 'a :: linorder list)"
  by (cases ys) (auto simp: list_le_def list_less_def)

lemma le_append_right [simp]: "xs \<le> xs @ (ys :: 'a :: linorder list)"
  by (induction xs) (auto simp: Cons_le_Cons_iff)

lemma append_le_cancel [simp]: "p @ xs \<le> p @ (ys :: 'a :: linorder list) \<longleftrightarrow> xs \<le> ys"
  by (induction p) (auto simp: Cons_le_Cons_iff)

lemma append_less_cancel [simp]: "p @ xs < p @ (ys :: 'a :: linorder list) \<longleftrightarrow> xs < ys"
  by (simp add: less_le)

lemma byte_le_max: "(b :: byte) \<le> 255"
  by (simp add: word_le_nat_alt less_Suc_eq_le [symmetric])

lemma le_replicate_max: "length xs \<le> n \<Longrightarrow> xs \<le> replicate n (255 :: byte)"
proof (induction xs arbitrary: n)
  case Nil
  then show ?case by (cases n) (auto simp: list_le_def list_less_def)
next
  case (Cons x xs)
  then obtain m where n: "n = Suc m" by (cases n) auto
  have "xs \<le> replicate m 255" using Cons n by simp
  moreover have "x \<le> 255" by (rule byte_le_max)
  ultimately show ?case by (auto simp: n Cons_le_Cons_iff le_less)
qed

lemma between_prefix:
  assumes "p \<le> k" and "k \<le> p @ (s :: 'a :: linorder list)"
  shows "prefix p k"
  using assms
proof (induction p arbitrary: k)
  case Nil
  then show ?case by simp
next
  case (Cons x p)
  then obtain y k' where k: "k = y # k'" by (cases k) (auto simp: list_le_def list_less_def)
  from Cons.prems have "x < y \<or> x = y \<and> p \<le> k'" and "y < x \<or> y = x \<and> k' \<le> p @ s"
    by (auto simp: k Cons_le_Cons_iff)
  then have "x = y" and "p \<le> k'" and "k' \<le> p @ s" by auto
  with Cons.IH [of k'] show ?case by (simp add: k)
qed

subsection \<open>Association lists as JavaScript Maps\<close>

text \<open>
  A Map keeps its entries in insertion order and replaces a value in place: \<open>AList.update\<close> and
  \<open>AList.delete\<close> on a list of pairs with distinct keys.
\<close>

lemma map_of_update [simp]: "map_of (AList.update k v al) = (map_of al)(k \<mapsto> v)"
  by (simp add: update_conv')

lemma map_of_delete [simp]: "map_of (AList.delete k al) = (map_of al)(k := None)"
  by (simp add: delete_conv')

lemma distinct_update [simp]: "distinct (map fst al) \<Longrightarrow> distinct (map fst (AList.update k v al))"
  by (rule AList.distinct_update)

lemma distinct_delete [simp]: "distinct (map fst al) \<Longrightarrow> distinct (map fst (AList.delete k al))"
  by (rule AList.distinct_delete)

subsection \<open>Lists\<close>

lemma take_exact [simp]: "length xs = n \<Longrightarrow> take n (xs @ ys) = xs"
  by simp

lemma drop_exact [simp]: "length xs = n \<Longrightarrow> drop n (xs @ ys) = ys"
  by simp

text \<open>\<open>buf.slice(a, b)\<close>: the bytes from offset \<open>a\<close> up to \<open>b\<close>.\<close>

definition slice :: "nat \<Rightarrow> nat \<Rightarrow> 'a list \<Rightarrow> 'a list" where
  "slice a b xs = take (b - a) (drop a xs)"

lemma length_slice [simp]: "length (slice a b xs) = min (b - a) (length xs - a)"
  by (simp add: slice_def)

lemma slice_append_right: "length xs \<le> a \<Longrightarrow> slice a b (xs @ ys) = slice (a - length xs) (b - length xs) ys"
  by (simp add: slice_def)

lemma slice_exact: "length xs = a \<Longrightarrow> a + length ys = b \<Longrightarrow> slice a b (xs @ ys @ zs) = ys"
  by (auto simp: slice_def)

lemma fold_fun_upd_const:
  "fold (\<lambda>k m. m(f k := v)) ks m x = (if x \<in> f ` set ks then v else m x)"
  by (induction ks arbitrary: m) auto

end
