(* ===== verification/Hexadecimal.thy ===== *)
theory Hexadecimal
  imports Prelude
begin

text \<open>
  Text forms of bytes and numbers: the hexadecimal printing and parsing of
  \<^verbatim>\<open>src/store/level_up_db/key_codec.js\<close> (h2b, b2h) and \<^verbatim>\<open>src/common/util.js\<close>
  (uint8ArrayToHex), decimal numbers, and the page cursor \<^verbatim>\<open><txid>:<vout>\<close> of the address
  queries with its parser. Printing and parsing are shown to be inverse, which is what allows
  the rest of the development to represent a hexadecimal string by the bytes it denotes.
\<close>

subsection \<open>Characters\<close>

definition digit_char :: "nat \<Rightarrow> char" where
  "digit_char d = char_of (if d < 10 then 48 + d else 87 + d)"

definition hexval :: "char \<Rightarrow> nat option" where
  "hexval c = (let n = (of_char c :: nat) in
     if 48 \<le> n \<and> n \<le> 57 then Some (n - 48)
     else if 97 \<le> n \<and> n \<le> 102 then Some (n - 87)
     else if 65 \<le> n \<and> n \<le> 70 then Some (n - 55)
     else None)"

definition is_digit :: "char \<Rightarrow> bool" where
  "is_digit c = (let n = (of_char c :: nat) in 48 \<le> n \<and> n \<le> 57)"

subsection \<open>Hexadecimal\<close>

fun b2h :: "bytes \<Rightarrow> string" where
  "b2h [] = []"
| "b2h (b # bs) = digit_char (unat b div 16) # digit_char (unat b mod 16) # b2h bs"

text \<open>\<open>Buffer.from(hex, 'hex')\<close> stops at the first pair that is not two hex digits.\<close>

fun h2b :: "string \<Rightarrow> bytes" where
  "h2b (a # b # cs) = (case (hexval a, hexval b) of
       (Some x, Some y) \<Rightarrow> of_nat (16 * x + y) # h2b cs
     | _ \<Rightarrow> [])"
| "h2b _ = []"

text \<open>\<open>byte.toString(16).padStart(2, '0')\<close>, byte by byte.\<close>

definition toString16 :: "nat \<Rightarrow> string" where
  "toString16 n = (if n < 16 then [digit_char n] else [digit_char (n div 16), digit_char (n mod 16)])"

definition padStart :: "nat \<Rightarrow> char \<Rightarrow> string \<Rightarrow> string" where
  "padStart n c s = replicate (n - length s) c @ s"

definition uint8ArrayToHex :: "bytes \<Rightarrow> string" where
  "uint8ArrayToHex arr = foldl (\<lambda>hex byte. hex @ padStart 2 (CHR ''0'') (toString16 (unat byte))) [] arr"

subsection \<open>Decimal\<close>

fun dec :: "nat \<Rightarrow> string" where
  "dec n = (if n < 10 then [digit_char n] else dec (n div 10) @ [digit_char (n mod 10)])"

declare dec.simps [simp del]

definition decint :: "int \<Rightarrow> string" where
  "decint i = (if i < 0 then CHR ''-'' # dec (nat (- i)) else dec (nat i))"

definition undec :: "string \<Rightarrow> nat" where
  "undec s = foldl (\<lambda>a c. a * 10 + (of_char c - 48)) 0 s"

subsection \<open>Numbers in base 16\<close>

text \<open>
  \<open>n.toString(16)\<close> on an integer, and \<open>parseInt(s, 16)\<close>: white space, a sign and a \<open>0x\<close> are
  skipped, the longest run of hexadecimal digits is read, and no digit at all is NaN (\<open>None\<close>).
\<close>

fun hexnum :: "nat \<Rightarrow> string" where
  "hexnum n = (if n < 16 then [digit_char n] else hexnum (n div 16) @ [digit_char (n mod 16)])"

declare hexnum.simps [simp del]

definition hexint :: "int \<Rightarrow> string" where
  "hexint i = (if i < 0 then CHR ''-'' # hexnum (nat (- i)) else hexnum (nat i))"

definition is_space :: "char \<Rightarrow> bool" where
  "is_space c \<longleftrightarrow> of_char c \<in> {9, 10, 11, 12, 13, 32 :: nat}"

definition hexrun :: "string \<Rightarrow> nat option" where
  "hexrun s = (let ds = takeWhile (\<lambda>c. hexval c \<noteq> None) s in
     if ds = [] then None else Some (foldl (\<lambda>a c. a * 16 + the (hexval c)) 0 ds))"

definition skip0x :: "string \<Rightarrow> string" where
  "skip0x s = (case s of c # x # rest \<Rightarrow> if c = CHR ''0'' \<and> (x = CHR ''x'' \<or> x = CHR ''X'') then rest else s
     | _ \<Rightarrow> s)"

definition parseInt16 :: "string \<Rightarrow> int option" where
  "parseInt16 s0 = (case dropWhile is_space s0 of
     [] \<Rightarrow> None
   | c # s \<Rightarrow>
       if c = CHR ''-'' then map_option (\<lambda>n. - int n) (hexrun (skip0x s))
       else map_option int (hexrun (skip0x (if c = CHR ''+'' then s else c # s))))"

definition parseInt10 :: "string \<Rightarrow> int option" where
  "parseInt10 s0 = (case dropWhile is_space s0 of
     [] \<Rightarrow> None
   | c # s \<Rightarrow>
       let neg = (c = CHR ''-''); rest = (if c = CHR ''-'' \<or> c = CHR ''+'' then s else c # s);
           ds = takeWhile is_digit rest in
       if ds = [] then None else Some (if neg then - int (undec ds) else int (undec ds)))"

subsection \<open>The page cursor\<close>

text \<open>
  \<open>parseOutputCursor\<close>: the text before the first colon must be 64 hex digits and the text after
  it a decimal number that fits in 32 bits; anything else is null.
\<close>

definition parseOutputCursor :: "string \<Rightarrow> (bytes \<times> u32) option" where
  "parseOutputCursor cursor =
     (let sep = length (takeWhile (\<lambda>c. c \<noteq> CHR '':'') cursor) in
      if sep = length cursor \<or> sep = 0 then None
      else let txidHex = take sep cursor; voutStr = drop (Suc sep) cursor in
        if \<not> (length txidHex = 64 \<and> list_all (\<lambda>c. hexval c \<noteq> None) txidHex) then None
        else if \<not> (voutStr \<noteq> [] \<and> list_all is_digit voutStr) then None
        else let vout = undec voutStr in
          if vout > 4294967295 then None else Some (h2b txidHex, of_nat vout))"

text \<open>The cursor a page hands back: \<open>txid + ':' + vout\<close> of its last row.\<close>

definition printOutputCursor :: "bytes \<Rightarrow> u32 \<Rightarrow> string" where
  "printOutputCursor txid vout = b2h txid @ CHR '':'' # dec (unat vout)"

subsection \<open>Lemmas\<close>

lemma of_char_digit_char [simp]:
  "d < 16 \<Longrightarrow> (of_char (digit_char d) :: nat) = (if d < 10 then 48 + d else 87 + d)"
  by (simp add: digit_char_def)

lemma hexval_digit_char [simp]: "d < 16 \<Longrightarrow> hexval (digit_char d) = Some d"
  by (auto simp: hexval_def Let_def)

lemma digit_char_neq_colon [simp]: "d < 16 \<Longrightarrow> digit_char d \<noteq> CHR '':''"
proof
  assume "d < 16" and "digit_char d = CHR '':''"
  then have "(of_char (digit_char d) :: nat) = of_char CHR '':''" by simp
  with \<open>d < 16\<close> show False by (simp split: if_splits)
qed

lemma length_b2h [simp]: "length (b2h bs) = 2 * length bs"
  by (induction bs) auto

lemma b2h_append [simp]: "b2h (xs @ ys) = b2h xs @ b2h ys"
  by (induction xs) auto

lemma unat_div16_lt [simp]: "unat (b :: byte) div 16 < 16"
  by (rule less_mult_imp_div_less) simp

lemma byte_nibbles: "(of_nat (16 * (unat b div 16) + unat b mod 16) :: byte) = b"
  by simp

lemma h2b_b2h [simp]: "h2b (b2h bs) = bs"
  by (induction bs) (simp_all add: byte_nibbles del: of_nat_add of_nat_mult)

lemma b2h_inject [simp]: "b2h xs = b2h ys \<longleftrightarrow> xs = ys"
  by (metis h2b_b2h)

lemma b2h_hex: "list_all (\<lambda>c. hexval c \<noteq> None) (b2h bs)"
  by (induction bs) auto

lemma b2h_no_colon: "CHR '':'' \<notin> set (b2h bs)"
proof (induction bs)
  case Nil
  then show ?case by simp
next
  case (Cons b bs)
  have "digit_char (unat b div 16) \<noteq> CHR '':''" and "digit_char (unat b mod 16) \<noteq> CHR '':''"
    by (rule digit_char_neq_colon; simp)+
  with Cons show ?case by (auto dest: sym)
qed

lemma length_h2b: "list_all (\<lambda>c. hexval c \<noteq> None) s \<Longrightarrow> length (h2b s) = length s div 2"
  by (induction s rule: h2b.induct) auto

lemma dec_nonempty [simp]: "dec n \<noteq> []"
  by (subst dec.simps) simp

lemma is_digit_digit_char [simp]: "d < 10 \<Longrightarrow> is_digit (digit_char d)"
  by (simp add: is_digit_def)

lemma dec_digits: "list_all is_digit (dec n)"
proof (induction n rule: dec.induct)
  case (1 n)
  then show ?case by (subst dec.simps) auto
qed

lemma undec_snoc: "undec (s @ [c]) = undec s * 10 + (of_char c - 48)"
  by (simp add: undec_def)

lemma undec_dec [simp]: "undec (dec n) = n"
proof (induction n rule: dec.induct)
  case (1 n)
  show ?case
  proof (cases "n < 10")
    case True
    then show ?thesis by (subst dec.simps) (simp add: undec_def)
  next
    case False
    with 1 show ?thesis by (subst dec.simps) (simp add: undec_snoc)
  qed
qed

lemma char_of_48 [simp]: "char_of (48 :: nat) = CHR ''0''"
proof -
  have "char_of (of_char CHR ''0'' :: nat) = CHR ''0''" by (rule char_of_char)
  then show ?thesis by simp
qed

lemma hexnum_nonempty [simp]: "hexnum n \<noteq> []"
  by (subst hexnum.simps) simp

lemma hexnum_digits: "list_all (\<lambda>c. hexval c \<noteq> None) (hexnum n)"
proof (induction n rule: hexnum.induct)
  case (1 n)
  then show ?case by (subst hexnum.simps) simp
qed

lemma hexnum_value: "foldl (\<lambda>a c. a * 16 + the (hexval c)) 0 (hexnum n) = n"
proof (induction n rule: hexnum.induct)
  case (1 n)
  then show ?case by (subst hexnum.simps) simp
qed

lemma hexrun_hexnum: "hexrun (hexnum n) = Some n"
proof -
  have "takeWhile (\<lambda>c. hexval c \<noteq> None) (hexnum n) = hexnum n"
    using hexnum_digits [of n] by (simp add: list_all_iff)
  then show ?thesis by (simp only: hexrun_def Let_def hexnum_value hexnum_nonempty if_False)
qed

lemma hexval_x [simp]: "hexval CHR ''x'' = None" "hexval CHR ''X'' = None" "hexval CHR ''-'' = None"
  "hexval CHR ''+'' = None"
  by (simp_all add: hexval_def)

lemma skip0x_hexnum [simp]: "skip0x (hexnum n) = hexnum n"
proof -
  have "x \<noteq> CHR ''x'' \<and> x \<noteq> CHR ''X''" if "hexnum n = c # x # rest" for c x rest
    using hexnum_digits [of n] that by auto
  then show ?thesis by (auto simp: skip0x_def split: list.split)
qed

lemma hexval_not_space: "hexval c \<noteq> None \<Longrightarrow> \<not> is_space c"
  by (auto simp: hexval_def is_space_def split: if_splits)

lemma parseInt16_hexint: "parseInt16 (hexint i) = Some i"
proof -
  show ?thesis
  proof (cases "i < 0")
    case True
    have "\<not> is_space CHR ''-''" by (simp add: is_space_def)
    with True show ?thesis by (simp add: parseInt16_def hexint_def hexrun_hexnum)
  next
    case False
    obtain c cs where h: "hexnum (nat i) = c # cs" by (cases "hexnum (nat i)") auto
    then have v: "hexval c \<noteq> None" using hexnum_digits [of "nat i"] by simp
    then have "\<not> is_space c" "c \<noteq> CHR ''-''" "c \<noteq> CHR ''+''"
      using hexval_not_space by auto
    with False show ?thesis
      using hexrun_hexnum [of "nat i"] skip0x_hexnum [of "nat i"]
      by (simp add: parseInt16_def hexint_def h)
  qed
qed

lemma toString16_pad: "n < 256 \<Longrightarrow>
    padStart 2 (CHR ''0'') (toString16 n) = [digit_char (n div 16), digit_char (n mod 16)]"
  by (auto simp: padStart_def toString16_def digit_char_def)

lemma uint8ArrayToHex_acc:
  "foldl (\<lambda>hex byte. hex @ padStart 2 (CHR ''0'') (toString16 (unat byte))) acc arr = acc @ b2h arr"
  by (induction arr arbitrary: acc) (simp_all add: toString16_pad)

lemma takeWhile_cursor:
  "takeWhile (\<lambda>c. c \<noteq> CHR '':'') (b2h t @ CHR '':'' # xs) = b2h t"
  using b2h_no_colon [of t] by (subst takeWhile_append2) auto

lemma parse_printed_cursor:
  assumes "length txid = 32"
  shows "parseOutputCursor (printOutputCursor txid vout) = Some (txid, vout)"
proof -
  have "unat vout \<le> 4294967295" using unat_u32_lt [of vout] by simp
  then show ?thesis
    using assms b2h_hex [of txid] dec_digits [of "unat vout"]
    by (simp add: parseOutputCursor_def printOutputCursor_def takeWhile_cursor Let_def)
qed

subsection \<open>Properties\<close>

text \<open>
  C30. A page cursor survives the trip through its text: parsing the cursor printed for a
  32-byte txid and an output index gives them back, whatever the index.
\<close>

theorem output_cursor_roundtrip:
  assumes "length txid = 32"
  shows "parseOutputCursor (printOutputCursor txid vout) = Some (txid, vout)"
  using assms by (rule parse_printed_cursor)

theorem output_cursor_roundtrip_witness:
  "length (replicate 32 (0xAB :: byte)) = 32 \<and>
   parseOutputCursor (printOutputCursor (replicate 32 0xAB) 4294967295) = Some (replicate 32 0xAB, 4294967295)"
  using output_cursor_roundtrip [of "replicate 32 0xAB" 4294967295] by simp

text \<open>
  The hexadecimal printer used for wire hashes agrees with the Buffer printer, and parsing
  what either prints gives the bytes back.
\<close>

lemma uint8ArrayToHex_roundtrip:
  "uint8ArrayToHex bs = b2h bs \<and> h2b (uint8ArrayToHex bs) = bs"
  by (simp add: uint8ArrayToHex_def uint8ArrayToHex_acc)

end
