(* ===== verification/KeyCodec.thy ===== *)
theory KeyCodec
  imports Hexadecimal
begin

text \<open>
  The LevelDB key schema: the single-byte prefixes of
  \<^verbatim>\<open>src/store/level_up_db/constants.js\<close> and the key builders and range bound of
  \<^verbatim>\<open>src/store/level_up_db/key_codec.js\<close>. Each builder checks the width of its fields and
  then concatenates the prefix byte, the fields and the 4-byte index. The locale
  \<open>key_family\<close> states what a reader of the store relies on for one kind of key (fixed width,
  prefix byte, a parser that recovers the fields) and is interpreted for every builder.
\<close>

subsection \<open>Prefixes\<close>

definition P_BLOCK :: byte where "P_BLOCK = 0x42"
definition P_TX :: byte where "P_TX = 0x54"
definition P_INPUT :: byte where "P_INPUT = 0x49"
definition P_OUTPUT :: byte where "P_OUTPUT = 0x4F"
definition P_OUT_HINT :: byte where "P_OUT_HINT = 0x48"
definition P_IN_HINT :: byte where "P_IN_HINT = 0x4A"
definition P_SCRIPT_BLK :: byte where "P_SCRIPT_BLK = 0x53"
definition P_BLK_SCRIPT :: byte where "P_BLK_SCRIPT = 0x5A"
definition P_OUT_DEL :: byte where "P_OUT_DEL = 0x4B"
definition P_HINT_DEL :: byte where "P_HINT_DEL = 0x4D"
definition P_STORED_BLK :: byte where "P_STORED_BLK = 0x4E"
definition P_OUT_BLK :: byte where "P_OUT_BLK = 0x57"
definition P_TX_EXACT :: byte where "P_TX_EXACT = 0x58"
definition P_TX_BLOCK_RECOVERY :: byte where "P_TX_BLOCK_RECOVERY = 0x59"

text \<open>
  The metadata keys: \<open>LAST_BLOCK_HEIGHT\<close>, \<open>LAST_BLOCK_HASH\<close> and \<open>LAYOUT_VERSION\<close> as their UTF-8
  bytes, and the single-byte diagnostic keys P, Q and R.
\<close>

definition utf8 :: "string \<Rightarrow> bytes" where
  "utf8 s = map (\<lambda>c. of_nat (of_char c)) s"

definition PREFIX_LAST_BLOCK_HEIGHT :: bytes where
  "PREFIX_LAST_BLOCK_HEIGHT = utf8 ''LAST_BLOCK_HEIGHT''"

definition PREFIX_LAST_BLOCK_HASH :: bytes where
  "PREFIX_LAST_BLOCK_HASH = utf8 ''LAST_BLOCK_HASH''"

definition PREFIX_LAYOUT_VERSION :: bytes where
  "PREFIX_LAYOUT_VERSION = utf8 ''LAYOUT_VERSION''"

definition P_PENDING_CLEANUP_KEY :: bytes where "P_PENDING_CLEANUP_KEY = [0x50]"
definition Q_UNDO_WATERMARK_KEY :: bytes where "Q_UNDO_WATERMARK_KEY = [0x51]"
definition HALT_MARKER_KEY :: bytes where "HALT_MARKER_KEY = [0x52]"

lemmas prefix_defs = P_BLOCK_def P_TX_def P_INPUT_def P_OUTPUT_def P_OUT_HINT_def P_IN_HINT_def
  P_SCRIPT_BLK_def P_BLK_SCRIPT_def P_OUT_DEL_def P_HINT_DEL_def P_STORED_BLK_def P_OUT_BLK_def
  P_TX_EXACT_def P_TX_BLOCK_RECOVERY_def

subsection \<open>Range bound\<close>

definition MAX_KEY_LEN :: nat where "MAX_KEY_LEN = 101"

definition rangeEnd :: "bytes \<Rightarrow> bytes" where
  "rangeEnd p = p @ replicate (max 64 (MAX_KEY_LEN - length p)) 0xFF"

subsection \<open>Key builders\<close>

definition assertTxid :: "string \<Rightarrow> string \<Rightarrow> bytes \<Rightarrow> error + unit" where
  "assertTxid builder field hex =
     (if length hex \<noteq> 32 then Inl (KeyLength builder field (length hex)) else Inr ())"

definition kBlock :: "bytes \<Rightarrow> error + bytes" where
  "kBlock blockHash =
     (if length blockHash \<noteq> 32 then Inl (KeyLength ''kBlock'' ''blockHash'' (length blockHash))
      else Inr (P_BLOCK # blockHash))"

definition kTx :: "bytes \<Rightarrow> error + bytes" where
  "kTx txid = rbind (assertTxid ''kTx'' ''txid'' txid) (\<lambda>_. Inr (P_TX # txid))"

definition kInput :: "bytes \<Rightarrow> u32 \<Rightarrow> error + bytes" where
  "kInput prevTxid idx = rbind (assertTxid ''kInput'' ''prevTxid'' prevTxid)
     (\<lambda>_. Inr (P_INPUT # prevTxid @ be32 idx))"

definition kOutput :: "bytes \<Rightarrow> bytes \<Rightarrow> u32 \<Rightarrow> error + bytes" where
  "kOutput script txid idx =
     (if length script \<noteq> 32 then Inl (KeyLength ''kOutput'' ''scriptPubKey'' (length script))
      else rbind (assertTxid ''kOutput'' ''txid'' txid)
        (\<lambda>_. Inr (P_OUTPUT # script @ txid @ be32 idx)))"

definition kOutHint :: "bytes \<Rightarrow> u32 \<Rightarrow> error + bytes" where
  "kOutHint txid idx = rbind (assertTxid ''kOutHint'' ''txid'' txid)
     (\<lambda>_. Inr (P_OUT_HINT # txid @ be32 idx))"

definition kInHint :: "bytes \<Rightarrow> bytes \<Rightarrow> u32 \<Rightarrow> error + bytes" where
  "kInHint txid prevTxid idx = rbind (assertTxid ''kInHint'' ''txid'' txid)
     (\<lambda>_. rbind (assertTxid ''kInHint'' ''prevTxid'' prevTxid)
       (\<lambda>_. Inr (P_IN_HINT # txid @ prevTxid @ be32 idx)))"

definition kScriptBlk :: "bytes \<Rightarrow> error + bytes" where
  "kScriptBlk script =
     (if length script \<noteq> 32 then Inl (KeyLength ''kScriptBlk'' ''scriptPubKey'' (length script))
      else Inr (P_SCRIPT_BLK # script))"

definition kScriptBlkFromBuf :: "bytes \<Rightarrow> error + bytes" where
  "kScriptBlkFromBuf scriptBuf =
     (if length scriptBuf \<noteq> 32
      then Inl (KeyLength ''kScriptBlkFromBuf'' ''scriptPubKey'' (length scriptBuf))
      else Inr (P_SCRIPT_BLK # scriptBuf))"

definition kBlkScript :: "bytes \<Rightarrow> bytes \<Rightarrow> error + bytes" where
  "kBlkScript blockHash script =
     (if length blockHash \<noteq> 32 then Inl (KeyLength ''kBlkScript'' ''blockHash'' (length blockHash))
      else if length script \<noteq> 32 then Inl (KeyLength ''kBlkScript'' ''scriptPubKey'' (length script))
      else Inr (P_BLK_SCRIPT # blockHash @ script))"

definition kBlkScriptFromBuf :: "bytes \<Rightarrow> bytes \<Rightarrow> error + bytes" where
  "kBlkScriptFromBuf blockHash scriptBuf =
     (if length blockHash \<noteq> 32
      then Inl (KeyLength ''kBlkScriptFromBuf'' ''blockHash'' (length blockHash))
      else if length scriptBuf \<noteq> 32
      then Inl (KeyLength ''kBlkScriptFromBuf'' ''scriptPubKey'' (length scriptBuf))
      else Inr (P_BLK_SCRIPT # blockHash @ scriptBuf))"

definition kOutDel :: "bytes \<Rightarrow> bytes \<Rightarrow> bytes \<Rightarrow> u32 \<Rightarrow> error + bytes" where
  "kOutDel blockHash script txid idx =
     (if length blockHash \<noteq> 32 then Inl (KeyLength ''kOutDel'' ''blockHash'' (length blockHash))
      else if length script \<noteq> 32 then Inl (KeyLength ''kOutDel'' ''scriptPubKey'' (length script))
      else rbind (assertTxid ''kOutDel'' ''txid'' txid)
        (\<lambda>_. Inr (P_OUT_DEL # blockHash @ script @ txid @ be32 idx)))"

definition kHintDel :: "bytes \<Rightarrow> bytes \<Rightarrow> u32 \<Rightarrow> error + bytes" where
  "kHintDel blockHash txid idx =
     (if length blockHash \<noteq> 32 then Inl (KeyLength ''kHintDel'' ''blockHash'' (length blockHash))
      else rbind (assertTxid ''kHintDel'' ''txid'' txid)
        (\<lambda>_. Inr (P_HINT_DEL # blockHash @ txid @ be32 idx)))"

definition kStoredBlk :: "bytes \<Rightarrow> error + bytes" where
  "kStoredBlk blockHash =
     (if length blockHash \<noteq> 32 then Inl (KeyLength ''kStoredBlk'' ''blockHash'' (length blockHash))
      else Inr (P_STORED_BLK # blockHash))"

definition kOutBlk :: "bytes \<Rightarrow> bytes \<Rightarrow> u32 \<Rightarrow> error + bytes" where
  "kOutBlk blockHash txid idx =
     (if length blockHash \<noteq> 32 then Inl (KeyLength ''kOutBlk'' ''blockHash'' (length blockHash))
      else rbind (assertTxid ''kOutBlk'' ''txid'' txid)
        (\<lambda>_. Inr (P_OUT_BLK # blockHash @ txid @ be32 idx)))"

definition kTxExact :: "bytes \<Rightarrow> error + bytes" where
  "kTxExact txid =
     (if length txid \<noteq> 32 then Inl (KeyLength ''kTxExact'' ''txid'' (length txid))
      else Inr (P_TX_EXACT # txid))"

definition kTxBlockRecovery :: "bytes \<Rightarrow> bytes \<Rightarrow> error + bytes" where
  "kTxBlockRecovery blockHash txid =
     (if length blockHash \<noteq> 32
      then Inl (KeyLength ''kTxBlockRecovery'' ''blockHash'' (length blockHash))
      else rbind (assertTxid ''kTxBlockRecovery'' ''txid'' txid)
        (\<lambda>_. Inr (P_TX_BLOCK_RECOVERY # blockHash @ txid)))"

definition kOutputFromBuf :: "bytes \<Rightarrow> bytes \<Rightarrow> u32 \<Rightarrow> error + bytes" where
  "kOutputFromBuf scriptPubKeyBuf txid idx =
     (if length scriptPubKeyBuf \<noteq> 32
      then Inl (KeyLength ''kOutputFromBuf'' ''scriptPubKey'' (length scriptPubKeyBuf))
      else rbind (assertTxid ''kOutputFromBuf'' ''txid'' txid)
        (\<lambda>_. Inr (P_OUTPUT # scriptPubKeyBuf @ txid @ be32 idx)))"

definition kOutDelFromBuf :: "bytes \<Rightarrow> bytes \<Rightarrow> bytes \<Rightarrow> u32 \<Rightarrow> error + bytes" where
  "kOutDelFromBuf blockHash scriptPubKeyBuf txid idx =
     (if length blockHash \<noteq> 32
      then Inl (KeyLength ''kOutDelFromBuf'' ''blockHash'' (length blockHash))
      else if length scriptPubKeyBuf \<noteq> 32
      then Inl (KeyLength ''kOutDelFromBuf'' ''scriptPubKey'' (length scriptPubKeyBuf))
      else rbind (assertTxid ''kOutDelFromBuf'' ''txid'' txid)
        (\<lambda>_. Inr (P_OUT_DEL # blockHash @ scriptPubKeyBuf @ txid @ be32 idx)))"

text \<open>\<open>toMapKey\<close>: the latin1 string of a key, one character per byte, and its inverse.\<close>

definition toMapKey :: "bytes \<Rightarrow> string" where
  "toMapKey k = map (\<lambda>b. char_of (unat b)) k"

definition fromMapKey :: "string \<Rightarrow> bytes" where
  "fromMapKey s = map (\<lambda>c. of_nat (of_char c)) s"

subsection \<open>Key descriptors\<close>

text \<open>
  The keys the store writes, as data: one constructor per kind of record, and the builder that
  makes its key.
\<close>

datatype key_desc =
    K_B bytes
  | K_T bytes
  | K_I bytes u32
  | K_O bytes bytes u32
  | K_H bytes u32
  | K_J bytes bytes u32
  | K_S bytes
  | K_Z bytes bytes
  | K_K bytes bytes bytes u32
  | K_M bytes bytes u32
  | K_N bytes
  | K_W bytes bytes u32
  | K_X bytes
  | K_Y bytes bytes

fun build_key :: "key_desc \<Rightarrow> error + bytes" where
  "build_key (K_B h) = kBlock h"
| "build_key (K_T t) = kTx t"
| "build_key (K_I t i) = kInput t i"
| "build_key (K_O s t i) = kOutput s t i"
| "build_key (K_H t i) = kOutHint t i"
| "build_key (K_J t u i) = kInHint t u i"
| "build_key (K_S s) = kScriptBlk s"
| "build_key (K_Z h s) = kBlkScript h s"
| "build_key (K_K h s t i) = kOutDel h s t i"
| "build_key (K_M h t i) = kHintDel h t i"
| "build_key (K_N h) = kStoredBlk h"
| "build_key (K_W h t i) = kOutBlk h t i"
| "build_key (K_X t) = kTxExact t"
| "build_key (K_Y h t) = kTxBlockRecovery h t"

text \<open>The key as a plain concatenation, which is what a builder gives once its guards pass.\<close>

definition bKey :: "bytes \<Rightarrow> bytes" where "bKey h = P_BLOCK # h"
definition tKey :: "bytes \<Rightarrow> bytes" where "tKey t = P_TX # t"
definition iKey :: "bytes \<Rightarrow> u32 \<Rightarrow> bytes" where "iKey t i = P_INPUT # t @ be32 i"
definition oKey :: "bytes \<Rightarrow> bytes \<Rightarrow> u32 \<Rightarrow> bytes" where "oKey s t i = P_OUTPUT # s @ t @ be32 i"
definition hKey :: "bytes \<Rightarrow> u32 \<Rightarrow> bytes" where "hKey t i = P_OUT_HINT # t @ be32 i"
definition jKey :: "bytes \<Rightarrow> bytes \<Rightarrow> u32 \<Rightarrow> bytes" where "jKey t u i = P_IN_HINT # t @ u @ be32 i"
definition sKey :: "bytes \<Rightarrow> bytes" where "sKey s = P_SCRIPT_BLK # s"
definition zKey :: "bytes \<Rightarrow> bytes \<Rightarrow> bytes" where "zKey h s = P_BLK_SCRIPT # h @ s"
definition kKey :: "bytes \<Rightarrow> bytes \<Rightarrow> bytes \<Rightarrow> u32 \<Rightarrow> bytes" where "kKey h s t i = P_OUT_DEL # h @ s @ t @ be32 i"
definition mKey :: "bytes \<Rightarrow> bytes \<Rightarrow> u32 \<Rightarrow> bytes" where "mKey h t i = P_HINT_DEL # h @ t @ be32 i"
definition nKey :: "bytes \<Rightarrow> bytes" where "nKey h = P_STORED_BLK # h"
definition wKey :: "bytes \<Rightarrow> bytes \<Rightarrow> u32 \<Rightarrow> bytes" where "wKey h t i = P_OUT_BLK # h @ t @ be32 i"
definition xKey :: "bytes \<Rightarrow> bytes" where "xKey t = P_TX_EXACT # t"
definition yKey :: "bytes \<Rightarrow> bytes \<Rightarrow> bytes" where "yKey h t = P_TX_BLOCK_RECOVERY # h @ t"

lemmas key_defs = bKey_def tKey_def iKey_def oKey_def hKey_def jKey_def sKey_def zKey_def kKey_def mKey_def nKey_def wKey_def xKey_def yKey_def

subsection \<open>What the builders compute\<close>

lemma builder_ok [codec_simps]:
  "length h = 32 \<Longrightarrow> kBlock h = Inr (bKey h)"
  "length t = 32 \<Longrightarrow> kTx t = Inr (tKey t)"
  "length t = 32 \<Longrightarrow> kInput t i = Inr (iKey t i)"
  "length s = 32 \<Longrightarrow> length t = 32 \<Longrightarrow> kOutput s t i = Inr (oKey s t i)"
  "length t = 32 \<Longrightarrow> kOutHint t i = Inr (hKey t i)"
  "length t = 32 \<Longrightarrow> length u = 32 \<Longrightarrow> kInHint t u i = Inr (jKey t u i)"
  "length s = 32 \<Longrightarrow> kScriptBlk s = Inr (sKey s)"
  "length h = 32 \<Longrightarrow> length s = 32 \<Longrightarrow> kBlkScript h s = Inr (zKey h s)"
  "length h = 32 \<Longrightarrow> length s = 32 \<Longrightarrow> length t = 32 \<Longrightarrow> kOutDel h s t i = Inr (kKey h s t i)"
  "length h = 32 \<Longrightarrow> length t = 32 \<Longrightarrow> kHintDel h t i = Inr (mKey h t i)"
  "length h = 32 \<Longrightarrow> kStoredBlk h = Inr (nKey h)"
  "length h = 32 \<Longrightarrow> length t = 32 \<Longrightarrow> kOutBlk h t i = Inr (wKey h t i)"
  "length t = 32 \<Longrightarrow> kTxExact t = Inr (xKey t)"
  "length h = 32 \<Longrightarrow> length t = 32 \<Longrightarrow> kTxBlockRecovery h t = Inr (yKey h t)"
  "length s = 32 \<Longrightarrow> kScriptBlkFromBuf s = Inr (sKey s)"
  "length h = 32 \<Longrightarrow> length s = 32 \<Longrightarrow> kBlkScriptFromBuf h s = Inr (zKey h s)"
  "length s = 32 \<Longrightarrow> length t = 32 \<Longrightarrow> kOutputFromBuf s t i = Inr (oKey s t i)"
  "length h = 32 \<Longrightarrow> length s = 32 \<Longrightarrow> length t = 32 \<Longrightarrow> kOutDelFromBuf h s t i = Inr (kKey h s t i)"
  by (simp_all add: kBlock_def kTx_def kInput_def kOutput_def kOutHint_def kInHint_def kScriptBlk_def kBlkScript_def kOutDel_def kHintDel_def kStoredBlk_def kOutBlk_def kTxExact_def kTxBlockRecovery_def kScriptBlkFromBuf_def kBlkScriptFromBuf_def kOutputFromBuf_def kOutDelFromBuf_def
      assertTxid_def key_defs)

lemma builder_Inr_iff:
  "kBlock h = Inr k \<longleftrightarrow> length h = 32 \<and> k = bKey h"
  "kTx t = Inr k \<longleftrightarrow> length t = 32 \<and> k = tKey t"
  "kInput t i = Inr k \<longleftrightarrow> length t = 32 \<and> k = iKey t i"
  "kOutput s t i = Inr k \<longleftrightarrow> length s = 32 \<and> length t = 32 \<and> k = oKey s t i"
  "kOutHint t i = Inr k \<longleftrightarrow> length t = 32 \<and> k = hKey t i"
  "kInHint t u i = Inr k \<longleftrightarrow> length t = 32 \<and> length u = 32 \<and> k = jKey t u i"
  "kScriptBlk s = Inr k \<longleftrightarrow> length s = 32 \<and> k = sKey s"
  "kBlkScript h s = Inr k \<longleftrightarrow> length h = 32 \<and> length s = 32 \<and> k = zKey h s"
  "kOutDel h s t i = Inr k \<longleftrightarrow> length h = 32 \<and> length s = 32 \<and> length t = 32 \<and> k = kKey h s t i"
  "kHintDel h t i = Inr k \<longleftrightarrow> length h = 32 \<and> length t = 32 \<and> k = mKey h t i"
  "kStoredBlk h = Inr k \<longleftrightarrow> length h = 32 \<and> k = nKey h"
  "kOutBlk h t i = Inr k \<longleftrightarrow> length h = 32 \<and> length t = 32 \<and> k = wKey h t i"
  "kTxExact t = Inr k \<longleftrightarrow> length t = 32 \<and> k = xKey t"
  "kTxBlockRecovery h t = Inr k \<longleftrightarrow> length h = 32 \<and> length t = 32 \<and> k = yKey h t"
  by (auto simp: kBlock_def kTx_def kInput_def kOutput_def kOutHint_def kInHint_def kScriptBlk_def kBlkScript_def kOutDel_def kHintDel_def kStoredBlk_def kOutBlk_def kTxExact_def kTxBlockRecovery_def
      assertTxid_def key_defs rbind_Inr_iff)

lemma length_keys [simp]:
  "length h = 32 \<Longrightarrow> length (bKey h) = 33"
  "length t = 32 \<Longrightarrow> length (tKey t) = 33"
  "length t = 32 \<Longrightarrow> length (iKey t i) = 37"
  "length s = 32 \<Longrightarrow> length t = 32 \<Longrightarrow> length (oKey s t i) = 69"
  "length t = 32 \<Longrightarrow> length (hKey t i) = 37"
  "length t = 32 \<Longrightarrow> length u = 32 \<Longrightarrow> length (jKey t u i) = 69"
  "length s = 32 \<Longrightarrow> length (sKey s) = 33"
  "length h = 32 \<Longrightarrow> length s = 32 \<Longrightarrow> length (zKey h s) = 65"
  "length h = 32 \<Longrightarrow> length s = 32 \<Longrightarrow> length t = 32 \<Longrightarrow> length (kKey h s t i) = 101"
  "length h = 32 \<Longrightarrow> length t = 32 \<Longrightarrow> length (mKey h t i) = 69"
  "length h = 32 \<Longrightarrow> length (nKey h) = 33"
  "length h = 32 \<Longrightarrow> length t = 32 \<Longrightarrow> length (wKey h t i) = 69"
  "length t = 32 \<Longrightarrow> length (xKey t) = 33"
  "length h = 32 \<Longrightarrow> length t = 32 \<Longrightarrow> length (yKey h t) = 65"
  by (simp_all add: key_defs)

lemma hd_keys [simp]:
  "hd (bKey h) = P_BLOCK"
  "hd (tKey t) = P_TX"
  "hd (iKey t i) = P_INPUT"
  "hd (oKey s t i) = P_OUTPUT"
  "hd (hKey t i) = P_OUT_HINT"
  "hd (jKey t u i) = P_IN_HINT"
  "hd (sKey s) = P_SCRIPT_BLK"
  "hd (zKey h s) = P_BLK_SCRIPT"
  "hd (kKey h s t i) = P_OUT_DEL"
  "hd (mKey h t i) = P_HINT_DEL"
  "hd (nKey h) = P_STORED_BLK"
  "hd (wKey h t i) = P_OUT_BLK"
  "hd (xKey t) = P_TX_EXACT"
  "hd (yKey h t) = P_TX_BLOCK_RECOVERY"
  by (simp_all add: key_defs)

lemma key_inject [simp]:
  "length h = 32 \<Longrightarrow> length h' = 32 \<Longrightarrow> 
     bKey h = bKey h' \<longleftrightarrow> h = h'"
  "length t = 32 \<Longrightarrow> length t' = 32 \<Longrightarrow> 
     tKey t = tKey t' \<longleftrightarrow> t = t'"
  "length t = 32 \<Longrightarrow> length t' = 32 \<Longrightarrow> 
     iKey t i = iKey t' i' \<longleftrightarrow> t = t' \<and> i = i'"
  "length s = 32 \<Longrightarrow> length s' = 32 \<Longrightarrow> length t = 32 \<Longrightarrow> length t' = 32 \<Longrightarrow> 
     oKey s t i = oKey s' t' i' \<longleftrightarrow> s = s' \<and> t = t' \<and> i = i'"
  "length t = 32 \<Longrightarrow> length t' = 32 \<Longrightarrow> 
     hKey t i = hKey t' i' \<longleftrightarrow> t = t' \<and> i = i'"
  "length t = 32 \<Longrightarrow> length t' = 32 \<Longrightarrow> length u = 32 \<Longrightarrow> length u' = 32 \<Longrightarrow> 
     jKey t u i = jKey t' u' i' \<longleftrightarrow> t = t' \<and> u = u' \<and> i = i'"
  "length s = 32 \<Longrightarrow> length s' = 32 \<Longrightarrow> 
     sKey s = sKey s' \<longleftrightarrow> s = s'"
  "length h = 32 \<Longrightarrow> length h' = 32 \<Longrightarrow> length s = 32 \<Longrightarrow> length s' = 32 \<Longrightarrow> 
     zKey h s = zKey h' s' \<longleftrightarrow> h = h' \<and> s = s'"
  "length h = 32 \<Longrightarrow> length h' = 32 \<Longrightarrow> length s = 32 \<Longrightarrow> length s' = 32 \<Longrightarrow> length t = 32 \<Longrightarrow> length t' = 32 \<Longrightarrow> 
     kKey h s t i = kKey h' s' t' i' \<longleftrightarrow> h = h' \<and> s = s' \<and> t = t' \<and> i = i'"
  "length h = 32 \<Longrightarrow> length h' = 32 \<Longrightarrow> length t = 32 \<Longrightarrow> length t' = 32 \<Longrightarrow> 
     mKey h t i = mKey h' t' i' \<longleftrightarrow> h = h' \<and> t = t' \<and> i = i'"
  "length h = 32 \<Longrightarrow> length h' = 32 \<Longrightarrow> 
     nKey h = nKey h' \<longleftrightarrow> h = h'"
  "length h = 32 \<Longrightarrow> length h' = 32 \<Longrightarrow> length t = 32 \<Longrightarrow> length t' = 32 \<Longrightarrow> 
     wKey h t i = wKey h' t' i' \<longleftrightarrow> h = h' \<and> t = t' \<and> i = i'"
  "length t = 32 \<Longrightarrow> length t' = 32 \<Longrightarrow> 
     xKey t = xKey t' \<longleftrightarrow> t = t'"
  "length h = 32 \<Longrightarrow> length h' = 32 \<Longrightarrow> length t = 32 \<Longrightarrow> length t' = 32 \<Longrightarrow> 
     yKey h t = yKey h' t' \<longleftrightarrow> h = h' \<and> t = t'"
  by (auto simp: key_defs)

subsection \<open>The contract of a kind of key\<close>

text \<open>
  What the readers of the store rely on for one kind of key: every key the builder accepts has
  one width, no wider than the range bound allows for, starts with the prefix byte, and its
  fields are recovered by slicing it.
\<close>

lemma prefix_le_key: "prefix p (k :: bytes) \<Longrightarrow> p \<le> k"
  by (auto simp: prefix_def)

lemma key_le_rangeEnd:
  assumes "prefix p k" and "length k \<le> MAX_KEY_LEN"
  shows "k \<le> rangeEnd p"
proof -
  from assms(1) obtain s where k: "k = p @ s" by (auto simp: prefix_def)
  with assms(2) have "length s \<le> max 64 (MAX_KEY_LEN - length p)" by simp
  then have "s \<le> replicate (max 64 (MAX_KEY_LEN - length p)) 0xFF" by (rule le_replicate_max)
  then show ?thesis by (simp add: k rangeEnd_def)
qed

lemma in_range_prefix: "p \<le> k \<Longrightarrow> k \<le> rangeEnd p \<Longrightarrow> prefix p k"
  unfolding rangeEnd_def by (rule between_prefix)

locale key_family =
  fixes pfx :: byte and width :: nat
    and key :: "'a \<Rightarrow> error + bytes" and parse :: "bytes \<Rightarrow> 'a"
  assumes key_width: "key a = Inr k \<Longrightarrow> length k = width"
    and key_prefix: "key a = Inr k \<Longrightarrow> hd k = pfx"
    and key_parse: "key a = Inr k \<Longrightarrow> parse k = a"
    and width_bounds: "1 \<le> width" "width \<le> MAX_KEY_LEN"
begin

lemma key_injective: "key a = Inr k \<Longrightarrow> key b = Inr k \<Longrightarrow> a = b"
  using key_parse by metis

lemma key_scanned: "key a = Inr k \<Longrightarrow> prefix p k \<Longrightarrow> p \<le> k \<and> k \<le> rangeEnd p"
  using prefix_le_key key_le_rangeEnd key_width width_bounds by metis

lemma key_scan_all: "key a = Inr k \<Longrightarrow> [pfx] \<le> k \<and> k \<le> rangeEnd [pfx]"
proof -
  assume a: "key a = Inr k"
  have "k = pfx # tl k"
    using key_width [OF a] key_prefix [OF a] width_bounds by (cases k) auto
  then have "prefix [pfx] k" by (metis append_Cons append_Nil prefix_def)
  with a show ?thesis by (rule key_scanned)
qed

lemma key_skipped: "key a = Inr k \<Longrightarrow> \<not> prefix p k \<Longrightarrow> \<not> (p \<le> k \<and> k \<le> rangeEnd p)"
  using in_range_prefix by blast

end

text \<open>The parsers: the offsets the readers slice a key at.\<close>

definition bKey_parse :: "bytes \<Rightarrow> bytes" where "bKey_parse k = slice 1 33 k"
definition tKey_parse :: "bytes \<Rightarrow> bytes" where "tKey_parse k = slice 1 33 k"
definition iKey_parse :: "bytes \<Rightarrow> bytes \<times> u32" where "iKey_parse k = (slice 1 33 k, unbe32 (slice 33 37 k))"
definition oKey_parse :: "bytes \<Rightarrow> bytes \<times> bytes \<times> u32" where "oKey_parse k = (slice 1 33 k, slice 33 65 k, unbe32 (slice 65 69 k))"
definition hKey_parse :: "bytes \<Rightarrow> bytes \<times> u32" where "hKey_parse k = (slice 1 33 k, unbe32 (slice 33 37 k))"
definition jKey_parse :: "bytes \<Rightarrow> bytes \<times> bytes \<times> u32" where "jKey_parse k = (slice 1 33 k, slice 33 65 k, unbe32 (slice 65 69 k))"
definition sKey_parse :: "bytes \<Rightarrow> bytes" where "sKey_parse k = slice 1 33 k"
definition zKey_parse :: "bytes \<Rightarrow> bytes \<times> bytes" where "zKey_parse k = (slice 1 33 k, slice 33 65 k)"
definition kKey_parse :: "bytes \<Rightarrow> bytes \<times> bytes \<times> bytes \<times> u32" where "kKey_parse k = (slice 1 33 k, slice 33 65 k, slice 65 97 k, unbe32 (slice 97 101 k))"
definition mKey_parse :: "bytes \<Rightarrow> bytes \<times> bytes \<times> u32" where "mKey_parse k = (slice 1 33 k, slice 33 65 k, unbe32 (slice 65 69 k))"
definition nKey_parse :: "bytes \<Rightarrow> bytes" where "nKey_parse k = slice 1 33 k"
definition wKey_parse :: "bytes \<Rightarrow> bytes \<times> bytes \<times> u32" where "wKey_parse k = (slice 1 33 k, slice 33 65 k, unbe32 (slice 65 69 k))"
definition xKey_parse :: "bytes \<Rightarrow> bytes" where "xKey_parse k = slice 1 33 k"
definition yKey_parse :: "bytes \<Rightarrow> bytes \<times> bytes" where "yKey_parse k = (slice 1 33 k, slice 33 65 k)"

lemmas key_parse_defs = bKey_parse_def tKey_parse_def iKey_parse_def oKey_parse_def hKey_parse_def jKey_parse_def sKey_parse_def zKey_parse_def kKey_parse_def mKey_parse_def nKey_parse_def wKey_parse_def xKey_parse_def yKey_parse_def

lemma slice_Cons: "0 < a \<Longrightarrow> slice a b (x # xs) = slice (a - 1) (b - 1) xs"
  by (cases a) (auto simp: slice_def)

lemma slice_full [simp]: "length xs = n \<Longrightarrow> slice 0 n xs = xs"
  by (simp add: slice_def)

lemma key_parse_keys [simp]:
  "length h = 32 \<Longrightarrow> bKey_parse (bKey h) = h"
  "length t = 32 \<Longrightarrow> tKey_parse (tKey t) = t"
  "length t = 32 \<Longrightarrow> iKey_parse (iKey t i) = (t, i)"
  "length s = 32 \<Longrightarrow> length t = 32 \<Longrightarrow> oKey_parse (oKey s t i) = (s, t, i)"
  "length t = 32 \<Longrightarrow> hKey_parse (hKey t i) = (t, i)"
  "length t = 32 \<Longrightarrow> length u = 32 \<Longrightarrow> jKey_parse (jKey t u i) = (t, u, i)"
  "length s = 32 \<Longrightarrow> sKey_parse (sKey s) = s"
  "length h = 32 \<Longrightarrow> length s = 32 \<Longrightarrow> zKey_parse (zKey h s) = (h, s)"
  "length h = 32 \<Longrightarrow> length s = 32 \<Longrightarrow> length t = 32 \<Longrightarrow> kKey_parse (kKey h s t i) = (h, s, t, i)"
  "length h = 32 \<Longrightarrow> length t = 32 \<Longrightarrow> mKey_parse (mKey h t i) = (h, t, i)"
  "length h = 32 \<Longrightarrow> nKey_parse (nKey h) = h"
  "length h = 32 \<Longrightarrow> length t = 32 \<Longrightarrow> wKey_parse (wKey h t i) = (h, t, i)"
  "length t = 32 \<Longrightarrow> xKey_parse (xKey t) = t"
  "length h = 32 \<Longrightarrow> length t = 32 \<Longrightarrow> yKey_parse (yKey h t) = (h, t)"
  by (simp_all add: key_parse_defs key_defs slice_def)

interpretation blk: key_family P_BLOCK 33 kBlock bKey_parse
  by unfold_locales (auto simp: builder_Inr_iff MAX_KEY_LEN_def)

interpretation tx: key_family P_TX 33 kTx tKey_parse
  by unfold_locales (auto simp: builder_Inr_iff MAX_KEY_LEN_def)

interpretation inp: key_family P_INPUT 37 "\<lambda>(t, i). kInput t i" iKey_parse
  by unfold_locales (auto simp: builder_Inr_iff MAX_KEY_LEN_def)

interpretation outp: key_family P_OUTPUT 69 "\<lambda>(s, t, i). kOutput s t i" oKey_parse
  by unfold_locales (auto simp: builder_Inr_iff MAX_KEY_LEN_def)

interpretation hint: key_family P_OUT_HINT 37 "\<lambda>(t, i). kOutHint t i" hKey_parse
  by unfold_locales (auto simp: builder_Inr_iff MAX_KEY_LEN_def)

interpretation inhint: key_family P_IN_HINT 69 "\<lambda>(t, u, i). kInHint t u i" jKey_parse
  by unfold_locales (auto simp: builder_Inr_iff MAX_KEY_LEN_def)

interpretation sblk: key_family P_SCRIPT_BLK 33 kScriptBlk sKey_parse
  by unfold_locales (auto simp: builder_Inr_iff MAX_KEY_LEN_def)

interpretation blks: key_family P_BLK_SCRIPT 65 "\<lambda>(h, s). kBlkScript h s" zKey_parse
  by unfold_locales (auto simp: builder_Inr_iff MAX_KEY_LEN_def)

interpretation odel: key_family P_OUT_DEL 101 "\<lambda>(h, s, t, i). kOutDel h s t i" kKey_parse
  by unfold_locales (auto simp: builder_Inr_iff MAX_KEY_LEN_def)

interpretation hdel: key_family P_HINT_DEL 69 "\<lambda>(h, t, i). kHintDel h t i" mKey_parse
  by unfold_locales (auto simp: builder_Inr_iff MAX_KEY_LEN_def)

interpretation stblk: key_family P_STORED_BLK 33 kStoredBlk nKey_parse
  by unfold_locales (auto simp: builder_Inr_iff MAX_KEY_LEN_def)

interpretation oblk: key_family P_OUT_BLK 69 "\<lambda>(h, t, i). kOutBlk h t i" wKey_parse
  by unfold_locales (auto simp: builder_Inr_iff MAX_KEY_LEN_def)

interpretation txex: key_family P_TX_EXACT 33 kTxExact xKey_parse
  by unfold_locales (auto simp: builder_Inr_iff MAX_KEY_LEN_def)

interpretation txrec: key_family P_TX_BLOCK_RECOVERY 65 "\<lambda>(h, t). kTxBlockRecovery h t" yKey_parse
  by unfold_locales (auto simp: builder_Inr_iff MAX_KEY_LEN_def)

subsection \<open>Map keys and metadata keys\<close>

lemma fromMapKey_toMapKey [simp]: "fromMapKey (toMapKey k) = k"
  by (induction k) (simp_all add: toMapKey_def fromMapKey_def)

lemma toMapKey_inject [simp]: "toMapKey a = toMapKey b \<longleftrightarrow> a = b"
  by (metis fromMapKey_toMapKey)

definition meta_keys :: "bytes set" where
  "meta_keys = {PREFIX_LAST_BLOCK_HEIGHT, PREFIX_LAST_BLOCK_HASH, PREFIX_LAYOUT_VERSION,
     P_PENDING_CLEANUP_KEY, Q_UNDO_WATERMARK_KEY, HALT_MARKER_KEY}"

lemmas meta_defs = PREFIX_LAST_BLOCK_HEIGHT_def PREFIX_LAST_BLOCK_HASH_def PREFIX_LAYOUT_VERSION_def
  P_PENDING_CLEANUP_KEY_def Q_UNDO_WATERMARK_KEY_def HALT_MARKER_KEY_def utf8_def

lemma build_key_shape: "build_key d = Inr k \<Longrightarrow> 33 \<le> length k"
  by (cases d) (auto simp: builder_Inr_iff)

lemma meta_keys_short: "k \<in> meta_keys \<Longrightarrow> length k \<le> 17"
  by (auto simp: meta_keys_def meta_defs)

lemma build_key_not_meta: "build_key d = Inr k \<Longrightarrow> k \<notin> meta_keys"
  using build_key_shape meta_keys_short by fastforce

fun key_prefix_of :: "key_desc \<Rightarrow> byte" where
  "key_prefix_of (K_B h) = P_BLOCK"
| "key_prefix_of (K_T t) = P_TX"
| "key_prefix_of (K_I t i) = P_INPUT"
| "key_prefix_of (K_O s t i) = P_OUTPUT"
| "key_prefix_of (K_H t i) = P_OUT_HINT"
| "key_prefix_of (K_J t u i) = P_IN_HINT"
| "key_prefix_of (K_S s) = P_SCRIPT_BLK"
| "key_prefix_of (K_Z h s) = P_BLK_SCRIPT"
| "key_prefix_of (K_K h s t i) = P_OUT_DEL"
| "key_prefix_of (K_M h t i) = P_HINT_DEL"
| "key_prefix_of (K_N h) = P_STORED_BLK"
| "key_prefix_of (K_W h t i) = P_OUT_BLK"
| "key_prefix_of (K_X t) = P_TX_EXACT"
| "key_prefix_of (K_Y h t) = P_TX_BLOCK_RECOVERY"

lemma build_key_hd: "build_key d = Inr k \<Longrightarrow> hd k = key_prefix_of d"
  by (cases d) (auto simp: builder_Inr_iff)

lemma build_key_same_kind:
  "build_key d = Inr k \<Longrightarrow> build_key e = Inr k \<Longrightarrow> key_prefix_of d = key_prefix_of e \<Longrightarrow> d = e"
  by (cases d; cases e) (auto simp: builder_Inr_iff prefix_defs)

lemma keys_disjoint [simp]:
  "bKey h \<noteq> tKey t'" "bKey h \<noteq> iKey t' i'" "bKey h \<noteq> oKey s' t' i'"
  "bKey h \<noteq> hKey t' i'" "bKey h \<noteq> jKey t' u' i'" "bKey h \<noteq> sKey s'"
  "bKey h \<noteq> zKey h' s'" "bKey h \<noteq> kKey h' s' t' i'" "bKey h \<noteq> mKey h' t' i'"
  "bKey h \<noteq> nKey h'" "bKey h \<noteq> wKey h' t' i'" "bKey h \<noteq> xKey t'"
  "bKey h \<noteq> yKey h' t'"
  "tKey t \<noteq> bKey h'" "tKey t \<noteq> iKey t' i'" "tKey t \<noteq> oKey s' t' i'"
  "tKey t \<noteq> hKey t' i'" "tKey t \<noteq> jKey t' u' i'" "tKey t \<noteq> sKey s'"
  "tKey t \<noteq> zKey h' s'" "tKey t \<noteq> kKey h' s' t' i'" "tKey t \<noteq> mKey h' t' i'"
  "tKey t \<noteq> nKey h'" "tKey t \<noteq> wKey h' t' i'" "tKey t \<noteq> xKey t'"
  "tKey t \<noteq> yKey h' t'"
  "iKey t i \<noteq> bKey h'" "iKey t i \<noteq> tKey t'" "iKey t i \<noteq> oKey s' t' i'"
  "iKey t i \<noteq> hKey t' i'" "iKey t i \<noteq> jKey t' u' i'" "iKey t i \<noteq> sKey s'"
  "iKey t i \<noteq> zKey h' s'" "iKey t i \<noteq> kKey h' s' t' i'" "iKey t i \<noteq> mKey h' t' i'"
  "iKey t i \<noteq> nKey h'" "iKey t i \<noteq> wKey h' t' i'" "iKey t i \<noteq> xKey t'"
  "iKey t i \<noteq> yKey h' t'"
  "oKey s t i \<noteq> bKey h'" "oKey s t i \<noteq> tKey t'" "oKey s t i \<noteq> iKey t' i'"
  "oKey s t i \<noteq> hKey t' i'" "oKey s t i \<noteq> jKey t' u' i'" "oKey s t i \<noteq> sKey s'"
  "oKey s t i \<noteq> zKey h' s'" "oKey s t i \<noteq> kKey h' s' t' i'" "oKey s t i \<noteq> mKey h' t' i'"
  "oKey s t i \<noteq> nKey h'" "oKey s t i \<noteq> wKey h' t' i'" "oKey s t i \<noteq> xKey t'"
  "oKey s t i \<noteq> yKey h' t'"
  "hKey t i \<noteq> bKey h'" "hKey t i \<noteq> tKey t'" "hKey t i \<noteq> iKey t' i'"
  "hKey t i \<noteq> oKey s' t' i'" "hKey t i \<noteq> jKey t' u' i'" "hKey t i \<noteq> sKey s'"
  "hKey t i \<noteq> zKey h' s'" "hKey t i \<noteq> kKey h' s' t' i'" "hKey t i \<noteq> mKey h' t' i'"
  "hKey t i \<noteq> nKey h'" "hKey t i \<noteq> wKey h' t' i'" "hKey t i \<noteq> xKey t'"
  "hKey t i \<noteq> yKey h' t'"
  "jKey t u i \<noteq> bKey h'" "jKey t u i \<noteq> tKey t'" "jKey t u i \<noteq> iKey t' i'"
  "jKey t u i \<noteq> oKey s' t' i'" "jKey t u i \<noteq> hKey t' i'" "jKey t u i \<noteq> sKey s'"
  "jKey t u i \<noteq> zKey h' s'" "jKey t u i \<noteq> kKey h' s' t' i'" "jKey t u i \<noteq> mKey h' t' i'"
  "jKey t u i \<noteq> nKey h'" "jKey t u i \<noteq> wKey h' t' i'" "jKey t u i \<noteq> xKey t'"
  "jKey t u i \<noteq> yKey h' t'"
  "sKey s \<noteq> bKey h'" "sKey s \<noteq> tKey t'" "sKey s \<noteq> iKey t' i'"
  "sKey s \<noteq> oKey s' t' i'" "sKey s \<noteq> hKey t' i'" "sKey s \<noteq> jKey t' u' i'"
  "sKey s \<noteq> zKey h' s'" "sKey s \<noteq> kKey h' s' t' i'" "sKey s \<noteq> mKey h' t' i'"
  "sKey s \<noteq> nKey h'" "sKey s \<noteq> wKey h' t' i'" "sKey s \<noteq> xKey t'"
  "sKey s \<noteq> yKey h' t'"
  "zKey h s \<noteq> bKey h'" "zKey h s \<noteq> tKey t'" "zKey h s \<noteq> iKey t' i'"
  "zKey h s \<noteq> oKey s' t' i'" "zKey h s \<noteq> hKey t' i'" "zKey h s \<noteq> jKey t' u' i'"
  "zKey h s \<noteq> sKey s'" "zKey h s \<noteq> kKey h' s' t' i'" "zKey h s \<noteq> mKey h' t' i'"
  "zKey h s \<noteq> nKey h'" "zKey h s \<noteq> wKey h' t' i'" "zKey h s \<noteq> xKey t'"
  "zKey h s \<noteq> yKey h' t'"
  "kKey h s t i \<noteq> bKey h'" "kKey h s t i \<noteq> tKey t'" "kKey h s t i \<noteq> iKey t' i'"
  "kKey h s t i \<noteq> oKey s' t' i'" "kKey h s t i \<noteq> hKey t' i'" "kKey h s t i \<noteq> jKey t' u' i'"
  "kKey h s t i \<noteq> sKey s'" "kKey h s t i \<noteq> zKey h' s'" "kKey h s t i \<noteq> mKey h' t' i'"
  "kKey h s t i \<noteq> nKey h'" "kKey h s t i \<noteq> wKey h' t' i'" "kKey h s t i \<noteq> xKey t'"
  "kKey h s t i \<noteq> yKey h' t'"
  "mKey h t i \<noteq> bKey h'" "mKey h t i \<noteq> tKey t'" "mKey h t i \<noteq> iKey t' i'"
  "mKey h t i \<noteq> oKey s' t' i'" "mKey h t i \<noteq> hKey t' i'" "mKey h t i \<noteq> jKey t' u' i'"
  "mKey h t i \<noteq> sKey s'" "mKey h t i \<noteq> zKey h' s'" "mKey h t i \<noteq> kKey h' s' t' i'"
  "mKey h t i \<noteq> nKey h'" "mKey h t i \<noteq> wKey h' t' i'" "mKey h t i \<noteq> xKey t'"
  "mKey h t i \<noteq> yKey h' t'"
  "nKey h \<noteq> bKey h'" "nKey h \<noteq> tKey t'" "nKey h \<noteq> iKey t' i'"
  "nKey h \<noteq> oKey s' t' i'" "nKey h \<noteq> hKey t' i'" "nKey h \<noteq> jKey t' u' i'"
  "nKey h \<noteq> sKey s'" "nKey h \<noteq> zKey h' s'" "nKey h \<noteq> kKey h' s' t' i'"
  "nKey h \<noteq> mKey h' t' i'" "nKey h \<noteq> wKey h' t' i'" "nKey h \<noteq> xKey t'"
  "nKey h \<noteq> yKey h' t'"
  "wKey h t i \<noteq> bKey h'" "wKey h t i \<noteq> tKey t'" "wKey h t i \<noteq> iKey t' i'"
  "wKey h t i \<noteq> oKey s' t' i'" "wKey h t i \<noteq> hKey t' i'" "wKey h t i \<noteq> jKey t' u' i'"
  "wKey h t i \<noteq> sKey s'" "wKey h t i \<noteq> zKey h' s'" "wKey h t i \<noteq> kKey h' s' t' i'"
  "wKey h t i \<noteq> mKey h' t' i'" "wKey h t i \<noteq> nKey h'" "wKey h t i \<noteq> xKey t'"
  "wKey h t i \<noteq> yKey h' t'"
  "xKey t \<noteq> bKey h'" "xKey t \<noteq> tKey t'" "xKey t \<noteq> iKey t' i'"
  "xKey t \<noteq> oKey s' t' i'" "xKey t \<noteq> hKey t' i'" "xKey t \<noteq> jKey t' u' i'"
  "xKey t \<noteq> sKey s'" "xKey t \<noteq> zKey h' s'" "xKey t \<noteq> kKey h' s' t' i'"
  "xKey t \<noteq> mKey h' t' i'" "xKey t \<noteq> nKey h'" "xKey t \<noteq> wKey h' t' i'"
  "xKey t \<noteq> yKey h' t'"
  "yKey h t \<noteq> bKey h'" "yKey h t \<noteq> tKey t'" "yKey h t \<noteq> iKey t' i'"
  "yKey h t \<noteq> oKey s' t' i'" "yKey h t \<noteq> hKey t' i'" "yKey h t \<noteq> jKey t' u' i'"
  "yKey h t \<noteq> sKey s'" "yKey h t \<noteq> zKey h' s'" "yKey h t \<noteq> kKey h' s' t' i'"
  "yKey h t \<noteq> mKey h' t' i'" "yKey h t \<noteq> nKey h'" "yKey h t \<noteq> wKey h' t' i'"
  "yKey h t \<noteq> xKey t'"
  by (simp_all add: key_defs prefix_defs)

text \<open>Injectivity with as few width conditions as the layout allows.\<close>

lemma be32_append_inj [simp]: "xs @ be32 i = ys @ be32 j \<longleftrightarrow> xs = ys \<and> i = j"
  by (simp add: append_eq_append_conv)

lemma key_inject_free [simp]:
  "bKey h = bKey h' \<longleftrightarrow> h = h'" "tKey t = tKey t' \<longleftrightarrow> t = t'" "sKey s = sKey s' \<longleftrightarrow> s = s'"
  "nKey h = nKey h' \<longleftrightarrow> h = h'" "xKey t = xKey t' \<longleftrightarrow> t = t'"
  "iKey t i = iKey t' i' \<longleftrightarrow> t = t' \<and> i = i'" "hKey t i = hKey t' i' \<longleftrightarrow> t = t' \<and> i = i'"
  by (simp_all add: key_defs)

lemma key_inject_len:
  "length s = length s' \<Longrightarrow> oKey s t i = oKey s' t' i' \<longleftrightarrow> s = s' \<and> t = t' \<and> i = i'"
  "length h = length h' \<Longrightarrow> mKey h t i = mKey h' t' i' \<longleftrightarrow> h = h' \<and> t = t' \<and> i = i'"
  "length h = length h' \<Longrightarrow> wKey h t i = wKey h' t' i' \<longleftrightarrow> h = h' \<and> t = t' \<and> i = i'"
  "length h = length h' \<Longrightarrow> zKey h s = zKey h' s' \<longleftrightarrow> h = h' \<and> s = s'"
  "length h = length h' \<Longrightarrow> yKey h t = yKey h' t' \<longleftrightarrow> h = h' \<and> t = t'"
  "length h = length h' \<Longrightarrow> length s = length s' \<Longrightarrow>
     kKey h s t i = kKey h' s' t' i' \<longleftrightarrow> h = h' \<and> s = s' \<and> t = t' \<and> i = i'"
  by (simp_all add: key_defs)

lemma key_inject_same [simp]:
  "oKey s t i = oKey s t' i' \<longleftrightarrow> t = t' \<and> i = i'" "mKey h t i = mKey h t' i' \<longleftrightarrow> t = t' \<and> i = i'"
  "wKey h t i = wKey h t' i' \<longleftrightarrow> t = t' \<and> i = i'" "zKey h s = zKey h s' \<longleftrightarrow> s = s'"
  "yKey h t = yKey h t' \<longleftrightarrow> t = t'" "kKey h s t i = kKey h s t' i' \<longleftrightarrow> t = t' \<and> i = i'"
  by (simp_all add: key_defs)

lemma keys_not_meta [simp]:
  "PREFIX_LAST_BLOCK_HEIGHT \<noteq> bKey h" "bKey h \<noteq> PREFIX_LAST_BLOCK_HEIGHT"
  "PREFIX_LAST_BLOCK_HEIGHT \<noteq> tKey t" "tKey t \<noteq> PREFIX_LAST_BLOCK_HEIGHT"
  "PREFIX_LAST_BLOCK_HEIGHT \<noteq> iKey t i" "iKey t i \<noteq> PREFIX_LAST_BLOCK_HEIGHT"
  "PREFIX_LAST_BLOCK_HEIGHT \<noteq> oKey s t i" "oKey s t i \<noteq> PREFIX_LAST_BLOCK_HEIGHT"
  "PREFIX_LAST_BLOCK_HEIGHT \<noteq> hKey t i" "hKey t i \<noteq> PREFIX_LAST_BLOCK_HEIGHT"
  "PREFIX_LAST_BLOCK_HEIGHT \<noteq> jKey t u i" "jKey t u i \<noteq> PREFIX_LAST_BLOCK_HEIGHT"
  "PREFIX_LAST_BLOCK_HEIGHT \<noteq> sKey s" "sKey s \<noteq> PREFIX_LAST_BLOCK_HEIGHT"
  "PREFIX_LAST_BLOCK_HEIGHT \<noteq> zKey h s" "zKey h s \<noteq> PREFIX_LAST_BLOCK_HEIGHT"
  "PREFIX_LAST_BLOCK_HEIGHT \<noteq> kKey h s t i" "kKey h s t i \<noteq> PREFIX_LAST_BLOCK_HEIGHT"
  "PREFIX_LAST_BLOCK_HEIGHT \<noteq> mKey h t i" "mKey h t i \<noteq> PREFIX_LAST_BLOCK_HEIGHT"
  "PREFIX_LAST_BLOCK_HEIGHT \<noteq> nKey h" "nKey h \<noteq> PREFIX_LAST_BLOCK_HEIGHT"
  "PREFIX_LAST_BLOCK_HEIGHT \<noteq> wKey h t i" "wKey h t i \<noteq> PREFIX_LAST_BLOCK_HEIGHT"
  "PREFIX_LAST_BLOCK_HEIGHT \<noteq> xKey t" "xKey t \<noteq> PREFIX_LAST_BLOCK_HEIGHT"
  "PREFIX_LAST_BLOCK_HEIGHT \<noteq> yKey h t" "yKey h t \<noteq> PREFIX_LAST_BLOCK_HEIGHT"
  "PREFIX_LAST_BLOCK_HASH \<noteq> bKey h" "bKey h \<noteq> PREFIX_LAST_BLOCK_HASH"
  "PREFIX_LAST_BLOCK_HASH \<noteq> tKey t" "tKey t \<noteq> PREFIX_LAST_BLOCK_HASH"
  "PREFIX_LAST_BLOCK_HASH \<noteq> iKey t i" "iKey t i \<noteq> PREFIX_LAST_BLOCK_HASH"
  "PREFIX_LAST_BLOCK_HASH \<noteq> oKey s t i" "oKey s t i \<noteq> PREFIX_LAST_BLOCK_HASH"
  "PREFIX_LAST_BLOCK_HASH \<noteq> hKey t i" "hKey t i \<noteq> PREFIX_LAST_BLOCK_HASH"
  "PREFIX_LAST_BLOCK_HASH \<noteq> jKey t u i" "jKey t u i \<noteq> PREFIX_LAST_BLOCK_HASH"
  "PREFIX_LAST_BLOCK_HASH \<noteq> sKey s" "sKey s \<noteq> PREFIX_LAST_BLOCK_HASH"
  "PREFIX_LAST_BLOCK_HASH \<noteq> zKey h s" "zKey h s \<noteq> PREFIX_LAST_BLOCK_HASH"
  "PREFIX_LAST_BLOCK_HASH \<noteq> kKey h s t i" "kKey h s t i \<noteq> PREFIX_LAST_BLOCK_HASH"
  "PREFIX_LAST_BLOCK_HASH \<noteq> mKey h t i" "mKey h t i \<noteq> PREFIX_LAST_BLOCK_HASH"
  "PREFIX_LAST_BLOCK_HASH \<noteq> nKey h" "nKey h \<noteq> PREFIX_LAST_BLOCK_HASH"
  "PREFIX_LAST_BLOCK_HASH \<noteq> wKey h t i" "wKey h t i \<noteq> PREFIX_LAST_BLOCK_HASH"
  "PREFIX_LAST_BLOCK_HASH \<noteq> xKey t" "xKey t \<noteq> PREFIX_LAST_BLOCK_HASH"
  "PREFIX_LAST_BLOCK_HASH \<noteq> yKey h t" "yKey h t \<noteq> PREFIX_LAST_BLOCK_HASH"
  "PREFIX_LAYOUT_VERSION \<noteq> bKey h" "bKey h \<noteq> PREFIX_LAYOUT_VERSION"
  "PREFIX_LAYOUT_VERSION \<noteq> tKey t" "tKey t \<noteq> PREFIX_LAYOUT_VERSION"
  "PREFIX_LAYOUT_VERSION \<noteq> iKey t i" "iKey t i \<noteq> PREFIX_LAYOUT_VERSION"
  "PREFIX_LAYOUT_VERSION \<noteq> oKey s t i" "oKey s t i \<noteq> PREFIX_LAYOUT_VERSION"
  "PREFIX_LAYOUT_VERSION \<noteq> hKey t i" "hKey t i \<noteq> PREFIX_LAYOUT_VERSION"
  "PREFIX_LAYOUT_VERSION \<noteq> jKey t u i" "jKey t u i \<noteq> PREFIX_LAYOUT_VERSION"
  "PREFIX_LAYOUT_VERSION \<noteq> sKey s" "sKey s \<noteq> PREFIX_LAYOUT_VERSION"
  "PREFIX_LAYOUT_VERSION \<noteq> zKey h s" "zKey h s \<noteq> PREFIX_LAYOUT_VERSION"
  "PREFIX_LAYOUT_VERSION \<noteq> kKey h s t i" "kKey h s t i \<noteq> PREFIX_LAYOUT_VERSION"
  "PREFIX_LAYOUT_VERSION \<noteq> mKey h t i" "mKey h t i \<noteq> PREFIX_LAYOUT_VERSION"
  "PREFIX_LAYOUT_VERSION \<noteq> nKey h" "nKey h \<noteq> PREFIX_LAYOUT_VERSION"
  "PREFIX_LAYOUT_VERSION \<noteq> wKey h t i" "wKey h t i \<noteq> PREFIX_LAYOUT_VERSION"
  "PREFIX_LAYOUT_VERSION \<noteq> xKey t" "xKey t \<noteq> PREFIX_LAYOUT_VERSION"
  "PREFIX_LAYOUT_VERSION \<noteq> yKey h t" "yKey h t \<noteq> PREFIX_LAYOUT_VERSION"
  "P_PENDING_CLEANUP_KEY \<noteq> bKey h" "bKey h \<noteq> P_PENDING_CLEANUP_KEY"
  "P_PENDING_CLEANUP_KEY \<noteq> tKey t" "tKey t \<noteq> P_PENDING_CLEANUP_KEY"
  "P_PENDING_CLEANUP_KEY \<noteq> iKey t i" "iKey t i \<noteq> P_PENDING_CLEANUP_KEY"
  "P_PENDING_CLEANUP_KEY \<noteq> oKey s t i" "oKey s t i \<noteq> P_PENDING_CLEANUP_KEY"
  "P_PENDING_CLEANUP_KEY \<noteq> hKey t i" "hKey t i \<noteq> P_PENDING_CLEANUP_KEY"
  "P_PENDING_CLEANUP_KEY \<noteq> jKey t u i" "jKey t u i \<noteq> P_PENDING_CLEANUP_KEY"
  "P_PENDING_CLEANUP_KEY \<noteq> sKey s" "sKey s \<noteq> P_PENDING_CLEANUP_KEY"
  "P_PENDING_CLEANUP_KEY \<noteq> zKey h s" "zKey h s \<noteq> P_PENDING_CLEANUP_KEY"
  "P_PENDING_CLEANUP_KEY \<noteq> kKey h s t i" "kKey h s t i \<noteq> P_PENDING_CLEANUP_KEY"
  "P_PENDING_CLEANUP_KEY \<noteq> mKey h t i" "mKey h t i \<noteq> P_PENDING_CLEANUP_KEY"
  "P_PENDING_CLEANUP_KEY \<noteq> nKey h" "nKey h \<noteq> P_PENDING_CLEANUP_KEY"
  "P_PENDING_CLEANUP_KEY \<noteq> wKey h t i" "wKey h t i \<noteq> P_PENDING_CLEANUP_KEY"
  "P_PENDING_CLEANUP_KEY \<noteq> xKey t" "xKey t \<noteq> P_PENDING_CLEANUP_KEY"
  "P_PENDING_CLEANUP_KEY \<noteq> yKey h t" "yKey h t \<noteq> P_PENDING_CLEANUP_KEY"
  "Q_UNDO_WATERMARK_KEY \<noteq> bKey h" "bKey h \<noteq> Q_UNDO_WATERMARK_KEY"
  "Q_UNDO_WATERMARK_KEY \<noteq> tKey t" "tKey t \<noteq> Q_UNDO_WATERMARK_KEY"
  "Q_UNDO_WATERMARK_KEY \<noteq> iKey t i" "iKey t i \<noteq> Q_UNDO_WATERMARK_KEY"
  "Q_UNDO_WATERMARK_KEY \<noteq> oKey s t i" "oKey s t i \<noteq> Q_UNDO_WATERMARK_KEY"
  "Q_UNDO_WATERMARK_KEY \<noteq> hKey t i" "hKey t i \<noteq> Q_UNDO_WATERMARK_KEY"
  "Q_UNDO_WATERMARK_KEY \<noteq> jKey t u i" "jKey t u i \<noteq> Q_UNDO_WATERMARK_KEY"
  "Q_UNDO_WATERMARK_KEY \<noteq> sKey s" "sKey s \<noteq> Q_UNDO_WATERMARK_KEY"
  "Q_UNDO_WATERMARK_KEY \<noteq> zKey h s" "zKey h s \<noteq> Q_UNDO_WATERMARK_KEY"
  "Q_UNDO_WATERMARK_KEY \<noteq> kKey h s t i" "kKey h s t i \<noteq> Q_UNDO_WATERMARK_KEY"
  "Q_UNDO_WATERMARK_KEY \<noteq> mKey h t i" "mKey h t i \<noteq> Q_UNDO_WATERMARK_KEY"
  "Q_UNDO_WATERMARK_KEY \<noteq> nKey h" "nKey h \<noteq> Q_UNDO_WATERMARK_KEY"
  "Q_UNDO_WATERMARK_KEY \<noteq> wKey h t i" "wKey h t i \<noteq> Q_UNDO_WATERMARK_KEY"
  "Q_UNDO_WATERMARK_KEY \<noteq> xKey t" "xKey t \<noteq> Q_UNDO_WATERMARK_KEY"
  "Q_UNDO_WATERMARK_KEY \<noteq> yKey h t" "yKey h t \<noteq> Q_UNDO_WATERMARK_KEY"
  "HALT_MARKER_KEY \<noteq> bKey h" "bKey h \<noteq> HALT_MARKER_KEY"
  "HALT_MARKER_KEY \<noteq> tKey t" "tKey t \<noteq> HALT_MARKER_KEY"
  "HALT_MARKER_KEY \<noteq> iKey t i" "iKey t i \<noteq> HALT_MARKER_KEY"
  "HALT_MARKER_KEY \<noteq> oKey s t i" "oKey s t i \<noteq> HALT_MARKER_KEY"
  "HALT_MARKER_KEY \<noteq> hKey t i" "hKey t i \<noteq> HALT_MARKER_KEY"
  "HALT_MARKER_KEY \<noteq> jKey t u i" "jKey t u i \<noteq> HALT_MARKER_KEY"
  "HALT_MARKER_KEY \<noteq> sKey s" "sKey s \<noteq> HALT_MARKER_KEY"
  "HALT_MARKER_KEY \<noteq> zKey h s" "zKey h s \<noteq> HALT_MARKER_KEY"
  "HALT_MARKER_KEY \<noteq> kKey h s t i" "kKey h s t i \<noteq> HALT_MARKER_KEY"
  "HALT_MARKER_KEY \<noteq> mKey h t i" "mKey h t i \<noteq> HALT_MARKER_KEY"
  "HALT_MARKER_KEY \<noteq> nKey h" "nKey h \<noteq> HALT_MARKER_KEY"
  "HALT_MARKER_KEY \<noteq> wKey h t i" "wKey h t i \<noteq> HALT_MARKER_KEY"
  "HALT_MARKER_KEY \<noteq> xKey t" "xKey t \<noteq> HALT_MARKER_KEY"
  "HALT_MARKER_KEY \<noteq> yKey h t" "yKey h t \<noteq> HALT_MARKER_KEY"
  by (simp_all add: key_defs prefix_defs meta_defs)

lemma metas_disjoint [simp]:
  "PREFIX_LAST_BLOCK_HEIGHT \<noteq> PREFIX_LAST_BLOCK_HASH"
  "PREFIX_LAST_BLOCK_HEIGHT \<noteq> PREFIX_LAYOUT_VERSION"
  "PREFIX_LAST_BLOCK_HEIGHT \<noteq> P_PENDING_CLEANUP_KEY"
  "PREFIX_LAST_BLOCK_HEIGHT \<noteq> Q_UNDO_WATERMARK_KEY"
  "PREFIX_LAST_BLOCK_HEIGHT \<noteq> HALT_MARKER_KEY"
  "PREFIX_LAST_BLOCK_HASH \<noteq> PREFIX_LAST_BLOCK_HEIGHT"
  "PREFIX_LAST_BLOCK_HASH \<noteq> PREFIX_LAYOUT_VERSION"
  "PREFIX_LAST_BLOCK_HASH \<noteq> P_PENDING_CLEANUP_KEY"
  "PREFIX_LAST_BLOCK_HASH \<noteq> Q_UNDO_WATERMARK_KEY"
  "PREFIX_LAST_BLOCK_HASH \<noteq> HALT_MARKER_KEY"
  "PREFIX_LAYOUT_VERSION \<noteq> PREFIX_LAST_BLOCK_HEIGHT"
  "PREFIX_LAYOUT_VERSION \<noteq> PREFIX_LAST_BLOCK_HASH"
  "PREFIX_LAYOUT_VERSION \<noteq> P_PENDING_CLEANUP_KEY"
  "PREFIX_LAYOUT_VERSION \<noteq> Q_UNDO_WATERMARK_KEY"
  "PREFIX_LAYOUT_VERSION \<noteq> HALT_MARKER_KEY"
  "P_PENDING_CLEANUP_KEY \<noteq> PREFIX_LAST_BLOCK_HEIGHT"
  "P_PENDING_CLEANUP_KEY \<noteq> PREFIX_LAST_BLOCK_HASH"
  "P_PENDING_CLEANUP_KEY \<noteq> PREFIX_LAYOUT_VERSION"
  "P_PENDING_CLEANUP_KEY \<noteq> Q_UNDO_WATERMARK_KEY"
  "P_PENDING_CLEANUP_KEY \<noteq> HALT_MARKER_KEY"
  "Q_UNDO_WATERMARK_KEY \<noteq> PREFIX_LAST_BLOCK_HEIGHT"
  "Q_UNDO_WATERMARK_KEY \<noteq> PREFIX_LAST_BLOCK_HASH"
  "Q_UNDO_WATERMARK_KEY \<noteq> PREFIX_LAYOUT_VERSION"
  "Q_UNDO_WATERMARK_KEY \<noteq> P_PENDING_CLEANUP_KEY"
  "Q_UNDO_WATERMARK_KEY \<noteq> HALT_MARKER_KEY"
  "HALT_MARKER_KEY \<noteq> PREFIX_LAST_BLOCK_HEIGHT"
  "HALT_MARKER_KEY \<noteq> PREFIX_LAST_BLOCK_HASH"
  "HALT_MARKER_KEY \<noteq> PREFIX_LAYOUT_VERSION"
  "HALT_MARKER_KEY \<noteq> P_PENDING_CLEANUP_KEY"
  "HALT_MARKER_KEY \<noteq> Q_UNDO_WATERMARK_KEY"
  by (simp_all add: meta_defs)

subsection \<open>Properties\<close>

text \<open>
  C23. Two different records never share a key: when two key descriptors (any two kinds of
  record, any fields) are accepted by their builders and give the same key, the descriptors are
  equal; and no built key is one of the metadata keys.
\<close>

theorem key_schema_unambiguous:
  assumes "build_key d = Inr k" and "build_key e = Inr k"
  shows "d = e \<and> k \<notin> meta_keys"
proof -
  have "key_prefix_of d = key_prefix_of e"
    using build_key_hd [OF assms(1)] build_key_hd [OF assms(2)] by simp
  then have "d = e" by (rule build_key_same_kind [OF assms])
  with assms show ?thesis using build_key_not_meta by blast
qed

theorem key_schema_unambiguous_witness:
  "build_key (K_H (replicate 32 1) 7) = Inr (hKey (replicate 32 1) 7)
   \<and> hKey (replicate 32 1) 7 \<notin> meta_keys"
proof -
  have k: "build_key (K_H (replicate 32 1) 7) = Inr (hKey (replicate 32 1) 7)"
    by (simp add: codec_simps)
  show ?thesis using key_schema_unambiguous [OF k k] k by simp
qed

text \<open>
  C24. The range scan bounded by a prefix and its range end meets exactly the keys that start
  with the prefix, for every key no longer than the longest key of the schema: none is dropped
  (the all-0xFF suffix is long enough) and none of another prefix is met.
\<close>

theorem range_scan_exact:
  assumes "length k \<le> MAX_KEY_LEN"
  shows "(p \<le> k \<and> k \<le> rangeEnd p) \<longleftrightarrow> prefix p k"
proof
  assume "p \<le> k \<and> k \<le> rangeEnd p"
  then show "prefix p k" by (simp add: in_range_prefix)
next
  assume "prefix p k"
  then show "p \<le> k \<and> k \<le> rangeEnd p"
    using assms by (simp add: prefix_le_key key_le_rangeEnd)
qed

theorem range_scan_exact_witness:
  "([0x4B] \<le> 0x4B # replicate 100 (0xFF :: byte)
    \<and> 0x4B # replicate 100 (0xFF :: byte) \<le> rangeEnd [0x4B])"
  using range_scan_exact [of "0x4B # replicate 100 0xFF" "[0x4B]"]
  by (simp add: MAX_KEY_LEN_def)

text \<open>
  C25. Every key a builder accepts is met by the scan over any of its own prefixes, in
  particular the whole-kind scan and the per-block and per-script scans: with \<open>build_key d\<close>
  giving \<open>k\<close>, the scan bounds for any prefix of \<open>k\<close> enclose \<open>k\<close>.
\<close>

theorem built_keys_scanned:
  assumes "build_key d = Inr k" and "prefix p k"
  shows "p \<le> k \<and> k \<le> rangeEnd p"
proof (cases d)
  case (K_B h)
  with assms blk.key_scanned [of h k p] show ?thesis by simp
next
  case (K_T t)
  with assms tx.key_scanned [of t k p] show ?thesis by simp
next
  case (K_I t i)
  with assms inp.key_scanned [of "(t, i)" k p] show ?thesis by simp
next
  case (K_O s t i)
  with assms outp.key_scanned [of "(s, t, i)" k p] show ?thesis by simp
next
  case (K_H t i)
  with assms hint.key_scanned [of "(t, i)" k p] show ?thesis by simp
next
  case (K_J t u i)
  with assms inhint.key_scanned [of "(t, u, i)" k p] show ?thesis by simp
next
  case (K_S s)
  with assms sblk.key_scanned [of s k p] show ?thesis by simp
next
  case (K_Z h s)
  with assms blks.key_scanned [of "(h, s)" k p] show ?thesis by simp
next
  case (K_K h s t i)
  with assms odel.key_scanned [of "(h, s, t, i)" k p] show ?thesis by simp
next
  case (K_M h t i)
  with assms hdel.key_scanned [of "(h, t, i)" k p] show ?thesis by simp
next
  case (K_N h)
  with assms stblk.key_scanned [of h k p] show ?thesis by simp
next
  case (K_W h t i)
  with assms oblk.key_scanned [of "(h, t, i)" k p] show ?thesis by simp
next
  case (K_X t)
  with assms txex.key_scanned [of t k p] show ?thesis by simp
next
  case (K_Y h t)
  with assms txrec.key_scanned [of "(h, t)" k p] show ?thesis by simp
qed

theorem built_keys_scanned_witness:
  "P_OUT_BLK # replicate 32 255 \<le> wKey (replicate 32 255) (replicate 32 255) (- 1)
   \<and> wKey (replicate 32 255) (replicate 32 255) (- 1) \<le> rangeEnd (P_OUT_BLK # replicate 32 255)"
  by (rule built_keys_scanned [of "K_W (replicate 32 255) (replicate 32 255) (- 1)"])
    (simp_all add: codec_simps wKey_def)

end
