(* ===== verification/ValueCodec.thy ===== *)
theory ValueCodec
  imports KeyCodec
begin

text \<open>
  The value encoders and decoders of \<^verbatim>\<open>src/store/level_up_db/value_codec.js\<close>: block records,
  transaction records, output records with their optional coinbase byte, hints and first-seen
  heights. JavaScript numbers are integers here and Node's Buffer writers reject what does not
  fit their width. The locale \<open>value_codec\<close> states the round trip every reader relies on.
\<close>

subsection \<open>Buffer integers\<close>

definition writeUInt32BE :: "int \<Rightarrow> error + bytes" where
  "writeUInt32BE x = (if 0 \<le> x \<and> x \<le> 4294967295 then Inr (be 4 (nat x)) else Inl OutOfRange)"

definition writeInt32BE :: "int \<Rightarrow> error + bytes" where
  "writeInt32BE x =
     (if - 2147483648 \<le> x \<and> x \<le> 2147483647 then Inr (be 4 (nat (x mod 4294967296))) else Inl OutOfRange)"

definition writeBigUInt64BE :: "int \<Rightarrow> error + bytes" where
  "writeBigUInt64BE x =
     (if 0 \<le> x \<and> x \<le> 18446744073709551615 then Inr (be 8 (nat x)) else Inl OutOfRange)"

definition readUInt32BE :: "nat \<Rightarrow> bytes \<Rightarrow> error + int" where
  "readUInt32BE off buf =
     (if off + 4 \<le> length buf then Inr (int (unbe (slice off (off + 4) buf))) else Inl OutOfRange)"

definition readInt32BE :: "nat \<Rightarrow> bytes \<Rightarrow> error + int" where
  "readInt32BE off buf =
     (if off + 4 \<le> length buf
      then let n = int (unbe (slice off (off + 4) buf)) in
           Inr (if n \<ge> 2147483648 then n - 4294967296 else n)
      else Inl OutOfRange)"

definition readBigUInt64BE :: "nat \<Rightarrow> bytes \<Rightarrow> error + int" where
  "readBigUInt64BE off buf =
     (if off + 8 \<le> length buf then Inr (int (unbe (slice off (off + 8) buf))) else Inl OutOfRange)"

subsection \<open>Records\<close>

definition ZERO_HASH :: bytes where
  "ZERO_HASH = replicate 32 0"

record block_rec =
  blk_h :: int
  blk_t :: int
  blk_ph :: bytes

definition encodeBlock :: "int \<Rightarrow> int \<Rightarrow> bytes \<Rightarrow> error + bytes" where
  "encodeBlock height timestamp previousHash =
     (if length previousHash \<noteq> 32
      then Inl (KeyLength ''encodeBlock'' ''previousHash'' (length previousHash))
      else rbind (writeUInt32BE height) (\<lambda>h.
           rbind (writeUInt32BE timestamp) (\<lambda>t. Inr (h @ t @ previousHash))))"

definition decodeBlock :: "bytes \<Rightarrow> error + block_rec" where
  "decodeBlock buf =
     rbind (readUInt32BE 0 buf) (\<lambda>h.
     rbind (readUInt32BE 4 buf) (\<lambda>t.
     Inr \<lparr>blk_h = h, blk_t = t, blk_ph = slice 8 40 buf\<rparr>))"

definition encodeTx :: "bytes option \<Rightarrow> error + bytes" where
  "encodeTx blockHash =
     (let hex = (case blockHash of None \<Rightarrow> ZERO_HASH | Some [] \<Rightarrow> ZERO_HASH | Some h \<Rightarrow> h) in
      if length hex \<noteq> 32 then Inl (KeyLength ''encodeTx'' ''blockHash'' (length hex)) else Inr hex)"

definition decodeTx :: "bytes \<Rightarrow> bytes" where
  "decodeTx buf = slice 0 32 buf"

definition encodeInputVal :: "bytes \<Rightarrow> error + bytes" where
  "encodeInputVal txid =
     (if length txid \<noteq> 32 then Inl (KeyLength ''encodeInputVal'' ''txid'' (length txid)) else Inr txid)"

record output_rec =
  out_v :: int
  out_h :: int
  out_t :: "bytes option"
  out_cb :: bool

definition encodeOutput :: "int \<Rightarrow> int option \<Rightarrow> bytes option \<Rightarrow> bool \<Rightarrow> error + bytes" where
  "encodeOutput value height fullTxHash isCoinbase =
     rbind (writeBigUInt64BE value) (\<lambda>v.
     rbind (writeInt32BE (case height of None \<Rightarrow> - 1 | Some h \<Rightarrow> h)) (\<lambda>h.
     rbind (case fullTxHash of
         None \<Rightarrow> Inr ZERO_HASH
       | Some t \<Rightarrow> if t = [] then Inr ZERO_HASH
           else if length t \<noteq> 32 then Inl (KeyLength ''encodeOutput'' ''fullTxHash'' (length t))
           else Inr t) (\<lambda>t.
     Inr (v @ h @ t @ (if isCoinbase then [1] else [])))))"

definition decodeOutput :: "bytes \<Rightarrow> error + output_rec" where
  "decodeOutput buf =
     (let fullTxHash = slice 12 44 buf in
      rbind (readBigUInt64BE 0 buf) (\<lambda>v.
      rbind (readInt32BE 8 buf) (\<lambda>h.
      Inr \<lparr>out_v = v, out_h = h,
           out_t = (if fullTxHash = ZERO_HASH then None else Some fullTxHash),
           out_cb = (length buf > 44 \<and> buf ! 44 = 1)\<rparr>)))"

definition encodeOutHint :: "bytes \<Rightarrow> error + bytes" where
  "encodeOutHint script =
     (if length script \<noteq> 32 then Inl (KeyLength ''encodeOutHint'' ''scriptPubKey'' (length script))
      else Inr script)"

definition encodeScriptBlk :: "int \<Rightarrow> error + bytes" where
  "encodeScriptBlk height = writeUInt32BE height"

definition decodeScriptBlk :: "bytes \<Rightarrow> error + int" where
  "decodeScriptBlk buf = readUInt32BE 0 buf"

subsection \<open>Reading back what was written\<close>

lemma slice_prefix: "length xs = n \<Longrightarrow> slice 0 n (xs @ ys) = xs"
  by (simp add: slice_def)

lemma writeUInt32BE_Inr:
  "writeUInt32BE x = Inr bs \<longleftrightarrow> 0 \<le> x \<and> x \<le> 4294967295 \<and> bs = be 4 (nat x)"
  by (auto simp: writeUInt32BE_def)

lemma writeInt32BE_Inr:
  "writeInt32BE x = Inr bs \<longleftrightarrow>
     - 2147483648 \<le> x \<and> x \<le> 2147483647 \<and> bs = be 4 (nat (x mod 4294967296))"
  by (auto simp: writeInt32BE_def)

lemma writeBigUInt64BE_Inr:
  "writeBigUInt64BE x = Inr bs \<longleftrightarrow> 0 \<le> x \<and> x \<le> 18446744073709551615 \<and> bs = be 8 (nat x)"
  by (auto simp: writeBigUInt64BE_def)

lemma read_written_u32:
  assumes "writeUInt32BE x = Inr bs" and "length pre = off"
  shows "readUInt32BE off (pre @ bs @ post) = Inr x"
  using assms by (auto simp: writeUInt32BE_Inr readUInt32BE_def slice_def)

lemma read_written_u64:
  assumes "writeBigUInt64BE x = Inr bs" and "length pre = off"
  shows "readBigUInt64BE off (pre @ bs @ post) = Inr x"
  using assms by (auto simp: writeBigUInt64BE_Inr readBigUInt64BE_def slice_def)

lemma signed32_mod:
  assumes "- 2147483648 \<le> x" and "x \<le> (2147483647 :: int)"
  shows "(if 2147483648 \<le> x mod 4294967296 then x mod 4294967296 - 4294967296
          else x mod 4294967296) = x"
proof (cases "0 \<le> x")
  case True
  with assms show ?thesis by simp
next
  case False
  have "x mod 4294967296 = (x + 4294967296) mod 4294967296" by simp
  also have "\<dots> = x + 4294967296" using False assms by (intro mod_pos_pos_trivial) auto
  finally show ?thesis using False assms by simp
qed

lemma read_written_i32:
  assumes w: "writeInt32BE x = Inr bs" and l: "length pre = off"
  shows "readInt32BE off (pre @ bs @ post) = Inr x"
proof -
  have bs: "bs = be 4 (nat (x mod 4294967296))"
    and r: "- 2147483648 \<le> x" "x \<le> 2147483647"
    using w by (auto simp: writeInt32BE_Inr)
  have n: "int (unbe bs) = x mod 4294967296"
  proof -
    have "nat (x mod 4294967296) < 256 ^ 4" by (simp add: nat_less_iff)
    then show ?thesis by (simp add: bs)
  qed
  have s: "slice off (off + 4) (pre @ bs @ post) = bs"
    by (rule slice_exact) (simp_all add: l bs)
  have len: "off + 4 \<le> length (pre @ bs @ post)" by (simp add: l bs)
  show ?thesis
    using signed32_mod [OF r] len by (simp add: readInt32BE_def Let_def s n)
qed

lemma length_written [simp]:
  "writeUInt32BE x = Inr bs \<Longrightarrow> length bs = 4"
  "writeInt32BE x = Inr bs \<Longrightarrow> length bs = 4"
  "writeBigUInt64BE x = Inr bs \<Longrightarrow> length bs = 8"
  by (auto simp: writeUInt32BE_Inr writeInt32BE_Inr writeBigUInt64BE_Inr)

lemma encodeBlock_Inr:
  "encodeBlock h t ph = Inr buf \<longleftrightarrow>
     length ph = 32 \<and> (\<exists>hb tb. writeUInt32BE h = Inr hb \<and> writeUInt32BE t = Inr tb \<and> buf = hb @ tb @ ph)"
  by (auto simp: encodeBlock_def rbind_Inr_iff)

lemma length_encodeBlock: "encodeBlock h t ph = Inr buf \<Longrightarrow> length buf = 40"
  by (auto simp: encodeBlock_Inr)

lemma decode_encode_block:
  assumes "encodeBlock h t ph = Inr buf"
  shows "decodeBlock buf = Inr \<lparr>blk_h = h, blk_t = t, blk_ph = ph\<rparr>"
proof -
  obtain hb tb where hb: "writeUInt32BE h = Inr hb" and tb: "writeUInt32BE t = Inr tb"
    and buf: "buf = hb @ tb @ ph" and ph: "length ph = 32"
    using assms by (auto simp: encodeBlock_Inr)
  have "readUInt32BE 0 buf = Inr h"
    using read_written_u32 [OF hb, of "[]" 0 "tb @ ph"] by (simp add: buf)
  moreover have "readUInt32BE 4 buf = Inr t"
    using read_written_u32 [OF tb, of hb 4 ph] hb by (simp add: buf)
  moreover have "slice 8 40 buf = ph"
    using slice_exact [of "hb @ tb" 8 ph 40 "[]"] hb tb ph by (simp add: buf)
  ultimately show ?thesis by (simp add: decodeBlock_def)
qed

definition stored_txid :: "bytes option \<Rightarrow> bytes option" where
  "stored_txid t = (case t of None \<Rightarrow> None
     | Some x \<Rightarrow> if x = [] \<or> x = ZERO_HASH then None else Some x)"

definition output_norm :: "int \<times> int option \<times> bytes option \<times> bool \<Rightarrow> output_rec" where
  "output_norm = (\<lambda>(v, h, t, cb).
     \<lparr>out_v = v, out_h = (case h of None \<Rightarrow> - 1 | Some x \<Rightarrow> x), out_t = stored_txid t, out_cb = cb\<rparr>)"

lemma encodeOutput_Inr:
  "encodeOutput v h t cb = Inr buf \<longleftrightarrow> (\<exists>vb hb tb.
     writeBigUInt64BE v = Inr vb \<and> writeInt32BE (case h of None \<Rightarrow> - 1 | Some x \<Rightarrow> x) = Inr hb
     \<and> (t = None \<and> tb = ZERO_HASH \<or> t = Some [] \<and> tb = ZERO_HASH \<or> t = Some tb \<and> length tb = 32)
     \<and> buf = vb @ hb @ tb @ (if cb then [1] else []))"
  by (cases t) (auto simp: encodeOutput_def rbind_Inr_iff split: if_splits)

lemma length_encodeOutput:
  "encodeOutput v h t cb = Inr buf \<Longrightarrow> length buf = (if cb then 45 else 44)"
  by (auto simp: encodeOutput_Inr ZERO_HASH_def)

lemma decode_encode_output:
  assumes "encodeOutput v h t cb = Inr buf"
  shows "decodeOutput buf = Inr (output_norm (v, h, t, cb))"
proof -
  obtain vb hb tb where vb: "writeBigUInt64BE v = Inr vb"
    and hb: "writeInt32BE (case h of None \<Rightarrow> - 1 | Some x \<Rightarrow> x) = Inr hb"
    and t: "t = None \<and> tb = ZERO_HASH \<or> t = Some [] \<and> tb = ZERO_HASH \<or> t = Some tb \<and> length tb = 32"
    and buf: "buf = vb @ hb @ tb @ (if cb then [1] else [])"
    using assms by (auto simp: encodeOutput_Inr)
  have tb: "length tb = 32" using t by (auto simp: ZERO_HASH_def)
  have "readBigUInt64BE 0 buf = Inr v"
    using read_written_u64 [OF vb, of "[]" 0] by (simp add: buf)
  moreover have "readInt32BE 8 buf = Inr (case h of None \<Rightarrow> - 1 | Some x \<Rightarrow> x)"
    using read_written_i32 [OF hb, of vb 8] vb by (simp add: buf)
  moreover have "slice 12 44 buf = tb"
    using slice_exact [of "vb @ hb" 12 tb 44] vb hb tb by (simp add: buf)
  moreover have "(length buf > 44 \<and> buf ! 44 = 1) = cb"
    using vb hb tb by (auto simp: buf nth_append)
  moreover have "(if tb = ZERO_HASH then None else Some tb) = stored_txid t"
    using t by (auto simp: stored_txid_def ZERO_HASH_def)
  ultimately show ?thesis by (simp add: decodeOutput_def output_norm_def)
qed

subsection \<open>The contract of a value codec\<close>

text \<open>A record can be read back: decoding what was encoded gives the stored form of the arguments.\<close>

locale value_codec =
  fixes enc :: "'a \<Rightarrow> error + bytes" and dec :: "bytes \<Rightarrow> error + 'b" and norm :: "'a \<Rightarrow> 'b"
  assumes dec_enc: "enc a = Inr buf \<Longrightarrow> dec buf = Inr (norm a)"
begin

lemma same_bytes_same_record: "enc a = Inr buf \<Longrightarrow> enc b = Inr buf \<Longrightarrow> norm a = norm b"
  using dec_enc [of a buf] dec_enc [of b buf] by simp

lemma readable: "enc a = Inr buf \<Longrightarrow> \<exists>r. dec buf = Inr r"
  using dec_enc by blast

end

interpretation blkv: value_codec "\<lambda>(h, t, ph). encodeBlock h t ph" decodeBlock
  "\<lambda>(h, t, ph). \<lparr>blk_h = h, blk_t = t, blk_ph = ph\<rparr>"
  by unfold_locales (auto simp: decode_encode_block)

interpretation outv: value_codec "\<lambda>(v, h, t, cb). encodeOutput v h t cb" decodeOutput output_norm
  by unfold_locales (auto simp: decode_encode_output)

interpretation sblkv: value_codec encodeScriptBlk decodeScriptBlk "\<lambda>h. h"
  by unfold_locales
    (metis append_Nil append_Nil2 decodeScriptBlk_def encodeScriptBlk_def list.size(3) read_written_u32)

interpretation txv: value_codec encodeTx "\<lambda>buf. Inr (decodeTx buf)"
  "\<lambda>bh. case bh of None \<Rightarrow> ZERO_HASH | Some [] \<Rightarrow> ZERO_HASH | Some h \<Rightarrow> h"
  by unfold_locales
    (auto simp: encodeTx_def decodeTx_def Let_def split: option.splits list.splits if_splits)

subsection \<open>Properties\<close>

text \<open>
  C27. An output record read back is the one written: the satoshi value in full 64-bit
  precision, the height as a signed 32-bit number (absent reads back as -1), the coinbase flag,
  and the full txid, where an absent, empty or all-zero txid reads back as absent. Coinbase
  records take 45 bytes and all others 44.
\<close>

theorem output_record_roundtrip:
  assumes "encodeOutput v h t cb = Inr buf"
  shows "decodeOutput buf = Inr \<lparr>out_v = v, out_h = (case h of None \<Rightarrow> - 1 | Some x \<Rightarrow> x),
           out_t = stored_txid t, out_cb = cb\<rparr>
         \<and> length buf = (if cb then 45 else 44)"
  using outv.dec_enc [of "(v, h, t, cb)"] length_encodeOutput assms by (simp add: output_norm_def)

theorem output_record_roundtrip_witness:
  "decodeOutput (be 8 9007199254740993 @ be 4 4294967295 @ replicate 32 7 @ [1])
   = Inr \<lparr>out_v = 9007199254740993, out_h = - 1, out_t = Some (replicate 32 7), out_cb = True\<rparr>"
proof -
  have "encodeOutput 9007199254740993 None (Some (replicate 32 7)) True
        = Inr (be 8 9007199254740993 @ be 4 4294967295 @ replicate 32 7 @ [1])"
    by (simp add: encodeOutput_def writeBigUInt64BE_def writeInt32BE_def)
  from output_record_roundtrip [OF this] show ?thesis
    by (simp add: stored_txid_def ZERO_HASH_def)
qed

text \<open>
  C28. Block records and first-seen records read back as written: an encoded block gives its
  height, timestamp and parent hash, and an encoded first-seen height gives the height.
\<close>

theorem block_record_roundtrip:
  assumes "encodeBlock h t ph = Inr buf" and "encodeScriptBlk fs = Inr sbuf"
  shows "decodeBlock buf = Inr \<lparr>blk_h = h, blk_t = t, blk_ph = ph\<rparr> \<and> length buf = 40
         \<and> decodeScriptBlk sbuf = Inr fs"
  using blkv.dec_enc [of "(h, t, ph)"] sblkv.dec_enc length_encodeBlock assms by simp

theorem block_record_roundtrip_witness:
  "decodeBlock (be 4 840000 @ be 4 1713571767 @ replicate 32 3)
     = Inr \<lparr>blk_h = 840000, blk_t = 1713571767, blk_ph = replicate 32 3\<rparr>
   \<and> decodeScriptBlk (be 4 170) = Inr 170"
proof -
  have b: "encodeBlock 840000 1713571767 (replicate 32 3)
           = Inr (be 4 840000 @ be 4 1713571767 @ replicate 32 3)"
    and s: "encodeScriptBlk 170 = Inr (be 4 170)"
    by (simp_all add: encodeBlock_def encodeScriptBlk_def writeUInt32BE_def)
  from block_record_roundtrip [OF b s] show ?thesis by simp
qed

end
