(* ===== verification/Kv.thy ===== *)
theory Kv
  imports ValueCodec
begin

text \<open>
  What the store relies on of LevelDB. The packages \<^verbatim>\<open>classic-level\<close> and \<^verbatim>\<open>memory-level\<close> are
  not part of the repository, so a database is a parameter: the record \<open>kv\<close> holds the three
  operations the code calls (\<open>get\<close>, \<open>batch\<close>, of which \<open>put\<close> and \<open>del\<close> are batches of one, and
  \<open>iterator\<close>) and the locale \<open>leveldb\<close> states their documented behaviour: a batch is applied
  whole or not at all, reads see every write that succeeded, and an iterator gives the entries
  of its range in ascending key order, at most \<open>limit\<close> many. Reads do not fail in this model.
  The reference database at the end of the theory, a sorted association list with a counter of
  the batches it still accepts, shows that the laws can hold.
\<close>

subsection \<open>Operations\<close>

datatype item = Put bytes bytes | Del bytes "bytes option"

fun item_key :: "item \<Rightarrow> bytes" where
  "item_key (Put k v) = k"
| "item_key (Del k v) = k"

fun item_value :: "item \<Rightarrow> bytes option" where
  "item_value (Put k v) = Some v"
| "item_value (Del k v) = v"

fun item_set_value :: "bytes \<Rightarrow> item \<Rightarrow> item" where
  "item_set_value v (Put k w) = Put k v"
| "item_set_value v (Del k w) = Del k (Some v)"

fun item_effect :: "item \<Rightarrow> bytes option" where
  "item_effect (Put k v) = Some v"
| "item_effect (Del k v) = None"

definition apply_item :: "item \<Rightarrow> (bytes \<rightharpoonup> bytes) \<Rightarrow> (bytes \<rightharpoonup> bytes)" where
  "apply_item it m = m(item_key it := item_effect it)"

text \<open>The bounds of an iterator: \<open>gte\<close>, \<open>gt\<close>, \<open>lte\<close> and \<open>limit\<close>, each possibly absent.\<close>

record range =
  r_gte :: "bytes option"
  r_gt :: "bytes option"
  r_lte :: "bytes option"
  r_limit :: "nat option"

definition in_range :: "range \<Rightarrow> bytes \<Rightarrow> bool" where
  "in_range r k \<longleftrightarrow> (case r_gte r of None \<Rightarrow> True | Some a \<Rightarrow> a \<le> k)
     \<and> (case r_gt r of None \<Rightarrow> True | Some a \<Rightarrow> a < k)
     \<and> (case r_lte r of None \<Rightarrow> True | Some a \<Rightarrow> k \<le> a)"

definition range_of :: "bytes \<Rightarrow> range" where
  "range_of p = \<lparr>r_gte = Some p, r_gt = None, r_lte = Some (rangeEnd p), r_limit = None\<rparr>"

definition no_limit :: "range \<Rightarrow> range" where
  "no_limit r = r\<lparr>r_limit := None\<rparr>"

record 'd kv =
  kv_get :: "'d \<Rightarrow> bytes \<Rightarrow> bytes option"
  kv_batch :: "'d \<Rightarrow> item list \<Rightarrow> bool \<times> 'd"
  kv_iter :: "'d \<Rightarrow> range \<Rightarrow> (bytes \<times> bytes) list"

subsection \<open>Laws\<close>

locale leveldb =
  fixes K :: "'d kv"
  assumes batch_ok: "kv_batch K d ops = (True, d') \<Longrightarrow> kv_get K d' = fold apply_item ops (kv_get K d)"
    and batch_fail: "kv_batch K d ops = (False, d') \<Longrightarrow> kv_get K d' = kv_get K d"
    and iter_set: "r_limit r = None \<Longrightarrow>
      set (kv_iter K d r) = {(k, v). kv_get K d k = Some v \<and> in_range r k}"
    and iter_sorted: "sorted_wrt (<) (map fst (kv_iter K d r))"
    and iter_limit: "r_limit r = Some n \<Longrightarrow> kv_iter K d r = take n (kv_iter K d (no_limit r))"
begin

lemma iter_distinct: "distinct (map fst (kv_iter K d r))"
  using iter_sorted [of d r] by (simp add: strict_sorted_iff)

lemma iter_mem: "r_limit r = None \<Longrightarrow>
    (k, v) \<in> set (kv_iter K d r) \<longleftrightarrow> kv_get K d k = Some v \<and> in_range r k"
  by (simp add: iter_set)

text \<open>An iterator is determined by what the database holds inside its range.\<close>

lemma iter_unique:
  assumes "r_limit r = None" and "sorted_wrt (<) (map fst xs)"
    and "set xs = {(k, v). kv_get K d k = Some v \<and> in_range r k}"
  shows "kv_iter K d r = xs"
proof -
  have s: "set (kv_iter K d r) = set xs" using assms iter_set by simp
  have "map fst (kv_iter K d r) = map fst xs"
  proof (rule sorted_distinct_set_unique)
    show "sorted (map fst (kv_iter K d r))" "distinct (map fst (kv_iter K d r))"
      using iter_sorted by (simp_all add: strict_sorted_iff)
    show "sorted (map fst xs)" "distinct (map fst xs)"
      using assms(2) by (simp_all add: strict_sorted_iff)
    show "set (map fst (kv_iter K d r)) = set (map fst xs)" using s by simp
  qed
  then have "length (kv_iter K d r) = length xs" by (metis length_map)
  have "map snd (kv_iter K d r) = map snd xs"
  proof (rule nth_equalityI)
    show "length (map snd (kv_iter K d r)) = length (map snd xs)"
      using \<open>length (kv_iter K d r) = length xs\<close> by simp
  next
    fix i assume i: "i < length (map snd (kv_iter K d r))"
    have f: "fst (kv_iter K d r ! i) = fst (xs ! i)"
      using \<open>map fst (kv_iter K d r) = map fst xs\<close> i \<open>length (kv_iter K d r) = length xs\<close>
      by (metis length_map nth_map)
    have "kv_iter K d r ! i \<in> set xs" "xs ! i \<in> set xs"
      using i s \<open>length (kv_iter K d r) = length xs\<close> by (metis length_map nth_mem)+
    then have "snd (kv_iter K d r ! i) = snd (xs ! i)"
      using f assms(3) by (auto simp: prod_eq_iff)
    then show "map snd (kv_iter K d r) ! i = map snd xs ! i"
      using i \<open>length (kv_iter K d r) = length xs\<close> by simp
  qed
  with \<open>map fst (kv_iter K d r) = map fst xs\<close> show ?thesis
    by (metis zip_map_fst_snd)
qed

lemma iter_cong:
  assumes "kv_get K d = kv_get K d'"
  shows "kv_iter K d r = kv_iter K d' r"
proof -
  have n: "kv_iter K d q = kv_iter K d' q" if "r_limit q = None" for q
    using that iter_sorted [of d' q] iter_set [of q d'] assms by (intro iter_unique) auto
  show ?thesis
  proof (cases "r_limit r")
    case None
    then show ?thesis by (rule n)
  next
    case (Some l)
    then show ?thesis using iter_limit n [of "no_limit r"] by (simp add: no_limit_def)
  qed
qed

lemma batch_cases:
  obtains d' where "kv_batch K d ops = (True, d')" and "kv_get K d' = fold apply_item ops (kv_get K d)"
  | d' where "kv_batch K d ops = (False, d')" and "kv_get K d' = kv_get K d"
proof (cases "kv_batch K d ops")
  case (Pair b d')
  show ?thesis
  proof (cases b)
    case True
    with Pair show ?thesis using that(1) batch_ok by simp
  next
    case False
    with Pair show ?thesis using that(2) batch_fail by simp
  qed
qed

end

lemma in_range_of: "in_range (range_of p) k \<longleftrightarrow> p \<le> k \<and> k \<le> rangeEnd p"
  by (simp add: in_range_def range_of_def)

lemma limit_range_of [simp]: "r_limit (range_of p) = None"
  by (simp add: range_of_def)

lemma in_range_of_prefix: "in_range (range_of p) k \<Longrightarrow> prefix p k"
  by (auto simp: in_range_of intro: in_range_prefix)

lemma in_range_of_short: "length k \<le> MAX_KEY_LEN \<Longrightarrow> in_range (range_of p) k \<longleftrightarrow> prefix p k"
  unfolding in_range_of by (meson prefix_le_key key_le_rangeEnd in_range_prefix)

lemma in_no_limit [simp]:
  "in_range (no_limit r) = in_range r" "in_range (r\<lparr>r_limit := l\<rparr>) = in_range r"
  "r_limit (no_limit r) = None"
  by (simp_all add: in_range_def no_limit_def fun_eq_iff)

subsection \<open>A reference database\<close>

text \<open>
  The content as an association list, and the number of batches that still succeed (a batch
  after that fails and changes nothing).
\<close>

record ref_db =
  ref_entries :: "(bytes \<times> bytes) list"
  ref_left :: nat

definition ref_get :: "ref_db \<Rightarrow> bytes \<Rightarrow> bytes option" where
  "ref_get d = map_of (ref_entries d)"

fun ref_apply :: "item \<Rightarrow> (bytes \<times> bytes) list \<Rightarrow> (bytes \<times> bytes) list" where
  "ref_apply (Put k v) xs = AList.update k v xs"
| "ref_apply (Del k v) xs = AList.delete k xs"

definition ref_batch :: "ref_db \<Rightarrow> item list \<Rightarrow> bool \<times> ref_db" where
  "ref_batch d ops = (case ref_left d of
     0 \<Rightarrow> (False, d)
   | Suc n \<Rightarrow> (True, \<lparr>ref_entries = fold ref_apply ops (ref_entries d), ref_left = n\<rparr>))"

definition ref_iter :: "ref_db \<Rightarrow> range \<Rightarrow> (bytes \<times> bytes) list" where
  "ref_iter d r =
     (let ks = filter (in_range r) (sort (remdups (map fst (ref_entries d))));
          es = map (\<lambda>k. (k, the (ref_get d k))) ks
      in case r_limit r of None \<Rightarrow> es | Some n \<Rightarrow> take n es)"

definition ref_kv :: "ref_db kv" where
  "ref_kv = \<lparr>kv_get = ref_get, kv_batch = ref_batch, kv_iter = ref_iter\<rparr>"

lemma ref_kv_simps [simp]:
  "kv_get ref_kv = ref_get" "kv_batch ref_kv = ref_batch" "kv_iter ref_kv = ref_iter"
  by (simp_all add: ref_kv_def)

lemma map_of_ref_apply: "map_of (ref_apply it xs) = apply_item it (map_of xs)"
  by (cases it) (simp_all add: apply_item_def)

lemma map_of_ref_fold: "map_of (fold ref_apply ops xs) = fold apply_item ops (map_of xs)"
  by (induction ops arbitrary: xs) (simp_all add: map_of_ref_apply)

lemma sorted_wrt_take: "sorted_wrt P xs \<Longrightarrow> sorted_wrt P (take n xs)"
  by (metis append_take_drop_id sorted_wrt_append)

lemma ref_keys_sorted: "sorted_wrt (<) (filter P (sort (remdups (xs :: bytes list))))"
  by (simp add: strict_sorted_iff sorted_wrt_filter)

lemma ref_iter_content:
  assumes "r_limit r = None"
  shows "set (ref_iter d r) = {(k, v). ref_get d k = Some v \<and> in_range r k}"
proof -
  have "set (ref_iter d r) = (\<lambda>k. (k, the (ref_get d k))) ` {k \<in> dom (ref_get d). in_range r k}"
    using assms by (auto simp: ref_iter_def Let_def ref_get_def dom_map_of_conv_image_fst)
  then show ?thesis by (auto simp: image_iff)
qed

interpretation ref: leveldb ref_kv
proof
  fix d d' :: ref_db and ops
  assume "kv_batch ref_kv d ops = (True, d')"
  then show "kv_get ref_kv d' = fold apply_item ops (kv_get ref_kv d)"
    by (auto simp: ref_batch_def ref_get_def map_of_ref_fold split: nat.splits)
next
  fix d d' :: ref_db and ops
  assume "kv_batch ref_kv d ops = (False, d')"
  then show "kv_get ref_kv d' = kv_get ref_kv d"
    by (auto simp: ref_batch_def split: nat.splits)
next
  fix r :: range and d :: ref_db
  assume "r_limit r = None"
  then show "set (kv_iter ref_kv d r) = {(k, v). kv_get ref_kv d k = Some v \<and> in_range r k}"
    using ref_iter_content by simp
next
  fix r :: range and d :: ref_db
  have "map fst (kv_iter ref_kv d (no_limit r)) = filter (in_range r) (sort (remdups (map fst (ref_entries d))))"
    by (simp add: ref_iter_def Let_def comp_def)
  then have s: "sorted_wrt (<) (map fst (kv_iter ref_kv d (no_limit r)))"
    by (simp only: ref_keys_sorted)
  show "sorted_wrt (<) (map fst (kv_iter ref_kv d r))"
  proof (cases "r_limit r")
    case None
    then have "no_limit r = r" by (simp add: no_limit_def)
    then show ?thesis using s by simp
  next
    case (Some n)
    then have "map fst (kv_iter ref_kv d r) = take n (map fst (kv_iter ref_kv d (no_limit r)))"
      by (simp add: ref_iter_def Let_def take_map)
    then show ?thesis using sorted_wrt_take [OF s] by simp
  qed
next
  fix r :: range and d :: ref_db and n
  assume "r_limit r = Some n"
  then show "kv_iter ref_kv d r = take n (kv_iter ref_kv d (no_limit r))"
    by (simp add: ref_iter_def Let_def)
qed

lemma leveldb_ref_kv: "leveldb ref_kv"
  by (rule ref.leveldb_axioms)

end
