(* ===== verification/Store.thy ===== *)
theory Store
  imports Kv
begin

text \<open>
  The state of a \<open>LevelUpStore\<close> and its write staging: \<^verbatim>\<open>src/store/level_up_db.js\<close>,
  \<^verbatim>\<open>src/store/level_up_db/store_lifecycle.js\<close>, the staging half of
  \<^verbatim>\<open>blocks_and_transactions.js\<close>, the halt marker and \<^verbatim>\<open>store_layout.js\<close>. Between
  \<open>beginTransaction\<close> and \<open>endTransaction\<close> every write goes to a Map keyed by the latin1 text of
  the key; \<open>endTransaction(true)\<close> hands the Map's items to one LevelDB batch. The view of a store
  is what a reader would find if the staged writes were on disk; the lemmas here say how each
  operation changes the view and that a commit makes the view the content.
\<close>

subsection \<open>State\<close>

text \<open>
  The class statics are shared by all stores of the process. A cache key is the hex txid
  followed by two 16-bit characters for the output index.
\<close>

record statics =
  outputCache :: "(u16 list \<times> bytes) list"
  outputCacheHits :: nat
  outputCacheMisses :: nat
  knownScripts :: "string set"
  knownScriptsHits :: nat
  knownScriptsMisses :: nat

record 'd store =
  stat :: statics
  db :: 'd
  transactionArray :: "(string \<times> item) list option"
  deletedTransactionArray :: "(string \<times> (string \<times> bytes option) list) list option"

definition resetCaches :: statics where
  "resetCaches = \<lparr>outputCache = [], outputCacheHits = 0, outputCacheMisses = 0,
     knownScripts = {}, knownScriptsHits = 0, knownScriptsMisses = 0\<rparr>"

text \<open>The constructor and \<open>createDatabase\<close>: empty staging Maps, and every cache dropped on open.\<close>

definition new_store :: "statics \<Rightarrow> 'd \<Rightarrow> 'd store" where
  "new_store st d = \<lparr>stat = st, db = d, transactionArray = Some [], deletedTransactionArray = Some []\<rparr>"

definition createDatabase :: "(bool \<times> 'd) \<Rightarrow> ('d store, unit) m" where
  "createDatabase opened s =
     (let s1 = s\<lparr>stat := resetCaches\<rparr> in
      if fst opened then (Inr (), s1\<lparr>db := snd opened\<rparr>) else (Inl DbError, s1))"

subsection \<open>Direct database access\<close>

definition dbGet :: "'d kv \<Rightarrow> bytes \<Rightarrow> ('d store, bytes option) m" where
  "dbGet K k = mget (\<lambda>s. kv_get K (db s) k)"

definition dbIter :: "'d kv \<Rightarrow> range \<Rightarrow> ('d store, (bytes \<times> bytes) list) m" where
  "dbIter K r = mget (\<lambda>s. kv_iter K (db s) r)"

definition dbWrite :: "'d kv \<Rightarrow> item \<Rightarrow> ('d store, unit) m" where
  "dbWrite K it s = (case kv_batch K (db s) [it] of
     (ok, d) \<Rightarrow> (if ok then Inr () else Inl DbError, s\<lparr>db := d\<rparr>))"

subsection \<open>Staging\<close>

definition getTransactionValue :: "'d store \<Rightarrow> bytes \<Rightarrow> bytes option" where
  "getTransactionValue s key = (case transactionArray s of
     None \<Rightarrow> None
   | Some ta \<Rightarrow> (case map_of ta (toMapKey key) of None \<Rightarrow> None | Some it \<Rightarrow> item_value it))"

definition addTransaction :: "'d kv \<Rightarrow> item \<Rightarrow> ('d store, bool) m" where
  "addTransaction K it s = (case transactionArray s of
     Some ta \<Rightarrow>
       (Inr True, s\<lparr>transactionArray := Some (AList.update (toMapKey (item_key it)) it ta)\<rparr>)
   | None \<Rightarrow> mseq (dbWrite K it) (mret True) s)"

fun is_put :: "item \<Rightarrow> bool" where
  "is_put (Put k v) = True"
| "is_put (Del k v) = False"

definition removeTransactionIfExists :: "bytes \<Rightarrow> ('d store, bool) m" where
  "removeTransactionIfExists key s = (case transactionArray s of
     None \<Rightarrow> (Inr False, s)
   | Some ta \<Rightarrow> (case map_of ta (toMapKey key) of
       None \<Rightarrow> (Inr False, s)
     | Some it \<Rightarrow>
         if is_put it then (Inr True, s\<lparr>transactionArray := Some (AList.delete (toMapKey key) ta)\<rparr>)
         else (Inr False, s)))"

text \<open>
  \<open>removeTransaction\<close> moves a staged item to the undo Map of its deleting block; a Map key that
  is a string (the block hash) is used as it is.
\<close>

definition removeTransaction :: "bytes \<Rightarrow> string \<Rightarrow> ('d store, bool) m" where
  "removeTransaction key delMapKey s = (case transactionArray s of
     None \<Rightarrow> (Inl TypeError, s)
   | Some ta \<Rightarrow> (case map_of ta (toMapKey key) of
       None \<Rightarrow> (Inr False, s)
     | Some it \<Rightarrow> (case deletedTransactionArray s of
         None \<Rightarrow> (Inl TypeError, s)
       | Some da \<Rightarrow>
           let inner = (case map_of da delMapKey of None \<Rightarrow> [] | Some m \<Rightarrow> m);
               inner' = AList.update (toMapKey key) (item_value it) inner in
           (Inr True, s\<lparr>deletedTransactionArray := Some (AList.update delMapKey inner' da),
                        transactionArray := Some (AList.delete (toMapKey key) ta)\<rparr>))))"

subsection \<open>Batches\<close>

definition beginTransaction :: "('d store, unit) m" where
  "beginTransaction = mmod (\<lambda>s. s\<lparr>transactionArray := Some [], deletedTransactionArray := Some []\<rparr>)"

definition endTransaction :: "'d kv \<Rightarrow> bool \<Rightarrow> ('d store, unit) m" where
  "endTransaction K batch s =
     (if \<not> batch
      then (Inr (), s\<lparr>stat := (stat s)\<lparr>knownScripts := {}\<rparr>,
                      transactionArray := None, deletedTransactionArray := None\<rparr>)
      else (case transactionArray s of
          None \<Rightarrow> (Inl BatchInsertFailed, s)
        | Some ta \<Rightarrow> (case kv_batch K (db s) (map snd ta) of
            (True, d) \<Rightarrow>
              (Inr (), s\<lparr>db := d, transactionArray := None, deletedTransactionArray := None\<rparr>)
          | (False, d) \<Rightarrow> (Inl BatchInsertFailed, s\<lparr>db := d\<rparr>))))"

subsection \<open>Tip pointers and the stored-block list\<close>

text \<open>A stored text is the UTF-8 bytes of ASCII characters; NaN is \<open>None\<close>.\<close>

definition buf_text :: "bytes \<Rightarrow> string" where
  "buf_text b = map (\<lambda>x. char_of (unat x)) b"

lemma buf_text_utf8 [simp]: "buf_text (utf8 s) = s"
  by (induction s) (simp_all add: buf_text_def utf8_def unat_of_nat)

definition getLastBlockHeight :: "'d kv \<Rightarrow> ('d store, int option) m" where
  "getLastBlockHeight K = mbind (dbGet K PREFIX_LAST_BLOCK_HEIGHT)
     (\<lambda>value. case value of None \<Rightarrow> mret (Some (- 1)) | Some b \<Rightarrow> mret (parseInt16 (buf_text b)))"

definition setLastBlockHeight :: "'d kv \<Rightarrow> int \<Rightarrow> ('d store, bool) m" where
  "setLastBlockHeight K height =
     mseq (addTransaction K (Put PREFIX_LAST_BLOCK_HEIGHT (utf8 (hexint height)))) (mret True)"

definition getLastBlockHash :: "'d kv \<Rightarrow> ('d store, bytes option) m" where
  "getLastBlockHash K = mbind (dbGet K PREFIX_LAST_BLOCK_HASH)
     (\<lambda>value. case value of None \<Rightarrow> mret None | Some b \<Rightarrow> mret (Some (h2b (buf_text b))))"

definition setLastBlockHash :: "'d kv \<Rightarrow> bytes \<Rightarrow> ('d store, bool) m" where
  "setLastBlockHash K hash = addTransaction K (Put PREFIX_LAST_BLOCK_HASH (utf8 (b2h hash)))"

definition addLastStoredBlock :: "'d kv \<Rightarrow> bytes \<Rightarrow> ('d store, bool) m" where
  "addLastStoredBlock K blockHash =
     mbind (mlift (kStoredBlk blockHash)) (\<lambda>key. addTransaction K (Put key []))"

definition removeLastStoredBlock :: "'d kv \<Rightarrow> bytes \<Rightarrow> ('d store, bool) m" where
  "removeLastStoredBlock K blockHash =
     mbind (mlift (kStoredBlk blockHash)) (\<lambda>key.
     mbind (removeTransactionIfExists key) (\<lambda>cancelled.
     if cancelled then mret True else mseq (addTransaction K (Del key None)) (mret True)))"

definition getLastStoredBlocks :: "'d kv \<Rightarrow> ('d store, bytes list) m" where
  "getLastStoredBlocks K = mbind (dbIter K (range_of [P_STORED_BLK]))
     (\<lambda>es. mret (map (\<lambda>(key, _). drop 1 key) es))"

record block_obj =
  bo_hash :: bytes
  bo_height :: int
  bo_timestamp :: int
  bo_previousHash :: bytes

fun maxBlock :: "(bytes \<times> bytes) list \<Rightarrow> block_obj option \<Rightarrow> error + block_obj option" where
  "maxBlock [] best = Inr best"
| "maxBlock ((key, value) # es) best =
     rbind (decodeBlock value) (\<lambda>decoded.
       let cur = \<lparr>bo_hash = drop 1 key, bo_height = blk_h decoded,
                  bo_timestamp = blk_t decoded, bo_previousHash = blk_ph decoded\<rparr> in
       maxBlock es (case best of
           None \<Rightarrow> Some cur
         | Some b \<Rightarrow> if blk_h decoded > bo_height b then Some cur else best))"

definition getLastBlock :: "'d kv \<Rightarrow> ('d store, block_obj option) m" where
  "getLastBlock K = mbind (dbIter K (range_of [P_BLOCK])) (\<lambda>es. mlift (maxBlock es None))"

subsection \<open>Halt marker and layout version\<close>

text \<open>
  The marker's JSON text is made and read by the standard library; \<open>json_marker\<close> and
  \<open>parse_marker\<close> stand for it. The marker is written and deleted directly, never staged.
\<close>

record halt_rec =
  hr_reason :: string
  hr_height :: "int option"
  hr_at :: "string option"

definition getHaltMarker :: "'d kv \<Rightarrow> (bytes \<Rightarrow> halt_rec option) \<Rightarrow> ('d store, halt_rec option) m" where
  "getHaltMarker K parse_marker = mbind (dbGet K HALT_MARKER_KEY)
     (\<lambda>raw. case raw of None \<Rightarrow> mret None | Some b \<Rightarrow> mret (parse_marker b))"

definition setHaltMarker ::
  "'d kv \<Rightarrow> (halt_rec \<Rightarrow> bytes) \<Rightarrow> string \<Rightarrow> string \<Rightarrow> int option \<Rightarrow> string option \<Rightarrow> ('d store, halt_rec) m"
where
  "setHaltMarker K json_marker now reason height at =
     (let rec = \<lparr>hr_reason = reason, hr_height = height,
                 hr_at = Some (case at of None \<Rightarrow> now | Some a \<Rightarrow> if a = [] then now else a)\<rparr> in
      mseq (dbWrite K (Put HALT_MARKER_KEY (json_marker rec))) (mret rec))"

definition deleteHaltMarker :: "'d kv \<Rightarrow> ('d store, bool) m" where
  "deleteHaltMarker K = mseq (dbWrite K (Del HALT_MARKER_KEY None)) (mret True)"

definition STORE_LAYOUT_VERSION :: nat where "STORE_LAYOUT_VERSION = 2"
definition LEGACY_LAYOUT_VERSION :: nat where "LEGACY_LAYOUT_VERSION = 1"

datatype layout = LNull | LNaN | LVersion nat

definition getLayoutVersion :: "'d kv \<Rightarrow> ('d store, layout) m" where
  "getLayoutVersion K = mbind (dbGet K PREFIX_LAYOUT_VERSION) (\<lambda>raw. case raw of
     Some b \<Rightarrow>
       let text = buf_text b in
       (if text \<noteq> [] \<and> list_all is_digit text \<and> hd text \<noteq> CHR ''0'' then mret (LVersion (undec text))
        else mret LNaN)
   | None \<Rightarrow> mbind (dbIter K \<lparr>r_gte = None, r_gt = None, r_lte = None, r_limit = Some 1\<rparr>)
       (\<lambda>es. mret (if es \<noteq> [] then LVersion LEGACY_LAYOUT_VERSION else LNull)))"

definition setLayoutVersion :: "'d kv \<Rightarrow> nat \<Rightarrow> ('d store, unit) m" where
  "setLayoutVersion K version = dbWrite K (Put PREFIX_LAYOUT_VERSION (utf8 (dec version)))"

datatype layout_state = LCurrent | LEmpty

definition ensureLayoutVersion :: "'d kv \<Rightarrow> bool \<Rightarrow> ('d store, layout_state) m" where
  "ensureLayoutVersion K stamp = mbind (getLayoutVersion K) (\<lambda>version.
     if version = LVersion STORE_LAYOUT_VERSION then mret LCurrent
     else case version of
       LNull \<Rightarrow> mseq (mwhen stamp (setLayoutVersion K STORE_LAYOUT_VERSION)) (mret LEmpty)
     | _ \<Rightarrow> mthrow LayoutRefused)"

subsection \<open>The view\<close>

definition open_batch :: "'d store \<Rightarrow> bool" where
  "open_batch s \<longleftrightarrow> transactionArray s \<noteq> None"

definition staged :: "'d store \<Rightarrow> bytes \<Rightarrow> item option" where
  "staged s k = (case transactionArray s of None \<Rightarrow> None | Some ta \<Rightarrow> map_of ta (toMapKey k))"

definition view :: "'d kv \<Rightarrow> 'd store \<Rightarrow> bytes \<Rightarrow> bytes option" where
  "view K s k = (case staged s k of None \<Rightarrow> kv_get K (db s) k | Some it \<Rightarrow> item_effect it)"

text \<open>The staging Map's invariant: distinct Map keys, each that of its item.\<close>

definition staged_ok :: "'d store \<Rightarrow> bool" where
  "staged_ok s \<longleftrightarrow> (case transactionArray s of None \<Rightarrow> True
     | Some ta \<Rightarrow> distinct (map fst ta) \<and> (\<forall>(mk, it) \<in> set ta. mk = toMapKey (item_key it)))"

text \<open>What \<open>addTransaction\<close> does inside a batch.\<close>

definition stage :: "item \<Rightarrow> 'd store \<Rightarrow> 'd store" where
  "stage it s = s\<lparr>transactionArray :=
     map_option (AList.update (toMapKey (item_key it)) it) (transactionArray s)\<rparr>"

lemma open_stage [simp]: "open_batch (stage it s) = open_batch s"
  by (simp add: open_batch_def stage_def)

lemma stage_fields [simp]:
  "db (stage it s) = db s" "stat (stage it s) = stat s"
  "deletedTransactionArray (stage it s) = deletedTransactionArray s"
  by (simp_all add: stage_def)

lemma addTransaction_open [simp]: "open_batch s \<Longrightarrow> addTransaction K it s = (Inr True, stage it s)"
  by (auto simp: open_batch_def addTransaction_def stage_def)

lemma staged_stage: "open_batch s \<Longrightarrow> staged (stage it s) = (staged s)(item_key it \<mapsto> it)"
  by (auto simp: open_batch_def staged_def stage_def fun_eq_iff)

lemma view_stage [view_simps]: "open_batch s \<Longrightarrow> view K (stage it s) = apply_item it (view K s)"
  by (auto simp: view_def staged_stage apply_item_def fun_eq_iff split: option.split)

lemma staged_ok_stage [simp]: "staged_ok s \<Longrightarrow> staged_ok (stage it s)"
proof -
  assume s: "staged_ok s"
  show ?thesis
  proof (cases "transactionArray s")
    case None
    then show ?thesis by (simp add: staged_ok_def stage_def)
  next
    case (Some ta)
    have "set (AList.update mk it' ta) \<subseteq> insert (mk, it') (set ta)" for mk and it' :: item
      by (induction ta) auto
    with s Some show ?thesis
      by (fastforce simp: staged_ok_def stage_def)
  qed
qed

lemma view_closed [simp]: "transactionArray s = None \<Longrightarrow> view K s = kv_get K (db s)"
  by (simp add: view_def staged_def fun_eq_iff)

lemma view_fresh [simp]: "transactionArray s = Some [] \<Longrightarrow> view K s = kv_get K (db s)"
  by (simp add: view_def staged_def fun_eq_iff)

lemma view_stat [simp]: "view K (s\<lparr>stat := st\<rparr>) = view K s"
  by (simp add: view_def staged_def fun_eq_iff split: option.split)

lemma view_deleted [simp]: "view K (s\<lparr>deletedTransactionArray := da\<rparr>) = view K s"
  by (simp add: view_def staged_def fun_eq_iff split: option.split)

lemma open_stat [simp]:
  "open_batch (s\<lparr>stat := st\<rparr>) = open_batch s"
  "open_batch (s\<lparr>deletedTransactionArray := da\<rparr>) = open_batch s"
  "staged_ok (s\<lparr>stat := st\<rparr>) = staged_ok s"
  "staged_ok (s\<lparr>deletedTransactionArray := da\<rparr>) = staged_ok s"
  by (simp_all add: open_batch_def staged_ok_def)

lemma view_cong:
  "transactionArray s = transactionArray s' \<Longrightarrow> kv_get K (db s) = kv_get K (db s') \<Longrightarrow> view K s = view K s'"
  by (simp add: view_def staged_def fun_eq_iff split: option.split)

lemma stage_stat [simp]: "stage it (s\<lparr>stat := st\<rparr>) = (stage it s)\<lparr>stat := st\<rparr>"
  by (simp add: stage_def)

lemma fold_stage_stat [simp]: "fold stage its (s\<lparr>stat := st\<rparr>) = (fold stage its s)\<lparr>stat := st\<rparr>"
  by (induction its arbitrary: s) simp_all

lemma view_same: "staged s' k = staged s k \<Longrightarrow> db s' = db s \<Longrightarrow> view K s' k = view K s k"
  by (cases "staged s k") (simp_all add: view_def)

text \<open>Staging a list of items: the effect on the view is that of applying them in order.\<close>

lemma fold_stage [simp]:
  "open_batch (fold stage its s) = open_batch s"
  "db (fold stage its s) = db s" "stat (fold stage its s) = stat s"
  "deletedTransactionArray (fold stage its s) = deletedTransactionArray s"
  "staged_ok s \<Longrightarrow> staged_ok (fold stage its s)"
  by (induction its arbitrary: s) simp_all

lemma view_fold_stage [view_simps]:
  "open_batch s \<Longrightarrow> view K (fold stage its s) = fold apply_item its (view K s)"
  by (induction its arbitrary: s) (simp_all add: view_stage)

lemma apply_items_other: "\<forall>it \<in> set its. item_key it \<noteq> k \<Longrightarrow> fold apply_item its m k = m k"
  by (induction its arbitrary: m) (auto simp: apply_item_def)

lemma apply_items_same:
  "\<forall>it \<in> set its. item_key it = k \<longrightarrow> item_effect it = e \<Longrightarrow> m k = e \<or> (\<exists>it \<in> set its. item_key it = k)
   \<Longrightarrow> fold apply_item its m k = e"
proof (induction its arbitrary: m)
  case (Cons it its)
  then show ?case by (cases "item_key it = k") (auto simp: apply_item_def)
qed simp

text \<open>A loop that stages the items of each element.\<close>

lemma mfor_stage:
  assumes "open_batch s"
    and "\<And>x s. x \<in> set xs \<Longrightarrow> open_batch s \<Longrightarrow> f x s = (Inr (), fold stage (g x) s)"
  shows "mfor xs f s = (Inr (), fold stage (concat (map g xs)) s)"
  using assms
proof (induction xs arbitrary: s)
  case (Cons x xs)
  then show ?case by (simp add: mseq_run)
qed simp

lemma staged_map_of: "staged_ok s \<Longrightarrow> transactionArray s = Some ta \<Longrightarrow>
    fold apply_item (map snd ta) m k = (case map_of ta (toMapKey k) of None \<Rightarrow> m k | Some it \<Rightarrow> item_effect it)"
proof -
  assume a: "staged_ok s" "transactionArray s = Some ta"
  then have d: "distinct (map fst ta)" and k: "\<forall>(mk, it) \<in> set ta. mk = toMapKey (item_key it)"
    by (auto simp: staged_ok_def)
  show ?thesis
  proof (cases "map_of ta (toMapKey k)")
    case None
    then have "\<forall>it \<in> set (map snd ta). item_key it \<noteq> k"
      using k by (auto simp: map_of_eq_None_iff image_iff split: prod.splits)
    with None show ?thesis by (simp add: apply_items_other)
  next
    case (Some it)
    then have i: "(toMapKey k, it) \<in> set ta" by (rule map_of_SomeD)
    have "\<forall>it' \<in> set (map snd ta). item_key it' = k \<longrightarrow> item_effect it' = item_effect it"
      using k d i by (auto dest: eq_key_imp_eq_value)
    moreover have "\<exists>it' \<in> set (map snd ta). item_key it' = k"
      using i k by (force simp: image_iff)
    ultimately show ?thesis using Some by (simp add: apply_items_same)
  qed
qed

lemma staged_ok_commit:
  "staged_ok s \<Longrightarrow> transactionArray s = Some ta \<Longrightarrow>
   fold apply_item (map snd ta) (kv_get K (db s)) = view K s"
  by (auto simp: fun_eq_iff staged_map_of view_def staged_def)

context leveldb
begin

lemma commit_view:
  assumes "staged_ok s" and "endTransaction K True s = (Inr (), s')"
  shows "kv_get K (db s') = view K s" and "transactionArray s' = None"
    and "deletedTransactionArray s' = None" and "stat s' = stat s"
proof -
  obtain ta where ta: "transactionArray s = Some ta"
    using assms(2) by (cases "transactionArray s") (auto simp: endTransaction_def)
  obtain d where b: "kv_batch K (db s) (map snd ta) = (True, d)"
    and s': "s' = s\<lparr>db := d, transactionArray := None, deletedTransactionArray := None\<rparr>"
    using assms(2) ta by (auto simp: endTransaction_def split: prod.splits bool.splits)
  show "kv_get K (db s') = view K s"
    using batch_ok [OF b] staged_ok_commit [OF assms(1) ta, of K] by (simp add: s')
  show "transactionArray s' = None" "deletedTransactionArray s' = None" "stat s' = stat s"
    by (simp_all add: s')
qed

lemma commit_fails:
  assumes "endTransaction K True s = (Inl e, s')"
  shows "e = BatchInsertFailed" and "kv_get K (db s') = kv_get K (db s)"
    and "transactionArray s' = transactionArray s" and "view K s' = view K s"
proof -
  have "e = BatchInsertFailed \<and> kv_get K (db s') = kv_get K (db s)
        \<and> transactionArray s' = transactionArray s"
  proof (cases "transactionArray s")
    case None
    then show ?thesis using assms by (auto simp: endTransaction_def)
  next
    case (Some ta)
    then show ?thesis using assms batch_fail
      by (auto simp: endTransaction_def split: prod.splits bool.splits)
  qed
  then show "e = BatchInsertFailed" "kv_get K (db s') = kv_get K (db s)"
    "transactionArray s' = transactionArray s" "view K s' = view K s"
    by (auto intro: view_cong)
qed

lemma dbWrite_run:
  "dbWrite K it s = (Inr (), s') \<Longrightarrow> kv_get K (db s') = apply_item it (kv_get K (db s))"
  using batch_ok [of "db s" "[it]"]
  by (auto simp: dbWrite_def split: prod.splits if_splits)

end

lemma discard_run: "endTransaction K False s =
    (Inr (), s\<lparr>stat := (stat s)\<lparr>knownScripts := {}\<rparr>, transactionArray := None, deletedTransactionArray := None\<rparr>)"
  by (simp add: endTransaction_def)

lemma begin_run [simp]:
  "beginTransaction s = (Inr (), s\<lparr>transactionArray := Some [], deletedTransactionArray := Some []\<rparr>)"
  by (simp add: beginTransaction_def)

lemma begin_open [simp]:
  "open_batch (s\<lparr>transactionArray := Some ta, deletedTransactionArray := da\<rparr>)"
  "staged_ok (s\<lparr>transactionArray := Some [], deletedTransactionArray := da\<rparr>)"
  "open_batch (s\<lparr>transactionArray := Some ta\<rparr>)"
  by (simp_all add: open_batch_def staged_ok_def)

end
