(* ===== verification/Records.thy ===== *)
theory Records
  imports Store
begin

text \<open>
  Block, transaction and input records: the rest of
  \<^verbatim>\<open>src/store/level_up_db/blocks_and_transactions.js\<close> and
  \<^verbatim>\<open>src/store/level_up_db/inputs.js\<close>. A transaction of a block is indexed three times: T (txid
  to block), X (the exact index read by \<open>getTxBlock\<close>) and Y (the recovery index of the block,
  by which a rollback takes back exactly what the block wrote). The lemmas give each scan-driven
  operation as a list of items staged in the open batch.
\<close>

subsection \<open>Blocks and transactions\<close>

record block_in =
  bi_hash :: bytes
  bi_height :: int
  bi_timestamp :: int
  bi_previousHash :: bytes

definition insertBlock :: "'d kv \<Rightarrow> block_in \<Rightarrow> ('d store, bool) m" where
  "insertBlock K block =
     mbind (mlift (kBlock (bi_hash block))) (\<lambda>key.
     mbind (mlift (encodeBlock (bi_height block) (bi_timestamp block) (bi_previousHash block))) (\<lambda>val.
     addTransaction K (Put key val)))"

definition getBlock :: "'d kv \<Rightarrow> bytes \<Rightarrow> ('d store, block_rec option) m" where
  "getBlock K blockHash =
     mbind (mlift (kBlock blockHash)) (\<lambda>key.
     mbind (dbGet K key) (\<lambda>buf. case buf of
       None \<Rightarrow> mret None
     | Some b \<Rightarrow> mbind (mlift (decodeBlock b)) (\<lambda>r. mret (Some r))))"

definition falsy :: "bytes option \<Rightarrow> bool" where
  "falsy h \<longleftrightarrow> (case h of None \<Rightarrow> True | Some b \<Rightarrow> b = [])"

definition insertTransaction :: "'d kv \<Rightarrow> bytes \<Rightarrow> bytes option \<Rightarrow> ('d store, bool) m" where
  "insertTransaction K hash blockHash =
     mbind (mlift (kTx hash)) (\<lambda>tkey.
     mbind (mlift (encodeTx blockHash)) (\<lambda>bh.
     mbind (addTransaction K (Put tkey (bh @ hash))) (\<lambda>tWrite.
     if falsy blockHash then mret tWrite
     else
       mbind (mlift (kTxExact hash)) (\<lambda>xkey.
       mbind (mlift (encodeTx blockHash)) (\<lambda>xval.
       mseq (addTransaction K (Put xkey xval))
       (mbind (mlift (kTxBlockRecovery (the blockHash) hash)) (\<lambda>ykey.
        addTransaction K (Put ykey hash))))))))"

definition deleteTransaction :: "'d kv \<Rightarrow> bytes \<Rightarrow> ('d store, bool) m" where
  "deleteTransaction K txid =
     mbind (mlift (kTxExact txid)) (\<lambda>xkey.
     mseq (addTransaction K (Del xkey None))
     (mbind (mlift (kTx txid)) (\<lambda>tkey. addTransaction K (Del tkey None))))"

definition deleteTxBlockRecord :: "'d kv \<Rightarrow> bytes \<Rightarrow> bytes \<Rightarrow> ('d store, bool) m" where
  "deleteTxBlockRecord K txid blockHash =
     mbind (mlift (kTxBlockRecovery blockHash txid)) (\<lambda>recoveryKey.
     mbind (dbGet K recoveryKey) (\<lambda>recoveredTxid.
     if recoveredTxid = None then deleteTransaction K txid
     else
       mbind (mlift (kTx txid)) (\<lambda>tkey.
       mbind (dbGet K tkey) (\<lambda>tValue.
       mseq (mwhen (map_option decodeTx tValue = Some blockHash)
              (mseq (addTransaction K (Del tkey None)) (mret ())))
       (mbind (mlift (kTxExact txid)) (\<lambda>xkey.
        mbind (dbGet K xkey) (\<lambda>xValue.
        mseq (mwhen (map_option decodeTx xValue = Some blockHash)
               (mseq (addTransaction K (Del xkey None)) (mret ())))
        (addTransaction K (Del recoveryKey None)))))))))"

text \<open>The W scan of a block: the txids of its outputs, each reversed once.\<close>

definition wTxid :: "bytes \<Rightarrow> bytes" where
  "wTxid key = slice 33 65 key"

fun deleteTxLoop :: "'d kv \<Rightarrow> bytes \<Rightarrow> (bytes \<times> bytes) list \<Rightarrow> bytes set \<Rightarrow> ('d store, nat) m" where
  "deleteTxLoop K blockHash [] seen = mret (card seen)"
| "deleteTxLoop K blockHash ((key, _) # es) seen =
     (let txid = wTxid key in
      if txid \<in> seen then deleteTxLoop K blockHash es seen
      else mseq (deleteTxBlockRecord K txid blockHash)
             (deleteTxLoop K blockHash es (insert txid seen)))"

definition deleteTransactionsInBlock :: "'d kv \<Rightarrow> bytes \<Rightarrow> ('d store, nat) m" where
  "deleteTransactionsInBlock K blockHash =
     mbind (dbIter K (range_of (P_OUT_BLK # blockHash))) (\<lambda>es. deleteTxLoop K blockHash es {})"

definition deleteBlock :: "'d kv \<Rightarrow> bytes \<Rightarrow> ('d store, bool) m" where
  "deleteBlock K blockHash =
     mseq (deleteTransactionsInBlock K blockHash)
     (mbind (mlift (kBlock blockHash)) (\<lambda>key. addTransaction K (Del key None)))"

definition removeTxBlockRecoveryIndexOnly :: "'d kv \<Rightarrow> bytes \<Rightarrow> ('d store, unit) m" where
  "removeTxBlockRecoveryIndexOnly K blockHash =
     mbind (dbIter K (range_of (P_TX_BLOCK_RECOVERY # blockHash))) (\<lambda>es.
     mfor es (\<lambda>(key, _). mseq (addTransaction K (Del key None)) (mret ())))"

record tx_block =
  tb_hash :: bytes
  tb_height :: int
  tb_committed_height :: "int option"
  tb_committed_hash :: "bytes option"

text \<open>A txid that is not 64 hex digits is not 32 bytes here.\<close>

definition getTxBlock :: "'d kv \<Rightarrow> bytes \<Rightarrow> ('d store, tx_block option) m" where
  "getTxBlock K txid =
     (if length txid \<noteq> 32 then mret None
      else mbind (mlift (kTxExact txid)) (\<lambda>xkey.
        mbind (dbGet K xkey) (\<lambda>buf. case buf of
          None \<Rightarrow> mret None
        | Some b \<Rightarrow>
            let blockHash = decodeTx b in
            mbind (getBlock K blockHash) (\<lambda>block. case block of
              None \<Rightarrow> mret None
            | Some r \<Rightarrow>
                mbind (getLastBlockHeight K) (\<lambda>h.
                mbind (getLastBlockHash K) (\<lambda>hh.
                mret (Some \<lparr>tb_hash = blockHash, tb_height = blk_h r,
                            tb_committed_height = h, tb_committed_hash = hh\<rparr>)))))))"

definition getTransactions :: "'d kv \<Rightarrow> bytes \<Rightarrow> ('d store, (bytes \<times> bytes) list) m" where
  "getTransactions K txHashPrefix =
     mbind (dbIter K (range_of (P_TX # txHashPrefix)))
       (\<lambda>es. mret (map (\<lambda>(key, value). (drop 1 key, decodeTx value)) es))"

definition getTransaction :: "'d kv \<Rightarrow> bytes \<Rightarrow> ('d store, bytes option) m" where
  "getTransaction K txHashWithPrefix = dbGet K txHashWithPrefix"

subsection \<open>Inputs\<close>

record input_in =
  in_txHash :: bytes
  in_prevTxHash :: bytes
  in_prevOutputIndex :: u32
  in_blockHash :: bytes

definition insertInput :: "'d kv \<Rightarrow> input_in \<Rightarrow> ('d store, bool) m" where
  "insertInput K input =
     mbind (mlift (kInput (in_prevTxHash input) (in_prevOutputIndex input))) (\<lambda>key.
     mbind (mlift (encodeInputVal (in_txHash input))) (\<lambda>val. addTransaction K (Put key val)))"

definition getInput :: "'d kv \<Rightarrow> bytes \<Rightarrow> u32 \<Rightarrow> ('d store, bytes option) m" where
  "getInput K txid outputIndex = mbind (mlift (kInput txid outputIndex)) (dbGet K)"

definition hasOutputForTx :: "'d kv \<Rightarrow> bytes \<Rightarrow> u32 \<Rightarrow> ('d store, bool) m" where
  "hasOutputForTx K txid outputIndex =
     mbind (mlift (kOutHint txid outputIndex)) (\<lambda>key. mbind (dbGet K key) (\<lambda>v. mret (v \<noteq> None)))"

definition insertInputHint :: "'d kv \<Rightarrow> input_in \<Rightarrow> ('d store, bool) m" where
  "insertInputHint K input =
     mbind (mlift (kInHint (in_txHash input) (in_prevTxHash input) (in_prevOutputIndex input)))
       (\<lambda>key. addTransaction K (Put key []))"

definition deleteInputsByHint :: "'d kv \<Rightarrow> bytes \<Rightarrow> ('d store, nat) m" where
  "deleteInputsByHint K txid =
     mbind (dbIter K (range_of (P_IN_HINT # txid))) (\<lambda>es.
     mseq (mfor es (\<lambda>(key, _).
         let prevTxidBuf = slice 33 65 key; idxBytes = slice 65 69 key in
         mseq (addTransaction K (Del (P_INPUT # prevTxidBuf @ idxBytes) None))
           (mseq (addTransaction K (Del key None)) (mret ()))))
     (mret (length es)))"

text \<open>
  The deletions of several txids run concurrently in the source; each reads only the database
  and stages deletions, so their order does not matter and they are run one after the other.
\<close>

fun msum :: "'x list \<Rightarrow> ('x \<Rightarrow> ('s, nat) m) \<Rightarrow> ('s, nat) m" where
  "msum [] f = mret 0"
| "msum (x # xs) f = mbind (f x) (\<lambda>n. mbind (msum xs f) (\<lambda>k. mret (n + k)))"

definition deleteInputsByHints :: "'d kv \<Rightarrow> bytes list \<Rightarrow> ('d store, nat) m" where
  "deleteInputsByHints K txids = msum txids (deleteInputsByHint K)"

subsection \<open>Staged items\<close>

definition deleteTx_items :: "bytes \<Rightarrow> item list" where
  "deleteTx_items t = [Del (xKey t) None, Del (tKey t) None]"

definition txBlockRecord_items :: "(bytes \<rightharpoonup> bytes) \<Rightarrow> bytes \<Rightarrow> bytes \<Rightarrow> item list" where
  "txBlockRecord_items D t h =
     (if D (yKey h t) = None then deleteTx_items t
      else (if map_option decodeTx (D (tKey t)) = Some h then [Del (tKey t) None] else [])
         @ (if map_option decodeTx (D (xKey t)) = Some h then [Del (xKey t) None] else [])
         @ [Del (yKey h t) None])"

definition inputHint_items :: "bytes \<Rightarrow> item list" where
  "inputHint_items key = [Del (P_INPUT # slice 33 65 key @ slice 65 69 key) None, Del key None]"

lemma dbGet_run [simp]: "dbGet K k s = (Inr (kv_get K (db s) k), s)"
  by (simp add: dbGet_def)

lemma dbIter_run [simp]: "dbIter K r s = (Inr (kv_iter K (db s) r), s)"
  by (simp add: dbIter_def)

lemma mbind_dbGet [simp]: "mbind (dbGet K k) f s = f (kv_get K (db s) k) s"
  by (simp add: mbind_run)

lemma mbind_dbIter [simp]: "mbind (dbIter K r) f s = f (kv_iter K (db s) r) s"
  by (simp add: mbind_run)

lemma mseq_addTransaction [simp]: "open_batch s \<Longrightarrow> mseq (addTransaction K it) f s = f (stage it s)"
  by (simp add: mseq_run)

lemma mbind_addTransaction [simp]: "open_batch s \<Longrightarrow> mbind (addTransaction K it) f s = f True (stage it s)"
  by (simp add: mbind_run)

lemma deleteTransaction_run:
  "length t = 32 \<Longrightarrow> open_batch s \<Longrightarrow>
   deleteTransaction K t s = (Inr True, fold stage (deleteTx_items t) s)"
  by (simp add: deleteTransaction_def deleteTx_items_def codec_simps)

lemma deleteTxBlockRecord_run:
  "length t = 32 \<Longrightarrow> length h = 32 \<Longrightarrow> open_batch s \<Longrightarrow>
   deleteTxBlockRecord K t h s = (Inr True, fold stage (txBlockRecord_items (kv_get K (db s)) t h) s)"
  by (simp add: deleteTxBlockRecord_def txBlockRecord_items_def codec_simps deleteTransaction_run
      m_if_run del: map_option_eq_Some not_None_eq)

fun deleteTxLoop_items :: "(bytes \<rightharpoonup> bytes) \<Rightarrow> bytes \<Rightarrow> (bytes \<times> bytes) list \<Rightarrow> bytes set \<Rightarrow> item list" where
  "deleteTxLoop_items D h [] seen = []"
| "deleteTxLoop_items D h ((key, v) # es) seen =
     (if wTxid key \<in> seen then deleteTxLoop_items D h es seen
      else txBlockRecord_items D (wTxid key) h @ deleteTxLoop_items D h es (insert (wTxid key) seen))"

lemma deleteTxLoop_run:
  assumes "\<forall>(k, v) \<in> set es. length (wTxid k) = 32" and "length h = 32" and "open_batch s"
  shows "deleteTxLoop K h es seen s
       = (Inr (card (seen \<union> (\<lambda>(k, v). wTxid k) ` set es)), fold stage (deleteTxLoop_items (kv_get K (db s)) h es seen) s)"
  using assms
proof (induction es arbitrary: seen s)
  case Nil
  then show ?case by simp
next
  case (Cons e es)
  obtain k v where e: "e = (k, v)" by (cases e)
  show ?case
  proof (cases "wTxid k \<in> seen")
    case True
    then have "seen \<union> (\<lambda>(k, v). wTxid k) ` set (e # es) = seen \<union> (\<lambda>(k, v). wTxid k) ` set es"
      by (auto simp: e)
    with True Cons show ?thesis by (simp add: e)
  next
    case False
    have "insert (wTxid k) seen \<union> (\<lambda>(k, v). wTxid k) ` set es = seen \<union> (\<lambda>(k, v). wTxid k) ` set (e # es)"
      by (auto simp: e)
    with False Cons show ?thesis by (simp add: e Let_def mseq_run deleteTxBlockRecord_run)
  qed
qed

lemma deleteInputsByHint_run:
  assumes "open_batch s"
  shows "deleteInputsByHint K t s =
     (Inr (length (kv_iter K (db s) (range_of (P_IN_HINT # t)))),
      fold stage (concat (map (\<lambda>(k, v). inputHint_items k) (kv_iter K (db s) (range_of (P_IN_HINT # t))))) s)"
proof -
  have "mfor (kv_iter K (db s) (range_of (P_IN_HINT # t))) (\<lambda>(key, _).
         let prevTxidBuf = slice 33 65 key; idxBytes = slice 65 69 key in
         mseq (addTransaction K (Del (P_INPUT # prevTxidBuf @ idxBytes) None))
           (mseq (addTransaction K (Del key None)) (mret ()))) s
     = (Inr (), fold stage (concat (map (\<lambda>(k, v). inputHint_items k)
          (kv_iter K (db s) (range_of (P_IN_HINT # t))))) s)"
    using assms by (intro mfor_stage) (auto simp: inputHint_items_def Let_def)
  then show ?thesis by (simp add: deleteInputsByHint_def mseq_run)
qed

lemma removeTxBlockRecoveryIndexOnly_run:
  assumes "open_batch s"
  shows "removeTxBlockRecoveryIndexOnly K h s =
     (Inr (), fold stage (concat (map (\<lambda>(k, v). [Del k None])
        (kv_iter K (db s) (range_of (P_TX_BLOCK_RECOVERY # h))))) s)"
  unfolding removeTxBlockRecoveryIndexOnly_def mbind_dbIter
  using assms by (intro mfor_stage) auto

end
