(* ===== verification/Outputs.thy ===== *)
theory Outputs
  imports Records
begin

text \<open>
  Outputs and their spends: \<^verbatim>\<open>src/store/level_up_db/outputs.js\<close> and the first-seen index of
  \<^verbatim>\<open>src/store/level_up_db/output_scripts.js\<close>. An output is three records, O (the value, by
  script), H (the script, by outpoint) and W (by creation block). Spending it drops O and H and,
  unless it was created in the same block, writes the undo records K and M under the spending
  block. \<open>removeOutputsWithInputsBatch\<close> does so for all inputs of a block with two bulk reads
  and a cache of recent outputs; \<open>removeOutputWithInput\<close> does it for one input.
\<close>

subsection \<open>Inserting outputs\<close>

text \<open>A script hash is handed over as a Buffer or as hex text.\<close>

datatype script = Buf bytes | Hex bytes

fun script_bytes :: "script \<Rightarrow> bytes" where
  "script_bytes (Buf b) = b"
| "script_bytes (Hex b) = b"

record output_in =
  oi_scriptPubKey :: script
  oi_txHash :: bytes
  oi_outputIndex :: u32
  oi_value :: int
  oi_height :: "int option"
  oi_fullTxHash :: "bytes option"
  oi_coinbase :: bool

text \<open>\<open>txHash + String.fromCharCode((i >>> 16) & 0xFFFF, i & 0xFFFF)\<close>: UTF-16 code units.\<close>

definition cacheKey :: "bytes \<Rightarrow> u32 \<Rightarrow> u16 list" where
  "cacheKey txHash i = map (\<lambda>c. of_nat (of_char c)) (b2h txHash) @ [ucast (drop_bit 16 i), ucast i]"

definition OUTPUT_CACHE_MAX :: nat where "OUTPUT_CACHE_MAX = 2000000"
definition KNOWN_SCRIPTS_MAX :: nat where "KNOWN_SCRIPTS_MAX = 2000000"

definition cacheOutput :: "bytes \<Rightarrow> u32 \<Rightarrow> bytes \<Rightarrow> statics \<Rightarrow> statics" where
  "cacheOutput txHash i oVal st =
     (let c = AList.update (cacheKey txHash i) oVal (outputCache st) in
      st\<lparr>outputCache := (if length c > OUTPUT_CACHE_MAX then [] else c)\<rparr>)"

definition insertOutput :: "'d kv \<Rightarrow> output_in \<Rightarrow> ('d store, bool) m" where
  "insertOutput K output =
     mbind (mlift (encodeOutput (oi_value output) (oi_height output) (oi_fullTxHash output) (oi_coinbase output))) (\<lambda>oVal.
     mseq (mwhen (case oi_height output of None \<Rightarrow> False | Some h \<Rightarrow> h \<ge> 0)
        (mmod (\<lambda>s. s\<lparr>stat := cacheOutput (oi_txHash output) (oi_outputIndex output) oVal (stat s)\<rparr>)))
     (mbind (mlift (case oi_scriptPubKey output of
          Buf b \<Rightarrow> kOutputFromBuf b (oi_txHash output) (oi_outputIndex output)
        | Hex b \<Rightarrow> kOutput b (oi_txHash output) (oi_outputIndex output))) (\<lambda>ok.
      addTransaction K (Put ok oVal))))"

definition hintValue :: "script \<Rightarrow> error + bytes" where
  "hintValue script = (case script of Buf b \<Rightarrow> Inr b | Hex b \<Rightarrow> encodeOutHint b)"

definition insertOutputHint :: "'d kv \<Rightarrow> script \<Rightarrow> bytes \<Rightarrow> u32 \<Rightarrow> ('d store, bool) m" where
  "insertOutputHint K scriptPubKey txHash outputIndex =
     mbind (mlift (hintValue scriptPubKey)) (\<lambda>hintVal.
     mbind (mlift (kOutHint txHash outputIndex)) (\<lambda>key.
     addTransaction K (Put key hintVal)))"

definition insertOutputBlock ::
  "'d kv \<Rightarrow> script \<Rightarrow> bytes \<Rightarrow> u32 \<Rightarrow> bytes option \<Rightarrow> ('d store, bool) m" where
  "insertOutputBlock K scriptPubKey txHash outputIndex blockHash =
     (if falsy blockHash then mret True
      else mbind (mlift (hintValue scriptPubKey)) (\<lambda>wVal.
        mbind (mlift (kOutBlk (the blockHash) txHash outputIndex)) (\<lambda>key.
        addTransaction K (Put key wVal))))"

definition scriptKeyText :: "script \<Rightarrow> string" where
  "scriptKeyText script = (case script of Buf b \<Rightarrow> toMapKey b | Hex b \<Rightarrow> b2h b)"

definition rememberScript :: "string \<Rightarrow> ('d store, unit) m" where
  "rememberScript k = mmod (\<lambda>s. s\<lparr>stat := (stat s)\<lparr>knownScripts := insert k (knownScripts (stat s))\<rparr>\<rparr>)"

definition insertOutputScriptBlock :: "'d kv \<Rightarrow> script \<Rightarrow> bytes option \<Rightarrow> int \<Rightarrow> ('d store, bool) m" where
  "insertOutputScriptBlock K outputScript blockHash blockHeight =
     (if falsy blockHash then mret True
      else
        mseq (mmod (\<lambda>s. if card (knownScripts (stat s)) > KNOWN_SCRIPTS_MAX
                         then s\<lparr>stat := (stat s)\<lparr>knownScripts := {}\<rparr>\<rparr> else s))
        (mbind (mget (\<lambda>s. scriptKeyText outputScript \<in> knownScripts (stat s))) (\<lambda>known.
         if known then
           mseq (mmod (\<lambda>s. s\<lparr>stat := (stat s)\<lparr>knownScriptsHits := Suc (knownScriptsHits (stat s))\<rparr>\<rparr>)) (mret True)
         else
           mseq (mmod (\<lambda>s. s\<lparr>stat := (stat s)\<lparr>knownScriptsMisses := Suc (knownScriptsMisses (stat s))\<rparr>\<rparr>))
           (mbind (mlift (case outputScript of Buf b \<Rightarrow> kScriptBlkFromBuf b | Hex b \<Rightarrow> kScriptBlk b)) (\<lambda>sk.
            mbind (mget (\<lambda>s. getTransactionValue s sk)) (\<lambda>inBatch.
            if inBatch \<noteq> None then mseq (rememberScript (scriptKeyText outputScript)) (mret True)
            else mbind (dbGet K sk) (\<lambda>stored.
              if stored \<noteq> None then mseq (rememberScript (scriptKeyText outputScript)) (mret True)
              else
                mbind (mlift (encodeScriptBlk blockHeight)) (\<lambda>sVal.
                mseq (addTransaction K (Put sk sVal))
                (mbind (mlift (case outputScript of
                     Buf b \<Rightarrow> kBlkScriptFromBuf (the blockHash) b
                   | Hex b \<Rightarrow> kBlkScript (the blockHash) b)) (\<lambda>zk.
                 mseq (addTransaction K (Put zk []))
                 (mseq (rememberScript (scriptKeyText outputScript)) (mret True))))))))))))"

definition getOutputScriptBlock :: "'d kv \<Rightarrow> bytes \<Rightarrow> ('d store, int option) m" where
  "getOutputScriptBlock K outputScript =
     mbind (mlift (kScriptBlk outputScript)) (\<lambda>key.
     mbind (dbGet K key) (\<lambda>buf. case buf of
       None \<Rightarrow> mret None
     | Some b \<Rightarrow> mbind (mlift (decodeScriptBlk b)) (\<lambda>h. mret (Some h))))"

subsection \<open>Spending one output\<close>

definition spendBlockHeightInBatch :: "bytes \<Rightarrow> ('d store, int option) m" where
  "spendBlockHeightInBatch blockHash =
     mbind (mlift (kBlock blockHash)) (\<lambda>key.
     mbind (mget (\<lambda>s. getTransactionValue s key)) (\<lambda>blkVal. case blkVal of
       None \<Rightarrow> mret None
     | Some b \<Rightarrow> mbind (mlift (decodeBlock b)) (\<lambda>r. mret (Some (blk_h r)))))"

definition writeCrossBlockSpendRecovery :: "'d kv \<Rightarrow> input_in \<Rightarrow> bytes \<Rightarrow> bytes option \<Rightarrow> ('d store, bool) m" where
  "writeCrossBlockSpendRecovery K input scriptPubKeyBuf oVal = (case oVal of
     None \<Rightarrow> mret False
   | Some v \<Rightarrow>
       mbind (mlift (decodeOutput v)) (\<lambda>d.
       mbind (spendBlockHeightInBatch (in_blockHash input)) (\<lambda>spendHeight.
       if out_h d < 0 then mret False
       else (case spendHeight of
         None \<Rightarrow> mret False
       | Some n \<Rightarrow>
           if out_h d \<ge> n then mret False
           else
             mbind (mlift (kHintDel (in_blockHash input) (in_prevTxHash input) (in_prevOutputIndex input))) (\<lambda>mk.
             mbind (mlift (kOutDelFromBuf (in_blockHash input) scriptPubKeyBuf (in_prevTxHash input) (in_prevOutputIndex input))) (\<lambda>kk.
             mseq (addTransaction K (Put mk scriptPubKeyBuf))
             (mseq (addTransaction K (Put kk v)) (mret True))))))))"

text \<open>Drops the staged O and H of an output created in this batch; \<open>delMapKey\<close> is the block hash text.\<close>

definition unstageInMemorySpend :: "input_in \<Rightarrow> bytes \<Rightarrow> bytes \<Rightarrow> ('d store, bytes option) m" where
  "unstageInMemorySpend inp hk scriptPubKeyBuf =
     mbind (mlift (kOutputFromBuf scriptPubKeyBuf (in_prevTxHash inp) (in_prevOutputIndex inp))) (\<lambda>inMemOKey.
     mbind (mget (\<lambda>s. getTransactionValue s inMemOKey)) (\<lambda>inMemOVal.
     mbind (removeTransaction inMemOKey (b2h (in_blockHash inp))) (\<lambda>removedO.
     if \<not> removedO then mthrow MissingOutputMatch
     else mbind (removeTransaction hk (b2h (in_blockHash inp))) (\<lambda>removedH.
       if \<not> removedH then mthrow MissingOutputHintMatch else mret inMemOVal))))"

definition removeOutputWithInput :: "'d kv \<Rightarrow> input_in \<Rightarrow> ('d store, bool) m" where
  "removeOutputWithInput K input =
     mbind (mlift (kOutHint (in_prevTxHash input) (in_prevOutputIndex input))) (\<lambda>hk.
     mbind (mlift (kHintDel (in_blockHash input) (in_prevTxHash input) (in_prevOutputIndex input))) (\<lambda>mk.
     mbind (dbGet K hk) (\<lambda>scriptOpt.
     mbind (case scriptOpt of
         None \<Rightarrow> mret None
       | Some scr \<Rightarrow>
           mbind (mlift (kOutputFromBuf scr (in_prevTxHash input) (in_prevOutputIndex input))) (\<lambda>ok.
           mbind (dbGet K ok) (\<lambda>oVal. mret (map_option (\<lambda>v. (scr, ok, v)) oVal)))) (\<lambda>found.
     case found of
       None \<Rightarrow>
         mbind (mget (\<lambda>s. getTransactionValue s hk)) (\<lambda>inMemScript. case inMemScript of
           None \<Rightarrow> mret True
         | Some scr \<Rightarrow>
             mbind (unstageInMemorySpend input hk scr) (\<lambda>inMemOVal.
             mseq (writeCrossBlockSpendRecovery K input scr inMemOVal) (mret True)))
     | Some (scr, ok, v) \<Rightarrow>
         mbind (mlift (kOutDelFromBuf (in_blockHash input) scr (in_prevTxHash input) (in_prevOutputIndex input))) (\<lambda>kk.
         mseq (addTransaction K (Put mk scr))
         (mseq (addTransaction K (Put kk v))
         (mseq (addTransaction K (Del ok None))
         (mseq (addTransaction K (Del hk None)) (mret True)))))))))"

subsection \<open>Spending a block's inputs\<close>

record slot =
  sl_hKey :: bytes
  sl_script :: "bytes option"
  sl_inMem :: bool
  sl_oKey :: "bytes option"
  sl_oVal :: "bytes option"

definition new_slot :: "bytes \<Rightarrow> slot" where
  "new_slot hk = \<lparr>sl_hKey = hk, sl_script = None, sl_inMem = False, sl_oKey = None, sl_oVal = None\<rparr>"

text \<open>
  \<open>queueHintLookups\<close>: one slot per input from index \<open>i\<close> on, filled from the open batch or
  queued, as a key and its index, for one bulk read.
\<close>

fun queueHintLookups ::
  "'d store \<Rightarrow> input_in list \<Rightarrow> nat \<Rightarrow> error + slot option list \<times> bytes list \<times> nat list" where
  "queueHintLookups s [] i = Inr ([], [], [])"
| "queueHintLookups s (inp # inps) i =
     rbind (kOutHint (in_prevTxHash inp) (in_prevOutputIndex inp)) (\<lambda>hk.
     case getTransactionValue s hk of
       Some inMem \<Rightarrow>
         rbind (queueHintLookups s inps (Suc i)) (\<lambda>(resolved, ks, is).
           Inr (Some ((new_slot hk)\<lparr>sl_script := Some inMem, sl_inMem := True\<rparr>) # resolved, ks, is))
     | None \<Rightarrow>
         rbind (queueHintLookups s inps (Suc i)) (\<lambda>(resolved, ks, is).
           Inr (Some (new_slot hk) # resolved, hk # ks, i # is)))"

fun applyHintValues :: "nat list \<Rightarrow> bytes option list \<Rightarrow> slot option list \<Rightarrow> slot option list" where
  "applyHintValues (i # is) (v # vs) resolved =
     applyHintValues is vs (case v of
       None \<Rightarrow> resolved[i := None]
     | Some scr \<Rightarrow> resolved[i := map_option (\<lambda>r. r\<lparr>sl_script := Some scr\<rparr>) (resolved ! i)])"
| "applyHintValues _ _ resolved = resolved"

text \<open>
  \<open>queueOutputLookups\<close>: the O key of every slot resolved from the database, then its value from
  the cache, dropping the spent entry, or a queued read.
\<close>

fun queueOutputLookups ::
  "statics \<Rightarrow> input_in list \<Rightarrow> slot option list \<Rightarrow> nat
   \<Rightarrow> (error + slot option list \<times> bytes list \<times> nat list) \<times> statics" where
  "queueOutputLookups st (inp # inps) (r # rs) i = (case r of
     None \<Rightarrow> (case queueOutputLookups st inps rs (Suc i) of
         (q, st') \<Rightarrow> (rbind q (\<lambda>(rs', ks, is). Inr (None # rs', ks, is)), st'))
   | Some slot \<Rightarrow> (case sl_script slot of
       None \<Rightarrow> (case queueOutputLookups st inps rs (Suc i) of
           (q, st') \<Rightarrow> (rbind q (\<lambda>(rs', ks, is). Inr (Some slot # rs', ks, is)), st'))
     | Some scr \<Rightarrow>
         if sl_inMem slot then (case queueOutputLookups st inps rs (Suc i) of
           (q, st') \<Rightarrow> (rbind q (\<lambda>(rs', ks, is). Inr (Some slot # rs', ks, is)), st'))
         else (case kOutputFromBuf scr (in_prevTxHash inp) (in_prevOutputIndex inp) of
           Inl e \<Rightarrow> (Inl e, st)
         | Inr ok \<Rightarrow>
             let ck = cacheKey (in_prevTxHash inp) (in_prevOutputIndex inp) in
             (case map_of (outputCache st) ck of
               Some cached \<Rightarrow>
                 (case queueOutputLookups (st\<lparr>outputCache := AList.delete ck (outputCache st),
                                            outputCacheHits := Suc (outputCacheHits st)\<rparr>) inps rs (Suc i) of
                   (q, st') \<Rightarrow> (rbind q (\<lambda>(rs', ks, is).
                      Inr (Some (slot\<lparr>sl_oKey := Some ok, sl_oVal := Some cached\<rparr>) # rs', ks, is)), st'))
             | None \<Rightarrow>
                 (case queueOutputLookups (st\<lparr>outputCacheMisses := Suc (outputCacheMisses st)\<rparr>) inps rs (Suc i) of
                   (q, st') \<Rightarrow> (rbind q (\<lambda>(rs', ks, is).
                      Inr (Some (slot\<lparr>sl_oKey := Some ok\<rparr>) # rs', ok # ks, i # is)), st'))))))"
| "queueOutputLookups st _ rs i = (Inr (rs, [], []), st)"

fun applyOutputValues :: "nat list \<Rightarrow> bytes option list \<Rightarrow> slot option list \<Rightarrow> slot option list" where
  "applyOutputValues (i # is) (v # vs) resolved =
     applyOutputValues is vs (resolved[i := map_option (\<lambda>r. r\<lparr>sl_oVal := v\<rparr>) (resolved ! i)])"
| "applyOutputValues _ _ resolved = resolved"

text \<open>Phase 3 for one input: unstage, or archive under the spending block and delete.\<close>

definition stageSpend :: "'d kv \<Rightarrow> input_in \<times> slot option \<Rightarrow> ('d store, unit) m" where
  "stageSpend K p = (case p of (inp, res) \<Rightarrow> (case res of
     None \<Rightarrow> mret ()
   | Some r \<Rightarrow>
       if sl_inMem r then
         mbind (unstageInMemorySpend inp (sl_hKey r) (the (sl_script r))) (\<lambda>inMemOVal.
         mseq (writeCrossBlockSpendRecovery K inp (the (sl_script r)) inMemOVal) (mret ()))
       else (case sl_oVal r of
         None \<Rightarrow> mret ()
       | Some oVal \<Rightarrow>
           mbind (mlift (kHintDel (in_blockHash inp) (in_prevTxHash inp) (in_prevOutputIndex inp))) (\<lambda>mk.
           mbind (mlift (kOutDelFromBuf (in_blockHash inp) (the (sl_script r)) (in_prevTxHash inp) (in_prevOutputIndex inp))) (\<lambda>kk.
           mseq (addTransaction K (Put mk (the (sl_script r))))
           (mseq (addTransaction K (Put kk oVal))
           (mseq (addTransaction K (Del (the (sl_oKey r)) None))
           (mseq (addTransaction K (Del (sl_hKey r) None)) (mret ())))))))))"

definition removeOutputsWithInputsBatch :: "'d kv \<Rightarrow> input_in list \<Rightarrow> ('d store, nat) m" where
  "removeOutputsWithInputsBatch K inputs =
     (if inputs = [] then mret 0
      else
        mbind (\<lambda>s. (queueHintLookups s inputs 0, s)) (\<lambda>(resolved, hintDbKeys, hintDbIndices).
        mbind (mget (\<lambda>s. map (kv_get K (db s)) hintDbKeys)) (\<lambda>hintValues.
        mbind (\<lambda>s. (case queueOutputLookups (stat s) inputs
                       (applyHintValues hintDbIndices hintValues resolved) 0 of
                     (q, st) \<Rightarrow> (q, s\<lparr>stat := st\<rparr>))) (\<lambda>(resolved', outputDbKeys, outputDbIndices).
        mbind (mget (\<lambda>s. map (kv_get K (db s)) outputDbKeys)) (\<lambda>outputValues.
        mseq (mfor (zip inputs (applyOutputValues outputDbIndices outputValues resolved')) (stageSpend K))
        (mret (length inputs)))))))"

subsection \<open>Unstaging\<close>

lemma getTransactionValue_staged:
  "getTransactionValue s k = (case staged s k of None \<Rightarrow> None | Some it \<Rightarrow> item_value it)"
  by (simp add: getTransactionValue_def staged_def split: option.split)

text \<open>What a spend of a staged output leaves untouched.\<close>

definition same_store :: "'d store \<Rightarrow> 'd store \<Rightarrow> bool" where
  "same_store s s' \<longleftrightarrow> db s' = db s \<and> stat s' = stat s \<and> open_batch s' = open_batch s
     \<and> (deletedTransactionArray s \<noteq> None \<longrightarrow> deletedTransactionArray s' \<noteq> None)
     \<and> (staged_ok s \<longrightarrow> staged_ok s')"

lemma same_store_refl [simp]: "same_store s s"
  by (simp add: same_store_def)

lemma same_store_trans [trans]: "same_store s s' \<Longrightarrow> same_store s' s'' \<Longrightarrow> same_store s s''"
  by (auto simp: same_store_def)

lemma same_store_stage [simp]: "same_store s s' \<Longrightarrow> same_store s (stage it s')"
  by (auto simp: same_store_def)

lemma removeTransaction_run:
  assumes "open_batch s" and "deletedTransactionArray s \<noteq> None" and "staged s k = Some it"
  obtains s' where "removeTransaction k d s = (Inr True, s')"
    and "staged s' = (staged s)(k := None)" and "same_store s s'"
proof -
  obtain ta da where ta: "transactionArray s = Some ta" and da: "deletedTransactionArray s = Some da"
    using assms by (auto simp: open_batch_def)
  have m: "map_of ta (toMapKey k) = Some it" using assms(3) ta by (simp add: staged_def)
  let ?da = "AList.update d (AList.update (toMapKey k) (item_value it)
      (case map_of da d of None \<Rightarrow> [] | Some m \<Rightarrow> m)) da"
  let ?s = "s\<lparr>deletedTransactionArray := Some ?da, transactionArray := Some (AList.delete (toMapKey k) ta)\<rparr>"
  have r: "removeTransaction k d s = (Inr True, ?s)"
    by (simp add: removeTransaction_def ta da m Let_def)
  have st: "staged ?s = (staged s)(k := None)"
    by (auto simp: staged_def ta fun_eq_iff)
  have "set (AList.delete (toMapKey k) ta) \<subseteq> set ta" by (induction ta) auto
  then have "staged_ok s \<longrightarrow> staged_ok ?s" by (auto simp: staged_ok_def ta)
  then have "same_store s ?s" by (simp add: same_store_def open_batch_def ta da)
  with r st show ?thesis by (rule that)
qed

subsection \<open>The effect of a spend on the view\<close>

definition created_before :: "bytes \<Rightarrow> int \<Rightarrow> bool" where
  "created_before v n \<longleftrightarrow> (case decodeOutput v of Inl _ \<Rightarrow> True | Inr o1 \<Rightarrow> out_h o1 < n)"

definition spend_items :: "bytes \<Rightarrow> int \<Rightarrow> (bytes \<rightharpoonup> bytes) \<Rightarrow> bytes \<times> u32 \<Rightarrow> item list" where
  "spend_items h n m op = (case op of (t, i) \<Rightarrow> (case m (hKey t i) of
     None \<Rightarrow> []
   | Some scr \<Rightarrow> (case m (oKey scr t i) of
       None \<Rightarrow> []
     | Some v \<Rightarrow>
         (if created_before v n then [Put (mKey h t i) scr, Put (kKey h scr t i) v] else [])
         @ [Del (oKey scr t i) None, Del (hKey t i) None])))"

text \<open>
  The state a spend of \<open>(t, i)\<close> by block \<open>h\<close> at height \<open>n\<close> is made in: an output staged in this
  batch is new to the database, an output of the database is not staged, and no output is
  spent twice in the batch.
\<close>

definition spendable :: "'d kv \<Rightarrow> int \<Rightarrow> 'd store \<Rightarrow> bytes \<times> u32 \<Rightarrow> bool" where
  "spendable K n s op \<longleftrightarrow> (case op of (t, i) \<Rightarrow> length t = 32 \<and>
     (case staged s (hKey t i) of
        Some (Put k scr) \<Rightarrow> length scr = 32 \<and> kv_get K (db s) (hKey t i) = None
          \<and> kv_get K (db s) (oKey scr t i) = None
          \<and> (\<exists>k' v o1. staged s (oKey scr t i) = Some (Put k' v) \<and> decodeOutput v = Inr o1 \<and> 0 \<le> out_h o1)
      | Some (Del k v) \<Rightarrow> False
      | None \<Rightarrow> (case kv_get K (db s) (hKey t i) of
          None \<Rightarrow> True
        | Some scr \<Rightarrow> length scr = 32 \<and> staged s (oKey scr t i) = None
            \<and> (case kv_get K (db s) (oKey scr t i) of None \<Rightarrow> True | Some v \<Rightarrow> created_before v n))))"

definition block_staged :: "bytes \<Rightarrow> int \<Rightarrow> 'd store \<Rightarrow> bool" where
  "block_staged h n s \<longleftrightarrow> length h = 32 \<and>
     (\<exists>b r. getTransactionValue s (bKey h) = Some b \<and> decodeBlock b = Inr r \<and> blk_h r = n)"

definition resolve :: "'d kv \<Rightarrow> 'd store \<Rightarrow> input_in \<Rightarrow> slot option" where
  "resolve K s inp = (let t = in_prevTxHash inp; i = in_prevOutputIndex inp in
     case getTransactionValue s (hKey t i) of
       Some scr \<Rightarrow> Some \<lparr>sl_hKey = hKey t i, sl_script = Some scr, sl_inMem = True, sl_oKey = None, sl_oVal = None\<rparr>
     | None \<Rightarrow> (case kv_get K (db s) (hKey t i) of
         None \<Rightarrow> None
       | Some scr \<Rightarrow> Some \<lparr>sl_hKey = hKey t i, sl_script = Some scr, sl_inMem = False,
           sl_oKey = Some (oKey scr t i), sl_oVal = kv_get K (db s) (oKey scr t i)\<rparr>))"

definition outpoint :: "input_in \<Rightarrow> bytes \<times> u32" where
  "outpoint inp = (in_prevTxHash inp, in_prevOutputIndex inp)"

text \<open>The keys a spend may write.\<close>

definition spend_keys :: "bytes \<Rightarrow> bytes \<times> u32 \<Rightarrow> bytes set" where
  "spend_keys h op = {hKey (fst op) (snd op), mKey h (fst op) (snd op)}
     \<union> {oKey scr (fst op) (snd op) | scr. length scr = 32}
     \<union> {kKey h scr (fst op) (snd op) | scr. length scr = 32}"

lemma spendBlockHeight_run:
  "block_staged h n s \<Longrightarrow> spendBlockHeightInBatch h s = (Inr (Some n), s)"
  by (auto simp: block_staged_def spendBlockHeightInBatch_def codec_simps)

lemma writeRecovery_run:
  assumes "open_batch s" and "block_staged h n s" and "length t = 32" and "length scr = 32"
    and "decodeOutput v = Inr o1" and "0 \<le> out_h o1" and "in_blockHash inp = h" and "outpoint inp = (t, i)"
  shows "writeCrossBlockSpendRecovery K inp scr (Some v) s
    = (Inr (out_h o1 < n), if out_h o1 < n then stage (Put (kKey h scr t i) v) (stage (Put (mKey h t i) scr) s) else s)"
  using assms spendBlockHeight_run [OF assms(2)]
  by (simp add: writeCrossBlockSpendRecovery_def mbind_run codec_simps block_staged_def outpoint_def)

lemma view_unstage:
  "staged s' = (staged s)(k := None) \<Longrightarrow> db s' = db s \<Longrightarrow> kv_get K (db s) k = None
   \<Longrightarrow> view K s' = apply_item (Del k None) (view K s)"
  by (auto simp: view_def apply_item_def fun_eq_iff split: option.split)

lemma unstage_run:
  assumes "open_batch s" and "deletedTransactionArray s \<noteq> None"
    and "length t = 32" and "length scr = 32" and "outpoint inp = (t, i)"
    and "staged s (hKey t i) = Some it" and "staged s (oKey scr t i) = Some (Put k v)"
  obtains s' where "unstageInMemorySpend inp (hKey t i) scr s = (Inr (Some v), s')"
    and "staged s' = (staged s)(oKey scr t i := None, hKey t i := None)" and "same_store s s'"
proof -
  obtain s1 where s1: "removeTransaction (oKey scr t i) (b2h (in_blockHash inp)) s = (Inr True, s1)"
      "staged s1 = (staged s)(oKey scr t i := None)" "same_store s s1"
    using removeTransaction_run [OF assms(1,2,7)] .
  have "open_batch s1" "deletedTransactionArray s1 \<noteq> None" "staged s1 (hKey t i) = Some it"
    using s1 assms by (auto simp: same_store_def)
  then obtain s2 where s2: "removeTransaction (hKey t i) (b2h (in_blockHash inp)) s1 = (Inr True, s2)"
      "staged s2 = (staged s1)(hKey t i := None)" "same_store s1 s2"
    by (rule removeTransaction_run)
  have o: "in_prevTxHash inp = t" "in_prevOutputIndex inp = i" using assms(5) by (simp_all add: outpoint_def)
  have "unstageInMemorySpend inp (hKey t i) scr s = (Inr (Some v), s2)"
    using assms s1(1) s2(1)
    by (simp add: unstageInMemorySpend_def codec_simps o mbind_run getTransactionValue_staged)
  moreover have "staged s2 = (staged s)(oKey scr t i := None, hKey t i := None)"
    using s1 s2 by simp
  moreover have "same_store s s2" using s1 s2 same_store_trans by blast
  ultimately show ?thesis by (rule that)
qed

lemma staged_fold_stage:
  "open_batch s \<Longrightarrow> \<forall>it \<in> set its. item_key it \<noteq> k \<Longrightarrow> staged (fold stage its s) k = staged s k"
  by (induction its arbitrary: s) (auto simp: staged_stage)

lemma same_store_fold [simp]: "same_store s (fold stage its s)"
  by (simp add: same_store_def)

lemma spend_items_keys:
  "\<forall>scr. m (hKey (fst op) (snd op)) = Some scr \<longrightarrow> length scr = 32 \<Longrightarrow> it \<in> set (spend_items h n m op)
   \<Longrightarrow> item_key it \<in> spend_keys h op"
  by (auto simp: spend_items_def spend_keys_def split: prod.splits option.splits if_splits)

text \<open>A staged spend: which of the three ways it goes, and what it does to the view.\<close>

lemma spend_staged:
  assumes "open_batch s" and "deletedTransactionArray s \<noteq> None" and "block_staged h n s"
    and "length t = 32" and "length scr = 32" and "outpoint inp = (t, i)" and "in_blockHash inp = h"
    and "staged s (hKey t i) = Some (Put k0 scr)" and "staged s (oKey scr t i) = Some (Put k' v)"
    and "kv_get K (db s) (hKey t i) = None" and "kv_get K (db s) (oKey scr t i) = None"
    and "decodeOutput v = Inr o1" and "0 \<le> out_h o1"
  obtains s' where "mbind (unstageInMemorySpend inp (hKey t i) scr) (\<lambda>inMemOVal.
           writeCrossBlockSpendRecovery K inp scr inMemOVal) s = (Inr (out_h o1 < n), s')"
    and "view K s' = fold apply_item (spend_items h n (view K s) (t, i)) (view K s)"
    and "same_store s s'" and "\<forall>k. k \<notin> spend_keys h (t, i) \<longrightarrow> staged s' k = staged s k"
proof -
  obtain s1 where s1: "unstageInMemorySpend inp (hKey t i) scr s = (Inr (Some v), s1)"
      "staged s1 = (staged s)(oKey scr t i := None, hKey t i := None)" "same_store s s1"
    by (rule unstage_run [OF assms(1,2,4,5,6,8,9)])
  have b1: "block_staged h n s1"
    using assms(3) s1(2) by (simp add: block_staged_def getTransactionValue_staged)
  have o1: "open_batch s1" "db s1 = db s" using s1(3) assms(1) by (simp_all add: same_store_def)
  let ?s2 = "if out_h o1 < n then stage (Put (kKey h scr t i) v) (stage (Put (mKey h t i) scr) s1) else s1"
  have r: "mbind (unstageInMemorySpend inp (hKey t i) scr) (\<lambda>inMemOVal.
           writeCrossBlockSpendRecovery K inp scr inMemOVal) s = (Inr (out_h o1 < n), ?s2)"
    using s1(1) writeRecovery_run [OF o1(1) b1 assms(4,5,12,13,7,6)] by (simp add: mbind_run)
  have v: "view K s (hKey t i) = Some scr" "view K s (oKey scr t i) = Some v"
    using assms by (simp_all add: view_def)
  have v1: "view K s1 = (view K s)(oKey scr t i := None, hKey t i := None)"
    using s1(2) o1 assms(10,11) by (auto simp: view_def fun_eq_iff split: option.split)
  have "view K ?s2 = fold apply_item (spend_items h n (view K s) (t, i)) (view K s)"
    using v v1 o1 assms(12)
    by (auto simp: spend_items_def created_before_def view_simps apply_item_def fun_eq_iff)
  moreover have "same_store s ?s2" using s1(3) by simp
  moreover have "\<forall>k. k \<notin> spend_keys h (t, i) \<longrightarrow> staged ?s2 k = staged s k"
    using s1(2) o1 assms(5) by (auto simp: staged_stage spend_keys_def)
  ultimately show ?thesis using r that by blast
qed

lemma spend_stored:
  assumes "open_batch s" and "length scr = 32"
    and "staged s (hKey t i) = None" and "staged s (oKey scr t i) = None"
    and "kv_get K (db s) (hKey t i) = Some scr" and "kv_get K (db s) (oKey scr t i) = Some v"
    and "created_before v n"
    and "its = [Put (mKey h t i) scr, Put (kKey h scr t i) v, Del (oKey scr t i) None, Del (hKey t i) None]"
  shows "view K (fold stage its s) = fold apply_item (spend_items h n (view K s) (t, i)) (view K s)"
    and "\<forall>k. k \<notin> spend_keys h (t, i) \<longrightarrow> staged (fold stage its s) k = staged s k"
proof -
  have "view K s (hKey t i) = Some scr" "view K s (oKey scr t i) = Some v"
    using assms by (simp_all add: view_def)
  then have "spend_items h n (view K s) (t, i) = its" using assms(7,8) by (simp add: spend_items_def)
  then show "view K (fold stage its s) = fold apply_item (spend_items h n (view K s) (t, i)) (view K s)"
    using assms(1) by (simp add: view_simps)
  show "\<forall>k. k \<notin> spend_keys h (t, i) \<longrightarrow> staged (fold stage its s) k = staged s k"
  proof (intro allI impI)
    fix k assume "k \<notin> spend_keys h (t, i)"
    then have "\<forall>it \<in> set its. item_key it \<noteq> k" using assms(2,8) by (auto simp: spend_keys_def)
    then show "staged (fold stage its s) k = staged s k" by (rule staged_fold_stage [OF assms(1)])
  qed
qed

lemma spend_missing:
  assumes "staged s (hKey t i) = None"
    and "case kv_get K (db s) (hKey t i) of None \<Rightarrow> True
         | Some scr \<Rightarrow> staged s (oKey scr t i) = None \<and> kv_get K (db s) (oKey scr t i) = None"
  shows "fold apply_item (spend_items h n (view K s) (t, i)) (view K s) = view K s"
  using assms by (auto simp: spend_items_def view_def split: option.splits)

lemma stageSpend_run:
  assumes "open_batch s" and "deletedTransactionArray s \<noteq> None" and "block_staged h n s"
    and "spendable K n s (t, i)" and "outpoint inp = (t, i)" and "in_blockHash inp = h"
  obtains s' where "stageSpend K (inp, resolve K s inp) s = (Inr (), s')"
    and "view K s' = fold apply_item (spend_items h n (view K s) (t, i)) (view K s)"
    and "same_store s s'" and "\<forall>k. k \<notin> spend_keys h (t, i) \<longrightarrow> staged s' k = staged s k"
proof -
  have len: "length t = 32" "length h = 32" using assms(3,4) by (auto simp: spendable_def block_staged_def)
  have o1: "in_prevTxHash inp = t" "in_prevOutputIndex inp = i" using assms(5) by (simp_all add: outpoint_def)
  show ?thesis
  proof (cases "staged s (hKey t i)")
    case (Some it)
    then obtain k0 scr k' v o2 where st: "staged s (hKey t i) = Some (Put k0 scr)" "length scr = 32"
        "staged s (oKey scr t i) = Some (Put k' v)" "kv_get K (db s) (hKey t i) = None"
        "kv_get K (db s) (oKey scr t i) = None" "decodeOutput v = Inr o2" "0 \<le> out_h o2"
      using assms(4) by (cases it) (auto simp: spendable_def)
    have r: "stageSpend K (inp, resolve K s inp) = mseq (mbind (unstageInMemorySpend inp (hKey t i) scr)
        (\<lambda>inMemOVal. writeCrossBlockSpendRecovery K inp scr inMemOVal)) (mret ())"
      using st(1) by (simp add: stageSpend_def resolve_def o1 getTransactionValue_staged)
    obtain s' where s': "mbind (unstageInMemorySpend inp (hKey t i) scr) (\<lambda>inMemOVal.
           writeCrossBlockSpendRecovery K inp scr inMemOVal) s = (Inr (out_h o2 < n), s')"
      "view K s' = fold apply_item (spend_items h n (view K s) (t, i)) (view K s)"
      "same_store s s'" "\<forall>k. k \<notin> spend_keys h (t, i) \<longrightarrow> staged s' k = staged s k"
      by (rule spend_staged [OF assms(1-3) len(1) st(2) assms(5,6) st(1,3,4,5,6,7)])
    show ?thesis using that [OF _ s'(2-4)] s'(1) unfolding r by (simp add: mseq_run del: m_assoc)
  next
    case None
    show ?thesis
    proof (cases "kv_get K (db s) (hKey t i)")
      case none: None
      show ?thesis
      proof (rule that [of s])
        show "stageSpend K (inp, resolve K s inp) s = (Inr (), s)"
          using None none by (simp add: stageSpend_def resolve_def o1 getTransactionValue_staged)
        show "view K s = fold apply_item (spend_items h n (view K s) (t, i)) (view K s)"
          using spend_missing [OF None, of K h n] none by simp
      qed simp_all
    next
      case hint: (Some scr)
      then have scr: "length scr = 32" "staged s (oKey scr t i) = None"
        using assms(4) None by (auto simp: spendable_def)
      show ?thesis
      proof (cases "kv_get K (db s) (oKey scr t i)")
        case none: None
        show ?thesis
        proof (rule that [of s])
          show "stageSpend K (inp, resolve K s inp) s = (Inr (), s)"
            using None none hint by (simp add: stageSpend_def resolve_def o1 getTransactionValue_staged)
          show "view K s = fold apply_item (spend_items h n (view K s) (t, i)) (view K s)"
            using spend_missing [OF None, of K h n] none hint scr by simp
        qed simp_all
      next
        case val: (Some v)
        then have cb: "created_before v n" using assms(4) None hint by (simp add: spendable_def)
        let ?its = "[Put (mKey h t i) scr, Put (kKey h scr t i) v, Del (oKey scr t i) None, Del (hKey t i) None]"
        show ?thesis
        proof (rule that [of "fold stage ?its s"])
          show "stageSpend K (inp, resolve K s inp) s = (Inr (), fold stage ?its s)"
            using None hint val len scr assms(1,6)
            by (simp add: stageSpend_def resolve_def o1 getTransactionValue_staged codec_simps)
        qed (use spend_stored [OF assms(1) scr(1) None scr(2) hint val cb refl] in simp_all)
      qed
    qed
  qed
qed

lemma removeOutputWithInput_run:
  assumes "open_batch s" and "deletedTransactionArray s \<noteq> None" and "block_staged h n s"
    and "spendable K n s (t, i)" and "outpoint inp = (t, i)" and "in_blockHash inp = h"
  obtains s' where "removeOutputWithInput K inp s = (Inr True, s')"
    and "view K s' = fold apply_item (spend_items h n (view K s) (t, i)) (view K s)"
    and "same_store s s'" and "\<forall>k. k \<notin> spend_keys h (t, i) \<longrightarrow> staged s' k = staged s k"
proof -
  have len: "length t = 32" "length h = 32" using assms(3,4) by (auto simp: spendable_def block_staged_def)
  have o1: "in_prevTxHash inp = t" "in_prevOutputIndex inp = i" using assms(5) by (simp_all add: outpoint_def)
  note run = removeOutputWithInput_def o1 assms(6) codec_simps getTransactionValue_staged
  show ?thesis
  proof (cases "staged s (hKey t i)")
    case (Some it)
    then obtain k0 scr k' v o2 where st: "staged s (hKey t i) = Some (Put k0 scr)" "length scr = 32"
        "staged s (oKey scr t i) = Some (Put k' v)" "kv_get K (db s) (hKey t i) = None"
        "kv_get K (db s) (oKey scr t i) = None" "decodeOutput v = Inr o2" "0 \<le> out_h o2"
      using assms(4) by (cases it) (auto simp: spendable_def)
    have r: "removeOutputWithInput K inp s = mseq (mbind (unstageInMemorySpend inp (hKey t i) scr)
        (\<lambda>inMemOVal. writeCrossBlockSpendRecovery K inp scr inMemOVal)) (mret True) s"
      using st(1,4) len by (simp add: run)
    obtain s' where s': "mbind (unstageInMemorySpend inp (hKey t i) scr) (\<lambda>inMemOVal.
           writeCrossBlockSpendRecovery K inp scr inMemOVal) s = (Inr (out_h o2 < n), s')"
      "view K s' = fold apply_item (spend_items h n (view K s) (t, i)) (view K s)"
      "same_store s s'" "\<forall>k. k \<notin> spend_keys h (t, i) \<longrightarrow> staged s' k = staged s k"
      by (rule spend_staged [OF assms(1-3) len(1) st(2) assms(5,6) st(1,3,4,5,6,7)])
    show ?thesis using that [OF _ s'(2-4)] s'(1) unfolding r by (simp add: mseq_run del: m_assoc)
  next
    case None
    show ?thesis
    proof (cases "kv_get K (db s) (hKey t i)")
      case none: None
      show ?thesis
      proof (rule that [of s])
        show "removeOutputWithInput K inp s = (Inr True, s)"
          using None none len by (simp add: run)
        show "view K s = fold apply_item (spend_items h n (view K s) (t, i)) (view K s)"
          using spend_missing [OF None, of K h n] none by simp
      qed simp_all
    next
      case hint: (Some scr)
      then have scr: "length scr = 32" "staged s (oKey scr t i) = None"
        using assms(4) None by (auto simp: spendable_def)
      show ?thesis
      proof (cases "kv_get K (db s) (oKey scr t i)")
        case none: None
        show ?thesis
        proof (rule that [of s])
          show "removeOutputWithInput K inp s = (Inr True, s)"
            using None none hint len scr by (simp add: run)
          show "view K s = fold apply_item (spend_items h n (view K s) (t, i)) (view K s)"
            using spend_missing [OF None, of K h n] none hint scr by simp
        qed simp_all
      next
        case val: (Some v)
        then have cb: "created_before v n" using assms(4) None hint by (simp add: spendable_def)
        let ?its = "[Put (mKey h t i) scr, Put (kKey h scr t i) v, Del (oKey scr t i) None, Del (hKey t i) None]"
        show ?thesis
        proof (rule that [of "fold stage ?its s"])
          show "removeOutputWithInput K inp s = (Inr True, fold stage ?its s)"
            using None hint val len scr assms(1) by (simp add: run)
        qed (use spend_stored [OF assms(1) scr(1) None scr(2) hint val cb refl] in simp_all)
      qed
    qed
  qed
qed

subsection \<open>A block's spends, one after the other\<close>

lemma spend_keys_disjoint:
  assumes "op \<noteq> op'"
  shows "hKey (fst op) (snd op) \<notin> spend_keys h op'"
    and "length scr = 32 \<Longrightarrow> oKey scr (fst op) (snd op) \<notin> spend_keys h op'"
  using assms by (auto simp: spend_keys_def key_inject_len prod_eq_iff)

lemma bKey_not_spend: "bKey h \<notin> spend_keys h' op"
  by (auto simp: spend_keys_def)

text \<open>Everything about spending one outpoint depends on its own keys only.\<close>

lemma spend_local:
  assumes "db s' = db s" and "\<forall>k. k \<notin> spend_keys h op' \<longrightarrow> staged s' k = staged s k" and "op \<noteq> op'"
    and "spendable K n s op"
  shows "spendable K n s' op"
    and "spend_items h' n (view K s') op = spend_items h' n (view K s) op"
    and "outpoint inp = op \<Longrightarrow> resolve K s' inp = resolve K s inp"
proof -
  obtain t i where op: "op = (t, i)" by (cases op)
  have hk: "staged s' (hKey t i) = staged s (hKey t i)"
    using spend_keys_disjoint(1) [OF assms(3)] assms(2) by (simp add: op)
  have ok: "staged s' (oKey scr t i) = staged s (oKey scr t i)" if "length scr = 32" for scr
    using spend_keys_disjoint(2) [OF assms(3)] assms(2) that by (simp add: op)
  show "spendable K n s' op"
    using assms(4) by (auto simp: spendable_def op hk ok assms(1) split: option.splits item.splits)
  have vh: "view K s' (hKey t i) = view K s (hKey t i)" by (simp add: view_def hk assms(1) split: option.split)
  have scr: "length scr = 32" if "view K s (hKey t i) = Some scr" for scr
    using assms(4) that by (auto simp: spendable_def op view_def split: option.splits item.splits)
  have vo: "view K s' (oKey scr t i) = view K s (oKey scr t i)" if "length scr = 32" for scr
    using that by (simp add: view_def ok assms(1) split: option.split)
  show "spend_items h' n (view K s') op = spend_items h' n (view K s) op"
    using scr by (auto simp: spend_items_def op vh vo split: option.split)
  show "resolve K s' inp = resolve K s inp" if "outpoint inp = op"
  proof -
    have "in_prevTxHash inp = t" "in_prevOutputIndex inp = i" using that op by (simp_all add: outpoint_def)
    then show ?thesis
      by (simp add: resolve_def getTransactionValue_staged hk assms(1) Let_def cong: option.case_cong)
  qed
qed

text \<open>
  A loop over a block's inputs in which each step spends its outpoint. The tag of an input may
  depend on the state as long as it, too, depends on the outpoint's keys only.
\<close>

lemma spend_loop:
  assumes step: "\<And>s x t i. open_batch s \<Longrightarrow> deletedTransactionArray s \<noteq> None \<Longrightarrow> block_staged h n s
      \<Longrightarrow> spendable K n s (t, i) \<Longrightarrow> outpoint (inp x) = (t, i) \<Longrightarrow> in_blockHash (inp x) = h \<Longrightarrow> T s x
      \<Longrightarrow> \<exists>s'. f x s = (Inr (), s') \<and> view K s' = fold apply_item (spend_items h n (view K s) (t, i)) (view K s)
        \<and> same_store s s' \<and> (\<forall>k. k \<notin> spend_keys h (t, i) \<longrightarrow> staged s' k = staged s k)"
    and tag: "\<And>s s' x op. db s' = db s \<Longrightarrow> \<forall>k. k \<notin> spend_keys h op \<longrightarrow> staged s' k = staged s k
      \<Longrightarrow> outpoint (inp x) \<noteq> op \<Longrightarrow> spendable K n s (outpoint (inp x)) \<Longrightarrow> T s x \<Longrightarrow> T s' x"
    and s: "open_batch s" "deletedTransactionArray s \<noteq> None" "block_staged h n s"
    and xs: "\<forall>x \<in> set xs. spendable K n s (outpoint (inp x)) \<and> in_blockHash (inp x) = h \<and> T s x"
    and dist: "distinct (map (outpoint \<circ> inp) xs)"
  shows "\<exists>s'. mfor xs f s = (Inr (), s')
    \<and> view K s' = fold apply_item (concat (map (\<lambda>x. spend_items h n (view K s) (outpoint (inp x))) xs)) (view K s)
    \<and> same_store s s' \<and> (\<forall>k. (\<forall>x \<in> set xs. k \<notin> spend_keys h (outpoint (inp x))) \<longrightarrow> staged s' k = staged s k)"
  using s xs dist
proof (induction xs arbitrary: s)
  case Nil
  then show ?case by simp
next
  case (Cons x xs)
  obtain t i where op: "outpoint (inp x) = (t, i)" by (cases "outpoint (inp x)")
  obtain s1 where s1: "f x s = (Inr (), s1)"
      "view K s1 = fold apply_item (spend_items h n (view K s) (t, i)) (view K s)" "same_store s s1"
      "\<forall>k. k \<notin> spend_keys h (t, i) \<longrightarrow> staged s1 k = staged s k"
    using step [of s t i x] Cons.prems op by auto
  have d1: "db s1 = db s" "open_batch s1" "deletedTransactionArray s1 \<noteq> None"
    using s1(3) Cons.prems by (auto simp: same_store_def)
  have b1: "block_staged h n s1"
    using Cons.prems(3) s1(4) bKey_not_spend
    by (simp add: block_staged_def getTransactionValue_staged)
  have ne: "outpoint (inp y) \<noteq> (t, i)" if "y \<in> set xs" for y
    using that Cons.prems(5) op by (force simp: image_iff)
  have x1: "\<forall>y \<in> set xs. spendable K n s1 (outpoint (inp y)) \<and> in_blockHash (inp y) = h \<and> T s1 y"
    using Cons.prems(4) ne spend_local(1) [OF d1(1) s1(4)] tag [OF d1(1) s1(4)] by auto
  obtain s2 where s2: "mfor xs f s1 = (Inr (), s2)"
      "view K s2 = fold apply_item (concat (map (\<lambda>x. spend_items h n (view K s1) (outpoint (inp x))) xs)) (view K s1)"
      "same_store s1 s2"
      "\<forall>k. (\<forall>x \<in> set xs. k \<notin> spend_keys h (outpoint (inp x))) \<longrightarrow> staged s2 k = staged s1 k"
    using Cons.IH [OF d1(2,3) b1 x1] Cons.prems(5) by auto
  have it: "map (\<lambda>x. spend_items h n (view K s1) (outpoint (inp x))) xs
      = map (\<lambda>x. spend_items h n (view K s) (outpoint (inp x))) xs"
    using Cons.prems(4) ne spend_local(2) [OF d1(1) s1(4)] by simp
  show ?case
  proof (intro exI conjI)
    show "mfor (x # xs) f s = (Inr (), s2)" using s1(1) s2(1) by (simp add: mseq_run)
    show "view K s2 = fold apply_item (concat (map (\<lambda>x. spend_items h n (view K s) (outpoint (inp x))) (x # xs))) (view K s)"
    proof -
      have "view K s2 = fold apply_item (concat (map (\<lambda>x. spend_items h n (view K s) (outpoint (inp x))) xs)) (view K s1)"
        using s2(2) unfolding it .
      then show ?thesis by (simp only: s1(2) op list.map concat.simps fold_append o_apply)
    qed
    show "same_store s s2" using s1(3) s2(3) by (rule same_store_trans)
    show "\<forall>k. (\<forall>x \<in> set (x # xs). k \<notin> spend_keys h (outpoint (inp x))) \<longrightarrow> staged s2 k = staged s k"
      using s1(4) s2(4) op by simp
  qed
qed

lemma spend_loop_batch:
  assumes s: "open_batch s" "deletedTransactionArray s \<noteq> None" "block_staged h n s"
    and inputs: "\<forall>inp \<in> set inputs. spendable K n s (outpoint inp) \<and> in_blockHash inp = h"
    and dist: "distinct (map outpoint inputs)"
  shows "\<exists>s'. mfor (zip inputs (map (resolve K s) inputs)) (stageSpend K) s = (Inr (), s')
    \<and> view K s' = fold apply_item (concat (map (\<lambda>inp. spend_items h n (view K s) (outpoint inp)) inputs)) (view K s)
    \<and> same_store s s' \<and> (\<forall>k. (\<forall>inp \<in> set inputs. k \<notin> spend_keys h (outpoint inp)) \<longrightarrow> staged s' k = staged s k)"
proof -
  let ?xs = "zip inputs (map (resolve K s) inputs)"
  have xs: "?xs = map (\<lambda>inp. (inp, resolve K s inp)) inputs" by (induction inputs) simp_all
  have "\<exists>s'. mfor ?xs (stageSpend K) s = (Inr (), s')
    \<and> view K s' = fold apply_item (concat (map (\<lambda>x. spend_items h n (view K s) (outpoint (fst x))) ?xs)) (view K s)
    \<and> same_store s s' \<and> (\<forall>k. (\<forall>x \<in> set ?xs. k \<notin> spend_keys h (outpoint (fst x))) \<longrightarrow> staged s' k = staged s k)"
  proof (rule spend_loop [where inp = fst and T = "\<lambda>s x. snd x = resolve K s (fst x)"])
    fix s x t i
    assume "open_batch s" "deletedTransactionArray s \<noteq> None" "block_staged h n s" "spendable K n s (t, i)"
      "outpoint (fst x) = (t, i)" "in_blockHash (fst x) = h" "snd x = resolve K s (fst x)"
    then show "\<exists>s'. stageSpend K x s = (Inr (), s') \<and> view K s' = fold apply_item (spend_items h n (view K s) (t, i)) (view K s)
        \<and> same_store s s' \<and> (\<forall>k. k \<notin> spend_keys h (t, i) \<longrightarrow> staged s' k = staged s k)"
      by (metis prod.collapse stageSpend_run)
  next
    show "distinct (map (outpoint \<circ> fst) ?xs)" using dist by (simp add: xs comp_def)
  qed (use s inputs in \<open>auto simp: xs dest: spend_local(3)\<close>)
  then show ?thesis by (simp add: xs comp_def)
qed

subsection \<open>The bulk lookups resolve every input\<close>

lemma applyHintValues_nth:
  assumes "distinct is" and "\<forall>j \<in> set is. j < length rs"
  shows "applyHintValues is (map g is) rs = map (\<lambda>j. if j \<in> set is
      then (case g j of None \<Rightarrow> None | Some scr \<Rightarrow> map_option (\<lambda>r. r\<lparr>sl_script := Some scr\<rparr>) (rs ! j))
      else rs ! j) [0..<length rs]"
  using assms
proof (induction "is" arbitrary: rs)
  case Nil
  show ?case by (simp add: map_nth)
next
  case (Cons i "is")
  then show ?case
    by (cases "g i") (auto intro!: nth_equalityI simp: nth_list_update split: option.split)
qed

lemma applyOutputValues_nth:
  assumes "distinct is" and "\<forall>j \<in> set is. j < length rs"
  shows "applyOutputValues is (map g is) rs = map (\<lambda>j. if j \<in> set is
      then map_option (\<lambda>r. r\<lparr>sl_oVal := g j\<rparr>) (rs ! j) else rs ! j) [0..<length rs]"
  using assms
proof (induction "is" arbitrary: rs)
  case Nil
  show ?case by (simp add: map_nth)
next
  case (Cons i "is")
  then show ?case
    by (auto intro!: nth_equalityI simp: nth_list_update)
qed

definition hintKey :: "input_in \<Rightarrow> bytes" where
  "hintKey inp = hKey (in_prevTxHash inp) (in_prevOutputIndex inp)"

definition missing_from :: "(input_in \<Rightarrow> bool) \<Rightarrow> nat \<Rightarrow> input_in list \<Rightarrow> nat list" where
  "missing_from P i inps = map fst (filter (\<lambda>(j, inp). P inp) (enumerate i inps))"

lemma missing_from_simps [simp]:
  "missing_from P i [] = []"
  "missing_from P i (inp # inps) = (if P inp then [i] else []) @ missing_from P (Suc i) inps"
  by (simp_all add: missing_from_def)

lemma missing_from_ge: "j \<in> set (missing_from P i inps) \<Longrightarrow> i \<le> j"
  by (induction inps arbitrary: i) (auto split: if_splits dest: Suc_leD)

lemma missing_from_distinct: "distinct (missing_from P i inps)"
proof (induction inps arbitrary: i)
  case (Cons inp inps)
  then show ?case using missing_from_ge [of i P "Suc i" inps] by auto
qed simp

lemma missing_from_mem: "j \<in> set (missing_from P i inps) \<longleftrightarrow> i \<le> j \<and> j < i + length inps \<and> P (inps ! (j - i))"
proof (induction inps arbitrary: i)
  case (Cons inp inps)
  then show ?case by (cases "j = i") (auto simp: nth_Cons' Suc_diff_Suc)
qed simp

lemma missing_from_cong:
  "(\<And>x. x \<in> set inps \<Longrightarrow> P x = Q x) \<Longrightarrow> missing_from P i inps = missing_from Q i inps"
  by (induction inps arbitrary: i) simp_all

lemma missing_from_keys:
  "map (\<lambda>j. f (inps ! (j - i))) (missing_from P i inps) = map f (filter P inps)"
proof (induction inps arbitrary: i)
  case (Cons inp inps)
  have "map (\<lambda>j. f ((inp # inps) ! (j - i))) (missing_from P (Suc i) inps)
      = map (\<lambda>j. f (inps ! (j - Suc i))) (missing_from P (Suc i) inps)"
  proof (rule map_cong [OF refl])
    fix j assume "j \<in> set (missing_from P (Suc i) inps)"
    then have "Suc i \<le> j" by (rule missing_from_ge)
    then have "j - i = Suc (j - Suc i)" by simp
    then show "f ((inp # inps) ! (j - i)) = f (inps ! (j - Suc i))" by simp
  qed
  with Cons show ?case by simp
qed simp

definition hintMissing :: "'d store \<Rightarrow> input_in \<Rightarrow> bool" where
  "hintMissing s inp \<longleftrightarrow> getTransactionValue s (hintKey inp) = None"

definition hintSlot :: "'d store \<Rightarrow> input_in \<Rightarrow> slot option" where
  "hintSlot s inp = (case getTransactionValue s (hintKey inp) of
     Some v \<Rightarrow> Some ((new_slot (hintKey inp))\<lparr>sl_script := Some v, sl_inMem := True\<rparr>)
   | None \<Rightarrow> Some (new_slot (hintKey inp)))"

lemma queueHintLookups_run:
  assumes "\<forall>inp \<in> set inps. length (in_prevTxHash inp) = 32"
  shows "queueHintLookups s inps i
    = Inr (map (hintSlot s) inps, map hintKey (filter (hintMissing s) inps), missing_from (hintMissing s) i inps)"
  using assms(1)
  by (induction inps arbitrary: i)
    (auto simp: hintMissing_def hintSlot_def hintKey_def codec_simps split: option.splits)

text \<open>After phase 1.\<close>

definition hintSlot' :: "'d kv \<Rightarrow> 'd store \<Rightarrow> input_in \<Rightarrow> slot option" where
  "hintSlot' K s inp = (case getTransactionValue s (hintKey inp) of
     Some v \<Rightarrow> Some ((new_slot (hintKey inp))\<lparr>sl_script := Some v, sl_inMem := True\<rparr>)
   | None \<Rightarrow> (case kv_get K (db s) (hintKey inp) of
       None \<Rightarrow> None
     | Some scr \<Rightarrow> Some ((new_slot (hintKey inp))\<lparr>sl_script := Some scr\<rparr>)))"

lemma applyHintValues_run:
  "applyHintValues (missing_from (hintMissing s) 0 inps) (map (kv_get K (db s)) (map hintKey (filter (hintMissing s) inps)))
      (map (hintSlot s) inps) = map (hintSlot' K s) inps"
proof -
  let ?is = "missing_from (hintMissing s) 0 inps"
  have v: "map (kv_get K (db s)) (map hintKey (filter (hintMissing s) inps))
      = map (\<lambda>j. kv_get K (db s) (hintKey (inps ! j))) ?is"
    using missing_from_keys [of "\<lambda>inp. kv_get K (db s) (hintKey inp)" inps 0 "hintMissing s"] by simp
  show ?thesis
    unfolding v
    by (subst applyHintValues_nth [OF missing_from_distinct])
      (auto simp: missing_from_mem hintMissing_def hintSlot_def hintSlot'_def intro!: nth_equalityI split: option.split)
qed

subsection \<open>The cache\<close>

lemma of_char_u16_inj: "(of_nat (of_char c) :: u16) = of_nat (of_char d) \<Longrightarrow> c = d"
proof -
  assume a: "(of_nat (of_char c) :: u16) = of_nat (of_char d)"
  have b: "of_char x < (65536 :: nat)" for x :: char
    using nat_of_char_less_256 [of x] by (rule less_trans) simp
  from a have "unat (of_nat (of_char c) :: u16) = unat (of_nat (of_char d) :: u16)" by simp
  then have "(of_char c :: nat) = of_char d" using b by (simp add: unat_of_nat)
  then show "c = d" by simp
qed

lemma u32_halves:
  fixes i j :: u32
  assumes "(ucast (drop_bit 16 i) :: u16) = ucast (drop_bit 16 j)" and "(ucast i :: u16) = ucast j"
  shows "i = j"
proof (rule bit_word_eqI)
  fix n assume n: "n < LENGTH(32)"
  show "bit i n = bit j n"
  proof (cases "n < 16")
    case True
    have "bit (ucast i :: u16) n = bit (ucast j :: u16) n" by (simp add: assms(2))
    with True show ?thesis by (simp add: bit_ucast_iff)
  next
    case False
    have "bit (ucast (drop_bit 16 i) :: u16) (n - 16) = bit (ucast (drop_bit 16 j) :: u16) (n - 16)"
      by (simp add: assms(1))
    moreover have "n - 16 < 16" "16 + (n - 16) = n" using False n by auto
    ultimately show ?thesis by (simp add: bit_ucast_iff bit_drop_bit_eq)
  qed
qed

lemma cacheKey_inject:
  assumes "length t = length t'"
  shows "cacheKey t i = cacheKey t' i' \<longleftrightarrow> t = t' \<and> i = i'"
proof
  assume a: "cacheKey t i = cacheKey t' i'"
  then have m: "map (\<lambda>c. of_nat (of_char c) :: u16) (b2h t) = map (\<lambda>c. of_nat (of_char c)) (b2h t')"
    and hi: "(ucast (drop_bit 16 i) :: u16) = ucast (drop_bit 16 i')" and lo: "(ucast i :: u16) = ucast i'"
    using assms by (auto simp: cacheKey_def)
  have "inj (\<lambda>c. of_nat (of_char c) :: u16)" by (rule injI) (rule of_char_u16_inj)
  with m have "b2h t = b2h t'" by (metis inj_map_eq_map)
  with hi lo u32_halves show "t = t' \<and> i = i'" by simp
qed simp

text \<open>
  The cache tells the truth about the live outputs: an entry for an outpoint whose hint the
  view holds is the value the view holds.
\<close>

definition cache_ok :: "'d kv \<Rightarrow> 'd store \<Rightarrow> bool" where
  "cache_ok K s \<longleftrightarrow> (\<forall>t i scr v. length t = 32 \<longrightarrow> map_of (outputCache (stat s)) (cacheKey t i) = Some v
     \<longrightarrow> view K s (hKey t i) = Some scr \<longrightarrow> view K s (oKey scr t i) = Some v)"

definition cacheHit :: "statics \<Rightarrow> input_in \<Rightarrow> bytes option" where
  "cacheHit st inp = map_of (outputCache st) (cacheKey (in_prevTxHash inp) (in_prevOutputIndex inp))"

definition outSlot :: "'d kv \<Rightarrow> 'd store \<Rightarrow> statics \<Rightarrow> input_in \<Rightarrow> slot option" where
  "outSlot K s st inp = (case hintSlot' K s inp of
     None \<Rightarrow> None
   | Some r \<Rightarrow> if sl_inMem r then Some r
       else Some (r\<lparr>sl_oKey := Some (oKey (the (sl_script r)) (in_prevTxHash inp) (in_prevOutputIndex inp)),
                    sl_oVal := cacheHit st inp\<rparr>))"

definition outMissing :: "'d kv \<Rightarrow> 'd store \<Rightarrow> statics \<Rightarrow> input_in \<Rightarrow> bool" where
  "outMissing K s st inp \<longleftrightarrow> (case hintSlot' K s inp of
     None \<Rightarrow> False | Some r \<Rightarrow> \<not> sl_inMem r \<and> cacheHit st inp = None)"

definition outKey :: "'d kv \<Rightarrow> 'd store \<Rightarrow> input_in \<Rightarrow> bytes" where
  "outKey K s inp = oKey (the (kv_get K (db s) (hintKey inp))) (in_prevTxHash inp) (in_prevOutputIndex inp)"

text \<open>What the lookups may do to the statics: drop cache entries and count.\<close>

definition fewer_cached :: "statics \<Rightarrow> statics \<Rightarrow> bool" where
  "fewer_cached st st' \<longleftrightarrow> map_of (outputCache st') \<subseteq>\<^sub>m map_of (outputCache st) \<and> knownScripts st' = knownScripts st"

lemma fewer_cached_refl [simp]: "fewer_cached st st"
  by (simp add: fewer_cached_def)

lemma fewer_cached_trans: "fewer_cached st st' \<Longrightarrow> fewer_cached st' st'' \<Longrightarrow> fewer_cached st st''"
  by (auto simp: fewer_cached_def intro: map_le_trans)

lemma fewer_cached_delete:
  "fewer_cached st (st\<lparr>outputCache := AList.delete ck (outputCache st), outputCacheHits := x\<rparr>)"
  "fewer_cached st (st\<lparr>outputCacheMisses := x\<rparr>)"
  by (auto simp: fewer_cached_def map_le_def)

lemma outSlot_cong:
  "cacheHit st inp = cacheHit st' inp \<Longrightarrow> outSlot K s st inp = outSlot K s st' inp"
  "cacheHit st inp = cacheHit st' inp \<Longrightarrow> outMissing K s st inp = outMissing K s st' inp"
  by (simp_all add: outSlot_def outMissing_def split: option.split)

lemma outSlot_plain:
  "hintSlot' K s inp = None \<Longrightarrow> outSlot K s st inp = None \<and> \<not> outMissing K s st inp"
  "hintSlot' K s inp = Some r \<Longrightarrow> sl_inMem r \<Longrightarrow> outSlot K s st inp = Some r \<and> \<not> outMissing K s st inp"
  by (simp_all add: outSlot_def outMissing_def)

lemma queueOutputLookups_run:
  assumes "\<forall>inp \<in> set inps. length (in_prevTxHash inp) = 32
      \<and> (\<forall>r. hintSlot' K s inp = Some r \<longrightarrow> \<not> sl_inMem r \<longrightarrow> length (the (sl_script r)) = 32)"
    and "distinct (map outpoint inps)"
  shows "\<exists>st'. queueOutputLookups st inps (map (hintSlot' K s) inps) i
      = (Inr (map (outSlot K s st) inps, map (outKey K s) (filter (outMissing K s st) inps),
              missing_from (outMissing K s st) i inps), st') \<and> fewer_cached st st'"
  using assms
proof (induction inps arbitrary: st i)
  case Nil
  then show ?case by simp
next
  case (Cons inp inps)
  let ?t = "in_prevTxHash inp" and ?i = "in_prevOutputIndex inp"
  let ?ck = "cacheKey ?t ?i"
  have rest: "\<exists>st'. queueOutputLookups st1 inps (map (hintSlot' K s) inps) (Suc i)
      = (Inr (map (outSlot K s st1) inps, map (outKey K s) (filter (outMissing K s st1) inps),
              missing_from (outMissing K s st1) (Suc i) inps), st') \<and> fewer_cached st1 st'" for st1
    using Cons.IH [of st1 "Suc i"] Cons.prems by simp
  show ?case
  proof (cases "hintSlot' K s inp")
    case None
    then show ?thesis using rest [of st] outSlot_plain(1) [OF None, of st] by auto
  next
    case (Some r)
    then obtain scr where scr: "sl_script r = Some scr"
      by (auto simp: hintSlot'_def split: option.splits)
    show ?thesis
    proof (cases "sl_inMem r")
      case True
      then show ?thesis using Some scr rest [of st] outSlot_plain(2) [OF Some True, of st] by auto
    next
      case False
      then have len: "length scr = 32" "length ?t = 32" using Cons.prems(1) Some scr by auto
      have k: "kOutputFromBuf scr ?t ?i = Inr (oKey scr ?t ?i)" using len by (simp add: codec_simps)
      have ok: "outKey K s inp = oKey scr ?t ?i"
        using Some False scr by (auto simp: hintSlot'_def outKey_def split: option.splits)
      show ?thesis
      proof (cases "map_of (outputCache st) ?ck")
        case miss: None
        let ?st = "st\<lparr>outputCacheMisses := Suc (outputCacheMisses st)\<rparr>"
        have "cacheHit ?st x = cacheHit st x" for x by (simp add: cacheHit_def)
        then have eq: "outSlot K s ?st = outSlot K s st" "outMissing K s ?st = outMissing K s st"
          by (auto intro!: ext outSlot_cong)
        have m: "outMissing K s st inp" and o1: "outSlot K s st inp = Some (r\<lparr>sl_oKey := Some (oKey scr ?t ?i)\<rparr>)"
          using Some False scr miss
          by (auto simp: outMissing_def outSlot_def cacheHit_def hintSlot'_def new_slot_def split: option.splits)
        from rest [of ?st] obtain st' where st': "queueOutputLookups ?st inps (map (hintSlot' K s) inps) (Suc i)
           = (Inr (map (outSlot K s st) inps, map (outKey K s) (filter (outMissing K s st) inps),
              missing_from (outMissing K s st) (Suc i) inps), st')" "fewer_cached ?st st'"
          unfolding eq by blast
        have "fewer_cached st st'" using fewer_cached_trans [OF fewer_cached_delete(2) st'(2)] .
        then show ?thesis using Some False scr k miss st'(1) m o1 ok by (simp add: Let_def)
      next
        case hit: (Some v)
        let ?st = "st\<lparr>outputCache := AList.delete ?ck (outputCache st), outputCacheHits := Suc (outputCacheHits st)\<rparr>"
        have c: "cacheHit ?st x = cacheHit st x" if "x \<in> set inps" for x
        proof -
          have "outpoint x \<noteq> outpoint inp" using Cons.prems(2) that by (auto simp: image_iff)
          moreover have "length (in_prevTxHash x) = length ?t" using Cons.prems(1) that len by simp
          ultimately show ?thesis by (auto simp: cacheHit_def cacheKey_inject outpoint_def)
        qed
        have eq: "map (outSlot K s ?st) inps = map (outSlot K s st) inps"
          "filter (outMissing K s ?st) inps = filter (outMissing K s st) inps"
          using outSlot_cong(1) [OF c, where K = K and s = s] outSlot_cong(2) [OF c, where K = K and s = s]
          by (simp_all cong: filter_cong)
        have eqm: "missing_from (outMissing K s ?st) n inps = missing_from (outMissing K s st) n inps" for n
          by (rule missing_from_cong) (simp add: outSlot_cong(2) [OF c])
        have m: "\<not> outMissing K s st inp"
          and o1: "outSlot K s st inp = Some (r\<lparr>sl_oKey := Some (oKey scr ?t ?i), sl_oVal := Some v\<rparr>)"
          using Some False scr hit by (auto simp: outMissing_def outSlot_def cacheHit_def)
        from rest [of ?st] obtain st' where st': "queueOutputLookups ?st inps (map (hintSlot' K s) inps) (Suc i)
           = (Inr (map (outSlot K s st) inps, map (outKey K s) (filter (outMissing K s st) inps),
              missing_from (outMissing K s st) (Suc i) inps), st')" "fewer_cached ?st st'"
          unfolding eq eqm by blast
        have "fewer_cached st st'" using fewer_cached_trans [OF fewer_cached_delete(1) st'(2)] .
        then show ?thesis using Some False scr k hit st'(1) m o1 by (simp add: Let_def)
      qed
    qed
  qed
qed

lemma stat_irrelevant [simp]:
  "staged (s\<lparr>stat := st\<rparr>) = staged s"
  "getTransactionValue (s\<lparr>stat := st\<rparr>) = getTransactionValue s"
  "block_staged h n (s\<lparr>stat := st\<rparr>) = block_staged h n s"
  "spendable K n (s\<lparr>stat := st\<rparr>) = spendable K n s"
  "resolve K (s\<lparr>stat := st\<rparr>) = resolve K s"
  by (simp_all add: staged_def getTransactionValue_def block_staged_def spendable_def resolve_def fun_eq_iff
      cong: option.case_cong item.case_cong)

lemma spendable_scr:
  assumes "spendable K n s (outpoint inp)" and "getTransactionValue s (hintKey inp) = None"
    and "kv_get K (db s) (hintKey inp) = Some scr"
  shows "staged s (hintKey inp) = None" and "length scr = 32"
    and "staged s (oKey scr (in_prevTxHash inp) (in_prevOutputIndex inp)) = None"
  using assms
  by (auto simp: spendable_def outpoint_def hintKey_def getTransactionValue_staged split: option.splits item.splits)

lemma applyOutputValues_run:
  assumes sp: "\<forall>inp \<in> set inps. spendable K n s (outpoint inp)" and c: "cache_ok K s"
  shows "applyOutputValues (missing_from (outMissing K s (stat s)) 0 inps)
      (map (kv_get K (db s)) (map (outKey K s) (filter (outMissing K s (stat s)) inps)))
      (map (outSlot K s (stat s)) inps) = map (resolve K s) inps"
proof -
  let ?P = "outMissing K s (stat s)"
  let ?is = "missing_from ?P 0 inps"
  have v: "map (kv_get K (db s)) (map (outKey K s) (filter ?P inps))
      = map (\<lambda>j. kv_get K (db s) (outKey K s (inps ! j))) ?is"
    using missing_from_keys [of "\<lambda>inp. kv_get K (db s) (outKey K s inp)" inps 0 ?P] by simp
  have one: "(if ?P inp then map_option (\<lambda>r. r\<lparr>sl_oVal := kv_get K (db s) (outKey K s inp)\<rparr>) (outSlot K s (stat s) inp)
      else outSlot K s (stat s) inp) = resolve K s inp" if "inp \<in> set inps" for inp
  proof (cases "getTransactionValue s (hintKey inp)")
    case (Some b)
    then show ?thesis
      by (simp add: outSlot_def outMissing_def hintSlot'_def resolve_def hintKey_def new_slot_def Let_def)
  next
    case None
    show ?thesis
    proof (cases "kv_get K (db s) (hintKey inp)")
      case none: None
      then show ?thesis using None
        by (simp add: outSlot_def outMissing_def hintSlot'_def resolve_def hintKey_def Let_def)
    next
      case hint: (Some scr)
      let ?ok = "oKey scr (in_prevTxHash inp) (in_prevOutputIndex inp)"
      note st = spendable_scr [OF sp [rule_format, OF that] None hint]
      have len: "length (in_prevTxHash inp) = 32"
        using sp that by (auto simp: spendable_def outpoint_def)
      have "view K s (hintKey inp) = Some scr" "view K s ?ok = kv_get K (db s) ?ok"
        using st hint by (simp_all add: view_def)
      then have "cacheHit (stat s) inp = Some v \<Longrightarrow> kv_get K (db s) ?ok = Some v" for v
        using c len unfolding cache_ok_def cacheHit_def hintKey_def by metis
      then show ?thesis using None hint
        by (cases "cacheHit (stat s) inp")
          (auto simp: outSlot_def outMissing_def hintSlot'_def resolve_def hintKey_def new_slot_def outKey_def Let_def)
    qed
  qed
  show ?thesis
    unfolding v
  proof (subst applyOutputValues_nth [OF missing_from_distinct], goal_cases)
    case 1
    then show ?case by (simp add: missing_from_mem)
  next
    case 2
    show ?case
    proof (rule nth_equalityI)
      fix j assume "j < length (map (\<lambda>j. if j \<in> set ?is
          then map_option (\<lambda>r. r\<lparr>sl_oVal := kv_get K (db s) (outKey K s (inps ! j))\<rparr>) (map (outSlot K s (stat s)) inps ! j)
          else map (outSlot K s (stat s)) inps ! j) [0..<length (map (outSlot K s (stat s)) inps)])"
      then have j: "j < length inps" by simp
      then show "map (\<lambda>j. if j \<in> set ?is
          then map_option (\<lambda>r. r\<lparr>sl_oVal := kv_get K (db s) (outKey K s (inps ! j))\<rparr>) (map (outSlot K s (stat s)) inps ! j)
          else map (outSlot K s (stat s)) inps ! j) [0..<length (map (outSlot K s (stat s)) inps)] ! j = map (resolve K s) inps ! j"
        using one [of "inps ! j"] by (auto simp: missing_from_mem split: if_split_asm)
    qed simp
  qed
qed

text \<open>
  The bulk removal of a block's inputs: it never throws, it reports the number of inputs, and
  the view it leaves is the one the single-input path leaves.
\<close>

definition spends_items :: "bytes \<Rightarrow> int \<Rightarrow> (bytes \<rightharpoonup> bytes) \<Rightarrow> (bytes \<times> u32) list \<Rightarrow> item list" where
  "spends_items h n m ops = concat (map (spend_items h n m) ops)"

lemma removeOutputsWithInputsBatch_run:
  assumes s: "open_batch s" "deletedTransactionArray s \<noteq> None" "block_staged h n s" "cache_ok K s"
    and inputs: "\<forall>inp \<in> set inputs. spendable K n s (outpoint inp) \<and> in_blockHash inp = h"
    and dist: "distinct (map outpoint inputs)"
  shows "\<exists>s'. removeOutputsWithInputsBatch K inputs s = (Inr (length inputs), s')
    \<and> view K s' = fold apply_item (spends_items h n (view K s) (map outpoint inputs)) (view K s)
    \<and> db s' = db s \<and> open_batch s' \<and> deletedTransactionArray s' \<noteq> None \<and> (staged_ok s \<longrightarrow> staged_ok s')
    \<and> fewer_cached (stat s) (stat s')
    \<and> (\<forall>k. (\<forall>inp \<in> set inputs. k \<notin> spend_keys h (outpoint inp)) \<longrightarrow> staged s' k = staged s k)"
proof (cases "inputs = []")
  case True
  then show ?thesis using s by (simp add: removeOutputsWithInputsBatch_def spends_items_def)
next
  case False
  have len: "\<forall>inp \<in> set inputs. length (in_prevTxHash inp) = 32"
    using inputs by (auto simp: spendable_def outpoint_def)
  have scr: "\<forall>inp \<in> set inputs. length (in_prevTxHash inp) = 32
      \<and> (\<forall>r. hintSlot' K s inp = Some r \<longrightarrow> \<not> sl_inMem r \<longrightarrow> length (the (sl_script r)) = 32)"
    using len inputs spendable_scr(2) by (fastforce simp: hintSlot'_def split: option.splits)
  obtain st' where q: "queueOutputLookups (stat s) inputs (map (hintSlot' K s) inputs) 0
      = (Inr (map (outSlot K s (stat s)) inputs, map (outKey K s) (filter (outMissing K s (stat s)) inputs),
              missing_from (outMissing K s (stat s)) 0 inputs), st')" and fc: "fewer_cached (stat s) st'"
    using queueOutputLookups_run [OF scr dist, of "stat s" 0] by blast
  have sp: "\<forall>inp \<in> set inputs. spendable K n s (outpoint inp)" using inputs by simp
  let ?s = "s\<lparr>stat := st'\<rparr>"
  have run: "removeOutputsWithInputsBatch K inputs s
      = mseq (mfor (zip inputs (map (resolve K ?s) inputs)) (stageSpend K)) (mret (length inputs)) ?s"
    using False
    by (simp add: removeOutputsWithInputsBatch_def queueHintLookups_run [OF len] applyHintValues_run q
        applyOutputValues_run [OF sp s(4)] mbind_def del: map_map)
  obtain s' where s': "mfor (zip inputs (map (resolve K ?s) inputs)) (stageSpend K) ?s = (Inr (), s')"
    "view K s' = fold apply_item (concat (map (\<lambda>inp. spend_items h n (view K ?s) (outpoint inp)) inputs)) (view K ?s)"
    "same_store ?s s'" "\<forall>k. (\<forall>inp \<in> set inputs. k \<notin> spend_keys h (outpoint inp)) \<longrightarrow> staged s' k = staged ?s k"
    using spend_loop_batch [of ?s h n inputs K] s inputs dist by auto
  have "removeOutputsWithInputsBatch K inputs s = (Inr (length inputs), s')"
    using s'(1) unfolding run by (simp add: mseq_run)
  moreover have "view K s' = fold apply_item (spends_items h n (view K s) (map outpoint inputs)) (view K s)"
    using s'(2) by (simp add: spends_items_def comp_def)
  moreover have "db s' = db s" "open_batch s'" "deletedTransactionArray s' \<noteq> None" "staged_ok s \<longrightarrow> staged_ok s'"
    "fewer_cached (stat s) (stat s')"
    using s'(3) s fc by (auto simp: same_store_def)
  moreover have "\<forall>k. (\<forall>inp \<in> set inputs. k \<notin> spend_keys h (outpoint inp)) \<longrightarrow> staged s' k = staged s k"
    using s'(4) by simp
  ultimately show ?thesis by blast
qed

lemma sequential_spends_run:
  assumes s: "open_batch s" "deletedTransactionArray s \<noteq> None" "block_staged h n s"
    and inputs: "\<forall>inp \<in> set inputs. spendable K n s (outpoint inp) \<and> in_blockHash inp = h"
    and dist: "distinct (map outpoint inputs)"
  shows "\<exists>s'. mfor inputs (\<lambda>inp. mseq (removeOutputWithInput K inp) (mret ())) s = (Inr (), s')
    \<and> view K s' = fold apply_item (spends_items h n (view K s) (map outpoint inputs)) (view K s)"
proof -
  have "\<exists>s'. mfor inputs (\<lambda>inp. mseq (removeOutputWithInput K inp) (mret ())) s = (Inr (), s')
    \<and> view K s' = fold apply_item (concat (map (\<lambda>x. spend_items h n (view K s) (outpoint (id x))) inputs)) (view K s)
    \<and> same_store s s' \<and> (\<forall>k. (\<forall>x \<in> set inputs. k \<notin> spend_keys h (outpoint (id x))) \<longrightarrow> staged s' k = staged s k)"
  proof (rule spend_loop [where inp = id and T = "\<lambda>s x. True"])
    fix s :: "'a store" and x t i
    assume a: "open_batch s" "deletedTransactionArray s \<noteq> None" "block_staged h n s" "spendable K n s (t, i)"
      "outpoint (id x) = (t, i)" "in_blockHash (id x) = h"
    then obtain s' where "removeOutputWithInput K x s = (Inr True, s')"
        "view K s' = fold apply_item (spend_items h n (view K s) (t, i)) (view K s)"
        "same_store s s'" "\<forall>k. k \<notin> spend_keys h (t, i) \<longrightarrow> staged s' k = staged s k"
      by (auto intro: removeOutputWithInput_run [of s h n K t i x])
    then show "\<exists>s'. mseq (removeOutputWithInput K x) (mret ()) s = (Inr (), s')
        \<and> view K s' = fold apply_item (spend_items h n (view K s) (t, i)) (view K s)
        \<and> same_store s s' \<and> (\<forall>k. k \<notin> spend_keys h (t, i) \<longrightarrow> staged s' k = staged s k)"
      by (auto simp: mseq_run)
  qed (use s inputs dist in auto)
  then show ?thesis by (auto simp: spends_items_def comp_def)
qed

end
