(* ===== verification/Cleanup.thy ===== *)
theory Cleanup
  imports Outputs
begin

text \<open>
  Undo and pruning of a block's records: \<^verbatim>\<open>src/store/level_up_db/output_cleanup.js\<close> and the
  scan-driven half of \<^verbatim>\<open>src/store/level_up_db/output_scripts.js\<close>. Each operation scans one
  prefix of the committed database and stages writes; its \<open>_run\<close> lemma gives the staged items
  as a list computed from the scan.
\<close>

subsection \<open>Mempool cleanup by hint\<close>

definition deleteOutputsByHint :: "'d kv \<Rightarrow> bytes \<Rightarrow> ('d store, nat) m" where
  "deleteOutputsByHint K txid =
     mbind (dbIter K (range_of (P_OUT_HINT # txid))) (\<lambda>es.
     mseq (mfor es (\<lambda>(key, value).
         let idxPart = slice 33 37 key; scriptPubKeyBuf = value;
             ok = P_OUTPUT # scriptPubKeyBuf @ txid @ idxPart in
         mseq (addTransaction K (Del ok None))
           (mseq (addTransaction K (Del key None)) (mret ()))))
     (mret (length es)))"

definition deleteOutputsByHints :: "'d kv \<Rightarrow> bytes list \<Rightarrow> ('d store, nat) m" where
  "deleteOutputsByHints K txids = msum txids (deleteOutputsByHint K)"

subsection \<open>Undo of spends\<close>

definition processDeletedOutputsInDb :: "'d kv \<Rightarrow> bytes \<Rightarrow> bool \<Rightarrow> bool \<Rightarrow> ('d store, unit) m" where
  "processDeletedOutputsInDb K blockHash recover processOutputHints =
     (let prefixBuf = (if processOutputHints then P_HINT_DEL else P_OUT_DEL) # blockHash in
      mbind (dbIter K (range_of prefixBuf)) (\<lambda>es.
      mfor es (\<lambda>(key, value).
        mseq (mwhen recover (
          let suffix = drop 33 key;
              restorePrefix = (if processOutputHints then P_OUT_HINT else P_OUTPUT) in
          mseq (addTransaction K (Put (restorePrefix # suffix) value)) (mret ())))
        (mseq (addTransaction K (Del key None)) (mret ())))))"

text \<open>
  The in-memory half: the undo Map of the block puts its values back into the staging Map, in
  place when the key is staged and as a fresh put otherwise. A value a Map can hold as absent
  (a staged deletion moved there) is put back as an empty one; no caller stages one.
\<close>

definition reviveStaged :: "(string \<times> bytes option) \<Rightarrow> (string \<times> item) list \<Rightarrow> (string \<times> item) list" where
  "reviveStaged e ta = (case e of (mapKey, value) \<Rightarrow>
     (case map_of ta mapKey of
        Some it \<Rightarrow> AList.update mapKey (case value of
            Some v \<Rightarrow> item_set_value v it
          | None \<Rightarrow> (case it of Put k w \<Rightarrow> Put k [] | Del k w \<Rightarrow> Del k None)) ta
      | None \<Rightarrow> AList.update mapKey (Put (fromMapKey mapKey) (case value of Some v \<Rightarrow> v | None \<Rightarrow> [])) ta))"

definition processDeletedOutputs :: "'d kv \<Rightarrow> bytes \<Rightarrow> bool \<Rightarrow> ('d store, unit) m" where
  "processDeletedOutputs K blockHash recover =
     mseq (\<lambda>s. let delMapKey = b2h blockHash in
       case deletedTransactionArray s of
         None \<Rightarrow> (Inr (), s)
       | Some da \<Rightarrow> (case map_of da delMapKey of
           None \<Rightarrow> (Inr (), s)
         | Some innerMap \<Rightarrow>
             if recover then (case transactionArray s of
                 None \<Rightarrow> if innerMap = [] then (Inr (), s\<lparr>deletedTransactionArray := Some (AList.delete delMapKey da)\<rparr>)
                         else (Inl TypeError, s)
               | Some ta \<Rightarrow> (Inr (), s\<lparr>transactionArray := Some (fold reviveStaged innerMap ta),
                                      deletedTransactionArray := Some (AList.delete delMapKey da)\<rparr>))
             else (Inr (), s\<lparr>deletedTransactionArray := Some (AList.delete delMapKey da)\<rparr>)))
     (mseq (processDeletedOutputsInDb K blockHash recover False)
       (processDeletedOutputsInDb K blockHash recover True))"

subsection \<open>Undo of creations\<close>

definition removeCreatedOutputsInBlock :: "'d kv \<Rightarrow> bytes \<Rightarrow> ('d store, unit) m" where
  "removeCreatedOutputsInBlock K blockHash =
     mbind (dbIter K (range_of (P_OUT_BLK # blockHash))) (\<lambda>es.
     mfor es (\<lambda>(key, value).
       let txidBuf = slice 33 65 key; idxBytes = slice 65 69 key; scriptBuf = value;
           ok = P_OUTPUT # scriptBuf @ txidBuf @ idxBytes;
           hk = P_OUT_HINT # txidBuf @ idxBytes in
       mseq (addTransaction K (Del ok None))
       (mseq (addTransaction K (Del hk None))
       (mseq (addTransaction K (Del key None)) (mret ())))))"

definition removeCreatedOutputsBlockIndexOnly :: "'d kv \<Rightarrow> bytes \<Rightarrow> ('d store, unit) m" where
  "removeCreatedOutputsBlockIndexOnly K blockHash =
     mbind (dbIter K (range_of (P_OUT_BLK # blockHash))) (\<lambda>es.
     mfor es (\<lambda>(key, _). mseq (addTransaction K (Del key None)) (mret ())))"

definition removeOutputScriptsInBlock :: "'d kv \<Rightarrow> bytes \<Rightarrow> ('d store, unit) m" where
  "removeOutputScriptsInBlock K blockHash =
     mbind (dbIter K (range_of (P_BLK_SCRIPT # blockHash))) (\<lambda>es.
     mseq (mfor es (\<lambda>(key, _).
       mseq (addTransaction K (Del (P_SCRIPT_BLK # drop 33 key) None))
       (mseq (addTransaction K (Del key None)) (mret ()))))
     (mwhen (length es > 0) (mmod (\<lambda>s. s\<lparr>stat := (stat s)\<lparr>knownScripts := {}\<rparr>\<rparr>))))"

definition removeOutputScriptsBlockIndexOnly :: "'d kv \<Rightarrow> bytes \<Rightarrow> ('d store, unit) m" where
  "removeOutputScriptsBlockIndexOnly K blockHash =
     mbind (dbIter K (range_of (P_BLK_SCRIPT # blockHash))) (\<lambda>es.
     mfor es (\<lambda>(key, _). mseq (addTransaction K (Del key None)) (mret ())))"

subsection \<open>Staged items\<close>

definition scan :: "'d kv \<Rightarrow> 'd store \<Rightarrow> byte \<Rightarrow> bytes \<Rightarrow> (bytes \<times> bytes) list" where
  "scan K s p h = kv_iter K (db s) (range_of (p # h))"

fun restore_items :: "byte \<Rightarrow> bool \<Rightarrow> bytes \<times> bytes \<Rightarrow> item list" where
  "restore_items p recover (k, v) = (if recover then [Put (p # drop 33 k) v] else []) @ [Del k None]"

fun uncreate_items :: "bytes \<times> bytes \<Rightarrow> item list" where
  "uncreate_items (k, v) =
     [Del (P_OUTPUT # v @ slice 33 65 k @ slice 65 69 k) None,
      Del (P_OUT_HINT # slice 33 65 k @ slice 65 69 k) None, Del k None]"

fun unscript_items :: "bytes \<times> bytes \<Rightarrow> item list" where
  "unscript_items (k, v) = [Del (P_SCRIPT_BLK # drop 33 k) None, Del k None]"

fun drop_items :: "bytes \<times> bytes \<Rightarrow> item list" where
  "drop_items (k, v) = [Del k None]"

fun unhint_items :: "bytes \<Rightarrow> bytes \<times> bytes \<Rightarrow> item list" where
  "unhint_items t (k, v) = [Del (P_OUTPUT # v @ t @ slice 33 37 k) None, Del k None]"

lemma deleteOutputsByHint_run:
  assumes "open_batch s"
  shows "deleteOutputsByHint K t s = (Inr (length (scan K s P_OUT_HINT t)),
    fold stage (concat (map (unhint_items t) (scan K s P_OUT_HINT t))) s)"
proof -
  have "mfor (scan K s P_OUT_HINT t) (\<lambda>(key, value).
         let idxPart = slice 33 37 key; scriptPubKeyBuf = value;
             ok = P_OUTPUT # scriptPubKeyBuf @ t @ idxPart in
         mseq (addTransaction K (Del ok None)) (mseq (addTransaction K (Del key None)) (mret ()))) s
     = (Inr (), fold stage (concat (map (unhint_items t) (scan K s P_OUT_HINT t))) s)"
    using assms by (intro mfor_stage) (auto simp: Let_def)
  then show ?thesis by (simp add: deleteOutputsByHint_def scan_def mseq_run)
qed

lemma processDeletedOutputsInDb_run:
  assumes "open_batch s"
  shows "processDeletedOutputsInDb K h r hints s = (Inr (), fold stage (concat (map
      (restore_items (if hints then P_OUT_HINT else P_OUTPUT) r)
      (scan K s (if hints then P_HINT_DEL else P_OUT_DEL) h))) s)"
  unfolding processDeletedOutputsInDb_def scan_def Let_def mbind_dbIter
  using assms by (intro mfor_stage) (auto simp: Let_def)

lemma processDeletedOutputs_run:
  assumes "open_batch s" and "deletedTransactionArray s = Some []"
  shows "processDeletedOutputs K h r s = (Inr (), fold stage
      (concat (map (restore_items P_OUTPUT r) (scan K s P_OUT_DEL h))
       @ concat (map (restore_items P_OUT_HINT r) (scan K s P_HINT_DEL h))) s)"
  using assms
  by (simp add: processDeletedOutputs_def processDeletedOutputsInDb_run mseq_run Let_def)
    (simp add: scan_def)

lemma removeCreatedOutputsInBlock_run:
  assumes "open_batch s"
  shows "removeCreatedOutputsInBlock K h s = (Inr (),
    fold stage (concat (map uncreate_items (scan K s P_OUT_BLK h))) s)"
  unfolding removeCreatedOutputsInBlock_def scan_def Let_def mbind_dbIter
  using assms by (intro mfor_stage) auto

lemma indexOnly_run:
  assumes "open_batch s"
  shows "removeCreatedOutputsBlockIndexOnly K h s = (Inr (),
      fold stage (concat (map drop_items (scan K s P_OUT_BLK h))) s)"
    and "removeOutputScriptsBlockIndexOnly K h s = (Inr (),
      fold stage (concat (map drop_items (scan K s P_BLK_SCRIPT h))) s)"
  unfolding removeCreatedOutputsBlockIndexOnly_def removeOutputScriptsBlockIndexOnly_def scan_def mbind_dbIter
  using assms by (intro mfor_stage; auto)+

lemma removeOutputScriptsInBlock_run:
  assumes "open_batch s"
  shows "removeOutputScriptsInBlock K h s = (Inr (),
    let s' = fold stage (concat (map unscript_items (scan K s P_BLK_SCRIPT h))) s in
    if scan K s P_BLK_SCRIPT h = [] then s' else s'\<lparr>stat := (stat s)\<lparr>knownScripts := {}\<rparr>\<rparr>)"
proof -
  have "mfor (scan K s P_BLK_SCRIPT h) (\<lambda>(key, _).
       mseq (addTransaction K (Del (P_SCRIPT_BLK # drop 33 key) None))
       (mseq (addTransaction K (Del key None)) (mret ()))) s
     = (Inr (), fold stage (concat (map unscript_items (scan K s P_BLK_SCRIPT h))) s)"
    using assms by (intro mfor_stage) auto
  then show ?thesis by (simp add: removeOutputScriptsInBlock_def scan_def mseq_run Let_def)
qed

text \<open>A scan of one prefix byte and block hash meets exactly the stored keys that start so.\<close>

context leveldb
begin

lemma scan_mem:
  assumes "\<And>k. kv_get K (db s) k \<noteq> None \<Longrightarrow> length k \<le> MAX_KEY_LEN"
  shows "(k, v) \<in> set (scan K s p h) \<longleftrightarrow> kv_get K (db s) k = Some v \<and> prefix (p # h) k"
  using assms in_range_of_short [of k "p # h"] by (auto simp: scan_def iter_mem)

end

end
