(* ===== verification/Tracker.thy ===== *)
theory Tracker
  imports Complex_Main Cleanup
begin

text \<open>
  The tracker's own state and the two halves of indexing a block: parsing its transactions into
  the store (\<^verbatim>\<open>src/XChainUtxoTracker/transaction_parsing.js\<close>, \<open>stageBlock\<close>,
  \<open>parseBlockTransactions\<close> and the flush in \<^verbatim>\<open>sync_loop_block_apply.js\<close>) and keeping the undo
  window (\<^verbatim>\<open>src/XChainUtxoTracker/last_blocks_window.js\<close>). SHA-256 and the decoded transactions
  come from libraries: \<open>sha\<close> is a parameter and a transaction is a record of what the code
  reads of it.
\<close>

subsection \<open>Transactions and blocks\<close>

record txin =
  ti_hash :: bytes
  ti_index :: u32
  ti_standard_input :: "bool option"

record txout =
  to_script :: bytes
  to_value :: int

record tx =
  tx_id :: bytes
  tx_ins :: "txin list"
  tx_outs :: "txout list"

record block =
  bl_timestamp :: int
  bl_prevHash :: bytes
  bl_transactions :: "tx list"

definition COINBASE_INDEX :: u32 where "COINBASE_INDEX = 4294967295"

definition isCoinbaseTransaction :: "tx \<Rightarrow> bool" where
  "isCoinbaseTransaction t \<longleftrightarrow> (case tx_ins t of [i] \<Rightarrow> ti_index i = COINBASE_INDEX | _ \<Rightarrow> False)"

text \<open>An input is traced unless it is a coinbase input or marked as not standard.\<close>

definition traced :: "txin \<Rightarrow> bool" where
  "traced i \<longleftrightarrow> \<not> (ti_index i = COINBASE_INDEX
     \<or> \<not> (case ti_standard_input i of None \<Rightarrow> True | Some b \<Rightarrow> b))"

definition prevTxHash :: "txin \<Rightarrow> bytes" where
  "prevTxHash i = rev (ti_hash i)"

subsection \<open>Parsing a transaction\<close>

definition parseTransactionInputs ::
  "'d kv \<Rightarrow> tx \<Rightarrow> bytes option \<Rightarrow> bytes \<Rightarrow> bool \<Rightarrow> bool \<Rightarrow> ('d store, nat) m" where
  "parseTransactionInputs K transaction blockHash nextTxId addHints removeSpent =
     msum (tx_ins transaction) (\<lambda>nextInput.
       if \<not> traced nextInput then mret 0
       else
         let inp = \<lparr>in_txHash = nextTxId, in_prevTxHash = prevTxHash nextInput,
                    in_prevOutputIndex = ti_index nextInput,
                    in_blockHash = (case blockHash of None \<Rightarrow> [] | Some h \<Rightarrow> h)\<rparr> in
         mseq (if removeSpent then removeOutputWithInput K inp else insertInput K inp)
         (mseq (mwhen addHints (mseq (insertInputHint K inp) (mret ())))
         (mret 1)))"

definition output_of :: "script \<Rightarrow> bytes \<Rightarrow> nat \<Rightarrow> txout \<Rightarrow> int \<Rightarrow> bool \<Rightarrow> output_in" where
  "output_of scr txid i out height cb =
     \<lparr>oi_scriptPubKey = scr, oi_txHash = txid, oi_outputIndex = of_nat i, oi_value = to_value out,
      oi_height = Some height, oi_fullTxHash = Some txid, oi_coinbase = cb\<rparr>"

definition parseOutput ::
  "'d kv \<Rightarrow> script \<Rightarrow> bytes \<Rightarrow> bytes option \<Rightarrow> int \<Rightarrow> bool \<Rightarrow> bool \<Rightarrow> nat \<times> txout \<Rightarrow> ('d store, unit) m" where
  "parseOutput K scr txid blockHash blockHeight cb index p = (case p of (i, out) \<Rightarrow>
     mseq (insertOutput K (output_of scr txid i out blockHeight cb))
     (mwhen index
       (mseq (insertOutputHint K scr txid (of_nat i))
       (mseq (insertOutputScriptBlock K scr blockHash blockHeight)
       (mseq (insertOutputBlock K scr txid (of_nat i) blockHash) (mret ()))))))"

definition parseTransactionOutputs ::
  "'d kv \<Rightarrow> (bytes \<Rightarrow> bytes) \<Rightarrow> tx \<Rightarrow> bytes option \<Rightarrow> int \<Rightarrow> bytes \<Rightarrow> bool \<Rightarrow> bool \<Rightarrow> bool \<Rightarrow> ('d store, unit) m" where
  "parseTransactionOutputs K sha transaction blockHash blockHeight nextTxId isCoinbase addHints removeSpent =
     mfor (enumerate 0 (tx_outs transaction)) (\<lambda>p.
       parseOutput K (Hex (sha (to_script (snd p)))) nextTxId blockHash blockHeight isCoinbase
         (addHints \<or> removeSpent) p)"

definition parseTransaction ::
  "'d kv \<Rightarrow> (bytes \<Rightarrow> bytes) \<Rightarrow> tx \<Rightarrow> bytes option \<Rightarrow> int \<Rightarrow> bool \<Rightarrow> bool \<Rightarrow> ('d store, nat \<times> nat) m" where
  "parseTransaction K sha transaction blockHash blockHeight addHints removeSpent =
     mseq (mwhen (\<not> removeSpent) (mseq (insertTransaction K (tx_id transaction) blockHash) (mret ())))
     (mbind (parseTransactionInputs K transaction blockHash (tx_id transaction) addHints removeSpent) (\<lambda>inputsCount.
      mseq (parseTransactionOutputs K sha transaction blockHash blockHeight (tx_id transaction)
              (isCoinbaseTransaction transaction) addHints removeSpent)
      (mret (inputsCount, length (tx_outs transaction)))))"

definition parseTxOutputs ::
  "'d kv \<Rightarrow> (bytes \<Rightarrow> bytes) \<Rightarrow> tx \<Rightarrow> bytes option \<Rightarrow> int \<Rightarrow> bool \<Rightarrow> bool \<Rightarrow> ('d store, nat) m" where
  "parseTxOutputs K sha transaction blockHash blockHeight addHints removeSpent =
     mseq (mwhen (\<not> removeSpent) (mseq (insertTransaction K (tx_id transaction) blockHash) (mret ())))
     (mseq (mfor (enumerate 0 (tx_outs transaction)) (\<lambda>p.
        parseOutput K (Buf (sha (to_script (snd p)))) (tx_id transaction) blockHash blockHeight
          (isCoinbaseTransaction transaction) (addHints \<or> removeSpent) p))
     (mret (length (tx_outs transaction))))"

definition parseTxInputs :: "'d kv \<Rightarrow> tx \<Rightarrow> bytes option \<Rightarrow> bool \<Rightarrow> bool \<Rightarrow> ('d store, nat) m" where
  "parseTxInputs K transaction blockHash addHints removeSpent =
     parseTransactionInputs K transaction blockHash (tx_id transaction) addHints removeSpent"

text \<open>The inputs of a block that are removed in one bulk call.\<close>

definition removeInputs :: "bytes \<Rightarrow> tx list \<Rightarrow> input_in list" where
  "removeInputs blockHash transactions =
     concat (map (\<lambda>t. map (\<lambda>i. \<lparr>in_txHash = tx_id t, in_prevTxHash = prevTxHash i,
                                in_prevOutputIndex = ti_index i, in_blockHash = blockHash\<rparr>)
                          (filter traced (tx_ins t))) transactions)"

definition parseBlockTransactions ::
  "'d kv \<Rightarrow> (bytes \<Rightarrow> bytes) \<Rightarrow> tx list \<Rightarrow> bytes \<Rightarrow> int \<Rightarrow> ('d store, nat \<times> nat) m" where
  "parseBlockTransactions K sha transactions nextBlockHash nextBlockHeight =
     mbind (msum transactions (\<lambda>t.
        mseq (insertTransaction K (tx_id t) (Some nextBlockHash))
          (parseTxOutputs K sha t (Some nextBlockHash) nextBlockHeight False True))) (\<lambda>outputCount.
     let inputs = removeInputs nextBlockHash transactions in
     mseq (mwhen (length inputs > 0) (mseq (removeOutputsWithInputsBatch K inputs) (mret ())))
     (mret (outputCount, length inputs)))"

subsection \<open>The tracker's state\<close>

text \<open>
  \<open>chain_info\<close> is what the code reads of a getblockchaininfo reply; a fetched block is its hash and
  bytes, or a fault that says whether the AuxPoW strip was at fault. \<open>sync\<close> is the sync loop's
  working state: cursor, batch counters, prefetch queue, latches and failure streaks. The confirmed and the mempool store share the
  class statics, which live in the confirmed store here. \<open>node\<close> is the state of the node
  behind the RPC connector.
\<close>

record chain_info =
  ci_blocks :: int
  ci_progress :: "rat option"
  ci_ibd :: bool
  ci_best :: "bytes option"

type_synonym fetched = "bool + bytes \<times> bytes"

record sync =
  blocksQuantity :: int
  blocksCount :: nat
  transactionsCount :: nat
  inputsCount :: nat
  outputsCount :: nat
  lastProcessedBlockIndex :: int
  lastProcessedBlockHash :: "bytes option"
  pendingMempoolTxCleanup :: "bytes list"
  lastBlockchainInfo :: "chain_info option"
  lastBlockchainInfoRefreshAt :: nat
  blockTimestamps :: "(int \<times> nat \<times> nat) list"
  prefetchQueue :: "(int \<times> fetched) list"
  nodeSyncedProblem :: bool
  nodeCatchingUpProblem :: bool
  tipBelowCommittedTipRefused :: bool
  blockFetchFailures :: nat
  blockFetchFailureHeight :: "int option"
  auxPowParseFailures :: nat
  auxPowParseFailureHeight :: "int option"

text \<open>\<open>mempoolPolling\<close>: the mempool interval timer is set. \<open>regtest\<close>: the consensus network is regtest.\<close>

record ('d, 'n) tracker =
  confirmed :: "'d store"
  mempool :: "'d store"
  node :: 'n
  lastBlocks :: "bytes list"
  undoBlocks :: nat
  pendingKMCleanup :: "bytes list"
  undoWindowWatermark :: nat
  undoWindowWatermarkPersisted :: "nat option"
  reorgCount :: nat
  lastReorgDepth :: nat
  reorgRollbacksThisProcess :: nat
  lastCommittedHeight :: "int option"
  mempoolEpoch :: nat
  sync_loop :: sync
  synced :: bool
  mempoolReconverged :: bool
  mempoolPolling :: bool
  mempoolBusy :: bool
  blockchainInfoLastBlock :: int
  latestKnownChainTip :: "int option"
  nodeCatchingUp :: "(int \<times> int \<times> string) option"
  lastNodeRpcOkAt :: nat
  keepParsing :: bool
  parsingStopped :: bool
  parsingAborted :: bool
  halted :: bool
  haltReason :: "string option"
  haltedAt :: "string option"
  haltedHeight :: "int option"
  blockFetchDesync :: "(int \<times> nat) option"
  mempoolRpcFailures :: nat
  auxPow :: bool
  regtest :: bool
  coinbaseMaturity :: int

definition on_db :: "('d store, 'a) m \<Rightarrow> (('d, 'n) tracker, 'a) m" where
  "on_db f T = (case f (confirmed T) of (r, s) \<Rightarrow> (r, T\<lparr>confirmed := s\<rparr>))"

definition on_mempool :: "('d store, 'a) m \<Rightarrow> (('d, 'n) tracker, 'a) m" where
  "on_mempool f T = (case f ((mempool T)\<lparr>stat := stat (confirmed T)\<rparr>) of
     (r, s) \<Rightarrow> (r, T\<lparr>mempool := s, confirmed := (confirmed T)\<lparr>stat := stat s\<rparr>\<rparr>))"

lemma keeps_on_db [keeps_intros]: "(\<And>T s. p (T\<lparr>confirmed := s\<rparr>) = p T) \<Longrightarrow> keeps p (on_db f)"
  by (simp add: keeps_def on_db_def split: prod.split)

subsection \<open>The undo window\<close>

text \<open>\<open>JSON.stringify\<close> of an array of hex strings.\<close>

fun jsonHashes_from :: "bytes list \<Rightarrow> string" where
  "jsonHashes_from [] = []"
| "jsonHashes_from [h] = [CHR 0x22] @ b2h h @ [CHR 0x22]"
| "jsonHashes_from (h # hs) = [CHR 0x22] @ b2h h @ [CHR 0x22] @ '','' @ jsonHashes_from hs"

definition jsonHashes :: "bytes list \<Rightarrow> bytes" where
  "jsonHashes hs = utf8 (''['' @ jsonHashes_from hs @ '']'')"

definition recordUndoWindowWatermark :: "'d kv \<Rightarrow> (('d, 'n) tracker, unit) m" where
  "recordUndoWindowWatermark K T =
     (let depth = min (length (lastBlocks T)) (undoBlocks T);
          w = (if depth > undoWindowWatermark T then depth else undoWindowWatermark T);
          T1 = T\<lparr>undoWindowWatermark := w\<rparr> in
      if undoWindowWatermarkPersisted T1 = Some w then (Inr (), T1)
      else mseq (on_db (addTransaction K (Put Q_UNDO_WATERMARK_KEY (utf8 (dec w))))) (mret ())
             (T1\<lparr>undoWindowWatermarkPersisted := Some w\<rparr>))"

text \<open>Shifts hashes out of the window until it fits, dropping their in-memory undo Maps.\<close>

fun ageOut ::
  "nat \<Rightarrow> bytes list \<Rightarrow> (string \<times> (string \<times> bytes option) list) list option \<Rightarrow> bytes list
   \<Rightarrow> bytes list \<times> (string \<times> (string \<times> bytes option) list) list option \<times> bytes list" where
  "ageOut undo [] da pending = ([], da, pending)"
| "ageOut undo (h # lb) da pending =
     (if length (h # lb) > undo
      then ageOut undo lb (map_option (AList.delete (b2h h)) da) (pending @ [h])
      else (h # lb, da, pending))"

definition addToLastBlocks :: "'d kv \<Rightarrow> bytes \<Rightarrow> (('d, 'n) tracker, unit) m" where
  "addToLastBlocks K blockHash =
     mseq (mmod (\<lambda>T. T\<lparr>lastBlocks := lastBlocks T @ [blockHash]\<rparr>))
     (mseq (on_db (addLastStoredBlock K blockHash))
     (mseq (mmod (\<lambda>T. case ageOut (undoBlocks T) (lastBlocks T) (deletedTransactionArray (confirmed T)) (pendingKMCleanup T) of
         (lb, da, pending) \<Rightarrow> T\<lparr>lastBlocks := lb, pendingKMCleanup := pending,
            confirmed := (confirmed T)\<lparr>deletedTransactionArray := da\<rparr>\<rparr>))
     (recordUndoWindowWatermark K)))"

definition loadUndoWindowWatermark :: "'d kv \<Rightarrow> (('d, 'n) tracker, nat) m" where
  "loadUndoWindowWatermark K T =
     (let stored = (case kv_get K (db (confirmed T)) Q_UNDO_WATERMARK_KEY of
            None \<Rightarrow> 0
          | Some raw \<Rightarrow> (case parseInt10 (buf_text raw) of None \<Rightarrow> 0 | Some p \<Rightarrow> if p > 0 then nat p else 0));
          w = min stored (undoBlocks T) in
      (Inr w, T\<lparr>undoWindowWatermarkPersisted := (if stored > 0 then Some stored else None),
               undoWindowWatermark := w\<rparr>))"

definition pruneAgedBlockRecords :: "'d kv \<Rightarrow> bytes \<Rightarrow> ('d store, unit) m" where
  "pruneAgedBlockRecords K blockHash =
     mseq (processDeletedOutputs K blockHash False)
     (mseq (removeLastStoredBlock K blockHash)
     (mseq (removeCreatedOutputsBlockIndexOnly K blockHash)
     (mseq (removeOutputScriptsBlockIndexOnly K blockHash)
     (removeTxBlockRecoveryIndexOnly K blockHash))))"

text \<open>What to clean: hashes outside the live window, each once, in order.\<close>

fun toClean :: "bytes list \<Rightarrow> bytes set \<Rightarrow> bytes list \<Rightarrow> bytes list" where
  "toClean live seen [] = []"
| "toClean live seen (h # hs) =
     (if h \<in> set live then toClean live seen hs
      else if h \<in> seen then toClean live seen hs
      else h # toClean live (insert h seen) hs)"

definition cleanupAgedBlocks :: "'d kv \<Rightarrow> (('d, 'n) tracker, unit) m" where
  "cleanupAgedBlocks K = mbind (mget (\<lambda>T. T)) (\<lambda>T.
     if pendingKMCleanup T = [] then mret ()
     else
       mseq (on_db beginTransaction)
       (mseq (mfor (toClean (lastBlocks T) {} (pendingKMCleanup T)) (\<lambda>h. on_db (pruneAgedBlockRecords K h)))
       (mseq (on_db (addTransaction K (Del P_PENDING_CLEANUP_KEY None)))
       (mseq (on_db (endTransaction K True))
       (mmod (\<lambda>T. T\<lparr>pendingKMCleanup := []\<rparr>))))))"

fun withHeight :: "'d kv \<Rightarrow> bytes list \<Rightarrow> ('d store, (bytes \<times> int) list) m" where
  "withHeight K [] = mret []"
| "withHeight K (hash # hs) =
     mbind (getBlock K hash) (\<lambda>blk.
     mbind (withHeight K hs) (\<lambda>rest.
     mret ((hash, case blk of None \<Rightarrow> - 1 | Some r \<Rightarrow> blk_h r) # rest)))"

definition loadLastBlocksSortedByHeight :: "'d kv \<Rightarrow> ('d store, bytes list) m" where
  "loadLastBlocksSortedByHeight K =
     mbind (getLastStoredBlocks K) (\<lambda>storedHashes.
     mbind (withHeight K storedHashes) (\<lambda>wh. mret (map fst (sort_key snd wh))))"

definition reloadLastBlocks :: "'d kv \<Rightarrow> (('d, 'n) tracker, unit) m" where
  "reloadLastBlocks K =
     mbind (on_db (loadLastBlocksSortedByHeight K)) (\<lambda>lb. mmod (\<lambda>T. T\<lparr>lastBlocks := lb\<rparr>))"

definition persistPendingCleanup :: "'d kv \<Rightarrow> (('d, 'n) tracker, unit) m" where
  "persistPendingCleanup K = mbind (mget pendingKMCleanup) (\<lambda>pending.
     mwhen (length pending > 0) (on_db (dbWrite K (Put P_PENDING_CLEANUP_KEY (jsonHashes pending)))))"

definition discardInflightBatchForReorg :: "'d kv \<Rightarrow> int \<Rightarrow> (('d, 'n) tracker, bool) m" where
  "discardInflightBatchForReorg K quantity =
     (if quantity \<le> 0 then mret False
      else
        mseq (on_db (endTransaction K False))
        (mseq (persistPendingCleanup K)
        (mseq (reloadLastBlocks K) (mret True))))"

definition indexOf :: "'a \<Rightarrow> 'a list \<Rightarrow> nat" where
  "indexOf x xs = length (takeWhile (\<lambda>y. y \<noteq> x) xs)"

definition REBUILD_REMEDY :: string where
  "REBUILD_REMEDY = ''This index cannot be walked back onto the node's chain and has to be rebuilt. Under ''
     @ ''xchain-node run `xchain-node reset xchain-utxo-tracker <coin> <network>`, which drops the ''
     @ ''volume and takes the bulk-sync path; standalone, stop the tracker, empty its data ''
     @ ''directory and restart it. Restoring the same bootstrap again lands back here if its tip ''
     @ ''is the drifted one.''"

definition emptyWindowMessage :: string where
  "emptyWindowMessage = ''Can't delete a block from 'last blocks': list is empty (reorg exceeds tracked window). ''
     @ REBUILD_REMEDY"

definition prunedBlockMessage :: "bytes \<Rightarrow> string" where
  "prunedBlockMessage blockHash = ''Can't roll back block '' @ b2h blockHash
     @ '': it is not in the undo window, so its spent-output recovery records are gone. '' @ REBUILD_REMEDY"

definition isUnrecoverableReorg :: "error \<Rightarrow> bool" where
  "isUnrecoverableReorg err = (case err of UnrecoverableReorg _ \<Rightarrow> True | _ \<Rightarrow> False)"

definition removeFromLastBlocks :: "'d kv \<Rightarrow> bytes \<Rightarrow> (('d, 'n) tracker, unit) m" where
  "removeFromLastBlocks K blockHash = mbind (mget lastBlocks) (\<lambda>lb.
     if length lb = 0 then mthrow (UnrecoverableReorg emptyWindowMessage)
     else
       mseq (mwhen (blockHash \<notin> set lb) (reloadLastBlocks K))
       (mbind (mget lastBlocks) (\<lambda>lb.
        if blockHash \<notin> set lb then mthrow (UnrecoverableReorg (prunedBlockMessage blockHash))
        else if indexOf blockHash lb = length lb - 1
        then mseq (mmod (\<lambda>T. T\<lparr>lastBlocks := butlast lb\<rparr>))
               (mseq (on_db (removeLastStoredBlock K blockHash)) (mret ()))
        else mthrow NotLastBlock)))"

definition commitLastBlockPointerRepair :: "'d kv \<Rightarrow> bytes \<Rightarrow> int \<Rightarrow> (('d, 'n) tracker, unit) m" where
  "commitLastBlockPointerRepair K hash height =
     mseq (on_db beginTransaction)
     (mseq (on_db (setLastBlockHash K hash))
     (mseq (on_db (setLastBlockHeight K height))
     (on_db (endTransaction K True))))"

subsection \<open>Staging and flushing a block\<close>

definition stageBlock ::
  "'d kv \<Rightarrow> (bytes \<Rightarrow> bytes) \<Rightarrow> block \<Rightarrow> bytes \<Rightarrow> int \<Rightarrow> bytes \<Rightarrow> (('d, 'n) tracker, unit) m" where
  "stageBlock K sha block nextBlockHash nextBlockHeight previousBlockHash =
     mseq (mbind (mget (\<lambda>T. blocksQuantity (sync_loop T) = 0)) (\<lambda>first. mwhen first (on_db beginTransaction)))
     (mseq (on_db (insertBlock K \<lparr>bi_hash = nextBlockHash, bi_height = nextBlockHeight,
              bi_timestamp = bl_timestamp block, bi_previousHash = previousBlockHash\<rparr>))
     (mseq (mmod (\<lambda>T. T\<lparr>sync_loop := (sync_loop T)\<lparr>blocksCount := blocksCount (sync_loop T) + 1\<rparr>\<rparr>))
     (mbind (on_db (parseBlockTransactions K sha (bl_transactions block) nextBlockHash nextBlockHeight)) (\<lambda>(outs, ins).
      mseq (mmod (\<lambda>T. T\<lparr>sync_loop := (sync_loop T)\<lparr>
          transactionsCount := transactionsCount (sync_loop T) + length (bl_transactions block),
          outputsCount := outputsCount (sync_loop T) + outs,
          inputsCount := inputsCount (sync_loop T) + ins,
          pendingMempoolTxCleanup := pendingMempoolTxCleanup (sync_loop T) @ map tx_id (bl_transactions block)\<rparr>\<rparr>))
      (addToLastBlocks K nextBlockHash)))))"

definition DB_TRANSACTION_BLOCKS_QUANTITY :: int where "DB_TRANSACTION_BLOCKS_QUANTITY = 200"

datatype flush_reason = FlushTip | FlushBatchFull | FlushHeapPressure

definition flushTrigger :: "sync \<Rightarrow> int \<Rightarrow> int \<Rightarrow> bool \<Rightarrow> flush_reason option" where
  "flushTrigger sy nextBlockHeight tip heapPressure =
     (if nextBlockHeight = tip then Some FlushTip
      else if blocksQuantity sy = DB_TRANSACTION_BLOCKS_QUANTITY - 1 then Some FlushBatchFull
      else if heapPressure then Some FlushHeapPressure
      else None)"

definition advanceCursor :: "bytes \<Rightarrow> int \<Rightarrow> (('d, 'n) tracker, unit) m" where
  "advanceCursor nextBlockHash nextBlockHeight = mmod (\<lambda>T. T\<lparr>sync_loop := (sync_loop T)\<lparr>
     blocksQuantity := blocksQuantity (sync_loop T) + 1,
     lastProcessedBlockIndex := nextBlockHeight, lastProcessedBlockHash := Some nextBlockHash\<rparr>\<rparr>)"

text \<open>
  The commit and the mempool cleanup of the mined transactions are one section under the
  store-commit lock; the wait for an in-flight mempool pass ends before the section.
\<close>

definition commitWithMempoolCleanup :: "'d kv \<Rightarrow> int \<Rightarrow> (('d, 'n) tracker, unit) m" where
  "commitWithMempoolCleanup K nextBlockHeight = mbind (mget (\<lambda>T. pendingMempoolTxCleanup (sync_loop T))) (\<lambda>cleanupTxids.
     mseq (on_db (endTransaction K True))
     (mseq (mmod (\<lambda>T. T\<lparr>lastCommittedHeight := Some nextBlockHeight\<rparr>))
     (mwhen (length cleanupTxids > 0)
       (mseq (on_mempool beginTransaction)
       (mseq (mfor cleanupTxids (\<lambda>txid. on_mempool
           (mseq (deleteOutputsByHint K txid)
           (mseq (deleteInputsByHint K txid)
           (mseq (deleteTransaction K txid) (mret ()))))))
       (mseq (on_mempool (endTransaction K True))
       (mmod (\<lambda>T. T\<lparr>mempoolEpoch := mempoolEpoch T + 1,
          sync_loop := (sync_loop T)\<lparr>pendingMempoolTxCleanup := []\<rparr>\<rparr>))))))))"

definition flushBatch :: "'d kv \<Rightarrow> bytes \<Rightarrow> int \<Rightarrow> (('d, 'n) tracker, unit) m" where
  "flushBatch K nextBlockHash nextBlockHeight =
     mseq (on_db (setLastBlockHeight K nextBlockHeight))
     (mseq (on_db (setLastBlockHash K nextBlockHash))
     (mbind (mget pendingKMCleanup) (\<lambda>pending.
      mseq (mwhen (length pending > 0)
        (mseq (on_db (addTransaction K (Put P_PENDING_CLEANUP_KEY (jsonHashes pending)))) (mret ())))
      (mseq (commitWithMempoolCleanup K nextBlockHeight)
      (cleanupAgedBlocks K)))))"

text \<open>After a flush: the log line's counters, the ETA window and the batch counters start again.\<close>

definition ETA_WINDOW_BLOCKS :: int where "ETA_WINDOW_BLOCKS = 1000"

definition logBatchTiming :: "(('d, 'n) tracker, unit) m" where
  "logBatchTiming = mmod (\<lambda>T. T\<lparr>confirmed := (confirmed T)\<lparr>stat := (stat (confirmed T))
     \<lparr>knownScriptsHits := 0, knownScriptsMisses := 0\<rparr>\<rparr>\<rparr>)"

fun trimWindow :: "int \<Rightarrow> (int \<times> nat \<times> nat) list \<Rightarrow> (int \<times> nat \<times> nat) list" where
  "trimWindow h (x # y # ts) =
     (if h - fst x > ETA_WINDOW_BLOCKS then trimWindow h (y # ts) else x # y # ts)"
| "trimWindow h ts = ts"

definition recordSyncProgress :: "int \<Rightarrow> nat \<Rightarrow> (('d, 'n) tracker, unit) m" where
  "recordSyncProgress nextBlockHeight now = mmod (\<lambda>T. T\<lparr>sync_loop := (sync_loop T)\<lparr>
     blockTimestamps := trimWindow nextBlockHeight
       (blockTimestamps (sync_loop T) @ [(nextBlockHeight, now, transactionsCount (sync_loop T))]),
     blocksCount := 0, transactionsCount := 0, inputsCount := 0, outputsCount := 0\<rparr>\<rparr>)"

definition finishFlushedBlock :: "bytes \<Rightarrow> int \<Rightarrow> nat \<Rightarrow> (('d, 'n) tracker, unit) m" where
  "finishFlushedBlock nextBlockHash nextBlockHeight now =
     mseq logBatchTiming
     (mseq (recordSyncProgress nextBlockHeight now)
     (mseq (mmod (\<lambda>T. T\<lparr>sync_loop := (sync_loop T)\<lparr>blocksQuantity := - 1\<rparr>\<rparr>))
       (advanceCursor nextBlockHash nextBlockHeight)))"

end
