(* ===== verification/Blocks.thy ===== *)
theory Blocks
  imports Tracker
begin

text \<open>
  What staging a block does to the view of the store. The writes of a block are an explicit list
  of items computed from the view before it: the creations (transaction, output and first-seen
  records) and then the spends. The invariant \<open>fwd_inv\<close> is what the sync loop's open batch
  maintains between blocks; under it a well-formed block is staged without an error.
\<close>

subsection \<open>Events of a block\<close>

datatype event = ETx bytes | EOut bytes u32 bytes bytes

text \<open>The bytes an output record is stored as.\<close>

definition outRecord :: "int \<Rightarrow> int \<Rightarrow> bytes \<Rightarrow> bool \<Rightarrow> bytes" where
  "outRecord value n t cb = be 8 (nat value) @ be 4 (nat n) @ t @ (if cb then [1] else [])"

definition tx_events :: "(bytes \<Rightarrow> bytes) \<Rightarrow> int \<Rightarrow> tx \<Rightarrow> event list" where
  "tx_events sha n t = ETx (tx_id t) # map (\<lambda>(i, out).
     EOut (tx_id t) (of_nat i) (sha (to_script out))
       (outRecord (to_value out) n (tx_id t) (isCoinbaseTransaction t))) (enumerate 0 (tx_outs t))"

definition block_events :: "(bytes \<Rightarrow> bytes) \<Rightarrow> int \<Rightarrow> tx list \<Rightarrow> event list" where
  "block_events sha n txs = concat (map (tx_events sha n) txs)"

fun event_items :: "bytes \<Rightarrow> int \<Rightarrow> (bytes \<rightharpoonup> bytes) \<Rightarrow> event \<Rightarrow> item list" where
  "event_items h n m (ETx t) = [Put (tKey t) (h @ t), Put (xKey t) h, Put (yKey h t) t]"
| "event_items h n m (EOut t i scr v) =
     [Put (oKey scr t i) v, Put (hKey t i) scr]
     @ (if m (sKey scr) = None then [Put (sKey scr) (be 4 (nat n)), Put (zKey h scr) []] else [])
     @ [Put (wKey h t i) scr]"

fun create_items :: "bytes \<Rightarrow> int \<Rightarrow> (bytes \<rightharpoonup> bytes) \<Rightarrow> event list \<Rightarrow> item list" where
  "create_items h n m [] = []"
| "create_items h n m (e # es) =
     event_items h n m e @ create_items h n (fold apply_item (event_items h n m e) m) es"

subsection \<open>The invariant of an open batch\<close>

definition scripts_ok :: "'d kv \<Rightarrow> 'd store \<Rightarrow> bool" where
  "scripts_ok K s \<longleftrightarrow> (\<forall>b. length b = 32 \<longrightarrow>
     (toMapKey b \<in> knownScripts (stat s) \<longrightarrow> view K s (sKey b) \<noteq> None)
     \<and> (\<forall>k v. staged s (sKey b) \<noteq> Some (Del k v)))"

definition outputs_ok :: "'d kv \<Rightarrow> int \<Rightarrow> 'd store \<Rightarrow> bool" where
  "outputs_ok K n s \<longleftrightarrow> (\<forall>t i. length t = 32 \<longrightarrow> (case staged s (hKey t i) of
       Some (Put k scr) \<Rightarrow> length scr = 32 \<and> kv_get K (db s) (hKey t i) = None
         \<and> kv_get K (db s) (oKey scr t i) = None
         \<and> (\<exists>k' v o1. staged s (oKey scr t i) = Some (Put k' v) \<and> decodeOutput v = Inr o1 \<and> 0 \<le> out_h o1)
     | Some (Del k v) \<Rightarrow> True
     | None \<Rightarrow> (case kv_get K (db s) (hKey t i) of
         None \<Rightarrow> True
       | Some scr \<Rightarrow> length scr = 32 \<and> staged s (oKey scr t i) = None
           \<and> (case kv_get K (db s) (oKey scr t i) of None \<Rightarrow> True | Some v \<Rightarrow> created_before v n))))"

definition fwd_inv :: "'d kv \<Rightarrow> int \<Rightarrow> 'd store \<Rightarrow> bool" where
  "fwd_inv K n s \<longleftrightarrow> open_batch s \<and> deletedTransactionArray s \<noteq> None \<and> staged_ok s
     \<and> outputs_ok K n s \<and> cache_ok K s \<and> scripts_ok K s"

lemma outputs_ok_spendable:
  assumes "outputs_ok K n s" and "length t = 32" and "view K s (hKey t i) \<noteq> None"
  shows "spendable K n s (t, i)"
proof -
  have a: "case staged s (hKey t i) of
       Some (Put k scr) \<Rightarrow> length scr = 32 \<and> kv_get K (db s) (hKey t i) = None
         \<and> kv_get K (db s) (oKey scr t i) = None
         \<and> (\<exists>k' v o1. staged s (oKey scr t i) = Some (Put k' v) \<and> decodeOutput v = Inr o1 \<and> 0 \<le> out_h o1)
     | Some (Del k v) \<Rightarrow> True
     | None \<Rightarrow> (case kv_get K (db s) (hKey t i) of
         None \<Rightarrow> True
       | Some scr \<Rightarrow> length scr = 32 \<and> staged s (oKey scr t i) = None
           \<and> (case kv_get K (db s) (oKey scr t i) of None \<Rightarrow> True | Some v \<Rightarrow> created_before v n))"
    using assms(1,2) by (simp add: outputs_ok_def)
  with assms(2,3) show ?thesis
    by (auto simp: spendable_def view_def split: option.splits item.splits)
qed

subsection \<open>One output\<close>

lemma outRecord_encode:
  "0 \<le> value \<Longrightarrow> value \<le> 18446744073709551615 \<Longrightarrow> 0 \<le> n \<Longrightarrow> n \<le> 2147483647 \<Longrightarrow> length t = 32
   \<Longrightarrow> encodeOutput value (Some n) (Some t) cb = Inr (outRecord value n t cb)"
  by (auto simp: encodeOutput_def writeBigUInt64BE_def writeInt32BE_def outRecord_def)

lemma outRecord_decode:
  assumes "0 \<le> value" "value \<le> 18446744073709551615" "0 \<le> n" "n \<le> 2147483647" "length t = 32"
  shows "\<exists>o1. decodeOutput (outRecord value n t cb) = Inr o1 \<and> out_h o1 = n \<and> out_v o1 = value"
  using decode_encode_output [OF outRecord_encode [OF assms]] by (simp add: output_norm_def)

lemma outRecord_not_before:
  assumes "0 \<le> value" "value \<le> 18446744073709551615" "0 \<le> n" "n \<le> 2147483647" "length t = 32"
  shows "\<not> created_before (outRecord value n t cb) n"
  using outRecord_decode [OF assms, of cb] by (auto simp: created_before_def)

text \<open>The statics after an output: its cache entry, and its script known.\<close>

definition stat_step :: "bytes \<Rightarrow> u32 \<Rightarrow> bytes \<Rightarrow> bytes \<Rightarrow> statics \<Rightarrow> statics \<Rightarrow> bool" where
  "stat_step t i scr v st st' \<longleftrightarrow>
     (\<forall>ck w. map_of (outputCache st') ck = Some w \<longrightarrow>
        map_of (outputCache st) ck = Some w \<and> ck \<noteq> cacheKey t i \<or> ck = cacheKey t i \<and> w = v)
     \<and> knownScripts st' \<subseteq> insert (toMapKey scr) (knownScripts st)"

lemma insertOutputScriptBlock_run:
  assumes "open_batch s" and "scripts_ok K s" and "length scr = 32" and "length h = 32"
    and "0 \<le> n" and "n \<le> 4294967295"
  obtains st' where "insertOutputScriptBlock K (Buf scr) (Some h) n s
      = (Inr True, (fold stage (if view K s (sKey scr) = None
          then [Put (sKey scr) (be 4 (nat n)), Put (zKey h scr) []] else []) s)\<lparr>stat := st'\<rparr>)"
    and "outputCache st' = outputCache (stat s)"
    and "knownScripts st' \<subseteq> insert (toMapKey scr) (knownScripts (stat s))"
proof -
  define st1 where "st1 = (if card (knownScripts (stat s)) > KNOWN_SCRIPTS_MAX
      then (stat s)\<lparr>knownScripts := {}\<rparr> else stat s)"
  have s1: "(if card (knownScripts (stat s)) > KNOWN_SCRIPTS_MAX
      then s\<lparr>stat := (stat s)\<lparr>knownScripts := {}\<rparr>\<rparr> else s) = s\<lparr>stat := st1\<rparr>"
    "outputCache st1 = outputCache (stat s)" "knownScripts st1 \<subseteq> knownScripts (stat s)"
    by (simp_all add: st1_def)
  have h: "\<not> falsy (Some h)" using assms(4) by (auto simp: falsy_def)
  have sv: "encodeScriptBlk n = Inr (be 4 (nat n))" using assms(5,6) by (simp add: encodeScriptBlk_def writeUInt32BE_def)
  show ?thesis
  proof (cases "toMapKey scr \<in> knownScripts st1")
    case True
    then have "view K s (sKey scr) \<noteq> None" using s1(3) assms(2,3) by (auto simp: scripts_ok_def)
    moreover have "insertOutputScriptBlock K (Buf scr) (Some h) n s
        = (Inr True, s\<lparr>stat := st1\<lparr>knownScriptsHits := Suc (knownScriptsHits st1)\<rparr>\<rparr>)"
      using h True by (simp add: insertOutputScriptBlock_def s1(1) scriptKeyText_def)
    ultimately show ?thesis by (intro that [of "st1\<lparr>knownScriptsHits := Suc (knownScriptsHits st1)\<rparr>"]) (use s1(2,3) in auto)
  next
    case False
    let ?st2 = "st1\<lparr>knownScriptsMisses := Suc (knownScriptsMisses st1)\<rparr>"
    let ?st3 = "?st2\<lparr>knownScripts := insert (toMapKey scr) (knownScripts st1)\<rparr>"
    note run = insertOutputScriptBlock_def s1(1) scriptKeyText_def codec_simps
      getTransactionValue_staged rememberScript_def
    show ?thesis
    proof (cases "staged s (sKey scr)")
      case (Some it)
      then obtain k v where it: "it = Put k v" using assms(2,3) by (cases it) (auto simp: scripts_ok_def)
      then have "view K s (sKey scr) \<noteq> None" using Some by (simp add: view_def)
      moreover have "insertOutputScriptBlock K (Buf scr) (Some h) n s = (Inr True, s\<lparr>stat := ?st3\<rparr>)"
        using h False Some it assms(3) by (simp add: run)
      ultimately show ?thesis by (intro that [of ?st3]) (use s1(2,3) in auto)
    next
      case None
      show ?thesis
      proof (cases "kv_get K (db s) (sKey scr)")
        case (Some b)
        then have "view K s (sKey scr) \<noteq> None" using None by (simp add: view_def)
        moreover have "insertOutputScriptBlock K (Buf scr) (Some h) n s = (Inr True, s\<lparr>stat := ?st3\<rparr>)"
          using h False Some None assms(3) by (simp add: run)
        ultimately show ?thesis by (intro that [of ?st3]) (use s1(2,3) in auto)
      next
        case none: None
        then have v: "view K s (sKey scr) = None" using None by (simp add: view_def)
        have "insertOutputScriptBlock K (Buf scr) (Some h) n s
          = (Inr True, (fold stage [Put (sKey scr) (be 4 (nat n)), Put (zKey h scr) []] s)\<lparr>stat := ?st3\<rparr>)"
          using h False None none assms(1,3,4) sv by (simp add: run)
        then show ?thesis by (intro that [of ?st3]) (use s1(2,3) v in auto)
      qed
    qed
  qed
qed

subsection \<open>Keeping the invariant\<close>

lemma outputs_ok_scr:
  "outputs_ok K n s \<Longrightarrow> length t = 32 \<Longrightarrow> view K s (hKey t i) = Some scr \<Longrightarrow> length scr = 32"
  using outputs_ok_spendable [of K n s t i]
  by (auto simp: spendable_def view_def split: option.splits item.splits)

text \<open>Keys that are neither a hint, nor an output, nor a first-seen record.\<close>

definition other_key :: "bytes \<Rightarrow> bool" where
  "other_key k \<longleftrightarrow> (\<forall>t i. k \<noteq> hKey t i) \<and> (\<forall>scr t i. k \<noteq> oKey scr t i) \<and> (\<forall>b. k \<noteq> sKey b)"

lemma other_keys [simp]:
  "other_key (bKey h)" "other_key (tKey t)" "other_key (xKey t)" "other_key (yKey h t)"
  "other_key (zKey h b)" "other_key (wKey h t i)" "other_key (nKey h)" "other_key (mKey h t i)"
  "other_key (kKey h b t i)" "other_key PREFIX_LAST_BLOCK_HEIGHT" "other_key PREFIX_LAST_BLOCK_HASH"
  "other_key P_PENDING_CLEANUP_KEY" "other_key Q_UNDO_WATERMARK_KEY"
  by (simp_all add: other_key_def)

lemma not_other_keys [simp]:
  "\<not> other_key (hKey t i)" "\<not> other_key (oKey scr t i)" "\<not> other_key (sKey b)"
  by (auto simp: other_key_def)

lemma fwd_inv_cong:
  assumes "fwd_inv K n s" and "open_batch s'" and "deletedTransactionArray s' \<noteq> None" and "staged_ok s'"
    and "db s' = db s" and "\<And>k. \<not> other_key k \<Longrightarrow> staged s' k = staged s k"
    and "fewer_cached (stat s) (stat s')"
  shows "fwd_inv K n s'"
proof -
  have h: "staged s' (hKey t i) = staged s (hKey t i)" "staged s' (oKey scr t i) = staged s (oKey scr t i)"
    "staged s' (sKey b) = staged s (sKey b)" for t i scr b
    by (simp_all add: assms(6))
  have v: "view K s' (hKey t i) = view K s (hKey t i)" "view K s' (oKey scr t i) = view K s (oKey scr t i)"
    "view K s' (sKey b) = view K s (sKey b)" for t i scr b
    by (simp_all add: view_def h assms(5) split: option.split)
  have "outputs_ok K n s'"
    using assms(1) by (simp add: fwd_inv_def outputs_ok_def h assms(5) cong: option.case_cong item.case_cong)
  moreover have "cache_ok K s'"
    using assms(1,7) by (auto simp: fwd_inv_def cache_ok_def v fewer_cached_def map_le_def dom_def)
  moreover have "scripts_ok K s'"
    using assms(1,7) by (auto simp: fwd_inv_def scripts_ok_def v h fewer_cached_def)
  ultimately show ?thesis using assms by (simp add: fwd_inv_def)
qed

lemma fwd_inv_stage_other:
  "fwd_inv K n s \<Longrightarrow> other_key (item_key it) \<Longrightarrow> fwd_inv K n (stage it s)"
  by (rule fwd_inv_cong) (auto simp: fwd_inv_def staged_stage)

lemma fwd_inv_fold_other:
  "fwd_inv K n s \<Longrightarrow> \<forall>it \<in> set its. other_key (item_key it) \<Longrightarrow> fwd_inv K n (fold stage its s)"
  by (induction its arbitrary: s) (auto intro: fwd_inv_stage_other)

text \<open>A new output.\<close>

definition fresh_out :: "'d kv \<Rightarrow> 'd store \<Rightarrow> bytes \<Rightarrow> u32 \<Rightarrow> bytes \<Rightarrow> bool" where
  "fresh_out K s t i scr \<longleftrightarrow> length t = 32 \<and> length scr = 32
     \<and> kv_get K (db s) (hKey t i) = None \<and> kv_get K (db s) (oKey scr t i) = None"

lemma event_items_keys:
  "it \<in> set (event_items h n m (EOut t i scr v)) \<Longrightarrow>
     item_key it \<in> {oKey scr t i, hKey t i, sKey scr, zKey h scr, wKey h t i}"
  by (auto split: if_splits)

lemma fwd_inv_event:
  assumes inv: "fwd_inv K n s" and fresh: "fresh_out K s t i scr"
    and v: "decodeOutput v = Inr o1" "0 \<le> out_h o1" and st: "stat_step t i scr v (stat s) st'"
  shows "fwd_inv K n ((fold stage (event_items h n (view K s) (EOut t i scr v)) s)\<lparr>stat := st'\<rparr>)"
proof -
  let ?its = "event_items h n (view K s) (EOut t i scr v)"
  define s1 where "s1 = fold stage ?its s"
  have ds: "db s1 = db s" "open_batch s1 = open_batch s" "staged_ok s \<Longrightarrow> staged_ok s1"
    "deletedTransactionArray s1 = deletedTransactionArray s"
    by (simp_all add: s1_def del: event_items.simps)
  have op: "open_batch s" and len: "length t = 32" "length scr = 32"
    using inv fresh by (simp_all add: fwd_inv_def fresh_out_def)
  have sH: "staged s1 (hKey t' i') = (if (t', i') = (t, i) then Some (Put (hKey t i) scr) else staged s (hKey t' i'))"
    and sO: "staged s1 (oKey scr' t' i') = (if oKey scr' t' i' = oKey scr t i then Some (Put (oKey scr t i) v) else staged s (oKey scr' t' i'))"
    and sS: "staged s1 (sKey b) = (if b = scr \<and> view K s (sKey scr) = None then Some (Put (sKey scr) (be 4 (nat n))) else staged s (sKey b))"
    for t' i' scr' b
    using op by (simp_all add: staged_stage s1_def)
  have vs: "view K s1 = fold apply_item ?its (view K s)" using op unfolding s1_def by (rule view_fold_stage)
  have vS: "view K s1 (sKey b) = (if b = scr \<and> view K s (sKey scr) = None then Some (be 4 (nat n)) else view K s (sKey b))"
    and vH: "view K s1 (hKey t' i') = (if (t', i') = (t, i) then Some scr else view K s (hKey t' i'))"
    and vO: "view K s1 (oKey scr' t' i') = (if oKey scr' t' i' = oKey scr t i then Some v else view K s (oKey scr' t' i'))"
    for b t' i' scr'
    unfolding vs by (simp_all add: apply_item_def)
  have vS': "view K s1 (sKey scr) \<noteq> None" using vS [of scr] by auto
  have "outputs_ok K n s1"
    unfolding outputs_ok_def
  proof (intro allI impI)
    fix t' i' assume lt: "length (t' :: bytes) = 32"
    show "case staged s1 (hKey t' i') of
       Some (Put k scr) \<Rightarrow> length scr = 32 \<and> kv_get K (db s1) (hKey t' i') = None
         \<and> kv_get K (db s1) (oKey scr t' i') = None
         \<and> (\<exists>k' v o1. staged s1 (oKey scr t' i') = Some (Put k' v) \<and> decodeOutput v = Inr o1 \<and> 0 \<le> out_h o1)
     | Some (Del k v) \<Rightarrow> True
     | None \<Rightarrow> (case kv_get K (db s1) (hKey t' i') of
         None \<Rightarrow> True
       | Some scr \<Rightarrow> length scr = 32 \<and> staged s1 (oKey scr t' i') = None
           \<and> (case kv_get K (db s1) (oKey scr t' i') of None \<Rightarrow> True | Some v \<Rightarrow> created_before v n))"
    proof (cases "(t', i') = (t, i)")
      case True
      then show ?thesis using fresh v by (simp add: sH sO fresh_out_def ds)
    next
      case False
      have ne: "oKey scr' t' i' \<noteq> oKey scr t i" if "length scr' = 32" for scr'
        using that len False by (auto simp: key_inject_len)
      have "outputs_ok K n s" using inv by (simp add: fwd_inv_def)
      then have "case staged s (hKey t' i') of
         Some (Put k scr) \<Rightarrow> length scr = 32 \<and> kv_get K (db s) (hKey t' i') = None
           \<and> kv_get K (db s) (oKey scr t' i') = None
           \<and> (\<exists>k' v o1. staged s (oKey scr t' i') = Some (Put k' v) \<and> decodeOutput v = Inr o1 \<and> 0 \<le> out_h o1)
       | Some (Del k v) \<Rightarrow> True
       | None \<Rightarrow> (case kv_get K (db s) (hKey t' i') of
           None \<Rightarrow> True
         | Some scr \<Rightarrow> length scr = 32 \<and> staged s (oKey scr t' i') = None
             \<and> (case kv_get K (db s) (oKey scr t' i') of None \<Rightarrow> True | Some v \<Rightarrow> created_before v n))"
        using lt by (simp add: outputs_ok_def)
      with False ne show ?thesis
        by (auto simp: sH sO ds split: option.splits item.splits)
    qed
  qed
  moreover have "cache_ok K (s1\<lparr>stat := st'\<rparr>)"
    unfolding cache_ok_def
  proof (intro allI impI)
    fix t' i' scr' w
    assume lt: "length t' = 32" and c: "map_of (outputCache (stat (s1\<lparr>stat := st'\<rparr>))) (cacheKey t' i') = Some w"
      and hv: "view K (s1\<lparr>stat := st'\<rparr>) (hKey t' i') = Some scr'"
    have ck: "cacheKey t' i' = cacheKey t i \<longleftrightarrow> (t', i') = (t, i)"
      using lt len by (simp add: cacheKey_inject)
    show "view K (s1\<lparr>stat := st'\<rparr>) (oKey scr' t' i') = Some w"
    proof (cases "(t', i') = (t, i)")
      case True
      then have "w = v" using c st ck by (auto simp: stat_step_def)
      with True hv show ?thesis by (simp add: vH vO)
    next
      case False
      then have hv': "view K s (hKey t' i') = Some scr'" using hv by (auto simp: vH split: if_splits)
      have "map_of (outputCache (stat s)) (cacheKey t' i') = Some w"
        using c st ck False by (auto simp: stat_step_def)
      moreover have "length scr' = 32"
        using outputs_ok_scr [OF _ lt hv'] inv by (auto simp: fwd_inv_def)
      then have "oKey scr' t' i' \<noteq> oKey scr t i" using len False by (auto simp: key_inject_len)
      ultimately show ?thesis
        using inv hv' lt by (auto simp: fwd_inv_def cache_ok_def vO)
    qed
  qed
  moreover have "scripts_ok K (s1\<lparr>stat := st'\<rparr>)"
    unfolding scripts_ok_def
  proof (intro allI impI conjI)
    fix b :: bytes
    assume lb: "length b = 32" and "toMapKey b \<in> knownScripts (stat (s1\<lparr>stat := st'\<rparr>))"
    then have "b = scr \<or> toMapKey b \<in> knownScripts (stat s)" using st by (auto simp: stat_step_def)
    then show "view K (s1\<lparr>stat := st'\<rparr>) (sKey b) \<noteq> None"
      using inv lb vS' vS [of b] by (auto simp: fwd_inv_def scripts_ok_def)
  next
    fix b k v assume "length (b :: bytes) = 32"
    then show "staged (s1\<lparr>stat := st'\<rparr>) (sKey b) \<noteq> Some (Del k v)"
      using inv by (auto simp: fwd_inv_def scripts_ok_def sS)
  qed
  ultimately show ?thesis
    unfolding s1_def [symmetric]
    using inv ds by (simp add: fwd_inv_def outputs_ok_def cong: option.case_cong item.case_cong)
qed

subsection \<open>Running the creation pass\<close>

lemma scripts_ok_stage:
  "scripts_ok K s \<Longrightarrow> open_batch s \<Longrightarrow> \<forall>b. item_key it \<noteq> sKey b \<Longrightarrow> scripts_ok K (stage it s)"
  by (simp add: scripts_ok_def staged_stage view_stage apply_item_def) metis

lemma scripts_ok_stat:
  "scripts_ok K s \<Longrightarrow> knownScripts st = knownScripts (stat s) \<Longrightarrow> scripts_ok K (s\<lparr>stat := st\<rparr>)"
  by (simp add: scripts_ok_def)

lemma cacheOutput_step:
  "\<forall>ck w. map_of (outputCache (cacheOutput t i v st)) ck = Some w \<longrightarrow>
     map_of (outputCache st) ck = Some w \<and> ck \<noteq> cacheKey t i \<or> ck = cacheKey t i \<and> w = v"
  "knownScripts (cacheOutput t i v st) = knownScripts st"
  by (auto simp: cacheOutput_def Let_def split: if_splits)

lemma parseOutput_run:
  assumes inv: "fwd_inv K n s" and len: "length t = 32" "length scr = 32" "length h = 32"
    and n: "0 \<le> n" "n \<le> 2147483647" and val: "0 \<le> to_value out" "to_value out \<le> 18446744073709551615"
    and v: "v = outRecord (to_value out) n t cb"
  obtains st' where "parseOutput K (Buf scr) t (Some h) n cb True (i, out) s
      = (Inr (), (fold stage (event_items h n (view K s) (EOut t (of_nat i) scr v)) s)\<lparr>stat := st'\<rparr>)"
    and "stat_step t (of_nat i) scr v (stat s) st'"
proof -
  have op: "open_batch s" using inv by (simp add: fwd_inv_def)
  have enc: "encodeOutput (to_value out) (Some n) (Some t) cb = Inr v"
    unfolding v by (rule outRecord_encode [OF val n len(1)])
  let ?st = "cacheOutput t (of_nat i) v (stat s)"
  let ?s1 = "stage (Put (hKey t (of_nat i)) scr) (stage (Put (oKey scr t (of_nat i)) v) s)"
  have so: "scripts_ok K (?s1\<lparr>stat := ?st\<rparr>)"
    using inv op by (auto simp: fwd_inv_def cacheOutput_step intro!: scripts_ok_stat scripts_ok_stage)
  have vs: "view K ?s1 (sKey scr) = view K s (sKey scr)"
    using op by (simp add: view_simps apply_item_def)
  obtain st' where r: "insertOutputScriptBlock K (Buf scr) (Some h) n (?s1\<lparr>stat := ?st\<rparr>)
      = (Inr True, (fold stage (if view K s (sKey scr) = None
          then [Put (sKey scr) (be 4 (nat n)), Put (zKey h scr) []] else []) (?s1\<lparr>stat := ?st\<rparr>))\<lparr>stat := st'\<rparr>)"
    and st': "outputCache st' = outputCache ?st" "knownScripts st' \<subseteq> insert (toMapKey scr) (knownScripts ?st)"
    using insertOutputScriptBlock_run [OF _ so len(2,3) n(1), of thesis] op n vs by auto
  have h: "\<not> falsy (Some h)" using len by (auto simp: falsy_def)
  have "stat_step t (of_nat i) scr v (stat s) st'"
    using st' cacheOutput_step [of t "of_nat i" v "stat s"] by (simp add: stat_step_def)
  moreover have "parseOutput K (Buf scr) t (Some h) n cb True (i, out) s
      = (Inr (), (fold stage (event_items h n (view K s) (EOut t (of_nat i) scr v)) s)\<lparr>stat := st'\<rparr>)"
    using op len n enc h r
    by (simp add: parseOutput_def insertOutput_def output_of_def insertOutputHint_def insertOutputBlock_def
        hintValue_def codec_simps mseq_run)
  ultimately show ?thesis by (intro that)
qed

lemma create_items_append:
  "create_items h n m (es @ fs) = create_items h n m es @ create_items h n (fold apply_item (create_items h n m es) m) fs"
  by (induction es arbitrary: m) simp_all

text \<open>The result of a creation pass.\<close>

definition created :: "'d kv \<Rightarrow> bytes \<Rightarrow> int \<Rightarrow> 'd store \<Rightarrow> event list \<Rightarrow> 'd store \<Rightarrow> bool" where
  "created K h n s es s' \<longleftrightarrow> fwd_inv K n s' \<and> db s' = db s
     \<and> view K s' = fold apply_item (create_items h n (view K s) es) (view K s)
     \<and> (\<forall>b. staged s' (bKey b) = staged s (bKey b))"

lemma created_trans:
  "created K h n s es s' \<Longrightarrow> created K h n s' fs s'' \<Longrightarrow> created K h n s (es @ fs) s''"
  by (simp add: created_def create_items_append)

definition out_event :: "(bytes \<Rightarrow> bytes) \<Rightarrow> int \<Rightarrow> bytes \<Rightarrow> bool \<Rightarrow> nat \<times> txout \<Rightarrow> event" where
  "out_event sha n t cb p = (case p of (i, out) \<Rightarrow>
     EOut t (of_nat i) (sha (to_script out)) (outRecord (to_value out) n t cb))"

text \<open>What an output needs to be storable, and new to the database.\<close>

definition good_out :: "'d kv \<Rightarrow> 'd store \<Rightarrow> (bytes \<Rightarrow> bytes) \<Rightarrow> bytes \<Rightarrow> nat \<times> txout \<Rightarrow> bool" where
  "good_out K s sha t p = (case p of (i, out) \<Rightarrow>
     fresh_out K s t (of_nat i) (sha (to_script out)) \<and> 0 \<le> to_value out \<and> to_value out \<le> 18446744073709551615)"

lemma good_out_cong: "db s' = db s \<Longrightarrow> good_out K s' sha t p = good_out K s sha t p"
  by (simp add: good_out_def fresh_out_def split: prod.split)

lemma parseOutput_created:
  assumes "fwd_inv K n s" and "length h = 32" and "0 \<le> n" "n \<le> 2147483647" and "good_out K s sha t p"
  obtains s' where "parseOutput K (Buf (sha (to_script (snd p)))) t (Some h) n cb True p s = (Inr (), s')"
    and "created K h n s [out_event sha n t cb p] s'"
proof -
  obtain i out where p: "p = (i, out)" by (cases p)
  let ?scr = "sha (to_script out)" and ?v = "outRecord (to_value out) n t cb"
  have g: "fresh_out K s t (of_nat i) ?scr" "0 \<le> to_value out" "to_value out \<le> 18446744073709551615"
    and len: "length t = 32" "length ?scr = 32"
    using assms(5) by (auto simp: good_out_def p fresh_out_def)
  obtain st' where r: "parseOutput K (Buf ?scr) t (Some h) n cb True (i, out) s
      = (Inr (), (fold stage (event_items h n (view K s) (EOut t (of_nat i) ?scr ?v)) s)\<lparr>stat := st'\<rparr>)"
    and st: "stat_step t (of_nat i) ?scr ?v (stat s) st'"
    by (rule parseOutput_run [OF assms(1) len assms(2-4) g(2,3) refl])
  obtain o1 where o1: "decodeOutput ?v = Inr o1" "0 \<le> out_h o1"
    using outRecord_decode [OF g(2,3) assms(3,4) len(1), of cb] assms(3) by auto
  let ?s = "(fold stage (event_items h n (view K s) (EOut t (of_nat i) ?scr ?v)) s)\<lparr>stat := st'\<rparr>"
  have op: "open_batch s" using assms(1) by (simp add: fwd_inv_def)
  have "created K h n s [out_event sha n t cb p] ?s"
    using fwd_inv_event [OF assms(1) g(1) o1 st, of h] op
    by (simp add: created_def out_event_def p view_simps staged_stage)
  with r show ?thesis by (intro that) (simp_all add: p)
qed

lemma outs_created:
  assumes "fwd_inv K n s" and "length h = 32" and "0 \<le> n" "n \<le> 2147483647" and "\<forall>p \<in> set ps. good_out K s sha t p"
  shows "\<exists>s'. mfor ps (\<lambda>p. parseOutput K (Buf (sha (to_script (snd p)))) t (Some h) n cb True p) s = (Inr (), s')
    \<and> created K h n s (map (out_event sha n t cb) ps) s'"
  using assms(1,5)
proof (induction ps arbitrary: s)
  case Nil
  then show ?case by (simp add: created_def)
next
  case (Cons p ps)
  obtain s1 where s1: "parseOutput K (Buf (sha (to_script (snd p)))) t (Some h) n cb True p s = (Inr (), s1)"
      "created K h n s [out_event sha n t cb p] s1"
    using parseOutput_created [OF Cons.prems(1) assms(2-4)] Cons.prems(2) by (metis list.set_intros(1))
  then have "fwd_inv K n s1" "db s1 = db s" by (auto simp: created_def)
  moreover have "\<forall>p \<in> set ps. good_out K s1 sha t p"
    using Cons.prems(2) good_out_cong [OF \<open>db s1 = db s\<close>] by simp
  ultimately obtain s2 where s2: "mfor ps (\<lambda>p. parseOutput K (Buf (sha (to_script (snd p)))) t (Some h) n cb True p) s1 = (Inr (), s2)"
      "created K h n s1 (map (out_event sha n t cb) ps) s2"
    using Cons.IH by blast
  show ?case
    using s1(1) s2(1) created_trans [OF s1(2) s2(2)] by (simp add: mseq_run)
qed

text \<open>One transaction: its three index records, then its outputs.\<close>

definition good_tx :: "'d kv \<Rightarrow> 'd store \<Rightarrow> (bytes \<Rightarrow> bytes) \<Rightarrow> tx \<Rightarrow> bool" where
  "good_tx K s sha t \<longleftrightarrow> length (tx_id t) = 32 \<and> (\<forall>p \<in> set (enumerate 0 (tx_outs t)). good_out K s sha (tx_id t) p)"

lemma insertTransaction_created:
  assumes "fwd_inv K n s" and "length h = 32" and "length t = 32"
  shows "\<exists>s'. insertTransaction K t (Some h) s = (Inr True, s') \<and> created K h n s [ETx t] s'"
proof -
  let ?its = "event_items h n (view K s) (ETx t)"
  have op: "open_batch s" using assms(1) by (simp add: fwd_inv_def)
  have h: "h \<noteq> []" using assms(2) by auto
  then have e: "encodeTx (Some h) = Inr h" using assms(2) by (auto simp: encodeTx_def split: list.split)
  have r: "insertTransaction K t (Some h) s = (Inr True, fold stage ?its s)"
    using op assms(2,3) h by (simp add: insertTransaction_def codec_simps e falsy_def)
  have "fwd_inv K n (fold stage ?its s)" by (rule fwd_inv_fold_other [OF assms(1)]) simp
  then show ?thesis unfolding r using op
    by (auto simp: created_def view_simps staged_stage)
qed

lemma tx_created:
  assumes "fwd_inv K n s" and "length h = 32" and "0 \<le> n" "n \<le> 2147483647" and "good_tx K s sha t"
  shows "\<exists>s'. mseq (insertTransaction K (tx_id t) (Some h)) (parseTxOutputs K sha t (Some h) n False True) s
      = (Inr (length (tx_outs t)), s') \<and> created K h n s (tx_events sha n t) s'"
proof -
  obtain s1 where s1: "insertTransaction K (tx_id t) (Some h) s = (Inr True, s1)" "created K h n s [ETx (tx_id t)] s1"
    using insertTransaction_created [OF assms(1,2), of "tx_id t"] assms(5) by (auto simp: good_tx_def)
  then have i: "fwd_inv K n s1" "db s1 = db s" by (auto simp: created_def)
  have "\<forall>p \<in> set (enumerate 0 (tx_outs t)). good_out K s1 sha (tx_id t) p"
    using assms(5) good_out_cong [OF i(2)] by (simp add: good_tx_def)
  then obtain s2 where s2: "mfor (enumerate 0 (tx_outs t)) (\<lambda>p. parseOutput K (Buf (sha (to_script (snd p)))) (tx_id t) (Some h) n (isCoinbaseTransaction t) True p) s1 = (Inr (), s2)"
      "created K h n s1 (map (out_event sha n (tx_id t) (isCoinbaseTransaction t)) (enumerate 0 (tx_outs t))) s2"
    using outs_created [OF i(1) assms(2-4)] by blast
  have "tx_events sha n t = [ETx (tx_id t)] @ map (out_event sha n (tx_id t) (isCoinbaseTransaction t)) (enumerate 0 (tx_outs t))"
    by (simp add: tx_events_def out_event_def)
  then have "created K h n s (tx_events sha n t) s2" using created_trans [OF s1(2) s2(2)] by simp
  moreover have "mseq (insertTransaction K (tx_id t) (Some h)) (parseTxOutputs K sha t (Some h) n False True) s
      = (Inr (length (tx_outs t)), s2)"
    using s1(1) s2(1) by (simp add: mseq_run parseTxOutputs_def)
  ultimately show ?thesis by blast
qed

lemma txs_created:
  assumes "fwd_inv K n s" and "length h = 32" and "0 \<le> n" "n \<le> 2147483647" and "\<forall>t \<in> set txs. good_tx K s sha t"
  shows "\<exists>s'. msum txs (\<lambda>t. mseq (insertTransaction K (tx_id t) (Some h))
          (parseTxOutputs K sha t (Some h) n False True)) s
      = (Inr (sum_list (map (length \<circ> tx_outs) txs)), s') \<and> created K h n s (block_events sha n txs) s'"
  using assms(1,5)
proof (induction txs arbitrary: s)
  case Nil
  then show ?case by (simp add: created_def block_events_def)
next
  case (Cons t txs)
  obtain s1 where s1: "mseq (insertTransaction K (tx_id t) (Some h)) (parseTxOutputs K sha t (Some h) n False True) s
      = (Inr (length (tx_outs t)), s1)" "created K h n s (tx_events sha n t) s1"
    using tx_created [OF Cons.prems(1) assms(2-4)] Cons.prems(2) by (metis list.set_intros(1))
  then have i: "fwd_inv K n s1" "db s1 = db s" by (auto simp: created_def)
  then have "\<forall>t \<in> set txs. good_tx K s1 sha t"
    using Cons.prems(2) good_out_cong [OF i(2)] by (auto simp: good_tx_def)
  then obtain s2 where s2: "msum txs (\<lambda>t. mseq (insertTransaction K (tx_id t) (Some h))
          (parseTxOutputs K sha t (Some h) n False True)) s1
      = (Inr (sum_list (map (length \<circ> tx_outs) txs)), s2)" "created K h n s1 (block_events sha n txs) s2"
    using Cons.IH i(1) by blast
  have "created K h n s (block_events sha n (t # txs)) s2"
    using created_trans [OF s1(2) s2(2)] by (simp add: block_events_def)
  then show ?case
    using s1(1) s2(1) by (auto simp: mbind_run comp_def simp del: m_assoc)
qed

subsection \<open>Running the spending pass\<close>

definition live :: "(bytes \<rightharpoonup> bytes) \<Rightarrow> bytes \<times> u32 \<Rightarrow> bool" where
  "live m op \<longleftrightarrow> (\<exists>scr v. m (hKey (fst op) (snd op)) = Some scr \<and> m (oKey scr (fst op) (snd op)) = Some v)"

definition block_creates :: "(bytes \<Rightarrow> bytes) \<Rightarrow> bytes \<Rightarrow> int \<Rightarrow> (bytes \<rightharpoonup> bytes) \<Rightarrow> tx list \<Rightarrow> item list" where
  "block_creates sha h n m txs = create_items h n m (block_events sha n txs)"

definition block_ops :: "bytes \<Rightarrow> tx list \<Rightarrow> (bytes \<times> u32) list" where
  "block_ops h txs = map outpoint (removeInputs h txs)"

definition block_items :: "(bytes \<Rightarrow> bytes) \<Rightarrow> bytes \<Rightarrow> int \<Rightarrow> (bytes \<rightharpoonup> bytes) \<Rightarrow> tx list \<Rightarrow> item list" where
  "block_items sha h n m txs = (let cs = block_creates sha h n m txs in
     cs @ spends_items h n (fold apply_item cs m) (block_ops h txs))"

text \<open>
  A block the node accepts: widths and amounts in range, new outputs new to the database, no
  outpoint spent twice, and every spent outpoint live or created by the block itself.
\<close>

definition valid_txs :: "'d kv \<Rightarrow> 'd store \<Rightarrow> (bytes \<Rightarrow> bytes) \<Rightarrow> bytes \<Rightarrow> int \<Rightarrow> tx list \<Rightarrow> bool" where
  "valid_txs K s sha h n txs \<longleftrightarrow> length h = 32 \<and> 0 \<le> n \<and> n \<le> 2147483647
     \<and> (\<forall>t \<in> set txs. good_tx K s sha t)
     \<and> distinct (block_ops h txs)
     \<and> (\<forall>op \<in> set (block_ops h txs). length (fst op) = 32
          \<and> live (fold apply_item (block_creates sha h n (view K s) txs) (view K s)) op)"

lemma created_before_mono: "created_before v n \<Longrightarrow> n \<le> n' \<Longrightarrow> created_before v n'"
  by (auto simp: created_before_def split: sum.splits)

lemma spends_items_mem:
  "it \<in> set (spends_items h n m ops) \<longleftrightarrow> (\<exists>op \<in> set ops. it \<in> set (spend_items h n m op))"
  by (simp add: spends_items_def)

lemma spent_gone:
  assumes "op \<in> set ops" and "live m op"
  shows "fold apply_item (spends_items h n m ops) m (hKey (fst op) (snd op)) = None"
proof (rule apply_items_same)
  show "\<forall>it \<in> set (spends_items h n m ops). item_key it = hKey (fst op) (snd op) \<longrightarrow> item_effect it = None"
    by (auto simp: spends_items_mem spend_items_def split: prod.splits option.splits if_splits)
  have "Del (hKey (fst op) (snd op)) None \<in> set (spend_items h n m op)"
    using assms(2) by (cases op) (auto simp: live_def spend_items_def)
  then show "m (hKey (fst op) (snd op)) = None
      \<or> (\<exists>it \<in> set (spends_items h n m ops). item_key it = hKey (fst op) (snd op))"
    using assms(1) by (force simp: spends_items_mem)
qed

lemma removeInputs_hash: "inp \<in> set (removeInputs h txs) \<Longrightarrow> in_blockHash inp = h"
  by (auto simp: removeInputs_def)

lemma fwd_inv_spends:
  assumes inv: "fwd_inv K n s" and ops: "\<forall>op \<in> ops. length (fst op) = 32 \<and> view K s' (hKey (fst op) (snd op)) = None"
    and s': "open_batch s'" "deletedTransactionArray s' \<noteq> None" "staged_ok s'" "db s' = db s" "fewer_cached (stat s) (stat s')"
    and frame: "\<forall>k. (\<forall>op \<in> ops. k \<notin> spend_keys h op) \<longrightarrow> staged s' k = staged s k"
  shows "fwd_inv K (n + 1) s'"
proof -
  have other: "op \<notin> ops \<Longrightarrow> staged s' (hKey (fst op) (snd op)) = staged s (hKey (fst op) (snd op))
      \<and> (\<forall>scr. length scr = 32 \<longrightarrow> staged s' (oKey scr (fst op) (snd op)) = staged s (oKey scr (fst op) (snd op)))" for op
  proof -
    assume no: "op \<notin> ops"
    have "\<forall>op' \<in> ops. hKey (fst op) (snd op) \<notin> spend_keys h op'"
      using no by (intro ballI spend_keys_disjoint(1)) auto
    moreover have "\<forall>op' \<in> ops. oKey scr (fst op) (snd op) \<notin> spend_keys h op'" if "length scr = 32" for scr
      using no that by (intro ballI spend_keys_disjoint(2)) auto
    ultimately show ?thesis using frame by blast
  qed
  have sS: "staged s' (sKey b) = staged s (sKey b)" for b
  proof -
    have "\<forall>op \<in> ops. sKey b \<notin> spend_keys h op" by (simp add: spend_keys_def)
    then show ?thesis using frame by blast
  qed
  have out: "outputs_ok K n s" using inv by (simp add: fwd_inv_def)
  have "outputs_ok K (n + 1) s'"
    unfolding outputs_ok_def
  proof (intro allI impI)
    fix t i assume lt: "length (t :: bytes) = 32"
    show "case staged s' (hKey t i) of
       Some (Put k scr) \<Rightarrow> length scr = 32 \<and> kv_get K (db s') (hKey t i) = None
         \<and> kv_get K (db s') (oKey scr t i) = None
         \<and> (\<exists>k' v o1. staged s' (oKey scr t i) = Some (Put k' v) \<and> decodeOutput v = Inr o1 \<and> 0 \<le> out_h o1)
     | Some (Del k v) \<Rightarrow> True
     | None \<Rightarrow> (case kv_get K (db s') (hKey t i) of
         None \<Rightarrow> True
       | Some scr \<Rightarrow> length scr = 32 \<and> staged s' (oKey scr t i) = None
           \<and> (case kv_get K (db s') (oKey scr t i) of None \<Rightarrow> True | Some v \<Rightarrow> created_before v (n + 1)))"
    proof (cases "(t, i) \<in> ops")
      case True
      then have "view K s' (hKey t i) = None" using ops by force
      then show ?thesis
        by (cases "staged s' (hKey t i)") (auto simp: view_def split: item.splits)
    next
      case False
      have "case staged s (hKey t i) of
         Some (Put k scr) \<Rightarrow> length scr = 32 \<and> kv_get K (db s) (hKey t i) = None
           \<and> kv_get K (db s) (oKey scr t i) = None
           \<and> (\<exists>k' v o1. staged s (oKey scr t i) = Some (Put k' v) \<and> decodeOutput v = Inr o1 \<and> 0 \<le> out_h o1)
       | Some (Del k v) \<Rightarrow> True
       | None \<Rightarrow> (case kv_get K (db s) (hKey t i) of
           None \<Rightarrow> True
         | Some scr \<Rightarrow> length scr = 32 \<and> staged s (oKey scr t i) = None
             \<and> (case kv_get K (db s) (oKey scr t i) of None \<Rightarrow> True | Some v \<Rightarrow> created_before v n))"
        using out lt by (simp add: outputs_ok_def)
      moreover have "staged s' (hKey t i) = staged s (hKey t i)"
        "length scr = 32 \<Longrightarrow> staged s' (oKey scr t i) = staged s (oKey scr t i)" for scr
        using other [OF False] by simp_all
      ultimately show ?thesis
        by (cases "staged s (hKey t i)"; cases "kv_get K (db s) (hKey t i)")
          (auto simp: s'(4) created_before_mono split: item.split_asm option.split_asm)
    qed
  qed
  moreover have "cache_ok K s'"
    unfolding cache_ok_def
  proof (intro allI impI)
    fix t i scr v
    assume lt: "length t = 32" and c: "map_of (outputCache (stat s')) (cacheKey t i) = Some v"
      and hv: "view K s' (hKey t i) = Some scr"
    have no: "(t, i) \<notin> ops" using ops hv by force
    have c': "map_of (outputCache (stat s)) (cacheKey t i) = Some v"
      using c s'(5) by (auto simp: fewer_cached_def map_le_def dom_def)
    have hv': "view K s (hKey t i) = Some scr"
      using hv other [OF no] view_same [OF _ s'(4), of "hKey t i" K] by simp
    have "length scr = 32" by (rule outputs_ok_scr [OF out lt hv'])
    then have "view K s' (oKey scr t i) = view K s (oKey scr t i)"
      using other [OF no] by (intro view_same [OF _ s'(4)]) simp
    moreover have "cache_ok K s" using inv by (simp add: fwd_inv_def)
    ultimately show "view K s' (oKey scr t i) = Some v"
      using c' hv' lt unfolding cache_ok_def by metis
  qed
  moreover have "scripts_ok K s'"
  proof -
    have "view K s' (sKey b) = view K s (sKey b)" for b by (rule view_same [OF sS s'(4)])
    then show ?thesis using inv s'(5) by (simp add: fwd_inv_def scripts_ok_def sS fewer_cached_def)
  qed
  ultimately show ?thesis using s' by (simp add: fwd_inv_def)
qed

lemma parseBlock_run:
  assumes inv: "fwd_inv K n s" and blk: "block_staged h n s" and val: "valid_txs K s sha h n txs"
  shows "\<exists>s'. parseBlockTransactions K sha txs h n s
      = (Inr (sum_list (map (length \<circ> tx_outs) txs), length (removeInputs h txs)), s')
    \<and> view K s' = fold apply_item (block_items sha h n (view K s) txs) (view K s)
    \<and> db s' = db s \<and> fwd_inv K (n + 1) s'"
proof -
  have v: "length h = 32" "0 \<le> n" "n \<le> 2147483647" "\<forall>t \<in> set txs. good_tx K s sha t"
    "distinct (block_ops h txs)"
    using val by (simp_all add: valid_txs_def)
  obtain s1 where s1: "msum txs (\<lambda>t. mseq (insertTransaction K (tx_id t) (Some h))
          (parseTxOutputs K sha t (Some h) n False True)) s
      = (Inr (sum_list (map (length \<circ> tx_outs) txs)), s1)" "created K h n s (block_events sha n txs) s1"
    using txs_created [OF inv v(1-4)] by blast
  let ?ins = "removeInputs h txs"
  have vw: "view K s1 = fold apply_item (block_creates sha h n (view K s) txs) (view K s)"
    and i1: "fwd_inv K n s1" "db s1 = db s"
    using s1(2) by (auto simp: created_def block_creates_def)
  have b1: "block_staged h n s1"
    using blk s1(2) by (simp add: block_staged_def getTransactionValue_staged created_def)
  have ops: "\<forall>op \<in> set (block_ops h txs). length (fst op) = 32 \<and> live (view K s1) op"
    using val by (simp add: valid_txs_def vw)
  have sp: "\<forall>inp \<in> set ?ins. spendable K n s1 (outpoint inp) \<and> in_blockHash inp = h"
  proof
    fix inp assume i: "inp \<in> set ?ins"
    then have "outpoint inp \<in> set (block_ops h txs)" by (simp add: block_ops_def)
    then have "length (fst (outpoint inp)) = 32" "live (view K s1) (outpoint inp)" using ops by auto
    then show "spendable K n s1 (outpoint inp) \<and> in_blockHash inp = h"
      using outputs_ok_spendable [of K n s1 "fst (outpoint inp)" "snd (outpoint inp)"] i1(1) removeInputs_hash [OF i]
      by (auto simp: fwd_inv_def live_def)
  qed
  have o1: "open_batch s1" "deletedTransactionArray s1 \<noteq> None" "cache_ok K s1" "staged_ok s1"
    using i1(1) by (simp_all add: fwd_inv_def)
  obtain s2 where s2: "removeOutputsWithInputsBatch K ?ins s1 = (Inr (length ?ins), s2)"
    "view K s2 = fold apply_item (spends_items h n (view K s1) (block_ops h txs)) (view K s1)"
    "db s2 = db s1" "open_batch s2" "deletedTransactionArray s2 \<noteq> None" "staged_ok s2"
    "fewer_cached (stat s1) (stat s2)"
    "\<forall>k. (\<forall>inp \<in> set ?ins. k \<notin> spend_keys h (outpoint inp)) \<longrightarrow> staged s2 k = staged s1 k"
    using removeOutputsWithInputsBatch_run [OF o1(1,2) b1 o1(3) sp] v(5) o1(4) unfolding block_ops_def by blast
  have "\<forall>op \<in> set (block_ops h txs). length (fst op) = 32 \<and> view K s2 (hKey (fst op) (snd op)) = None"
    using ops spent_gone by (simp add: s2(2))
  then have "fwd_inv K (n + 1) s2"
    using s2(8) by (intro fwd_inv_spends [OF i1(1) _ s2(4,5,6,3,7), of "set (block_ops h txs)" h])
      (simp_all add: block_ops_def)
  moreover have "parseBlockTransactions K sha txs h n s
      = (Inr (sum_list (map (length \<circ> tx_outs) txs), length ?ins), s2)"
  proof (cases "?ins = []")
    case True
    then have "s2 = s1" using s2(1) by (simp add: removeOutputsWithInputsBatch_def)
    then show ?thesis using s1(1) True by (simp add: parseBlockTransactions_def mbind_run)
  next
    case False
    then show ?thesis using s1(1) s2(1) by (simp add: parseBlockTransactions_def mbind_run mseq_run Let_def)
  qed
  moreover have "view K s2 = fold apply_item (block_items sha h n (view K s) txs) (view K s)"
    by (simp add: block_items_def Let_def s2(2) vw)
  ultimately show ?thesis using s2(3) i1(2) by auto
qed

subsection \<open>Staging a whole block\<close>

definition agree :: "(bytes \<rightharpoonup> bytes) \<Rightarrow> (bytes \<rightharpoonup> bytes) \<Rightarrow> bool" where
  "agree m m' \<longleftrightarrow> (\<forall>k. \<not> other_key k \<longrightarrow> m k = m' k)"

lemma agree_items: "agree m m' \<Longrightarrow> agree (fold apply_item its m) (fold apply_item its m')"
  by (induction its arbitrary: m m') (auto simp: agree_def apply_item_def)

lemma agree_keys: "agree m m' \<Longrightarrow> m (hKey t i) = m' (hKey t i)" "agree m m' \<Longrightarrow> m (oKey scr t i) = m' (oKey scr t i)"
  "agree m m' \<Longrightarrow> m (sKey b) = m' (sKey b)"
  by (simp_all add: agree_def)

lemma event_items_agree: "agree m m' \<Longrightarrow> event_items h n m e = event_items h n m' e"
  by (cases e) (simp_all add: agree_keys)

lemma create_items_agree: "agree m m' \<Longrightarrow> create_items h n m es = create_items h n m' es"
proof (induction es arbitrary: m m')
  case (Cons e es)
  then show ?case using event_items_agree [OF Cons.prems] agree_items by simp
qed simp

lemma spends_items_agree: "agree m m' \<Longrightarrow> spends_items h n m ops = spends_items h n m' ops"
proof -
  assume ag: "agree m m'"
  have "spend_items h n m op = spend_items h n m' op" for op
    by (cases op) (simp add: spend_items_def agree_keys [OF ag] split: option.split)
  then have "spend_items h n m = spend_items h n m'" by blast
  then show ?thesis by (simp add: spends_items_def)
qed

lemma block_items_agree: "agree m m' \<Longrightarrow> block_items sha h n m txs = block_items sha h n m' txs"
  using create_items_agree spends_items_agree [OF agree_items]
  by (simp add: block_items_def block_creates_def Let_def)

lemma valid_txs_agree:
  assumes "agree (view K s) (view K s')" and "db s' = db s" and "valid_txs K s sha h n txs"
  shows "valid_txs K s' sha h n txs"
proof -
  have "block_creates sha h n (view K s') txs = block_creates sha h n (view K s) txs"
    using create_items_agree [OF assms(1)] by (simp add: block_creates_def)
  moreover have "live (fold apply_item its (view K s')) op = live (fold apply_item its (view K s)) op" for its op
    using agree_items [OF assms(1), of its] by (simp add: live_def agree_keys)
  moreover have "good_tx K s' sha t = good_tx K s sha t" for t
    by (simp add: good_tx_def good_out_def fresh_out_def assms(2))
  ultimately show ?thesis using assms(3) by (simp add: valid_txs_def)
qed

text \<open>The store the block is staged into: a new batch for the first block, else the open one.\<close>

definition stage_start :: "('d, 'n) tracker \<Rightarrow> 'd store" where
  "stage_start T = (if blocksQuantity (sync_loop T) = 0
     then (confirmed T)\<lparr>transactionArray := Some [], deletedTransactionArray := Some []\<rparr> else confirmed T)"

definition blockRecord :: "int \<Rightarrow> int \<Rightarrow> bytes \<Rightarrow> bytes" where
  "blockRecord n ts prev = be 4 (nat n) @ be 4 (nat ts) @ prev"

definition window_items :: "('d, 'n) tracker \<Rightarrow> bytes \<Rightarrow> item list" where
  "window_items T h = (let depth = min (Suc (length (lastBlocks T))) (undoBlocks T);
      w = max depth (undoWindowWatermark T) in
     Put (nKey h) [] # (if undoWindowWatermarkPersisted T = Some w then [] else [Put Q_UNDO_WATERMARK_KEY (utf8 (dec w))]))"

definition staged_items :: "(bytes \<Rightarrow> bytes) \<Rightarrow> ('d, 'n) tracker \<Rightarrow> (bytes \<rightharpoonup> bytes) \<Rightarrow> bytes \<Rightarrow> int \<Rightarrow> int \<Rightarrow> bytes \<Rightarrow> tx list \<Rightarrow> item list" where
  "staged_items sha T m h n ts prev txs =
     [Put (bKey h) (blockRecord n ts prev)] @ block_items sha h n m txs @ window_items T h"

lemma ageOut_eq:
  "ageOut undo lb da pending = (drop (length lb - undo) lb,
     fold (\<lambda>h. map_option (AList.delete (b2h h))) (take (length lb - undo) lb) da,
     pending @ take (length lb - undo) lb)"
proof (induction undo lb da pending rule: ageOut.induct)
  case (2 undo h lb da pending)
  show ?case
  proof (cases "length (h # lb) > undo")
    case True
    then have "length (h # lb) - undo = Suc (length lb - undo)" by simp
    with True 2 show ?thesis by simp
  qed simp
qed simp

lemma fold_delete_Some: "(fold (\<lambda>h. map_option (AList.delete (b2h h))) hs da = None) = (da = None)"
  by (induction hs arbitrary: da) simp_all

lemma fwd_inv_da:
  "fwd_inv K n s \<Longrightarrow> da \<noteq> None \<Longrightarrow> fwd_inv K n (s\<lparr>deletedTransactionArray := da\<rparr>)"
  by (rule fwd_inv_cong) (auto simp: fwd_inv_def staged_def)

lemma addToLastBlocks_run:
  assumes inv: "fwd_inv K n (confirmed T)" and len: "length h = 32"
  shows "\<exists>T'. addToLastBlocks K h T = (Inr (), T') \<and> fwd_inv K n (confirmed T')
    \<and> view K (confirmed T') = fold apply_item (window_items T h) (view K (confirmed T))
    \<and> db (confirmed T') = db (confirmed T)
    \<and> lastBlocks T' = drop (Suc (length (lastBlocks T)) - undoBlocks T) (lastBlocks T @ [h])
    \<and> pendingKMCleanup T' = pendingKMCleanup T @ take (Suc (length (lastBlocks T)) - undoBlocks T) (lastBlocks T @ [h])
    \<and> undoBlocks T' = undoBlocks T \<and> sync_loop T' = sync_loop T \<and> node T' = node T \<and> mempool T' = mempool T"
proof -
  let ?s1 = "stage (Put (nKey h) []) (confirmed T)"
  let ?lb = "lastBlocks T @ [h]"
  let ?k = "length ?lb - undoBlocks T"
  let ?da = "fold (\<lambda>h. map_option (AList.delete (b2h h))) (take ?k ?lb) (deletedTransactionArray (confirmed T))"
  let ?T1 = "T\<lparr>lastBlocks := drop ?k ?lb, pendingKMCleanup := pendingKMCleanup T @ take ?k ?lb,
      confirmed := ?s1\<lparr>deletedTransactionArray := ?da\<rparr>\<rparr>"
  have op: "open_batch (confirmed T)" and da: "deletedTransactionArray (confirmed T) \<noteq> None"
    using inv by (simp_all add: fwd_inv_def)
  have da': "?da \<noteq> None" using da by (simp only: fold_delete_Some not_False_eq_True)
  have i1: "fwd_inv K n (?s1\<lparr>deletedTransactionArray := ?da\<rparr>)"
    by (rule fwd_inv_da [OF fwd_inv_stage_other [OF inv] da']) simp
  have d: "min (length (drop ?k ?lb)) (undoBlocks T) = min (Suc (length (lastBlocks T))) (undoBlocks T)" by auto
  have r: "addToLastBlocks K h T = recordUndoWindowWatermark K ?T1"
    using op len by (simp add: addToLastBlocks_def addLastStoredBlock_def on_db_def codec_simps mseq_run ageOut_eq)
  let ?w = "max (min (Suc (length (lastBlocks T))) (undoBlocks T)) (undoWindowWatermark T)"
  have w: "(if min (length (lastBlocks ?T1)) (undoBlocks ?T1) > undoWindowWatermark ?T1
      then min (length (lastBlocks ?T1)) (undoBlocks ?T1) else undoWindowWatermark ?T1) = ?w"
    using d by auto
  show ?thesis
  proof (cases "undoWindowWatermarkPersisted T = Some ?w")
    case True
    have "recordUndoWindowWatermark K ?T1 = (Inr (), ?T1\<lparr>undoWindowWatermark := ?w\<rparr>)"
      using True unfolding recordUndoWindowWatermark_def Let_def w by simp
    then show ?thesis unfolding r using i1 op True
      by (auto simp: window_items_def Let_def view_simps apply_item_def)
  next
    case False
    let ?s2 = "stage (Put Q_UNDO_WATERMARK_KEY (utf8 (dec ?w))) (?s1\<lparr>deletedTransactionArray := ?da\<rparr>)"
    have "recordUndoWindowWatermark K ?T1 = (Inr (), ?T1\<lparr>undoWindowWatermark := ?w,
        undoWindowWatermarkPersisted := Some ?w, confirmed := ?s2\<rparr>)"
      using False op unfolding recordUndoWindowWatermark_def Let_def w by (simp add: on_db_def mseq_run)
    moreover have "fwd_inv K n ?s2" by (rule fwd_inv_stage_other [OF i1]) simp
    ultimately show ?thesis unfolding r using op False
      by (auto simp: window_items_def Let_def view_simps apply_item_def)
  qed
qed

lemma on_db_run: "f (confirmed T) = (r, s) \<Longrightarrow> on_db f T = (r, T\<lparr>confirmed := s\<rparr>)"
  by (simp add: on_db_def)

lemma stageBlock_run:
  assumes inv: "fwd_inv K n (stage_start T)" and val: "valid_txs K (stage_start T) sha h n (bl_transactions b)"
    and ts: "0 \<le> bl_timestamp b" "bl_timestamp b \<le> 4294967295" and prev: "length prev = 32"
  shows "\<exists>T'. stageBlock K sha b h n prev T = (Inr (), T') \<and> fwd_inv K (n + 1) (confirmed T')
    \<and> view K (confirmed T') = fold apply_item
        (staged_items sha T (view K (stage_start T)) h n (bl_timestamp b) prev (bl_transactions b)) (view K (stage_start T))
    \<and> db (confirmed T') = db (confirmed T)
    \<and> lastBlocks T' = drop (Suc (length (lastBlocks T)) - undoBlocks T) (lastBlocks T @ [h])
    \<and> pendingKMCleanup T' = pendingKMCleanup T @ take (Suc (length (lastBlocks T)) - undoBlocks T) (lastBlocks T @ [h])
    \<and> undoBlocks T' = undoBlocks T \<and> blocksQuantity (sync_loop T') = blocksQuantity (sync_loop T)
    \<and> pendingMempoolTxCleanup (sync_loop T') = pendingMempoolTxCleanup (sync_loop T) @ map tx_id (bl_transactions b)
    \<and> node T' = node T \<and> mempool T' = mempool T"
proof -
  let ?s0 = "stage_start T"
  let ?txs = "bl_transactions b"
  let ?rec = "blockRecord n (bl_timestamp b) prev"
  have len: "length h = 32" "0 \<le> n" "n \<le> 2147483647" using val by (simp_all add: valid_txs_def)
  have op: "open_batch ?s0" using inv by (simp add: fwd_inv_def)
  let ?s1 = "stage (Put (bKey h) ?rec) ?s0"
  have ib: "insertBlock K \<lparr>bi_hash = h, bi_height = n, bi_timestamp = bl_timestamp b, bi_previousHash = prev\<rparr> ?s0
      = (Inr True, ?s1)"
    using op len ts prev
    by (simp add: insertBlock_def codec_simps encodeBlock_def writeUInt32BE_def blockRecord_def)
  have i1: "fwd_inv K n ?s1" by (rule fwd_inv_stage_other [OF inv]) simp
  have dec: "decodeBlock ?rec = Inr \<lparr>blk_h = n, blk_t = bl_timestamp b, blk_ph = prev\<rparr>"
    using decode_encode_block [of n "bl_timestamp b" prev ?rec] len ts prev
    by (simp add: encodeBlock_def writeUInt32BE_def blockRecord_def)
  have b1: "block_staged h n ?s1"
    using op len dec by (simp add: block_staged_def getTransactionValue_staged staged_stage)
  have ag: "agree (view K ?s0) (view K ?s1)"
    using op by (auto simp: agree_def view_stage apply_item_def)
  have v1: "valid_txs K ?s1 sha h n ?txs" by (rule valid_txs_agree [OF ag _ val]) simp
  obtain s2 where s2: "parseBlockTransactions K sha ?txs h n ?s1
      = (Inr (sum_list (map (length \<circ> tx_outs) ?txs), length (removeInputs h ?txs)), s2)"
    "view K s2 = fold apply_item (block_items sha h n (view K ?s1) ?txs) (view K ?s1)"
    "db s2 = db ?s1" "fwd_inv K (n + 1) s2"
    using parseBlock_run [OF i1 b1 v1] by blast
  let ?T0 = "T\<lparr>confirmed := ?s0\<rparr>"
  have start: "mbind (mget (\<lambda>T. blocksQuantity (sync_loop T) = 0)) (\<lambda>first. mwhen first (on_db beginTransaction)) T
      = (Inr (), ?T0)"
    by (simp add: stage_start_def on_db_def)
  let ?y = "(sync_loop T)\<lparr>blocksCount := blocksCount (sync_loop T) + 1\<rparr>"
  let ?T2 = "T\<lparr>confirmed := s2, sync_loop := ?y\<lparr>
          transactionsCount := transactionsCount ?y + length ?txs,
          outputsCount := outputsCount ?y + sum_list (map (length \<circ> tx_outs) ?txs),
          inputsCount := inputsCount ?y + length (removeInputs h ?txs),
          pendingMempoolTxCleanup := pendingMempoolTxCleanup ?y @ map tx_id ?txs\<rparr>\<rparr>"
  have "stageBlock K sha b h n prev T = addToLastBlocks K h ?T2"
    using ib s2(1) by (cases "blocksQuantity (sync_loop T) = 0")
      (simp_all add: stageBlock_def mseq_run mbind_run on_db_def stage_start_def)
  moreover have "fwd_inv K (n + 1) (confirmed ?T2)" using s2(4) by simp
  from addToLastBlocks_run [OF this len(1)] obtain T' where T': "addToLastBlocks K h ?T2 = (Inr (), T')"
    "fwd_inv K (n + 1) (confirmed T')" "view K (confirmed T') = fold apply_item (window_items ?T2 h) (view K s2)"
    "db (confirmed T') = db s2"
    "lastBlocks T' = drop (Suc (length (lastBlocks T)) - undoBlocks T) (lastBlocks T @ [h])"
    "pendingKMCleanup T' = pendingKMCleanup T @ take (Suc (length (lastBlocks T)) - undoBlocks T) (lastBlocks T @ [h])"
    "undoBlocks T' = undoBlocks T" "sync_loop T' = sync_loop ?T2" "node T' = node T" "mempool T' = mempool T"
    by auto
  moreover have "window_items ?T2 h = window_items T h" by (simp add: window_items_def)
  moreover have "view K s2 = fold apply_item (block_items sha h n (view K ?s0) ?txs) (apply_item (Put (bKey h) ?rec) (view K ?s0))"
    using s2(2) block_items_agree [OF ag] op by (simp add: view_stage)
  moreover have "db ?s0 = db (confirmed T)" by (simp add: stage_start_def)
  ultimately show ?thesis using s2(3) by (simp add: staged_items_def)
qed

end
