(* ===== verification/Undo.thy ===== *)
theory Undo
  imports Blocks
begin

text \<open>
  Rolling back the committed tip: \<open>rollBackTipBlock\<close> of
  \<^verbatim>\<open>src/XChainUtxoTracker/reorg_verification.js\<close>, and the theorem that it is the inverse of
  staging and committing the block. The argument does not follow the order of the writes: every
  write of the rollback puts back what its key held before the block, and every key the block
  wrote is written by the rollback.
\<close>

subsection \<open>The rollback\<close>

definition rollBackBatch :: "'d kv \<Rightarrow> bytes \<Rightarrow> block_rec \<Rightarrow> (('d, 'n) tracker, unit) m" where
  "rollBackBatch K lastBlockHash lastBlock =
     mseq (on_db beginTransaction)
     (mseq (on_db (removeOutputScriptsInBlock K lastBlockHash))
     (mseq (on_db (processDeletedOutputs K lastBlockHash True))
     (mseq (on_db (removeCreatedOutputsInBlock K lastBlockHash))
     (mseq (on_db (deleteBlock K lastBlockHash))
     (mseq (removeFromLastBlocks K lastBlockHash)
     (mseq (on_db (setLastBlockHash K (blk_ph lastBlock)))
     (mseq (on_db (setLastBlockHeight K (blk_h lastBlock - 1)))
     (on_db (endTransaction K True)))))))))"

definition rollBackTipBlock :: "'d kv \<Rightarrow> bytes \<Rightarrow> block_rec \<Rightarrow> nat \<Rightarrow> (('d, 'n) tracker, bool) m" where
  "rollBackTipBlock K lastBlockHash lastBlock retryCount T =
     (case rollBackBatch K lastBlockHash lastBlock T of
        (Inr _, T') \<Rightarrow> (Inr True, T')
      | (Inl err, T') \<Rightarrow>
          let T1 = snd (on_db (endTransaction K False) T') in
          if isUnrecoverableReorg err then (Inl err, T1)
          else
            let T2 = snd (reloadLastBlocks K T1) in
            if retryCount + 1 \<ge> 10 then (Inl RollbackGaveUp, T2) else (Inr False, T2))"

subsection \<open>The writes of a block, by kind\<close>

lemma fold_items_Some:
  "fold apply_item its m k = Some v \<Longrightarrow>
     m k = Some v \<or> (\<exists>it \<in> set its. item_key it = k \<and> item_effect it = Some v)"
proof (induction its arbitrary: m)
  case (Cons it its)
  then consider "apply_item it m k = Some v" | "\<exists>it \<in> set its. item_key it = k \<and> item_effect it = Some v"
    by auto
  then show ?case by cases (auto simp: apply_item_def split: if_splits)
qed simp

lemma event_script_gain: "fold apply_item (event_items h n m e) m (sKey scr) = None \<Longrightarrow> m (sKey scr) = None"
  by (cases e) (auto simp: apply_item_def split: if_splits)

lemma create_item_cases:
  assumes "it \<in> set (create_items h n m es)"
  obtains (tx) t where "ETx t \<in> set es" "it \<in> {Put (tKey t) (h @ t), Put (xKey t) h, Put (yKey h t) t}"
  | (out) t i scr v where "EOut t i scr v \<in> set es"
      "it \<in> {Put (oKey scr t i) v, Put (hKey t i) scr, Put (wKey h t i) scr}"
  | (script) t i scr v where "EOut t i scr v \<in> set es" "m (sKey scr) = None"
      "it \<in> {Put (sKey scr) (be 4 (nat n)), Put (zKey h scr) []}"
proof -
  have "(\<exists>t. ETx t \<in> set es \<and> it \<in> {Put (tKey t) (h @ t), Put (xKey t) h, Put (yKey h t) t})
    \<or> (\<exists>t i scr v. EOut t i scr v \<in> set es \<and> it \<in> {Put (oKey scr t i) v, Put (hKey t i) scr, Put (wKey h t i) scr})
    \<or> (\<exists>t i scr v. EOut t i scr v \<in> set es \<and> m (sKey scr) = None
         \<and> it \<in> {Put (sKey scr) (be 4 (nat n)), Put (zKey h scr) []})"
    using assms
  proof (induction es arbitrary: m)
    case (Cons e es)
    let ?m = "fold apply_item (event_items h n m e) m"
    from Cons.prems consider "it \<in> set (event_items h n m e)" | "it \<in> set (create_items h n ?m es)" by auto
    then show ?case
    proof cases
      case 1
      then show ?thesis by (cases e) (simp_all split: if_splits, blast+)
    next
      case 2
      from Cons.IH [OF 2] show ?thesis using event_script_gain [of h n m e] by (metis list.set_intros(2))
    qed
  qed simp
  then show ?thesis using tx out script by blast
qed

lemma create_items_tx:
  "ETx t \<in> set es \<Longrightarrow> {Put (tKey t) (h @ t), Put (xKey t) h, Put (yKey h t) t} \<subseteq> set (create_items h n m es)"
  by (induction es arbitrary: m) auto

lemma create_items_out:
  "EOut t i scr v \<in> set es \<Longrightarrow>
   {Put (oKey scr t i) v, Put (hKey t i) scr, Put (wKey h t i) scr} \<subseteq> set (create_items h n m es)"
  by (induction es arbitrary: m) auto

lemma create_items_script:
  assumes "it \<in> set (create_items h n m es)" and "item_key it = sKey scr"
  shows "Put (zKey h scr) [] \<in> set (create_items h n m es)"
  using assms
proof (induction es arbitrary: m)
  case (Cons e es)
  then show ?case by (cases e) (auto split: if_splits)
qed simp

subsection \<open>Blocks that can be undone\<close>

definition undo_prefixes :: "byte set" where
  "undo_prefixes = {P_BLK_SCRIPT, P_OUT_DEL, P_HINT_DEL, P_OUT_BLK, P_TX_BLOCK_RECOVERY}"

definition block_key :: "bytes \<Rightarrow> bytes \<Rightarrow> bool" where
  "block_key h k \<longleftrightarrow> (\<exists>p \<in> undo_prefixes. prefix (p # h) k)"

text \<open>
  \<open>undoable m h n es ops\<close>: over contents \<open>m\<close>, a block \<open>h\<close> at height \<open>n\<close> with events \<open>es\<close> that
  spends \<open>ops\<close>. Nothing of the block is stored yet, its transactions and outputs are new, each
  transaction has an output, and the unspent outputs of \<open>m\<close> were created below \<open>n\<close>.
\<close>

definition undoable :: "(bytes \<rightharpoonup> bytes) \<Rightarrow> bytes \<Rightarrow> int \<Rightarrow> event list \<Rightarrow> (bytes \<times> u32) list \<Rightarrow> bool" where
  "undoable m h n es ops \<longleftrightarrow> length h = 32 \<and> m (bKey h) = None \<and> m (nKey h) = None
     \<and> (\<forall>k. block_key h k \<longrightarrow> m k = None)
     \<and> (\<forall>t. ETx t \<in> set es \<longrightarrow> length t = 32 \<and> m (tKey t) = None \<and> m (xKey t) = None
          \<and> (\<exists>i scr v. EOut t i scr v \<in> set es))
     \<and> (\<forall>t i scr v. EOut t i scr v \<in> set es \<longrightarrow> ETx t \<in> set es \<and> length scr = 32
          \<and> m (hKey t i) = None \<and> m (oKey scr t i) = None \<and> \<not> created_before v n
          \<and> (\<forall>scr' v'. EOut t i scr' v' \<in> set es \<longrightarrow> scr' = scr))
     \<and> (\<forall>t i scr v. m (hKey t i) = Some scr \<longrightarrow> m (oKey scr t i) = Some v \<longrightarrow> created_before v n)
     \<and> (\<forall>op \<in> set ops. length (fst op) = 32 \<and> (\<forall>scr. m (hKey (fst op) (snd op)) = Some scr \<longrightarrow> length scr = 32))"

lemma undoable_facts:
  assumes "undoable m h n es ops"
  shows "length h = 32" "m (bKey h) = None" "m (nKey h) = None" "block_key h k \<Longrightarrow> m k = None"
    and "ETx t \<in> set es \<Longrightarrow> length t = 32" "ETx t \<in> set es \<Longrightarrow> m (tKey t) = None"
    "ETx t \<in> set es \<Longrightarrow> m (xKey t) = None" "ETx t \<in> set es \<Longrightarrow> \<exists>i scr v. EOut t i scr v \<in> set es"
    and "EOut t i scr v \<in> set es \<Longrightarrow> ETx t \<in> set es" "EOut t i scr v \<in> set es \<Longrightarrow> length scr = 32"
    "EOut t i scr v \<in> set es \<Longrightarrow> m (hKey t i) = None" "EOut t i scr v \<in> set es \<Longrightarrow> m (oKey scr t i) = None"
    "EOut t i scr v \<in> set es \<Longrightarrow> \<not> created_before v n"
    "EOut t i scr v \<in> set es \<Longrightarrow> EOut t i scr' v' \<in> set es \<Longrightarrow> scr' = scr"
    and "m (hKey t i) = Some scr \<Longrightarrow> m (oKey scr t i) = Some v \<Longrightarrow> created_before v n"
    and "op \<in> set ops \<Longrightarrow> length (fst op) = 32" "op \<in> set ops \<Longrightarrow> m (hKey (fst op) (snd op)) = Some scr \<Longrightarrow> length scr = 32"
  using assms unfolding undoable_def by blast+

text \<open>The contents after the creations.\<close>

lemma created_hint:
  assumes u: "undoable m h n es ops" and c: "fold apply_item (create_items h n m es) m (hKey t i) = Some scr"
  shows "m (hKey t i) = Some scr \<or> (\<exists>v. EOut t i scr v \<in> set es)"
  using fold_items_Some [OF c] by (auto elim!: create_item_cases)

lemma created_output:
  assumes u: "undoable m h n es ops" and len: "length scr = 32"
    and c: "fold apply_item (create_items h n m es) m (oKey scr t i) = Some v"
  shows "m (oKey scr t i) = Some v \<or> EOut t i scr v \<in> set es"
  using fold_items_Some [OF c]
proof
  assume "\<exists>it \<in> set (create_items h n m es). item_key it = oKey scr t i \<and> item_effect it = Some v"
  then obtain it where it: "it \<in> set (create_items h n m es)" "item_key it = oKey scr t i" "item_effect it = Some v" by blast
  from it(1) show ?thesis
  proof (cases rule: create_item_cases)
    case (out t' i' scr' v')
    then show ?thesis using it(2,3) undoable_facts(10) [OF u out(1)] len by (auto simp: key_inject_len)
  qed (use it in auto)
qed simp

text \<open>A spend of the block: of an output of \<open>m\<close>, or of one the block created.\<close>

lemma spend_kinds:
  assumes u: "undoable m h n es ops" and mc: "mc = fold apply_item (create_items h n m es) m"
    and op: "(t, i) \<in> set ops" "mc (hKey t i) = Some scr" "mc (oKey scr t i) = Some v"
  shows "length t = 32" "length scr = 32"
    and "created_before v n \<Longrightarrow> m (hKey t i) = Some scr \<and> m (oKey scr t i) = Some v"
    and "\<not> created_before v n \<Longrightarrow> \<exists>v'. EOut t i scr v' \<in> set es"
proof -
  have ch: "m (hKey t i) = Some scr \<or> (\<exists>v. EOut t i scr v \<in> set es)"
    using created_hint [OF u] op(2) mc by simp
  show lt: "length t = 32" using undoable_facts(16) [OF u op(1)] by simp
  show ls: "length scr = 32" using ch undoable_facts(10,17) [OF u] op(1) by fastforce
  have co: "m (oKey scr t i) = Some v \<or> EOut t i scr v \<in> set es"
    using created_output [OF u ls] op(3) mc by simp
  show "m (hKey t i) = Some scr \<and> m (oKey scr t i) = Some v" if "created_before v n"
  proof -
    have o: "m (oKey scr t i) = Some v" using co that undoable_facts(13) [OF u] by blast
    then show ?thesis using ch undoable_facts(12) [OF u] by force
  qed
  show "\<exists>v'. EOut t i scr v' \<in> set es" if "\<not> created_before v n"
    using ch co that undoable_facts(15) [OF u] by blast
qed

lemma spend_item_cases:
  assumes "it \<in> set (spends_items h n mc ops)"
  obtains t i scr v where "(t, i) \<in> set ops" "mc (hKey t i) = Some scr" "mc (oKey scr t i) = Some v"
    "created_before v n \<and> it \<in> {Put (mKey h t i) scr, Put (kKey h scr t i) v}
     \<or> it \<in> {Del (oKey scr t i) None, Del (hKey t i) None}"
proof -
  obtain op where op: "op \<in> set ops" "it \<in> set (spend_items h n mc op)"
    using assms by (auto simp: spends_items_mem)
  obtain t i where ti: "op = (t, i)" by (cases op)
  obtain scr where scr: "mc (hKey t i) = Some scr"
    using op(2) by (cases "mc (hKey t i)") (simp_all add: spend_items_def ti)
  obtain v where v: "mc (oKey scr t i) = Some v"
    using op(2) scr by (cases "mc (oKey scr t i)") (simp_all add: spend_items_def ti)
  have "created_before v n \<and> it \<in> {Put (mKey h t i) scr, Put (kKey h scr t i) v}
     \<or> it \<in> {Del (oKey scr t i) None, Del (hKey t i) None}"
    using op(2) scr v by (auto simp: spend_items_def ti split: if_splits)
  then show ?thesis using op(1) ti scr v that by blast
qed

lemma spend_items_in:
  assumes "(t, i) \<in> set ops" "mc (hKey t i) = Some scr" "mc (oKey scr t i) = Some v" "created_before v n"
  shows "{Put (mKey h t i) scr, Put (kKey h scr t i) v} \<subseteq> set (spends_items h n mc ops)"
  using assms by (force simp: spends_items_mem spend_items_def)

subsection \<open>What the block leaves behind\<close>

definition block_writes :: "bytes \<Rightarrow> int \<Rightarrow> (bytes \<rightharpoonup> bytes) \<Rightarrow> event list \<Rightarrow> (bytes \<times> u32) list \<Rightarrow> item list" where
  "block_writes h n m es ops = (let cs = create_items h n m es in
     cs @ spends_items h n (fold apply_item cs m) ops)"

text \<open>\<open>left_by m h n es ops its\<close>: the writes are those of the block, a block record and the window's.\<close>

definition left_by :: "(bytes \<rightharpoonup> bytes) \<Rightarrow> bytes \<Rightarrow> int \<Rightarrow> event list \<Rightarrow> (bytes \<times> u32) list \<Rightarrow> item list \<Rightarrow> bool" where
  "left_by m h n es ops its \<longleftrightarrow> set (block_writes h n m es ops) \<subseteq> set its
     \<and> (\<forall>it \<in> set its. it \<in> set (block_writes h n m es ops) \<or> item_key it \<in> {bKey h, nKey h, Q_UNDO_WATERMARK_KEY})"

lemma block_key_items:
  "\<not> block_key h (bKey h')" "\<not> block_key h (nKey h')" "\<not> block_key h (tKey t)" "\<not> block_key h (xKey t)"
  "\<not> block_key h (oKey scr t i)" "\<not> block_key h (hKey t i)" "\<not> block_key h (sKey scr)"
  "\<not> block_key h Q_UNDO_WATERMARK_KEY" "\<not> block_key h PREFIX_LAST_BLOCK_HEIGHT"
  "\<not> block_key h PREFIX_LAST_BLOCK_HASH" "\<not> block_key h P_PENDING_CLEANUP_KEY"
  by (simp_all add: block_key_def undo_prefixes_def key_defs prefix_defs meta_defs)

lemma block_keys [simp]:
  "block_key h (zKey h scr)" "block_key h (kKey h scr t i)" "block_key h (mKey h t i)"
  "block_key h (wKey h t i)" "block_key h (yKey h t)"
  by (simp_all add: block_key_def undo_prefixes_def key_defs prefix_defs)

text \<open>Every record of the block under its undo prefixes.\<close>

lemma block_record_cases:
  assumes u: "undoable m h n es ops" and l: "left_by m h n es ops its"
    and k: "fold apply_item its m k = Some v" "block_key h k"
    and mc: "mc = fold apply_item (create_items h n m es) m"
  obtains (script) t i scr v' where "k = zKey h scr" "v = []" "EOut t i scr v' \<in> set es" "m (sKey scr) = None"
  | (out) t i scr where "k = kKey h scr t i" "(t, i) \<in> set ops" "mc (hKey t i) = Some scr" "mc (oKey scr t i) = Some v" "created_before v n"
  | (hint) t i w where "k = mKey h t i" "(t, i) \<in> set ops" "mc (hKey t i) = Some v" "mc (oKey v t i) = Some w" "created_before w n"
  | (made) t i v' where "k = wKey h t i" "EOut t i v v' \<in> set es"
  | (tx) t where "k = yKey h t" "v = t" "ETx t \<in> set es"
proof -
  have "m k = None" by (rule undoable_facts(4) [OF u k(2)])
  then obtain it where it: "it \<in> set its" "item_key it = k" "item_effect it = Some v"
    using fold_items_Some [OF k(1)] by auto
  have "it \<in> set (create_items h n m es) \<or> it \<in> set (spends_items h n mc ops)"
    using l it(1,2) k(2) mc by (auto simp: left_by_def block_writes_def Let_def block_key_items)
  then show ?thesis
  proof
    assume "it \<in> set (create_items h n m es)"
    then show ?thesis
    proof (cases rule: create_item_cases)
      case (tx t)
      then show ?thesis using it(2,3) k(2) that(5) by (auto simp: block_key_items)
    next
      case (out t i scr v')
      then show ?thesis using it(2,3) k(2) that(4) by (auto simp: block_key_items)
    next
      case (script t i scr v')
      then show ?thesis using it(2,3) k(2) that(1) by (auto simp: block_key_items)
    qed
  next
    assume "it \<in> set (spends_items h n mc ops)"
    then show ?thesis
      by (cases rule: spend_item_cases) (use it(2,3) k(2) that(2,3) in \<open>auto simp: block_key_items\<close>)
  qed
qed

text \<open>The records a rollback relies on are there.\<close>

lemma left_record:
  assumes l: "left_by m h n es ops its" and it: "it \<in> set (block_writes h n m es ops)" "item_key it = k"
    and k: "k \<notin> {bKey h, nKey h, Q_UNDO_WATERMARK_KEY}"
    and same: "\<And>it'. it' \<in> set (block_writes h n m es ops) \<Longrightarrow> item_key it' = k \<Longrightarrow> item_effect it' = item_effect it"
  shows "fold apply_item its m k = item_effect it"
proof (rule apply_items_same)
  show "\<forall>it' \<in> set its. item_key it' = k \<longrightarrow> item_effect it' = item_effect it"
    using l k same by (auto simp: left_by_def)
  show "m k = item_effect it \<or> (\<exists>it \<in> set its. item_key it = k)"
    using l it by (auto simp: left_by_def)
qed

lemma block_writes_cases:
  assumes "it \<in> set (block_writes h n m es ops)" and mc: "mc = fold apply_item (create_items h n m es) m"
  obtains (tx) t where "ETx t \<in> set es" "it \<in> {Put (tKey t) (h @ t), Put (xKey t) h, Put (yKey h t) t}"
  | (out) t i scr v where "EOut t i scr v \<in> set es"
      "it \<in> {Put (oKey scr t i) v, Put (hKey t i) scr, Put (wKey h t i) scr}"
  | (script) t i scr v where "EOut t i scr v \<in> set es" "m (sKey scr) = None"
      "it = Put (sKey scr) (be 4 (nat n)) \<and> Put (zKey h scr) [] \<in> set (block_writes h n m es ops) \<or> it = Put (zKey h scr) []"
  | (spend) t i scr v where "(t, i) \<in> set ops" "mc (hKey t i) = Some scr" "mc (oKey scr t i) = Some v"
    "created_before v n \<and> it \<in> {Put (mKey h t i) scr, Put (kKey h scr t i) v}
     \<or> it \<in> {Del (oKey scr t i) None, Del (hKey t i) None}"
proof -
  consider "it \<in> set (create_items h n m es)" | "it \<in> set (spends_items h n mc ops)"
    using assms by (auto simp: block_writes_def Let_def)
  then show ?thesis
  proof cases
    case 1
    then show ?thesis
    proof (cases rule: create_item_cases)
      case (script t i scr v)
      then show ?thesis using 1 create_items_script [OF 1, of scr] that(3) [of t i scr v]
        by (auto simp: block_writes_def Let_def)
    qed (use that(1,2) in blast)+
  next
    case 2
    then show ?thesis by (cases rule: spend_item_cases) (use that(4) in blast)
  qed
qed

lemma left_facts:
  assumes u: "undoable m h n es ops" and l: "left_by m h n es ops its"
    and mc: "mc = fold apply_item (create_items h n m es) m"
  shows "ETx t \<in> set es \<Longrightarrow> fold apply_item its m (tKey t) = Some (h @ t)"
    and "ETx t \<in> set es \<Longrightarrow> fold apply_item its m (xKey t) = Some h"
    and "ETx t \<in> set es \<Longrightarrow> fold apply_item its m (yKey h t) = Some t"
    and "EOut t i scr v \<in> set es \<Longrightarrow> fold apply_item its m (wKey h t i) = Some scr"
    and "Put (zKey h scr) [] \<in> set (block_writes h n m es ops) \<Longrightarrow> fold apply_item its m (zKey h scr) = Some []"
    and "(t, i) \<in> set ops \<Longrightarrow> mc (hKey t i) = Some scr \<Longrightarrow> mc (oKey scr t i) = Some v \<Longrightarrow> created_before v n
      \<Longrightarrow> fold apply_item its m (mKey h t i) = Some scr"
    and "(t, i) \<in> set ops \<Longrightarrow> mc (hKey t i) = Some scr \<Longrightarrow> mc (oKey scr t i) = Some v \<Longrightarrow> created_before v n
      \<Longrightarrow> fold apply_item its m (kKey h scr t i) = Some v"
proof -
  note lr = left_record [OF l]
  note bc = block_writes_cases [OF _ mc, of _ ops]
  have sub: "set (create_items h n m es) \<subseteq> set (block_writes h n m es ops)"
    by (auto simp: block_writes_def Let_def)
  have txk: "fold apply_item its m k = Some v" if e: "ETx t \<in> set es"
    and kv: "(k, v) \<in> {(tKey t, h @ t), (xKey t, h), (yKey h t, t)}" for k v
  proof -
    have "item_effect it' = Some v" if "it' \<in> set (block_writes h n m es ops)" "item_key it' = k" for it'
      using that(1) by (cases rule: bc) (use that(2) kv in auto)
    then show ?thesis
      using lr [of "Put k v"] create_items_tx [OF e, of h n m] sub kv by auto
  qed
  show "fold apply_item its m (tKey t) = Some (h @ t)" "fold apply_item its m (xKey t) = Some h"
    "fold apply_item its m (yKey h t) = Some t" if "ETx t \<in> set es"
    using txk [OF that] by auto
  show "fold apply_item its m (wKey h t i) = Some scr" if e: "EOut t i scr v \<in> set es"
  proof -
    have "item_effect it' = Some scr" if "it' \<in> set (block_writes h n m es ops)" "item_key it' = wKey h t i" for it'
      using that(1) by (cases rule: bc) (use that(2) undoable_facts(14) [OF u e] in auto)
    then show ?thesis
      using lr [of "Put (wKey h t i) scr"] create_items_out [OF e, of h n m] sub by auto
  qed
  show "fold apply_item its m (zKey h scr) = Some []" if z: "Put (zKey h scr) [] \<in> set (block_writes h n m es ops)"
  proof -
    have "item_effect it' = Some []" if "it' \<in> set (block_writes h n m es ops)" "item_key it' = zKey h scr" for it'
      using that(1) by (cases rule: bc) (use that(2) in auto)
    then show ?thesis using lr [OF z] by auto
  qed
  assume s: "(t, i) \<in> set ops" "mc (hKey t i) = Some scr" "mc (oKey scr t i) = Some v" "created_before v n"
  have in': "{Put (mKey h t i) scr, Put (kKey h scr t i) v} \<subseteq> set (block_writes h n m es ops)"
    using spend_items_in [OF s] by (auto simp: block_writes_def Let_def mc)
  have "item_effect it' = Some scr" if "it' \<in> set (block_writes h n m es ops)" "item_key it' = mKey h t i" for it'
    using that(1) by (cases rule: bc) (use that(2) s in auto)
  then show "fold apply_item its m (mKey h t i) = Some scr"
    using lr [of "Put (mKey h t i) scr"] in' by auto
  have "item_effect it' = Some v" if "it' \<in> set (block_writes h n m es ops)" "item_key it' = kKey h scr t i" for it'
    using that(1) mc
  proof (cases rule: block_writes_cases)
    case (spend t' i' scr' v')
    have "length scr' = 32" "length scr = 32"
      using spend_kinds(2) [OF u mc spend(1-3)] spend_kinds(2) [OF u mc s(1-3)] .
    then show ?thesis using spend that(2) s by (auto simp: key_inject_len)
  qed (use that(2) in auto)
  then show "fold apply_item its m (kKey h scr t i) = Some v"
    using lr [of "Put (kKey h scr t i) v"] in' by auto
qed

subsection \<open>The writes of a rollback\<close>

definition undo_items :: "(bytes \<rightharpoonup> bytes) \<Rightarrow> bytes \<Rightarrow> (byte \<Rightarrow> (bytes \<times> bytes) list) \<Rightarrow> item list" where
  "undo_items D h sc =
     concat (map unscript_items (sc P_BLK_SCRIPT))
     @ (concat (map (restore_items P_OUTPUT True) (sc P_OUT_DEL))
        @ concat (map (restore_items P_OUT_HINT True) (sc P_HINT_DEL)))
     @ concat (map uncreate_items (sc P_OUT_BLK))
     @ deleteTxLoop_items D h (sc P_OUT_BLK) {}
     @ [Del (bKey h) None, Del (nKey h) None]"

definition scans_of :: "(bytes \<rightharpoonup> bytes) \<Rightarrow> bytes \<Rightarrow> (byte \<Rightarrow> (bytes \<times> bytes) list) \<Rightarrow> bool" where
  "scans_of D h sc \<longleftrightarrow> (\<forall>p \<in> undo_prefixes. \<forall>k v. (k, v) \<in> set (sc p) \<longleftrightarrow> D k = Some v \<and> prefix (p # h) k)"

lemma deleteTxLoop_mem:
  "it \<in> set (deleteTxLoop_items D h es seen) \<longleftrightarrow>
     (\<exists>(k, v) \<in> set es. wTxid k \<notin> seen \<and> it \<in> set (txBlockRecord_items D (wTxid k) h))"
proof (induction D h es seen rule: deleteTxLoop_items.induct)
  case (2 D h key v es seen)
  show ?case
  proof (cases "wTxid key \<in> seen")
    case True
    with 2 show ?thesis by (simp add: split_beta)
  next
    case False
    have "(\<exists>x \<in> set es. wTxid (fst x) \<notin> insert (wTxid key) seen \<and> it \<in> set (txBlockRecord_items D (wTxid (fst x)) h))
        \<or> it \<in> set (txBlockRecord_items D (wTxid key) h)
      \<longleftrightarrow> (\<exists>x \<in> set ((key, v) # es). wTxid (fst x) \<notin> seen \<and> it \<in> set (txBlockRecord_items D (wTxid (fst x)) h))"
      using False by simp metis
    with False 2 show ?thesis by (simp only: deleteTxLoop_items.simps split_beta if_False set_append Un_iff) blast
  qed
qed simp

lemma raw_fields:
  assumes "length h = 32"
  shows "drop 33 (zKey h scr) = scr" "P_OUTPUT # drop 33 (kKey h scr t i) = oKey scr t i"
    "P_OUT_HINT # drop 33 (mKey h t i) = hKey t i" "P_SCRIPT_BLK # scr = sKey scr"
    "length t = 32 \<Longrightarrow> wTxid (wKey h t i) = t" "length t = 32 \<Longrightarrow> slice 33 65 (wKey h t i) = t"
    "length t = 32 \<Longrightarrow> slice 65 69 (wKey h t i) = be32 i"
    "P_OUTPUT # scr @ t @ be32 i = oKey scr t i" "P_OUT_HINT # t @ be32 i = hKey t i"
  using assms by (simp_all add: key_defs wTxid_def slice_def)

lemma prefix_heads:
  "prefix (p # h) (zKey h' scr) \<Longrightarrow> p = P_BLK_SCRIPT" "prefix (p # h) (kKey h' scr t i) \<Longrightarrow> p = P_OUT_DEL"
  "prefix (p # h) (mKey h' t i) \<Longrightarrow> p = P_HINT_DEL" "prefix (p # h) (wKey h' t i) \<Longrightarrow> p = P_OUT_BLK"
  "prefix (p # h) (yKey h' t) \<Longrightarrow> p = P_TX_BLOCK_RECOVERY"
  by (simp_all add: key_defs)

lemma prefix_self [simp]:
  "prefix (P_BLK_SCRIPT # h) (zKey h scr)" "prefix (P_OUT_DEL # h) (kKey h scr t i)"
  "prefix (P_HINT_DEL # h) (mKey h t i)" "prefix (P_OUT_BLK # h) (wKey h t i)"
  "prefix (P_TX_BLOCK_RECOVERY # h) (yKey h t)"
  by (simp_all add: key_defs)

text \<open>Every write of the rollback puts back what its key held before the block.\<close>

definition reads_agree :: "bytes \<Rightarrow> (bytes \<rightharpoonup> bytes) \<Rightarrow> (bytes \<rightharpoonup> bytes) \<Rightarrow> bool" where
  "reads_agree h D m' \<longleftrightarrow> (\<forall>k. block_key h k \<longrightarrow> D k = m' k)
     \<and> (\<forall>t. D (tKey t) = m' (tKey t) \<and> D (xKey t) = m' (xKey t))"

lemma scan_record_cases:
  assumes u: "undoable m h n es ops" and l: "left_by m h n es ops its"
    and d: "reads_agree h D (fold apply_item its m)" and sc: "scans_of D h sc"
    and kv: "(k, v) \<in> set (sc p)" "p \<in> undo_prefixes"
    and mc: "mc = fold apply_item (create_items h n m es) m"
  obtains (script) t i scr v' where "p = P_BLK_SCRIPT" "k = zKey h scr" "m (sKey scr) = None"
  | (out) t i scr where "p = P_OUT_DEL" "k = kKey h scr t i" "m (oKey scr t i) = Some v"
  | (hint) t i where "p = P_HINT_DEL" "k = mKey h t i" "m (hKey t i) = Some v"
  | (made) t i v' where "p = P_OUT_BLK" "k = wKey h t i" "EOut t i v v' \<in> set es" "length t = 32"
  | (tx) t where "p = P_TX_BLOCK_RECOVERY" "k = yKey h t"
proof -
  have "D k = Some v" and pre: "prefix (p # h) k"
    using sc kv by (auto simp: scans_of_def)
  then have b: "block_key h k" using kv(2) by (auto simp: block_key_def)
  then have "fold apply_item its m k = Some v" using d \<open>D k = Some v\<close> by (auto simp: reads_agree_def)
  from u l this b mc show ?thesis
  proof (cases rule: block_record_cases)
    case (script t i scr v')
    then show ?thesis using prefix_heads(1) pre that(1) by blast
  next
    case (out t i scr)
    then show ?thesis using prefix_heads(2) pre spend_kinds(3) [OF u mc out(2-5)] that(2) by blast
  next
    case (hint t i w)
    then show ?thesis using prefix_heads(3) pre spend_kinds(3) [OF u mc hint(2-5)] that(3) by blast
  next
    case (made t i v')
    then show ?thesis using prefix_heads(4) pre undoable_facts(5,9) [OF u] that(4) by blast
  next
    case (tx t)
    then show ?thesis using prefix_heads(5) pre that(5) by blast
  qed
qed

lemma undo_tx_items:
  assumes u: "undoable m h n es ops" and l: "left_by m h n es ops its"
    and d: "reads_agree h D (fold apply_item its m)" and t: "ETx t \<in> set es"
  shows "txBlockRecord_items D t h = [Del (tKey t) None, Del (xKey t) None, Del (yKey h t) None]"
proof -
  have "D (tKey t) = Some (h @ t)" "D (xKey t) = Some h" "D (yKey h t) = Some t"
    using left_facts(1-3) [OF u l refl t] d by (simp_all add: reads_agree_def)
  then show ?thesis
    using undoable_facts(1) [OF u] by (simp add: txBlockRecord_items_def decodeTx_def slice_def)
qed

lemma undo_prefix_members [simp]:
  "P_BLK_SCRIPT \<in> undo_prefixes" "P_OUT_DEL \<in> undo_prefixes" "P_HINT_DEL \<in> undo_prefixes"
  "P_OUT_BLK \<in> undo_prefixes" "P_TX_BLOCK_RECOVERY \<in> undo_prefixes"
  by (simp_all add: undo_prefixes_def)

lemma undo_prefix_distinct [simp]:
  "distinct [P_BLK_SCRIPT, P_OUT_DEL, P_HINT_DEL, P_OUT_BLK, P_TX_BLOCK_RECOVERY]"
  "P_BLK_SCRIPT \<noteq> P_OUT_DEL" "P_BLK_SCRIPT \<noteq> P_HINT_DEL" "P_BLK_SCRIPT \<noteq> P_OUT_BLK" "P_BLK_SCRIPT \<noteq> P_TX_BLOCK_RECOVERY"
  "P_OUT_DEL \<noteq> P_BLK_SCRIPT" "P_OUT_DEL \<noteq> P_HINT_DEL" "P_OUT_DEL \<noteq> P_OUT_BLK" "P_OUT_DEL \<noteq> P_TX_BLOCK_RECOVERY"
  "P_HINT_DEL \<noteq> P_BLK_SCRIPT" "P_HINT_DEL \<noteq> P_OUT_DEL" "P_HINT_DEL \<noteq> P_OUT_BLK" "P_HINT_DEL \<noteq> P_TX_BLOCK_RECOVERY"
  "P_OUT_BLK \<noteq> P_BLK_SCRIPT" "P_OUT_BLK \<noteq> P_OUT_DEL" "P_OUT_BLK \<noteq> P_HINT_DEL" "P_OUT_BLK \<noteq> P_TX_BLOCK_RECOVERY"
  by (simp_all add: prefix_defs)

lemma undo_puts_back:
  assumes u: "undoable m h n es ops" and l: "left_by m h n es ops its"
    and d: "reads_agree h D (fold apply_item its m)" and sc: "scans_of D h sc"
    and it: "it \<in> set (undo_items D h sc)"
  shows "item_effect it = m (item_key it)"
proof -
  note lh = undoable_facts(1) [OF u]
  note sr = scan_record_cases [OF u l d sc _ _ refl]
  from it consider (z) k v where "(k, v) \<in> set (sc P_BLK_SCRIPT)" "it \<in> set (unscript_items (k, v))"
    | (k) k v where "(k, v) \<in> set (sc P_OUT_DEL)" "it \<in> set (restore_items P_OUTPUT True (k, v))"
    | (m) k v where "(k, v) \<in> set (sc P_HINT_DEL)" "it \<in> set (restore_items P_OUT_HINT True (k, v))"
    | (w) k v where "(k, v) \<in> set (sc P_OUT_BLK)" "it \<in> set (uncreate_items (k, v))"
    | (t) k v where "(k, v) \<in> set (sc P_OUT_BLK)" "it \<in> set (txBlockRecord_items D (wTxid k) h)"
    | (b) "it \<in> {Del (bKey h) None, Del (nKey h) None}"
    by (fastforce simp: undo_items_def deleteTxLoop_mem simp del: unscript_items.simps restore_items.simps uncreate_items.simps)
  then show ?thesis
  proof cases
    case z
    then show ?thesis by (cases rule: sr [OF z(1)])
        (use undoable_facts(4) [OF u] lh in \<open>auto simp: raw_fields\<close>)
  next
    case k
    then show ?thesis by (cases rule: sr [OF k(1)])
        (use undoable_facts(4) [OF u] lh in \<open>auto simp: raw_fields\<close>)
  next
    case m
    then show ?thesis by (cases rule: sr [OF m(1)])
        (use undoable_facts(4) [OF u] lh in \<open>auto simp: raw_fields\<close>)
  next
    case w
    show ?thesis
      using u l d sc w(1) undo_prefix_members(4) refl
    proof (cases rule: scan_record_cases)
      case (made t i v')
      then show ?thesis using w(2) undoable_facts(4,11,12) [OF u] lh by (auto simp: raw_fields)
    qed (use w in auto)
  next
    case t
    show ?thesis
      using u l d sc t(1) undo_prefix_members(4) refl
    proof (cases rule: scan_record_cases)
      case (made t' i v')
      then have "ETx t' \<in> set es" "wTxid k = t'" using undoable_facts(9) [OF u] lh by (auto simp: raw_fields)
      then show ?thesis using t(2) undo_tx_items [OF u l d] undoable_facts(4,6,7) [OF u] by auto
    qed auto
  next
    case b
    then show ?thesis using undoable_facts(2,3) [OF u] by auto
  qed
qed

lemma undo_items_scans:
  "e \<in> set (sc P_BLK_SCRIPT) \<Longrightarrow> set (unscript_items e) \<subseteq> set (undo_items D h sc)"
  "e \<in> set (sc P_OUT_DEL) \<Longrightarrow> set (restore_items P_OUTPUT True e) \<subseteq> set (undo_items D h sc)"
  "e \<in> set (sc P_HINT_DEL) \<Longrightarrow> set (restore_items P_OUT_HINT True e) \<subseteq> set (undo_items D h sc)"
  "e \<in> set (sc P_OUT_BLK) \<Longrightarrow> set (uncreate_items e) \<subseteq> set (undo_items D h sc)"
proof -
  have sub: "set (f e) \<subseteq> set (concat (map f xs))" if "e \<in> set xs" for f :: "bytes \<times> bytes \<Rightarrow> item list" and xs
    using that by auto
  note d = undo_items_def set_append
  show "e \<in> set (sc P_BLK_SCRIPT) \<Longrightarrow> set (unscript_items e) \<subseteq> set (undo_items D h sc)"
    using sub [of "sc P_BLK_SCRIPT" unscript_items] unfolding d by blast
  show "e \<in> set (sc P_OUT_DEL) \<Longrightarrow> set (restore_items P_OUTPUT True e) \<subseteq> set (undo_items D h sc)"
    using sub [of "sc P_OUT_DEL" "restore_items P_OUTPUT True"] unfolding d by blast
  show "e \<in> set (sc P_HINT_DEL) \<Longrightarrow> set (restore_items P_OUT_HINT True e) \<subseteq> set (undo_items D h sc)"
    using sub [of "sc P_HINT_DEL" "restore_items P_OUT_HINT True"] unfolding d by blast
  show "e \<in> set (sc P_OUT_BLK) \<Longrightarrow> set (uncreate_items e) \<subseteq> set (undo_items D h sc)"
    using sub [of "sc P_OUT_BLK" uncreate_items] unfolding d by blast
qed

text \<open>Every key the block wrote, but for the window's mark, is written by the rollback.\<close>

lemma undo_covers:
  assumes u: "undoable m h n es ops" and l: "left_by m h n es ops its"
    and d: "reads_agree h D (fold apply_item its m)" and sc: "scans_of D h sc"
    and it: "it \<in> set its" "item_key it \<noteq> Q_UNDO_WATERMARK_KEY"
  shows "\<exists>it' \<in> set (undo_items D h sc). item_key it' = item_key it"
proof -
  note lh = undoable_facts(1) [OF u]
  have scan: "(k, v) \<in> set (sc p)" if "fold apply_item its m k = Some v" "block_key h k" "prefix (p # h) k" "p \<in> undo_prefixes" for k v p
    using that sc d by (auto simp: scans_of_def reads_agree_def)
  have zs: "{Del (sKey scr) None, Del (zKey h scr) None} \<subseteq> set (undo_items D h sc)"
    if "Put (zKey h scr) [] \<in> set (block_writes h n m es ops)" for scr
  proof -
    have "(zKey h scr, []) \<in> set (sc P_BLK_SCRIPT)" using left_facts(5) [OF u l refl that] by (intro scan) auto
    then have "set (unscript_items (zKey h scr, [])) \<subseteq> set (undo_items D h sc)" by (rule undo_items_scans)
    then show ?thesis using lh by (simp add: raw_fields)
  qed
  have made: "{Del (oKey scr t i) None, Del (hKey t i) None, Del (wKey h t i) None} \<subseteq> set (undo_items D h sc)"
    "set (txBlockRecord_items D t h) \<subseteq> set (undo_items D h sc)"
    if e: "EOut t i scr v \<in> set es" for t i scr v
  proof -
    have w: "(wKey h t i, scr) \<in> set (sc P_OUT_BLK)" using left_facts(4) [OF u l refl e] by (intro scan) auto
    have lt: "length t = 32" using undoable_facts(5,9) [OF u] e by blast
    have "set (uncreate_items (wKey h t i, scr)) \<subseteq> set (undo_items D h sc)" using w by (rule undo_items_scans)
    then show "{Del (oKey scr t i) None, Del (hKey t i) None, Del (wKey h t i) None} \<subseteq> set (undo_items D h sc)"
      using lh lt by (simp add: raw_fields)
    have "set (txBlockRecord_items D (wTxid (wKey h t i)) h) \<subseteq> set (undo_items D h sc)"
      using w by (force simp: undo_items_def deleteTxLoop_mem)
    then show "set (txBlockRecord_items D t h) \<subseteq> set (undo_items D h sc)" using lh lt by (simp add: raw_fields)
  qed
  have spent: "{Put (oKey scr t i) v, Del (kKey h scr t i) None, Put (hKey t i) scr, Del (mKey h t i) None} \<subseteq> set (undo_items D h sc)"
    if s: "(t, i) \<in> set ops" "fold apply_item (create_items h n m es) m (hKey t i) = Some scr"
      "fold apply_item (create_items h n m es) m (oKey scr t i) = Some v" "created_before v n" for t i scr v
  proof -
    have k: "(kKey h scr t i, v) \<in> set (sc P_OUT_DEL)" using left_facts(7) [OF u l refl s] by (intro scan) auto
    have m: "(mKey h t i, scr) \<in> set (sc P_HINT_DEL)" using left_facts(6) [OF u l refl s] by (intro scan) auto
    have "set (restore_items P_OUTPUT True (kKey h scr t i, v)) \<subseteq> set (undo_items D h sc)"
      "set (restore_items P_OUT_HINT True (mKey h t i, scr)) \<subseteq> set (undo_items D h sc)"
      using k m by (auto intro: undo_items_scans [THEN subsetD] simp del: restore_items.simps)
    then show ?thesis using lh by (simp add: raw_fields)
  qed
  have bn: "{Del (bKey h) None, Del (nKey h) None} \<subseteq> set (undo_items D h sc)" by (simp add: undo_items_def)
  have key: "\<exists>it' \<in> set (undo_items D h sc). item_key it' = k" if "x \<in> set (undo_items D h sc)" "item_key x = k" for x k
    using that by blast
  show ?thesis
  proof (cases "it \<in> set (block_writes h n m es ops)")
    case False
    then have "item_key it \<in> {bKey h, nKey h}" using l it by (auto simp: left_by_def)
    then have "\<exists>it' \<in> {Del (bKey h) None, Del (nKey h) None}. item_key it' = item_key it" by auto
    then show ?thesis using bn by blast
  next
    case True
    from True refl show ?thesis
    proof (cases rule: block_writes_cases)
      case (tx t)
      obtain i scr v where e: "EOut t i scr v \<in> set es" using undoable_facts(8) [OF u tx(1)] by blast
      have "{Del (tKey t) None, Del (xKey t) None, Del (yKey h t) None} \<subseteq> set (undo_items D h sc)"
        using made(2) [OF e] undo_tx_items [OF u l d tx(1)] by simp
      then show ?thesis using tx(2) by (force intro: key)
    next
      case (out t i scr v)
      then show ?thesis using made(1) [OF out(1)] by (force intro: key)
    next
      case (script t i scr v)
      then show ?thesis using zs [of scr] True by (force intro: key)
    next
      case (spend t i scr v)
      show ?thesis
      proof (cases "created_before v n")
        case b: True
        show ?thesis using spend(4) spent [OF spend(1-3) b] by (force intro: key)
      next
        case False
        obtain v' where "EOut t i scr v' \<in> set es" using spend_kinds(4) [OF u refl spend(1-3) False] by blast
        then show ?thesis using spend(4) made(1) False by (force intro: key)
      qed
    qed
  qed
qed

theorem undo_restores:
  assumes "undoable m h n es ops" and "left_by m h n es ops its"
    and "reads_agree h D (fold apply_item its m)" and "scans_of D h sc"
    and "D k = fold apply_item its m k" and "k \<noteq> Q_UNDO_WATERMARK_KEY"
  shows "fold apply_item (undo_items D h sc) D k = m k"
proof (cases "\<exists>it \<in> set (undo_items D h sc). item_key it = k")
  case True
  then show ?thesis
    using undo_puts_back [OF assms(1-4)] by (intro apply_items_same) auto
next
  case False
  then have "\<forall>it \<in> set its. item_key it \<noteq> k"
    using undo_covers [OF assms(1-4)] assms(6) by metis
  then show ?thesis using False assms(5) by (simp add: apply_items_other)
qed

subsection \<open>Running the rollback\<close>

lemma on_db_run' [simp]: "mseq (on_db f) g T = (case f (confirmed T) of
    (Inl e, s) \<Rightarrow> (Inl e, T\<lparr>confirmed := s\<rparr>) | (Inr a, s) \<Rightarrow> g (T\<lparr>confirmed := s\<rparr>))"
  by (simp add: mseq_def mbind_def on_db_def split: prod.split sum.split)

lemma staged_ok_begin [simp]: "staged_ok (s\<lparr>transactionArray := Some []\<rparr>)"
  by (simp add: staged_ok_def)

lemma removeLastStoredBlock_run:
  assumes "open_batch s" and "staged s (nKey h) = None" and "length h = 32"
  shows "removeLastStoredBlock K h s = (Inr True, stage (Del (nKey h) None) s)"
proof -
  obtain ta where ta: "transactionArray s = Some ta" using assms(1) by (auto simp: open_batch_def)
  then have "removeTransactionIfExists (nKey h) s = (Inr False, s)"
    using assms(2) by (simp add: removeTransactionIfExists_def staged_def)
  then have "mbind (removeTransactionIfExists (nKey h)) f s = f False s" for f :: "bool \<Rightarrow> ('a store, bool) m"
    by (simp add: mbind_def)
  then show ?thesis using assms by (simp add: removeLastStoredBlock_def codec_simps)
qed

lemma indexOf_last: "x \<notin> set xs \<Longrightarrow> indexOf x (xs @ [x]) = length xs"
  by (induction xs) (auto simp: indexOf_def)

lemma removeFromLastBlocks_run:
  assumes "lastBlocks T = lb @ [h]" and "h \<notin> set lb" and "open_batch (confirmed T)"
    and "staged (confirmed T) (nKey h) = None" and "length h = 32"
  shows "removeFromLastBlocks K h T = (Inr (), T\<lparr>lastBlocks := lb, confirmed := stage (Del (nKey h) None) (confirmed T)\<rparr>)"
  using assms removeLastStoredBlock_run [OF assms(3-5)]
  by (simp add: removeFromLastBlocks_def mbind_run mseq_run indexOf_last on_db_def)

lemma undo_items_no_stored:
  assumes "scans_of D h sc" and "it \<in> set (concat (map unscript_items (sc P_BLK_SCRIPT))
     @ (concat (map (restore_items P_OUTPUT True) (sc P_OUT_DEL)) @ concat (map (restore_items P_OUT_HINT True) (sc P_HINT_DEL)))
     @ concat (map uncreate_items (sc P_OUT_BLK)) @ deleteTxLoop_items D h (sc P_OUT_BLK) {} @ [Del (bKey h) None])"
  shows "item_key it \<noteq> nKey h'"
proof -
  have pre: "prefix (p # h) k" if "(k, v) \<in> set (sc p)" "p \<in> undo_prefixes" for k v p
    using assms(1) that by (auto simp: scans_of_def)
  have "k \<noteq> nKey h'" if "(k, v) \<in> set (sc p)" "p \<in> undo_prefixes" for k v p
    using pre [OF that] that(2) by (auto simp: undo_prefixes_def key_defs prefix_defs)
  moreover have "P_SCRIPT_BLK # x \<noteq> nKey h'" "P_OUTPUT # x \<noteq> nKey h'" "P_OUT_HINT # x \<noteq> nKey h'" for x
    by (simp_all add: key_defs prefix_defs)
  moreover have "it \<in> set (txBlockRecord_items D t h) \<Longrightarrow> item_key it \<noteq> nKey h'" for t
    by (auto simp: txBlockRecord_items_def deleteTx_items_def split: if_splits)
  ultimately show ?thesis using assms(2) by (auto simp: deleteTxLoop_mem)
qed

lemma rollBackBatch_run:
  assumes lb: "lastBlocks T = lb @ [h]" "h \<notin> set lb" and h: "length h = 32"
    and D: "D = kv_get K (db (confirmed T))" and sc: "sc = (\<lambda>p. scan K (confirmed T) p h)" "scans_of D h sc"
    and w: "\<forall>(k, v) \<in> set (sc P_OUT_BLK). length (wTxid k) = 32"
  shows "\<exists>s. rollBackBatch K h b T = on_db (endTransaction K True) (T\<lparr>lastBlocks := lb, confirmed := s\<rparr>)
    \<and> db s = db (confirmed T) \<and> open_batch s \<and> staged_ok s
    \<and> view K s = fold apply_item (undo_items D h sc @ [Put PREFIX_LAST_BLOCK_HASH (utf8 (b2h (blk_ph b))),
        Put PREFIX_LAST_BLOCK_HEIGHT (utf8 (hexint (blk_h b - 1)))]) D"
proof -
  let ?s0 = "(confirmed T)\<lparr>transactionArray := Some [], deletedTransactionArray := Some []\<rparr>"
  let ?i1 = "concat (map unscript_items (sc P_BLK_SCRIPT))"
  let ?i2 = "concat (map (restore_items P_OUTPUT True) (sc P_OUT_DEL)) @ concat (map (restore_items P_OUT_HINT True) (sc P_HINT_DEL))"
  let ?i3 = "concat (map uncreate_items (sc P_OUT_BLK))"
  let ?i4 = "deleteTxLoop_items D h (sc P_OUT_BLK) {}"
  let ?front = "?i1 @ ?i2 @ ?i3 @ ?i4 @ [Del (bKey h) None]"
  have scan: "scan K s p h = sc p" if "db s = db (confirmed T)" for s p
    using that sc(1) by (simp add: scan_def)
  define s1 where "s1 = fold stage ?i1 ?s0"
  obtain st where r1: "removeOutputScriptsInBlock K h ?s0 = (Inr (), s1\<lparr>stat := st\<rparr>)"
  proof (cases "sc P_BLK_SCRIPT = []")
    case True
    then have "removeOutputScriptsInBlock K h ?s0 = (Inr (), s1\<lparr>stat := stat s1\<rparr>)"
      using removeOutputScriptsInBlock_run [of ?s0 K h] scan [of ?s0] by (simp add: s1_def)
    then show ?thesis using that by blast
  next
    case False
    then show ?thesis
      using that removeOutputScriptsInBlock_run [of ?s0 K h] scan [of ?s0] by (simp add: s1_def Let_def)
  qed
  have o1: "open_batch s1" "db s1 = db (confirmed T)" "deletedTransactionArray s1 = Some []" by (simp_all add: s1_def)
  define s2 where "s2 = fold stage ?i2 s1"
  have r2: "processDeletedOutputs K h True (s1\<lparr>stat := st\<rparr>) = (Inr (), s2\<lparr>stat := st\<rparr>)"
    using processDeletedOutputs_run [of "s1\<lparr>stat := st\<rparr>" K h True] o1 scan [of "s1\<lparr>stat := st\<rparr>"]
    by (simp add: s2_def)
  have o2: "open_batch s2" "db s2 = db (confirmed T)" by (simp_all add: s2_def o1)
  define s3 where "s3 = fold stage ?i3 s2"
  have r3: "removeCreatedOutputsInBlock K h (s2\<lparr>stat := st\<rparr>) = (Inr (), s3\<lparr>stat := st\<rparr>)"
    using removeCreatedOutputsInBlock_run [of "s2\<lparr>stat := st\<rparr>" K h] o2 scan [of "s2\<lparr>stat := st\<rparr>"]
    by (simp add: s3_def)
  have o3: "open_batch s3" "db s3 = db (confirmed T)" by (simp_all add: s3_def o2)
  define s4 where "s4 = stage (Del (bKey h) None) (fold stage ?i4 s3)"
  have r4: "deleteBlock K h (s3\<lparr>stat := st\<rparr>) = (Inr True, s4\<lparr>stat := st\<rparr>)"
    using deleteTxLoop_run [OF _ h, of "sc P_OUT_BLK" "s3\<lparr>stat := st\<rparr>" K "{}"] w o3 scan [of "s3\<lparr>stat := st\<rparr>" P_OUT_BLK] h D
    by (simp add: deleteBlock_def deleteTransactionsInBlock_def codec_simps mseq_run scan_def s4_def)
  have s4: "s4 = fold stage ?front ?s0" by (simp add: s4_def s3_def s2_def s1_def)
  have o4: "open_batch s4" "db s4 = db (confirmed T)" by (simp_all add: s4_def o3)
  have "staged s4 (nKey h) = staged ?s0 (nKey h)"
    unfolding s4 using undo_items_no_stored [OF sc(2)] by (intro staged_fold_stage) auto
  then have n4: "staged (s4\<lparr>stat := st\<rparr>) (nKey h) = None" by (simp add: staged_def)
  let ?T4 = "T\<lparr>confirmed := s4\<lparr>stat := st\<rparr>\<rparr>"
  have r5: "removeFromLastBlocks K h ?T4 = (Inr (), ?T4\<lparr>lastBlocks := lb, confirmed := stage (Del (nKey h) None) (s4\<lparr>stat := st\<rparr>)\<rparr>)"
    using removeFromLastBlocks_run [of ?T4 lb h K] lb h o4 n4 by simp
  let ?tail = "[Put PREFIX_LAST_BLOCK_HASH (utf8 (b2h (blk_ph b))), Put PREFIX_LAST_BLOCK_HEIGHT (utf8 (hexint (blk_h b - 1)))]"
  let ?s = "(fold stage (undo_items D h sc @ ?tail) ?s0)\<lparr>stat := st\<rparr>"
  have fin: "fold stage ?tail (stage (Del (nKey h) None) (s4\<lparr>stat := st\<rparr>)) = ?s"
    by (simp add: s4 undo_items_def)
  have "rollBackBatch K h b T = on_db (endTransaction K True) (T\<lparr>lastBlocks := lb, confirmed := ?s\<rparr>)"
    using r1 r2 r3 r4 r5 o4 fin
    by (simp add: rollBackBatch_def mseq_run setLastBlockHash_def setLastBlockHeight_def)
  moreover have "view K ?s = fold apply_item (undo_items D h sc @ ?tail) D"
    by (simp add: view_simps D del: fold_append)
  ultimately show ?thesis by (intro exI [of _ ?s]) simp
qed

subsection \<open>Outcomes of a rollback\<close>

lemma mbind_state: "snd (f s) = s \<Longrightarrow> (\<And>a. snd (g a s) = s) \<Longrightarrow> snd (mbind f g s) = s"
  by (cases "f s") (auto simp: mbind_def split: sum.split)

lemma read_state [simp]:
  "snd (mret a s) = s" "snd (mlift r s) = s" "snd (dbGet K k s) = s" "snd (dbIter K rg s) = s"
  by (simp_all add: mret_def mlift_def split: sum.split)

lemma getBlock_state [simp]: "snd (getBlock K h s) = s"
  unfolding getBlock_def by (intro mbind_state) (auto intro!: mbind_state split: option.split)

lemma withHeight_state [simp]: "snd (withHeight K hs s) = s"
  by (induction hs) (auto intro!: mbind_state)

lemma loadLastBlocks_state [simp]: "snd (loadLastBlocksSortedByHeight K s) = s"
  unfolding loadLastBlocksSortedByHeight_def getLastStoredBlocks_def by (auto intro!: mbind_state)

lemma reloadLastBlocks_db: "db (confirmed (snd (reloadLastBlocks K T))) = db (confirmed T)"
  using loadLastBlocks_state [of K "confirmed T"]
  by (cases "loadLastBlocksSortedByHeight K (confirmed T)")
    (auto simp: reloadLastBlocks_def mbind_def on_db_def split: sum.split)

context leveldb
begin

text \<open>A rollback commits all of its batch, or leaves the database as it was.\<close>

lemma rollBack_outcomes:
  assumes run: "rollBackBatch K h b T = on_db (endTransaction K True) (T\<lparr>lastBlocks := lb, confirmed := s\<rparr>)"
    and s: "db s = db (confirmed T)" "open_batch s" "staged_ok s"
    and r: "rollBackTipBlock K h b c T = (r, T')"
  shows "r = Inr True \<and> kv_get K (db (confirmed T')) = view K s \<and> lastBlocks T' = lb
    \<or> (if c + 1 \<ge> 10 then r = Inl RollbackGaveUp else r = Inr False)
      \<and> kv_get K (db (confirmed T')) = kv_get K (db (confirmed T))
      \<and> (\<exists>ops d. kv_batch K (db (confirmed T)) ops = (False, d))"
proof -
  let ?T1 = "T\<lparr>lastBlocks := lb, confirmed := s\<rparr>"
  obtain e s' where e: "endTransaction K True s = (e, s')" by (cases "endTransaction K True s")
  show ?thesis
  proof (cases e)
    case (Inr u)
    then have "rollBackTipBlock K h b c T = (Inr True, ?T1\<lparr>confirmed := s'\<rparr>)"
      using run e by (simp add: rollBackTipBlock_def on_db_def)
    then show ?thesis using r commit_view(1) [OF s(3)] e Inr by auto
  next
    case (Inl err)
    have f: "err = BatchInsertFailed" "kv_get K (db s') = kv_get K (db s)"
      using commit_fails(1,2) [of s err s'] e Inl by simp_all
    have refused: "\<exists>ops d. kv_batch K (db (confirmed T)) ops = (False, d)"
      using e Inl s(1,2) by (auto simp: endTransaction_def open_batch_def split: prod.splits bool.splits) blast
    let ?T2 = "snd (on_db (endTransaction K False) (?T1\<lparr>confirmed := s'\<rparr>))"
    have "db (confirmed ?T2) = db s'" by (simp add: on_db_def discard_run)
    then have "kv_get K (db (confirmed (snd (reloadLastBlocks K ?T2)))) = kv_get K (db (confirmed T))"
      using f(2) s(1) by (simp add: reloadLastBlocks_db)
    moreover have "rollBackTipBlock K h b c T
        = (if c + 1 \<ge> 10 then Inl RollbackGaveUp else Inr False, snd (reloadLastBlocks K ?T2))"
      using run e Inl f(1) by (simp add: rollBackTipBlock_def on_db_def isUnrecoverableReorg_def)
    ultimately show ?thesis using r refused by auto
  qed
qed

end

end
