(* ===== verification/Rollback.thy ===== *)
theory Rollback
  imports Undo
begin

text \<open>
  The tip rollback against the sync loop: \<open>stageBlock\<close>, \<open>flushBatch\<close> (with its mempool cleanup
  and the pruning of aged blocks) and then \<open>rollBackTipBlock\<close> give back the contents the block
  was staged over.
\<close>

subsection \<open>Pruning touches the aged blocks only\<close>

definition no_puts :: "'d store \<Rightarrow> bool" where
  "no_puts s \<longleftrightarrow> (\<forall>k it. staged s k = Some it \<longrightarrow> \<not> is_put it)"

definition aged_key :: "bytes \<Rightarrow> bytes \<Rightarrow> bool" where
  "aged_key a k \<longleftrightarrow> block_key a k \<or> k = nKey a"

text \<open>What a step of the pruning keeps.\<close>

definition pruned :: "bytes set \<Rightarrow> 'd store \<Rightarrow> 'd store \<Rightarrow> bool" where
  "pruned as s s' \<longleftrightarrow> open_batch s' \<and> staged_ok s' \<and> deletedTransactionArray s' = Some [] \<and> db s' = db s
     \<and> no_puts s' \<and> (\<forall>k. (\<forall>a \<in> as. \<not> aged_key a k) \<longrightarrow> staged s' k = staged s k)"

lemma pruned_dels:
  assumes "open_batch s" "staged_ok s" "deletedTransactionArray s = Some []" "no_puts s"
    and "\<forall>it \<in> set its. \<not> is_put it \<and> aged_key a (item_key it)"
  shows "pruned {a} s (fold stage its s)"
  using assms
proof (induction its arbitrary: s)
  case Nil
  then show ?case by (simp add: pruned_def)
next
  case (Cons it its)
  have "no_puts (stage it s)"
    using Cons.prems by (auto simp: no_puts_def staged_stage split: if_splits)
  then have "pruned {a} (stage it s) (fold stage its (stage it s))"
    using Cons.prems by (intro Cons.IH) auto
  then show ?case using Cons.prems by (auto simp: pruned_def staged_stage)
qed

context leveldb
begin

lemma scan_prefix: "(k, v) \<in> set (scan K s p a) \<Longrightarrow> prefix (p # a) k"
  by (auto simp: scan_def iter_mem dest: in_range_of_prefix)

lemma scan_aged: "(k, v) \<in> set (scan K s p a) \<Longrightarrow> p \<in> undo_prefixes \<Longrightarrow> aged_key a k"
  using scan_prefix [of k v s p a] by (auto simp: aged_key_def block_key_def)

lemma pruneAged_run:
  assumes "open_batch s" "staged_ok s" "deletedTransactionArray s = Some []" "no_puts s" "length a = 32"
  shows "\<exists>s'. pruneAgedBlockRecords K a s = (Inr (), s') \<and> pruned {a} s s'"
proof -
  let ?i1 = "concat (map (restore_items P_OUTPUT False) (scan K s P_OUT_DEL a))
       @ concat (map (restore_items P_OUT_HINT False) (scan K s P_HINT_DEL a))"
  let ?i2 = "[Del (nKey a) None]"
  let ?i3 = "concat (map drop_items (scan K s P_OUT_BLK a))"
  let ?i4 = "concat (map drop_items (scan K s P_BLK_SCRIPT a))"
  let ?i5 = "concat (map (\<lambda>(k, v). [Del k None]) (kv_iter K (db s) (range_of (P_TX_BLOCK_RECOVERY # a))))"
  have sc: "scan K s' p a = scan K s p a" if "db s' = db s" for s' :: "'d store" and p
    using that by (simp add: scan_def)
  define s1 where "s1 = fold stage ?i1 s"
  have i1: "\<forall>it \<in> set ?i1. \<not> is_put it \<and> aged_key a (item_key it)"
    by (auto dest: scan_aged)
  have p1: "pruned {a} s s1" unfolding s1_def by (rule pruned_dels [OF assms(1-4) i1])
  have r1: "processDeletedOutputs K a False s = (Inr (), s1)"
    using processDeletedOutputs_run [OF assms(1,3)] by (simp add: s1_def)
  have o1: "open_batch s1" "db s1 = db s" "no_puts s1" using p1 by (simp_all add: pruned_def)
  obtain s2 where r2: "removeLastStoredBlock K a s1 = (Inr True, s2)" and s2: "s2 = fold stage ?i2 s1"
  proof -
    have "removeTransactionIfExists (nKey a) s1 = (Inr False, s1)"
      using o1(1,3) by (auto simp: removeTransactionIfExists_def no_puts_def staged_def open_batch_def split: option.split)
    then have "mbind (removeTransactionIfExists (nKey a)) f s1 = f False s1" for f :: "bool \<Rightarrow> ('d store, bool) m"
      by (simp add: mbind_def)
    then show ?thesis using o1(1) assms(5) that by (simp add: removeLastStoredBlock_def codec_simps)
  qed
  have o2: "open_batch s2" "db s2 = db s" by (simp_all add: s2 o1)
  define s3 where "s3 = fold stage ?i3 s2"
  have r3: "removeCreatedOutputsBlockIndexOnly K a s2 = (Inr (), s3)"
    using indexOnly_run(1) [OF o2(1), of K a] sc [OF o2(2)] by (simp add: s3_def)
  have o3: "open_batch s3" "db s3 = db s" by (simp_all add: s3_def o2)
  define s4 where "s4 = fold stage ?i4 s3"
  have r4: "removeOutputScriptsBlockIndexOnly K a s3 = (Inr (), s4)"
    using indexOnly_run(2) [OF o3(1), of K a] sc [OF o3(2)] by (simp add: s4_def)
  have o4: "open_batch s4" "db s4 = db s" by (simp_all add: s4_def o3)
  have r5: "removeTxBlockRecoveryIndexOnly K a s4 = (Inr (), fold stage ?i5 s4)"
    using removeTxBlockRecoveryIndexOnly_run [OF o4(1), of K a] o4(2) by simp
  have "pruneAgedBlockRecords K a s = (Inr (), fold stage ?i5 s4)"
    by (simp add: pruneAgedBlockRecords_def mseq_run r1 r2 r3 r4 r5)
  moreover have "fold stage ?i5 s4 = fold stage (?i1 @ ?i2 @ ?i3 @ ?i4 @ ?i5) s"
    by (simp add: s4_def s3_def s2 s1_def)
  moreover have "\<forall>it \<in> set (?i1 @ ?i2 @ ?i3 @ ?i4 @ ?i5). \<not> is_put it \<and> aged_key a (item_key it)"
    using i1 by (auto simp: scan_def [symmetric] aged_key_def dest: scan_aged)
  then have "pruned {a} s (fold stage (?i1 @ ?i2 @ ?i3 @ ?i4 @ ?i5) s)"
    by (rule pruned_dels [OF assms(1-4)])
  ultimately show ?thesis by metis
qed

lemma pruneAll_run:
  assumes "open_batch (confirmed T)" "staged_ok (confirmed T)" "deletedTransactionArray (confirmed T) = Some []"
    and "no_puts (confirmed T)" "\<forall>a \<in> set as. length a = 32"
  shows "\<exists>s'. mfor as (\<lambda>a. on_db (pruneAgedBlockRecords K a)) T = (Inr (), T\<lparr>confirmed := s'\<rparr>)
    \<and> pruned (set as) (confirmed T) s'"
  using assms
proof (induction as arbitrary: T)
  case Nil
  then show ?case by (intro exI [of _ "confirmed T"]) (simp add: pruned_def)
next
  case (Cons a as)
  obtain s1 where s1: "pruneAgedBlockRecords K a (confirmed T) = (Inr (), s1)" "pruned {a} (confirmed T) s1"
    using pruneAged_run [of "confirmed T" a] Cons.prems by auto
  let ?T1 = "T\<lparr>confirmed := s1\<rparr>"
  obtain s2 where s2: "mfor as (\<lambda>a. on_db (pruneAgedBlockRecords K a)) ?T1 = (Inr (), ?T1\<lparr>confirmed := s2\<rparr>)"
      "pruned (set as) s1 s2"
    using Cons.IH [of ?T1] s1(2) Cons.prems by (auto simp: pruned_def)
  have "pruned (set (a # as)) (confirmed T) s2" using s1(2) s2(2) by (auto simp: pruned_def)
  then show ?case using s1(1) s2(1) by auto
qed

end

lemma toClean_sub: "set (toClean lb seen hs) \<subseteq> set hs - set lb"
  by (induction lb seen hs rule: toClean.induct) auto

subsection \<open>A flush\<close>

text \<open>The keys a flush writes beside those staged by the blocks of the batch.\<close>

definition flush_key :: "('d, 'n) tracker \<Rightarrow> bytes \<Rightarrow> bool" where
  "flush_key T k \<longleftrightarrow> k \<in> {PREFIX_LAST_BLOCK_HEIGHT, PREFIX_LAST_BLOCK_HASH, P_PENDING_CLEANUP_KEY}
     \<or> (\<exists>a \<in> set (pendingKMCleanup T) - set (lastBlocks T). aged_key a k)"

type_synonym ('d, 'n) core = "'d \<times> (string \<times> item) list option \<times> bytes list \<times> bytes list"

definition core :: "('d, 'n) tracker \<Rightarrow> ('d, 'n) core" where
  "core T = (db (confirmed T), transactionArray (confirmed T), lastBlocks T, pendingKMCleanup T)"

lemma keeps_on_mempool [keeps_intros]: "keeps core (on_mempool f)"
  by (auto simp: keeps_def on_mempool_def core_def split: prod.split)

lemma commit_core:
  assumes "commitWithMempoolCleanup K n T = (Inr (), T')"
  obtains s where "endTransaction K True (confirmed T) = (Inr (), s)" and "core T' = core (T\<lparr>confirmed := s\<rparr>)"
proof -
  let ?ids = "pendingMempoolTxCleanup (sync_loop T)"
  let ?rest = "mseq (mmod (\<lambda>T. T\<lparr>lastCommittedHeight := Some n\<rparr>))
     (mwhen (length ?ids > 0)
       (mseq (on_mempool beginTransaction)
       (mseq (mfor ?ids (\<lambda>txid. on_mempool
           (mseq (deleteOutputsByHint K txid)
           (mseq (deleteInputsByHint K txid)
           (mseq (deleteTransaction K txid) (mret ()))))))
       (mseq (on_mempool (endTransaction K True))
       (mmod (\<lambda>T. T\<lparr>mempoolEpoch := mempoolEpoch T + 1,
          sync_loop := (sync_loop T)\<lparr>pendingMempoolTxCleanup := []\<rparr>\<rparr>))))))"
  have r: "keeps core ?rest" by (intro keeps_intros) (simp_all add: core_def)
  have "mseq (on_db (endTransaction K True)) ?rest T = (Inr (), T')"
    using assms by (simp add: commitWithMempoolCleanup_def)
  then obtain u T1 where "on_db (endTransaction K True) T = (Inr u, T1)" and t: "?rest T1 = (Inr (), T')"
    unfolding mseq_Inr_iff by blast
  then obtain s where "endTransaction K True (confirmed T) = (Inr u, s)" "T1 = T\<lparr>confirmed := s\<rparr>"
    by (auto simp: on_db_def split: prod.splits)
  with that keepsD [OF r t] show ?thesis by auto
qed

context leveldb
begin

lemma cleanup_effect:
  assumes len: "\<forall>a \<in> set (pendingKMCleanup T). length a = 32" and run: "cleanupAgedBlocks K T = (Inr (), T')"
  shows "lastBlocks T' = lastBlocks T"
    and "\<not> flush_key T k \<Longrightarrow> kv_get K (db (confirmed T')) k = kv_get K (db (confirmed T)) k"
proof -
  have "lastBlocks T' = lastBlocks T
    \<and> (\<not> flush_key T k \<longrightarrow> kv_get K (db (confirmed T')) k = kv_get K (db (confirmed T)) k)"
  proof (cases "pendingKMCleanup T = []")
    case True
    then show ?thesis using run by (simp add: cleanupAgedBlocks_def)
  next
    case False
    let ?as = "toClean (lastBlocks T) {} (pendingKMCleanup T)"
    let ?s0 = "(confirmed T)\<lparr>transactionArray := Some [], deletedTransactionArray := Some []\<rparr>"
    let ?T0 = "T\<lparr>confirmed := ?s0\<rparr>"
    have "no_puts ?s0" by (simp add: no_puts_def staged_def)
    then obtain s1 where s1: "mfor ?as (\<lambda>a. on_db (pruneAgedBlockRecords K a)) ?T0 = (Inr (), ?T0\<lparr>confirmed := s1\<rparr>)"
        "pruned (set ?as) ?s0 s1"
      using pruneAll_run [of ?T0 ?as] len toClean_sub [of "lastBlocks T" "{}" "pendingKMCleanup T"] by auto
    let ?s2 = "stage (Del P_PENDING_CLEANUP_KEY None) s1"
    have o: "open_batch s1" "staged_ok s1" "db s1 = db (confirmed T)" using s1(2) by (simp_all add: pruned_def)
    have st: "mfor ?as (\<lambda>a. on_db (pruneAgedBlockRecords K a)) ?T0 = (Inr (), T\<lparr>confirmed := s1\<rparr>)" using s1(1) by simp
    obtain s3 where s3: "endTransaction K True ?s2 = (Inr (), s3)" "T' = T\<lparr>confirmed := s3, pendingKMCleanup := []\<rparr>"
      using run False o st by (simp add: cleanupAgedBlocks_def mseq_run on_db_def split: prod.splits sum.splits)
    have v: "kv_get K (db s3) = view K ?s2" using commit_view(1) [OF _ s3(1)] o by simp
    have "kv_get K (db s3) k = kv_get K (db (confirmed T)) k" if no: "\<not> flush_key T k"
    proof -
      have "\<forall>a \<in> set ?as. \<not> aged_key a k" "k \<noteq> P_PENDING_CLEANUP_KEY"
        using no toClean_sub [of "lastBlocks T" "{}" "pendingKMCleanup T"] by (auto simp: flush_key_def)
      then have "staged ?s2 k = staged ?s0 k" using s1(2) o by (simp add: pruned_def staged_stage)
      then have "staged ?s2 k = None" by (simp add: staged_def)
      then show ?thesis by (simp add: v view_def o)
    qed
    then show ?thesis by (simp add: s3(2))
  qed
  then show "lastBlocks T' = lastBlocks T"
    and "\<not> flush_key T k \<Longrightarrow> kv_get K (db (confirmed T')) k = kv_get K (db (confirmed T)) k" by auto
qed

lemma flush_effect:
  assumes op: "open_batch (confirmed T)" "staged_ok (confirmed T)"
    and len: "\<forall>a \<in> set (pendingKMCleanup T). length a = 32" and run: "flushBatch K h n T = (Inr (), T')"
  shows "lastBlocks T' = lastBlocks T"
    and "\<not> flush_key T k \<Longrightarrow> kv_get K (db (confirmed T')) k = view K (confirmed T) k"
proof -
  let ?P = "Put P_PENDING_CLEANUP_KEY (jsonHashes (pendingKMCleanup T))"
  let ?its = "[Put PREFIX_LAST_BLOCK_HEIGHT (utf8 (hexint n)), Put PREFIX_LAST_BLOCK_HASH (utf8 (b2h h))]
     @ (if pendingKMCleanup T = [] then [] else [?P])"
  let ?T1 = "T\<lparr>confirmed := fold stage ?its (confirmed T)\<rparr>"
  have "mseq (commitWithMempoolCleanup K n) (cleanupAgedBlocks K) ?T1 = (Inr (), T')"
    using run op by (simp add: flushBatch_def setLastBlockHeight_def setLastBlockHash_def split: if_splits)
  then obtain T2 where c: "commitWithMempoolCleanup K n ?T1 = (Inr (), T2)" and a: "cleanupAgedBlocks K T2 = (Inr (), T')"
    unfolding mseq_Inr_iff by auto
  obtain s where s: "endTransaction K True (fold stage ?its (confirmed T)) = (Inr (), s)"
      "core T2 = core (?T1\<lparr>confirmed := s\<rparr>)"
    by (rule commit_core [OF c]) auto
  have T2: "db (confirmed T2) = db s" "lastBlocks T2 = lastBlocks T" "pendingKMCleanup T2 = pendingKMCleanup T"
    using s(2) by (simp_all add: core_def)
  have v: "kv_get K (db s) = view K (fold stage ?its (confirmed T))" by (rule commit_view(1) [OF _ s(1)]) (simp add: op)
  show "lastBlocks T' = lastBlocks T" using cleanup_effect(1) [OF _ a] len T2 by simp
  assume no: "\<not> flush_key T k"
  then have "\<not> flush_key T2 k" by (simp add: flush_key_def T2)
  then have "kv_get K (db (confirmed T')) k = kv_get K (db s) k"
    using cleanup_effect(2) [OF _ a] len T2 by simp
  also have "\<dots> = fold apply_item ?its (view K (confirmed T)) k" unfolding v using op(1) by (simp only: view_fold_stage)
  also have "\<dots> = view K (confirmed T) k" using no by (intro apply_items_other) (auto simp: flush_key_def)
  finally show "kv_get K (db (confirmed T')) k = view K (confirmed T) k" .
qed

end

subsection \<open>Blocks whose staging can be undone\<close>

text \<open>
  A block new to the contents \<open>m\<close>: no record of it is stored, its transactions and their outputs
  are new and have distinct txids, and what \<open>m\<close> holds unspent was created below its height.
\<close>

definition new_block :: "(bytes \<rightharpoonup> bytes) \<Rightarrow> bytes \<Rightarrow> int \<Rightarrow> tx list \<Rightarrow> bool" where
  "new_block m h n txs \<longleftrightarrow> m (bKey h) = None \<and> m (nKey h) = None \<and> (\<forall>k. block_key h k \<longrightarrow> m k = None)
     \<and> (\<forall>t \<in> set txs. m (tKey (tx_id t)) = None \<and> m (xKey (tx_id t)) = None
          \<and> (\<forall>i. m (hKey (tx_id t) i) = None \<and> (\<forall>scr. m (oKey scr (tx_id t) i) = None))
          \<and> tx_outs t \<noteq> [] \<and> length (tx_outs t) \<le> 2 ^ 32)
     \<and> distinct (map tx_id txs)
     \<and> (\<forall>t i scr v. m (hKey t i) = Some scr \<longrightarrow> m (oKey scr t i) = Some v \<longrightarrow> created_before v n)"

lemma block_events_out:
  "EOut t i scr v \<in> set (block_events sha n txs) \<longleftrightarrow> (\<exists>tx \<in> set txs. \<exists>j < length (tx_outs tx).
     t = tx_id tx \<and> i = of_nat j \<and> scr = sha (to_script (tx_outs tx ! j))
     \<and> v = outRecord (to_value (tx_outs tx ! j)) n t (isCoinbaseTransaction tx))"
  by (fastforce simp: block_events_def tx_events_def in_set_enumerate_eq)

lemma block_events_tx: "ETx t \<in> set (block_events sha n txs) \<longleftrightarrow> t \<in> tx_id ` set txs"
  by (auto simp: block_events_def tx_events_def)

lemma good_tx_out:
  assumes "good_tx K s sha tx" and "j < length (tx_outs tx)"
  shows "length (sha (to_script (tx_outs tx ! j))) = 32"
    and "0 \<le> to_value (tx_outs tx ! j)" and "to_value (tx_outs tx ! j) \<le> 18446744073709551615"
proof -
  have "(j, tx_outs tx ! j) \<in> set (enumerate 0 (tx_outs tx))" using assms(2) by (simp add: in_set_enumerate_eq)
  then have "good_out K s sha (tx_id tx) (j, tx_outs tx ! j)" using assms(1) unfolding good_tx_def by blast
  then show "length (sha (to_script (tx_outs tx ! j))) = 32"
    "0 \<le> to_value (tx_outs tx ! j)" "to_value (tx_outs tx ! j) \<le> 18446744073709551615"
    by (simp_all add: good_out_def fresh_out_def)
qed

lemma of_nat_u32_inj: "j < 2 ^ 32 \<Longrightarrow> j' < 2 ^ 32 \<Longrightarrow> (of_nat j :: u32) = of_nat j' \<Longrightarrow> j = j'"
proof -
  assume a: "j < 2 ^ 32" "j' < 2 ^ 32" "(of_nat j :: u32) = of_nat j'"
  have "unat (of_nat j :: u32) = j" "unat (of_nat j' :: u32) = j'"
    using a(1,2) by (simp_all add: unat_of_nat)
  then show ?thesis using a(3) by metis
qed

lemma block_undoable:
  assumes inv: "fwd_inv K n s" and val: "valid_txs K s sha h n txs" and new: "new_block (view K s) h n txs"
  shows "undoable (view K s) h n (block_events sha n txs) (block_ops h txs)"
proof -
  have v: "length h = 32" "0 \<le> n" "n \<le> 2147483647" "\<forall>t \<in> set txs. good_tx K s sha t"
    "\<forall>op \<in> set (block_ops h txs). length (fst op) = 32"
    using val by (auto simp: valid_txs_def)
  have out: "ETx t \<in> set (block_events sha n txs) \<and> length scr = 32 \<and> view K s (hKey t i) = None
      \<and> view K s (oKey scr t i) = None \<and> \<not> created_before v' n
      \<and> (\<forall>scr' w. EOut t i scr' w \<in> set (block_events sha n txs) \<longrightarrow> scr' = scr)"
    if e: "EOut t i scr v' \<in> set (block_events sha n txs)" for t i scr v'
  proof -
    obtain tx j where tx: "tx \<in> set txs" "j < length (tx_outs tx)" "t = tx_id tx" "i = of_nat j"
        "scr = sha (to_script (tx_outs tx ! j))"
        "v' = outRecord (to_value (tx_outs tx ! j)) n t (isCoinbaseTransaction tx)"
      using e by (auto simp: block_events_out)
    have g: "good_tx K s sha tx" using v(4) tx(1) by blast
    have lt: "length t = 32" using g tx(3) by (simp add: good_tx_def)
    have uniq: "scr' = scr" if e': "EOut t i scr' w \<in> set (block_events sha n txs)" for scr' w
    proof -
      obtain tx' j' where tx': "tx' \<in> set txs" "j' < length (tx_outs tx')" "t = tx_id tx'" "i = of_nat j'"
        "scr' = sha (to_script (tx_outs tx' ! j'))"
        using e' by (auto simp: block_events_out)
      have d: "distinct (map tx_id txs)" "\<forall>t \<in> set txs. length (tx_outs t) \<le> 2 ^ 32" using new by (auto simp: new_block_def)
      have "tx' = tx" using d(1) tx tx' by (auto simp: distinct_map inj_on_def)
      moreover have "length (tx_outs tx) \<le> 2 ^ 32" using d(2) tx(1) by blast
      then have "j' = j" using of_nat_u32_inj [of j' j] tx(2,4) tx'(2,4) \<open>tx' = tx\<close> by auto
      ultimately show ?thesis using tx tx' by simp
    qed
    have nb: "\<not> created_before v' n"
      unfolding tx(6) by (rule outRecord_not_before [OF good_tx_out(2,3) [OF g tx(2)] v(2,3) lt])
    have l: "length scr = 32" using good_tx_out(1) [OF g tx(2)] tx(5) by simp
    have "view K s (hKey t i) = None" "view K s (oKey scr t i) = None" using new tx(1,3) by (auto simp: new_block_def)
    with uniq nb l tx(1,3) show ?thesis by (auto simp: block_events_tx)
  qed
  have txs: "length t = 32 \<and> view K s (tKey t) = None \<and> view K s (xKey t) = None
      \<and> (\<exists>i scr v. EOut t i scr v \<in> set (block_events sha n txs))"
    if e: "ETx t \<in> set (block_events sha n txs)" for t
  proof -
    obtain tx where tx: "tx \<in> set txs" "t = tx_id tx" using e by (auto simp: block_events_tx)
    have "tx_outs tx \<noteq> []" using new tx(1) by (auto simp: new_block_def)
    then have "EOut t (of_nat 0) (sha (to_script (tx_outs tx ! 0)))
        (outRecord (to_value (tx_outs tx ! 0)) n t (isCoinbaseTransaction tx)) \<in> set (block_events sha n txs)"
      using tx unfolding block_events_out by blast
    then have "\<exists>i scr v. EOut t i scr v \<in> set (block_events sha n txs)" by blast
    moreover have "length t = 32" using v(4) tx by (auto simp: good_tx_def)
    moreover have "view K s (tKey t) = None" "view K s (xKey t) = None" using new tx by (auto simp: new_block_def)
    ultimately show ?thesis by blast
  qed
  have "outputs_ok K n s" using inv by (simp add: fwd_inv_def)
  then have "\<forall>op \<in> set (block_ops h txs). length (fst op) = 32
      \<and> (\<forall>scr. view K s (hKey (fst op) (snd op)) = Some scr \<longrightarrow> length scr = 32)"
    using v(5) outputs_ok_scr by blast
  then show ?thesis using out txs v(1) new unfolding undoable_def new_block_def by blast
qed

subsection \<open>Staging, flushing and rolling back\<close>

context leveldb
begin

lemma scans_of_store:
  assumes u: "undoable m h n es ops" and l: "left_by m h n es ops its"
    and d: "reads_agree h (kv_get K (db s)) (fold apply_item its m)"
  shows "scans_of (kv_get K (db s)) h (\<lambda>p. scan K s p h)"
  unfolding scans_of_def
proof (intro ballI allI iffI)
  fix p k v assume "p \<in> undo_prefixes" "(k, v) \<in> set (scan K s p h)"
  then show "kv_get K (db s) k = Some v \<and> prefix (p # h) k"
    using scan_prefix [of k v s p h] by (auto simp: scan_def iter_mem)
next
  fix p k v assume p: "p \<in> undo_prefixes" and kv: "kv_get K (db s) k = Some v \<and> prefix (p # h) k"
  then have b: "block_key h k" by (auto simp: block_key_def)
  then have f: "fold apply_item its m k = Some v" using kv d by (simp add: reads_agree_def)
  note lh = undoable_facts(1) [OF u]
  from u l f b refl have "length k \<le> MAX_KEY_LEN"
  proof (cases rule: block_record_cases)
    case (script t i scr v')
    then show ?thesis using lh undoable_facts(10) [OF u] by (auto simp: key_defs MAX_KEY_LEN_def)
  next
    case (out t i scr)
    then show ?thesis using lh spend_kinds(1,2) [OF u refl out(2-4)] by (simp add: key_defs MAX_KEY_LEN_def)
  next
    case (hint t i w)
    then show ?thesis using lh spend_kinds(1) [OF u refl hint(2-4)] by (simp add: key_defs MAX_KEY_LEN_def)
  next
    case (made t i v')
    then have "length t = 32" using undoable_facts(5,9) [OF u] by blast
    then show ?thesis using lh made by (simp add: key_defs MAX_KEY_LEN_def)
  next
    case (tx t)
    then have "length t = 32" using undoable_facts(5) [OF u] by blast
    then show ?thesis using lh tx by (simp add: key_defs MAX_KEY_LEN_def)
  qed
  then show "(k, v) \<in> set (scan K s p h)"
    using kv by (simp add: scan_def iter_mem in_range_of_short)
qed

lemma rollback_of_left:
  assumes u: "undoable m h n es ops" and l: "left_by m h n es ops its"
    and d: "reads_agree h (kv_get K (db (confirmed T))) (fold apply_item its m)"
    and lb: "lastBlocks T = lb @ [h]" "h \<notin> set lb" and r: "rollBackTipBlock K h b c T = (r, T')"
  shows "r = Inr True \<and> lastBlocks T' = lb
      \<and> kv_get K (db (confirmed T')) PREFIX_LAST_BLOCK_HASH = Some (utf8 (b2h (blk_ph b)))
      \<and> kv_get K (db (confirmed T')) PREFIX_LAST_BLOCK_HEIGHT = Some (utf8 (hexint (blk_h b - 1)))
      \<and> (\<forall>k. kv_get K (db (confirmed T)) k = fold apply_item its m k
          \<longrightarrow> k \<notin> {Q_UNDO_WATERMARK_KEY, PREFIX_LAST_BLOCK_HASH, PREFIX_LAST_BLOCK_HEIGHT}
          \<longrightarrow> kv_get K (db (confirmed T')) k = m k)
    \<or> (if c + 1 \<ge> 10 then r = Inl RollbackGaveUp else r = Inr False)
      \<and> kv_get K (db (confirmed T')) = kv_get K (db (confirmed T))
      \<and> (\<exists>ops d. kv_batch K (db (confirmed T)) ops = (False, d))"
proof -
  let ?D = "kv_get K (db (confirmed T))"
  let ?sc = "\<lambda>p. scan K (confirmed T) p h"
  note lh = undoable_facts(1) [OF u]
  have sc: "scans_of ?D h ?sc" by (rule scans_of_store [OF u l d])
  have w: "length (wTxid k) = 32" if "(k, v) \<in> set (?sc P_OUT_BLK)" for k v
    by (rule scan_record_cases [OF u l d sc that _ refl]) (use lh in \<open>auto simp: raw_fields\<close>)
  let ?tail = "[Put PREFIX_LAST_BLOCK_HASH (utf8 (b2h (blk_ph b))), Put PREFIX_LAST_BLOCK_HEIGHT (utf8 (hexint (blk_h b - 1)))]"
  obtain s where s: "rollBackBatch K h b T = on_db (endTransaction K True) (T\<lparr>lastBlocks := lb, confirmed := s\<rparr>)"
      "db s = db (confirmed T)" "open_batch s" "staged_ok s"
      "view K s = fold apply_item (undo_items ?D h ?sc @ ?tail) ?D"
    using rollBackBatch_run [OF lb lh refl refl sc, of b] w by blast
  have hh: "PREFIX_LAST_BLOCK_HASH \<noteq> PREFIX_LAST_BLOCK_HEIGHT" by (simp add: meta_defs)
  have v: "view K s = apply_item (?tail ! 1) (apply_item (?tail ! 0) (fold apply_item (undo_items ?D h ?sc) ?D))"
    unfolding s(5) by simp
  have "view K s PREFIX_LAST_BLOCK_HASH = Some (utf8 (b2h (blk_ph b)))"
    "view K s PREFIX_LAST_BLOCK_HEIGHT = Some (utf8 (hexint (blk_h b - 1)))"
    unfolding v using hh by (simp_all add: apply_item_def)
  moreover have "view K s k = m k" if "?D k = fold apply_item its m k"
    "k \<notin> {Q_UNDO_WATERMARK_KEY, PREFIX_LAST_BLOCK_HASH, PREFIX_LAST_BLOCK_HEIGHT}" for k
    unfolding v using undo_restores [OF u l d sc that(1)] that(2) by (simp add: apply_item_def)
  ultimately show ?thesis using rollBack_outcomes [OF s(1-4) r] by auto
qed

end

lemma aged_disjoint:
  assumes "length a = length h" "a \<noteq> h"
  shows "\<not> (aged_key a k \<and> block_key h k)" "\<not> aged_key a (tKey t)" "\<not> aged_key a (xKey t)"
proof -
  have "\<not> (prefix (p # a) k \<and> prefix (q # h) k)" for p q
    using assms by (auto simp: prefix_def)
  then show "\<not> (aged_key a k \<and> block_key h k)"
    using block_key_items(2) [of h a] unfolding aged_key_def block_key_def by blast
  show "\<not> aged_key a (tKey t)" "\<not> aged_key a (xKey t)"
    by (simp_all add: aged_key_def block_key_items)
qed

lemma window_keeps_tip: "1 \<le> u \<Longrightarrow> \<exists>xs. drop (Suc (length lb) - u) (lb @ [h]) = xs @ [h] \<and> set xs \<subseteq> set lb"
  by (cases "Suc (length lb) - u \<le> length lb") (auto intro: set_drop_subset dest: in_set_dropD)

lemma staged_left_by:
  "left_by m h n (block_events sha n txs) (block_ops h txs) (staged_items sha T m h n ts prev txs)"
  by (auto simp: left_by_def staged_items_def block_items_def block_writes_def block_creates_def Let_def window_items_def)

lemma flushed_reads_agree:
  assumes K: "leveldb K" and op: "open_batch (confirmed T)" "staged_ok (confirmed T)"
    and len: "\<forall>a \<in> set (pendingKMCleanup T). length a = 32" and run: "flushBatch K h n T = (Inr (), T')"
    and h: "h \<in> set (lastBlocks T)" "length h = 32"
  shows "reads_agree h (kv_get K (db (confirmed T'))) (view K (confirmed T))"
proof -
  have aged: "a \<noteq> h \<and> length a = length h" if "a \<in> set (pendingKMCleanup T) - set (lastBlocks T)" for a
    using that h len by auto
  have "\<not> flush_key T k" if "block_key h k" for k
    using that aged aged_disjoint(1) block_key_items(9,10,11) unfolding flush_key_def by blast
  moreover have "\<not> flush_key T (tKey t)" "\<not> flush_key T (xKey t)" for t
    using aged aged_disjoint(2,3) by (auto simp: flush_key_def)
  ultimately show ?thesis using leveldb.flush_effect(2) [OF K op len run] by (simp add: reads_agree_def)
qed

text \<open>
  C1. A rollback is the inverse of storing the block. Staging a valid new block over an open batch
  always succeeds; when the batch is then flushed (commit, mempool cleanup and pruning of aged
  blocks) and the tip rolled back, either the rollback commits and every key of the database
  holds what it held before the block (spent outputs restored, created ones gone, every index
  record of the block gone), but for the tip pointers, which name the previous block, and the
  keys the flush itself prunes; or the database refused a batch and is as it was.
\<close>

theorem rollback_undoes_block:
  assumes K: "leveldb K" and inv: "fwd_inv K n (stage_start T)"
    and val: "valid_txs K (stage_start T) sha h n (bl_transactions b)"
    and new: "new_block (view K (stage_start T)) h n (bl_transactions b)"
    and ts: "0 \<le> bl_timestamp b" "bl_timestamp b \<le> 4294967295" and prev: "length prev = 32"
    and win: "1 \<le> undoBlocks T" "h \<notin> set (lastBlocks T)"
      "\<forall>a \<in> set (lastBlocks T) \<union> set (pendingKMCleanup T). length a = 32"
  shows "\<exists>T1. stageBlock K sha b h n prev T = (Inr (), T1) \<and> (\<forall>T2 r T3 c.
    flushBatch K h n T1 = (Inr (), T2) \<longrightarrow>
    rollBackTipBlock K h \<lparr>blk_h = n, blk_t = bl_timestamp b, blk_ph = prev\<rparr> c T2 = (r, T3) \<longrightarrow>
      r = Inr True \<and> lastBlocks T3 = butlast (lastBlocks T1)
        \<and> kv_get K (db (confirmed T3)) PREFIX_LAST_BLOCK_HASH = Some (utf8 (b2h prev))
        \<and> kv_get K (db (confirmed T3)) PREFIX_LAST_BLOCK_HEIGHT = Some (utf8 (hexint (n - 1)))
        \<and> (\<forall>k. \<not> flush_key T1 k \<longrightarrow> k \<noteq> Q_UNDO_WATERMARK_KEY \<longrightarrow>
             kv_get K (db (confirmed T3)) k = view K (stage_start T) k)
      \<or> (if c + 1 \<ge> 10 then r = Inl RollbackGaveUp else r = Inr False)
        \<and> kv_get K (db (confirmed T3)) = kv_get K (db (confirmed T2))
        \<and> (\<exists>ops d. kv_batch K (db (confirmed T2)) ops = (False, d)))"
proof -
  let ?s0 = "stage_start T"
  let ?its = "staged_items sha T (view K ?s0) h n (bl_timestamp b) prev (bl_transactions b)"
  have lh: "length h = 32" using val by (simp add: valid_txs_def)
  obtain T1 where T1: "stageBlock K sha b h n prev T = (Inr (), T1)" "fwd_inv K (n + 1) (confirmed T1)"
      "view K (confirmed T1) = fold apply_item ?its (view K ?s0)"
      "lastBlocks T1 = drop (Suc (length (lastBlocks T)) - undoBlocks T) (lastBlocks T @ [h])"
      "pendingKMCleanup T1 = pendingKMCleanup T @ take (Suc (length (lastBlocks T)) - undoBlocks T) (lastBlocks T @ [h])"
    using stageBlock_run [OF inv val ts prev] by blast
  obtain lb where lb: "lastBlocks T1 = lb @ [h]" "set lb \<subseteq> set (lastBlocks T)"
    using window_keeps_tip [OF win(1)] T1(4) by metis
  have len: "\<forall>a \<in> set (pendingKMCleanup T1). length a = 32"
    using win(3) lh T1(5) by (auto dest: in_set_takeD)
  have op: "open_batch (confirmed T1)" "staged_ok (confirmed T1)" using T1(2) by (simp_all add: fwd_inv_def)
  note u = block_undoable [OF inv val new]
  show ?thesis
  proof (intro exI [of _ T1] conjI allI impI)
    show "stageBlock K sha b h n prev T = (Inr (), T1)" by (rule T1(1))
    fix T2 r T3 c
    assume f: "flushBatch K h n T1 = (Inr (), T2)"
      and r: "rollBackTipBlock K h \<lparr>blk_h = n, blk_t = bl_timestamp b, blk_ph = prev\<rparr> c T2 = (r, T3)"
    have lb2: "lastBlocks T2 = lb @ [h]" using leveldb.flush_effect(1) [OF K op len f] lb(1) by simp
    have ra: "reads_agree h (kv_get K (db (confirmed T2))) (fold apply_item ?its (view K ?s0))"
      using flushed_reads_agree [OF K op len f _ lh] lb(1) T1(3) by simp
    have fl: "kv_get K (db (confirmed T2)) k = fold apply_item ?its (view K ?s0) k" if "\<not> flush_key T1 k" for k
      using leveldb.flush_effect(2) [OF K op len f that] T1(3) by simp
    have "h \<notin> set lb" using lb(2) win(2) by blast
    from leveldb.rollback_of_left [OF K u staged_left_by ra lb2 this r] fl
    show "r = Inr True \<and> lastBlocks T3 = butlast (lastBlocks T1)
        \<and> kv_get K (db (confirmed T3)) PREFIX_LAST_BLOCK_HASH = Some (utf8 (b2h prev))
        \<and> kv_get K (db (confirmed T3)) PREFIX_LAST_BLOCK_HEIGHT = Some (utf8 (hexint (n - 1)))
        \<and> (\<forall>k. \<not> flush_key T1 k \<longrightarrow> k \<noteq> Q_UNDO_WATERMARK_KEY \<longrightarrow>
             kv_get K (db (confirmed T3)) k = view K ?s0 k)
      \<or> (if c + 1 \<ge> 10 then r = Inl RollbackGaveUp else r = Inr False)
        \<and> kv_get K (db (confirmed T3)) = kv_get K (db (confirmed T2))
        \<and> (\<exists>ops d. kv_batch K (db (confirmed T2)) ops = (False, d))"
      by (auto simp: lb(1) flush_key_def)
  qed
qed

subsection \<open>A concrete block\<close>

text \<open>The mempool cleanup of a commit succeeds up to its own batch.\<close>

lemma mempoolCleanup_run:
  assumes "\<forall>t \<in> set ids. length t = 32" and "open_batch (mempool T)"
  shows "\<exists>T'. mfor ids (\<lambda>txid. on_mempool
      (mseq (deleteOutputsByHint K txid) (mseq (deleteInputsByHint K txid) (mseq (deleteTransaction K txid) (mret ()))))) T
      = (Inr (), T') \<and> open_batch (mempool T') \<and> db (mempool T') = db (mempool T)"
  using assms
proof (induction ids arbitrary: T)
  case (Cons t ids)
  let ?s = "(mempool T)\<lparr>stat := stat (confirmed T)\<rparr>"
  have op: "open_batch ?s" and lt: "length t = 32" using Cons.prems by simp_all
  obtain s1 where s1: "mseq (deleteOutputsByHint K t) (mseq (deleteInputsByHint K t)
      (mseq (deleteTransaction K t) (mret ()))) ?s = (Inr (), s1)" "open_batch s1" "db s1 = db ?s"
    using deleteOutputsByHint_run [OF op, of K t] lt op
    by (simp add: mseq_run deleteInputsByHint_run deleteTransaction_run)
  then obtain T1 where T1: "on_mempool (mseq (deleteOutputsByHint K t) (mseq (deleteInputsByHint K t)
      (mseq (deleteTransaction K t) (mret ())))) T = (Inr (), T1)" "open_batch (mempool T1)" "db (mempool T1) = db (mempool T)"
    by (simp add: on_mempool_def)
  have "\<forall>t \<in> set ids. length t = 32" using Cons.prems(1) by simp
  from Cons.IH [OF this T1(2)] obtain T2 where "mfor ids (\<lambda>txid. on_mempool
      (mseq (deleteOutputsByHint K txid) (mseq (deleteInputsByHint K txid) (mseq (deleteTransaction K txid) (mret ()))))) T1
      = (Inr (), T2)" "open_batch (mempool T2)" "db (mempool T2) = db (mempool T1)" by blast
  with T1(1,3) show ?case unfolding mfor.simps mseq_Inr_iff by metis
qed simp

lemma ref_commit:
  assumes "open_batch s" and "ref_left (db s) = Suc n"
  shows "\<exists>s'. endTransaction ref_kv True s = (Inr (), s') \<and> ref_left (db s') = n"
  using assms by (auto simp: open_batch_def endTransaction_def ref_kv_def ref_batch_def)

lemma ref_flush:
  assumes op: "open_batch (confirmed T)" and no: "pendingKMCleanup T = []"
    and left: "ref_left (db (confirmed T)) = Suc n" "ref_left (db (mempool T)) = Suc n'"
    and ids: "\<forall>t \<in> set (pendingMempoolTxCleanup (sync_loop T)). length t = 32"
  shows "\<exists>T'. flushBatch ref_kv h k T = (Inr (), T') \<and> ref_left (db (confirmed T')) = n"
proof -
  let ?ids = "pendingMempoolTxCleanup (sync_loop T)"
  let ?s = "fold stage [Put PREFIX_LAST_BLOCK_HEIGHT (utf8 (hexint k)), Put PREFIX_LAST_BLOCK_HASH (utf8 (b2h h))] (confirmed T)"
  let ?T0 = "T\<lparr>confirmed := ?s\<rparr>"
  obtain s1 where s1: "endTransaction ref_kv True ?s = (Inr (), s1)" "ref_left (db s1) = n"
    using ref_commit [of ?s n] op left(1) by auto
  let ?T1 = "T\<lparr>confirmed := s1, lastCommittedHeight := Some k\<rparr>"
  have c: "\<exists>T2. commitWithMempoolCleanup ref_kv k ?T0 = (Inr (), T2) \<and> core T2 = core ?T1"
  proof (cases "?ids = []")
    case True
    then show ?thesis using s1(1) by (simp add: commitWithMempoolCleanup_def)
  next
    case False
    let ?T2 = "snd (on_mempool beginTransaction ?T1)"
    have "open_batch (mempool ?T2)" "db (mempool ?T2) = db (mempool T)"
      by (simp_all add: on_mempool_def)
    then obtain T3 where T3: "mfor ?ids (\<lambda>txid. on_mempool (mseq (deleteOutputsByHint ref_kv txid)
        (mseq (deleteInputsByHint ref_kv txid) (mseq (deleteTransaction ref_kv txid) (mret ()))))) ?T2 = (Inr (), T3)"
        "open_batch (mempool T3)" "db (mempool T3) = db (mempool T)"
      using mempoolCleanup_run [OF ids, of ?T2 ref_kv] by auto
    let ?m = "(mempool T3)\<lparr>stat := stat (confirmed T3)\<rparr>"
    obtain s2 where s2: "endTransaction ref_kv True ?m = (Inr (), s2)"
      using ref_commit [of ?m n'] T3 left(2) by auto
    have "keeps core (mseq (on_mempool beginTransaction) (mfor ?ids (\<lambda>txid. on_mempool (mseq (deleteOutputsByHint ref_kv txid)
        (mseq (deleteInputsByHint ref_kv txid) (mseq (deleteTransaction ref_kv txid) (mret ())))))))"
      by (intro keeps_intros)
    moreover have "mseq (on_mempool beginTransaction) (mfor ?ids (\<lambda>txid. on_mempool (mseq (deleteOutputsByHint ref_kv txid)
        (mseq (deleteInputsByHint ref_kv txid) (mseq (deleteTransaction ref_kv txid) (mret ())))))) ?T1 = (Inr (), T3)"
      using T3(1) by (simp add: mseq_run on_mempool_def)
    ultimately have "core T3 = core ?T1" by (rule keepsD)
    with s1(1) s2 T3(1) False show ?thesis
      by (simp add: commitWithMempoolCleanup_def mseq_run on_mempool_def core_def)
  qed
  then obtain T2 where T2: "commitWithMempoolCleanup ref_kv k ?T0 = (Inr (), T2)" "core T2 = core ?T1" by blast
  then have "pendingKMCleanup T2 = []" "ref_left (db (confirmed T2)) = n" using no s1(2) by (simp_all add: core_def)
  moreover have "flushBatch ref_kv h k T = (Inr (), T2)"
    using op no T2(1) \<open>pendingKMCleanup T2 = []\<close>
    by (simp add: flushBatch_def setLastBlockHeight_def setLastBlockHash_def mseq_run cleanupAgedBlocks_def)
  ultimately show ?thesis by blast
qed

text \<open>
  A store with one unspent output and a block of two transactions, the second of which spends it.
\<close>

definition ex_txid :: bytes where "ex_txid = replicate 32 1"
definition ex_script :: bytes where "ex_script = replicate 32 5"
definition ex_prev :: bytes where "ex_prev = replicate 32 9"
definition ex_hash :: bytes where "ex_hash = replicate 32 2"
definition ex_sha :: "bytes \<Rightarrow> bytes" where "ex_sha s = replicate 32 (case s of [] \<Rightarrow> 0 | b # _ \<Rightarrow> b)"

definition ex_db :: ref_db where
  "ex_db = \<lparr>ref_entries = [(hKey ex_txid 0, ex_script), (oKey ex_script ex_txid 0, outRecord 50 0 ex_txid True)],
     ref_left = 9\<rparr>"

definition ex_store :: "ref_db \<Rightarrow> ref_db store" where
  "ex_store d = \<lparr>stat = resetCaches, db = d, transactionArray = None, deletedTransactionArray = None\<rparr>"

definition ex_tracker :: "(ref_db, unit) tracker" where
  "ex_tracker = \<lparr>confirmed = ex_store ex_db, mempool = ex_store \<lparr>ref_entries = [], ref_left = 9\<rparr>,
     node = (), lastBlocks = [ex_prev], undoBlocks = 10, pendingKMCleanup = [], undoWindowWatermark = 0,
     undoWindowWatermarkPersisted = None, reorgCount = 0, lastReorgDepth = 0, reorgRollbacksThisProcess = 0,
     lastCommittedHeight = Some 0, mempoolEpoch = 0,
     sync_loop = \<lparr>blocksQuantity = 0, blocksCount = 0, transactionsCount = 0, inputsCount = 0, outputsCount = 0,
       lastProcessedBlockIndex = 0, lastProcessedBlockHash = Some ex_prev, pendingMempoolTxCleanup = [],
       lastBlockchainInfo = None, lastBlockchainInfoRefreshAt = 0, blockTimestamps = [], prefetchQueue = [],
       nodeSyncedProblem = False, nodeCatchingUpProblem = False, tipBelowCommittedTipRefused = False,
       blockFetchFailures = 0, blockFetchFailureHeight = None, auxPowParseFailures = 0, auxPowParseFailureHeight = None\<rparr>,
     synced = False, mempoolReconverged = False, mempoolPolling = False, mempoolBusy = False,
     blockchainInfoLastBlock = 1, latestKnownChainTip = Some 1, nodeCatchingUp = None, lastNodeRpcOkAt = 0,
     keepParsing = True, parsingStopped = False, parsingAborted = False, halted = False, haltReason = None,
     haltedAt = None, haltedHeight = None, blockFetchDesync = None, mempoolRpcFailures = 0,
     auxPow = False, regtest = False, coinbaseMaturity = 100\<rparr>"

definition ex_block :: block where
  "ex_block = \<lparr>bl_timestamp = 1000, bl_prevHash = ex_prev, bl_transactions =
    [\<lparr>tx_id = replicate 32 3, tx_ins = [\<lparr>ti_hash = replicate 32 0, ti_index = COINBASE_INDEX, ti_standard_input = None\<rparr>],
       tx_outs = [\<lparr>to_script = [7], to_value = 50\<rparr>]\<rparr>,
     \<lparr>tx_id = replicate 32 4, tx_ins = [\<lparr>ti_hash = ex_txid, ti_index = 0, ti_standard_input = None\<rparr>],
       tx_outs = [\<lparr>to_script = [8], to_value = 20\<rparr>, \<lparr>to_script = [8], to_value = 29\<rparr>]\<rparr>]\<rparr>"

lemmas ex_defs = ex_txid_def ex_script_def ex_prev_def ex_hash_def ex_tracker_def ex_store_def ex_db_def

lemma ex_get:
  "kv_get ref_kv ex_db k = (if k = hKey ex_txid 0 then Some ex_script
     else if k = oKey ex_script ex_txid 0 then Some (outRecord 50 0 ex_txid True) else None)"
  by (simp add: ref_kv_def ref_get_def ex_db_def)

lemmas ex_ref_get = ex_get [unfolded ref_kv_def, simplified]

lemma ex_start: "stage_start ex_tracker = (ex_store ex_db)\<lparr>transactionArray := Some [], deletedTransactionArray := Some []\<rparr>"
  by (simp add: stage_start_def ex_tracker_def)

lemma ex_view: "view ref_kv (stage_start ex_tracker) = kv_get ref_kv ex_db"
  by (simp add: ex_start ex_store_def)

lemma ex_before: "created_before (outRecord 50 0 ex_txid True) 1"
  using outRecord_decode [of 50 0 ex_txid True] by (auto simp: created_before_def ex_txid_def)

lemma ex_inv: "fwd_inv ref_kv 1 (stage_start ex_tracker)"
proof -
  let ?s = "stage_start ex_tracker"
  have st: "staged ?s k = None" "db ?s = ex_db" "open_batch ?s" "staged_ok ?s" for k
    by (simp_all add: ex_start ex_store_def staged_def open_batch_def staged_ok_def)
  have "outputs_ok ref_kv 1 ?s" using ex_before by (simp add: outputs_ok_def st ex_get ex_ref_get) (simp add: ex_script_def)
  moreover have "cache_ok ref_kv ?s" "scripts_ok ref_kv ?s"
    by (simp_all add: cache_ok_def scripts_ok_def st ex_start ex_store_def resetCaches_def staged_def)
  ultimately show ?thesis using st by (simp add: fwd_inv_def ex_start ex_store_def)
qed

lemma ex_ops: "block_ops ex_hash (bl_transactions ex_block) = [(ex_txid, 0)]"
  by (simp add: block_ops_def removeInputs_def ex_block_def traced_def COINBASE_INDEX_def outpoint_def prevTxHash_def ex_txid_def)

lemma ex_fresh: "t \<noteq> ex_txid \<Longrightarrow> kv_get ref_kv ex_db (hKey t i) = None \<and> kv_get ref_kv ex_db (oKey (replicate 32 b) t i) = None"
  by (simp add: ex_get ex_ref_get key_inject_len ex_script_def)

lemma ex_valid: "valid_txs ref_kv (stage_start ex_tracker) ex_sha ex_hash 1 (bl_transactions ex_block)"
proof -
  have d: "db (stage_start ex_tracker) = ex_db" by (simp add: ex_start ex_store_def)
  have ne: "replicate 32 3 \<noteq> ex_txid" "replicate 32 4 \<noteq> ex_txid" by (simp_all add: ex_txid_def)
  have g: "\<forall>t \<in> set (bl_transactions ex_block). good_tx ref_kv (stage_start ex_tracker) ex_sha t"
    using ex_fresh [OF ne(1)] ex_fresh [OF ne(2)]
    by (simp add: ex_block_def good_tx_def good_out_def fresh_out_def d ex_sha_def)
  have keep: "fold apply_item (block_creates ex_sha ex_hash 1 (kv_get ref_kv ex_db) (bl_transactions ex_block)) (kv_get ref_kv ex_db) k
      = kv_get ref_kv ex_db k" if k: "k \<in> {hKey ex_txid 0, oKey ex_script ex_txid 0}" for k
  proof (rule apply_items_other, intro ballI)
    fix it assume "it \<in> set (block_creates ex_sha ex_hash 1 (kv_get ref_kv ex_db) (bl_transactions ex_block))"
    then have "it \<in> set (create_items ex_hash 1 (kv_get ref_kv ex_db) (block_events ex_sha 1 (bl_transactions ex_block)))"
      by (simp add: block_creates_def)
    then show "item_key it \<noteq> k"
    proof (cases rule: create_item_cases)
      case (out t i scr v)
      then obtain tx where "tx \<in> set (bl_transactions ex_block)" "t = tx_id tx" "length scr = 32"
        by (auto simp: block_events_out ex_sha_def)
      then have "t \<noteq> ex_txid" using ne by (auto simp: ex_block_def)
      then show ?thesis using out(2) k \<open>length scr = 32\<close> by (auto simp: key_inject_len ex_script_def)
    qed (use k in auto)
  qed
  have "live (fold apply_item (block_creates ex_sha ex_hash 1 (kv_get ref_kv ex_db) (bl_transactions ex_block)) (kv_get ref_kv ex_db)) (ex_txid, 0)"
    using keep [of "hKey ex_txid 0"] keep [of "oKey ex_script ex_txid 0"]
    by (simp add: live_def ex_get ex_ref_get)
  then show ?thesis using g by (simp add: valid_txs_def ex_ops ex_view) (simp add: ex_hash_def ex_txid_def)
qed

lemma ex_new: "new_block (view ref_kv (stage_start ex_tracker)) ex_hash 1 (bl_transactions ex_block)"
proof -
  have ne: "replicate 32 3 \<noteq> ex_txid" "replicate 32 4 \<noteq> ex_txid" by (simp_all add: ex_txid_def)
  have o: "kv_get ref_kv ex_db (hKey t i) = None \<and> kv_get ref_kv ex_db (oKey scr t i) = None"
    if "t \<in> {replicate 32 3, replicate 32 4}" for t scr i
  proof -
    have "oKey scr t i \<noteq> oKey ex_script ex_txid 0"
      using that by (auto simp: key_defs ex_txid_def ex_script_def append_eq_append_conv)
    then show ?thesis using that ne by (auto simp: ex_ref_get)
  qed
  have b: "created_before v 1" if "kv_get ref_kv ex_db (hKey t i) = Some scr" "kv_get ref_kv ex_db (oKey scr t i) = Some v" for t i scr v
    using that ex_before by (auto simp: ex_ref_get split: if_splits)
  have k: "kv_get ref_kv ex_db k = None" if "block_key ex_hash k" for k
    using that by (auto simp: ex_ref_get block_key_items)
  show ?thesis unfolding new_block_def ex_view
    using o b k by (simp add: ex_block_def) (simp add: ex_ref_get)
qed

theorem rollback_undoes_block_witness:
  "\<exists>T1 T2 T3. stageBlock ref_kv ex_sha ex_block ex_hash 1 ex_prev ex_tracker = (Inr (), T1)
    \<and> flushBatch ref_kv ex_hash 1 T1 = (Inr (), T2)
    \<and> rollBackTipBlock ref_kv ex_hash \<lparr>blk_h = 1, blk_t = 1000, blk_ph = ex_prev\<rparr> 0 T2 = (Inr True, T3)
    \<and> kv_get ref_kv (db (confirmed T3)) (hKey ex_txid 0) = Some ex_script
    \<and> kv_get ref_kv (db (confirmed T3)) (bKey ex_hash) = None"
proof -
  have ts: "0 \<le> bl_timestamp ex_block" "bl_timestamp ex_block \<le> 4294967295" "bl_timestamp ex_block = 1000"
    by (simp_all add: ex_block_def)
  have win: "1 \<le> undoBlocks ex_tracker" "ex_hash \<notin> set (lastBlocks ex_tracker)"
      "\<forall>a \<in> set (lastBlocks ex_tracker) \<union> set (pendingKMCleanup ex_tracker). length a = 32" "length ex_prev = 32"
    by (simp_all add: ex_defs)
  obtain T1 where T1: "stageBlock ref_kv ex_sha ex_block ex_hash 1 ex_prev ex_tracker = (Inr (), T1)"
      "fwd_inv ref_kv 2 (confirmed T1)" "db (confirmed T1) = ex_db" "pendingKMCleanup T1 = []"
      "pendingMempoolTxCleanup (sync_loop T1) = [replicate 32 3, replicate 32 4]" "mempool T1 = mempool ex_tracker"
    using stageBlock_run [OF ex_inv ex_valid ts(1,2) win(4)] by (auto simp: ex_tracker_def ex_store_def ex_block_def)
  obtain T2 where T2: "flushBatch ref_kv ex_hash 1 T1 = (Inr (), T2)" "ref_left (db (confirmed T2)) = 8"
    using ref_flush [of T1 8 8 ex_hash 1] T1 by (auto simp: fwd_inv_def ex_defs)
  obtain r T3 where T3: "rollBackTipBlock ref_kv ex_hash \<lparr>blk_h = 1, blk_t = bl_timestamp ex_block, blk_ph = ex_prev\<rparr> 0 T2 = (r, T3)"
    by (cases "rollBackTipBlock ref_kv ex_hash \<lparr>blk_h = 1, blk_t = bl_timestamp ex_block, blk_ph = ex_prev\<rparr> 0 T2")
  have ok: "\<not> (\<exists>ops d. kv_batch ref_kv (db (confirmed T2)) ops = (False, d))"
    using T2(2) by (simp add: ref_kv_def ref_batch_def)
  have "r = Inr True \<and> (\<forall>k. \<not> flush_key T1 k \<longrightarrow> k \<noteq> Q_UNDO_WATERMARK_KEY \<longrightarrow>
      kv_get ref_kv (db (confirmed T3)) k = view ref_kv (stage_start ex_tracker) k)"
    using rollback_undoes_block [OF leveldb_ref_kv ex_inv ex_valid ex_new ts(1,2) win(4,1-3)] T1(1) T2(1) T3 ok
    by fastforce
  moreover have "\<not> flush_key T1 (hKey ex_txid 0)" "\<not> flush_key T1 (bKey ex_hash)" by (simp_all add: flush_key_def T1(4))
  ultimately show ?thesis using T1(1) T2(1) T3 ts(3) by (auto simp: ex_view ex_ref_get)
qed

end
