(* ===== verification/Node.thy ===== *)
theory Node
  imports Tracker
begin

text \<open>
  The coin node behind the RPC connector, as a parameter, and the reads of its tip: the parse gate
  and the catch-up helpers of \<^verbatim>\<open>src/XChainUtxoTracker/catch_up_helpers.js\<close> and the settling
  reads of \<^verbatim>\<open>reorg_node_reads.js\<close>. The state of the node is threaded through every call, so
  two readings may differ; a sleep only gives the node time to change between two readings. A
  failed call is \<open>None\<close>; a reply's block height is an integer. The first argument of the
  block fetches says whether the AuxPoW section is stripped; the clock, its ISO text and whether
  the heap is above the flush threshold are read from the same state.
\<close>

subsection \<open>The connector\<close>

record 'n rpc =
  rpc_info :: "'n \<Rightarrow> chain_info option \<times> 'n"
  rpc_hash :: "int \<Rightarrow> 'n \<Rightarrow> bytes option \<times> 'n"
  rpc_block :: "bool \<Rightarrow> bytes \<Rightarrow> 'n \<Rightarrow> (bool + bytes) \<times> 'n"
  rpc_reassembled :: "bytes \<Rightarrow> 'n \<Rightarrow> (bool + bytes) \<times> 'n"
  rpc_batch :: "bool \<Rightarrow> int list \<Rightarrow> 'n \<Rightarrow> fetched list \<times> 'n"
  rpc_mempool :: "'n \<Rightarrow> bytes list option \<times> 'n"
  rpc_rawtxs :: "bytes list \<Rightarrow> 'n \<Rightarrow> bytes option list option \<times> 'n"
  rpc_now :: "'n \<Rightarrow> nat"
  rpc_iso :: "'n \<Rightarrow> string"
  rpc_heapHigh :: "'n \<Rightarrow> bool"

definition on_node :: "('n \<Rightarrow> 'a \<times> 'n) \<Rightarrow> (('d, 'n) tracker, 'a) m" where
  "on_node f T = (case f (node T) of (a, n) \<Rightarrow> (Inr a, T\<lparr>node := n\<rparr>))"

lemma keeps_on_node [keeps_intros]: "(\<And>T n. p (T\<lparr>node := n\<rparr>) = p T) \<Longrightarrow> keeps p (on_node f)"
  by (simp add: keeps_def on_node_def split: prod.split)

subsection \<open>Whether a tip is usable\<close>

definition MIN_VERIFICATION_PROGRESS_TO_PARSE :: rat where
  "MIN_VERIFICATION_PROGRESS_TO_PARSE = 99 / 100"

definition nodeTipIsParseable :: "chain_info option \<Rightarrow> bool \<Rightarrow> bool" where
  "nodeTipIsParseable info onRegtest = (case info of None \<Rightarrow> False
   | Some i \<Rightarrow> onRegtest \<or> \<not> (case ci_progress i of None \<Rightarrow> False
        | Some p \<Rightarrow> p < MIN_VERIFICATION_PROGRESS_TO_PARSE))"

definition nodeStillCatchingUp :: "chain_info option \<Rightarrow> bool" where
  "nodeStillCatchingUp info = (case info of None \<Rightarrow> False | Some i \<Rightarrow> ci_ibd i)"

definition catchUpWaitState :: "(int \<times> int \<times> string) option \<Rightarrow> int \<Rightarrow> int \<Rightarrow> string \<Rightarrow> int \<times> int \<times> string" where
  "catchUpWaitState previous nodeHeight storedHeight now =
     (nodeHeight, storedHeight, case previous of None \<Rightarrow> now
        | Some (_, _, since) \<Rightarrow> if since \<noteq> [] then since else now)"

definition usableTip :: "chain_info option \<Rightarrow> bool \<Rightarrow> int option" where
  "usableTip info onRegtest = (case info of None \<Rightarrow> None
   | Some i \<Rightarrow> if \<not> nodeTipIsParseable info onRegtest \<or> nodeStillCatchingUp info then None else Some (ci_blocks i))"

definition readWalkTip :: "'n rpc \<Rightarrow> (('d, 'n) tracker, int option) m" where
  "readWalkTip R = mbind (on_node (rpc_info R)) (\<lambda>info. mget (\<lambda>T. usableTip info (regtest T)))"

subsection \<open>Settling a tip\<close>

definition TIP_SETTLE_STABLE_READS :: nat where "TIP_SETTLE_STABLE_READS = 5"
definition TIP_SETTLE_MAX_READS :: nat where "TIP_SETTLE_MAX_READS = 10"

fun settleFrom :: "'n rpc \<Rightarrow> nat \<Rightarrow> int \<Rightarrow> nat \<Rightarrow> (('d, 'n) tracker, int option) m" where
  "settleFrom R 0 previous stableReads = mret None"
| "settleFrom R (Suc k) previous stableReads = mbind (readWalkTip R) (\<lambda>tip. case tip of
     None \<Rightarrow> mret None
   | Some t \<Rightarrow>
       if t = previous
       then (if Suc stableReads = TIP_SETTLE_STABLE_READS then mret (Some t)
             else settleFrom R k previous (Suc stableReads))
       else settleFrom R k t 0)"

definition settleWalkTip :: "'n rpc \<Rightarrow> int \<Rightarrow> (('d, 'n) tracker, int option) m" where
  "settleWalkTip R first = settleFrom R TIP_SETTLE_MAX_READS first 0"

definition refreshWalkTip :: "'n rpc \<Rightarrow> int option \<Rightarrow> (('d, 'n) tracker, int option) m" where
  "refreshWalkTip R currentTip = mbind (readWalkTip R) (\<lambda>tip. case tip of
     None \<Rightarrow> mret currentTip
   | Some t \<Rightarrow>
       if (case currentTip of None \<Rightarrow> True | Some c \<Rightarrow> t < c)
       then mbind (settleWalkTip R t) (\<lambda>next. mret (case next of None \<Rightarrow> currentTip | Some u \<Rightarrow> Some u))
       else mret (Some t))"

text \<open>\<open>None\<close>: the fetch failed and the walk goes round again with the tip given back.\<close>

definition nodeBlockHashOrRetry ::
  "'n rpc \<Rightarrow> int \<Rightarrow> int option \<Rightarrow> (('d, 'n) tracker, bytes option \<times> int option) m" where
  "nodeBlockHashOrRetry R lastBlockIndex tip = mbind (on_node (rpc_hash R lastBlockIndex)) (\<lambda>h. case h of
     Some b \<Rightarrow> mret (Some b, tip)
   | None \<Rightarrow> mbind (refreshWalkTip R tip) (\<lambda>tip'. mret (None, tip')))"

fun settleBelowFrom :: "'n rpc \<Rightarrow> nat \<Rightarrow> int \<Rightarrow> int \<Rightarrow> nat \<Rightarrow> (('d, 'n) tracker, bool) m" where
  "settleBelowFrom R 0 ourHeight previous stableReads = mret False"
| "settleBelowFrom R (Suc k) ourHeight previous stableReads = mbind (on_node (rpc_info R)) (\<lambda>info.
     mbind (mget (\<lambda>T. usableTip info (regtest T))) (\<lambda>usable. case usable of
       None \<Rightarrow> mret False
     | Some tip \<Rightarrow>
         if tip = previous
         then (if Suc stableReads = TIP_SETTLE_STABLE_READS
               then mseq (mmod (\<lambda>T. T\<lparr>sync_loop := (sync_loop T)\<lparr>lastBlockchainInfo := info\<rparr>,
                        latestKnownChainTip := Some tip, blockchainInfoLastBlock := tip\<rparr>))
                    (mret (tip < ourHeight))
               else settleBelowFrom R k ourHeight previous (Suc stableReads))
         else settleBelowFrom R k ourHeight tip 0))"

definition settleNodeTipBelow :: "'n rpc \<Rightarrow> int \<Rightarrow> (('d, 'n) tracker, bool) m" where
  "settleNodeTipBelow R ourHeight = mbind (mget blockchainInfoLastBlock)
     (\<lambda>previous. settleBelowFrom R TIP_SETTLE_MAX_READS ourHeight previous 0)"

subsection \<open>What a settled tip means\<close>

text \<open>The next \<open>k\<close> usable tips of the node, and the node after them.\<close>

fun tip_reads :: "'n rpc \<Rightarrow> bool \<Rightarrow> nat \<Rightarrow> 'n \<Rightarrow> int option list \<times> 'n" where
  "tip_reads R rt 0 N = ([], N)"
| "tip_reads R rt (Suc k) N = (case rpc_info R N of (i, N1) \<Rightarrow>
     case tip_reads R rt k N1 of (ts, N2) \<Rightarrow> (usableTip i rt # ts, N2))"

lemma tip_reads_append: "tip_reads R rt (j + k) N =
    (fst (tip_reads R rt j N) @ fst (tip_reads R rt k (snd (tip_reads R rt j N))), snd (tip_reads R rt k (snd (tip_reads R rt j N))))"
  by (induction j arbitrary: N) (auto split: prod.split)

lemma length_tip_reads [simp]: "length (fst (tip_reads R rt k N)) = k"
proof (induction k arbitrary: N)
  case (Suc k)
  obtain i N1 where "rpc_info R N = (i, N1)" by (cases "rpc_info R N")
  then show ?case using Suc [of N1] by (simp split: prod.split) (metis fst_conv)
qed simp

lemma settleFrom_stable:
  assumes "settleFrom R k prev st T = (Inr (Some t), T')" and "st < TIP_SETTLE_STABLE_READS"
  shows "\<exists>j \<le> k. T' = T\<lparr>node := snd (tip_reads R (regtest T) j (node T))\<rparr>
    \<and> (\<exists>xs. replicate st (Some prev) @ fst (tip_reads R (regtest T) j (node T)) = xs @ replicate TIP_SETTLE_STABLE_READS (Some t))"
  using assms
proof (induction R k prev st arbitrary: T rule: settleFrom.induct)
  case (2 R k prev st)
  obtain i N1 where i: "rpc_info R (node T) = (i, N1)" by (cases "rpc_info R (node T)")
  let ?T1 = "T\<lparr>node := N1\<rparr>"
  have rd: "mbind (readWalkTip R) f T = f (usableTip i (regtest T)) ?T1" for f :: "int option \<Rightarrow> (('a, 'b) tracker, int option) m"
    by (simp add: readWalkTip_def mbind_def on_node_def i mget_def)
  obtain u where u: "usableTip i (regtest T) = Some u"
    using "2.prems"(1) by (cases "usableTip i (regtest T)") (simp_all add: rd)
  have one: "tip_reads R (regtest T) (Suc j) (node T) = (Some u # fst (tip_reads R (regtest T) j N1), snd (tip_reads R (regtest T) j N1))" for j
    by (simp add: i u split: prod.split)
  show ?case
  proof (cases "u = prev")
    case same: True
    show ?thesis
    proof (cases "Suc st = TIP_SETTLE_STABLE_READS")
      case True
      then have r: "t = u" "T' = ?T1" using "2.prems"(1) same by (simp_all add: rd u)
      have "replicate st (Some prev) @ [Some u] = [] @ replicate (Suc st) (Some u)"
        using same by (simp add: replicate_append_same)
      then show ?thesis using r True by (intro exI [of _ "Suc 0"]) (auto simp: i u intro!: exI [of _ "[]"])
    next
      case False
      then have "settleFrom R k prev (Suc st) ?T1 = (Inr (Some t), T')" "Suc st < TIP_SETTLE_STABLE_READS"
        using "2.prems" same by (simp_all add: rd u)
      from "2.IH"(1) [OF same False this] obtain j xs where j: "j \<le> k" "T' = ?T1\<lparr>node := snd (tip_reads R (regtest T) j N1)\<rparr>"
        "replicate (Suc st) (Some prev) @ fst (tip_reads R (regtest T) j N1) = xs @ replicate TIP_SETTLE_STABLE_READS (Some t)"
        by auto
      then have "replicate st (Some prev) @ fst (tip_reads R (regtest T) (Suc j) (node T)) = xs @ replicate TIP_SETTLE_STABLE_READS (Some t)"
        using same by (simp add: one replicate_app_Cons_same del: tip_reads.simps)
      then show ?thesis using j(1,2) by (intro exI [of _ "Suc j"]) (auto simp: one simp del: tip_reads.simps)
    qed
  next
    case False
    then have "settleFrom R k u 0 ?T1 = (Inr (Some t), T')" "0 < TIP_SETTLE_STABLE_READS"
      using "2.prems"(1) by (simp_all add: rd u TIP_SETTLE_STABLE_READS_def)
    from "2.IH"(2) [OF False this] obtain j xs where j: "j \<le> k" "T' = ?T1\<lparr>node := snd (tip_reads R (regtest T) j N1)\<rparr>"
        "fst (tip_reads R (regtest T) j N1) = xs @ replicate TIP_SETTLE_STABLE_READS (Some t)"
      by auto
    then have "replicate st (Some prev) @ fst (tip_reads R (regtest T) (Suc j) (node T))
        = (replicate st (Some prev) @ Some u # xs) @ replicate TIP_SETTLE_STABLE_READS (Some t)"
      by (simp add: one del: tip_reads.simps)
    then show ?thesis using j(1,2) by (intro exI [of _ "Suc j"]) (auto simp: one simp del: tip_reads.simps)
  qed
qed simp

text \<open>
  C22. A tip the walk settles on is what the node answered in the last five of at most ten readings
  in a row, each of them usable.
\<close>

theorem settled_tip_is_stable:
  assumes "settleWalkTip R first T = (Inr (Some t), T')"
  shows "\<exists>j xs. j \<le> 10 \<and> fst (tip_reads R (regtest T) j (node T)) = xs @ replicate 5 (Some t)
     \<and> T' = T\<lparr>node := snd (tip_reads R (regtest T) j (node T))\<rparr>"
  using settleFrom_stable [OF assms [unfolded settleWalkTip_def]]
  by (auto simp: TIP_SETTLE_STABLE_READS_def TIP_SETTLE_MAX_READS_def)

end
