(* ===== verification/Reorg.thy ===== *)
theory Reorg
  imports Rollback Node
begin

text \<open>
  The reorg walk: the rest of \<^verbatim>\<open>src/XChainUtxoTracker/reorg_verification.js\<close>. The walk steps
  back from the committed tip until the node agrees with it, within a budget fixed at its entry.
  Its loop runs as long as the node and the store fail, so it is given fuel; a theorem says how
  much is enough when the node answers.
\<close>

subsection \<open>The budget\<close>

record undo_window =
  windowAtEntry :: nat
  budget :: nat
  watermarkAtEntry :: nat
  heldBefore :: nat
  spentBeforeEntry :: nat
  spentByEarlierPassesThisProcess :: nat

definition rollbackBudget :: "('d, 'n) tracker \<Rightarrow> undo_window" where
  "rollbackBudget T =
     (let w = length (lastBlocks T);
          b = (if w > 0 then min w (undoBlocks T) else 0);
          mark = min (undoWindowWatermark T) (undoBlocks T);
          held = (if mark > 0 then mark else undoBlocks T);
          spent = (if w > 0 then held - w else 0) in
      \<lparr>windowAtEntry = w, budget = b, watermarkAtEntry = mark, heldBefore = held, spentBeforeEntry = spent,
       spentByEarlierPassesThisProcess = min spent (reorgRollbacksThisProcess T)\<rparr>)"

subsection \<open>The refusals\<close>

definition spentOrigin :: "nat \<Rightarrow> nat \<Rightarrow> string" where
  "spentOrigin spent earlier =
     (let fromPriorProcess = spent - earlier; fromThisProcess = spent - fromPriorProcess in
      if fromPriorProcess = 0 then dec fromThisProcess @ '' spent by earlier passes in this process''
      else if fromThisProcess = 0 then dec fromPriorProcess @ '' a previous process spent before this restart''
      else dec fromThisProcess @ '' spent by earlier passes in this process and ''
           @ dec fromPriorProcess @ '' a previous process spent before this restart'')"

definition reorgExceedsWindowMessage :: "nat \<Rightarrow> undo_window \<Rightarrow> int \<Rightarrow> nat \<Rightarrow> string" where
  "reorgExceedsWindowMessage undo W lastBlockIndex deletedThisPass =
     (let rolledBack =
        (if windowAtEntry W = 0 \<and> watermarkAtEntry W > 0
         then ''The persisted undo window is EMPTY at entry: a previous process already ''
              @ ''rolled back all '' @ dec (heldBefore W) @ '' blocks this store held (of a nominal UNDO_BLOCKS=''
              @ dec undo @ '' window) before this restart, and the chain still diverges at ''
              @ ''height '' @ decint lastBlockIndex @ '', so the fork is at least '' @ dec (heldBefore W + 1)
              @ '' blocks deep; ''
         else if windowAtEntry W = 0
         then ''The persisted undo window is EMPTY at entry: a previous process already ''
              @ ''rolled back every block this store held (up to the nominal UNDO_BLOCKS=''
              @ dec undo @ ''; this store predates the undo-window watermark, so the exact ''
              @ ''count is unknown) before this restart, and the chain still diverges at height ''
              @ decint lastBlockIndex @ '', so the fork is deeper than the window; ''
         else if spentBeforeEntry W > 0
         then ''Already rolled back '' @ dec deletedThisPass @ '' blocks in this pass, ''
              @ ''on top of '' @ spentOrigin (spentBeforeEntry W) (spentByEarlierPassesThisProcess W) @ '' ''
              @ ''('' @ dec (spentBeforeEntry W + deletedThisPass) @ '' of a ''
              @ dec undo @ ''-block window, now exhausted); ''
         else ''Already rolled back '' @ dec deletedThisPass @ '' blocks; '') in
      ''verifyReorg: reorg depth exceeds the recovery window ''
      @ ''(UNDO_BLOCKS='' @ dec undo @ ''). '' @ rolledBack
      @ ''spent-output recovery records ''
      @ ''for block height '' @ decint lastBlockIndex @ '' and below have already ''
      @ ''been purged, so continuing would silently leave the UTXO index ''
      @ ''under-counted. Aborting. Recovery: this index cannot be walked ''
      @ ''back onto the node's chain and has to be rebuilt. Under xchain-node ''
      @ ''run `xchain-node reset xchain-utxo-tracker <coin> <network>`, which ''
      @ ''drops the volume and takes the bulk-sync path; standalone, stop the ''
      @ ''tracker, empty its data directory and restart it. Restoring the same ''
      @ ''bootstrap again lands back here if its tip is the drifted one.'')"

definition aboveTipEmptyWindowMessage :: "nat \<Rightarrow> int \<Rightarrow> int \<Rightarrow> int \<Rightarrow> string" where
  "aboveTipEmptyWindowMessage undo nodeTipHeight aboveTip lastBlockIndex =
     ''verifyReorg: the node's tip ('' @ decint nodeTipHeight @ '') is '' @ decint aboveTip
     @ '' blocks below the committed tip ('' @ decint lastBlockIndex @ ''), and the undo window is EMPTY ''
     @ ''at entry (0 of UNDO_BLOCKS='' @ dec undo @ '' available): not even one block can be ''
     @ ''walked back. Refusing before any rollback; nothing has been deleted. If the node is ''
     @ ''catching up, syncing resumes once it passes '' @ decint lastBlockIndex @ '' on this chain; if its ''
     @ ''chain diverges at or below '' @ decint lastBlockIndex @ '', this index has to be rebuilt, and the ''
     @ ''depth guard says so as soon as the node reaches this height.''"

definition aboveTipPastBudgetMessage :: "nat \<Rightarrow> int \<Rightarrow> int \<Rightarrow> int \<Rightarrow> nat \<Rightarrow> nat \<Rightarrow> string" where
  "aboveTipPastBudgetMessage undo nodeTipHeight aboveTip lastBlockIndex deleted avail =
     ''verifyReorg: the node's tip ('' @ decint nodeTipHeight @ '') is '' @ decint aboveTip
     @ '' blocks below the committed tip ('' @ decint lastBlockIndex @ ''), which''
     @ (if deleted > 0 then '' with '' @ dec deleted @ '' block(s) already rolled back'' else [])
     @ '' exceeds the recovery window ('' @ dec avail @ '' of UNDO_BLOCKS='' @ dec undo
     @ '' available). Refusing before any further rollback: nothing has been walked back past ''
     @ ''the window, the index is intact and no rebuild is needed. Either the node is still ''
     @ ''catching up (wait for it to pass '' @ decint lastBlockIndex @ '') or it was rolled back below ''
     @ ''this index's tip (operator action).''"

definition refuseAboveTipWalkPastBudget ::
  "undo_window \<Rightarrow> int option \<Rightarrow> int \<Rightarrow> nat \<Rightarrow> (('d, 'n) tracker, unit) m" where
  "refuseAboveTipWalkPastBudget W tip lastBlockIndex deleted = (case tip of
     None \<Rightarrow> mret ()
   | Some t \<Rightarrow>
       if lastBlockIndex > t \<and> int deleted + (lastBlockIndex - t) > int (budget W)
       then mbind (mget undoBlocks) (\<lambda>undo. mthrow (TipBelowCommittedTip
         (if windowAtEntry W = 0 then aboveTipEmptyWindowMessage undo t (lastBlockIndex - t) lastBlockIndex
          else aboveTipPastBudgetMessage undo t (lastBlockIndex - t) lastBlockIndex deleted (budget W))))
       else mret ())"

definition refuseRollbackPastWindow :: "undo_window \<Rightarrow> int \<Rightarrow> nat \<Rightarrow> (('d, 'n) tracker, unit) m" where
  "refuseRollbackPastWindow W lastBlockIndex deleted =
     (if windowAtEntry W = 0 \<or> deleted \<ge> budget W
      then mbind (mget undoBlocks) (\<lambda>undo.
        mthrow (UnrecoverableReorg (reorgExceedsWindowMessage undo W lastBlockIndex deleted)))
      else mret ())"

subsection \<open>The walk\<close>

definition repairLastBlockPointerFromScan ::
  "'d kv \<Rightarrow> block_rec option \<Rightarrow> (('d, 'n) tracker, block_obj) m" where
  "repairLastBlockPointerFromScan K lastBlock = mbind (on_db (getLastBlock K)) (\<lambda>lastBlockDb.
     case lastBlockDb of
       None \<Rightarrow> mthrow CorruptBlockIndex
     | Some l \<Rightarrow>
         if (case lastBlock of None \<Rightarrow> False | Some b \<Rightarrow> bo_height l \<noteq> blk_h b) then mthrow InconsistentHeight
         else mseq (commitLastBlockPointerRepair K (bo_hash l) (bo_height l)) (mret l))"

definition recordRolledBackBlock :: "(('d, 'n) tracker, unit) m" where
  "recordRolledBackBlock = mmod (\<lambda>T. T\<lparr>reorgRollbacksThisProcess := reorgRollbacksThisProcess T + 1\<rparr>)"

definition recordReorg :: "(int \<times> bytes) list \<Rightarrow> (('d, 'n) tracker, unit) m" where
  "recordReorg blocksDeleted = mwhen (length blocksDeleted > 0)
     (mmod (\<lambda>T. T\<lparr>reorgCount := reorgCount T + 1, lastReorgDepth := length blocksDeleted\<rparr>))"

text \<open>The walk's locals: the node's tip as last read, the blocks deleted and the retry count.\<close>

record walk =
  wk_tip :: "int option"
  wk_deleted :: "(int \<times> bytes) list"
  wk_retry :: nat

text \<open>The committed tip: the pointer's height and hash and the block it names.\<close>

definition readTip :: "'d kv \<Rightarrow> ('d store, int option \<times> bytes \<times> block_rec option) m" where
  "readTip K = mbind (getLastBlockHeight K) (\<lambda>i. mbind (getLastBlockHash K) (\<lambda>h. case h of
     None \<Rightarrow> mthrow TypeError
   | Some hash \<Rightarrow> mbind (getBlock K hash) (\<lambda>b. mret (i, hash, b))))"

text \<open>One turn at a consistent tip: the walk ends (\<open>Inr\<close>) or goes round again (\<open>Inl\<close>).\<close>

definition compareTip ::
  "'d kv \<Rightarrow> 'n rpc \<Rightarrow> undo_window \<Rightarrow> walk \<Rightarrow> bytes \<Rightarrow> block_rec \<Rightarrow> (('d, 'n) tracker, walk + (int \<times> bytes) list) m" where
  "compareTip K R W wk lastBlockHash lastBlock =
     (let lastBlockIndex = blk_h lastBlock;
          aboveNodeTip = (case wk_tip wk of None \<Rightarrow> False | Some t \<Rightarrow> lastBlockIndex > t);
          rollBack = mseq (refuseRollbackPastWindow W lastBlockIndex (length (wk_deleted wk)))
            (mbind (rollBackTipBlock K lastBlockHash lastBlock (wk_retry wk)) (\<lambda>ok.
             if \<not> ok then mret (Inl (wk\<lparr>wk_retry := wk_retry wk + 1\<rparr>))
             else mseq recordRolledBackBlock
               (mret (Inl (wk\<lparr>wk_retry := 0, wk_deleted := wk_deleted wk @ [(lastBlockIndex, lastBlockHash)]\<rparr>))))) in
      mseq (refuseAboveTipWalkPastBudget W (wk_tip wk) lastBlockIndex (length (wk_deleted wk)))
      (if aboveNodeTip then rollBack
       else mbind (nodeBlockHashOrRetry R lastBlockIndex (wk_tip wk)) (\<lambda>(h, tip). case h of
         None \<Rightarrow> mret (Inl (wk\<lparr>wk_tip := tip\<rparr>))
       | Some blockHashFromNode \<Rightarrow>
           if lastBlockHash \<noteq> blockHashFromNode then rollBack else mret (Inr (wk_deleted wk)))))"

definition walkStep ::
  "'d kv \<Rightarrow> 'n rpc \<Rightarrow> undo_window \<Rightarrow> walk \<Rightarrow> (('d, 'n) tracker, walk + (int \<times> bytes) list) m" where
  "walkStep K R W wk = mbind (on_db (readTip K)) (\<lambda>(lastBlockIndex, lastBlockHash, lastBlock).
     if (case lastBlock of None \<Rightarrow> True | Some b \<Rightarrow> lastBlockIndex \<noteq> Some (blk_h b))
     then mseq (repairLastBlockPointerFromScan K lastBlock) (mret (Inl wk))
     else compareTip K R W wk lastBlockHash (the lastBlock))"

text \<open>\<open>None\<close>: the fuel ran out and the walk is still going round.\<close>

fun reorgWalk ::
  "'d kv \<Rightarrow> 'n rpc \<Rightarrow> undo_window \<Rightarrow> nat \<Rightarrow> walk \<Rightarrow> (('d, 'n) tracker, (int \<times> bytes) list option) m" where
  "reorgWalk K R W 0 wk = mret None"
| "reorgWalk K R W (Suc n) wk = mbind (walkStep K R W wk) (\<lambda>r. case r of
     Inl wk' \<Rightarrow> reorgWalk K R W n wk'
   | Inr deleted \<Rightarrow> mret (Some deleted))"

text \<open>\<open>True\<close>: \<open>verifyReorg\<close> has returned; \<open>False\<close>: out of fuel.\<close>

definition verifyReorg :: "'d kv \<Rightarrow> 'n rpc \<Rightarrow> nat \<Rightarrow> int option \<Rightarrow> (('d, 'n) tracker, bool) m" where
  "verifyReorg K R fuel nodeTipHeight = mbind (mget rollbackBudget) (\<lambda>W.
     mbind (reorgWalk K R W fuel \<lparr>wk_tip = nodeTipHeight, wk_deleted = [], wk_retry = 0\<rparr>) (\<lambda>r. case r of
       None \<Rightarrow> mret False
     | Some deleted \<Rightarrow> mseq (recordReorg deleted) (mret True)))"

subsection \<open>The walk keeps within its window\<close>

text \<open>\<open>spares p\<close>: the part \<open>p\<close> of the tracker is neither the store, the node nor the window.\<close>

definition spares :: "(('d, 'n) tracker \<Rightarrow> 'p) \<Rightarrow> bool" where
  "spares p \<longleftrightarrow> (\<forall>T s n lb. p (T\<lparr>confirmed := s\<rparr>) = p T \<and> p (T\<lparr>node := n\<rparr>) = p T \<and> p (T\<lparr>lastBlocks := lb\<rparr>) = p T)"

lemma keeps_reads:
  assumes "spares p"
  shows "keeps p (readWalkTip R)" "keeps p (settleFrom R k t n)" "keeps p (refreshWalkTip R tip)"
    "keeps p (nodeBlockHashOrRetry R i tip)"
proof -
  show r: "keeps p (readWalkTip R)" for R
    using assms unfolding readWalkTip_def spares_def by (intro keeps_intros) simp_all
  show f: "keeps p (settleFrom R k t n)" for R k t n
    by (induction k arbitrary: t n) (auto intro!: keeps_intros r)
  show s: "keeps p (refreshWalkTip R tip)" for tip
    unfolding refreshWalkTip_def settleWalkTip_def by (intro keeps_intros r f)
  show "keeps p (nodeBlockHashOrRetry R i tip)"
    using assms unfolding nodeBlockHashOrRetry_def spares_def by (intro keeps_intros s) simp_all
qed

lemma keeps_store_steps:
  assumes "spares p"
  shows "keeps p (repairLastBlockPointerFromScan K b)" "keeps p (reloadLastBlocks K)"
    "keeps p (rollBackBatch K h r)" "keeps p (rollBackTipBlock K h r c)"
proof -
  have db: "keeps p (on_db f)" for f :: "('a store, 'x) m"
    using assms by (intro keeps_intros) (simp add: spares_def)
  have lb: "keeps p (mmod (\<lambda>T. T\<lparr>lastBlocks := g T\<rparr>))" for g
    using assms by (intro keeps_intros) (simp add: spares_def)
  show "keeps p (repairLastBlockPointerFromScan K b)"
    unfolding repairLastBlockPointerFromScan_def commitLastBlockPointerRepair_def by (intro keeps_intros db)
  show re: "keeps p (reloadLastBlocks K)"
    unfolding reloadLastBlocks_def by (intro keeps_intros db lb)
  show ba: "keeps p (rollBackBatch K h r)"
    unfolding rollBackBatch_def removeFromLastBlocks_def by (intro keeps_intros db lb re)
  show "keeps p (rollBackTipBlock K h r c)"
    unfolding keeps_def
  proof (intro allI)
    fix T :: "('a, 'b) tracker"
    obtain e T' where b: "rollBackBatch K h r T = (e, T')" by (cases "rollBackBatch K h r T")
    let ?T1 = "snd (on_db (endTransaction K False) T')"
    have p: "p T' = p T" "p ?T1 = p T'" "p (snd (reloadLastBlocks K ?T1)) = p ?T1"
      using keepsD [OF ba b] db [of "endTransaction K False", unfolded keeps_def] re [unfolded keeps_def] by simp_all
    then show "p (snd (rollBackTipBlock K h r c T)) = p T"
      by (cases e) (simp_all add: rollBackTipBlock_def b Let_def)
  qed
qed

lemma keeps_refusals:
  "keeps p (refuseAboveTipWalkPastBudget W tip i n)" "keeps p (refuseRollbackPastWindow W i n)"
  unfolding refuseAboveTipWalkPastBudget_def refuseRollbackPastWindow_def by (intro keeps_intros)+

lemma spares_counters [simp]: "spares reorgRollbacksThisProcess" "spares undoBlocks" "spares lastReorgDepth" "spares reorgCount"
  by (simp_all add: spares_def)

text \<open>What a turn of the walk may do to its list of deleted blocks and to the counter.\<close>

definition turn_ok :: "undo_window \<Rightarrow> walk \<Rightarrow> nat \<Rightarrow> (error + (walk + (int \<times> bytes) list)) \<Rightarrow> nat \<Rightarrow> bool" where
  "turn_ok W wk c r c' \<longleftrightarrow> (case r of
     Inr (Inl wk') \<Rightarrow>
       (wk_deleted wk' = wk_deleted wk \<and> c' = c)
       \<or> (length (wk_deleted wk) < budget W \<and> length (wk_deleted wk') = Suc (length (wk_deleted wk)) \<and> c' = Suc c)
   | Inr (Inr d) \<Rightarrow> d = wk_deleted wk \<and> c' = c
   | Inl _ \<Rightarrow> c' = c)"

lemma compareTip_turn:
  assumes "compareTip K R W wk h b T = (r, T')"
  shows "turn_ok W wk (reorgRollbacksThisProcess T) r (reorgRollbacksThisProcess T')"
proof -
  let ?n = "length (wk_deleted wk)"
  let ?roll = "mseq (refuseRollbackPastWindow W (blk_h b) ?n)
            (mbind (rollBackTipBlock K h b (wk_retry wk)) (\<lambda>ok.
             if \<not> ok then mret (Inl (wk\<lparr>wk_retry := wk_retry wk + 1\<rparr>))
             else mseq recordRolledBackBlock
               (mret (Inl (wk\<lparr>wk_retry := 0, wk_deleted := wk_deleted wk @ [(blk_h b, h)]\<rparr>)))))"
  have roll: "turn_ok W wk (reorgRollbacksThisProcess S) q (reorgRollbacksThisProcess S')"
    if "?roll S = (q, S')" for S q S'
  proof (cases "windowAtEntry W = 0 \<or> budget W \<le> ?n")
    case True
    then show ?thesis using that by (auto simp: turn_ok_def refuseRollbackPastWindow_def)
  next
    case False
    obtain e S1 where e: "rollBackTipBlock K h b (wk_retry wk) S = (e, S1)"
      by (cases "rollBackTipBlock K h b (wk_retry wk) S")
    have "reorgRollbacksThisProcess S1 = reorgRollbacksThisProcess S"
      by (rule keepsD [OF keeps_store_steps(4) e]) simp
    with that False e show ?thesis
      by (cases e) (auto simp: turn_ok_def refuseRollbackPastWindow_def mbind_run recordRolledBackBlock_def split: if_splits)
  qed
  obtain e1 T1 where e1: "refuseAboveTipWalkPastBudget W (wk_tip wk) (blk_h b) ?n T = (e1, T1)"
    by (cases "refuseAboveTipWalkPastBudget W (wk_tip wk) (blk_h b) ?n T")
  have k1: "reorgRollbacksThisProcess T1 = reorgRollbacksThisProcess T"
    by (rule keepsD [OF keeps_refusals(1) e1])
  obtain e2 T2 where e2: "nodeBlockHashOrRetry R (blk_h b) (wk_tip wk) T1 = (e2, T2)"
    by (cases "nodeBlockHashOrRetry R (blk_h b) (wk_tip wk) T1")
  have k2: "reorgRollbacksThisProcess T2 = reorgRollbacksThisProcess T1"
    by (rule keepsD [OF keeps_reads(4) e2]) simp
  show ?thesis
  proof (cases e1)
    case (Inl x)
    then show ?thesis using assms e1 k1 by (simp add: compareTip_def Let_def mseq_run turn_ok_def) auto
  next
    case u: (Inr u)
    show ?thesis
    proof (cases "case wk_tip wk of None \<Rightarrow> False | Some t \<Rightarrow> blk_h b > t")
      case True
      then show ?thesis using assms e1 u k1 roll [of T1] by (simp add: compareTip_def Let_def mseq_run)
    next
      case False
      then show ?thesis using assms e1 u k1 k2 e2 roll [of T2 r T']
        by (cases e2) (auto simp: compareTip_def Let_def mseq_run mbind_run turn_ok_def split: option.splits if_splits)
    qed
  qed
qed

lemma readTip_state [simp]: "snd (readTip K s) = s"
proof -
  have "snd (getLastBlockHeight K s) = s" "snd (getLastBlockHash K s) = s"
    unfolding getLastBlockHeight_def getLastBlockHash_def by (auto intro!: mbind_state split: option.split)
  then show ?thesis unfolding readTip_def
    by (intro mbind_state) (auto intro!: mbind_state simp: getLastBlockHash_def split: option.split)
qed

lemma on_db_readTip: "on_db (readTip K) T = (fst (readTip K (confirmed T)), T)"
  using readTip_state [of K "confirmed T"] by (cases "readTip K (confirmed T)") (simp add: on_db_def)

lemma walkStep_unfold: "walkStep K R W wk T = (case fst (readTip K (confirmed T)) of
    Inl e \<Rightarrow> (Inl e, T)
  | Inr (i, h, b) \<Rightarrow>
     (if (case b of None \<Rightarrow> True | Some b \<Rightarrow> i \<noteq> Some (blk_h b))
      then mseq (repairLastBlockPointerFromScan K b) (mret (Inl wk)) T
      else compareTip K R W wk h (the b) T))"
  by (auto simp: walkStep_def mbind_def on_db_readTip split: sum.split prod.split)

lemma walkStep_turn:
  assumes "walkStep K R W wk T = (r, T')"
  shows "turn_ok W wk (reorgRollbacksThisProcess T) r (reorgRollbacksThisProcess T')"
proof -
  have rep: "turn_ok W wk (reorgRollbacksThisProcess T) r (reorgRollbacksThisProcess T')"
    if m: "mseq (repairLastBlockPointerFromScan K b) (mret (Inl wk)) T = (r, T')" for b
  proof -
    obtain e T1 where e: "repairLastBlockPointerFromScan K b T = (e, T1)" by (cases "repairLastBlockPointerFromScan K b T")
    have "reorgRollbacksThisProcess T1 = reorgRollbacksThisProcess T"
      by (rule keepsD [OF keeps_store_steps(1) e]) simp
    then show ?thesis using m e by (cases e) (auto simp: mseq_run turn_ok_def)
  qed
  show ?thesis
    using assms rep compareTip_turn
    by (auto simp: walkStep_unfold turn_ok_def [of W wk _ "Inl _"] split: sum.splits prod.splits if_splits)
qed

lemma reorgWalk_keeps:
  assumes p: "spares p" and c: "\<And>T n. p (T\<lparr>reorgRollbacksThisProcess := n\<rparr>) = p T"
  shows "keeps p (reorgWalk K R W n wk)"
proof -
  have t: "keeps p (on_db (readTip K))" for K :: "'a kv"
    using p by (intro keeps_intros) (simp add: spares_def)
  have cmp: "keeps p (compareTip K R W wk h b)" for wk h b
    unfolding compareTip_def Let_def recordRolledBackBlock_def
    by (intro keeps_intros keeps_refusals keeps_store_steps keeps_reads p c)
  have s: "keeps p (walkStep K R W wk)" for wk
    unfolding walkStep_def by (intro keeps_intros t cmp keeps_store_steps p)
  show ?thesis
    by (induction n arbitrary: wk) (auto intro!: keeps_intros s split: sum.split)
qed

lemma reorgWalk_count:
  assumes "reorgWalk K R W n wk T = (r, T')" and "length (wk_deleted wk) \<le> budget W"
  shows "\<exists>m. reorgRollbacksThisProcess T' = reorgRollbacksThisProcess T + m \<and> length (wk_deleted wk) + m \<le> budget W
    \<and> (\<forall>d. r = Inr (Some d) \<longrightarrow> length d = length (wk_deleted wk) + m)"
  using assms
proof (induction n arbitrary: wk T)
  case (Suc n)
  obtain e T1 where e: "walkStep K R W wk T = (e, T1)" by (cases "walkStep K R W wk T")
  note t = walkStep_turn [OF e]
  show ?case
  proof (cases e)
    case (Inr q)
    show ?thesis
    proof (cases q)
      case (Inl wk')
      then have w: "reorgWalk K R W n wk' T1 = (r, T')" using Suc.prems(1) e Inr by (simp add: mbind_run)
      have "length (wk_deleted wk') \<le> budget W" using t Suc.prems(2) Inr Inl by (auto simp: turn_ok_def)
      from Suc.IH [OF w this] obtain m where m: "reorgRollbacksThisProcess T' = reorgRollbacksThisProcess T1 + m"
        "length (wk_deleted wk') + m \<le> budget W"
        "\<forall>d. r = Inr (Some d) \<longrightarrow> length d = length (wk_deleted wk') + m" by blast
      have "\<exists>j. reorgRollbacksThisProcess T1 = reorgRollbacksThisProcess T + j
          \<and> length (wk_deleted wk') = length (wk_deleted wk) + j"
        using t Inr Inl by (auto simp: turn_ok_def)
      then obtain j where "reorgRollbacksThisProcess T1 = reorgRollbacksThisProcess T + j"
          "length (wk_deleted wk') = length (wk_deleted wk) + j" by blast
      then show ?thesis using m by (intro exI [of _ "j + m"]) (simp add: add.assoc split: sum.splits option.splits)
    next
      case (Inr d)
      then show ?thesis using Suc.prems t e \<open>e = Inr q\<close> by (auto simp: mbind_run turn_ok_def)
    qed
  qed (use Suc.prems t e in \<open>auto simp: mbind_run turn_ok_def\<close>)
qed auto


subsection \<open>A walk that returns has found the common ancestor\<close>

lemma compareTip_done:
  assumes "compareTip K R W wk h b T = (Inr (Inr d), T')"
  shows "\<exists>N. rpc_hash R (blk_h b) N = (Some h, node T')" and "confirmed T' = confirmed T" and "lastBlocks T' = lastBlocks T"
proof -
  let ?n = "length (wk_deleted wk)"
  have no_roll: "\<not> mseq (refuseRollbackPastWindow W (blk_h b) ?n)
            (mbind (rollBackTipBlock K h b (wk_retry wk)) (\<lambda>ok.
             if \<not> ok then mret (Inl (wk\<lparr>wk_retry := wk_retry wk + 1\<rparr>))
             else mseq recordRolledBackBlock
               (mret (Inl (wk\<lparr>wk_retry := 0, wk_deleted := wk_deleted wk @ [(blk_h b, h)]\<rparr>))))) S = (Inr (Inr d), T')" for S
    by (auto simp: mseq_Inr_iff mbind_Inr_iff recordRolledBackBlock_def split: if_splits)
  have r: "refuseAboveTipWalkPastBudget W (wk_tip wk) (blk_h b) ?n T = (Inr (), T)"
    using assms by (auto simp: compareTip_def Let_def mseq_Inr_iff refuseAboveTipWalkPastBudget_def split: option.splits if_splits)
  obtain x N where x: "rpc_hash R (blk_h b) (node T) = (x, N)" by (cases "rpc_hash R (blk_h b) (node T)")
  have "x = Some h \<and> T' = T\<lparr>node := N\<rparr>"
  proof (cases "case wk_tip wk of None \<Rightarrow> False | Some t \<Rightarrow> blk_h b > t")
    case True
    then show ?thesis using assms r no_roll by (simp add: compareTip_def Let_def mseq_run)
  next
    case False
    obtain e S where e: "nodeBlockHashOrRetry R (blk_h b) (wk_tip wk) T = (e, S)"
      by (cases "nodeBlockHashOrRetry R (blk_h b) (wk_tip wk) T")
    have m: "mbind (nodeBlockHashOrRetry R (blk_h b) (wk_tip wk)) f T = (case e of Inl err \<Rightarrow> (Inl err, S) | Inr a \<Rightarrow> f a S)"
      for f :: "bytes option \<times> int option \<Rightarrow> (('a, 'b) tracker, walk + (int \<times> bytes) list) m"
      using e by (cases e) (simp_all add: mbind_run)
    show ?thesis
    proof (cases x)
      case None
      then have "(\<exists>err. e = Inl err) \<or> (\<exists>t. e = Inr (None, t))"
        using e x by (auto simp: nodeBlockHashOrRetry_def mbind_def on_node_def split: prod.splits sum.splits)
      then show ?thesis using assms r False m by (cases e) (auto simp: compareTip_def Let_def mseq_run)
    next
      case (Some y)
      then have "e = Inr (Some y, wk_tip wk)" "S = T\<lparr>node := N\<rparr>"
        using e x by (auto simp: nodeBlockHashOrRetry_def mbind_def on_node_def)
      then show ?thesis using assms r False m no_roll Some by (auto simp: compareTip_def Let_def mseq_run split: if_splits)
    qed
  qed
  then show "\<exists>N. rpc_hash R (blk_h b) N = (Some h, node T')" "confirmed T' = confirmed T" "lastBlocks T' = lastBlocks T"
    using x by auto
qed

text \<open>The committed tip is consistent and the node names it: the pointer, the block record and the node agree.\<close>

definition agrees_with_node :: "'d kv \<Rightarrow> 'n rpc \<Rightarrow> ('d, 'n) tracker \<Rightarrow> bool" where
  "agrees_with_node K R T \<longleftrightarrow> (\<exists>b h N.
     fst (readTip K (confirmed T)) = Inr (Some (blk_h b), h, Some b) \<and> rpc_hash R (blk_h b) N = (Some h, node T))"

lemma walkStep_done:
  assumes "walkStep K R W wk T = (Inr (Inr d), T')"
  shows "agrees_with_node K R T'"
proof -
  have "\<not> mseq (repairLastBlockPointerFromScan K b) (mret (Inl wk)) T = (Inr (Inr d), T')" for b
    by (auto simp: mseq_Inr_iff)
  then obtain h b where c: "fst (readTip K (confirmed T)) = Inr (Some (blk_h b), h, Some b)"
      "compareTip K R W wk h b T = (Inr (Inr d), T')"
    using assms by (auto simp: walkStep_unfold split: sum.splits prod.splits if_splits option.splits)
  show ?thesis unfolding agrees_with_node_def
    using c(1) compareTip_done [OF c(2)] by (intro exI [of _ b] exI [of _ h]) simp
qed

lemma reorgWalk_done:
  assumes "reorgWalk K R W n wk T = (Inr (Some d), T')"
  shows "agrees_with_node K R T'"
  using assms
proof (induction n arbitrary: wk T)
  case (Suc n)
  obtain e T1 where e: "walkStep K R W wk T = (e, T1)" by (cases "walkStep K R W wk T")
  show ?case
  proof (cases e)
    case (Inr q)
    then show ?thesis
      using Suc.prems e Suc.IH [of _ T1] walkStep_done [of K R W wk T _ T1]
      by (cases q) (auto simp: mbind_run)
  qed (use Suc.prems e in \<open>auto simp: mbind_run\<close>)
qed auto

text \<open>
  C9. When the reorg walk returns, the height pointer, the hash pointer and the block record of the
  committed tip agree, and the last answer the node gave is that hash for that height: the index
  ends on a block of the node's chain.
\<close>

theorem reorg_ends_on_node_chain:
  assumes "verifyReorg K R fuel tip T = (Inr True, T')"
  shows "agrees_with_node K R T'"
proof -
  obtain d T1 where w: "reorgWalk K R (rollbackBudget T) fuel \<lparr>wk_tip = tip, wk_deleted = [], wk_retry = 0\<rparr> T = (Inr (Some d), T1)"
      and d: "recordReorg d T1 = (Inr (), T')"
    using assms by (auto simp: verifyReorg_def mbind_Inr_iff mseq_Inr_iff split: option.splits)
  have "confirmed T' = confirmed T1 \<and> node T' = node T1"
    using d by (auto simp: recordReorg_def mwhen_def split: if_splits)
  then show ?thesis using reorgWalk_done [OF w] by (simp add: agrees_with_node_def)
qed

subsection \<open>The walk ends\<close>

text \<open>The pointer and the block it names agree, or reading them throws.\<close>

definition tip_consistent :: "'d kv \<Rightarrow> 'd store \<Rightarrow> bool" where
  "tip_consistent K s \<longleftrightarrow> (case fst (readTip K s) of Inl _ \<Rightarrow> True
     | Inr (i, h, b) \<Rightarrow> (case b of None \<Rightarrow> False | Some b \<Rightarrow> i = Some (blk_h b)))"

lemma maxBlock_entry:
  assumes "maxBlock es best = Inr (Some l)"
  shows "best = Some l \<or> (\<exists>k v r. (k, v) \<in> set es \<and> decodeBlock v = Inr r \<and> bo_hash l = drop 1 k \<and> bo_height l = blk_h r)"
  using assms
proof (induction es best rule: maxBlock.induct)
  case (2 key val es best)
  obtain r where r: "decodeBlock val = Inr r" using "2.prems" by (cases "decodeBlock val") auto
  let ?cur = "\<lparr>bo_hash = drop 1 key, bo_height = blk_h r, bo_timestamp = blk_t r, bo_previousHash = blk_ph r\<rparr>"
  let ?nb = "case best of None \<Rightarrow> Some ?cur | Some b \<Rightarrow> if blk_h r > bo_height b then Some ?cur else best"
  have "maxBlock es ?nb = Inr (Some l)" using "2.prems" r by (simp only: maxBlock.simps rbind_simps Let_def)
  from "2.IH" [OF r refl this] have "?nb = Some l \<or> (\<exists>k v r. (k, v) \<in> set es \<and> decodeBlock v = Inr r \<and> bo_hash l = drop 1 k \<and> bo_height l = blk_h r)"
    by simp
  then show ?case using r by (fastforce split: option.splits if_splits)
qed auto

context leveldb
begin

lemma repair_consistent:
  fixes T :: "('d, 'n) tracker"
  assumes "repairLastBlockPointerFromScan K b T = (Inr l, T')"
  shows "tip_consistent K (confirmed T')"
proof -
  let ?db = "kv_get K (db (confirmed T))"
  have "mbind (on_db (getLastBlock K)) f T = (case maxBlock (kv_iter K (db (confirmed T)) (range_of [P_BLOCK])) None of
      Inl e \<Rightarrow> (Inl e, T) | Inr a \<Rightarrow> f a T)" for f :: "block_obj option \<Rightarrow> (('d, 'n) tracker, block_obj) m"
    by (simp add: getLastBlock_def mbind_def on_db_def dbIter_def split: sum.split)
  then have l: "maxBlock (kv_iter K (db (confirmed T)) (range_of [P_BLOCK])) None = Inr (Some l)"
      and c: "commitLastBlockPointerRepair K (bo_hash l) (bo_height l) T = (Inr (), T')"
    using assms by (auto simp: repairLastBlockPointerFromScan_def mseq_Inr_iff split: sum.splits option.splits if_splits)
  obtain k v r where k: "?db k = Some v" "in_range (range_of [P_BLOCK]) k" "decodeBlock v = Inr r"
      "bo_hash l = drop 1 k" "bo_height l = blk_h r"
    using maxBlock_entry [OF l] iter_mem by auto
  have kb: "k = bKey (bo_hash l)" using in_range_of_prefix [OF k(2)] k(4) by (auto elim: prefixE simp: key_defs)
  let ?s = "fold stage [Put PREFIX_LAST_BLOCK_HASH (utf8 (b2h (bo_hash l))), Put PREFIX_LAST_BLOCK_HEIGHT (utf8 (hexint (bo_height l)))]
      ((confirmed T)\<lparr>transactionArray := Some [], deletedTransactionArray := Some []\<rparr>)"
  obtain s' where s': "endTransaction K True ?s = (Inr (), s')" "T' = T\<lparr>confirmed := s'\<rparr>"
    using c by (auto simp: commitLastBlockPointerRepair_def setLastBlockHash_def setLastBlockHeight_def on_db_def split: prod.splits)
  have g: "kv_get K (db s') = ?db(PREFIX_LAST_BLOCK_HASH \<mapsto> utf8 (b2h (bo_hash l)), PREFIX_LAST_BLOCK_HEIGHT \<mapsto> utf8 (hexint (bo_height l)))"
    using commit_view(1) [OF _ s'(1)] by (simp add: view_simps apply_item_def fun_upd_twist)
  have "fst (readTip K s') = (if length (bo_hash l) \<noteq> 32 then Inl (KeyLength ''kBlock'' ''blockHash'' (length (bo_hash l)))
      else Inr (Some (bo_height l), bo_hash l, Some r))"
  proof (cases "length (bo_hash l) = 32")
    case True
    then have "kBlock (bo_hash l) = Inr (bKey (bo_hash l))" by (simp add: codec_simps)
    with True show ?thesis using k(1,3) unfolding kb
      by (simp add: readTip_def getLastBlockHeight_def getLastBlockHash_def getBlock_def dbGet_def g mbind_def parseInt16_hexint)
  next
    case False
    then have "kBlock (bo_hash l) = Inl (KeyLength ''kBlock'' ''blockHash'' (length (bo_hash l)))" by (simp add: kBlock_def)
    with False show ?thesis
      by (simp add: readTip_def getLastBlockHeight_def getLastBlockHash_def getBlock_def dbGet_def g mbind_def parseInt16_hexint)
  qed
  then show ?thesis using k(5) s'(2) by (simp add: tip_consistent_def)
qed

text \<open>
  The measure of a walk: what is left of the budget, then of the retries of the block, then whether
  the pointer must be repaired first.
\<close>

definition turns_left :: "undo_window \<Rightarrow> walk \<Rightarrow> 'd store \<Rightarrow> nat" where
  "turns_left W wk s = 22 * (budget W - length (wk_deleted wk)) + 2 * (10 - wk_retry wk)
     + (if tip_consistent K s then 0 else 1)"

lemma turns_left_below:
  "22 * (budget W - length (wk_deleted wk)) + 2 * (10 - wk_retry wk) \<le> turns_left W wk s"
  "turns_left W wk s \<le> 22 * (budget W - length (wk_deleted wk)) + 2 * (10 - wk_retry wk) + 1"
  by (simp_all add: turns_left_def)

lemma rollBackTipBlock_retry: "rollBackTipBlock K h b c T = (Inr False, T') \<Longrightarrow> c + 1 < 10"
  by (auto simp: rollBackTipBlock_def Let_def split: sum.splits prod.splits if_splits)

lemma compareTip_decreases:
  fixes T :: "('d, 'n) tracker"
  assumes run: "compareTip K R W wk h b T = (Inr (Inl wk'), T')"
    and node: "\<And>i N. fst (rpc_hash R i N) \<noteq> None"
    and retry: "wk_retry wk < 10" and ok: "tip_consistent K (confirmed T)"
  shows "wk_retry wk' < 10 \<and> turns_left W wk' (confirmed T') < turns_left W wk (confirmed T)"
proof -
  let ?n = "length (wk_deleted wk)"
  let ?roll = "mseq (refuseRollbackPastWindow W (blk_h b) ?n)
            (mbind (rollBackTipBlock K h b (wk_retry wk)) (\<lambda>ok.
             if \<not> ok then mret (Inl (wk\<lparr>wk_retry := wk_retry wk + 1\<rparr>))
             else mseq recordRolledBackBlock
               (mret (Inl (wk\<lparr>wk_retry := 0, wk_deleted := wk_deleted wk @ [(blk_h b, h)]\<rparr>)))))"
  have roll: "wk_retry wk' < 10 \<and> turns_left W wk' (confirmed T') < turns_left W wk (confirmed T)"
    if r: "?roll S = (Inr (Inl wk'), T')" for S
  proof -
    have n: "?n < budget W" using r by (auto simp: refuseRollbackPastWindow_def mseq_Inr_iff split: if_splits)
    obtain e S1 where e: "rollBackTipBlock K h b (wk_retry wk) S = (Inr e, S1)"
        and c: "if e then wk' = wk\<lparr>wk_retry := 0, wk_deleted := wk_deleted wk @ [(blk_h b, h)]\<rparr>
          else wk' = wk\<lparr>wk_retry := wk_retry wk + 1\<rparr>"
      using r n by (auto simp: refuseRollbackPastWindow_def mseq_Inr_iff mbind_Inr_iff recordRolledBackBlock_def split: if_splits)
    show ?thesis
    proof (cases e)
      case True
      with c n have "turns_left W wk' (confirmed T') \<le> 22 * (budget W - Suc ?n) + 21"
        using turns_left_below(2) [of W wk' "confirmed T'"] by simp
      also have "\<dots> < 22 * (budget W - ?n)" using n by simp
      also have "\<dots> \<le> turns_left W wk (confirmed T)" using turns_left_below(1) [of W wk "confirmed T"] by linarith
      finally show ?thesis using c True by simp
    next
      case False
      then have "wk_retry wk + 1 < 10" using e rollBackTipBlock_retry by simp
      then show ?thesis using c False turns_left_below(2) [of W wk' "confirmed T'"] turns_left_below(1) [of W wk "confirmed T"] by simp
    qed
  qed
  have u: "refuseAboveTipWalkPastBudget W (wk_tip wk) (blk_h b) ?n T = (Inr (), T)"
    using run by (auto simp: compareTip_def Let_def mseq_Inr_iff refuseAboveTipWalkPastBudget_def split: option.splits if_splits)
  show ?thesis
  proof (cases "case wk_tip wk of None \<Rightarrow> False | Some t \<Rightarrow> blk_h b > t")
    case True
    then show ?thesis using run u roll [of T] by (simp add: compareTip_def Let_def mseq_run)
  next
    case False
    obtain y N where y: "rpc_hash R (blk_h b) (node T) = (Some y, N)"
      using node [of "blk_h b" "node T"] by (cases "rpc_hash R (blk_h b) (node T)") auto
    then have "nodeBlockHashOrRetry R (blk_h b) (wk_tip wk) T = (Inr (Some y, wk_tip wk), T\<lparr>node := N\<rparr>)"
      by (simp add: nodeBlockHashOrRetry_def mbind_def on_node_def)
    then show ?thesis using run u False roll by (simp add: compareTip_def Let_def mseq_run mbind_run split: if_splits)
  qed
qed

lemma walkStep_decreases:
  fixes T :: "('d, 'n) tracker"
  assumes run: "walkStep K R W wk T = (Inr (Inl wk'), T')"
    and node: "\<And>i N. fst (rpc_hash R i N) \<noteq> None" and retry: "wk_retry wk < 10"
  shows "wk_retry wk' < 10 \<and> turns_left W wk' (confirmed T') < turns_left W wk (confirmed T)"
proof -
  obtain i h b where t: "fst (readTip K (confirmed T)) = Inr (i, h, b)"
    using run by (auto simp: walkStep_unfold split: sum.splits)
  show ?thesis
  proof (cases "case b of None \<Rightarrow> True | Some b \<Rightarrow> i \<noteq> Some (blk_h b)")
    case True
    then obtain l where "repairLastBlockPointerFromScan K b T = (Inr l, T')" and w: "wk' = wk"
      using run t by (auto simp: walkStep_unfold mseq_Inr_iff)
    then have "tip_consistent K (confirmed T')" using repair_consistent by blast
    moreover have "\<not> tip_consistent K (confirmed T)" using t True by (auto simp: tip_consistent_def split: option.splits)
    ultimately show ?thesis using w retry by (simp add: turns_left_def)
  next
    case False
    then have "tip_consistent K (confirmed T)" using t by (auto simp: tip_consistent_def split: option.splits)
    then show ?thesis using compareTip_decreases [OF _ node retry] run t False by (simp add: walkStep_unfold)
  qed
qed

lemma reorgWalk_ends:
  fixes T :: "('d, 'n) tracker"
  assumes "\<And>i N. fst (rpc_hash R i N) \<noteq> None" and "wk_retry wk < 10" and "turns_left W wk (confirmed T) < n"
  shows "fst (reorgWalk K R W n wk T) \<noteq> Inr None"
  using assms(2,3)
proof (induction n arbitrary: wk T)
  case (Suc n)
  obtain e T1 where e: "walkStep K R W wk T = (e, T1)" by (cases "walkStep K R W wk T")
  show ?case
  proof (cases e)
    case (Inr q)
    show ?thesis
    proof (cases q)
      case (Inl wk')
      then have "wk_retry wk' < 10 \<and> turns_left W wk' (confirmed T1) < turns_left W wk (confirmed T)"
        using walkStep_decreases [OF _ assms(1) Suc.prems(1)] e Inr by simp
      then have "fst (reorgWalk K R W n wk' T1) \<noteq> Inr None" using Suc by simp
      then show ?thesis using e Inr Inl by (simp add: mbind_run)
    qed (use e Inr in \<open>simp add: mbind_run\<close>)
  qed (use e in \<open>simp add: mbind_run\<close>)
qed simp

lemma verifyReorg_ends:
  fixes T :: "('d, 'n) tracker"
  assumes "\<And>i N. fst (rpc_hash R i N) \<noteq> None" and "22 * min (length (lastBlocks T)) (undoBlocks T) + 22 \<le> fuel"
  shows "fst (verifyReorg K R fuel tip T) \<noteq> Inr False"
proof -
  let ?W = "rollbackBudget T" and ?wk = "\<lparr>wk_tip = tip, wk_deleted = [], wk_retry = 0\<rparr>"
  have "turns_left ?W ?wk (confirmed T) \<le> 22 * min (length (lastBlocks T)) (undoBlocks T) + 21"
    using turns_left_below(2) [of ?W ?wk "confirmed T"] by (auto simp: rollbackBudget_def Let_def split: if_splits)
  then have "fst (reorgWalk K R ?W fuel ?wk T) \<noteq> Inr None" using assms by (intro reorgWalk_ends) simp_all
  then show ?thesis
    by (cases "reorgWalk K R ?W fuel ?wk T")
      (auto simp: verifyReorg_def mbind_def recordReorg_def mseq_def mwhen_def split: sum.split option.split)
qed

end

text \<open>
  C16. With a store that keeps LevelDB's promises and a node that answers for every height, a pass of
  the reorg walk ends, returning or throwing, within 22 turns for each block of the window and 22
  more: ten attempts at a block, each with at most one repair of the last-block pointer.
\<close>

theorem reorg_terminates:
  assumes "leveldb K" and "\<And>i N. fst (rpc_hash R i N) \<noteq> None"
    and "22 * min (length (lastBlocks T)) (undoBlocks T) + 22 \<le> fuel"
  shows "fst (verifyReorg K R fuel tip T) \<noteq> Inr False"
  by (rule leveldb.verifyReorg_ends [OF assms(1)]) (use assms in auto)

text \<open>
  C17. A committed tip further above the node's tip than the undo window reaches is not touched: the
  walk throws the refusal the sync loop parks on, before any delete, with the tracker as it was.
\<close>

theorem reorg_parks_far_tip:
  assumes "readTip K (confirmed T) = (Inr (Some (blk_h b), h, Some b), confirmed T)"
    and "blk_h b - t > int (min (length (lastBlocks T)) (undoBlocks T))"
  shows "\<exists>msg. verifyReorg K R (Suc n) (Some t) T = (Inl (TipBelowCommittedTip msg), T)"
proof -
  have "budget (rollbackBudget T) = min (length (lastBlocks T)) (undoBlocks T)"
    by (simp add: rollbackBudget_def Let_def)
  then have b: "int (budget (rollbackBudget T)) < blk_h b - t" "t < blk_h b" using assms(2) by simp_all
  show ?thesis
    using assms(1) b by (simp add: verifyReorg_def mbind_def walkStep_def on_db_readTip compareTip_def mseq_def
        refuseAboveTipWalkPastBudget_def Let_def)
qed

text \<open>
  C18. With an empty undo window, a walk whose first call for the hash of the committed tip is
  answered with another hash ends with the fault that halts the tracker, and the store is as it was:
  without a node tip, and with one that has reached the committed tip.
\<close>

theorem reorg_refuses_empty_window:
  assumes "readTip K (confirmed T) = (Inr (Some (blk_h b), h, Some b), confirmed T)"
    and "lastBlocks T = []" and "rpc_hash R (blk_h b) (node T) = (Some h', N)" and "h' \<noteq> h"
    and "case tip of None \<Rightarrow> True | Some t \<Rightarrow> blk_h b \<le> t"
  shows "\<exists>msg. verifyReorg K R (Suc n) tip T = (Inl (UnrecoverableReorg msg), T\<lparr>node := N\<rparr>)"
  using assms by (cases tip) (simp_all add: verifyReorg_def mbind_def walkStep_def on_db_readTip compareTip_def mseq_def
      refuseAboveTipWalkPastBudget_def nodeBlockHashOrRetry_def on_node_def refuseRollbackPastWindow_def
      rollbackBudget_def Let_def)

text \<open>A node whose chain holds the example block at height 1, and an index whose tip it is.\<close>

definition ex_rpc :: "unit rpc" where
  "ex_rpc = \<lparr>rpc_info = \<lambda>N. (Some \<lparr>ci_blocks = 1, ci_progress = None, ci_ibd = False, ci_best = Some ex_hash\<rparr>, N),
     rpc_hash = \<lambda>i N. (Some ex_hash, N), rpc_block = \<lambda>a h N. (Inl False, N), rpc_reassembled = \<lambda>h N. (Inl False, N),
     rpc_batch = \<lambda>a hs N. ([], N), rpc_mempool = \<lambda>N. (Some [], N), rpc_rawtxs = \<lambda>hs N. (Some [], N),
     rpc_now = \<lambda>N. 0, rpc_iso = \<lambda>N. [], rpc_heapHigh = \<lambda>N. False\<rparr>"

definition ex_record :: bytes where "ex_record = [0, 0, 0, 1] @ [0, 0, 0, 1] @ ex_prev"

definition ex_indexed :: "(ref_db, unit) tracker" where
  "ex_indexed = ex_tracker\<lparr>confirmed := ex_store \<lparr>ref_entries =
     [(bKey ex_hash, ex_record), (PREFIX_LAST_BLOCK_HEIGHT, utf8 (hexint 1)),
      (PREFIX_LAST_BLOCK_HASH, utf8 (b2h ex_hash))], ref_left = 9\<rparr>\<rparr>"

lemma ex_decode: "decodeBlock ex_record = Inr \<lparr>blk_h = 1, blk_t = 1, blk_ph = ex_prev\<rparr>"
  by (simp add: decodeBlock_def ex_record_def readUInt32BE_def slice_def unbe_def ex_prev_def numeral_eq_Suc)

lemma ex_readTip: "readTip ref_kv (confirmed ex_indexed)
    = (Inr (Some 1, ex_hash, Some \<lparr>blk_h = 1, blk_t = 1, blk_ph = ex_prev\<rparr>), confirmed ex_indexed)"
proof -
  have "kBlock ex_hash = Inr (bKey ex_hash)" by (simp add: codec_simps ex_hash_def)
  then show ?thesis
    by (simp add: readTip_def ex_indexed_def ex_store_def getLastBlockHeight_def getLastBlockHash_def getBlock_def dbGet_def
        ref_kv_def ref_get_def mbind_def parseInt16_hexint ex_decode)
qed

lemma ex_verify: "verifyReorg ref_kv ex_rpc (Suc n) (Some 1) ex_indexed = (Inr True, ex_indexed)"
  by (simp add: verifyReorg_def mbind_def walkStep_def on_db_readTip ex_readTip compareTip_def mseq_def
      refuseAboveTipWalkPastBudget_def nodeBlockHashOrRetry_def on_node_def ex_rpc_def recordReorg_def)

theorem reorg_ends_on_node_chain_witness: "agrees_with_node ref_kv ex_rpc ex_indexed"
  using ex_verify by (rule reorg_ends_on_node_chain)

theorem reorg_terminates_witness: "fst (verifyReorg ref_kv ex_rpc 44 (Some 0) ex_indexed) \<noteq> Inr False"
  by (rule reorg_terminates [OF leveldb_ref_kv]) (simp_all add: ex_rpc_def ex_indexed_def ex_tracker_def)

theorem reorg_parks_far_tip_witness:
  "\<exists>msg. verifyReorg ref_kv ex_rpc (Suc 4) (Some (- 1)) ex_indexed = (Inl (TipBelowCommittedTip msg), ex_indexed)"
  by (rule reorg_parks_far_tip) (use ex_readTip in \<open>auto simp: ex_indexed_def ex_tracker_def\<close>)

theorem reorg_refuses_empty_window_witness:
  "\<exists>msg. verifyReorg ref_kv (ex_rpc\<lparr>rpc_hash := \<lambda>i N. (Some ex_prev, N)\<rparr>) (Suc 4) None (ex_indexed\<lparr>lastBlocks := []\<rparr>)
     = (Inl (UnrecoverableReorg msg), ex_indexed\<lparr>lastBlocks := [], node := ()\<rparr>)"
  using reorg_refuses_empty_window [of ref_kv "ex_indexed\<lparr>lastBlocks := []\<rparr>" "\<lparr>blk_h = 1, blk_t = 1, blk_ph = ex_prev\<rparr>"
      ex_hash "ex_rpc\<lparr>rpc_hash := \<lambda>i N. (Some ex_prev, N)\<rparr>" ex_prev "()" None 4] ex_readTip
  by (simp add: ex_hash_def ex_prev_def)

theorem settled_tip_is_stable_witness:
  "\<exists>j xs. j \<le> 10 \<and> fst (tip_reads ex_rpc False j ()) = xs @ replicate 5 (Some 1)"
proof -
  have "settleWalkTip ex_rpc 3 ex_tracker = (Inr (Some 1), ex_tracker)"
    by (simp add: settleWalkTip_def TIP_SETTLE_MAX_READS_def TIP_SETTLE_STABLE_READS_def eval_nat_numeral readWalkTip_def
        mbind_def on_node_def ex_rpc_def ex_tracker_def usableTip_def nodeTipIsParseable_def nodeStillCatchingUp_def)
  from settled_tip_is_stable [OF this] show ?thesis by (auto simp: ex_tracker_def)
qed

end
