(* ===== verification/Halt.thy ===== *)
theory Halt
  imports Reorg
begin

text \<open>
  The tracker's life outside the loop: the constructor's state
  (\<^verbatim>\<open>src/XChainUtxoTracker.js\<close>), the failure streaks of block fetches
  (\<^verbatim>\<open>fetch_failures_and_halt.js\<close>), the halted state and its marker (\<^verbatim>\<open>halt_marker.js\<close>),
  stopping (\<^verbatim>\<open>status_and_stop.js\<close>) and the freshness verdict. The marker's JSON text is a
  parameter, as in theory Store; closing a LevelDB handle has no effect here.
\<close>

subsection \<open>The constructor\<close>

text \<open>
  \<open>undo\<close>, \<open>maturity\<close>, \<open>aux\<close> and \<open>rt\<close> are resolved from the network name; \<open>now\<close> is the clock.
\<close>

definition newSync :: "int \<Rightarrow> bytes option \<Rightarrow> sync" where
  "newSync index hash = \<lparr>blocksQuantity = 0, blocksCount = 0, transactionsCount = 0, inputsCount = 0, outputsCount = 0,
     lastProcessedBlockIndex = index, lastProcessedBlockHash = hash, pendingMempoolTxCleanup = [],
     lastBlockchainInfo = None, lastBlockchainInfoRefreshAt = 0, blockTimestamps = [], prefetchQueue = [],
     nodeSyncedProblem = False, nodeCatchingUpProblem = False, tipBelowCommittedTipRefused = False,
     blockFetchFailures = 0, blockFetchFailureHeight = None, auxPowParseFailures = 0, auxPowParseFailureHeight = None\<rparr>"

definition newTracker ::
  "'d store \<Rightarrow> 'd store \<Rightarrow> 'n \<Rightarrow> nat \<Rightarrow> int \<Rightarrow> bool \<Rightarrow> bool \<Rightarrow> nat \<Rightarrow> ('d, 'n) tracker" where
  "newTracker store mempoolStore nd undo maturity aux rt now =
     \<lparr>confirmed = store, mempool = mempoolStore, node = nd, lastBlocks = [], undoBlocks = undo, pendingKMCleanup = [],
      undoWindowWatermark = 0, undoWindowWatermarkPersisted = None, reorgCount = 0, lastReorgDepth = 0,
      reorgRollbacksThisProcess = 0, lastCommittedHeight = None, mempoolEpoch = now, sync_loop = newSync (- 1) None,
      synced = False, mempoolReconverged = False, mempoolPolling = False, mempoolBusy = False,
      blockchainInfoLastBlock = - 1, latestKnownChainTip = None, nodeCatchingUp = None, lastNodeRpcOkAt = 0,
      keepParsing = True, parsingStopped = False, parsingAborted = False, halted = False, haltReason = None,
      haltedAt = None, haltedHeight = None, blockFetchDesync = None, mempoolRpcFailures = 0,
      auxPow = aux, regtest = rt, coinbaseMaturity = maturity\<rparr>"

subsection \<open>Fetch failures\<close>

definition AUXPOW_REASSEMBLE_AFTER :: nat where "AUXPOW_REASSEMBLE_AFTER = 5"

definition shouldReassembleBlock :: "bool \<Rightarrow> int \<Rightarrow> int option \<Rightarrow> nat \<Rightarrow> bool" where
  "shouldReassembleBlock aux height streakHeight streakCount \<longleftrightarrow>
     aux \<and> streakHeight = Some height \<and> streakCount \<ge> AUXPOW_REASSEMBLE_AFTER"

definition noteAuxPowParseFailure :: "int \<Rightarrow> int option \<Rightarrow> nat \<Rightarrow> bool \<Rightarrow> int option \<times> nat" where
  "noteAuxPowParseFailure height streakHeight streakCount tagged =
     (if streakHeight \<noteq> Some height then (Some height, if tagged then 1 else 0)
      else if \<not> tagged then (streakHeight, streakCount)
      else (Some height, streakCount + 1))"

definition noteBlockFetchFailure ::
  "nat \<Rightarrow> int \<Rightarrow> int option \<Rightarrow> nat \<Rightarrow> (('d, 'n) tracker, int option \<times> nat) m" where
  "noteBlockFetchFailure maxRetries height streakHeight streakCount =
     (let count = (if streakHeight = Some height then streakCount + 1 else 1) in
      if count \<ge> maxRetries
      then mseq (mmod (\<lambda>T. T\<lparr>blockFetchDesync := Some (height, count)\<rparr>)) (mthrow BlockFetchDesync)
      else mret (Some height, count))"

text \<open>What the boot reports of a short undo window: the level of the line and what is left.\<close>

datatype window_report = Refilling nat | NoWatermark nat | Interrupted nat nat

definition noteInterruptedReorgWindow :: "('d, 'n) tracker \<Rightarrow> int \<Rightarrow> window_report option" where
  "noteInterruptedReorgWindow T committedHeight =
     (let remaining = length (lastBlocks T); watermark = min (undoWindowWatermark T) (undoBlocks T) in
      if \<not> committedHeight \<ge> int (undoBlocks T) then None
      else if remaining \<ge> undoBlocks T then None
      else if watermark > 0 \<and> remaining \<ge> watermark then Some (Refilling remaining)
      else if watermark = 0 then Some (NoWatermark remaining)
      else Some (Interrupted remaining (watermark - remaining)))"

subsection \<open>The halted state\<close>

definition enterHaltedState ::
  "string \<Rightarrow> string option \<Rightarrow> int option \<Rightarrow> (('d, 'n) tracker, unit) m" where
  "enterHaltedState reason since height = mmod (\<lambda>T. T\<lparr>halted := True, haltReason := Some reason, haltedAt := since,
     haltedHeight := height, parsingAborted := True, parsingStopped := False, mempoolPolling := False,
     synced := False, mempoolReconverged := False\<rparr>)"

text \<open>Fail-soft: a store that refuses the write leaves the halt in force for this process.\<close>

definition persistHaltMarker ::
  "'d kv \<Rightarrow> (halt_rec \<Rightarrow> bytes) \<Rightarrow> string \<Rightarrow> (('d, 'n) tracker, halt_rec option) m" where
  "persistHaltMarker K json_marker now = mcatch
     (mseq (mbind (mget haltedHeight) (\<lambda>hh. mwhen (hh = None)
        (mbind (on_db (getLastBlockHeight K)) (\<lambda>h. mmod (\<lambda>T. T\<lparr>haltedHeight := h\<rparr>)))))
     (mbind (mget (\<lambda>T. (case haltReason T of None \<Rightarrow> [] | Some r \<Rightarrow> r, haltedHeight T, haltedAt T))) (\<lambda>(reason, height, since).
      mbind (on_db (setHaltMarker K json_marker now reason height since)) (\<lambda>r. mret (Some r)))))
     (\<lambda>_. mret None)"

definition resumeHaltFromMarker ::
  "'d kv \<Rightarrow> (bytes \<Rightarrow> halt_rec option) \<Rightarrow> (('d, 'n) tracker, bool) m" where
  "resumeHaltFromMarker K parse_marker =
     mbind (mcatch (on_db (getHaltMarker K parse_marker)) (\<lambda>_. mret None)) (\<lambda>marker. case marker of
       None \<Rightarrow> mret False
     | Some r \<Rightarrow> mseq (enterHaltedState (hr_reason r) (hr_at r) (hr_height r)) (mret True))"

definition dropHaltMarker :: "'d kv \<Rightarrow> (('d, 'n) tracker, bool) m" where
  "dropHaltMarker K = mcatch (mseq (on_db (deleteHaltMarker K)) (mret True)) (\<lambda>_. mret False)"

definition DEFAULT_HALT_REASON :: string where
  "DEFAULT_HALT_REASON = ''unrecoverable reorg (rolled back past the recovery window)''"

definition haltForResync ::
  "'d kv \<Rightarrow> (halt_rec \<Rightarrow> bytes) \<Rightarrow> string \<Rightarrow> string option \<Rightarrow> (('d, 'n) tracker, halt_rec option) m" where
  "haltForResync K json_marker now reason =
     mseq (enterHaltedState (case reason of None \<Rightarrow> DEFAULT_HALT_REASON | Some r \<Rightarrow> if r = [] then DEFAULT_HALT_REASON else r)
             (Some now) None)
     (persistHaltMarker K json_marker now)"

definition clearHalt :: "'d kv \<Rightarrow> (('d, 'n) tracker, bool) m" where
  "clearHalt K = mseq (mmod (\<lambda>T. T\<lparr>halted := False, haltReason := None, haltedAt := None, haltedHeight := None\<rparr>))
     (dropHaltMarker K)"

subsection \<open>Stopping\<close>

definition isSynced :: "('d, 'n) tracker \<Rightarrow> bool" where
  "isSynced T = synced T"

definition isMempoolReconverged :: "('d, 'n) tracker \<Rightarrow> bool" where
  "isMempoolReconverged T = mempoolReconverged T"

definition stop :: "(('d, 'n) tracker, unit) m" where
  "stop = mmod (\<lambda>T. T\<lparr>keepParsing := False, mempoolPolling := False\<rparr>)"

text \<open>The loop's branch once \<open>keepParsing\<close> is down.\<close>

definition finishStop :: "(('d, 'n) tracker, unit) m" where
  "finishStop = mmod (\<lambda>T. T\<lparr>mempoolPolling := False, synced := False, mempoolReconverged := False,
     nodeCatchingUp := None, parsingStopped := True\<rparr>)"

text \<open>\<open>second\<close>: what the rest of the process does in a second of waiting. \<open>True\<close>: the promise resolves.\<close>

fun waitStopped :: "(('d, 'n) tracker \<Rightarrow> ('d, 'n) tracker) \<Rightarrow> nat \<Rightarrow> (('d, 'n) tracker, nat) m" where
  "waitStopped second 0 T = (Inr 0, T)"
| "waitStopped second (Suc n) T = (if parsingStopped T then (Inr (Suc n), T) else waitStopped second n (second T))"

definition stopParsing :: "(('d, 'n) tracker \<Rightarrow> ('d, 'n) tracker) \<Rightarrow> (('d, 'n) tracker, bool) m" where
  "stopParsing second =
     mseq stop
     (mbind (mget (\<lambda>T. parsingAborted T \<and> \<not> parsingStopped T)) (\<lambda>aborted.
      if aborted then mseq (mmod (\<lambda>T. T\<lparr>parsingStopped := True\<rparr>)) (mret True)
      else mbind (waitStopped second 10) (\<lambda>triesCount. mbind (mget parsingStopped) (\<lambda>stopped.
        if triesCount = 0 \<and> \<not> stopped
        then mseq (mmod (\<lambda>T. T\<lparr>keepParsing := True, mempoolPolling := True\<rparr>)) (mret False)
        else mret True))))"

subsection \<open>Freshness\<close>

record freshness =
  fr_tracker_height :: int
  fr_node_height :: int
  fr_lag :: "int option"
  fr_synced :: bool
  fr_mempool_ready :: bool
  fr_halt :: "(string option \<times> string option \<times> int option) option"

definition computeFreshness ::
  "int option \<Rightarrow> int option \<Rightarrow> bool \<Rightarrow> bool \<Rightarrow> bool \<Rightarrow> string option \<Rightarrow> string option \<Rightarrow> int option \<Rightarrow> bool \<Rightarrow> freshness" where
  "computeFreshness committedHeight nodeTip syn reconverged hlt reason since height stale =
     (let tracker_height = (case committedHeight of None \<Rightarrow> - 1 | Some h \<Rightarrow> h);
          node_height = (case nodeTip of None \<Rightarrow> - 1 | Some h \<Rightarrow> h);
          lag = (if node_height \<ge> 0 \<and> tracker_height \<ge> 0 then Some (node_height - tracker_height) else None);
          orphaned = (case lag of None \<Rightarrow> False | Some l \<Rightarrow> l < 0);
          ok = (syn \<and> \<not> orphaned \<and> \<not> stale \<and> \<not> hlt) in
      \<lparr>fr_tracker_height = tracker_height, fr_node_height = node_height, fr_lag = lag, fr_synced = ok,
       fr_mempool_ready = (ok \<and> reconverged),
       fr_halt = (if hlt then Some (reason, since, height) else None)\<rparr>)"

subsection \<open>What the streaks and the halt guarantee\<close>

text \<open>
  The streak after a history of failures, oldest first, since the last success, which clears it:
  each failure has its height and says whether the AuxPoW strip was at fault.
\<close>

definition auxPowStreak :: "(int \<times> bool) list \<Rightarrow> int option \<times> nat" where
  "auxPowStreak failures =
     foldl (\<lambda>s (h, tagged). noteAuxPowParseFailure h (fst s) (snd s) tagged) (None, 0) failures"

text \<open>The failures at \<open>h\<close> since the last one at another height, latest first.\<close>

definition runAt :: "int \<Rightarrow> (int \<times> bool) list \<Rightarrow> (int \<times> bool) list" where
  "runAt h failures = takeWhile (\<lambda>f. fst f = h) (rev failures)"

lemma auxPowStreak_run:
  "auxPowStreak failures = (if failures = [] then (None, 0)
     else (Some (fst (last failures)), length (filter snd (runAt (fst (last failures)) failures))))"
proof (induction failures rule: rev_induct)
  case (snoc f fs)
  have s: "auxPowStreak (fs @ [f]) = noteAuxPowParseFailure (fst f) (fst (auxPowStreak fs)) (snd (auxPowStreak fs)) (snd f)"
    by (simp add: auxPowStreak_def case_prod_unfold)
  show ?case
  proof (cases "fs \<noteq> [] \<and> fst (last fs) = fst f")
    case True
    then show ?thesis using snoc by (auto simp: s noteAuxPowParseFailure_def runAt_def)
  next
    case False
    then have "runAt (fst f) fs = []"
      by (cases fs rule: rev_cases) (simp_all add: runAt_def)
    then have "runAt (fst f) (fs @ [f]) = [f]" by (simp add: runAt_def)
    moreover have "fst (auxPowStreak fs) \<noteq> Some (fst f)" using False snoc by auto
    ultimately show ?thesis by (simp add: s noteAuxPowParseFailure_def)
  qed
qed (simp add: auxPowStreak_def)

text \<open>
  C29. A block is rebuilt transaction by transaction exactly when the coin has AuxPoW and at least
  five faults of the strip are among the failures at its own height since the last failure at any
  other height, whatever failed at which height before: transport faults at the height neither
  count nor clear the count, a fault at another height starts it again, and the count of one height
  never sends another height's block to the rebuild.
\<close>

theorem reassembly_after_five_strip_faults:
  "shouldReassembleBlock aux h (fst (auxPowStreak failures)) (snd (auxPowStreak failures))
   \<longleftrightarrow> aux \<and> 5 \<le> length (filter snd (runAt h failures))"
proof (cases "failures \<noteq> [] \<and> fst (last failures) = h")
  case True
  then show ?thesis by (simp add: auxPowStreak_run shouldReassembleBlock_def AUXPOW_REASSEMBLE_AFTER_def)
next
  case False
  then have "runAt h failures = []"
    by (cases failures rule: rev_cases) (simp_all add: runAt_def)
  then show ?thesis using False by (auto simp: auxPowStreak_run shouldReassembleBlock_def)
qed

text \<open>The halt outlives the process: marker laws and the run of the marker's write.\<close>

lemma on_db_write: "on_db (dbWrite K it) T = (case kv_batch K (db (confirmed T)) [it] of
    (ok, d) \<Rightarrow> (if ok then Inr () else Inl DbError, T\<lparr>confirmed := (confirmed T)\<lparr>db := d\<rparr>\<rparr>))"
  by (simp add: on_db_def dbWrite_def split: prod.split)

lemma haltForResync_run:
  fixes T :: "('d, 'n) tracker"
  assumes "haltForResync K json now reason T = (Inr (Some r), T1)"
  shows "\<exists>d. kv_batch K (db (confirmed T)) [Put HALT_MARKER_KEY (json r)] = (True, d) \<and> db (confirmed T1) = d
    \<and> hr_reason r = the (haltReason T1) \<and> haltReason T1 \<noteq> None \<and> hr_height r = haltedHeight T1 \<and> hr_at r = haltedAt T1"
proof -
  let ?reason = "case reason of None \<Rightarrow> DEFAULT_HALT_REASON | Some r \<Rightarrow> if r = [] then DEFAULT_HALT_REASON else r"
  obtain h where h: "getLastBlockHeight K (confirmed T) = (Inr h, confirmed T)"
    by (cases "kv_get K (db (confirmed T)) PREFIX_LAST_BLOCK_HEIGHT") (auto simp: getLastBlockHeight_def dbGet_def)
  let ?r = "\<lparr>hr_reason = ?reason, hr_height = h, hr_at = Some now\<rparr>"
  obtain ok d where b: "kv_batch K (db (confirmed T)) [Put HALT_MARKER_KEY (json ?r)] = (ok, d)"
    by (cases "kv_batch K (db (confirmed T)) [Put HALT_MARKER_KEY (json ?r)]")
  have "haltForResync K json now reason T = (if ok
      then (Inr (Some ?r), T\<lparr>halted := True, haltReason := Some ?reason, haltedAt := Some now, haltedHeight := h,
         parsingAborted := True, parsingStopped := False, mempoolPolling := False, synced := False,
         mempoolReconverged := False, confirmed := (confirmed T)\<lparr>db := d\<rparr>\<rparr>)
      else (Inr None, T\<lparr>halted := True, haltReason := Some ?reason, haltedAt := Some now, haltedHeight := h,
         parsingAborted := True, parsingStopped := False, mempoolPolling := False, synced := False,
         mempoolReconverged := False, confirmed := (confirmed T)\<lparr>db := d\<rparr>\<rparr>))"
    using b h by (simp add: haltForResync_def enterHaltedState_def persistHaltMarker_def mcatch_def on_db_def
        mbind_def mseq_def setHaltMarker_def dbWrite_def Let_def split: option.split)
  then show ?thesis using assms b by (auto split: if_splits)
qed

context leveldb
begin

lemma halt_resumes:
  fixes T B :: "('d, 'n) tracker"
  assumes run: "haltForResync K json now reason T = (Inr (Some r), T1)"
    and json: "parse (json r) = Some r"
    and boot: "kv_get K (db (confirmed B)) = kv_get K (db (confirmed T1))"
  shows "\<exists>B1. resumeHaltFromMarker K parse B = (Inr True, B1) \<and> halted B1 \<and> \<not> synced B1
     \<and> haltReason B1 = haltReason T1 \<and> haltedHeight B1 = haltedHeight T1 \<and> haltedAt B1 = haltedAt T1"
proof -
  obtain d where d: "kv_batch K (db (confirmed T)) [Put HALT_MARKER_KEY (json r)] = (True, d)" "db (confirmed T1) = d"
    and r: "Some (hr_reason r) = haltReason T1" "hr_height r = haltedHeight T1" "hr_at r = haltedAt T1"
    using haltForResync_run [OF run] by auto
  have "kv_get K (db (confirmed B)) HALT_MARKER_KEY = Some (json r)"
    using boot batch_ok [OF d(1)] d(2) by (simp add: apply_item_def)
  then have "on_db (getHaltMarker K parse) B = (Inr (Some r), B)"
    using json by (simp add: on_db_def getHaltMarker_def dbGet_def mbind_def)
  then show ?thesis using r by (simp add: resumeHaltFromMarker_def mcatch_def mbind_def enterHaltedState_def mseq_def)
qed

end

text \<open>
  C20. Once a halt's marker is written, every later process that boots on the same contents comes
  up halted, not synced, and with the reason, the time and the height of the original halt.
\<close>

theorem halt_survives_restart:
  fixes T B :: "('d, 'n) tracker"
  assumes "leveldb K" and "haltForResync K json now reason T = (Inr (Some r), T1)" and "parse (json r) = Some r"
    and "kv_get K (db (confirmed B)) = kv_get K (db (confirmed T1))"
  shows "\<exists>B1. resumeHaltFromMarker K parse B = (Inr True, B1) \<and> halted B1 \<and> \<not> synced B1
     \<and> haltReason B1 = haltReason T1 \<and> haltedHeight B1 = haltedHeight T1 \<and> haltedAt B1 = haltedAt T1"
  using assms by (rule leveldb.halt_resumes)

text \<open>A halt of the example index, with a marker text that holds the one record.\<close>

definition ex_marker :: halt_rec where
  "ex_marker = \<lparr>hr_reason = ''fork'', hr_height = Some 1, hr_at = Some ''noon''\<rparr>"

lemma ex_halt: "\<exists>T1. haltForResync ref_kv (\<lambda>_. [7]) ''noon'' (Some ''fork'') ex_indexed = (Inr (Some ex_marker), T1)
    \<and> haltReason T1 = Some ''fork''"
proof -
  have "getLastBlockHeight ref_kv (confirmed ex_indexed) = (Inr (Some 1), confirmed ex_indexed)"
    by (simp add: ex_indexed_def ex_store_def getLastBlockHeight_def dbGet_def ref_kv_def ref_get_def mbind_def parseInt16_hexint)
  then show ?thesis
    by (simp add: haltForResync_def enterHaltedState_def persistHaltMarker_def mcatch_def on_db_def mbind_def mseq_def
        setHaltMarker_def dbWrite_def Let_def ref_kv_def ref_batch_def ex_indexed_def ex_store_def ex_marker_def split: prod.split)
qed

theorem halt_survives_restart_witness:
  "\<exists>T1 B1. haltForResync ref_kv (\<lambda>_. [7]) ''noon'' (Some ''fork'') ex_indexed = (Inr (Some ex_marker), T1)
     \<and> resumeHaltFromMarker ref_kv (\<lambda>_. Some ex_marker) (ex_tracker\<lparr>confirmed := confirmed T1\<rparr>) = (Inr True, B1)
     \<and> haltReason B1 = Some ''fork''"
proof -
  obtain T1 where T1: "haltForResync ref_kv (\<lambda>_. [7]) ''noon'' (Some ''fork'') ex_indexed = (Inr (Some ex_marker), T1)"
      "haltReason T1 = Some ''fork''"
    using ex_halt by blast
  then show ?thesis
    using halt_survives_restart [OF leveldb_ref_kv T1(1), of "\<lambda>_. Some ex_marker" "ex_tracker\<lparr>confirmed := confirmed T1\<rparr>"]
    by auto
qed

end
