(* ===== verification/BatchSize.thy ===== *)
theory BatchSize
  imports Reorg
begin

text \<open>
  How much an open batch holds. \<open>staged_blocks\<close> counts the block records among the staged writes of
  a store; the lemmas here say which operations of the store and of the tracker add to it
  (\<open>insertBlock\<close>, one), which leave it as it is or smaller (everything else that stages), and which
  empty it (committing and discarding a batch, and so every rollback).
\<close>

subsection \<open>Counting the staged blocks\<close>

definition block_key_byte :: "bytes \<Rightarrow> bool" where
  "block_key_byte k = (case k of [] \<Rightarrow> False | b # _ \<Rightarrow> b = P_BLOCK)"

definition block_put :: "item \<Rightarrow> bool" where
  "block_put it \<longleftrightarrow> is_put it \<and> block_key_byte (item_key it)"

definition staged_blocks :: "'d store \<Rightarrow> nat" where
  "staged_blocks s = (case transactionArray s of None \<Rightarrow> 0 | Some ta \<Rightarrow> length (filter (block_put \<circ> snd) ta))"

abbreviation light :: "nat \<Rightarrow> ('d store, 'a) m \<Rightarrow> bool" where
  "light c f \<equiv> stays (\<lambda>s. staged_blocks s \<le> c) f"

lemma count_update: "length (filter (P \<circ> snd) (AList.update k it ta)) \<le> length (filter (P \<circ> snd) ta) + (if P it then 1 else 0)"
  by (induction ta) auto

lemma count_delete: "length (filter (P \<circ> snd) (AList.delete k ta)) \<le> length (filter (P \<circ> snd) ta)"
  by (induction ta) auto

lemma not_block_put [simp]: "\<not> block_put (Del k w)" "block_put (Put k v) = block_key_byte k"
  by (simp_all add: block_put_def)

text \<open>No key builder but \<open>kBlock\<close> gives a block key.\<close>

lemma not_block_key:
  "kTx t = Inr k \<Longrightarrow> \<not> block_key_byte k" "kOutput b t i = Inr k \<Longrightarrow> \<not> block_key_byte k"
  "kOutputFromBuf b t i = Inr k \<Longrightarrow> \<not> block_key_byte k" "kOutHint t i = Inr k \<Longrightarrow> \<not> block_key_byte k"
  "kScriptBlk b = Inr k \<Longrightarrow> \<not> block_key_byte k" "kScriptBlkFromBuf b = Inr k \<Longrightarrow> \<not> block_key_byte k"
  "kBlkScript h b = Inr k \<Longrightarrow> \<not> block_key_byte k" "kBlkScriptFromBuf h b = Inr k \<Longrightarrow> \<not> block_key_byte k"
  "kHintDel h t i = Inr k \<Longrightarrow> \<not> block_key_byte k" "kOutDelFromBuf h b t i = Inr k \<Longrightarrow> \<not> block_key_byte k"
  "kStoredBlk h = Inr k \<Longrightarrow> \<not> block_key_byte k" "kOutBlk h t i = Inr k \<Longrightarrow> \<not> block_key_byte k"
  "kTxExact t = Inr k \<Longrightarrow> \<not> block_key_byte k" "kTxBlockRecovery h t = Inr k \<Longrightarrow> \<not> block_key_byte k"
  "kInput t i = Inr k \<Longrightarrow> \<not> block_key_byte k" "kInHint t u i = Inr k \<Longrightarrow> \<not> block_key_byte k"
  by (auto simp: kTx_def kOutput_def kOutputFromBuf_def kOutHint_def kScriptBlk_def kScriptBlkFromBuf_def kBlkScript_def
      kBlkScriptFromBuf_def kHintDel_def kOutDelFromBuf_def kStoredBlk_def kOutBlk_def kTxExact_def kTxBlockRecovery_def
      kInput_def kInHint_def rbind_Inr_iff block_key_byte_def prefix_defs split: if_splits)

lemma not_block_key_script:
  "(case scr of Buf b \<Rightarrow> kOutputFromBuf b t i | Hex b \<Rightarrow> kOutput b t i) = Inr k \<Longrightarrow> \<not> block_key_byte k"
  "(case scr of Buf b \<Rightarrow> kScriptBlkFromBuf b | Hex b \<Rightarrow> kScriptBlk b) = Inr k \<Longrightarrow> \<not> block_key_byte k"
  "(case scr of Buf b \<Rightarrow> kBlkScriptFromBuf h b | Hex b \<Rightarrow> kBlkScript h b) = Inr k \<Longrightarrow> \<not> block_key_byte k"
  by (auto simp: not_block_key split: script.splits)

lemma not_block_meta:
  "\<not> block_key_byte PREFIX_LAST_BLOCK_HEIGHT" "\<not> block_key_byte PREFIX_LAST_BLOCK_HASH"
  "\<not> block_key_byte P_PENDING_CLEANUP_KEY" "\<not> block_key_byte Q_UNDO_WATERMARK_KEY"
  by (simp_all add: block_key_byte_def meta_defs P_BLOCK_def)

lemmas not_block_keys = not_block_key not_block_key_script not_block_meta

subsection \<open>What the store's operations add\<close>

lemma stays_mlift: "(\<And>a. r = Inr a \<Longrightarrow> stays P (g a)) \<Longrightarrow> stays P (mbind (mlift r) g)"
  by (cases r) (simp_all add: stays_basic)

lemma stays_pure: "stays P (\<lambda>s. (g s, s))"
  by (simp add: stays_def)

lemma stays_mfor: "(\<And>x. x \<in> set xs \<Longrightarrow> stays P (f x)) \<Longrightarrow> stays P (mfor xs f)"
  by (induction xs) (auto intro: stays_intros)

lemma stays_msum: "(\<And>x. x \<in> set xs \<Longrightarrow> stays P (f x)) \<Longrightarrow> stays P (msum xs f)"
  by (induction xs) (auto intro!: stays_intros)

lemma stays_sum: "(\<And>x. stays P (f x)) \<Longrightarrow> (\<And>y. stays P (g y)) \<Longrightarrow> stays P (case z of Inl x \<Rightarrow> f x | Inr y \<Rightarrow> g y)"
  by (cases z) simp_all

lemma stays_list: "stays P f \<Longrightarrow> (\<And>x xs. stays P (g x xs)) \<Longrightarrow> stays P (case z of [] \<Rightarrow> f | x # xs \<Rightarrow> g x xs)"
  by (cases z) simp_all

lemmas stays_steps = stays_mlift stays_intros stays_pure stays_mfor stays_msum stays_sum stays_list

lemma light_reads: "light c (dbGet K k)" "light c (dbIter K r)"
  by (simp_all add: stays_def)

lemma light_stat: "light c (mmod (\<lambda>s. s\<lparr>stat := f s\<rparr>))"
  by (simp add: stays_def staged_blocks_def)

lemma light_add: "\<not> block_put it \<Longrightarrow> light c (addTransaction K it)"
  by (auto simp: stays_def staged_blocks_def addTransaction_def mseq_def mbind_def dbWrite_def
      intro: order_trans [OF count_update] split: option.splits prod.splits sum.splits)

lemma light_removals: "light c (removeTransactionIfExists k)" "light c (removeTransaction k d)"
  by (auto simp: stays_def staged_blocks_def removeTransactionIfExists_def removeTransaction_def Let_def
      intro: order_trans [OF count_delete] split: option.splits)

lemma light_batch: "light c beginTransaction" "light c (endTransaction K b)" "light c (dbWrite K it)"
  by (auto simp: stays_def staged_blocks_def beginTransaction_def endTransaction_def dbWrite_def split: option.splits prod.splits bool.splits)

lemmas light_basic = light_reads light_stat light_removals light_batch

lemma light_pointers: "light c (setLastBlockHeight K n)" "light c (setLastBlockHash K h)" "light c (addLastStoredBlock K h)"
  "light c (removeLastStoredBlock K h)"
  unfolding setLastBlockHeight_def setLastBlockHash_def addLastStoredBlock_def removeLastStoredBlock_def
  by (intro stays_steps light_basic light_add; simp add: not_block_keys)+

lemma light_insertTransaction: "light c (insertTransaction K t h)"
  unfolding insertTransaction_def by (intro stays_steps light_basic light_add; simp add: not_block_keys)

lemma light_outputs:
  "light c (insertOutput K out)" "light c (insertOutputHint K scr t i)" "light c (insertOutputBlock K scr t i h)"
  "light c (insertOutputScriptBlock K scr h n)"
proof -
  show "light c (insertOutput K out)" "light c (insertOutputHint K scr t i)" "light c (insertOutputBlock K scr t i h)"
    unfolding insertOutput_def insertOutputHint_def insertOutputBlock_def
    by (intro stays_steps light_basic light_add; simp add: not_block_keys)+
  show "light c (insertOutputScriptBlock K scr h n)"
    unfolding insertOutputScriptBlock_def rememberScript_def
    by (intro stays_steps light_basic light_add; simp add: not_block_keys staged_blocks_def)
qed

lemma light_spends: "light c (removeOutputsWithInputsBatch K inps)"
proof -
  have w: "light c (writeCrossBlockSpendRecovery K inp scr v)" for inp scr v
    unfolding writeCrossBlockSpendRecovery_def spendBlockHeightInBatch_def
    by (intro stays_steps light_basic light_add; simp add: not_block_keys)
  have u: "light c (unstageInMemorySpend inp hk scr)" for inp hk scr
    unfolding unstageInMemorySpend_def by (intro stays_steps light_basic)
  have s: "light c (stageSpend K p)" for p
    unfolding stageSpend_def by (intro stays_steps light_basic light_add w u; simp add: not_block_keys)
  have q: "light c (\<lambda>s. (case queueOutputLookups (stat s) inps (f s) 0 of (q, st) \<Rightarrow> (q, s\<lparr>stat := st\<rparr>)))" for f
    by (simp add: stays_def staged_blocks_def split: prod.split)
  show ?thesis
    unfolding removeOutputsWithInputsBatch_def by (intro stays_steps light_basic q s)
qed

lemma light_parse: "light c (parseBlockTransactions K sha txs h n)"
proof -
  have "light c (parseOutput K scr t bh n cb ix p)" for scr t bh cb ix p
    unfolding parseOutput_def by (intro stays_steps light_outputs)
  then have "light c (parseTxOutputs K sha t bh n False True)" for t bh
    unfolding parseTxOutputs_def by (intro stays_steps light_insertTransaction)
  then show ?thesis
    unfolding parseBlockTransactions_def Let_def by (intro stays_steps light_insertTransaction light_spends)
qed

lemma light_prune: "light c (pruneAgedBlockRecords K h)"
proof -
  have del: "light c (mseq (addTransaction K (Del k v)) (mret ()))" for k v
    by (intro stays_steps light_add) simp
  have d: "light c (processDeletedOutputsInDb K h False b)" for b
    unfolding processDeletedOutputsInDb_def Let_def mwhen_def if_False by (intro stays_steps light_basic del)
  have m: "light c (\<lambda>s. case deletedTransactionArray s of None \<Rightarrow> (Inr (), s)
     | Some da \<Rightarrow> (case map_of da k of None \<Rightarrow> (Inr (), s)
         | Some innerMap \<Rightarrow> (Inr (), s\<lparr>deletedTransactionArray := Some (AList.delete k da)\<rparr>)))" for k
    by (simp add: stays_def staged_blocks_def split: option.split)
  have "light c (processDeletedOutputs K h False)"
    unfolding processDeletedOutputs_def Let_def if_False by (intro stays_steps m d)
  moreover have "light c (removeCreatedOutputsBlockIndexOnly K h)" "light c (removeOutputScriptsBlockIndexOnly K h)"
    "light c (removeTxBlockRecoveryIndexOnly K h)"
    unfolding removeCreatedOutputsBlockIndexOnly_def removeOutputScriptsBlockIndexOnly_def removeTxBlockRecoveryIndexOnly_def
    by (intro stays_steps light_basic del)+
  ultimately show ?thesis unfolding pruneAgedBlockRecords_def by (intro stays_steps light_pointers)
qed

lemma insertBlock_count: "staged_blocks (snd (insertBlock K b s)) \<le> staged_blocks s + 1"
proof -
  have "staged_blocks (snd (addTransaction K it s)) \<le> staged_blocks s + 1" for it
    using count_update [of block_put "toMapKey (item_key it)" it "the (transactionArray s)"]
    by (auto simp: staged_blocks_def addTransaction_def mseq_def mbind_def dbWrite_def
        split: option.splits prod.splits sum.splits if_splits)
  then show ?thesis
    by (simp add: insertBlock_def mbind_def split: sum.split)
qed

subsection \<open>What the tracker's steps add\<close>

abbreviation lighter :: "nat \<Rightarrow> (('d, 'n) tracker, 'a) m \<Rightarrow> bool" where
  "lighter c f \<equiv> stays (\<lambda>T. staged_blocks (confirmed T) \<le> c) f"

lemma lighter_db: "light c f \<Longrightarrow> lighter c (on_db f)"
  by (auto simp: stays_def on_db_def split: prod.split)

lemma lighter_others: "lighter c (on_mempool f)" "lighter c (on_node g)"
  by (auto simp: stays_def on_mempool_def on_node_def staged_blocks_def split: prod.split)

lemma lighter_mcatch: "stays P f \<Longrightarrow> (\<And>e. stays P (h e)) \<Longrightarrow> stays P (mcatch f h)"
  by (force simp: stays_def mcatch_def split: prod.split sum.split)

lemma lighter_readers:
  "lighter c (on_db (getLastBlockHeight K))" "lighter c (on_db (getLastBlockHash K))" "lighter c (on_db (getLastBlock K))"
  "lighter c (on_db (getBlock K h))" "lighter c (on_db (readTip K))" "lighter c (on_db (loadLastBlocksSortedByHeight K))"
proof -
  have g: "light c (getLastBlockHeight K)" "light c (getLastBlockHash K)" "light c (getBlock K h)" for h
    unfolding getLastBlockHeight_def getLastBlockHash_def getBlock_def by (intro stays_steps light_basic)+
  have w: "light c (withHeight K hs)" for hs
    by (induction hs) (auto intro!: stays_steps g)
  show "lighter c (on_db (getLastBlockHeight K))" "lighter c (on_db (getLastBlockHash K))" "lighter c (on_db (getBlock K h))"
    by (intro lighter_db g)+
  show "lighter c (on_db (getLastBlock K))"
    unfolding getLastBlock_def by (intro lighter_db stays_steps light_basic)
  show "lighter c (on_db (readTip K))" "lighter c (on_db (loadLastBlocksSortedByHeight K))"
    unfolding readTip_def loadLastBlocksSortedByHeight_def getLastStoredBlocks_def
    by (intro lighter_db stays_steps light_basic g w)+
qed

lemmas lighter_steps = stays_steps lighter_mcatch lighter_readers lighter_others

lemma lighter_watermark: "lighter c (recordUndoWindowWatermark K)"
  unfolding stays_def
proof (intro allI impI)
  fix T :: "('a, 'b) tracker"
  assume a: "staged_blocks (confirmed T) \<le> c"
  have "lighter c (mseq (on_db (addTransaction K (Put Q_UNDO_WATERMARK_KEY v))) (mret ()) :: (('a, 'b) tracker, unit) m)" for v
    by (intro lighter_steps lighter_db light_add) (simp add: not_block_keys)
  then have "staged_blocks (confirmed (snd (mseq (on_db (addTransaction K (Put Q_UNDO_WATERMARK_KEY v))) (mret ()) T1))) \<le> c"
    if "staged_blocks (confirmed T1) \<le> c" for v and T1 :: "('a, 'b) tracker"
    using that unfolding stays_def by blast
  with a show "staged_blocks (confirmed (snd (recordUndoWindowWatermark K T))) \<le> c"
    unfolding recordUndoWindowWatermark_def Let_def by (auto simp del: on_db_run')
qed

lemma lighter_window:
  "lighter c (reloadLastBlocks K)" "lighter c (persistPendingCleanup K)" "lighter c (cleanupAgedBlocks K)"
  "lighter c (discardInflightBatchForReorg K q)" "lighter c (addToLastBlocks K h)" "lighter c (commitLastBlockPointerRepair K h n)"
proof -
  show r: "lighter c (reloadLastBlocks K)"
    unfolding reloadLastBlocks_def by (intro lighter_steps) simp
  show p: "lighter c (persistPendingCleanup K)"
    unfolding persistPendingCleanup_def by (intro lighter_steps lighter_db light_basic)
  show "lighter c (cleanupAgedBlocks K)"
    unfolding cleanupAgedBlocks_def by (intro lighter_steps lighter_db light_basic light_prune light_add; simp)
  show "lighter c (discardInflightBatchForReorg K q)"
    unfolding discardInflightBatchForReorg_def by (intro lighter_steps lighter_db light_basic p r)
  show "lighter c (addToLastBlocks K h)"
    unfolding addToLastBlocks_def
    by (intro lighter_steps lighter_db light_pointers lighter_watermark; simp add: staged_blocks_def split: prod.split)
  show "lighter c (commitLastBlockPointerRepair K h n)"
    unfolding commitLastBlockPointerRepair_def by (intro lighter_steps lighter_db light_basic light_pointers)
qed

text \<open>A rollback ends with no batch open, whichever way it ends.\<close>

lemma commit_count: "on_db (endTransaction K True) T = (Inr u, T') \<Longrightarrow> staged_blocks (confirmed T') = 0"
  by (auto simp: on_db_def endTransaction_def staged_blocks_def split: prod.splits option.splits bool.splits)

lemma discard_count: "staged_blocks (confirmed (snd (on_db (endTransaction K False) T))) = 0"
  by (simp add: on_db_def endTransaction_def staged_blocks_def)

lemma rollBackTipBlock_count: "staged_blocks (confirmed (snd (rollBackTipBlock K h b c T))) = 0"
proof -
  obtain r T1 where r: "rollBackBatch K h b T = (r, T1)" by (cases "rollBackBatch K h b T")
  show ?thesis
  proof (cases r)
    case (Inr u)
    then have "staged_blocks (confirmed T1) = 0"
      using r by (auto simp: rollBackBatch_def mseq_Inr_iff commit_count simp del: on_db_run')
    then show ?thesis using Inr r by (simp add: rollBackTipBlock_def)
  next
    case (Inl e)
    have "staged_blocks (confirmed (snd (reloadLastBlocks K (snd (on_db (endTransaction K False) T1))))) = 0"
      using lighter_window(1) [of 0 K, unfolded stays_def, rule_format, OF eq_imp_le [OF discard_count [of K T1]]] by simp
    then show ?thesis using Inl r discard_count [of K T1] by (simp add: rollBackTipBlock_def Let_def)
  qed
qed

lemma lighter_verifyReorg: "lighter c (verifyReorg K R fuel tip)"
proof -
  have rb: "lighter c (rollBackTipBlock K h b n)" for h b n
    by (simp add: stays_def rollBackTipBlock_count)
  have rf: "lighter c (refuseAboveTipWalkPastBudget W t i n)" "lighter c (refuseRollbackPastWindow W i n)" for W t i n
    unfolding refuseAboveTipWalkPastBudget_def refuseRollbackPastWindow_def by (intro lighter_steps)+
  have wt: "lighter c (readWalkTip R)" unfolding readWalkTip_def by (intro lighter_steps)
  have sf: "lighter c (settleFrom R k t n)" for k t n
    by (induction k arbitrary: t n) (auto intro!: lighter_steps wt)
  have nb: "lighter c (nodeBlockHashOrRetry R i t)" for i t
    unfolding nodeBlockHashOrRetry_def refreshWalkTip_def settleWalkTip_def by (intro lighter_steps wt sf)
  have rr: "lighter c recordRolledBackBlock"
    unfolding recordRolledBackBlock_def by (intro lighter_steps) simp
  have cp: "lighter c (compareTip K R W wk h b)" for W wk h b
    unfolding compareTip_def Let_def by (intro lighter_steps rb rf nb rr)
  have ps: "lighter c (repairLastBlockPointerFromScan K b)" for b
    unfolding repairLastBlockPointerFromScan_def by (intro lighter_steps lighter_window)
  have ws: "lighter c (walkStep K R W wk)" for W wk
    unfolding walkStep_def by (intro lighter_steps cp ps)
  have "lighter c (reorgWalk K R W n wk)" for W n wk
  proof (induction n arbitrary: wk)
    case (Suc n)
    then show ?case unfolding reorgWalk.simps by (intro lighter_steps ws)
  qed (simp add: stays_basic)
  then show ?thesis
    unfolding verifyReorg_def recordReorg_def by (intro lighter_steps; simp)
qed

end
