(* ===== verification/SyncLoop.thy ===== *)
theory SyncLoop
  imports Halt BatchSize
begin

text \<open>
  The sync loop: \<^verbatim>\<open>src/XChainUtxoTracker/sync_loop.js\<close>, \<open>sync_loop_node_tip.js\<close>,
  \<open>sync_loop_block_fetch.js\<close> and the steps of \<open>sync_loop_block_apply.js\<close> around staging and flushing
  (theory Tracker). A pass of the loop is one function; the bookkeeping a pass hands back to be run
  at once is run at its end here. Timers, sleeps and log lines are left out; the mempool poller is
  a flag here and its passes are in theory Mempool. A stored height that is not a number throws.
\<close>

subsection \<open>What the loop is given\<close>

text \<open>
  SHA-256, the block decoder, the configured number of fetch attempts and the refresh interval.
\<close>

record params =
  pr_sha :: "bytes \<Rightarrow> bytes"
  pr_decode :: "bytes \<Rightarrow> error + block"
  pr_maxRetries :: nat

datatype pass_end = PassDone | LoopStopped | StillWalking

definition BLOCKCHAIN_INFO_REFRESH_MS :: nat where "BLOCKCHAIN_INFO_REFRESH_MS = 30000"
definition SYNCED_THRESHOLD :: int where "SYNCED_THRESHOLD = 3"
definition PREFETCH_SIZE :: nat where "PREFETCH_SIZE = 10"

definition modSync :: "(sync \<Rightarrow> sync) \<Rightarrow> (('d, 'n) tracker, unit) m" where
  "modSync f = mmod (\<lambda>T. T\<lparr>sync_loop := f (sync_loop T)\<rparr>)"

definition loadCursor :: "'d kv \<Rightarrow> (('d, 'n) tracker, unit) m" where
  "loadCursor K = mbind (on_db (getLastBlockHeight K)) (\<lambda>index. mbind (on_db (getLastBlockHash K)) (\<lambda>hash.
     case index of None \<Rightarrow> mthrow TypeError
     | Some i \<Rightarrow> modSync (\<lambda>s. s\<lparr>lastProcessedBlockIndex := i, lastProcessedBlockHash := hash\<rparr>)))"

subsection \<open>Fetching the next block\<close>

text \<open>The heights to queue: at most \<open>room\<close>, from the one after \<open>maxQueued\<close>, none past the tip.\<close>

fun heightsToQueue :: "nat \<Rightarrow> int \<Rightarrow> int \<Rightarrow> int list" where
  "heightsToQueue 0 maxQueued tip = []"
| "heightsToQueue (Suc room) maxQueued tip =
     (if maxQueued + 1 \<le> tip then (maxQueued + 1) # heightsToQueue room (maxQueued + 1) tip else [])"

definition fillPrefetchQueue :: "'n rpc \<Rightarrow> int \<Rightarrow> int \<Rightarrow> (('d, 'n) tracker, unit) m" where
  "fillPrefetchQueue R fromHeight tipHeight = mbind (mget (\<lambda>T. prefetchQueue (sync_loop T))) (\<lambda>q.
     let maxQueued = (if q = [] then fromHeight - 1 else fst (last q));
         heights = heightsToQueue (PREFETCH_SIZE - length q) maxQueued tipHeight in
     if heights = [] then mret ()
     else mbind (mget auxPow) (\<lambda>aux. mbind (on_node (rpc_batch R aux heights)) (\<lambda>results.
       modSync (\<lambda>s. s\<lparr>prefetchQueue := prefetchQueue s @ map (\<lambda>(i, h). (h,
         if i < length results then results ! i else Inl False)) (enumerate 0 heights)\<rparr>))))"

text \<open>\<open>Inl tagged\<close>: the fetch failed, and whether the AuxPoW strip was at fault.\<close>

definition withHash :: "'n rpc \<Rightarrow> int \<Rightarrow> (bytes \<Rightarrow> 'n \<Rightarrow> (bool + bytes) \<times> 'n) \<Rightarrow> (('d, 'n) tracker, fetched) m" where
  "withHash R height get = mbind (on_node (rpc_hash R height)) (\<lambda>h. case h of
     None \<Rightarrow> mret (Inl False)
   | Some hash \<Rightarrow> mbind (on_node (get hash)) (\<lambda>hex. mret (case hex of Inl tagged \<Rightarrow> Inl tagged | Inr x \<Rightarrow> Inr (hash, x))))"

definition fetchBlock :: "'n rpc \<Rightarrow> int \<Rightarrow> (('d, 'n) tracker, fetched) m" where
  "fetchBlock R height = mbind (mget auxPow) (\<lambda>aux. withHash R height (rpc_block R aux))"

definition clearQueue :: "(('d, 'n) tracker, unit) m" where
  "clearQueue = modSync (\<lambda>s. s\<lparr>prefetchQueue := []\<rparr>)"

definition readBlock :: "'n rpc \<Rightarrow> int \<Rightarrow> (('d, 'n) tracker, fetched) m" where
  "readBlock R nextBlockHeight = mbind (mget (\<lambda>T. (auxPow T, sync_loop T))) (\<lambda>(aux, s).
     if shouldReassembleBlock aux nextBlockHeight (auxPowParseFailureHeight s) (auxPowParseFailures s)
     then mseq clearQueue (withHash R nextBlockHeight (rpc_reassembled R))
     else (case prefetchQueue s of
         (h, result) # q \<Rightarrow>
           if h = nextBlockHeight then mseq (modSync (\<lambda>s. s\<lparr>prefetchQueue := q\<rparr>)) (mret result)
           else mseq clearQueue (fetchBlock R nextBlockHeight)
       | [] \<Rightarrow> mseq clearQueue (fetchBlock R nextBlockHeight)))"

definition fetchNextBlock :: "'n rpc \<Rightarrow> nat \<Rightarrow> int \<Rightarrow> (('d, 'n) tracker, (bytes \<times> bytes) option) m" where
  "fetchNextBlock R maxRetries nextBlockHeight = mbind (readBlock R nextBlockHeight) (\<lambda>result. case result of
     Inr fetched \<Rightarrow>
       mseq (modSync (\<lambda>s. s\<lparr>blockFetchFailures := 0, blockFetchFailureHeight := None,
               auxPowParseFailures := 0, auxPowParseFailureHeight := None\<rparr>))
       (mret (Some fetched))
   | Inl tagged \<Rightarrow>
       mseq clearQueue
       (mseq (modSync (\<lambda>s. case noteAuxPowParseFailure nextBlockHeight (auxPowParseFailureHeight s) (auxPowParseFailures s) tagged of
            (h, c) \<Rightarrow> s\<lparr>auxPowParseFailureHeight := h, auxPowParseFailures := c\<rparr>))
       (mbind (mget sync_loop) (\<lambda>s.
        mbind (noteBlockFetchFailure maxRetries nextBlockHeight (blockFetchFailureHeight s) (blockFetchFailures s)) (\<lambda>(h, c).
        mseq (modSync (\<lambda>s. s\<lparr>blockFetchFailureHeight := h, blockFetchFailures := c\<rparr>)) (mret None))))))"

subsection \<open>Rolling back\<close>

definition resyncMempoolAfterReorg :: "(('d, 'n) tracker, unit) m" where
  "resyncMempoolAfterReorg = mmod (\<lambda>T. if mempoolPolling T then T\<lparr>mempoolReconverged := False\<rparr> else T)"

definition zeroBatch :: "sync \<Rightarrow> sync" where
  "zeroBatch s = s\<lparr>blocksQuantity := 0, blocksCount := 0, transactionsCount := 0, inputsCount := 0, outputsCount := 0,
     pendingMempoolTxCleanup := [], blockTimestamps := []\<rparr>"

definition resetBatchAfterReorg :: "(('d, 'n) tracker, unit) m" where
  "resetBatchAfterReorg =
     mseq (modSync (\<lambda>s. (zeroBatch s)\<lparr>lastBlockchainInfo := None\<rparr>))
     (mseq (mmod (\<lambda>T. T\<lparr>pendingKMCleanup := []\<rparr>)) resyncMempoolAfterReorg)"

definition countRefusedWalk :: "int \<Rightarrow> (('d, 'n) tracker, unit) m" where
  "countRefusedWalk walkedBack = mwhen (walkedBack > 0)
     (mmod (\<lambda>T. T\<lparr>reorgCount := reorgCount T + 1, lastReorgDepth := nat walkedBack\<rparr>))"

definition isTipBelow :: "error \<Rightarrow> bool" where
  "isTipBelow e = (case e of TipBelowCommittedTip _ \<Rightarrow> True | _ \<Rightarrow> False)"

definition verifyReorgHandingBackTipRefusal :: "'d kv \<Rightarrow> 'n rpc \<Rightarrow> nat \<Rightarrow> (('d, 'n) tracker, bool) m" where
  "verifyReorgHandingBackTipRefusal K R fuel = mbind (mget reorgRollbacksThisProcess) (\<lambda>before.
     mcatch (verifyReorg K R fuel None) (\<lambda>err.
       if \<not> isTipBelow err then mthrow err
       else mbind (mget reorgRollbacksThisProcess) (\<lambda>now.
         mseq (countRefusedWalk (int now - int before))
         (mseq (modSync (\<lambda>s. s\<lparr>lastBlockchainInfo := None\<rparr>)) (mret True)))))"

text \<open>
  The two reorgs met while going forward: the batch is discarded, the walk runs without a node tip
  and the aged blocks the batch had listed are cleaned.
\<close>

definition rollBackReorg :: "'d kv \<Rightarrow> 'n rpc \<Rightarrow> nat \<Rightarrow> (('d, 'n) tracker, pass_end) m" where
  "rollBackReorg K R fuel =
     mseq (mmod (\<lambda>T. T\<lparr>synced := False\<rparr>))
     (mseq clearQueue
     (mseq (on_db (endTransaction K False))
     (mseq (persistPendingCleanup K)
     (mseq (reloadLastBlocks K)
     (mbind (verifyReorgHandingBackTipRefusal K R fuel) (\<lambda>ended.
      if \<not> ended then mret StillWalking
      else mseq (loadCursor K) (mseq (cleanupAgedBlocks K) (mseq resetBatchAfterReorg (mret PassDone)))))))))"

definition rollBackOnPrevHashMismatch :: "'d kv \<Rightarrow> 'n rpc \<Rightarrow> nat \<Rightarrow> (('d, 'n) tracker, pass_end) m" where
  "rollBackOnPrevHashMismatch = rollBackReorg"

definition rollBackSameHeightTipSwap :: "'d kv \<Rightarrow> 'n rpc \<Rightarrow> nat \<Rightarrow> (('d, 'n) tracker, pass_end) m" where
  "rollBackSameHeightTipSwap = rollBackReorg"

definition rollBackToNodeTip :: "'d kv \<Rightarrow> 'n rpc \<Rightarrow> nat \<Rightarrow> block_obj \<Rightarrow> (('d, 'n) tracker, pass_end) m" where
  "rollBackToNodeTip K R fuel lastBlockDb =
     mseq (reloadLastBlocks K)
     (mbind (mget blockchainInfoLastBlock) (\<lambda>tip.
      mbind (mcatch (mbind (verifyReorg K R fuel (Some tip)) (\<lambda>ended. mret (if ended then Some False else None)))
         (\<lambda>err. if isTipBelow err then mret (Some True) else mthrow err)) (\<lambda>refused. case refused of
        None \<Rightarrow> mret StillWalking
      | Some True \<Rightarrow>
          mseq (modSync (\<lambda>s. s\<lparr>tipBelowCommittedTipRefused := True\<rparr>))
          (mseq (loadCursor K)
          (mseq (modSync (\<lambda>s. s\<lparr>lastBlockchainInfo := None\<rparr>))
          (mbind (mget (\<lambda>T. lastProcessedBlockIndex (sync_loop T))) (\<lambda>i.
           mseq (countRefusedWalk (bo_height lastBlockDb - i)) (mret PassDone)))))
      | Some False \<Rightarrow>
          mseq (modSync (\<lambda>s. s\<lparr>tipBelowCommittedTipRefused := False\<rparr>))
          (mseq (loadCursor K)
          (mseq (modSync (\<lambda>s. s\<lparr>lastBlockchainInfo := None\<rparr>))
          (mseq resyncMempoolAfterReorg (mret PassDone)))))))"

definition repairLastBlockPointer :: "'d kv \<Rightarrow> block_obj \<Rightarrow> (('d, 'n) tracker, pass_end) m" where
  "repairLastBlockPointer K lastBlockDb =
     mseq (commitLastBlockPointerRepair K (bo_hash lastBlockDb) (bo_height lastBlockDb))
     (mseq (modSync (\<lambda>s. s\<lparr>lastProcessedBlockIndex := bo_height lastBlockDb,
              lastProcessedBlockHash := Some (bo_hash lastBlockDb)\<rparr>))
     (mret PassDone))"

subsection \<open>A node tip below ours\<close>

definition waitOnCatchingUpNode :: "'n rpc \<Rightarrow> (('d, 'n) tracker, pass_end) m" where
  "waitOnCatchingUpNode R =
     mseq (modSync (\<lambda>s. s\<lparr>nodeCatchingUpProblem := True\<rparr>))
     (mseq (mmod (\<lambda>T. T\<lparr>nodeCatchingUp := Some (catchUpWaitState (nodeCatchingUp T) (blockchainInfoLastBlock T)
         (lastProcessedBlockIndex (sync_loop T)) (rpc_iso R (node T)))\<rparr>))
     (mret PassDone))"

definition recoverFromTipBelowOurs :: "'d kv \<Rightarrow> 'n rpc \<Rightarrow> nat \<Rightarrow> (('d, 'n) tracker, pass_end) m" where
  "recoverFromTipBelowOurs K R fuel = mbind (mget sync_loop) (\<lambda>s.
     mseq (mmod (\<lambda>T. T\<lparr>synced := False\<rparr>))
     (if nodeStillCatchingUp (lastBlockchainInfo s) then waitOnCatchingUpNode R
      else
        mseq (mwhen (nodeCatchingUpProblem s)
          (mseq (modSync (\<lambda>s. s\<lparr>nodeCatchingUpProblem := False\<rparr>)) (mmod (\<lambda>T. T\<lparr>nodeCatchingUp := None\<rparr>))))
        (if tipBelowCommittedTipRefused s then mret PassDone
         else mbind (settleNodeTipBelow R (lastProcessedBlockIndex s)) (\<lambda>below.
           if \<not> below then mret PassDone
           else mbind (discardInflightBatchForReorg K (blocksQuantity s)) (\<lambda>discarded.
             mseq (mwhen discarded (modSync zeroBatch))
             (mbind (on_db (getLastBlock K)) (\<lambda>lastBlockDb. case lastBlockDb of
                None \<Rightarrow> mthrow CorruptBlockIndex
              | Some l \<Rightarrow> mbind (mget blockchainInfoLastBlock) (\<lambda>tip.
                  if bo_height l > tip then rollBackToNodeTip K R fuel l else repairLastBlockPointer K l))))))))"

subsection \<open>Indexing the next block\<close>

definition indexNextBlock :: "'d kv \<Rightarrow> 'n rpc \<Rightarrow> params \<Rightarrow> nat \<Rightarrow> (('d, 'n) tracker, pass_end) m" where
  "indexNextBlock K R P fuel =
     mseq (mmod (\<lambda>T. if blockchainInfoLastBlock T - lastProcessedBlockIndex (sync_loop T) > SYNCED_THRESHOLD
        then T\<lparr>synced := False, mempoolReconverged := False, mempoolPolling := False\<rparr> else T))
     (mbind (mget (\<lambda>T. (lastProcessedBlockIndex (sync_loop T) + 1, blockchainInfoLastBlock T))) (\<lambda>(nextBlockHeight, tip).
      mseq (fillPrefetchQueue R nextBlockHeight tip)
      (mbind (fetchNextBlock R (pr_maxRetries P) nextBlockHeight) (\<lambda>fetched. case fetched of
         None \<Rightarrow> mret PassDone
       | Some (nextBlockHash, hex) \<Rightarrow>
           mbind (mlift (pr_decode P hex)) (\<lambda>block.
           mbind (mget (\<lambda>T. lastProcessedBlockHash (sync_loop T))) (\<lambda>ourHash.
           let previousBlockHash = rev (bl_prevHash block) in
           if nextBlockHeight > 0 \<and> Some previousBlockHash \<noteq> ourHash then rollBackOnPrevHashMismatch K R fuel
           else
             mseq (stageBlock K (pr_sha P) block nextBlockHash nextBlockHeight previousBlockHash)
             (mbind (mget (\<lambda>T. flushTrigger (sync_loop T) nextBlockHeight (blockchainInfoLastBlock T) (rpc_heapHigh R (node T)))) (\<lambda>flush.
              if flush = None then mseq (advanceCursor nextBlockHash nextBlockHeight) (mret PassDone)
              else
                mseq (flushBatch K nextBlockHash nextBlockHeight)
                (mbind (mget (\<lambda>T. rpc_now R (node T))) (\<lambda>now.
                 mseq (finishFlushedBlock nextBlockHash nextBlockHeight now) (mret PassDone)))))))))))"

definition flushPendingAtTip :: "'d kv \<Rightarrow> 'n rpc \<Rightarrow> (('d, 'n) tracker, pass_end) m" where
  "flushPendingAtTip K R = mbind (mget (\<lambda>T. (lastProcessedBlockHash (sync_loop T), lastProcessedBlockIndex (sync_loop T))))
     (\<lambda>(hash, index). case hash of
        None \<Rightarrow> mthrow TypeError
      | Some h \<Rightarrow>
          mseq (flushBatch K h index)
          (mbind (mget (\<lambda>T. rpc_now R (node T))) (\<lambda>now. mseq (finishFlushedBlock h index now) (mret PassDone))))"

definition pollAtChainTip :: "'d kv \<Rightarrow> 'n rpc \<Rightarrow> nat \<Rightarrow> (('d, 'n) tracker, pass_end) m" where
  "pollAtChainTip K R fuel = mbind (mget sync_loop) (\<lambda>s.
     mbind (if lastProcessedBlockIndex s > 0 then on_node (rpc_hash R (lastProcessedBlockIndex s)) else mret None)
     (\<lambda>tipHashFromNode.
      if (case tipHashFromNode of None \<Rightarrow> False | Some h \<Rightarrow> h \<noteq> [] \<and> Some h \<noteq> lastProcessedBlockHash s)
      then rollBackSameHeightTipSwap K R fuel
      else if blocksQuantity s > 0 then flushPendingAtTip K R
      else mseq (mmod (\<lambda>T. T\<lparr>synced := True, mempoolPolling := True\<rparr>)) (mret PassDone)))"

definition pollAtTipOrIndex :: "'d kv \<Rightarrow> 'n rpc \<Rightarrow> params \<Rightarrow> nat \<Rightarrow> (('d, 'n) tracker, pass_end) m" where
  "pollAtTipOrIndex K R P fuel = mbind (mget (\<lambda>T. lastProcessedBlockIndex (sync_loop T) = blockchainInfoLastBlock T))
     (\<lambda>atTip. if atTip then pollAtChainTip K R fuel else indexNextBlock K R P fuel)"

subsection \<open>A pass of the loop\<close>

definition reconcileRefreshedTip :: "'d kv \<Rightarrow> 'n rpc \<Rightarrow> params \<Rightarrow> nat \<Rightarrow> (('d, 'n) tracker, pass_end) m" where
  "reconcileRefreshedTip K R P fuel =
     mbind (mget (\<lambda>T. lastProcessedBlockIndex (sync_loop T) \<le> blockchainInfoLastBlock T)) (\<lambda>reached.
     if reached
     then mseq (mmod (\<lambda>T. T\<lparr>nodeCatchingUp := None\<rparr>))
          (mseq (modSync (\<lambda>s. s\<lparr>tipBelowCommittedTipRefused := False, nodeCatchingUpProblem := False\<rparr>))
          (pollAtTipOrIndex K R P fuel))
     else recoverFromTipBelowOurs K R fuel)"

definition refreshNodeTip :: "'d kv \<Rightarrow> 'n rpc \<Rightarrow> params \<Rightarrow> nat \<Rightarrow> (('d, 'n) tracker, pass_end) m" where
  "refreshNodeTip K R P fuel = mbind (on_node (rpc_info R)) (\<lambda>info. case info of
     None \<Rightarrow> mret PassDone
   | Some i \<Rightarrow>
       mseq (mmod (\<lambda>T. T\<lparr>latestKnownChainTip := Some (ci_blocks i), sync_loop := (sync_loop T)\<lparr>lastBlockchainInfo := info\<rparr>\<rparr>))
       (mbind (mget regtest) (\<lambda>rt.
        if \<not> nodeTipIsParseable info rt
        then mseq (mmod (\<lambda>T. T\<lparr>synced := False, mempoolReconverged := False,
               sync_loop := (sync_loop T)\<lparr>lastBlockchainInfo := None, nodeSyncedProblem := True\<rparr>\<rparr>))
             (mret PassDone)
        else
          mseq (mmod (\<lambda>T. T\<lparr>blockchainInfoLastBlock := ci_blocks i, lastNodeRpcOkAt := rpc_now R (node T),
               sync_loop := (sync_loop T)\<lparr>nodeSyncedProblem := False, lastBlockchainInfoRefreshAt := rpc_now R (node T)\<rparr>\<rparr>))
          (reconcileRefreshedTip K R P fuel))))"

definition pollSyncLoop :: "'d kv \<Rightarrow> 'n rpc \<Rightarrow> params \<Rightarrow> nat \<Rightarrow> (('d, 'n) tracker, pass_end) m" where
  "pollSyncLoop K R P fuel = mbind (mget (\<lambda>T. lastBlockchainInfo (sync_loop T) = None
       \<or> lastProcessedBlockIndex (sync_loop T) \<ge> blockchainInfoLastBlock T
       \<or> rpc_now R (node T) - lastBlockchainInfoRefreshAt (sync_loop T) \<ge> BLOCKCHAIN_INFO_REFRESH_MS)) (\<lambda>refresh.
     if refresh then refreshNodeTip K R P fuel else pollAtTipOrIndex K R P fuel)"

text \<open>A turn of \<open>start\<close>'s loop, and \<open>n\<close> turns of it.\<close>

definition loopTurn :: "'d kv \<Rightarrow> 'n rpc \<Rightarrow> params \<Rightarrow> nat \<Rightarrow> (('d, 'n) tracker, pass_end) m" where
  "loopTurn K R P fuel = mbind (mget keepParsing) (\<lambda>keep.
     if keep then pollSyncLoop K R P fuel else mseq finishStop (mret LoopStopped))"

fun loopTurns :: "'d kv \<Rightarrow> 'n rpc \<Rightarrow> params \<Rightarrow> nat \<Rightarrow> nat \<Rightarrow> (('d, 'n) tracker, pass_end) m" where
  "loopTurns K R P fuel 0 = mret PassDone"
| "loopTurns K R P fuel (Suc n) = mbind (loopTurn K R P fuel) (\<lambda>e. case e of
     PassDone \<Rightarrow> loopTurns K R P fuel n
   | _ \<Rightarrow> mret e)"

subsection \<open>Booting\<close>

text \<open>
  \<open>JSON.parse\<close> of an array of hex strings, the only text ever stored under the pending-cleanup key;
  any other text throws here.
\<close>

fun splitOn :: "'a \<Rightarrow> 'a list \<Rightarrow> 'a list list" where
  "splitOn c [] = [[]]"
| "splitOn c (x # xs) = (if x = c then [] # splitOn c xs
     else (case splitOn c xs of y # ys \<Rightarrow> (x # y) # ys | [] \<Rightarrow> [[x]]))"

fun jsonItems :: "string list \<Rightarrow> bytes list option" where
  "jsonItems [h, z] = (if z = '']'' then Some [h2b h] else None)"
| "jsonItems (h # z # ps) = (if z = '','' then map_option (\<lambda>hs. h2b h # hs) (jsonItems ps) else None)"
| "jsonItems _ = None"

definition parseJsonHashes :: "string \<Rightarrow> bytes list option" where
  "parseJsonHashes s = (case splitOn (CHR 0x22) s of
     [x] \<Rightarrow> if x = ''[]'' then Some [] else None
   | x # ps \<Rightarrow> if x = ''['' then jsonItems ps else None
   | [] \<Rightarrow> None)"

definition recoverPendingCleanup :: "bytes option \<Rightarrow> (('d, 'n) tracker, unit) m" where
  "recoverPendingCleanup pVal = (case pVal of
     None \<Rightarrow> mret ()
   | Some v \<Rightarrow> (case parseJsonHashes (buf_text v) of
       None \<Rightarrow> mthrow TypeError
     | Some hs \<Rightarrow> mmod (\<lambda>T. T\<lparr>pendingKMCleanup := hs\<rparr>)))"

definition loadSyncCursor :: "'d kv \<Rightarrow> (('d, 'n) tracker, int \<times> bytes option \<times> bytes option \<times> window_report option) m" where
  "loadSyncCursor K =
     mbind (on_db (getLastBlockHeight K)) (\<lambda>index.
     mbind (on_db (getLastBlockHash K)) (\<lambda>hash.
     mseq (reloadLastBlocks K)
     (mbind (loadUndoWindowWatermark K) (\<lambda>_.
      case index of None \<Rightarrow> mthrow TypeError
      | Some i \<Rightarrow>
          mbind (mget (\<lambda>T. noteInterruptedReorgWindow T i)) (\<lambda>report.
          mseq (mmod (\<lambda>T. T\<lparr>pendingKMCleanup := []\<rparr>))
          (mbind (on_db (dbGet K P_PENDING_CLEANUP_KEY)) (\<lambda>p. mret (i, hash, p, report))))))))"

definition newSyncLoopState :: "'n rpc \<Rightarrow> int \<Rightarrow> bytes option \<Rightarrow> (('d, 'n) tracker, unit) m" where
  "newSyncLoopState R index hash = mmod (\<lambda>T. T\<lparr>sync_loop := newSync index hash, lastNodeRpcOkAt := rpc_now R (node T),
     blockchainInfoLastBlock := - 1, latestKnownChainTip := None, synced := False, mempoolReconverged := False,
     nodeCatchingUp := None\<rparr>)"

text \<open>
  \<open>start\<close> up to its loop: \<open>opened\<close> is what opening the confirmed store gives, \<open>fresh\<close> an empty
  in-memory store. \<open>False\<close>: the store's halt marker stops the boot.
\<close>

definition boot ::
  "'d kv \<Rightarrow> 'n rpc \<Rightarrow> (bytes \<Rightarrow> halt_rec option) \<Rightarrow> bool \<times> 'd \<Rightarrow> 'd \<Rightarrow> (('d, 'n) tracker, bool) m" where
  "boot K R parse_marker opened fresh =
     mseq (mmod (\<lambda>T. T\<lparr>confirmed := new_store (stat (confirmed T)) (snd opened), mempool := new_store (stat (confirmed T)) fresh\<rparr>))
     (mseq (on_db (createDatabase opened))
     (mseq (on_mempool (createDatabase (True, fresh)))
     (mseq (on_db (ensureLayoutVersion K True))
     (mbind (resumeHaltFromMarker K parse_marker) (\<lambda>stop.
      if stop then mret False
      else mbind (loadSyncCursor K) (\<lambda>(index, hash, pendingCleanup, report).
        mseq (recoverPendingCleanup pendingCleanup)
        (mseq (newSyncLoopState R index hash)
        (mseq (mmod (\<lambda>T. T\<lparr>keepParsing := True, parsingStopped := False, parsingAborted := False\<rparr>))
        (mret True)))))))))"

subsection \<open>What the steps leave alone\<close>

text \<open>
  \<open>latch p\<close>: the part \<open>p\<close> of the tracker is none of the fields that staging, flushing, fetching and
  rolling back write, the loop's \<open>blocksQuantity\<close> apart.
\<close>

definition latch :: "(('d, 'n) tracker \<Rightarrow> 'p) \<Rightarrow> bool" where
  "latch p \<longleftrightarrow> spares p
     \<and> (\<forall>T s. blocksQuantity s = blocksQuantity (sync_loop T) \<longrightarrow> p (T\<lparr>sync_loop := s\<rparr>) = p T)
     \<and> (\<forall>T m. p (T\<lparr>mempool := m\<rparr>) = p T)
     \<and> (\<forall>T x. p (T\<lparr>pendingKMCleanup := x\<rparr>) = p T) \<and> (\<forall>T x. p (T\<lparr>undoWindowWatermark := x\<rparr>) = p T)
     \<and> (\<forall>T x. p (T\<lparr>undoWindowWatermarkPersisted := x\<rparr>) = p T) \<and> (\<forall>T x. p (T\<lparr>lastCommittedHeight := x\<rparr>) = p T)
     \<and> (\<forall>T x. p (T\<lparr>mempoolEpoch := x\<rparr>) = p T) \<and> (\<forall>T x. p (T\<lparr>reorgCount := x\<rparr>) = p T)
     \<and> (\<forall>T x. p (T\<lparr>lastReorgDepth := x\<rparr>) = p T) \<and> (\<forall>T x. p (T\<lparr>reorgRollbacksThisProcess := x\<rparr>) = p T)
     \<and> (\<forall>T x. p (T\<lparr>blockFetchDesync := x\<rparr>) = p T)"

lemma latchD:
  assumes "latch p"
  shows "spares p" and "blocksQuantity s = blocksQuantity (sync_loop T) \<Longrightarrow> p (T\<lparr>sync_loop := s\<rparr>) = p T"
    and "p (T\<lparr>confirmed := c\<rparr>) = p T" and "p (T\<lparr>node := n\<rparr>) = p T" and "p (T\<lparr>lastBlocks := lb\<rparr>) = p T"
    and "p (T\<lparr>mempool := m\<rparr>) = p T" and "p (T\<lparr>pendingKMCleanup := pk\<rparr>) = p T"
    and "p (T\<lparr>undoWindowWatermark := w\<rparr>) = p T" and "p (T\<lparr>undoWindowWatermarkPersisted := wp\<rparr>) = p T"
    and "p (T\<lparr>lastCommittedHeight := lh\<rparr>) = p T" and "p (T\<lparr>mempoolEpoch := e\<rparr>) = p T"
    and "p (T\<lparr>reorgCount := rc\<rparr>) = p T" and "p (T\<lparr>lastReorgDepth := rd\<rparr>) = p T"
    and "p (T\<lparr>reorgRollbacksThisProcess := rr\<rparr>) = p T" and "p (T\<lparr>blockFetchDesync := bd\<rparr>) = p T"
  using assms by (simp_all add: latch_def spares_def)

lemma latches [simp]:
  "latch synced" "latch (\<lambda>T. blocksQuantity (sync_loop T))" "latch mempoolReconverged" "latch mempoolPolling"
  "latch blockchainInfoLastBlock" "latch nodeCatchingUp" "latch keepParsing" "latch halted"
  by (simp_all add: latch_def spares_def)

lemma keeps_latch_basics:
  assumes p: "latch p"
  shows "keeps p (on_db f)" "keeps p (on_mempool f)" "keeps p (on_node h)"
    "(\<And>s. blocksQuantity (u s) = blocksQuantity s) \<Longrightarrow> keeps p (modSync u)"
proof -
  show "keeps p (on_db f)" "keeps p (on_node h)"
    by (intro keeps_intros; simp add: latchD [OF p])+
  show "keeps p (on_mempool f)"
    by (auto simp: keeps_def on_mempool_def latchD [OF p] split: prod.split)
  show "(\<And>s. blocksQuantity (u s) = blocksQuantity s) \<Longrightarrow> keeps p (modSync u)"
    unfolding modSync_def by (intro keeps_intros latchD(2) [OF p]) simp
qed

lemma keeps_window_steps:
  assumes p: "latch p"
  shows "keeps p (reloadLastBlocks K)" "keeps p (persistPendingCleanup K)" "keeps p (cleanupAgedBlocks K)"
    "keeps p (discardInflightBatchForReorg K q)" "keeps p (addToLastBlocks K h)" "keeps p (commitLastBlockPointerRepair K h n)"
proof -
  note b = keeps_latch_basics [OF p] and d = latchD [OF p]
  show r: "keeps p (reloadLastBlocks K)"
    unfolding reloadLastBlocks_def by (intro keeps_intros b; simp add: d)
  show pc: "keeps p (persistPendingCleanup K)"
    unfolding persistPendingCleanup_def by (intro keeps_intros b; simp add: d)
  show "keeps p (cleanupAgedBlocks K)"
    unfolding cleanupAgedBlocks_def by (intro keeps_intros b; simp add: d)
  show "keeps p (discardInflightBatchForReorg K q)"
    unfolding discardInflightBatchForReorg_def by (intro keeps_intros b pc r)
  have "keeps p (recordUndoWindowWatermark K)"
    unfolding keeps_def
  proof
    fix T :: "('a, 'b) tracker"
    show "p (snd (recordUndoWindowWatermark K T)) = p T"
      by (simp add: recordUndoWindowWatermark_def Let_def d split: prod.split sum.split)
  qed
  then show "keeps p (addToLastBlocks K h)"
    unfolding addToLastBlocks_def by (intro keeps_intros b; simp add: d split: prod.split)
  show "keeps p (commitLastBlockPointerRepair K h n)"
    unfolding commitLastBlockPointerRepair_def by (intro keeps_intros b)
qed

lemma keeps_block_steps:
  assumes p: "latch p"
  shows "keeps p (stageBlock K sha bl h n ph)" "keeps p (flushBatch K h n)"
    "keeps p (fillPrefetchQueue R n t)" "keeps p (fetchNextBlock R mr n)" "keeps p (loadCursor K)"
proof -
  note b = keeps_latch_basics [OF p] and d = latchD [OF p] and w = keeps_window_steps [OF p]
  show "keeps p (stageBlock K sha bl h n ph)"
    unfolding stageBlock_def by (intro keeps_intros b w; simp add: d)
  have "keeps p (commitWithMempoolCleanup K n)"
    unfolding commitWithMempoolCleanup_def by (intro keeps_intros b; simp add: d)
  then show "keeps p (flushBatch K h n)"
    unfolding flushBatch_def by (intro keeps_intros b w)
  show "keeps p (fillPrefetchQueue R n t)"
    unfolding fillPrefetchQueue_def Let_def by (intro keeps_intros b; simp)
  have wh: "keeps p (withHash R n g)" for g
    unfolding withHash_def by (intro keeps_intros b)
  have c: "keeps p clearQueue" unfolding clearQueue_def by (intro b) simp
  have rd: "keeps p (readBlock R n)"
    unfolding readBlock_def fetchBlock_def by (intro keeps_intros b wh c; simp)
  have nb: "keeps p (noteBlockFetchFailure mr n h s)" for h s
    unfolding noteBlockFetchFailure_def Let_def by (intro keeps_intros; simp add: d)
  show "keeps p (fetchNextBlock R mr n)"
    unfolding fetchNextBlock_def by (intro keeps_intros b rd c nb; simp split: prod.split)
  show "keeps p (loadCursor K)"
    unfolding loadCursor_def by (intro keeps_intros b; simp)
qed

lemma keeps_reorg_steps:
  assumes p: "latch p"
  shows "keeps p (verifyReorg K R fuel tip)" "keeps p (verifyReorgHandingBackTipRefusal K R fuel)"
    "keeps p (countRefusedWalk i)"
proof -
  note b = keeps_latch_basics [OF p] and d = latchD [OF p]
  show v: "keeps p (verifyReorg K R fuel tip)" for tip
    unfolding verifyReorg_def recordReorg_def
    by (intro keeps_intros reorgWalk_keeps; simp add: d)
  show c: "keeps p (countRefusedWalk i)" for i
    unfolding countRefusedWalk_def by (intro keeps_intros; simp add: d)
  show "keeps p (verifyReorgHandingBackTipRefusal K R fuel)"
    unfolding verifyReorgHandingBackTipRefusal_def by (intro keeps_intros v c b; simp)
qed

subsection \<open>A batch is never more than 200 blocks\<close>

text \<open>
  The counter stays in its range and counts the staged blocks: the open batch holds no more block
  records than the counter says.
\<close>

definition batch_bounded :: "('d, 'n) tracker \<Rightarrow> bool" where
  "batch_bounded T \<longleftrightarrow> 0 \<le> blocksQuantity (sync_loop T) \<and> blocksQuantity (sync_loop T) < DB_TRANSACTION_BLOCKS_QUANTITY
     \<and> int (staged_blocks (confirmed T)) \<le> blocksQuantity (sync_loop T)"

definition batch_empty :: "('d, 'n) tracker \<Rightarrow> bool" where
  "batch_empty T \<longleftrightarrow> 0 \<le> blocksQuantity (sync_loop T) \<and> blocksQuantity (sync_loop T) < DB_TRANSACTION_BLOCKS_QUANTITY
     \<and> staged_blocks (confirmed T) = 0"

abbreviation holds_bound :: "(('d, 'n) tracker, 'a) m \<Rightarrow> bool" where
  "holds_bound f \<equiv> valid batch_bounded f (\<lambda>_. batch_bounded)"

abbreviation holds_empty :: "(('d, 'n) tracker, 'a) m \<Rightarrow> bool" where
  "holds_empty f \<equiv> valid batch_empty f (\<lambda>_. batch_empty)"

lemma empty_bounded: "batch_empty T \<Longrightarrow> batch_bounded T"
  by (simp add: batch_empty_def batch_bounded_def)

lemma stays_valid: "stays P f \<Longrightarrow> valid P f (\<lambda>_. P)"
  unfolding stays_def valid_def by (metis snd_conv)

lemma valid_post: "valid P f Q \<Longrightarrow> (\<And>a s. Q a s \<Longrightarrow> Q' a s) \<Longrightarrow> valid P f Q'"
  by (auto simp: valid_def)

lemma valid_pre: "valid P f Q \<Longrightarrow> (\<And>s. P' s \<Longrightarrow> P s) \<Longrightarrow> valid P' f Q"
  by (auto simp: valid_def)

lemma valid_any:
  "(\<And>a. valid (\<lambda>_. True) (g a) Q) \<Longrightarrow> valid P (mbind f g) Q" "valid (\<lambda>_. True) h Q \<Longrightarrow> valid P (mseq f h) Q"
  unfolding valid_def by (auto simp: mbind_Inr_iff mseq_Inr_iff)

lemma bound_kept:
  assumes "keeps (\<lambda>T. blocksQuantity (sync_loop T)) f" and "\<And>c. lighter c f"
  shows "holds_bound f" and "holds_empty f"
proof -
  have "blocksQuantity (sync_loop T') = blocksQuantity (sync_loop T)" "staged_blocks (confirmed T') \<le> staged_blocks (confirmed T)"
    if "f T = (r, T')" for T r T'
    using keepsD [OF assms(1) that] assms(2) [of "staged_blocks (confirmed T)"] that unfolding stays_def by (force, force)
  then show "holds_bound f" "holds_empty f"
    by (fastforce simp: valid_def batch_bounded_def batch_empty_def)+
qed

lemma bound_bind: "holds_bound f \<Longrightarrow> (\<And>a. holds_bound (g a)) \<Longrightarrow> holds_bound (mbind f g)"
  by (rule valid_mbind)

lemma bound_then: "holds_bound f \<Longrightarrow> holds_bound g \<Longrightarrow> holds_bound (mseq f g)"
  by (rule valid_mseq)

lemma bound_basic:
  "holds_bound (mret a)" "holds_bound (mthrow e)" "holds_bound (mget g)" "holds_bound (mlift r)"
  "(\<And>T. batch_bounded T \<Longrightarrow> batch_bounded (h T)) \<Longrightarrow> holds_bound (mmod h)"
  by (simp_all add: valid_def mret_def mthrow_def mget_def mlift_def mmod_def)

lemma bound_if: "holds_bound f \<Longrightarrow> holds_bound g \<Longrightarrow> holds_bound (if b then f else g)"
  by simp

lemmas bound_seq = bound_bind bound_then bound_basic bound_if

lemma bound_option: "holds_bound f \<Longrightarrow> (\<And>x. holds_bound (g x)) \<Longrightarrow> holds_bound (case y of None \<Rightarrow> f | Some x \<Rightarrow> g x)"
  by (cases y) simp_all

lemma bound_modSync: "(\<And>s. blocksQuantity (u s) = blocksQuantity s) \<Longrightarrow> holds_bound (modSync u)"
  unfolding modSync_def by (intro bound_seq) (simp add: batch_bounded_def)

text \<open>The loop's steps that stage no block and leave the counter alone.\<close>

lemma lighter_modSync: "lighter c (modSync u)"
  unfolding modSync_def by (intro lighter_steps) simp

lemma lighter_loop_steps:
  "lighter c (flushBatch K h n)" "lighter c (fillPrefetchQueue R i t)" "lighter c (fetchNextBlock R mr i)" "lighter c (loadCursor K)"
  "lighter c (verifyReorgHandingBackTipRefusal K R fuel)" "lighter c (countRefusedWalk i)" "lighter c (settleNodeTipBelow R i)"
proof -
  note st = lighter_steps lighter_modSync
  have "lighter c (commitWithMempoolCleanup K n)"
    unfolding commitWithMempoolCleanup_def by (intro st lighter_db light_basic; simp)
  then show "lighter c (flushBatch K h n)"
    unfolding flushBatch_def by (intro st lighter_db light_pointers light_add lighter_window) (simp add: not_block_keys)
  show "lighter c (fillPrefetchQueue R i t)"
    unfolding fillPrefetchQueue_def Let_def by (intro st)
  have q: "lighter c clearQueue" unfolding clearQueue_def by (rule lighter_modSync)
  have w: "lighter c (withHash R i g)" for g unfolding withHash_def by (intro st)
  have "lighter c (readBlock R i)"
    unfolding readBlock_def fetchBlock_def by (intro st w q)
  moreover have "lighter c (noteBlockFetchFailure mr i h n)" for h n
    unfolding noteBlockFetchFailure_def Let_def by (intro st; simp)
  ultimately show "lighter c (fetchNextBlock R mr i)"
    unfolding fetchNextBlock_def by (intro st q)
  show "lighter c (loadCursor K)"
    unfolding loadCursor_def by (intro st)
  show r: "lighter c (countRefusedWalk i)" for i
    unfolding countRefusedWalk_def by (intro st) simp
  show "lighter c (verifyReorgHandingBackTipRefusal K R fuel)"
    unfolding verifyReorgHandingBackTipRefusal_def by (intro st lighter_verifyReorg r)
  have "lighter c (settleBelowFrom R k i t n)" for k t n
    by (induction k arbitrary: t n) (auto intro!: st)
  then show "lighter c (settleNodeTipBelow R i)"
    unfolding settleNodeTipBelow_def by (intro st)
qed

lemma keeps_clearQueue: "latch p \<Longrightarrow> keeps p clearQueue"
  unfolding clearQueue_def by (intro keeps_latch_basics) simp_all

lemma lighter_clearQueue: "lighter c clearQueue"
  unfolding clearQueue_def by (rule lighter_modSync)

lemma keeps_settleBelow:
  assumes p: "latch p" and i: "\<And>T x. p (T\<lparr>latestKnownChainTip := x\<rparr>) = p T" "\<And>T x. p (T\<lparr>blockchainInfoLastBlock := x\<rparr>) = p T"
  shows "keeps p (settleNodeTipBelow R h)"
proof -
  have "keeps p (settleBelowFrom R k h t n)" for k t n
    by (induction k arbitrary: t n) (auto intro!: keeps_intros keeps_latch_basics [OF p] simp: latchD [OF p] i)
  then show ?thesis unfolding settleNodeTipBelow_def by (intro keeps_intros)
qed

lemma keeps_settle: "keeps (\<lambda>T. blocksQuantity (sync_loop T)) (settleNodeTipBelow R h)"
  by (rule keeps_settleBelow) simp_all

text \<open>One lemma for both invariants: \<open>bound_kept\<close> at each of these steps.\<close>

lemmas quantity_kept = keeps_window_steps [OF latches(2)] keeps_block_steps(2-5) [OF latches(2)] keeps_reorg_steps [OF latches(2)]
  keeps_latch_basics(1-3) [OF latches(2)] keeps_clearQueue [OF latches(2)] keeps_settle

lemma bound_latches:
  "holds_bound (reloadLastBlocks K)" "holds_bound (persistPendingCleanup K)" "holds_bound (cleanupAgedBlocks K)"
  "holds_bound (discardInflightBatchForReorg K q)" "holds_bound (commitLastBlockPointerRepair K h n)"
  "holds_bound (fillPrefetchQueue R i t)" "holds_bound (fetchNextBlock R mr i)" "holds_bound (loadCursor K)"
  "holds_bound (verifyReorg K R fuel tip)" "holds_bound (countRefusedWalk j)"
  "holds_bound (settleNodeTipBelow R j)" "holds_bound (on_node g)" "holds_bound (on_mempool f)" "holds_bound (on_db (getLastBlock K))"
  "holds_bound clearQueue"
  by (intro bound_kept(1) quantity_kept lighter_window lighter_loop_steps lighter_verifyReorg lighter_others lighter_readers
      lighter_clearQueue)+

lemma empty_latches:
  "holds_empty (reloadLastBlocks K)" "holds_empty (persistPendingCleanup K)" "holds_empty (cleanupAgedBlocks K)"
  "holds_empty (loadCursor K)" "holds_empty (verifyReorgHandingBackTipRefusal K R fuel)"
  by (intro bound_kept(2) quantity_kept lighter_window lighter_loop_steps)+

lemma flush_empties: "valid P (flushBatch K h i) (\<lambda>_ T. staged_blocks (confirmed T) = 0)"
proof -
  have "valid (\<lambda>_. True) (commitWithMempoolCleanup K i) (\<lambda>_ T. staged_blocks (confirmed T) \<le> 0)"
  proof -
    have c: "valid (\<lambda>_. True) (on_db (endTransaction K True)) (\<lambda>_ T. staged_blocks (confirmed T) \<le> 0)"
      by (simp add: valid_def commit_count)
    show ?thesis unfolding commitWithMempoolCleanup_def
      by (rule valid_basic(3), rule valid_mseq, rule valid_pre [OF c], simp)
        (rule stays_valid, (intro lighter_steps; simp))
  qed
  then have "valid (\<lambda>_. True) (mseq (commitWithMempoolCleanup K i) (cleanupAgedBlocks K)) (\<lambda>_ T. staged_blocks (confirmed T) \<le> 0)"
    by (rule valid_mseq) (rule stays_valid, rule lighter_window)
  then have "valid P (flushBatch K h i) (\<lambda>_ T. staged_blocks (confirmed T) \<le> 0)"
    unfolding flushBatch_def by - (rule valid_any(2), rule valid_any(2), rule valid_any(1), rule valid_any(2))
  then show ?thesis by simp
qed

lemma bound_finish: "valid (\<lambda>T. staged_blocks (confirmed T) = 0) (finishFlushedBlock h i now) (\<lambda>_. batch_bounded)"
  by (auto simp: valid_def finishFlushedBlock_def logBatchTiming_def recordSyncProgress_def advanceCursor_def batch_bounded_def
      DB_TRANSACTION_BLOCKS_QUANTITY_def staged_blocks_def)

lemma bound_flush: "valid P (mseq (flushBatch K h i) (mbind (mget g) (\<lambda>now. mseq (finishFlushedBlock h i now) (mret e)))) (\<lambda>_. batch_bounded)"
  by (rule valid_mseq [OF valid_pre [OF flush_empties]], simp, rule valid_basic(3), rule valid_mseq,
      rule valid_pre [OF bound_finish], simp, rule valid_basic(1))

lemma stage_adds_one: "valid batch_bounded (stageBlock K sha bl h n ph) (\<lambda>_ T. 0 \<le> blocksQuantity (sync_loop T)
    \<and> blocksQuantity (sync_loop T) < DB_TRANSACTION_BLOCKS_QUANTITY \<and> int (staged_blocks (confirmed T)) \<le> blocksQuantity (sync_loop T) + 1)"
proof -
  have "valid (\<lambda>T. staged_blocks (confirmed T) \<le> c) (stageBlock K sha bl h n ph) (\<lambda>_ T. staged_blocks (confirmed T) \<le> c + 1)" for c
  proof -
    have i: "valid (\<lambda>T. staged_blocks (confirmed T) \<le> c) (on_db (insertBlock K b)) (\<lambda>_ T. staged_blocks (confirmed T) \<le> c + 1)" for b
    proof -
      have "staged_blocks (snd (insertBlock K b s)) \<le> c + 1" if "staged_blocks s \<le> c" for s
        using insertBlock_count [of K b s] that by linarith
      then show ?thesis by (auto simp: valid_def on_db_def split: prod.splits) (metis snd_conv)
    qed
    show ?thesis unfolding stageBlock_def
      by (rule valid_mseq, rule stays_valid, intro lighter_steps lighter_db light_basic, rule valid_mseq, rule i,
          rule stays_valid, intro lighter_steps lighter_db light_parse lighter_window; simp)
  qed
  moreover have "keeps (\<lambda>T. blocksQuantity (sync_loop T)) (stageBlock K sha bl h n ph)" by (rule keeps_block_steps(1) [OF latches(2)])
  ultimately show ?thesis
    unfolding valid_def keeps_def batch_bounded_def by (smt (verit) int_ops(2) nat_int_comparison(3) of_nat_add snd_conv order_refl)
qed

lemma bound_reset:
  "valid batch_empty resetBatchAfterReorg (\<lambda>_. batch_bounded)" "holds_bound resyncMempoolAfterReorg"
  by (auto simp: valid_def resetBatchAfterReorg_def resyncMempoolAfterReorg_def modSync_def zeroBatch_def batch_empty_def
      batch_bounded_def DB_TRANSACTION_BLOCKS_QUANTITY_def)

lemma bound_rollback: "holds_bound (rollBackReorg K R fuel)"
proof -
  have d: "valid batch_bounded (on_db (endTransaction K False)) (\<lambda>_. batch_empty)"
    by (auto simp: valid_def on_db_def endTransaction_def batch_empty_def batch_bounded_def staged_blocks_def)
  have w: "valid batch_empty (if \<not> ended then mret StillWalking
      else mseq (loadCursor K) (mseq (cleanupAgedBlocks K) (mseq resetBatchAfterReorg (mret PassDone)))) (\<lambda>_. batch_bounded)" for ended
  proof (cases ended)
    case True
    have "valid batch_empty (mseq (loadCursor K) (mseq (cleanupAgedBlocks K) (mseq resetBatchAfterReorg (mret PassDone)))) (\<lambda>_. batch_bounded)"
      by (rule valid_mseq, rule empty_latches, rule valid_mseq, rule empty_latches, rule valid_mseq, rule bound_reset, rule valid_basic(1))
    with True show ?thesis by simp
  qed (simp add: valid_def empty_bounded)
  have r: "valid batch_empty (mseq (persistPendingCleanup K) (mseq (reloadLastBlocks K)
     (mbind (verifyReorgHandingBackTipRefusal K R fuel) (\<lambda>ended. if \<not> ended then mret StillWalking
      else mseq (loadCursor K) (mseq (cleanupAgedBlocks K) (mseq resetBatchAfterReorg (mret PassDone))))))) (\<lambda>_. batch_bounded)"
    by (rule valid_mseq, rule empty_latches, rule valid_mseq, rule empty_latches, rule valid_mbind, rule empty_latches, rule w)
  show ?thesis unfolding rollBackReorg_def
    by (rule bound_then, intro bound_seq, simp add: batch_bounded_def, rule bound_then, rule bound_latches, rule valid_mseq, rule d, rule r)
qed

lemma bound_toNodeTip: "holds_bound (rollBackToNodeTip K R fuel l)"
proof -
  let ?walk = "\<lambda>tip. mcatch (mbind (verifyReorg K R fuel (Some tip)) (\<lambda>ended. mret (if ended then Some False else None)))
         (\<lambda>err. if isTipBelow err then mret (Some True) else mthrow err)"
  have w: "holds_bound (?walk tip)" for tip
    by (intro bound_kept(1) keeps_intros keeps_reorg_steps lighter_steps lighter_verifyReorg) simp
  show ?thesis unfolding rollBackToNodeTip_def
    by (intro bound_seq bound_option w bound_latches bound_reset bound_modSync; auto intro!: bound_seq bound_modSync bound_latches bound_reset split: bool.split)
qed

lemma bound_recover: "holds_bound (recoverFromTipBelowOurs K R fuel)"
proof -
  have w: "holds_bound (waitOnCatchingUpNode R)"
    unfolding waitOnCatchingUpNode_def by (intro bound_seq bound_modSync; simp add: batch_bounded_def)
  have z: "valid batch_bounded (mbind (discardInflightBatchForReorg K q) (\<lambda>discarded. mseq (mwhen discarded (modSync zeroBatch)) (f discarded)))
      (\<lambda>_. batch_bounded)" if f: "\<And>d. holds_bound (f d)" for q and f :: "bool \<Rightarrow> (('a, 'b) tracker, pass_end) m"
  proof -
    have "valid batch_bounded (discardInflightBatchForReorg K q) (\<lambda>d T. if d then batch_empty T else batch_bounded T)"
    proof (cases "q \<le> 0")
      case False
      have d: "valid batch_bounded (on_db (endTransaction K False)) (\<lambda>_. batch_empty)"
        by (auto simp: valid_def on_db_def endTransaction_def batch_empty_def batch_bounded_def staged_blocks_def)
      have "valid batch_bounded (mseq (on_db (endTransaction K False)) (mseq (persistPendingCleanup K)
          (mseq (reloadLastBlocks K) (mret True)))) (\<lambda>d T. d \<and> batch_empty T)"
        by (rule valid_mseq, rule d, rule valid_mseq, rule empty_latches, rule valid_mseq, rule empty_latches, rule valid_basic(1)) simp
      then show ?thesis using False unfolding discardInflightBatchForReorg_def by (auto simp: valid_def)
    qed (simp add: discardInflightBatchForReorg_def valid_def)
    moreover have "valid (\<lambda>T. if d then batch_empty T else batch_bounded T) (mwhen d (modSync zeroBatch)) (\<lambda>_. batch_bounded)" for d
      by (cases d) (auto simp: valid_def modSync_def zeroBatch_def batch_empty_def batch_bounded_def DB_TRANSACTION_BLOCKS_QUANTITY_def)
    ultimately show ?thesis using f by (intro valid_mbind valid_mseq)
  qed
  have n: "holds_bound (mwhen b (mseq (modSync (\<lambda>s. s\<lparr>nodeCatchingUpProblem := False\<rparr>)) (mmod (\<lambda>T. T\<lparr>nodeCatchingUp := None\<rparr>))))" for b
    unfolding mwhen_def by (intro bound_seq bound_modSync; simp add: batch_bounded_def)
  show ?thesis unfolding recoverFromTipBelowOurs_def repairLastBlockPointer_def
    by (intro z bound_seq bound_option bound_latches w n bound_toNodeTip bound_modSync; simp add: batch_bounded_def)
qed

lemma bound_index: "holds_bound (indexNextBlock K R P fuel)"
proof -
  let ?closing = "\<lambda>h i. mbind (mget (\<lambda>T. flushTrigger (sync_loop T) i (blockchainInfoLastBlock T) (rpc_heapHigh R (node T))))
      (\<lambda>f. if f = None then mseq (advanceCursor h i) (mret PassDone)
       else mseq (flushBatch K h i) (mbind (mget (\<lambda>T. rpc_now R (node T))) (\<lambda>now. mseq (finishFlushedBlock h i now) (mret PassDone))))"
  have tail: "valid (\<lambda>T. 0 \<le> blocksQuantity (sync_loop T) \<and> blocksQuantity (sync_loop T) < DB_TRANSACTION_BLOCKS_QUANTITY
      \<and> int (staged_blocks (confirmed T)) \<le> blocksQuantity (sync_loop T) + 1) (?closing h i) (\<lambda>_. batch_bounded)" (is "valid ?P _ _") for h i
  proof (rule valid_basic(3))
    fix f
    show "valid (\<lambda>T. ?P T \<and> flushTrigger (sync_loop T) i (blockchainInfoLastBlock T) (rpc_heapHigh R (node T)) = f)
      (if f = None then mseq (advanceCursor h i) (mret PassDone)
       else mseq (flushBatch K h i) (mbind (mget (\<lambda>T. rpc_now R (node T))) (\<lambda>now. mseq (finishFlushedBlock h i now) (mret PassDone))))
      (\<lambda>_. batch_bounded)"
    proof (cases f)
      case None
      then show ?thesis
        by (auto simp: valid_def advanceCursor_def batch_bounded_def flushTrigger_def split: if_splits)
    next
      case (Some r)
      then show ?thesis using bound_flush by simp
    qed
  qed
  have stage: "holds_bound (mseq (stageBlock K sha bl h i ph) (?closing h i))" for sha bl h i ph
    by (rule valid_mseq [OF stage_adds_one tail])
  show ?thesis unfolding indexNextBlock_def rollBackOnPrevHashMismatch_def Let_def
    by (intro stage bound_seq bound_option bound_latches bound_rollback valid_split(3); simp add: batch_bounded_def split: prod.split)
qed

lemma bound_poll: "holds_bound (pollSyncLoop K R P fuel)"
proof -
  have tip: "holds_bound (pollAtChainTip K R fuel)"
    unfolding pollAtChainTip_def flushPendingAtTip_def rollBackSameHeightTipSwap_def
    by (intro bound_flush bound_seq bound_option bound_latches bound_rollback valid_split(3); simp add: batch_bounded_def)
  have at: "holds_bound (pollAtTipOrIndex K R P fuel)"
    unfolding pollAtTipOrIndex_def by (intro bound_seq tip bound_index)
  have "holds_bound (reconcileRefreshedTip K R P fuel)"
    unfolding reconcileRefreshedTip_def by (intro bound_seq at bound_recover bound_modSync; simp add: batch_bounded_def)
  then have "holds_bound (refreshNodeTip K R P fuel)"
    unfolding refreshNodeTip_def by (intro bound_seq bound_option bound_latches; simp add: batch_bounded_def)
  then show ?thesis unfolding pollSyncLoop_def by (intro bound_seq at)
qed

lemma loopTurns_bounded: "holds_bound (loopTurns K R P fuel n)"
proof (induction n)
  case 0
  then show ?case by (simp add: bound_basic [unfolded mret_def] bound_seq)
next
  case (Suc n)
  have f: "holds_bound finishStop"
    unfolding finishStop_def by (intro bound_seq) (simp add: batch_bounded_def)
  have "holds_bound (loopTurn K R P fuel)"
    unfolding loopTurn_def by (intro bound_seq bound_poll f)
  moreover have "holds_bound (case e of PassDone \<Rightarrow> loopTurns K R P fuel n | _ \<Rightarrow> mret e)" for e
    using Suc by (cases e) (auto intro: bound_seq)
  ultimately show ?case by (simp add: bound_bind)
qed

subsection \<open>When the tracker calls itself synced\<close>

abbreviation falls :: "(('d, 'n) tracker, 'a) m \<Rightarrow> bool" where
  "falls f \<equiv> stays (\<lambda>T. \<not> synced T) f"

lemma falls_kept: "keeps synced f \<Longrightarrow> falls f"
  by (simp add: stays_def keeps_def)

lemmas falls_latches = keeps_window_steps [OF latches(1), THEN falls_kept] keeps_block_steps [OF latches(1), THEN falls_kept]
  keeps_reorg_steps [OF latches(1), THEN falls_kept] keeps_latch_basics(1-3) [OF latches(1), THEN falls_kept]

lemma falls_modSync: "falls (modSync u)"
  unfolding modSync_def by (intro stays_intros) simp

lemma falls_steps:
  "falls clearQueue" "falls (advanceCursor h i)" "falls (finishFlushedBlock h i now)" "falls resyncMempoolAfterReorg"
  "falls resetBatchAfterReorg" "falls (waitOnCatchingUpNode R)" "falls (settleNodeTipBelow R j)"
proof -
  show "falls clearQueue" unfolding clearQueue_def by (rule falls_modSync)
  show a: "falls (advanceCursor h i)" unfolding advanceCursor_def by (intro stays_intros) simp
  show "falls (finishFlushedBlock h i now)"
    unfolding finishFlushedBlock_def logBatchTiming_def recordSyncProgress_def by (intro stays_intros a; simp)
  show r: "falls resyncMempoolAfterReorg" unfolding resyncMempoolAfterReorg_def by (intro stays_intros) simp
  show "falls resetBatchAfterReorg" unfolding resetBatchAfterReorg_def by (intro stays_intros r falls_modSync) simp
  show "falls (waitOnCatchingUpNode R)" unfolding waitOnCatchingUpNode_def by (intro stays_intros falls_modSync) simp
  show "falls (settleNodeTipBelow R j)" by (intro falls_kept keeps_settleBelow) simp_all
qed

lemma falls_rollback: "falls (rollBackReorg K R fuel)"
  unfolding rollBackReorg_def by (intro stays_intros falls_latches falls_steps) simp

lemma falls_toNodeTip: "falls (rollBackToNodeTip K R fuel l)"
proof -
  have w: "falls (mcatch (mbind (verifyReorg K R fuel (Some tip)) (\<lambda>ended. mret (if ended then Some False else None)))
         (\<lambda>err. if isTipBelow err then mret (Some True) else mthrow err))" for tip
    by (intro falls_kept keeps_intros keeps_reorg_steps) simp
  show ?thesis unfolding rollBackToNodeTip_def
    by (intro stays_intros falls_latches w falls_modSync falls_steps)
qed

lemma falls_recover: "falls (recoverFromTipBelowOurs K R fuel)"
  unfolding recoverFromTipBelowOurs_def repairLastBlockPointer_def
  by (intro stays_intros falls_latches falls_modSync falls_steps falls_toNodeTip; simp)

lemma falls_index: "falls (indexNextBlock K R P fuel)"
  unfolding indexNextBlock_def rollBackOnPrevHashMismatch_def Let_def
  by (intro stays_intros falls_latches falls_modSync falls_steps falls_rollback; simp)

text \<open>
  What holds when the flag goes up: the cursor is at the node's tip, nothing is staged, the store is
  untouched, and the node's last answer for the cursor's height was its hash (or no hash at all).
\<close>

definition rests_at_tip :: "'n rpc \<Rightarrow> ('d, 'n) tracker \<Rightarrow> bool" where
  "rests_at_tip R T \<longleftrightarrow> (let i = lastProcessedBlockIndex (sync_loop T) in
     i = blockchainInfoLastBlock T \<and> blocksQuantity (sync_loop T) \<le> 0
   \<and> (i \<le> 0 \<or> (\<exists>N h. rpc_hash R i N = (h, node T)
        \<and> (h = None \<or> h = Some [] \<or> h = lastProcessedBlockHash (sync_loop T)))))"

definition raised_at_tip :: "'n rpc \<Rightarrow> ('d, 'n) tracker \<Rightarrow> ('d, 'n) tracker \<Rightarrow> bool" where
  "raised_at_tip R T T' \<longleftrightarrow> rests_at_tip R T' \<and> confirmed T' = confirmed T \<and> lastBlocks T' = lastBlocks T"

definition raises_at_tip :: "'n rpc \<Rightarrow> (('d, 'n) tracker, 'a) m \<Rightarrow> bool" where
  "raises_at_tip R f \<longleftrightarrow> (\<forall>T. \<not> synced T \<longrightarrow> synced (snd (f T)) \<longrightarrow> raised_at_tip R T (snd (f T)))"

lemma raises_falls: "falls f \<Longrightarrow> raises_at_tip R f"
  by (simp add: raises_at_tip_def stays_def)

lemma raises_bind:
  "raises_at_tip R f \<Longrightarrow> raises_at_tip R g \<Longrightarrow> raises_at_tip R (if b then f else g)"
  "(\<And>x. raises_at_tip R (f2 x)) \<Longrightarrow> raises_at_tip R (mbind (mget g2) f2)"
  "(\<And>T. \<not> synced T \<Longrightarrow> \<not> synced (h T) \<and> confirmed (h T) = confirmed T \<and> lastBlocks (h T) = lastBlocks T)
     \<Longrightarrow> raises_at_tip R f \<Longrightarrow> raises_at_tip R (mseq (mmod h) f)"
  by (simp_all add: raises_at_tip_def raised_at_tip_def)

lemma pollAtChainTip_raises:
  assumes "lastProcessedBlockIndex (sync_loop T) = blockchainInfoLastBlock T" and "\<not> synced T"
    and "synced (snd (pollAtChainTip K R fuel T))"
  shows "raised_at_tip R T (snd (pollAtChainTip K R fuel T))"
proof -
  let ?i = "lastProcessedBlockIndex (sync_loop T)"
  let ?ask = "if ?i > 0 then on_node (rpc_hash R ?i) else mret None"
  obtain h N where a: "?ask T = (Inr h, T\<lparr>node := N\<rparr>)" and h: "?i > 0 \<Longrightarrow> rpc_hash R ?i (node T) = (h, N)" "\<not> ?i > 0 \<Longrightarrow> h = None"
  proof (cases "?i > 0")
    case True
    then show ?thesis using that by (cases "rpc_hash R ?i (node T)") (simp add: on_node_def)
  next
    case False
    then show ?thesis using that [of None "node T"] by simp
  qed
  let ?T = "T\<lparr>node := N\<rparr>"
  let ?diff = "case h of None \<Rightarrow> False | Some x \<Rightarrow> x \<noteq> [] \<and> Some x \<noteq> lastProcessedBlockHash (sync_loop T)"
  have r: "pollAtChainTip K R fuel T = (if ?diff then rollBackReorg K R fuel ?T
      else if blocksQuantity (sync_loop T) > 0 then flushPendingAtTip K R ?T
      else (Inr PassDone, ?T\<lparr>synced := True, mempoolPolling := True\<rparr>))"
    using a by (simp add: pollAtChainTip_def rollBackSameHeightTipSwap_def mbind_run)
  have f: "falls (flushPendingAtTip K R)"
    unfolding flushPendingAtTip_def by (intro stays_intros falls_latches falls_steps)
  have "\<not> ?diff" using assms(2,3) falls_rollback [of K R fuel, unfolded stays_def, rule_format, of ?T] by (auto simp: r)
  moreover have "\<not> blocksQuantity (sync_loop T) > 0"
    using assms(2,3) f [unfolded stays_def, rule_format, of ?T] calculation by (auto simp: r)
  ultimately have q: "snd (pollAtChainTip K R fuel T) = ?T\<lparr>synced := True, mempoolPolling := True\<rparr>" "\<not> blocksQuantity (sync_loop T) > 0"
      and d: "h = None \<or> h = Some [] \<or> h = lastProcessedBlockHash (sync_loop T)"
    by (auto simp: r split: option.splits)
  have "?i \<le> 0 \<or> (\<exists>M g. rpc_hash R ?i M = (g, N) \<and> (g = None \<or> g = Some [] \<or> g = lastProcessedBlockHash (sync_loop T)))"
    using h(1) d by (cases "?i > 0") (blast, simp)
  then show ?thesis using q assms(1) by (simp add: raised_at_tip_def rests_at_tip_def Let_def)
qed

lemma poll_raises: "raises_at_tip R (pollSyncLoop K R P fuel)"
proof -
  have at: "raises_at_tip R (pollAtTipOrIndex K R P fuel)"
    unfolding raises_at_tip_def
  proof (intro allI impI)
    fix T assume a: "\<not> synced T" "synced (snd (pollAtTipOrIndex K R P fuel T))"
    then show "raised_at_tip R T (snd (pollAtTipOrIndex K R P fuel T))"
      using pollAtChainTip_raises [of T K R fuel] falls_index [of K R P fuel, unfolded stays_def]
      by (auto simp: pollAtTipOrIndex_def split: if_splits)
  qed
  have rec: "raises_at_tip R (reconcileRefreshedTip K R P fuel)"
    unfolding reconcileRefreshedTip_def modSync_def
    by (intro raises_bind raises_falls falls_recover at) simp_all
  have fin: "raises_at_tip R (mret PassDone)" by (intro raises_falls stays_intros)
  have "raises_at_tip R (refreshNodeTip K R P fuel)"
    unfolding raises_at_tip_def
  proof (intro allI impI)
    fix T assume a: "\<not> synced T" "synced (snd (refreshNodeTip K R P fuel T))"
    obtain i N where i: "rpc_info R (node T) = (i, N)" by (cases "rpc_info R (node T)")
    let ?rest = "\<lambda>info. case info of
         None \<Rightarrow> mret PassDone
       | Some i \<Rightarrow>
       mseq (mmod (\<lambda>T. T\<lparr>latestKnownChainTip := Some (ci_blocks i), sync_loop := (sync_loop T)\<lparr>lastBlockchainInfo := info\<rparr>\<rparr>))
       (mbind (mget regtest) (\<lambda>rt.
        if \<not> nodeTipIsParseable info rt
        then mseq (mmod (\<lambda>T. T\<lparr>synced := False, mempoolReconverged := False,
               sync_loop := (sync_loop T)\<lparr>lastBlockchainInfo := None, nodeSyncedProblem := True\<rparr>\<rparr>))
             (mret PassDone)
        else
          mseq (mmod (\<lambda>T. T\<lparr>blockchainInfoLastBlock := ci_blocks i, lastNodeRpcOkAt := rpc_now R (node T),
               sync_loop := (sync_loop T)\<lparr>nodeSyncedProblem := False, lastBlockchainInfoRefreshAt := rpc_now R (node T)\<rparr>\<rparr>))
          (reconcileRefreshedTip K R P fuel)))"
    have "raises_at_tip R (?rest i)"
      by (cases i) (auto intro!: raises_bind rec fin)
    moreover have "refreshNodeTip K R P fuel T = ?rest i (T\<lparr>node := N\<rparr>)"
      using i by (simp add: refreshNodeTip_def mbind_def on_node_def)
    ultimately show "raised_at_tip R T (snd (refreshNodeTip K R P fuel T))"
      using a by (simp add: raises_at_tip_def) (simp add: raised_at_tip_def)
  qed
  then show ?thesis unfolding pollSyncLoop_def by (intro raises_bind at)
qed

lemma stays_layout:
  "stays P f \<Longrightarrow> stays P g \<Longrightarrow> (\<And>n. stays P (h n)) \<Longrightarrow> stays P (case v of LNull \<Rightarrow> f | LNaN \<Rightarrow> g | LVersion n \<Rightarrow> h n)"
  by (cases v) simp_all

lemma boot_bounded: "boot K R pm op fr T0 = (Inr True, T) \<Longrightarrow> batch_bounded T"
proof -
  assume boot: "boot K R pm op fr T0 = (Inr True, T)"
  have count: "valid (\<lambda>_. True) (boot K R pm op fr) (\<lambda>_ T. staged_blocks (confirmed T) \<le> 0)"
  proof -
    note st = lighter_steps lighter_db light_basic lighter_window(1)
    have c: "lighter 0 (on_db (createDatabase op))"
      by (auto simp: stays_def on_db_def createDatabase_def Let_def staged_blocks_def split: prod.splits)
    have l: "lighter 0 (on_db (ensureLayoutVersion K True))"
      unfolding ensureLayoutVersion_def getLayoutVersion_def setLayoutVersion_def Let_def
      by (rule lighter_db) (intro stays_steps stays_layout light_basic)
    have h: "lighter 0 (resumeHaltFromMarker K pm)"
      unfolding resumeHaltFromMarker_def getHaltMarker_def enterHaltedState_def by (intro st stays_steps; simp)
    have w: "lighter 0 (loadUndoWindowWatermark K)"
      by (simp add: stays_def loadUndoWindowWatermark_def Let_def)
    have k: "lighter 0 (loadSyncCursor K)"
      unfolding loadSyncCursor_def by (intro st w; simp)
    have p: "lighter 0 (recoverPendingCleanup v)" "lighter 0 (newSyncLoopState R i hh)" for v i hh
      unfolding recoverPendingCleanup_def newSyncLoopState_def by (intro st; simp)+
    show ?thesis unfolding boot_def
      by (rule valid_basic(4), rule valid_pre [OF stays_valid [of "\<lambda>T. staged_blocks (confirmed T) \<le> 0"]],
          intro st c l h k p; auto simp: new_store_def staged_blocks_def)
  qed
  have "staged_blocks (confirmed T) = 0" using validD [OF count boot] by simp
  then show ?thesis using boot
    by (auto simp: boot_def mseq_Inr_iff mbind_Inr_iff newSyncLoopState_def newSync_def batch_bounded_def
        DB_TRANSACTION_BLOCKS_QUANTITY_def simp del: on_db_run' split: if_splits)
qed

text \<open>
  C13. From a boot, however many turns the loop makes and whatever the node answers, the open batch
  between two turns holds at most as many staged block records as the batch counter says, and the
  counter is never negative and below 200: no more than 199 blocks are ever left uncommitted.
\<close>

theorem batches_stay_bounded:
  assumes "boot K R pm op fr T0 = (Inr True, T)" and "loopTurns K R P fuel n T = (Inr e, T')"
  shows "int (staged_blocks (confirmed T')) \<le> blocksQuantity (sync_loop T') \<and> 0 \<le> blocksQuantity (sync_loop T')
    \<and> blocksQuantity (sync_loop T') < 200"
  using validD [OF loopTurns_bounded assms(2)] boot_bounded [OF assms(1)]
  by (simp add: batch_bounded_def DB_TRANSACTION_BLOCKS_QUANTITY_def)

text \<open>
  C21. A node that is still in initial block download and whose tip is below ours is waited for: the
  pass deletes nothing, leaves the cursor, the batch and the undo window alone, drops \<open>synced\<close> and
  publishes a wait whose start is that of the first pass that waited.
\<close>

theorem catching_up_node_is_waited_for:
  assumes "rpc_info R (node T) = (Some i, N)" and "nodeTipIsParseable (Some i) (regtest T)" and "ci_ibd i"
    and "ci_blocks i < lastProcessedBlockIndex (sync_loop T)"
    and "lastBlockchainInfo (sync_loop T) = None \<or> lastProcessedBlockIndex (sync_loop T) \<ge> blockchainInfoLastBlock T"
  shows "\<exists>T'. pollSyncLoop K R P fuel T = (Inr PassDone, T') \<and> confirmed T' = confirmed T \<and> lastBlocks T' = lastBlocks T
     \<and> blocksQuantity (sync_loop T') = blocksQuantity (sync_loop T)
     \<and> lastProcessedBlockIndex (sync_loop T') = lastProcessedBlockIndex (sync_loop T) \<and> \<not> synced T'
     \<and> nodeCatchingUp T' = Some (ci_blocks i, lastProcessedBlockIndex (sync_loop T),
         case nodeCatchingUp T of Some (_, _, c # cs) \<Rightarrow> c # cs | _ \<Rightarrow> rpc_iso R N)"
  using assms
  by (auto simp: pollSyncLoop_def refreshNodeTip_def reconcileRefreshedTip_def recoverFromTipBelowOurs_def
      waitOnCatchingUpNode_def nodeStillCatchingUp_def catchUpWaitState_def modSync_def mbind_def on_node_def mseq_def
      split: option.split list.split)

text \<open>
  C10. A pass of the loop that turns \<open>synced\<close> on, whatever its outcome, leaves the cursor at the node's
  tip with the batch counter at zero or below and the store as it was, and the node, asked for the
  hash at the cursor's height, answered with the cursor's hash, with an empty hash or not at all
  (at height 0 and below it is not asked).
\<close>

theorem synced_raised_only_at_tip:
  assumes "\<not> synced T" and "synced (snd (pollSyncLoop K R P fuel T))"
  shows "raised_at_tip R T (snd (pollSyncLoop K R P fuel T))"
  using poll_raises assms unfolding raises_at_tip_def by blast

subsection \<open>The pending-cleanup list across a restart\<close>

lemma splitOn_none: "c \<notin> set xs \<Longrightarrow> splitOn c xs = [xs]"
  by (induction xs) auto

lemma splitOn_first: "c \<notin> set xs \<Longrightarrow> splitOn c (xs @ c # ys) = xs # splitOn c ys"
  by (induction xs) auto

lemma b2h_no_quote: "CHR 0x22 \<notin> set (b2h bs)"
  using b2h_hex [of bs] by (auto simp: list_all_iff hexval_def)

lemma jsonItems_hashes:
  "hs \<noteq> [] \<Longrightarrow> \<exists>ps. splitOn (CHR 0x22) (jsonHashes_from hs @ '']'') = [] # ps \<and> jsonItems ps = Some hs"
proof (induction hs rule: jsonHashes_from.induct)
  case (2 h)
  then show ?case using splitOn_first [OF b2h_no_quote, of h "'']''"] by simp
next
  case (3 h g hs)
  then obtain ps where ps: "splitOn (CHR 0x22) (jsonHashes_from (g # hs) @ '']'') = [] # ps" "jsonItems ps = Some (g # hs)"
    by auto
  have "splitOn (CHR 0x22) (jsonHashes_from (h # g # hs) @ '']'')
      = [] # b2h h # splitOn (CHR 0x22) (CHR '','' # jsonHashes_from (g # hs) @ '']'')"
    using splitOn_first [OF b2h_no_quote, of h "CHR '','' # jsonHashes_from (g # hs) @ '']''"] by simp
  moreover have "jsonItems (b2h h # '','' # ps) = Some (h # g # hs)" using ps(2) by (cases ps) simp_all
  ultimately show ?case using ps(1) by simp
qed simp

lemma recover_recorded: "recoverPendingCleanup (Some (jsonHashes hs)) T = (Inr (), T\<lparr>pendingKMCleanup := hs\<rparr>)"
proof (cases "hs = []")
  case True
  then show ?thesis by (simp add: recoverPendingCleanup_def jsonHashes_def parseJsonHashes_def)
next
  case False
  then obtain ps where ps: "splitOn (CHR 0x22) (jsonHashes_from hs @ '']'') = [] # ps" "jsonItems ps = Some hs"
    using jsonItems_hashes by blast
  moreover from ps(2) have "ps \<noteq> []" by auto
  ultimately have "parseJsonHashes (''['' @ jsonHashes_from hs @ '']'') = Some hs"
    by (cases ps) (simp_all add: parseJsonHashes_def)
  then show ?thesis by (simp add: recoverPendingCleanup_def jsonHashes_def)
qed

definition flushed_core :: "('d, 'n) tracker \<Rightarrow> ('d, 'n) core \<times> int option" where
  "flushed_core T = (core T, lastCommittedHeight T)"

lemma keeps_flushed_core: "keeps flushed_core (on_mempool f)"
  by (auto simp: keeps_def on_mempool_def flushed_core_def core_def split: prod.split)

context leveldb
begin

lemma commit_outcome:
  assumes run: "commitWithMempoolCleanup K n T = (r, T')" and ok: "staged_ok (confirmed T)"
  shows "pendingKMCleanup T' = pendingKMCleanup T
    \<and> (r \<noteq> Inr () \<and> kv_get K (db (confirmed T')) = kv_get K (db (confirmed T)) \<and> lastCommittedHeight T' = lastCommittedHeight T
       \<or> kv_get K (db (confirmed T')) = view K (confirmed T) \<and> lastCommittedHeight T' = Some n)"
proof -
  let ?ids = "pendingMempoolTxCleanup (sync_loop T)"
  let ?rest = "mwhen (length ?ids > 0)
       (mseq (on_mempool beginTransaction)
       (mseq (mfor ?ids (\<lambda>txid. on_mempool
           (mseq (deleteOutputsByHint K txid)
           (mseq (deleteInputsByHint K txid)
           (mseq (deleteTransaction K txid) (mret ()))))))
       (mseq (on_mempool (endTransaction K True))
       (mmod (\<lambda>T. T\<lparr>mempoolEpoch := mempoolEpoch T + 1,
          sync_loop := (sync_loop T)\<lparr>pendingMempoolTxCleanup := []\<rparr>\<rparr>)))))"
  have k: "keeps flushed_core ?rest"
    by (intro keeps_intros keeps_flushed_core) (simp_all add: flushed_core_def core_def)
  obtain e s where e: "endTransaction K True (confirmed T) = (e, s)" by (cases "endTransaction K True (confirmed T)")
  show ?thesis
  proof (cases e)
    case (Inl x)
    then show ?thesis using run e commit_fails [of "confirmed T" x s] by (auto simp: commitWithMempoolCleanup_def)
  next
    case (Inr u)
    let ?T1 = "T\<lparr>confirmed := s, lastCommittedHeight := Some n\<rparr>"
    have "?rest ?T1 = (r, T')" using run e Inr by (simp add: commitWithMempoolCleanup_def)
    then have "flushed_core T' = flushed_core ?T1" by (rule keepsD [OF k])
    moreover have "kv_get K (db s) = view K (confirmed T)" using commit_view(1) [OF ok] e Inr by simp
    ultimately show ?thesis by (auto simp: flushed_core_def core_def)
  qed
qed

lemma cleanup_outcome:
  assumes len: "\<forall>a \<in> set (pendingKMCleanup T). length a = 32" and ne: "pendingKMCleanup T \<noteq> []"
    and run: "cleanupAgedBlocks K T = (r, T')"
  shows "lastCommittedHeight T' = lastCommittedHeight T
    \<and> (r \<noteq> Inr () \<and> kv_get K (db (confirmed T')) = kv_get K (db (confirmed T))
       \<or> r = Inr () \<and> kv_get K (db (confirmed T')) P_PENDING_CLEANUP_KEY = None \<and> pendingKMCleanup T' = [])"
proof -
  let ?as = "toClean (lastBlocks T) {} (pendingKMCleanup T)"
  let ?s0 = "(confirmed T)\<lparr>transactionArray := Some [], deletedTransactionArray := Some []\<rparr>"
  let ?T0 = "T\<lparr>confirmed := ?s0\<rparr>"
  have "no_puts ?s0" by (simp add: no_puts_def staged_def)
  then obtain s1 where s1: "mfor ?as (\<lambda>a. on_db (pruneAgedBlockRecords K a)) ?T0 = (Inr (), ?T0\<lparr>confirmed := s1\<rparr>)"
      "pruned (set ?as) ?s0 s1"
    using pruneAll_run [of ?T0 ?as] len toClean_sub [of "lastBlocks T" "{}" "pendingKMCleanup T"] by auto
  let ?s2 = "stage (Del P_PENDING_CLEANUP_KEY None) s1"
  have o: "open_batch s1" "staged_ok s1" "db s1 = db (confirmed T)" using s1(2) by (simp_all add: pruned_def)
  have st: "mfor ?as (\<lambda>a. on_db (pruneAgedBlockRecords K a)) ?T0 = (Inr (), T\<lparr>confirmed := s1\<rparr>)" using s1(1) by simp
  obtain e s3 where e: "endTransaction K True ?s2 = (e, s3)" by (cases "endTransaction K True ?s2")
  show ?thesis
  proof (cases e)
    case (Inl x)
    then show ?thesis using run ne o st e commit_fails(2) [of ?s2 x s3] by (auto simp: cleanupAgedBlocks_def mseq_run on_db_def)
  next
    case (Inr u)
    then have "endTransaction K True ?s2 = (Inr (), s3)" using e by simp
    then have "kv_get K (db s3) = view K ?s2" by (rule commit_view(1) [rotated]) (simp add: o)
    then have "kv_get K (db s3) P_PENDING_CLEANUP_KEY = None" using o by (simp add: view_stage apply_item_def)
    then show ?thesis using run ne o st e Inr by (auto simp: cleanupAgedBlocks_def mseq_run on_db_def)
  qed
qed

lemma flush_outcome:
  assumes op: "open_batch (confirmed T)" "staged_ok (confirmed T)"
    and pending: "pendingKMCleanup T \<noteq> []" "\<forall>a \<in> set (pendingKMCleanup T). length a = 32"
    and run: "flushBatch K h n T = (r, T')"
  shows "r \<noteq> Inr () \<and> kv_get K (db (confirmed T')) = kv_get K (db (confirmed T)) \<and> lastCommittedHeight T' = lastCommittedHeight T
    \<or> r \<noteq> Inr () \<and> lastCommittedHeight T' = Some n
        \<and> kv_get K (db (confirmed T')) = (view K (confirmed T))(PREFIX_LAST_BLOCK_HEIGHT \<mapsto> utf8 (hexint n),
            PREFIX_LAST_BLOCK_HASH \<mapsto> utf8 (b2h h), P_PENDING_CLEANUP_KEY \<mapsto> jsonHashes (pendingKMCleanup T))
    \<or> r = Inr () \<and> lastCommittedHeight T' = Some n
        \<and> kv_get K (db (confirmed T')) P_PENDING_CLEANUP_KEY = None \<and> pendingKMCleanup T' = []"
proof -
  let ?its = "[Put PREFIX_LAST_BLOCK_HEIGHT (utf8 (hexint n)), Put PREFIX_LAST_BLOCK_HASH (utf8 (b2h h)),
     Put P_PENDING_CLEANUP_KEY (jsonHashes (pendingKMCleanup T))]"
  let ?T1 = "T\<lparr>confirmed := fold stage ?its (confirmed T)\<rparr>"
  have f: "mseq (commitWithMempoolCleanup K n) (cleanupAgedBlocks K) ?T1 = (r, T')"
    using run op pending by (simp add: flushBatch_def setLastBlockHeight_def setLastBlockHash_def)
  have v: "view K (fold stage ?its (confirmed T)) = (view K (confirmed T))(PREFIX_LAST_BLOCK_HEIGHT \<mapsto> utf8 (hexint n),
      PREFIX_LAST_BLOCK_HASH \<mapsto> utf8 (b2h h), P_PENDING_CLEANUP_KEY \<mapsto> jsonHashes (pendingKMCleanup T))"
    using op(1) by (simp add: view_stage apply_item_def)
  have ok: "staged_ok (confirmed ?T1)" using op(2) by simp
  obtain c T2 where c: "commitWithMempoolCleanup K n ?T1 = (c, T2)" by (cases "commitWithMempoolCleanup K n ?T1")
  note co = commit_outcome [OF c ok]
  show ?thesis
  proof (cases c)
    case (Inl x)
    then show ?thesis using f c co v by (auto simp: mseq_run)
  next
    case (Inr u)
    then have a: "cleanupAgedBlocks K T2 = (r, T')" using f c by (simp add: mseq_run)
    have p2: "pendingKMCleanup T2 = pendingKMCleanup T" using co by simp
    show ?thesis using cleanup_outcome [OF _ _ a] pending p2 co Inr v by auto
  qed
qed

text \<open>A boot that gets as far as its cursor on such contents is given the cursor and the list back.\<close>

lemma boot_reads_flush:
  fixes B :: "('d, 'n) tracker"
  assumes c: "kv_get K (db (confirmed B)) = m(PREFIX_LAST_BLOCK_HEIGHT \<mapsto> utf8 (hexint n), PREFIX_LAST_BLOCK_HASH \<mapsto> utf8 (b2h h),
      P_PENDING_CLEANUP_KEY \<mapsto> jsonHashes hs)"
    and run: "loadSyncCursor K B = (Inr (i, hash, p, report), B1)"
  shows "i = n \<and> hash = Some h \<and> recoverPendingCleanup p B1 = (Inr (), B1\<lparr>pendingKMCleanup := hs\<rparr>)"
proof -
  have g: "kv_get K (db (confirmed B)) PREFIX_LAST_BLOCK_HEIGHT = Some (utf8 (hexint n))"
    "kv_get K (db (confirmed B)) PREFIX_LAST_BLOCK_HASH = Some (utf8 (b2h h))"
    "kv_get K (db (confirmed B)) P_PENDING_CLEANUP_KEY = Some (jsonHashes hs)"
    using c by (simp_all add: meta_defs)
  have r: "keeps (\<lambda>T. db (confirmed T)) (reloadLastBlocks K :: (('d, 'n) tracker, unit) m)"
  proof -
    have w: "keeps db (withHeight K xs)" for xs
      by (induction xs) (auto intro!: keeps_intros simp: getBlock_def dbGet_def)
    then have k: "keeps db (loadLastBlocksSortedByHeight K)"
      unfolding loadLastBlocksSortedByHeight_def getLastStoredBlocks_def dbIter_def by (intro keeps_intros)
    have "keeps (\<lambda>T. db (confirmed T)) (on_db (loadLastBlocksSortedByHeight K) :: (('d, 'n) tracker, bytes list) m)"
      unfolding keeps_def on_db_def using keepsD [OF k] by (auto split: prod.split)
    then show ?thesis unfolding reloadLastBlocks_def by (rule keeps_mbind) (intro keeps_intros, simp)
  qed
  obtain u B2 where b2: "reloadLastBlocks K B = (Inr u, B2)"
    using run by (cases "reloadLastBlocks K B") (auto simp: loadSyncCursor_def on_db_def getLastBlockHeight_def getLastBlockHash_def dbGet_def
        mbind_def mseq_def g split: sum.splits prod.splits option.splits)
  have d2: "db (confirmed B2) = db (confirmed B)" using keepsD [OF r b2] .
  have "i = n \<and> hash = Some h \<and> p = Some (jsonHashes hs)"
    using run b2 g d2 by (auto simp: loadSyncCursor_def loadUndoWindowWatermark_def on_db_def getLastBlockHeight_def
        getLastBlockHash_def dbGet_def mbind_def mseq_def Let_def parseInt16_hexint)
  then show ?thesis by (simp add: recover_recorded)
qed

end

text \<open>
  C26. A flush that has blocks to age out either fails before its commit, with the contents and the
  committed height as they were; or it fails, or the process dies, behind the commit and before the
  cleanup's own commit: then every later boot on these contents that loads its cursor resumes at
  the flushed block and gets the whole list of aged-out blocks back, in order, so none is left
  uncleaned; or it completes, and the record and the list are gone. A crash between the two commits
  leaves the contents of the second case, since nothing else is written in between.
\<close>

theorem pending_cleanup_survives_crash:
  assumes "leveldb K" and "open_batch (confirmed T)" and "staged_ok (confirmed T)"
    and "pendingKMCleanup T \<noteq> []" and "\<forall>a \<in> set (pendingKMCleanup T). length a = 32"
    and "flushBatch K h n T = (r, T')"
  shows "(r \<noteq> Inr () \<and> kv_get K (db (confirmed T')) = kv_get K (db (confirmed T)) \<and> lastCommittedHeight T' = lastCommittedHeight T)
    \<or> (r \<noteq> Inr () \<and> lastCommittedHeight T' = Some n
        \<and> kv_get K (db (confirmed T')) P_PENDING_CLEANUP_KEY = Some (jsonHashes (pendingKMCleanup T))
        \<and> (\<forall>B B1 :: ('d, 'n) tracker. \<forall>i hash p report. kv_get K (db (confirmed B)) = kv_get K (db (confirmed T'))
             \<and> loadSyncCursor K B = (Inr (i, hash, p, report), B1)
             \<longrightarrow> i = n \<and> hash = Some h \<and> recoverPendingCleanup p B1 = (Inr (), B1\<lparr>pendingKMCleanup := pendingKMCleanup T\<rparr>)))
    \<or> (r = Inr () \<and> lastCommittedHeight T' = Some n
        \<and> kv_get K (db (confirmed T')) P_PENDING_CLEANUP_KEY = None \<and> pendingKMCleanup T' = [])"
proof -
  let ?m = "(view K (confirmed T))(PREFIX_LAST_BLOCK_HEIGHT \<mapsto> utf8 (hexint n), PREFIX_LAST_BLOCK_HASH \<mapsto> utf8 (b2h h),
     P_PENDING_CLEANUP_KEY \<mapsto> jsonHashes (pendingKMCleanup T))"
  have boot: "i = n \<and> hash = Some h \<and> recoverPendingCleanup p B1 = (Inr (), B1\<lparr>pendingKMCleanup := pendingKMCleanup T\<rparr>)"
    if "kv_get K (db (confirmed T')) = ?m" "kv_get K (db (confirmed B)) = kv_get K (db (confirmed T'))"
      "loadSyncCursor K B = (Inr (i, hash, p, report), B1)" for B B1 :: "('d, 'n) tracker" and i hash p report
    by (rule leveldb.boot_reads_flush [OF assms(1) trans [OF that(2,1)] that(3)])
  show ?thesis
    using leveldb.flush_outcome [OF assms]
  proof (elim disjE conjE)
    assume "r \<noteq> Inr ()" "lastCommittedHeight T' = Some n" and m: "kv_get K (db (confirmed T')) = ?m"
    then show ?thesis
      by - (rule disjI2, rule disjI1, intro conjI, assumption, assumption, simp add: m, use boot [OF m] in blast)
  qed simp_all
qed

subsection \<open>Examples\<close>

definition ex_params :: params where
  "ex_params = \<lparr>pr_sha = ex_sha, pr_decode = \<lambda>_. Inl TypeError, pr_maxRetries = 20\<rparr>"

definition ex_at_tip :: "(ref_db, unit) tracker" where
  "ex_at_tip = ex_indexed\<lparr>sync_loop := newSync 1 (Some ex_hash)\<rparr>"

theorem synced_raised_only_at_tip_witness:
  "raised_at_tip ex_rpc ex_at_tip (snd (pollSyncLoop ref_kv ex_rpc ex_params 9 ex_at_tip))"
proof (rule synced_raised_only_at_tip)
  show "\<not> synced ex_at_tip" by (simp add: ex_at_tip_def ex_indexed_def ex_tracker_def)
  show "synced (snd (pollSyncLoop ref_kv ex_rpc ex_params 9 ex_at_tip))"
    by (simp add: pollSyncLoop_def refreshNodeTip_def reconcileRefreshedTip_def pollAtTipOrIndex_def pollAtChainTip_def
        modSync_def mbind_def on_node_def mseq_def ex_at_tip_def ex_indexed_def ex_tracker_def newSync_def ex_rpc_def
        nodeTipIsParseable_def)
qed

definition ex_catching_rpc :: "unit rpc" where
  "ex_catching_rpc = ex_rpc\<lparr>rpc_info := \<lambda>N. (Some \<lparr>ci_blocks = 0, ci_progress = None, ci_ibd = True, ci_best = None\<rparr>, N)\<rparr>"

theorem catching_up_node_is_waited_for_witness:
  "\<exists>T'. pollSyncLoop ref_kv ex_catching_rpc ex_params 9 ex_at_tip = (Inr PassDone, T')
     \<and> confirmed T' = confirmed ex_at_tip \<and> nodeCatchingUp T' = Some (0, 1, [])"
  using catching_up_node_is_waited_for [of ex_catching_rpc ex_at_tip
      "\<lparr>ci_blocks = 0, ci_progress = None, ci_ibd = True, ci_best = None\<rparr>" "()" ref_kv ex_params 9]
  by (fastforce simp: ex_catching_rpc_def ex_rpc_def ex_at_tip_def newSync_def ex_indexed_def ex_tracker_def nodeTipIsParseable_def)

definition ex_dead_rpc :: "unit rpc" where
  "ex_dead_rpc = ex_rpc\<lparr>rpc_info := \<lambda>N. (None, N)\<rparr>"

definition ex_empty :: ref_db where "ex_empty = \<lparr>ref_entries = [], ref_left = 9\<rparr>"

lemma ex_range: "\<not> in_range (range_of [P_STORED_BLK]) PREFIX_LAYOUT_VERSION"
  using in_range_of_prefix [of "[P_STORED_BLK]" PREFIX_LAYOUT_VERSION]
  by (auto simp: PREFIX_LAYOUT_VERSION_def utf8_def P_STORED_BLK_def)

lemma ex_boot: "\<exists>T. boot ref_kv ex_dead_rpc (\<lambda>_. None) (True, ex_empty) ex_empty ex_tracker = (Inr True, T)
    \<and> keepParsing T \<and> lastBlockchainInfo (sync_loop T) = None"
  by (simp add: boot_def new_store_def createDatabase_def on_mempool_def ensureLayoutVersion_def getLayoutVersion_def
      setLayoutVersion_def dbWrite_def dbGet_def dbIter_def ref_kv_def ref_get_def ref_iter_def ref_batch_def ex_empty_def
      resumeHaltFromMarker_def getHaltMarker_def loadSyncCursor_def getLastBlockHeight_def getLastBlockHash_def
      reloadLastBlocks_def loadLastBlocksSortedByHeight_def getLastStoredBlocks_def loadUndoWindowWatermark_def
      recoverPendingCleanup_def newSyncLoopState_def newSync_def mcatch_def mbind_def on_db_def mseq_def Let_def no_limit_def ex_range
      newSyncLoopState_def)

theorem batches_stay_bounded_witness:
  "\<exists>T T'. boot ref_kv ex_dead_rpc (\<lambda>_. None) (True, ex_empty) ex_empty ex_tracker = (Inr True, T)
     \<and> loopTurns ref_kv ex_dead_rpc ex_params 9 1 T = (Inr PassDone, T')
     \<and> 0 \<le> blocksQuantity (sync_loop T') \<and> blocksQuantity (sync_loop T') < 200"
proof -
  obtain T where T: "boot ref_kv ex_dead_rpc (\<lambda>_. None) (True, ex_empty) ex_empty ex_tracker = (Inr True, T)"
      "keepParsing T" "lastBlockchainInfo (sync_loop T) = None" using ex_boot by blast
  then have "loopTurns ref_kv ex_dead_rpc ex_params 9 1 T = (Inr PassDone, T)"
    by (simp add: loopTurn_def pollSyncLoop_def refreshNodeTip_def mbind_def on_node_def ex_dead_rpc_def ex_rpc_def)
  with T(1) show ?thesis using batches_stay_bounded [OF T(1), of ex_params 9 1 PassDone T] by auto
qed

text \<open>A flush whose database accepts the block commit and refuses the cleanup's.\<close>

definition ex_aging :: "(ref_db, unit) tracker" where
  "ex_aging = ex_tracker\<lparr>confirmed := new_store resetCaches \<lparr>ref_entries = [], ref_left = 1\<rparr>,
     pendingKMCleanup := [replicate 32 7], lastBlocks := [], sync_loop := newSync 0 None, lastCommittedHeight := None\<rparr>"

lemma ex_aging_run: "\<exists>T'. flushBatch ref_kv ex_hash 1 ex_aging = (Inl BatchInsertFailed, T') \<and> lastCommittedHeight T' = Some 1"
proof -
  let ?its = "[Put PREFIX_LAST_BLOCK_HEIGHT (utf8 (hexint 1)), Put PREFIX_LAST_BLOCK_HASH (utf8 (b2h ex_hash)),
     Put P_PENDING_CLEANUP_KEY (jsonHashes [replicate 32 7])]"
  have o: "open_batch (confirmed ex_aging)" by (simp add: ex_aging_def new_store_def open_batch_def)
  define s where "s = snd (endTransaction ref_kv True (fold stage ?its (confirmed ex_aging)))"
  have s: "endTransaction ref_kv True (fold stage ?its (confirmed ex_aging)) = (Inr (), s)" "ref_left (db s) = 0"
    by (simp_all add: s_def ex_aging_def new_store_def endTransaction_def stage_def ref_batch_def)
  let ?C = "ex_aging\<lparr>confirmed := s, lastCommittedHeight := Some 1\<rparr>"
  let ?T0 = "?C\<lparr>confirmed := s\<lparr>transactionArray := Some [], deletedTransactionArray := Some []\<rparr>\<rparr>"
  have f: "flushBatch ref_kv ex_hash 1 ex_aging = cleanupAgedBlocks ref_kv ?C"
    using o s(1)
    by (simp add: flushBatch_def setLastBlockHeight_def setLastBlockHash_def commitWithMempoolCleanup_def mseq_run on_db_def)
      (simp add: ex_aging_def newSync_def)
  have "no_puts (confirmed ?T0)" by (simp add: no_puts_def staged_def)
  moreover define as :: "bytes list" where "as = [replicate 32 7]"
  ultimately obtain s1 where s1: "mfor as (\<lambda>a. on_db (pruneAgedBlockRecords ref_kv a)) ?T0 = (Inr (), ?T0\<lparr>confirmed := s1\<rparr>)"
      "pruned (set as) (confirmed ?T0) s1"
    using ref.pruneAll_run [of ?T0 as] by auto
  have as: "toClean (lastBlocks ex_aging) {} (pendingKMCleanup ex_aging) = as" "pendingKMCleanup ex_aging \<noteq> []"
    by (simp_all add: as_def ex_aging_def)
  have o1: "open_batch s1" "ref_left (db s1) = 0" using s1(2) s(2) by (simp_all add: pruned_def)
  then have "\<exists>s3. endTransaction ref_kv True (stage (Del P_PENDING_CLEANUP_KEY None) s1) = (Inl BatchInsertFailed, s3)"
    by (auto simp: endTransaction_def ref_batch_def open_batch_def stage_def)
  then show ?thesis using f o1(1) s1(1) as by (auto simp: cleanupAgedBlocks_def mseq_run on_db_def)
qed

theorem pending_cleanup_survives_crash_witness:
  "\<exists>T'. flushBatch ref_kv ex_hash 1 ex_aging = (Inl BatchInsertFailed, T')
     \<and> kv_get ref_kv (db (confirmed T')) P_PENDING_CLEANUP_KEY = Some (jsonHashes [replicate 32 7])"
proof -
  obtain T' where run: "flushBatch ref_kv ex_hash 1 ex_aging = (Inl BatchInsertFailed, T')" "lastCommittedHeight T' = Some 1"
    using ex_aging_run by blast
  have T: "open_batch (confirmed ex_aging)" "staged_ok (confirmed ex_aging)" "pendingKMCleanup ex_aging = [replicate 32 7]"
    "lastCommittedHeight ex_aging = None"
    by (simp_all add: ex_aging_def new_store_def open_batch_def staged_ok_def)
  have "kv_get ref_kv (db (confirmed T')) P_PENDING_CLEANUP_KEY = Some (jsonHashes (pendingKMCleanup ex_aging))"
    using pending_cleanup_survives_crash [OF leveldb_ref_kv T(1,2) _ _ run(1)] run(2) T(3,4) by auto
  with run(1) T(3) show ?thesis by simp
qed

end
