(* ===== verification/CommitLock.thy ===== *)
theory CommitLock
  imports Prelude
begin

text \<open>
  The store-commit lock of \<^verbatim>\<open>src/XChainUtxoTracker/store_commit_lock.js\<close> as a step relation. A call
  of \<open>withStoreRead\<close> or \<open>withStoreCommit\<close> is a task; a step is what one task runs between two awaits
  of the single JavaScript thread, so a task that was woken tests its loop condition again in a
  step of its own. A read or commit that throws leaves the lock as one that returns does.
\<close>

subsection \<open>The lock and its tasks\<close>

datatype task =
    RStart | RWaiting | Reading | RDone
  | WStart | WWaiting | WDrainTest | WDraining | Committing | WDone

record lock =
  readers :: nat
  writing :: bool
  tasks :: "task list"

definition new_lock :: lock where
  "new_lock = \<lparr>readers = 0, writing = False, tasks = []\<rparr>"

text \<open>\<open>wakeLockWaiters\<close>: every waiter runs again and tests its condition.\<close>

fun woken :: "task \<Rightarrow> task" where
  "woken RWaiting = RStart"
| "woken WWaiting = WStart"
| "woken WDraining = WDrainTest"
| "woken t = t"

definition wakeLockWaiters :: "lock \<Rightarrow> lock" where
  "wakeLockWaiters l = l\<lparr>tasks := map woken (tasks l)\<rparr>"

definition set_task :: "nat \<Rightarrow> task \<Rightarrow> lock \<Rightarrow> lock" where
  "set_task i t l = l\<lparr>tasks := (tasks l)[i := t]\<rparr>"

text \<open>\<open>withStoreRead\<close>, in the steps between its awaits.\<close>

inductive read_step :: "nat \<Rightarrow> lock \<Rightarrow> lock \<Rightarrow> bool" where
  read_enter: "i < length (tasks l) \<Longrightarrow> tasks l ! i = RStart \<Longrightarrow> \<not> writing l
    \<Longrightarrow> read_step i l ((set_task i Reading l)\<lparr>readers := readers l + 1\<rparr>)"
| read_wait: "i < length (tasks l) \<Longrightarrow> tasks l ! i = RStart \<Longrightarrow> writing l \<Longrightarrow> read_step i l (set_task i RWaiting l)"
| read_leave: "i < length (tasks l) \<Longrightarrow> tasks l ! i = Reading
    \<Longrightarrow> l' = (set_task i RDone l)\<lparr>readers := readers l - 1\<rparr>
    \<Longrightarrow> read_step i l (if readers l' = 0 then wakeLockWaiters l' else l')"

text \<open>\<open>withStoreCommit\<close>: claiming the lock and the first test of the readers are one step.\<close>

inductive commit_step :: "nat \<Rightarrow> lock \<Rightarrow> lock \<Rightarrow> bool" where
  commit_claim: "i < length (tasks l) \<Longrightarrow> tasks l ! i = WStart \<Longrightarrow> \<not> writing l
    \<Longrightarrow> commit_step i l ((set_task i (if readers l > 0 then WDraining else Committing) l)\<lparr>writing := True\<rparr>)"
| commit_wait: "i < length (tasks l) \<Longrightarrow> tasks l ! i = WStart \<Longrightarrow> writing l \<Longrightarrow> commit_step i l (set_task i WWaiting l)"
| commit_test: "i < length (tasks l) \<Longrightarrow> tasks l ! i = WDrainTest
    \<Longrightarrow> commit_step i l (set_task i (if readers l > 0 then WDraining else Committing) l)"
| commit_leave: "i < length (tasks l) \<Longrightarrow> tasks l ! i = Committing
    \<Longrightarrow> commit_step i l (wakeLockWaiters ((set_task i WDone l)\<lparr>writing := False\<rparr>))"

definition lock_step :: "lock \<Rightarrow> lock \<Rightarrow> bool" where
  "lock_step l l' \<longleftrightarrow> (\<exists>i. read_step i l l' \<or> commit_step i l l')"

text \<open>New calls may arrive at any time.\<close>

inductive arrive :: "lock \<Rightarrow> lock \<Rightarrow> bool" where
  arrive_read: "arrive l (l\<lparr>tasks := tasks l @ [RStart]\<rparr>)"
| arrive_commit: "arrive l (l\<lparr>tasks := tasks l @ [WStart]\<rparr>)"

inductive lock_reach :: "lock \<Rightarrow> bool" where
  reach_new: "lock_reach new_lock"
| reach_step: "lock_reach l \<Longrightarrow> lock_step l l' \<Longrightarrow> lock_reach l'"
| reach_arrive: "lock_reach l \<Longrightarrow> arrive l l' \<Longrightarrow> lock_reach l'"

subsection \<open>The invariant\<close>

definition holders :: "task set" where
  "holders = {WDrainTest, WDraining, Committing}"

definition finished :: "task \<Rightarrow> bool" where
  "finished t \<longleftrightarrow> t = RDone \<or> t = WDone"

lemma finished_simps [simp]:
  "finished RDone" "finished WDone" "\<not> finished RStart" "\<not> finished RWaiting" "\<not> finished Reading"
  "\<not> finished WStart" "\<not> finished WWaiting" "\<not> finished WDrainTest" "\<not> finished WDraining" "\<not> finished Committing"
  by (simp_all add: finished_def)

definition how_many :: "(task \<Rightarrow> bool) \<Rightarrow> task list \<Rightarrow> nat" where
  "how_many p ts = length (filter p ts)"

text \<open>
  The reader count counts the tasks reading, a claimed lock has exactly one holder, the holder
  commits only when nobody reads, and whoever waits has something to wait for.
\<close>

definition counts_ok :: "lock \<Rightarrow> bool" where
  "counts_ok l \<longleftrightarrow> readers l = how_many ((=) Reading) (tasks l)
   \<and> how_many (\<lambda>t. t \<in> holders) (tasks l) = (if writing l then 1 else 0)
   \<and> (Committing \<in> set (tasks l) \<longrightarrow> readers l = 0)"

definition waits_ok :: "lock \<Rightarrow> bool" where
  "waits_ok l \<longleftrightarrow> (RWaiting \<in> set (tasks l) \<or> WWaiting \<in> set (tasks l) \<longrightarrow> writing l)
   \<and> (WDraining \<in> set (tasks l) \<longrightarrow> readers l > 0)"

definition lock_inv :: "lock \<Rightarrow> bool" where
  "lock_inv l \<longleftrightarrow> counts_ok l \<and> waits_ok l"

lemma how_many_update:
  assumes "i < length ts"
  shows "how_many p (ts[i := t]) + (if p (ts ! i) then 1 else 0) = how_many p ts + (if p t then 1 else 0)"
proof -
  have "how_many p ts = how_many p (take i ts @ ts ! i # drop (Suc i) ts)"
    by (rule arg_cong [OF id_take_nth_drop [OF assms]])
  then have "how_many p ts = how_many p (take i ts) + (if p (ts ! i) then 1 else 0) + how_many p (drop (Suc i) ts)"
    by (simp add: how_many_def)
  moreover have "how_many p (ts[i := t]) = how_many p (take i ts) + (if p t then 1 else 0) + how_many p (drop (Suc i) ts)"
    using assms by (simp add: upd_conv_take_nth_drop how_many_def)
  ultimately show ?thesis by simp
qed

lemma how_many_0: "how_many p ts = 0 \<longleftrightarrow> (\<forall>t \<in> set ts. \<not> p t)"
  by (simp add: how_many_def filter_empty_conv)

lemma how_many_snoc: "how_many p (ts @ [t]) = how_many p ts + (if p t then 1 else 0)"
  by (simp add: how_many_def)

lemma how_many_woken: "(\<And>t. p (woken t) = p t) \<Longrightarrow> how_many p (map woken ts) = how_many p ts"
  by (induction ts) (simp_all add: how_many_def)

lemma woken_cases:
  "(Reading = woken t) = (Reading = t)" "(woken t \<in> holders) = (t \<in> holders)" "(woken t = Committing) = (t = Committing)"
  "woken t \<noteq> RWaiting" "woken t \<noteq> WWaiting" "woken t \<noteq> WDraining" "finished (woken t) = finished t"
  by (cases t; simp add: holders_def finished_def)+

lemma wake_inv: "counts_ok l \<Longrightarrow> lock_inv (wakeLockWaiters l)"
  using woken_cases
  by (auto simp: lock_inv_def counts_ok_def waits_ok_def wakeLockWaiters_def how_many_woken image_iff) metis+

lemma set_update_new: "x \<noteq> t \<Longrightarrow> x \<in> set (ts[i := t]) \<Longrightarrow> x \<in> set ts"
  using set_update_subset_insert [of ts i t] by auto

text \<open>What one task's change does to the counts.\<close>

lemma counts_set:
  assumes i: "i < length (tasks l)" and x: "tasks l ! i = x"
  shows "how_many ((=) Reading) (tasks (set_task i t l)) + (if x = Reading then 1 else 0)
      = how_many ((=) Reading) (tasks l) + (if t = Reading then 1 else 0)"
    and "how_many (\<lambda>t. t \<in> holders) (tasks (set_task i t l)) + (if x \<in> holders then 1 else 0)
      = how_many (\<lambda>t. t \<in> holders) (tasks l) + (if t \<in> holders then 1 else 0)"
  using how_many_update [OF i, of "(=) Reading" t] how_many_update [OF i, of "\<lambda>t. t \<in> holders" t] x
  by (auto simp: set_task_def)

lemma set_task_fields [simp]: "readers (set_task i t l) = readers l" "writing (set_task i t l) = writing l"
  by (simp_all add: set_task_def)

lemma set_task_members: "x \<noteq> t \<Longrightarrow> x \<in> set (tasks (set_task i t l)) \<Longrightarrow> x \<in> set (tasks l)"
  by (auto simp: set_task_def dest: set_update_new)

lemma unclaimed: "counts_ok l \<Longrightarrow> \<not> writing l \<Longrightarrow> t \<in> holders \<Longrightarrow> t \<notin> set (tasks l)"
  by (auto simp: counts_ok_def how_many_0)

lemma inv_arrive: "lock_inv l \<Longrightarrow> arrive l l' \<Longrightarrow> lock_inv l'"
  by (auto simp: lock_inv_def counts_ok_def waits_ok_def holders_def how_many_snoc elim!: arrive.cases)

lemma inv_read:
  assumes inv: "lock_inv l" and step: "read_step i l l'"
  shows "lock_inv l'"
  using step
proof cases
  case read_enter
  have c: "counts_ok l" "waits_ok l" using inv by (simp_all add: lock_inv_def)
  have "Committing \<notin> set (tasks l)" by (rule unclaimed [OF c(1) read_enter(4)]) (simp add: holders_def)
  then show ?thesis using c read_enter counts_set [OF read_enter(2,3), of Reading]
      set_task_members [of _ Reading i l]
    by (auto simp: lock_inv_def counts_ok_def waits_ok_def holders_def)
next
  case read_wait
  have c: "counts_ok l" "waits_ok l" using inv by (simp_all add: lock_inv_def)
  then show ?thesis using read_wait counts_set [OF read_wait(2,3), of RWaiting] set_task_members [of _ RWaiting i l]
    by (auto simp: lock_inv_def counts_ok_def waits_ok_def holders_def)
next
  case (read_leave l1)
  have c: "counts_ok l" "waits_ok l" using inv by (simp_all add: lock_inv_def)
  have "Reading \<in> set (tasks l)" using read_leave(2,3) by (metis nth_mem)
  then have "how_many ((=) Reading) (tasks l) \<noteq> 0" by (auto simp: how_many_0)
  then have r: "readers l > 0" using c(1) by (simp add: counts_ok_def)
  then have k: "counts_ok l1" using c(1) read_leave counts_set [OF read_leave(2,3), of RDone] set_task_members [of _ RDone i l]
    by (auto simp: counts_ok_def holders_def)
  show ?thesis
  proof (cases "readers l1 = 0")
    case True
    then show ?thesis using read_leave(1) wake_inv [OF k] by simp
  next
    case False
    then show ?thesis using c(2) k read_leave set_task_members [of _ RDone i l]
      by (auto simp: lock_inv_def waits_ok_def)
  qed
qed

lemma inv_commit:
  assumes inv: "lock_inv l" and step: "commit_step i l l'"
  shows "lock_inv l'"
  using step
proof cases
  case commit_claim
  have c: "counts_ok l" "waits_ok l" using inv by (simp_all add: lock_inv_def)
  have n: "Committing \<notin> set (tasks l)" "WDraining \<notin> set (tasks l)"
    by (rule unclaimed [OF c(1) commit_claim(4)]; simp add: holders_def)+
  show ?thesis
    using c n commit_claim counts_set [OF commit_claim(2,3), of WDraining] counts_set [OF commit_claim(2,3), of Committing]
      set_task_members [of _ WDraining i l] set_task_members [of _ Committing i l]
    by (cases "readers l > 0") (auto simp: lock_inv_def counts_ok_def waits_ok_def holders_def)
next
  case commit_wait
  have c: "counts_ok l" "waits_ok l" using inv by (simp_all add: lock_inv_def)
  then show ?thesis using commit_wait counts_set [OF commit_wait(2,3), of WWaiting] set_task_members [of _ WWaiting i l]
    by (auto simp: lock_inv_def counts_ok_def waits_ok_def holders_def)
next
  case commit_test
  have c: "counts_ok l" "waits_ok l" using inv by (simp_all add: lock_inv_def)
  show ?thesis
    using c commit_test counts_set [OF commit_test(2,3), of WDraining] counts_set [OF commit_test(2,3), of Committing]
      set_task_members [of _ WDraining i l] set_task_members [of _ Committing i l]
    by (cases "readers l > 0") (auto simp: lock_inv_def counts_ok_def waits_ok_def holders_def)
next
  case commit_leave
  have c: "counts_ok l" using inv by (simp add: lock_inv_def)
  let ?l = "(set_task i WDone l)\<lparr>writing := False\<rparr>"
  have "Committing \<in> set (tasks l)" using commit_leave(2,3) by (metis nth_mem)
  then have w: "writing l" using unclaimed [OF c, of Committing] by (auto simp: holders_def)
  then have h: "how_many (\<lambda>t. t \<in> holders) (tasks ?l) = 0"
    using c counts_set(2) [OF commit_leave(2,3), of WDone] by (simp add: counts_ok_def holders_def)
  then have "Committing \<notin> set (tasks ?l)" by (auto simp: how_many_0 holders_def)
  then have "counts_ok ?l" using c h counts_set(1) [OF commit_leave(2,3), of WDone] by (simp add: counts_ok_def)
  then show ?thesis using commit_leave(1) wake_inv by simp
qed

lemma reach_inv: "lock_reach l \<Longrightarrow> lock_inv l"
proof (induction rule: lock_reach.induct)
  case reach_new
  then show ?case by (simp add: lock_inv_def counts_ok_def waits_ok_def new_lock_def how_many_def)
next
  case (reach_step l l')
  then show ?case by (metis inv_read inv_commit lock_step_def)
next
  case (reach_arrive l l')
  then show ?case using inv_arrive by blast
qed

text \<open>
  C8. Whatever the order in which reads and commits arrive, run and wake: while a commit runs, no
  read runs and no second commit does.
\<close>

theorem commit_excludes:
  assumes "lock_reach l" and "i < length (tasks l)" and "tasks l ! i = Committing"
    and "j < length (tasks l)" and "j \<noteq> i"
  shows "tasks l ! j \<noteq> Reading \<and> tasks l ! j \<noteq> Committing"
proof -
  have inv: "counts_ok l" using reach_inv [OF assms(1)] by (simp add: lock_inv_def)
  have "Committing \<in> set (tasks l)" using assms(2,3) by (metis nth_mem)
  then have "how_many ((=) Reading) (tasks l) = 0" using inv by (metis counts_ok_def)
  then have r: "tasks l ! j \<noteq> Reading" using assms(4) by (metis how_many_0 nth_mem)
  have "how_many (\<lambda>t. t \<in> holders) (tasks (set_task i WDone l)) = 0"
    using counts_set(2) [OF assms(2,3), of WDone] inv by (simp add: holders_def counts_ok_def split: if_splits)
  moreover have "tasks l ! j \<in> set (tasks (set_task i WDone l))"
    using assms(4,5) unfolding set_task_def by (simp, metis length_list_update nth_list_update_neq nth_mem)
  ultimately show ?thesis using r by (auto simp: how_many_0 holders_def)
qed

subsection \<open>Every call gets its turn\<close>

lemma step_possible:
  assumes inv: "lock_inv l" and t: "t \<in> set (tasks l)" and u: "\<not> finished t"
  shows "\<exists>l'. lock_step l l'"
proof -
  have able: "\<exists>l'. lock_step l l'" if xs: "x \<in> set (tasks l)" and xk: "x \<in> {RStart, Reading, WStart, WDrainTest, Committing}" for x
  proof -
    obtain i where i: "i < length (tasks l)" "tasks l ! i = x" using xs by (auto simp: in_set_conv_nth)
    have "\<exists>l'. read_step i l l' \<or> commit_step i l l'"
    proof (cases x)
      case RStart
      then show ?thesis using i read_enter [of i l] read_wait [of i l] by (cases "writing l") blast+
    next
      case Reading
      then show ?thesis using i read_leave [of i l, OF _ _ refl] by blast
    next
      case WStart
      then show ?thesis using i commit_claim [of i l] commit_wait [of i l] by (cases "writing l") blast+
    next
      case WDrainTest
      then show ?thesis using i commit_test [of i l] by blast
    next
      case Committing
      then show ?thesis using i commit_leave [of i l] by blast
    qed (use xk in simp_all)
    then show ?thesis by (metis lock_step_def)
  qed
  have drain: "\<exists>l'. lock_step l l'" if "WDraining \<in> set (tasks l)"
  proof -
    have "how_many ((=) Reading) (tasks l) \<noteq> 0" using inv that by (simp add: lock_inv_def counts_ok_def waits_ok_def)
    then have "Reading \<in> set (tasks l)" by (auto simp: how_many_0)
    then show ?thesis by (rule able) simp
  qed
  have wait: "\<exists>l'. lock_step l l'" if "writing l"
  proof -
    have "how_many (\<lambda>t. t \<in> holders) (tasks l) \<noteq> 0" using inv that by (simp add: lock_inv_def counts_ok_def)
    then obtain x where "x \<in> set (tasks l)" "x \<in> holders" by (auto simp: how_many_0)
    then show ?thesis using able [of x] drain by (auto simp: holders_def)
  qed
  show ?thesis
  proof (cases t)
    case RWaiting
    then show ?thesis using wait t inv by (simp add: lock_inv_def waits_ok_def)
  next
    case WWaiting
    then show ?thesis using wait t inv by (simp add: lock_inv_def waits_ok_def)
  next
    case WDraining
    then show ?thesis using drain t by simp
  qed (use able [OF t] u in \<open>auto simp: finished_def\<close>)
qed

text \<open>What is left to do: the calls not finished, then those about to test their condition.\<close>

definition testing :: "task \<Rightarrow> bool" where
  "testing t \<longleftrightarrow> t \<in> {RStart, WStart, WDrainTest}"

definition work_left :: "lock \<Rightarrow> nat \<times> nat" where
  "work_left l = (how_many (\<lambda>t. \<not> finished t) (tasks l), how_many testing (tasks l))"

lemma work_set:
  assumes i: "i < length (tasks l)" and x: "tasks l ! i = x"
  shows "how_many p (tasks (set_task i t l)) + (if p x then 1 else 0) = how_many p (tasks l) + (if p t then 1 else 0)"
  using how_many_update [OF i, of p t] x by (simp add: set_task_def)

lemma work_woken: "how_many (\<lambda>t. \<not> finished t) (tasks (wakeLockWaiters l)) = how_many (\<lambda>t. \<not> finished t) (tasks l)"
  by (simp add: wakeLockWaiters_def how_many_woken woken_cases)

lemma step_works: "lock_step l l' \<Longrightarrow> (work_left l', work_left l) \<in> less_than <*lex*> less_than"
proof -
  have test: "(work_left l1, work_left l) \<in> less_than <*lex*> less_than"
    if "i < length (tasks l)" "testing (tasks l ! i)" "\<not> testing t" "\<not> finished t" "tasks l1 = tasks (set_task i t l)" for i t l1
    using work_set [OF that(1) refl, of testing t] work_set [OF that(1) refl, of "\<lambda>t. \<not> finished t" t] that
    by (auto simp: work_left_def testing_def finished_def)
  have leave: "(work_left l1, work_left l) \<in> less_than <*lex*> less_than"
    if "i < length (tasks l)" "\<not> finished (tasks l ! i)" "finished t"
      "how_many (\<lambda>t. \<not> finished t) (tasks l1) = how_many (\<lambda>t. \<not> finished t) (tasks (set_task i t l))" for i t l1
    using work_set [OF that(1) refl, of "\<lambda>t. \<not> finished t" t] that by (simp add: work_left_def)
  assume "lock_step l l'"
  then obtain i where "read_step i l l' \<or> commit_step i l l'" by (auto simp: lock_step_def)
  then show ?thesis
  proof
    assume "read_step i l l'"
    then show ?thesis
    proof cases
      case (read_leave l1)
      then show ?thesis by (intro leave [of i RDone]) (simp_all add: work_woken)
    next
      case read_enter
      then show ?thesis by (intro test [of i Reading]) (simp_all add: testing_def)
    next
      case read_wait
      then show ?thesis by (intro test [of i RWaiting]) (simp_all add: testing_def)
    qed
  next
    assume "commit_step i l l'"
    then show ?thesis
    proof cases
      case commit_leave
      then show ?thesis by (intro leave [of i WDone]) (simp_all add: work_woken)
    next
      case commit_claim
      then show ?thesis by (intro test [of i "if readers l > 0 then WDraining else Committing"]) (simp_all add: testing_def)
    next
      case commit_test
      then show ?thesis by (intro test [of i "if readers l > 0 then WDraining else Committing"]) (simp_all add: testing_def)
    next
      case commit_wait
      then show ?thesis by (intro test [of i WWaiting]) (simp_all add: testing_def)
    qed
  qed
qed

text \<open>
  C19. Once no new calls arrive, every schedule of the lock is finite and ends with every read and
  every commit done: there is no deadlock, no lost wake-up and no starved commit.
\<close>

theorem lock_drains:
  assumes "lock_reach l"
  shows "wf {(b, a). lock_step a b} \<and> (\<forall>l'. lock_step\<^sup>*\<^sup>* l l' \<and> (\<forall>l''. \<not> lock_step l' l'')
     \<longrightarrow> (\<forall>t \<in> set (tasks l'). finished t))"
proof
  have "{(b, a). lock_step a b} \<subseteq> inv_image (less_than <*lex*> less_than) work_left"
    using step_works by (auto simp: inv_image_def)
  then show "wf {(b, a). lock_step a b}" by (rule wf_subset [rotated]) (intro wf_inv_image wf_lex_prod wf_less_than)
  show "\<forall>l'. lock_step\<^sup>*\<^sup>* l l' \<and> (\<forall>l''. \<not> lock_step l' l'') \<longrightarrow> (\<forall>t \<in> set (tasks l'). finished t)"
  proof (intro allI impI ballI)
    fix l' t assume a: "lock_step\<^sup>*\<^sup>* l l' \<and> (\<forall>l''. \<not> lock_step l' l'')" and t: "t \<in> set (tasks l')"
    from a have "lock_step\<^sup>*\<^sup>* l l'" by blast
    then have "lock_reach l'"
      by (induction rule: rtranclp_induct) (use assms reach_step in blast)+
    then show "finished t" using a t step_possible [OF reach_inv] by blast
  qed
qed

text \<open>A commit that claims the lock while a read runs, and runs once the read is done.\<close>

lemma ex_busy: "lock_reach \<lparr>readers = 1, writing = True, tasks = [Reading, WDraining]\<rparr>"
proof -
  let ?l1 = "\<lparr>readers = 0, writing = False, tasks = [RStart]\<rparr>"
  let ?l2 = "\<lparr>readers = 0, writing = False, tasks = [RStart, WStart]\<rparr>"
  let ?l3 = "\<lparr>readers = 1, writing = False, tasks = [Reading, WStart]\<rparr>"
  have "lock_reach ?l1" using reach_arrive [OF reach_new arrive_read] by (simp add: new_lock_def)
  then have "lock_reach ?l2" using reach_arrive [OF _ arrive_commit, of ?l1] by simp
  moreover have "read_step 0 ?l2 ?l3" using read_enter [of 0 ?l2] by (simp add: set_task_def)
  ultimately have "lock_reach ?l3" using reach_step by (auto simp: lock_step_def)
  moreover have "commit_step 1 ?l3 \<lparr>readers = 1, writing = True, tasks = [Reading, WDraining]\<rparr>"
    using commit_claim [of 1 ?l3] by (simp add: set_task_def)
  ultimately show ?thesis using reach_step by (auto simp: lock_step_def)
qed

lemma ex_committing: "lock_reach \<lparr>readers = 0, writing = True, tasks = [RDone, Committing]\<rparr>"
proof -
  let ?l1 = "\<lparr>readers = 1, writing = True, tasks = [Reading, WDraining]\<rparr>"
  let ?l2 = "\<lparr>readers = 0, writing = True, tasks = [RDone, WDrainTest]\<rparr>"
  have "read_step 0 ?l1 ?l2"
    using read_leave [of 0 ?l1, OF _ _ refl] by (simp add: set_task_def wakeLockWaiters_def)
  then have "lock_reach ?l2" using ex_busy reach_step by (auto simp: lock_step_def)
  moreover have "commit_step 1 ?l2 \<lparr>readers = 0, writing = True, tasks = [RDone, Committing]\<rparr>"
    using commit_test [of 1 ?l2] by (simp add: set_task_def)
  ultimately show ?thesis using reach_step by (auto simp: lock_step_def)
qed

theorem commit_excludes_witness:
  "let l = \<lparr>readers = 0, writing = True, tasks = [RDone, Committing]\<rparr>
   in lock_reach l \<and> tasks l ! 1 = Committing \<and> tasks l ! 0 \<noteq> Reading \<and> tasks l ! 0 \<noteq> Committing"
  using commit_excludes [OF ex_committing, of 1 0] ex_committing by simp

theorem lock_drains_witness:
  "wf {(b, a). lock_step a b} \<and> lock_reach \<lparr>readers = 1, writing = True, tasks = [Reading, WDraining]\<rparr>"
  using lock_drains [OF ex_busy] ex_busy by blast

end
