(* ===== verification/Partial.thy ===== *)
theory Partial
  imports Prelude
begin

text \<open>
  Computations on a state that may throw and may also not return: where a loop of the source has no
  bound of its own it is a \<open>partial_function (option)\<close>, and \<open>None\<close> is the computation that goes round
  for ever. That such a computation returns is a theorem, stated as \<open>Some\<close>.
\<close>

type_synonym ('d, 'a) om = "'d \<Rightarrow> ((error + 'a) \<times> 'd) option"

definition ombind :: "('d, 'a) om \<Rightarrow> ('a \<Rightarrow> ('d, 'b) om) \<Rightarrow> ('d, 'b) om" where
  "ombind x f d = (case x d of
     None \<Rightarrow> None | Some (Inl e, d1) \<Rightarrow> Some (Inl e, d1) | Some (Inr a, d1) \<Rightarrow> f a d1)"

definition omlift :: "error + 'a \<Rightarrow> ('d, 'a) om" where
  "omlift r d = Some (r, d)"

text \<open>A computation that always returns, and \<open>try ... catch\<close> around one that may not.\<close>

definition omrun :: "('d, 'a) m \<Rightarrow> ('d, 'a) om" where
  "omrun x d = Some (x d)"

definition omcatch :: "('d, 'a) om \<Rightarrow> (error \<Rightarrow> ('d, 'a) om) \<Rightarrow> ('d, 'a) om" where
  "omcatch x h d = (case x d of
     None \<Rightarrow> None | Some (Inl e, d1) \<Rightarrow> h e d1 | Some (Inr a, d1) \<Rightarrow> Some (Inr a, d1))"

lemma om_run [simp]:
  "ombind (omlift (Inr a)) f = f a"
  "ombind (omrun (mret a)) f = f a"
  "ombind (omrun (mget g)) f d = f (g d) d"
  "ombind (omrun (mmod h)) f2 d = f2 () (h d)"
  "omrun (mret a) d = Some (Inr a, d)" "omrun (mmod h) d = Some (Inr (), h d)"
  "omlift r d = Some (r, d)"
  by (simp_all add: ombind_def omlift_def omrun_def fun_eq_iff)

lemma omrun_bind: "ombind (omrun x) f d = (case x d of (Inl e, d1) \<Rightarrow> Some (Inl e, d1) | (Inr a, d1) \<Rightarrow> f a d1)"
  by (simp add: ombind_def omrun_def split: prod.split)

lemma ombind_Inr_iff: "ombind x f d = Some (Inr b, d2) \<longleftrightarrow> (\<exists>a d1. x d = Some (Inr a, d1) \<and> f a d1 = Some (Inr b, d2))"
  by (auto simp: ombind_def split: option.splits prod.splits sum.splits)

lemma omrun_eq [simp]: "omrun x d = Some p \<longleftrightarrow> x d = p"
  by (simp add: omrun_def)

end
