(* ===== verification/Mempool.thy ===== *)
theory Mempool
  imports Halt Partial
begin

text \<open>
  The mempool pass of \<^verbatim>\<open>src/XChainUtxoTracker/mempool_refresh.js\<close> and the prune it runs,
  \<open>deleteAndCompareTxsNotInList\<close> of \<^verbatim>\<open>src/store/level_up_db/blocks_and_transactions.js\<close>. The npm
  package \<^verbatim>\<open>binary-search\<close> is a parameter with the law its documentation gives; txids are the
  bytes of their 64 lower-case hex digits, whose collation order is the order of the bytes. The
  decoder of a raw transaction is a parameter that gives \<open>None\<close> when it throws. A pass is one
  computation: \<open>mempoolBusy\<close> keeps every other writer of the mempool store out until it ends.
\<close>

subsection \<open>Sorted lists of txids\<close>

definition splice1 :: "nat \<Rightarrow> 'a list \<Rightarrow> 'a list" where
  "splice1 i xs = take i xs @ drop (Suc i) xs"

fun insertSortedTxids :: "(bytes list \<Rightarrow> bytes \<Rightarrow> int) \<Rightarrow> bytes list \<Rightarrow> bytes list \<Rightarrow> bytes list" where
  "insertSortedTxids bs rawMempool [] = rawMempool"
| "insertSortedTxids bs rawMempool (x # xs) =
     (let newIndex = bs rawMempool x in
      insertSortedTxids bs
        (if newIndex < 0 then take (nat (- newIndex - 1)) rawMempool @ x # drop (nat (- newIndex - 1)) rawMempool
         else rawMempool) xs)"

subsection \<open>The prune\<close>

text \<open>The loop over the T keys gives back the list with the stored txids spliced out, and the deleted ones.\<close>

fun compareLoop ::
  "'d kv \<Rightarrow> (bytes list \<Rightarrow> bytes \<Rightarrow> int) \<Rightarrow> bool \<Rightarrow> (bytes \<times> bytes) list \<Rightarrow> bytes list \<Rightarrow> bytes list
    \<Rightarrow> ('d store, bytes list \<times> bytes list) m"
where
  "compareLoop K bs keepOnly [] txidList deletedTxs = mret (txidList, deletedTxs)"
| "compareLoop K bs keepOnly ((key, _) # es) txidList deletedTxs =
     (let txid = drop 1 key; txidIndex = bs txidList txid in
      if txidIndex < 0
      then (if keepOnly then compareLoop K bs keepOnly es txidList deletedTxs
            else mseq (deleteTransaction K txid) (compareLoop K bs keepOnly es txidList (deletedTxs @ [txid])))
      else compareLoop K bs keepOnly es (splice1 (nat txidIndex) txidList) deletedTxs)"

definition deleteAndCompareTxsNotInList ::
  "'d kv \<Rightarrow> (bytes list \<Rightarrow> bytes \<Rightarrow> int) \<Rightarrow> bytes list \<Rightarrow> bool \<Rightarrow> ('d store, bytes list \<times> nat \<times> nat \<times> nat) m"
where
  "deleteAndCompareTxsNotInList K bs txidList keepOnly =
     mbind (dbIter K (range_of [P_TX])) (\<lambda>es.
     mbind (compareLoop K bs keepOnly es txidList []) (\<lambda>(txidList', deletedTxs).
     mbind (deleteInputsByHints K deletedTxs) (\<lambda>inputsDeleted.
     mbind (deleteOutputsByHints K deletedTxs) (\<lambda>outputsDeleted.
     mret (txidList', length deletedTxs, inputsDeleted, outputsDeleted)))))"

subsection \<open>The pass\<close>

definition MEMPOOL_BATCH_SIZE :: nat where "MEMPOOL_BATCH_SIZE = 1000"
definition MEMPOOL_MAX_TX_FETCH_RETRIES :: nat where "MEMPOOL_MAX_TX_FETCH_RETRIES = 5"

definition committedTipIsNodeTip :: "'d kv \<Rightarrow> 'n rpc \<Rightarrow> (('d, 'n) tracker, bool) m" where
  "committedTipIsNodeTip K R = mcatch
     (mbind (on_node (rpc_info R)) (\<lambda>info.
      mbind (on_db (getLastBlockHeight K)) (\<lambda>height.
      mbind (on_db (getLastBlockHash K)) (\<lambda>hash.
      mret (case info of None \<Rightarrow> False
        | Some i \<Rightarrow> height = Some (ci_blocks i) \<and> hash \<noteq> None \<and> ci_best i = hash)))))
     (\<lambda>_. mret False)"

text \<open>What the pass counts for its log line: transactions, inputs and outputs, more and less.\<close>

record counts =
  transactionsMore :: nat
  inputsMore :: nat
  outputsMore :: nat
  transactionsLess :: nat
  inputsLess :: nat
  outputsLess :: nat

definition no_counts :: counts where
  "no_counts = \<lparr>transactionsMore = 0, inputsMore = 0, outputsMore = 0, transactionsLess = 0, inputsLess = 0, outputsLess = 0\<rparr>"

definition pruneMempoolStore ::
  "'d kv \<Rightarrow> (bytes list \<Rightarrow> bytes \<Rightarrow> int) \<Rightarrow> bytes list \<Rightarrow> counts \<Rightarrow> bool \<Rightarrow> (('d, 'n) tracker, bytes list \<times> counts) m"
where
  "pruneMempoolStore K bs rawMempool counts mayDelete =
     mseq (on_mempool beginTransaction)
     (mcatch
       (mbind (on_mempool (deleteAndCompareTxsNotInList K bs rawMempool (\<not> mayDelete))) (\<lambda>(rawMempool', txs, ins, outs).
        mseq (on_mempool (endTransaction K True))
        (mseq (mmod (\<lambda>T. T\<lparr>mempoolEpoch := mempoolEpoch T + 1,
             mempoolReconverged := (if length rawMempool' > 0 then False else mempoolReconverged T)\<rparr>))
        (mret (rawMempool', counts\<lparr>transactionsLess := txs, inputsLess := ins, outputsLess := outs\<rparr>)))))
       (\<lambda>err. mseq (on_mempool (endTransaction K False)) (mthrow err)))"

definition noteTxFetchFailure :: "nat \<Rightarrow> (('d, 'n) tracker, unit) m" where
  "noteTxFetchFailure consecutiveTxFetchFailures =
     mseq (mmod (\<lambda>T. T\<lparr>mempoolRpcFailures := mempoolRpcFailures T + 1\<rparr>))
     (if consecutiveTxFetchFailures \<ge> MEMPOOL_MAX_TX_FETCH_RETRIES
      then mthrow (MempoolFetchIncomplete consecutiveTxFetchFailures) else mret ())"

text \<open>
  The turns of the loop that fetch one batch, after \<open>failures\<close> failures in a row. The loop goes round
  until the node answers or \<open>noteTxFetchFailure\<close> throws; it has no bound of its own, and \<open>None\<close> is the
  loop that never ends. A success starts the count again for the next batch.
\<close>

partial_function (option) fetchBatch ::
  "'n rpc \<Rightarrow> bytes list \<Rightarrow> nat \<Rightarrow> ('d, 'n) tracker \<Rightarrow> ((error + bytes option list) \<times> ('d, 'n) tracker) option" where
  "fetchBatch R chunk failures T = (case rpc_rawtxs R chunk (node T) of
     (Some txs, n) \<Rightarrow> Some (Inr txs, T\<lparr>node := n\<rparr>)
   | (None, n) \<Rightarrow> (case noteTxFetchFailure (failures + 1) (T\<lparr>node := n\<rparr>) of
       (Inl e, T1) \<Rightarrow> Some (Inl e, T1)
     | (Inr _, T1) \<Rightarrow> fetchBatch R chunk (failures + 1) T1))"

definition isStageableMempoolTx :: "tx \<Rightarrow> bytes option \<Rightarrow> error + bool" where
  "isStageableMempoolTx t nodeTxid =
     (if tx_ins t = [] \<and> tx_outs t = [] then Inr False
      else if Some (tx_id t) \<noteq> nodeTxid
      then Inl (MempoolTxMismatch (case nodeTxid of None \<Rightarrow> [] | Some x \<Rightarrow> x) (tx_id t))
      else Inr True)"

fun stageTxs ::
  "'d kv \<Rightarrow> (bytes \<Rightarrow> bytes) \<Rightarrow> (bytes \<Rightarrow> tx option) \<Rightarrow> bytes option list \<Rightarrow> bytes list \<Rightarrow> counts \<Rightarrow> ('d store, counts) m"
where
  "stageTxs K sha txFromHex [] nodeTxids counts = mret counts"
| "stageTxs K sha txFromHex (hex # hexs) nodeTxids counts =
     mbind (case hex of
         None \<Rightarrow> mret counts
       | Some raw \<Rightarrow> (case txFromHex raw of
             None \<Rightarrow> mthrow UnparsableTx
           | Some t \<Rightarrow> mbind (mlift (isStageableMempoolTx t (case nodeTxids of [] \<Rightarrow> None | x # _ \<Rightarrow> Some x))) (\<lambda>stageable.
               if \<not> stageable then mret counts
               else mbind (parseTransaction K sha t None (- 1) True False) (\<lambda>(ins, outs).
                 mret (counts\<lparr>transactionsMore := transactionsMore counts + 1,
                   inputsMore := inputsMore counts + ins, outputsMore := outputsMore counts + outs\<rparr>)))))
     (\<lambda>counts'. stageTxs K sha txFromHex hexs (tl nodeTxids) counts')"

definition stageMempoolBatch ::
  "'d kv \<Rightarrow> (bytes \<Rightarrow> bytes) \<Rightarrow> (bytes \<Rightarrow> tx option) \<Rightarrow> bytes option list \<Rightarrow> bytes list \<Rightarrow> counts
    \<Rightarrow> (('d, 'n) tracker, counts) m"
where
  "stageMempoolBatch K sha txFromHex nextTxsHex nodeTxids counts =
     mseq (on_mempool beginTransaction)
     (mcatch
       (mbind (on_mempool (stageTxs K sha txFromHex nextTxsHex nodeTxids counts)) (\<lambda>counts'.
        mseq (on_mempool (endTransaction K True))
        (mseq (mmod (\<lambda>T. T\<lparr>mempoolEpoch := mempoolEpoch T + 1\<rparr>)) (mret counts'))))
       (\<lambda>err. mseq (on_mempool (endTransaction K False)) (mthrow err)))"

function chunks :: "'a list \<Rightarrow> 'a list list" where
  "chunks xs = (if xs = [] then [] else take MEMPOOL_BATCH_SIZE xs # chunks (drop MEMPOOL_BATCH_SIZE xs))"
  by pat_completeness auto
termination by (relation "measure length") (auto simp: MEMPOOL_BATCH_SIZE_def)

declare chunks.simps [simp del]

fun fetchAndStage ::
  "'d kv \<Rightarrow> 'n rpc \<Rightarrow> (bytes \<Rightarrow> bytes) \<Rightarrow> (bytes \<Rightarrow> tx option) \<Rightarrow> bytes list list \<Rightarrow> counts \<Rightarrow> (('d, 'n) tracker, counts) om"
where
  "fetchAndStage K R sha txFromHex [] counts = omlift (Inr counts)"
| "fetchAndStage K R sha txFromHex (chunk # rest) counts =
     ombind (fetchBatch R chunk 0) (\<lambda>txsHex.
     ombind (omrun (stageMempoolBatch K sha txFromHex txsHex chunk counts)) (\<lambda>counts'.
     fetchAndStage K R sha txFromHex rest counts'))"

definition markMempoolReconverged :: "(('d, 'n) tracker, unit) m" where
  "markMempoolReconverged = mmod (\<lambda>T. T\<lparr>mempoolReconverged := True\<rparr>)"

definition withdrawMempoolReadiness :: "(('d, 'n) tracker, unit) m" where
  "withdrawMempoolReadiness = mmod (\<lambda>T. T\<lparr>mempoolReconverged := False\<rparr>)"

definition reconvergeMempool ::
  "'d kv \<Rightarrow> 'n rpc \<Rightarrow> (bytes list \<Rightarrow> bytes \<Rightarrow> int) \<Rightarrow> (bytes \<Rightarrow> bytes) \<Rightarrow> (bytes \<Rightarrow> tx option) \<Rightarrow> bytes list \<Rightarrow> bool
    \<Rightarrow> (('d, 'n) tracker, unit) om"
where
  "reconvergeMempool K R bs sha txFromHex rawMempool mayDelete =
     ombind (omcatch
       (ombind (omrun (pruneMempoolStore K bs rawMempool no_counts mayDelete)) (\<lambda>(rawMempool', counts).
        ombind (fetchAndStage K R sha txFromHex (chunks rawMempool') counts) (\<lambda>_. omrun markMempoolReconverged)))
       (\<lambda>_. omrun withdrawMempoolReadiness))
     (\<lambda>_. omrun (mmod (\<lambda>T. T\<lparr>mempoolBusy := False\<rparr>)))"

definition updateMempool ::
  "'d kv \<Rightarrow> 'n rpc \<Rightarrow> (bytes list \<Rightarrow> bytes \<Rightarrow> int) \<Rightarrow> (bytes \<Rightarrow> bytes) \<Rightarrow> (bytes \<Rightarrow> tx option) \<Rightarrow> (('d, 'n) tracker, unit) om"
where
  "updateMempool K R bs sha txFromHex = ombind (omrun (mget mempoolBusy)) (\<lambda>busy.
     if busy then omlift (Inr ())
     else ombind (omrun (mmod (\<lambda>T. T\<lparr>mempoolBusy := True\<rparr>))) (\<lambda>_.
       ombind (omrun (on_node (rpc_mempool R))) (\<lambda>listing. case listing of
          None \<Rightarrow> omrun (mmod (\<lambda>T. T\<lparr>mempoolBusy := False\<rparr>))
        | Some rawMempoolUnordered \<Rightarrow>
            ombind (omrun (committedTipIsNodeTip K R)) (\<lambda>mayDelete.
            reconvergeMempool K R bs sha txFromHex (insertSortedTxids bs [] rawMempoolUnordered) mayDelete))))"

subsection \<open>What the binary search promises\<close>

locale binary_search =
  fixes bs :: "bytes list \<Rightarrow> bytes \<Rightarrow> int"
  assumes found: "sorted_wrt (<) xs \<Longrightarrow> x \<in> set xs \<Longrightarrow> \<exists>i < length xs. bs xs x = int i \<and> xs ! i = x"
    and missing: "sorted_wrt (<) xs \<Longrightarrow> x \<notin> set xs \<Longrightarrow>
      \<exists>i \<le> length xs. bs xs x = - int i - 1 \<and> (\<forall>y \<in> set (take i xs). y < x) \<and> (\<forall>y \<in> set (drop i xs). x < y)"
begin

lemma search_sign: "sorted_wrt (<) xs \<Longrightarrow> bs xs x < 0 \<longleftrightarrow> x \<notin> set xs"
  using found [of xs x] missing [of xs x] by (cases "x \<in> set xs") auto

lemma insert_one:
  assumes s: "sorted_wrt (<) xs" and n: "bs xs x < 0"
  shows "sorted_wrt (<) (take (nat (- bs xs x - 1)) xs @ x # drop (nat (- bs xs x - 1)) xs)"
    and "set (take (nat (- bs xs x - 1)) xs @ x # drop (nat (- bs xs x - 1)) xs) = insert x (set xs)"
proof -
  have "x \<notin> set xs" using search_sign [OF s] n by simp
  then obtain i where i: "bs xs x = - int i - 1" "\<forall>y \<in> set (take i xs). y < x" "\<forall>y \<in> set (drop i xs). x < y"
    using missing [OF s] by blast
  have "sorted_wrt (<) (take i xs @ drop i xs)" using s by simp
  then show "sorted_wrt (<) (take (nat (- bs xs x - 1)) xs @ x # drop (nat (- bs xs x - 1)) xs)"
    using i unfolding sorted_wrt_append by auto
  have "set (take i xs) \<union> set (drop i xs) = set xs" by (metis append_take_drop_id set_append)
  then show "set (take (nat (- bs xs x - 1)) xs @ x # drop (nat (- bs xs x - 1)) xs) = insert x (set xs)"
    using i(1) by auto
qed

lemma insert_sorted:
  "sorted_wrt (<) raw \<Longrightarrow> sorted_wrt (<) (insertSortedTxids bs raw xs) \<and> set (insertSortedTxids bs raw xs) = set raw \<union> set xs"
proof (induction xs arbitrary: raw)
  case (Cons x xs)
  show ?case
  proof (cases "bs raw x < 0")
    case True
    then show ?thesis using Cons.IH insert_one [OF Cons.prems True] by (simp add: Let_def)
  next
    case False
    then show ?thesis using Cons search_sign [OF Cons.prems] by (auto simp: Let_def)
  qed
qed simp

lemma splice_found:
  assumes s: "sorted_wrt (<) xs" and n: "\<not> bs xs x < 0"
  shows "splice1 (nat (bs xs x)) xs = filter (\<lambda>y. y \<noteq> x) xs"
proof -
  obtain i where i: "i < length xs" "bs xs x = int i" "xs ! i = x" using found [OF s] search_sign [OF s] n by blast
  have xs: "xs = take i xs @ x # drop (Suc i) xs" using id_take_nth_drop [OF i(1)] i(3) by simp
  have "sorted_wrt (<) (take i xs @ x # drop (Suc i) xs)" using s xs by simp
  then have "x \<notin> set (take i xs)" "x \<notin> set (drop (Suc i) xs)" by (auto simp: sorted_wrt_append)
  then have "filter (\<lambda>y. y \<noteq> x) (take i xs) = take i xs" "filter (\<lambda>y. y \<noteq> x) (drop (Suc i) xs) = drop (Suc i) xs"
    by (metis (mono_tags, lifting) filter_True)+
  then have "filter (\<lambda>y. y \<noteq> x) (take i xs @ x # drop (Suc i) xs) = take i xs @ drop (Suc i) xs" by simp
  then show ?thesis using xs i(2) by (simp add: splice1_def)
qed

end

text \<open>A linear search keeps the laws.\<close>

definition ref_search :: "bytes list \<Rightarrow> bytes \<Rightarrow> int" where
  "ref_search xs x = (if x \<in> set xs then int (length (takeWhile (\<lambda>y. y \<noteq> x) xs))
     else - int (length (takeWhile (\<lambda>y. y < x) xs)) - 1)"

lemma takeWhile_until: "x \<notin> set ys \<Longrightarrow> takeWhile (\<lambda>y. y \<noteq> x) (ys @ x # zs) = ys"
  by (induction ys) auto

interpretation linear: binary_search ref_search
proof
  fix xs and x :: bytes assume m: "x \<in> set xs"
  then obtain ys zs where xs: "xs = ys @ x # zs" and n: "x \<notin> set ys" by (meson split_list_first)
  have "takeWhile (\<lambda>y. y \<noteq> x) xs = ys" unfolding xs by (rule takeWhile_until [OF n])
  then have "ref_search xs x = int (length ys)" using m by (simp add: ref_search_def)
  moreover have "length ys < length xs" "xs ! length ys = x" by (simp_all add: xs)
  ultimately show "\<exists>i < length xs. ref_search xs x = int i \<and> xs ! i = x" by blast
next
  fix xs and x assume s: "sorted_wrt (<) xs" and x: "(x :: bytes) \<notin> set xs"
  let ?t = "takeWhile (\<lambda>y. y < x) xs"
  have d: "xs = ?t @ dropWhile (\<lambda>y. y < x) xs" by simp
  have "x < y" if y: "y \<in> set (dropWhile (\<lambda>y. y < x) xs)" for y
  proof -
    obtain z zs where z: "dropWhile (\<lambda>y. y < x) xs = z # zs" using y by (cases "dropWhile (\<lambda>y. y < x) xs") auto
    have zs: "\<not> z < x" "z \<in> set xs" using hd_dropWhile [of "\<lambda>y. y < x" xs] z set_dropWhileD [of z "\<lambda>y. y < x" xs] by simp_all
    then have "x < z" using x by (metis linorder_neqE)
    moreover have "sorted_wrt (<) (z # zs)" using s z by (metis sorted_wrt_append takeWhile_dropWhile_id)
    ultimately show ?thesis using y z by auto
  qed
  moreover have "take (length ?t) xs = ?t" "drop (length ?t) xs = dropWhile (\<lambda>y. y < x) xs"
    by (metis append_eq_conv_conj takeWhile_dropWhile_id)+
  ultimately show "\<exists>i \<le> length xs. ref_search xs x = - int i - 1 \<and> (\<forall>y \<in> set (take i xs). y < x) \<and> (\<forall>y \<in> set (drop i xs). x < y)"
    using x by (intro exI [of _ "length ?t"]) (auto simp: ref_search_def length_takeWhile_le dest: set_takeWhileD)
qed

lemma search_ref: "binary_search ref_search"
  by (rule linear.binary_search_axioms)

subsection \<open>What the prune stages\<close>

definition entry_txid :: "bytes \<times> bytes \<Rightarrow> bytes" where
  "entry_txid e = drop 1 (fst e)"

lemma compareLoop_Cons:
  "compareLoop K bs keepOnly (e # es) txidList deletedTxs =
     (if bs txidList (entry_txid e) < 0
      then (if keepOnly then compareLoop K bs keepOnly es txidList deletedTxs
            else mseq (deleteTransaction K (entry_txid e)) (compareLoop K bs keepOnly es txidList (deletedTxs @ [entry_txid e])))
      else compareLoop K bs keepOnly es (splice1 (nat (bs txidList (entry_txid e))) txidList) deletedTxs)"
  by (cases e) (simp add: entry_txid_def Let_def)

context binary_search begin

lemma compare_run:
  fixes K :: "'d kv"
  assumes "sorted_wrt (<) txidList" and "distinct (map entry_txid es)" and "\<forall>e \<in> set es. length (entry_txid e) = 32" and "open_batch s"
  shows "compareLoop K bs keepOnly es txidList deleted s
    = (Inr (filter (\<lambda>x. x \<notin> entry_txid ` set es) txidList,
        deleted @ (if keepOnly then [] else filter (\<lambda>t. t \<notin> set txidList) (map entry_txid es))),
       fold stage (concat (map deleteTx_items (if keepOnly then [] else filter (\<lambda>t. t \<notin> set txidList) (map entry_txid es)))) s)"
  using assms
proof (induction es arbitrary: txidList deleted s)
  case Nil
  then show ?case by simp
next
  case (Cons e es)
  let ?t = "entry_txid e"
  have t: "length ?t = 32" "?t \<notin> entry_txid ` set es" using Cons.prems(2,3) by auto
  note IH = Cons.IH
  show ?case
  proof (cases "bs txidList ?t < 0")
    case True
    then have n: "?t \<notin> set txidList" using search_sign Cons.prems(1) by blast
    then have f: "filter (\<lambda>x. x \<notin> entry_txid ` set (e # es)) txidList = filter (\<lambda>x. x \<notin> entry_txid ` set es) txidList"
      by (intro filter_cong) auto
    show ?thesis
    proof (cases keepOnly)
      case kt: True
      then show ?thesis using IH [OF Cons.prems(1)] Cons.prems True f by (simp add: compareLoop_Cons del: compareLoop.simps)
    next
      case kf: False
      have d: "deleteTransaction K ?t s = (Inr True, fold stage (deleteTx_items ?t) s)"
        using deleteTransaction_run [OF t(1) Cons.prems(4)] .
      show ?thesis using IH [OF Cons.prems(1), of "fold stage (deleteTx_items ?t) s" "deleted @ [?t]"] Cons.prems True f n d kf
        by (simp add: compareLoop_Cons mseq_run d del: compareLoop.simps)
    qed
  next
    case False
    then have n: "?t \<in> set txidList" using search_sign Cons.prems(1) by blast
    let ?l = "filter (\<lambda>y. y \<noteq> ?t) txidList"
    have "splice1 (nat (bs txidList ?t)) txidList = ?l" by (rule splice_found [OF Cons.prems(1) False])
    moreover have "sorted_wrt (<) ?l" using Cons.prems(1) by (rule sorted_wrt_filter)
    moreover have "filter (\<lambda>t. t \<notin> set ?l) (map entry_txid es) = filter (\<lambda>t. t \<notin> set txidList) (map entry_txid es)"
    proof (rule filter_cong [OF refl])
      fix u assume "u \<in> set (map entry_txid es)"
      then have "u \<noteq> ?t" using t(2) by (metis set_map)
      then show "(u \<notin> set ?l) = (u \<notin> set txidList)" by simp
    qed
    moreover have "filter (\<lambda>x. x \<notin> entry_txid ` set es) ?l = filter (\<lambda>x. x \<notin> entry_txid ` set (e # es)) txidList"
      by (simp add: conj_commute)
    ultimately show ?thesis using IH [of ?l s deleted] Cons.prems False n
      by (simp add: compareLoop_Cons del: compareLoop.simps)
  qed
qed

end

lemma msum_stage:
  assumes "open_batch s" and "\<And>x s'. open_batch s' \<Longrightarrow> db s' = db s \<Longrightarrow> f x s' = (Inr (n x), fold stage (g x) s')"
  shows "msum xs f s = (Inr (sum_list (map n xs)), fold stage (concat (map g xs)) s)"
proof -
  have "msum xs f s' = (Inr (sum_list (map n xs)), fold stage (concat (map g xs)) s')" if "open_batch s'" "db s' = db s" for s'
    using that assms(2) by (induction xs arbitrary: s') (simp_all add: mbind_run)
  then show ?thesis using assms(1) by blast
qed

definition gone_items :: "'d kv \<Rightarrow> 'd store \<Rightarrow> bytes list \<Rightarrow> item list" where
  "gone_items K s D = concat (map deleteTx_items D)
     @ concat (map (\<lambda>t. concat (map (\<lambda>(k, v). inputHint_items k) (kv_iter K (db s) (range_of (P_IN_HINT # t))))) D)
     @ concat (map (\<lambda>t. concat (map (unhint_items t) (scan K s P_OUT_HINT t))) D)"

text \<open>The transactions a mempool store holds, each under a well-formed key.\<close>

definition stored_txs :: "(bytes \<rightharpoonup> bytes) \<Rightarrow> bytes set" where
  "stored_txs m = {t. length t = 32 \<and> m (tKey t) \<noteq> None}"

definition tx_keys_ok :: "(bytes \<rightharpoonup> bytes) \<Rightarrow> bool" where
  "tx_keys_ok m \<longleftrightarrow> (\<forall>k. m k \<noteq> None \<and> prefix [P_TX] k \<longrightarrow> length k = 33)"

definition off_tx :: "bytes \<Rightarrow> bool" where
  "off_tx k \<longleftrightarrow> (\<forall>t. k \<noteq> tKey t)"

lemma off_tx_keys:
  "off_tx (iKey t i)" "off_tx (jKey t u i)" "off_tx (oKey s t i)" "off_tx (hKey t i)" "off_tx (xKey t)" "off_tx (yKey h t)"
  "off_tx (wKey h t i)" "off_tx (sKey s)" "off_tx (zKey h s)"
  "off_tx (P_OUTPUT # k)" "off_tx (P_INPUT # k)" "prefix (P_IN_HINT # k) k' \<Longrightarrow> off_tx k'" "prefix (P_OUT_HINT # k) k' \<Longrightarrow> off_tx k'"
  "off_tx (P_SCRIPT_BLK # k)" "off_tx (P_BLK_SCRIPT # k)"
  by (auto simp: off_tx_def key_defs prefix_defs prefix_def)

lemma all_dels: "\<forall>it \<in> set its. item_effect it = None \<Longrightarrow>
    fold apply_item its m k = (if \<exists>it \<in> set its. item_key it = k then None else m k)"
proof (cases "\<exists>it \<in> set its. item_key it = k")
  case True
  then show "\<forall>it \<in> set its. item_effect it = None \<Longrightarrow> ?thesis" by (simp add: apply_items_same)
qed (simp add: apply_items_other)

context leveldb begin

lemma gone_items_dels: "\<forall>it \<in> set (gone_items K s D). item_effect it = None"
  by (auto simp: gone_items_def deleteTx_items_def inputHint_items_def)

lemma gone_items_txs: "(\<exists>it \<in> set (gone_items K s D). item_key it = tKey t) \<longleftrightarrow> t \<in> set D"
proof
  assume "\<exists>it \<in> set (gone_items K s D). item_key it = tKey t"
  then obtain it where it: "it \<in> set (gone_items K s D)" "item_key it = tKey t" by blast
  have j: "off_tx k" if "(k, v) \<in> set (kv_iter K (db s) (range_of (P_IN_HINT # u)))" for k v u
    using that iter_mem [of "range_of (P_IN_HINT # u)" k v "db s"] in_range_of_prefix off_tx_keys(12) by fastforce
  have h: "off_tx k" if "(k, v) \<in> set (scan K s P_OUT_HINT u)" for k v u
    using that iter_mem [of "range_of (P_OUT_HINT # u)" k v "db s"] in_range_of_prefix off_tx_keys(13) unfolding scan_def by fastforce
  show "t \<in> set D"
    using it j h off_tx_keys by (auto simp: gone_items_def deleteTx_items_def inputHint_items_def off_tx_def)
next
  assume "t \<in> set D"
  then show "\<exists>it \<in> set (gone_items K s D). item_key it = tKey t" by (force simp: gone_items_def deleteTx_items_def)
qed

lemma gone_txs: "stored_txs (fold apply_item (gone_items K s D) m) = stored_txs m - set D"
  using gone_items_dels [of s D] gone_items_txs [of s D] by (auto simp: stored_txs_def all_dels)

lemma tx_entries:
  assumes "tx_keys_ok (kv_get K d)"
  shows "distinct (map entry_txid (kv_iter K d (range_of [P_TX])))"
    and "entry_txid ` set (kv_iter K d (range_of [P_TX])) = stored_txs (kv_get K d)"
proof -
  have m: "(k, v) \<in> set (kv_iter K d (range_of [P_TX])) \<longleftrightarrow> kv_get K d k = Some v \<and> prefix [P_TX] k" for k v
    using assms iter_mem [of "range_of [P_TX]" k v d] in_range_of_short [of k "[P_TX]"] in_range_of_prefix [of "[P_TX]" k]
    by (auto simp: tx_keys_ok_def MAX_KEY_LEN_def)
  have k: "fst e = tKey (entry_txid e) \<and> length (entry_txid e) = 32" if e: "e \<in> set (kv_iter K d (range_of [P_TX]))" for e
  proof -
    obtain k v where kv: "e = (k, v)" by (cases e)
    then have "length k = 33" "prefix [P_TX] k" using m e assms by (auto simp: tx_keys_ok_def)
    then show ?thesis by (cases k) (simp_all add: kv entry_txid_def tKey_def)
  qed
  have "distinct (map fst (kv_iter K d (range_of [P_TX])))" by (rule iter_distinct)
  then show "distinct (map entry_txid (kv_iter K d (range_of [P_TX])))"
    using k unfolding distinct_map inj_on_def by metis
  show "entry_txid ` set (kv_iter K d (range_of [P_TX])) = stored_txs (kv_get K d)"
  proof (intro equalityI subsetI)
    fix t assume "t \<in> entry_txid ` set (kv_iter K d (range_of [P_TX]))"
    then obtain e where e: "e \<in> set (kv_iter K d (range_of [P_TX]))" "t = entry_txid e" by blast
    then have "kv_get K d (fst e) = Some (snd e)" using m [of "fst e" "snd e"] by simp
    then show "t \<in> stored_txs (kv_get K d)" using k [OF e(1)] e(2) by (simp add: stored_txs_def)
  next
    fix t assume t: "t \<in> stored_txs (kv_get K d)"
    then obtain v where "kv_get K d (tKey t) = Some v" by (auto simp: stored_txs_def)
    then have "(tKey t, v) \<in> set (kv_iter K d (range_of [P_TX]))" using m by (simp add: tKey_def)
    then show "t \<in> entry_txid ` set (kv_iter K d (range_of [P_TX]))" by (force simp: entry_txid_def tKey_def)
  qed
qed

end

subsection \<open>The mempool store inside the tracker\<close>

definition mem_of :: "('d, 'n) tracker \<Rightarrow> 'd store" where
  "mem_of T = (mempool T)\<lparr>stat := stat (confirmed T)\<rparr>"

definition put_mem :: "'d store \<Rightarrow> ('d, 'n) tracker \<Rightarrow> ('d, 'n) tracker" where
  "put_mem s T = T\<lparr>mempool := s, confirmed := (confirmed T)\<lparr>stat := stat s\<rparr>\<rparr>"

lemma on_mempool_put: "on_mempool f T = (fst (f (mem_of T)), put_mem (snd (f (mem_of T))) T)"
  by (simp add: on_mempool_def mem_of_def put_mem_def split: prod.split)

lemma mem_put [simp]: "mem_of (put_mem s T) = s" "mempool (put_mem s T) = s" "put_mem s (put_mem s' T) = put_mem s T"
  "mempoolReconverged (put_mem s T) = mempoolReconverged T" "mempoolBusy (put_mem s T) = mempoolBusy T"
  "db (confirmed (put_mem s T)) = db (confirmed T)" "mempoolEpoch (put_mem s T) = mempoolEpoch T" "node (put_mem s T) = node T"
  by (cases s; simp add: mem_of_def put_mem_def)+

lemma db_mem_of [simp]: "db (mem_of T) = db (mempool T)"
  by (simp add: mem_of_def)

text \<open>One write transaction of the pass: begun, filled by \<open>f\<close>, then committed or given up.\<close>

definition mem_batch :: "'d kv \<Rightarrow> ('d store, 'a) m \<Rightarrow> ('a \<Rightarrow> (('d, 'n) tracker, 'b) m) \<Rightarrow> (('d, 'n) tracker, 'b) m" where
  "mem_batch K f g = mseq (on_mempool beginTransaction)
     (mcatch (mbind (on_mempool f) (\<lambda>a. mseq (on_mempool (endTransaction K True)) (g a)))
       (\<lambda>err. mseq (on_mempool (endTransaction K False)) (mthrow err)))"

definition begun :: "('d, 'n) tracker \<Rightarrow> 'd store" where
  "begun T = (mem_of T)\<lparr>transactionArray := Some [], deletedTransactionArray := Some []\<rparr>"

lemma begun_simps [simp]: "db (begun T) = db (mempool T)" "open_batch (begun T)" "staged_ok (begun T)" "view K (begun T) = kv_get K (db (mempool T))"
  by (simp_all add: begun_def open_batch_def staged_ok_def)

lemma mem_batch_run:
  "mem_batch K f g T = (case f (begun T) of
     (Inl e, s) \<Rightarrow> (Inl e, put_mem (snd (endTransaction K False s)) T)
   | (Inr a, s) \<Rightarrow> (case endTransaction K True s of
        (Inl e, s') \<Rightarrow> (Inl e, put_mem (snd (endTransaction K False s')) T)
      | (Inr _, s') \<Rightarrow> mcatch (g a) (\<lambda>err. mseq (on_mempool (endTransaction K False)) (mthrow err)) (put_mem s' T)))"
proof -
  have b: "on_mempool beginTransaction T = (Inr (), put_mem (begun T) T)" by (simp add: on_mempool_put begun_def)
  obtain r s where f: "f (begun T) = (r, s)" by (cases "f (begun T)")
  have f1: "on_mempool f (put_mem (begun T) T) = (r, put_mem s T)" by (simp add: on_mempool_put f)
  have e1: "on_mempool (endTransaction K bt) (put_mem s' T) = (fst (endTransaction K bt s'), put_mem (snd (endTransaction K bt s')) T)" for bt s'
    by (simp add: on_mempool_put)
  obtain r2 s2 where e2: "endTransaction K True s = (r2, s2)" by (cases "endTransaction K True s")
  show ?thesis
    by (cases r; cases r2)
      (simp_all only: mem_batch_def mseq_def mbind_def mcatch_def b f f1 e1 e2 prod.case sum.case fst_conv snd_conv discard_run
        mthrow_def)
qed

lemma prune_batch: "pruneMempoolStore K bs raw c mayDelete
  = mem_batch K (deleteAndCompareTxsNotInList K bs raw (\<not> mayDelete)) (\<lambda>(raw', txs, ins, outs).
      mseq (mmod (\<lambda>T. T\<lparr>mempoolEpoch := mempoolEpoch T + 1,
             mempoolReconverged := (if length raw' > 0 then False else mempoolReconverged T)\<rparr>))
        (mret (raw', c\<lparr>transactionsLess := txs, inputsLess := ins, outputsLess := outs\<rparr>)))"
  by (simp add: pruneMempoolStore_def mem_batch_def case_prod_beta')

lemma stage_batch: "stageMempoolBatch K sha txFromHex hexs txids c
  = mem_batch K (stageTxs K sha txFromHex hexs txids c) (\<lambda>c'. mseq (mmod (\<lambda>T. T\<lparr>mempoolEpoch := mempoolEpoch T + 1\<rparr>)) (mret c'))"
  by (simp add: stageMempoolBatch_def mem_batch_def)

lemma mem_batch_ok:
  assumes "mem_batch K f g T = (Inr b, T')"
  obtains a s s' where "f (begun T) = (Inr a, s)" "endTransaction K True s = (Inr (), s')" "g a (put_mem s' T) = (Inr b, T')"
proof -
  have c: "mcatch m (\<lambda>err. mseq (on_mempool (endTransaction K False)) (mthrow err)) S = (Inr b, T') \<Longrightarrow> m S = (Inr b, T')" for m S
    by (auto simp: mcatch_def mseq_def mbind_def split: prod.splits sum.splits)
  show ?thesis using assms that by (auto simp: mem_batch_run dest!: c split: prod.splits sum.splits)
qed

context leveldb begin

lemma prune_store:
  fixes bs :: "bytes list \<Rightarrow> bytes \<Rightarrow> int"
  assumes b: "binary_search bs" and l: "sorted_wrt (<) l" and m: "tx_keys_ok (kv_get K (db s))" and o: "open_batch s"
  obtains D n where "deleteAndCompareTxsNotInList K bs l keepOnly s
      = (Inr (filter (\<lambda>x. x \<notin> stored_txs (kv_get K (db s))) l, n), fold stage (gone_items K s D) s)"
    "set D = (if keepOnly then {} else stored_txs (kv_get K (db s)) - set l)"
proof -
  let ?es = "kv_iter K (db s) (range_of [P_TX])"
  let ?D = "if keepOnly then [] else filter (\<lambda>t. t \<notin> set l) (map entry_txid ?es)"
  have e: "entry_txid ` set ?es = stored_txs (kv_get K (db s))" by (rule tx_entries(2) [OF m])
  have w: "\<forall>e \<in> set ?es. length (entry_txid e) = 32" using e by (auto simp: stored_txs_def)
  let ?s1 = "fold stage (concat (map deleteTx_items ?D)) s"
  let ?i = "concat (map (\<lambda>t. concat (map (\<lambda>(k, v). inputHint_items k) (kv_iter K (db s) (range_of (P_IN_HINT # t))))) ?D)"
  let ?o = "concat (map (\<lambda>t. concat (map (unhint_items t) (scan K s P_OUT_HINT t))) ?D)"
  have c: "compareLoop K bs keepOnly ?es l [] s = (Inr (filter (\<lambda>x. x \<notin> stored_txs (kv_get K (db s))) l, ?D), ?s1)"
    using binary_search.compare_run [OF b l tx_entries(1) [OF m] w o, of K keepOnly "[]"] e by simp
  obtain ni where i: "deleteInputsByHints K ?D ?s1 = (Inr ni, fold stage ?i ?s1)"
  proof -
    have "deleteInputsByHints K ?D ?s1 = (Inr (sum_list (map (\<lambda>t. length (kv_iter K (db s) (range_of (P_IN_HINT # t)))) ?D)), fold stage ?i ?s1)"
      unfolding deleteInputsByHints_def by (rule msum_stage) (use o in \<open>simp_all add: deleteInputsByHint_run\<close>)
    then show ?thesis by (rule that)
  qed
  obtain no where u: "deleteOutputsByHints K ?D (fold stage ?i ?s1) = (Inr no, fold stage ?o (fold stage ?i ?s1))"
  proof -
    have "deleteOutputsByHints K ?D (fold stage ?i ?s1) = (Inr (sum_list (map (\<lambda>t. length (scan K s P_OUT_HINT t)) ?D)), fold stage ?o (fold stage ?i ?s1))"
      unfolding deleteOutputsByHints_def by (rule msum_stage) (use o in \<open>simp_all add: deleteOutputsByHint_run scan_def\<close>)
    then show ?thesis by (rule that)
  qed
  have "deleteAndCompareTxsNotInList K bs l keepOnly s
      = (Inr (filter (\<lambda>x. x \<notin> stored_txs (kv_get K (db s))) l, length ?D, ni, no), fold stage (gone_items K s ?D) s)"
    by (simp only: deleteAndCompareTxsNotInList_def mbind_def dbIter_run c i u prod.case sum.case mret_def gone_items_def fold_append comp_def)
  moreover have "set ?D = (if keepOnly then {} else stored_txs (kv_get K (db s)) - set l)" using e by auto
  ultimately show ?thesis by (rule that)
qed

text \<open>A prune that went through.\<close>

lemma prune_ok:
  assumes b: "binary_search bs" and l: "sorted_wrt (<) l" and m: "tx_keys_ok (kv_get K (db (mempool T)))"
    and r: "pruneMempoolStore K bs l c mayDelete T = (Inr (l', c'), T')"
  shows "l' = filter (\<lambda>x. x \<notin> stored_txs (kv_get K (db (mempool T)))) l"
    and "stored_txs (kv_get K (db (mempool T'))) = stored_txs (kv_get K (db (mempool T))) - (if mayDelete then - set l else {})"
proof -
  from r [unfolded prune_batch] obtain a s s' where f: "deleteAndCompareTxsNotInList K bs l (\<not> mayDelete) (begun T) = (Inr a, s)"
    and e: "endTransaction K True s = (Inr (), s')"
    and g: "(case a of (raw', txs, ins, outs) \<Rightarrow> mseq (mmod (\<lambda>T. T\<lparr>mempoolEpoch := mempoolEpoch T + 1,
             mempoolReconverged := (if length raw' > 0 then False else mempoolReconverged T)\<rparr>))
        (mret (raw', c\<lparr>transactionsLess := txs, inputsLess := ins, outputsLess := outs\<rparr>))) (put_mem s' T) = (Inr (l', c'), T')"
    by (rule mem_batch_ok)
  obtain D n where d: "deleteAndCompareTxsNotInList K bs l (\<not> mayDelete) (begun T)
      = (Inr (filter (\<lambda>x. x \<notin> stored_txs (kv_get K (db (mempool T)))) l, n), fold stage (gone_items K (begun T) D) (begun T))"
    "set D = (if \<not> mayDelete then {} else stored_txs (kv_get K (db (mempool T))) - set l)"
    by (rule prune_store [OF b l, of "begun T" "\<not> mayDelete"]) (use m in simp_all)
  have a: "fst a = filter (\<lambda>x. x \<notin> stored_txs (kv_get K (db (mempool T)))) l" "s = fold stage (gone_items K (begun T) D) (begun T)"
    using d(1) f by auto
  show "l' = filter (\<lambda>x. x \<notin> stored_txs (kv_get K (db (mempool T)))) l"
    using g a(1) by (auto split: prod.splits)
  have "kv_get K (db s') = view K s" by (rule commit_view(1) [OF _ e]) (simp add: a(2))
  then have "kv_get K (db s') = fold apply_item (gone_items K (begun T) D) (kv_get K (db (mempool T)))"
    by (simp add: a(2) view_fold_stage)
  moreover have "db (mempool T') = db s'" using g by (auto split: prod.splits)
  ultimately show "stored_txs (kv_get K (db (mempool T'))) = stored_txs (kv_get K (db (mempool T))) - (if mayDelete then - set l else {})"
    using d(2) by (auto simp: gone_txs)
qed

end

subsection \<open>What a batch stages\<close>

text \<open>\<open>puts_in X f\<close>: inside a batch \<open>f\<close> only stages writes to keys of \<open>X\<close>, also when it throws.\<close>

definition puts_in :: "bytes set \<Rightarrow> ('d store, 'a) m \<Rightarrow> bool" where
  "puts_in X f \<longleftrightarrow> (\<forall>s r s'. open_batch s \<longrightarrow> f s = (r, s') \<longrightarrow>
     (\<exists>its st. (\<forall>it \<in> set its. is_put it \<and> item_key it \<in> X) \<and> s' = (fold stage its s)\<lparr>stat := st\<rparr>))"

named_theorems puts_intros

lemma puts_inD:
  assumes "puts_in X f" and "open_batch s" and "f s = (r, s')"
  obtains its st where "\<forall>it \<in> set its. is_put it \<and> item_key it \<in> X" "s' = (fold stage its s)\<lparr>stat := st\<rparr>"
  using assms unfolding puts_in_def by blast

lemma stat_same: "\<exists>st. s = s\<lparr>stat := st\<rparr>"
  by (rule exI [of _ "stat s"]) simp

lemma puts_none: "(\<And>s. \<exists>st. snd (f s) = s\<lparr>stat := st\<rparr>) \<Longrightarrow> puts_in X f"
  unfolding puts_in_def by (intro allI impI exI [of _ "[]"]) (metis empty_iff fold_simps(1) list.set(1) snd_conv)

lemma puts_basic [puts_intros]:
  "puts_in X (mret a)" "puts_in X (mthrow e)" "puts_in X (mlift r)" "puts_in X (mget g)" "puts_in X (dbGet K k)" "puts_in X (Pair x)"
  "(\<And>s. \<exists>st. h s = s\<lparr>stat := st\<rparr>) \<Longrightarrow> puts_in X (mmod h)"
  by (rule puts_none; simp add: stat_same)+

lemma puts_mbind [puts_intros]:
  assumes "puts_in X f" and "\<And>a. puts_in X (g a)"
  shows "puts_in X (mbind f g)"
  unfolding puts_in_def
proof (intro allI impI)
  fix s r s' assume o: "open_batch s" and b: "mbind f g s = (r, s')"
  obtain r1 s1 where f: "f s = (r1, s1)" by (cases "f s")
  obtain its st where i: "\<forall>it \<in> set its. is_put it \<and> item_key it \<in> X" "s1 = (fold stage its s)\<lparr>stat := st\<rparr>"
    by (rule puts_inD [OF assms(1) o f])
  show "\<exists>its st. (\<forall>it \<in> set its. is_put it \<and> item_key it \<in> X) \<and> s' = (fold stage its s)\<lparr>stat := st\<rparr>"
  proof (cases r1)
    case (Inl e)
    then show ?thesis using b f i by (auto simp: mbind_def)
  next
    case (Inr a)
    then have g: "g a s1 = (r, s')" using b f by (simp add: mbind_def)
    have o1: "open_batch s1" using o i(2) by simp
    obtain its' st' where "\<forall>it \<in> set its'. is_put it \<and> item_key it \<in> X" "s' = (fold stage its' s1)\<lparr>stat := st'\<rparr>"
      by (rule puts_inD [OF assms(2) o1 g])
    then show ?thesis using i by (intro exI [of _ "its @ its'"] exI [of _ st']) auto
  qed
qed

lemma puts_mseq [puts_intros]: "puts_in X f \<Longrightarrow> puts_in X g \<Longrightarrow> puts_in X (mseq f g)"
  unfolding mseq_def by (rule puts_mbind)

lemma puts_split [puts_intros]:
  "(b \<Longrightarrow> puts_in X f) \<Longrightarrow> (\<not> b \<Longrightarrow> puts_in X g) \<Longrightarrow> puts_in X (if b then f else g)"
  "puts_in X w \<Longrightarrow> puts_in X (mwhen b w)"
  "puts_in X f2 \<Longrightarrow> (\<And>x. puts_in X (g2 x)) \<Longrightarrow> puts_in X (case y of None \<Rightarrow> f2 | Some x \<Rightarrow> g2 x)"
  "(\<And>x1 x2. puts_in X (g3 x1 x2)) \<Longrightarrow> puts_in X (case z of (x1, x2) \<Rightarrow> g3 x1 x2)"
  by (auto simp: mwhen_def puts_basic split: option.split prod.split)

lemma puts_mfor [puts_intros]: "(\<And>x. puts_in X (f x)) \<Longrightarrow> puts_in X (mfor xs f)"
  by (induction xs) (auto intro: puts_intros)

lemma puts_msum [puts_intros]: "(\<And>x. puts_in X (f x)) \<Longrightarrow> puts_in X (msum xs f)"
  by (induction xs) (auto intro!: puts_intros)

lemma puts_add [puts_intros]: "k \<in> X \<Longrightarrow> puts_in X (addTransaction K (Put k v))"
  unfolding puts_in_def by (auto intro!: exI [of _ "[Put k v]"]) (metis (no_types) store.surjective store.update_convs(1))

text \<open>A key made by a builder.\<close>

lemma puts_lift: "(\<And>a. r = Inr a \<Longrightarrow> puts_in X (g a)) \<Longrightarrow> puts_in X (mbind (mlift r) g)"
  by (cases r) (simp_all add: puts_basic)

definition tx_space :: "bytes set \<Rightarrow> bytes set" where
  "tx_space ts = {k. off_tx k \<or> (\<exists>t \<in> ts. k = tKey t)}"

lemma off_in_space: "off_tx k \<Longrightarrow> k \<in> tx_space ts"
  by (simp add: tx_space_def)

lemma script_keys_off:
  "(case scr of Buf b \<Rightarrow> kOutputFromBuf b t i | Hex b \<Rightarrow> kOutput b t i) = Inr k \<Longrightarrow> off_tx k"
  "(case scr of Buf b \<Rightarrow> kScriptBlkFromBuf b | Hex b \<Rightarrow> kScriptBlk b) = Inr k \<Longrightarrow> off_tx k"
  "(case scr of Buf b \<Rightarrow> kBlkScriptFromBuf h b | Hex b \<Rightarrow> kBlkScript h b) = Inr k \<Longrightarrow> off_tx k"
  by (auto simp: builder_Inr_iff off_tx_keys kOutputFromBuf_def kScriptBlkFromBuf_def kBlkScriptFromBuf_def rbind_Inr_iff
      split: script.splits if_splits)

lemma puts_insert_output [puts_intros]:
  "puts_in (tx_space ts) (insertOutput K out)" "puts_in (tx_space ts) (insertOutputHint K scr t i)"
  "puts_in (tx_space ts) (insertOutputBlock K scr t i h)" "puts_in (tx_space ts) (insertOutputScriptBlock K scr h ht)"
proof -
  show "puts_in (tx_space ts) (insertOutput K out)"
    unfolding insertOutput_def
    by (intro puts_intros puts_lift off_in_space) (auto intro: script_keys_off)
  show "puts_in (tx_space ts) (insertOutputHint K scr t i)"
    unfolding insertOutputHint_def by (intro puts_intros puts_lift off_in_space) (auto simp: builder_Inr_iff off_tx_keys)
  show "puts_in (tx_space ts) (insertOutputBlock K scr t i h)"
    unfolding insertOutputBlock_def by (intro puts_intros puts_lift off_in_space) (auto simp: builder_Inr_iff off_tx_keys)
  show "puts_in (tx_space ts) (insertOutputScriptBlock K scr h ht)"
    unfolding insertOutputScriptBlock_def rememberScript_def
    by (intro puts_intros puts_lift off_in_space) (auto intro: script_keys_off stat_same)
qed

lemma puts_insert_input [puts_intros]: "puts_in (tx_space ts) (insertInput K inp)" "puts_in (tx_space ts) (insertInputHint K inp)"
  unfolding insertInput_def insertInputHint_def
  by (intro puts_intros puts_lift off_in_space; auto simp: builder_Inr_iff off_tx_keys)+

lemma puts_insert_tx: "t \<in> ts \<Longrightarrow> puts_in (tx_space ts) (insertTransaction K t None)"
  unfolding insertTransaction_def falsy_def
  by (intro puts_intros puts_lift) (auto simp: builder_Inr_iff tx_space_def)

lemma puts_rest:
  "puts_in (tx_space ts) (parseTransactionInputs K t h u True False)"
  "puts_in (tx_space ts) (parseTransactionOutputs K sha t h ht u cb True rs)"
  unfolding parseTransactionInputs_def parseTransactionOutputs_def parseOutput_def Let_def if_False
  by (intro puts_intros)+

definition put_staged :: "'d store \<Rightarrow> bytes \<Rightarrow> bool" where
  "put_staged s k \<longleftrightarrow> (\<exists>v. staged s k = Some (Put k v))"

lemma put_staged_stat [simp]: "put_staged (s\<lparr>stat := st\<rparr>) k = put_staged s k"
  by (simp add: put_staged_def staged_def)

lemma put_staged_fold:
  "open_batch s \<Longrightarrow> \<forall>it \<in> set its. is_put it \<Longrightarrow> put_staged s k \<Longrightarrow> put_staged (fold stage its s) k"
proof (induction its arbitrary: s)
  case (Cons it its)
  obtain k' v where it: "it = Put k' v" using Cons.prems(2) by (cases it) auto
  have "put_staged (stage it s) k" using Cons.prems(1,3) by (auto simp: put_staged_def staged_stage it)
  then show ?case using Cons by simp
qed simp

lemma puts_keep: "puts_in X f \<Longrightarrow> open_batch s \<Longrightarrow> f s = (r, s') \<Longrightarrow> put_staged s k \<Longrightarrow> put_staged s' k"
  by (erule (2) puts_inD) (simp add: put_staged_fold)

lemma puts_open: "puts_in X f \<Longrightarrow> open_batch s \<Longrightarrow> f s = (r, s') \<Longrightarrow> open_batch s'"
  by (erule (2) puts_inD) simp

lemma puts_parse: "tx_id t \<in> ts \<Longrightarrow> puts_in (tx_space ts) (parseTransaction K sha t None h True False)"
  unfolding parseTransaction_def by (intro puts_intros puts_insert_tx puts_rest)

lemma parse_stores:
  assumes o: "open_batch s" and p: "parseTransaction K sha t None h True False s = (Inr c, s')"
  shows "put_staged s' (tKey (tx_id t))" and "length (tx_id t) = 32"
proof -
  obtain u s1 where i: "insertTransaction K (tx_id t) None s = (Inr u, s1)"
    and rest: "mbind (parseTransactionInputs K t None (tx_id t) True False) (\<lambda>ic.
      mseq (parseTransactionOutputs K sha t None h (tx_id t) (isCoinbaseTransaction t) True False) (mret (ic, length (tx_outs t)))) s1 = (Inr c, s')"
    using p by (auto simp: parseTransaction_def mseq_Inr_iff)
  have l: "length (tx_id t) = 32"
    using i by (auto simp: insertTransaction_def mbind_def mlift_def builder_Inr_iff split: sum.splits)
  have "s1 = stage (Put (tKey (tx_id t)) (ZERO_HASH @ tx_id t)) s"
    using i o l by (simp add: insertTransaction_def builder_ok encodeTx_def falsy_def ZERO_HASH_def)
  then have "put_staged s1 (tKey (tx_id t))" "open_batch s1" using o by (simp_all add: put_staged_def staged_stage)
  moreover have "puts_in (tx_space {}) (mbind (parseTransactionInputs K t None (tx_id t) True False) (\<lambda>ic.
      mseq (parseTransactionOutputs K sha t None h (tx_id t) (isCoinbaseTransaction t) True False) (mret (ic, length (tx_outs t)))))"
    by (intro puts_intros puts_rest)
  ultimately show "put_staged s' (tKey (tx_id t))" using rest puts_keep by blast
  show "length (tx_id t) = 32" by (rule l)
qed

text \<open>A reply that leaves nothing to stage: null, or a transaction without inputs and outputs.\<close>

definition nothing_to_stage :: "(bytes \<Rightarrow> tx option) \<Rightarrow> bytes option \<Rightarrow> bool" where
  "nothing_to_stage txFromHex hex \<longleftrightarrow> (case hex of None \<Rightarrow> True
     | Some raw \<Rightarrow> (case txFromHex raw of None \<Rightarrow> False | Some t \<Rightarrow> tx_ins t = [] \<and> tx_outs t = []))"

definition stage_one ::
  "'d kv \<Rightarrow> (bytes \<Rightarrow> bytes) \<Rightarrow> (bytes \<Rightarrow> tx option) \<Rightarrow> bytes option \<Rightarrow> bytes option \<Rightarrow> counts \<Rightarrow> ('d store, counts) m"
where
  "stage_one K sha txFromHex hex nodeTxid c = (case hex of
      None \<Rightarrow> mret c
    | Some raw \<Rightarrow> (case txFromHex raw of
        None \<Rightarrow> mthrow UnparsableTx
      | Some t \<Rightarrow> mbind (mlift (isStageableMempoolTx t nodeTxid)) (\<lambda>stageable.
          if \<not> stageable then mret c
          else mbind (parseTransaction K sha t None (- 1) True False) (\<lambda>(ins, outs).
            mret (c\<lparr>transactionsMore := transactionsMore c + 1, inputsMore := inputsMore c + ins, outputsMore := outputsMore c + outs\<rparr>)))))"

lemma stageTxs_Cons: "stageTxs K sha F (hex # hexs) ids c
    = mbind (stage_one K sha F hex (case ids of [] \<Rightarrow> None | x # _ \<Rightarrow> Some x) c) (stageTxs K sha F hexs (tl ids))"
  by (simp add: stage_one_def)

lemma puts_one:
  assumes "\<And>x. nodeTxid = Some x \<Longrightarrow> x \<in> ts"
  shows "puts_in (tx_space ts) (stage_one K sha F hex nodeTxid c)"
proof -
  have k: "puts_in (tx_space ts) (mbind (mlift (isStageableMempoolTx t nodeTxid)) (\<lambda>stageable.
          if \<not> stageable then mret c
          else mbind (parseTransaction K sha t None (- 1) True False) (\<lambda>(ins, outs).
            mret (c\<lparr>transactionsMore := transactionsMore c + 1, inputsMore := inputsMore c + ins, outputsMore := outputsMore c + outs\<rparr>))))" for t
    by (intro puts_lift puts_intros puts_parse) (auto simp: isStageableMempoolTx_def intro!: assms split: if_splits)
  show ?thesis unfolding stage_one_def by (intro puts_split(3) puts_basic k)
qed

lemma puts_txs: "set ids \<subseteq> ts \<Longrightarrow> puts_in (tx_space ts) (stageTxs K sha F hexs ids c)"
proof (induction hexs arbitrary: ids c)
  case (Cons hex hexs)
  show ?case unfolding stageTxs_Cons
  proof (intro puts_mbind puts_one)
    show "x \<in> ts" if "(case ids of [] \<Rightarrow> None | x # _ \<Rightarrow> Some x) = Some x" for x
      using that Cons.prems by (cases ids) auto
    show "puts_in (tx_space ts) (stageTxs K sha F hexs (tl ids) c')" for c'
      using Cons.prems by (intro Cons.IH) (cases ids; auto)
  qed
qed (simp add: puts_basic)

lemma one_stores:
  assumes "open_batch s" and "stage_one K sha F hex (Some x) c s = (Inr c', s')"
  shows "nothing_to_stage F hex \<or> put_staged s' (tKey x) \<and> length x = 32"
proof (cases hex)
  case (Some raw)
  show ?thesis
  proof (cases "F raw")
    case None
    then show ?thesis using assms(2) Some by (simp add: stage_one_def)
  next
    case t: (Some t)
    show ?thesis
    proof (cases "tx_ins t = [] \<and> tx_outs t = []")
      case True
      then show ?thesis using Some t by (simp add: nothing_to_stage_def)
    next
      case False
      then have x: "tx_id t = x" using assms(2) Some t
        by (auto simp: stage_one_def isStageableMempoolTx_def split: if_splits)
      then obtain d where "parseTransaction K sha t None (- 1) True False s = (Inr d, s')"
        using assms(2) Some t False by (auto simp: stage_one_def isStageableMempoolTx_def mbind_Inr_iff)
      then show ?thesis using parse_stores [OF assms(1)] x by blast
    qed
  qed
qed (simp add: nothing_to_stage_def)

lemma txs_store:
  assumes "open_batch s" and "stageTxs K sha F hexs ids c s = (Inr c', s')" and "i < length hexs" and "i < length ids"
  shows "nothing_to_stage F (hexs ! i) \<or> put_staged s' (tKey (ids ! i)) \<and> length (ids ! i) = 32"
  using assms
proof (induction hexs arbitrary: ids c s i)
  case (Cons hex hexs)
  obtain x ids' where ids: "ids = x # ids'" using Cons.prems(4) by (cases ids) auto
  obtain c1 s1 where one: "stage_one K sha F hex (Some x) c s = (Inr c1, s1)" and rest: "stageTxs K sha F hexs ids' c1 s1 = (Inr c', s')"
    using Cons.prems(2) unfolding stageTxs_Cons ids by (auto simp: mbind_Inr_iff)
  have o1: "open_batch s1" using puts_open [OF puts_one Cons.prems(1) one, of UNIV] by simp
  show ?case
  proof (cases i)
    case 0
    then show ?thesis using one_stores [OF Cons.prems(1) one] puts_keep [OF puts_txs o1 rest, of UNIV] by (auto simp: ids)
  next
    case (Suc j)
    then show ?thesis using Cons.IH [OF o1 rest, of j] Cons.prems(3,4) by (simp add: ids)
  qed
qed simp

subsection \<open>What a whole pass leaves\<close>

lemma puts_effect: "\<forall>it \<in> set its. is_put it \<Longrightarrow>
    (fold apply_item its m k \<noteq> None) = (m k \<noteq> None \<or> (\<exists>it \<in> set its. item_key it = k))"
proof (induction its arbitrary: m)
  case (Cons it its)
  obtain k' v where "it = Put k' v" using Cons.prems by (cases it) auto
  then show ?case using Cons by (auto simp: apply_item_def)
qed simp

text \<open>The node answers a batch in the order asked, one reply per txid.\<close>

definition answers_in_order :: "'n rpc \<Rightarrow> bool" where
  "answers_in_order R \<longleftrightarrow> (\<forall>chunk n reply n'. rpc_rawtxs R chunk n = (Some reply, n') \<longrightarrow> length reply = length chunk)"

text \<open>A txid for which the node answered with nothing to stage.\<close>

definition skippable :: "'n rpc \<Rightarrow> (bytes \<Rightarrow> tx option) \<Rightarrow> bytes \<Rightarrow> bool" where
  "skippable R txFromHex x \<longleftrightarrow> (\<exists>chunk n reply n' i. rpc_rawtxs R chunk n = (Some reply, n') \<and> i < length chunk \<and> i < length reply
     \<and> chunk ! i = x \<and> nothing_to_stage txFromHex (reply ! i))"

text \<open>The fifth failure in a row ends the loop, so it returns; it touches neither store.\<close>

lemma fetch_returns:
  fixes T :: "('d, 'n) tracker"
  shows "\<exists>r T'. fetchBatch R chunk failures T = Some (r, T') \<and> mempool T' = mempool T \<and> db (confirmed T') = db (confirmed T)
    \<and> (\<forall>reply. r = Inr reply \<longrightarrow> (\<exists>n n'. rpc_rawtxs R chunk n = (Some reply, n')))"
proof (induction "MEMPOOL_MAX_TX_FETCH_RETRIES - failures" arbitrary: failures T rule: less_induct)
  case less
  obtain a n where a: "rpc_rawtxs R chunk (node T) = (a, n)" by (cases "rpc_rawtxs R chunk (node T)")
  show ?case
  proof (cases a)
    case (Some txs)
    then show ?thesis using a by (subst fetchBatch.simps) auto
  next
    case None
    let ?T1 = "T\<lparr>node := n, mempoolRpcFailures := mempoolRpcFailures T + 1\<rparr>"
    show ?thesis
    proof (cases "failures + 1 < MEMPOOL_MAX_TX_FETCH_RETRIES")
      case True
      then have "noteTxFetchFailure (failures + 1) (T\<lparr>node := n\<rparr>) = (Inr (), ?T1)" by (simp add: noteTxFetchFailure_def)
      then have "fetchBatch R chunk failures T = fetchBatch R chunk (failures + 1) ?T1"
        using a None by (subst fetchBatch.simps) simp
      moreover have "MEMPOOL_MAX_TX_FETCH_RETRIES - (failures + 1) < MEMPOOL_MAX_TX_FETCH_RETRIES - failures" using True by simp
      from less [OF this, of ?T1] obtain r T' where "fetchBatch R chunk (failures + 1) ?T1 = Some (r, T')"
        "mempool T' = mempool T" "db (confirmed T') = db (confirmed T)"
        "\<forall>reply. r = Inr reply \<longrightarrow> (\<exists>n n'. rpc_rawtxs R chunk n = (Some reply, n'))" by auto
      ultimately show ?thesis by auto
    next
      case False
      then have "noteTxFetchFailure (failures + 1) (T\<lparr>node := n\<rparr>) = (Inl (MempoolFetchIncomplete (failures + 1)), ?T1)"
        by (simp add: noteTxFetchFailure_def)
      then show ?thesis using a None by (subst fetchBatch.simps) simp
    qed
  qed
qed

lemma concat_chunks: "concat (chunks xs) = xs"
  by (induction xs rule: chunks.induct) (subst chunks.simps, simp)

context leveldb begin

lemma batch_ok:
  assumes "stageMempoolBatch K sha F hexs ids c T = (Inr c', T')"
  shows "kv_get K (db (mempool T)) k \<noteq> None \<Longrightarrow> kv_get K (db (mempool T')) k \<noteq> None"
    and "stored_txs (kv_get K (db (mempool T'))) \<subseteq> stored_txs (kv_get K (db (mempool T))) \<union> set ids"
    and "i < length hexs \<Longrightarrow> i < length ids \<Longrightarrow> nothing_to_stage F (hexs ! i) \<or> ids ! i \<in> stored_txs (kv_get K (db (mempool T')))"
proof -
  from assms [unfolded stage_batch] obtain a s s' where f: "stageTxs K sha F hexs ids c (begun T) = (Inr a, s)"
    and e: "endTransaction K True s = (Inr (), s')"
    and g: "mseq (mmod (\<lambda>T. T\<lparr>mempoolEpoch := mempoolEpoch T + 1\<rparr>)) (mret a) (put_mem s' T) = (Inr c', T')"
    by (rule mem_batch_ok)
  have o: "open_batch (begun T)" by simp
  obtain its st where its: "\<forall>it \<in> set its. is_put it \<and> item_key it \<in> tx_space (set ids)" "s = (fold stage its (begun T))\<lparr>stat := st\<rparr>"
    by (rule puts_inD [OF puts_txs [OF order_refl] o f])
  have "kv_get K (db s') = view K s" by (rule commit_view(1) [OF _ e]) (simp add: its(2))
  moreover have "db (mempool T') = db s'" using g by auto
  ultimately have v: "kv_get K (db (mempool T')) = view K s" by simp
  then have w: "kv_get K (db (mempool T')) = fold apply_item its (kv_get K (db (mempool T)))"
    by (simp add: its(2) view_fold_stage)
  have ef: "(kv_get K (db (mempool T')) k \<noteq> None) = (kv_get K (db (mempool T)) k \<noteq> None \<or> (\<exists>it \<in> set its. item_key it = k))" for k
    unfolding w using its(1) by (intro puts_effect) blast
  show "kv_get K (db (mempool T)) k \<noteq> None \<Longrightarrow> kv_get K (db (mempool T')) k \<noteq> None" using ef by blast
  have "t \<in> set ids" if "item_key it = tKey t" "it \<in> set its" for it t
  proof -
    have "tKey t \<in> tx_space (set ids)" using its(1) that by metis
    then show ?thesis by (auto simp: tx_space_def off_tx_def)
  qed
  then show "stored_txs (kv_get K (db (mempool T'))) \<subseteq> stored_txs (kv_get K (db (mempool T))) \<union> set ids"
    using ef unfolding stored_txs_def by blast
  assume i: "i < length hexs" "i < length ids"
  show "nothing_to_stage F (hexs ! i) \<or> ids ! i \<in> stored_txs (kv_get K (db (mempool T')))"
    using txs_store [OF o f i] v by (auto simp: stored_txs_def put_staged_def view_def)
qed

lemma batches_ok:
  assumes "fetchAndStage K R sha F cs c T = Some (Inr c', T')" and "answers_in_order R"
  shows "stored_txs (kv_get K (db (mempool T))) \<subseteq> stored_txs (kv_get K (db (mempool T')))
    \<and> stored_txs (kv_get K (db (mempool T'))) \<subseteq> stored_txs (kv_get K (db (mempool T))) \<union> set (concat cs)
    \<and> (\<forall>x \<in> set (concat cs). skippable R F x \<or> x \<in> stored_txs (kv_get K (db (mempool T'))))"
  using assms(1)
proof (induction cs arbitrary: c T)
  case (Cons chunk cs)
  obtain reply T1 c2 T2 where f: "fetchBatch R chunk 0 T = Some (Inr reply, T1)"
    and b: "stageMempoolBatch K sha F reply chunk c T1 = (Inr c2, T2)" and rest: "fetchAndStage K R sha F cs c2 T2 = Some (Inr c', T')"
    using Cons.prems by (auto simp: ombind_Inr_iff)
  obtain n n' where m: "mempool T1 = mempool T" and n: "rpc_rawtxs R chunk n = (Some reply, n')"
    using fetch_returns [of R chunk 0 T] f by auto
  then have l: "length reply = length chunk" using assms(2) by (auto simp: answers_in_order_def)
  have c1: "skippable R F x \<or> x \<in> stored_txs (kv_get K (db (mempool T2)))" if x: "x \<in> set chunk" for x
  proof -
    obtain i where i: "i < length chunk" "chunk ! i = x" using x by (auto simp: in_set_conv_nth)
    then show ?thesis using batch_ok(3) [OF b, of i] l n unfolding skippable_def by metis
  qed
  have "stored_txs (kv_get K (db (mempool T))) \<subseteq> stored_txs (kv_get K (db (mempool T2)))"
    using batch_ok(1) [OF b] m by (auto simp: stored_txs_def)
  moreover have "stored_txs (kv_get K (db (mempool T2))) \<subseteq> stored_txs (kv_get K (db (mempool T))) \<union> set chunk"
    using batch_ok(2) [OF b] m by simp
  ultimately show ?case using Cons.IH [OF rest] c1 by auto
qed auto

end

definition on_tip :: "'d kv \<Rightarrow> 'n rpc \<Rightarrow> ('d, 'n) tracker \<Rightarrow> bool" where
  "on_tip K R T \<longleftrightarrow> fst (committedTipIsNodeTip K R (T\<lparr>mempoolBusy := True, node := snd (rpc_mempool R (node T))\<rparr>)) = Inr True"

lemma tip_read: "\<exists>b. fst (committedTipIsNodeTip K R T) = Inr b"
  by (auto simp: committedTipIsNodeTip_def mcatch_def mret_def split: prod.split sum.split)

lemma tip_keeps: "keeps mempool (committedTipIsNodeTip K R)" "keeps (\<lambda>T. db (confirmed T)) (committedTipIsNodeTip K R)"
proof -
  show "keeps mempool (committedTipIsNodeTip K R)"
    unfolding committedTipIsNodeTip_def by (intro keeps_intros) (simp_all)
  have "keeps (\<lambda>T. db (confirmed T)) (on_db (getLastBlockHeight K))" "keeps (\<lambda>T. db (confirmed T)) (on_db (getLastBlockHash K))"
    by (auto simp: keeps_def on_db_def getLastBlockHeight_def getLastBlockHash_def split: option.split)
  then show "keeps (\<lambda>T. db (confirmed T)) (committedTipIsNodeTip K R)"
    unfolding committedTipIsNodeTip_def
    by (intro keeps_mcatch keeps_mbind keeps_basic keeps_on_node) (assumption | simp)+
qed

lemma pass_unfold:
  assumes "\<not> mempoolBusy T" and "rpc_mempool R (node T) = (Some listing, n)"
  obtains T2 where "updateMempool K R bs sha F T = reconvergeMempool K R bs sha F (insertSortedTxids bs [] listing) (on_tip K R T) T2"
    "mempool T2 = mempool T" "db (confirmed T2) = db (confirmed T)"
proof -
  let ?T1 = "T\<lparr>mempoolBusy := True, node := n\<rparr>"
  obtain b T2 where t: "committedTipIsNodeTip K R ?T1 = (Inr b, T2)" using tip_read [of K R ?T1] by (metis prod.collapse)
  then have "b = on_tip K R T" using assms(2) by (auto simp: on_tip_def)
  moreover have "on_node (rpc_mempool R) (T\<lparr>mempoolBusy := True\<rparr>) = (Inr (Some listing), ?T1)" by (simp add: on_node_def assms(2))
  ultimately have "updateMempool K R bs sha F T = reconvergeMempool K R bs sha F (insertSortedTxids bs [] listing) (on_tip K R T) T2"
    using assms(1) t by (simp add: updateMempool_def omrun_bind)
  moreover have "mempool T2 = mempool T" "db (confirmed T2) = db (confirmed T)"
    using keepsD [OF tip_keeps(1) t] keepsD [OF tip_keeps(2) t] by simp_all
  ultimately show ?thesis by (rule that)
qed

text \<open>However a write transaction ends, the store has none open, and it wrote what was staged or nothing.\<close>

definition flags_only :: "('a \<Rightarrow> (('d, 'n) tracker, 'b) m) \<Rightarrow> bool" where
  "flags_only g \<longleftrightarrow> (\<forall>a T. \<exists>b T'. g a T = (Inr b, T') \<and> mempool T' = mempool T \<and> db (confirmed T') = db (confirmed T))"

context leveldb begin

lemma mem_batch_ends:
  assumes g: "flags_only g" and f: "f (begun T) = (r, s)" and s: "db s = db (mempool T)" "staged_ok s"
    and b: "mem_batch K f g T = (q, T')"
  shows "transactionArray (mempool T') = None" and "db (confirmed T') = db (confirmed T)"
    and "kv_get K (db (mempool T')) = kv_get K (db (mempool T)) \<or> kv_get K (db (mempool T')) = view K s"
proof -
  obtain r2 s2 where e: "endTransaction K True s = (r2, s2)" by (cases "endTransaction K True s")
  have fail: "put_mem (snd (endTransaction K False s')) T = T' \<Longrightarrow> transactionArray (mempool T') = None \<and> db (confirmed T') = db (confirmed T)
      \<and> db (mempool T') = db s'" for s'
    by (auto simp: discard_run)
  have "transactionArray (mempool T') = None \<and> db (confirmed T') = db (confirmed T)
    \<and> (kv_get K (db (mempool T')) = kv_get K (db (mempool T)) \<or> kv_get K (db (mempool T')) = view K s)"
  proof (cases r)
    case (Inl x)
    then have "put_mem (snd (endTransaction K False s)) T = T'" using b f by (simp add: mem_batch_run)
    then show ?thesis using fail [of s] s by simp
  next
    case (Inr a)
    show ?thesis
    proof (cases r2)
      case (Inl x)
      then have "put_mem (snd (endTransaction K False s2)) T = T'" using b f e \<open>r = Inr a\<close> by (simp add: mem_batch_run)
      then show ?thesis using fail [of s2] commit_fails(2) [of s x s2] e Inl s by simp
    next
      case ok: (Inr u)
      obtain c T1 where c: "g a (put_mem s2 T) = (Inr c, T1)" "mempool T1 = s2" "db (confirmed T1) = db (confirmed T)"
        using g unfolding flags_only_def by (metis mem_put(2) mem_put(6))
      then have "T' = T1" using b f e ok Inr by (simp add: mem_batch_run mcatch_def)
      then show ?thesis using c commit_view(1,2) [OF s(2), of s2] e ok by simp
    qed
  qed
  then show "transactionArray (mempool T') = None" "db (confirmed T') = db (confirmed T)"
    "kv_get K (db (mempool T')) = kv_get K (db (mempool T)) \<or> kv_get K (db (mempool T')) = view K s" by simp_all+
qed

lemma stage_ends:
  assumes "stageMempoolBatch K sha F hexs ids c T = (q, T')"
  shows "transactionArray (mempool T') = None" and "db (confirmed T') = db (confirmed T)"
    and "kv_get K (db (mempool T)) k \<noteq> None \<Longrightarrow> kv_get K (db (mempool T')) k \<noteq> None"
proof -
  obtain r s where f: "stageTxs K sha F hexs ids c (begun T) = (r, s)" by (cases "stageTxs K sha F hexs ids c (begun T)")
  have o: "open_batch (begun T)" by simp
  obtain its st where its: "\<forall>it \<in> set its. is_put it \<and> item_key it \<in> tx_space (set ids)" "s = (fold stage its (begun T))\<lparr>stat := st\<rparr>"
    by (rule puts_inD [OF puts_txs [OF order_refl] o f])
  have g: "flags_only (\<lambda>c'. mseq (mmod (\<lambda>T. T\<lparr>mempoolEpoch := mempoolEpoch T + 1\<rparr>)) (mret c'))" by (simp add: flags_only_def)
  have e: "db s = db (mempool T)" "staged_ok s" by (simp_all add: its(2))
  note ends = mem_batch_ends [OF g f e assms [unfolded stage_batch]]
  show "transactionArray (mempool T') = None" "db (confirmed T') = db (confirmed T)" by (rule ends)+
  have "view K s k \<noteq> None" if "kv_get K (db (mempool T)) k \<noteq> None" for k
    using that its puts_effect [of its "kv_get K (db (mempool T))" k] by (simp add: view_fold_stage)
  then show "kv_get K (db (mempool T)) k \<noteq> None \<Longrightarrow> kv_get K (db (mempool T')) k \<noteq> None" using ends(3) by metis
qed

lemma prune_ends:
  assumes b: "binary_search bs" and l: "sorted_wrt (<) l" and m: "tx_keys_ok (kv_get K (db (mempool T)))"
    and p: "pruneMempoolStore K bs l c mayDelete T = (q, T')"
  shows "transactionArray (mempool T') = None" and "db (confirmed T') = db (confirmed T)"
    and "\<not> mayDelete \<Longrightarrow> kv_get K (db (mempool T')) = kv_get K (db (mempool T))"
proof -
  obtain D n where d: "deleteAndCompareTxsNotInList K bs l (\<not> mayDelete) (begun T)
      = (Inr (filter (\<lambda>x. x \<notin> stored_txs (kv_get K (db (mempool T)))) l, n), fold stage (gone_items K (begun T) D) (begun T))"
    "set D = (if \<not> mayDelete then {} else stored_txs (kv_get K (db (mempool T))) - set l)"
    by (rule prune_store [OF b l, of "begun T" "\<not> mayDelete"]) (use m in simp_all)
  have g: "flags_only (\<lambda>(raw', txs, ins, outs). mseq (mmod (\<lambda>T. T\<lparr>mempoolEpoch := mempoolEpoch T + 1,
             mempoolReconverged := (if length raw' > 0 then False else mempoolReconverged T)\<rparr>))
        (mret (raw', c\<lparr>transactionsLess := txs, inputsLess := ins, outputsLess := outs\<rparr>)))"
    by (auto simp: flags_only_def)
  have e: "db (fold stage (gone_items K (begun T) D) (begun T)) = db (mempool T)" "staged_ok (fold stage (gone_items K (begun T) D) (begun T))"
    by simp_all
  note ends = mem_batch_ends [OF g d(1) e p [unfolded prune_batch]]
  show "transactionArray (mempool T') = None" "db (confirmed T') = db (confirmed T)" by (rule ends)+
  assume "\<not> mayDelete"
  then have "D = []" using d(2) by simp
  then have "view K (fold stage (gone_items K (begun T) D) (begun T)) = kv_get K (db (mempool T))" by (simp add: gone_items_def)
  then show "kv_get K (db (mempool T')) = kv_get K (db (mempool T))" using ends(3) by metis
qed

lemma batches_end:
  assumes "transactionArray (mempool T) = None"
  shows "\<exists>q T'. fetchAndStage K R sha F cs c T = Some (q, T') \<and> transactionArray (mempool T') = None
    \<and> db (confirmed T') = db (confirmed T) \<and> (\<forall>k. kv_get K (db (mempool T)) k \<noteq> None \<longrightarrow> kv_get K (db (mempool T')) k \<noteq> None)"
  using assms
proof (induction cs arbitrary: c T)
  case (Cons chunk cs)
  obtain r1 T1 where f: "fetchBatch R chunk 0 T = Some (r1, T1)" and m: "mempool T1 = mempool T" "db (confirmed T1) = db (confirmed T)"
    using fetch_returns [of R chunk 0 T] by blast
  show ?case
  proof (cases r1)
    case (Inl x)
    then show ?thesis using Cons.prems f m by (simp add: ombind_def)
  next
    case (Inr reply)
    obtain r2 T2 where b: "stageMempoolBatch K sha F reply chunk c T1 = (r2, T2)" by (cases "stageMempoolBatch K sha F reply chunk c T1")
    note ends = stage_ends [OF b]
    show ?thesis
    proof (cases r2)
      case (Inl x)
      then show ?thesis using f b m ends Inr by (auto simp: ombind_def omrun_def)
    next
      case c2: (Inr c2)
      have "fetchAndStage K R sha F (chunk # cs) c T = fetchAndStage K R sha F cs c2 T2"
        using f b Inr c2 by (simp add: ombind_def omrun_def)
      then show ?thesis using Cons.IH [OF ends(1), of c2] ends m by auto
    qed
  qed
qed simp

lemma pass_ends:
  assumes b: "binary_search bs" and l: "sorted_wrt (<) raw" and m: "tx_keys_ok (kv_get K (db (mempool T)))"
  shows "\<exists>T'. reconvergeMempool K R bs sha F raw mayDelete T = Some (Inr (), T') \<and> \<not> mempoolBusy T'
    \<and> transactionArray (mempool T') = None \<and> db (confirmed T') = db (confirmed T)
    \<and> (\<not> mayDelete \<longrightarrow> (\<forall>k. kv_get K (db (mempool T)) k \<noteq> None \<longrightarrow> kv_get K (db (mempool T')) k \<noteq> None))"
proof -
  obtain r1 T1 where pr: "pruneMempoolStore K bs raw no_counts mayDelete T = (r1, T1)" by (cases "pruneMempoolStore K bs raw no_counts mayDelete T")
  note ends = prune_ends [OF b l m pr]
  show ?thesis
  proof (cases r1)
    case (Inl x)
    then show ?thesis using pr ends by (auto simp: reconvergeMempool_def ombind_def omcatch_def omrun_def withdrawMempoolReadiness_def)
  next
    case (Inr rc)
    obtain raw' c where rc: "rc = (raw', c)" by (cases rc)
    obtain r2 T2 where f: "fetchAndStage K R sha F (chunks raw') c T1 = Some (r2, T2)"
      and e: "transactionArray (mempool T2) = None" "db (confirmed T2) = db (confirmed T1)"
        "\<forall>k. kv_get K (db (mempool T1)) k \<noteq> None \<longrightarrow> kv_get K (db (mempool T2)) k \<noteq> None"
      using batches_end [OF ends(1)] by blast
    show ?thesis using pr ends e f Inr rc
      by (cases r2) (auto simp: reconvergeMempool_def ombind_def omcatch_def omrun_def withdrawMempoolReadiness_def markMempoolReconverged_def)
  qed
qed

end

text \<open>
  C3. A mempool pass that ends with readiness raised has made the mempool store the node's mempool:
  every transaction the node listed is stored, or the node answered that there is nothing to
  stage for it; and when the committed block is the node's tip, nothing else is stored. The
  store may hold any transactions before the pass.
\<close>

theorem mempool_converges:
  assumes "leveldb K" and "binary_search bs" and "answers_in_order R" and "tx_keys_ok (kv_get K (db (mempool T)))"
    and "\<not> mempoolBusy T" and "rpc_mempool R (node T) = (Some listing, n)"
    and "updateMempool K R bs sha txFromHex T = Some (r, T')" and "mempoolReconverged T'"
  shows "(\<forall>x \<in> set listing. x \<in> stored_txs (kv_get K (db (mempool T'))) \<or> skippable R txFromHex x)
    \<and> (on_tip K R T \<longrightarrow> stored_txs (kv_get K (db (mempool T'))) \<subseteq> set listing)"
proof -
  let ?raw = "insertSortedTxids bs [] listing"
  obtain T2 where u: "updateMempool K R bs sha txFromHex T = reconvergeMempool K R bs sha txFromHex ?raw (on_tip K R T) T2"
    and m: "mempool T2 = mempool T" by (rule pass_unfold [OF assms(5,6)])
  have raw: "sorted_wrt (<) ?raw" "set ?raw = set listing" using binary_search.insert_sorted [OF assms(2), of "[]" listing] by simp_all
  obtain p T3 where p: "pruneMempoolStore K bs ?raw no_counts (on_tip K R T) T2 = (p, T3)"
    by (cases "pruneMempoolStore K bs ?raw no_counts (on_tip K R T) T2")
  have ok: "tx_keys_ok (kv_get K (db (mempool T2)))" using assms(4) m by simp
  have run: "reconvergeMempool K R bs sha txFromHex ?raw (on_tip K R T) T2 = Some (r, T')" using u assms(7) by simp
  have "\<exists>raw' c c' T5. p = Inr (raw', c) \<and> fetchAndStage K R sha txFromHex (chunks raw') c T3 = Some (Inr c', T5) \<and> mempool T' = mempool T5"
    using run assms(8) p by (auto simp: reconvergeMempool_def ombind_def omcatch_def omrun_def withdrawMempoolReadiness_def
      markMempoolReconverged_def split: sum.splits option.splits prod.splits)
  then obtain raw' c c' T5 where p: "pruneMempoolStore K bs ?raw no_counts (on_tip K R T) T2 = (Inr (raw', c), T3)"
    and g: "fetchAndStage K R sha txFromHex (chunks raw') c T3 = Some (Inr c', T5)" and T': "mempool T' = mempool T5"
    using p by blast
  note pr = leveldb.prune_ok [OF assms(1,2) raw(1) ok p]
  note fe = leveldb.batches_ok [OF assms(1) g assms(3)]
  show ?thesis using pr fe raw(2) T' m by (cases "on_tip K R T") (auto simp: concat_chunks)
qed

text \<open>
  C15. However a pass goes - the node down, a batch whose fetch keeps failing, bytes that do not parse,
  a commit that fails - \<open>updateMempool\<close> returns: its retry loop, which has no bound of its own, is
  ended by the guard that throws at the fifth failure in a row. It returns without throwing, the busy
  flag is released, no write transaction of the mempool store is left open and the confirmed store is
  untouched.
\<close>

theorem mempool_pass_ends:
  assumes "leveldb K" and "binary_search bs" and "tx_keys_ok (kv_get K (db (mempool T)))" and "\<not> mempoolBusy T"
    and "transactionArray (mempool T) = None"
  shows "\<exists>T'. updateMempool K R bs sha txFromHex T = Some (Inr (), T') \<and> \<not> mempoolBusy T' \<and> transactionArray (mempool T') = None
    \<and> db (confirmed T') = db (confirmed T)"
proof (cases "rpc_mempool R (node T)")
  case (Pair listing n)
  show ?thesis
  proof (cases listing)
    case None
    then show ?thesis using assms(4,5) Pair by (simp add: updateMempool_def omrun_bind on_node_def)
  next
    case (Some txids)
    let ?raw = "insertSortedTxids bs [] txids"
    obtain T2 where u: "updateMempool K R bs sha txFromHex T = reconvergeMempool K R bs sha txFromHex ?raw (on_tip K R T) T2"
      and m: "mempool T2 = mempool T" "db (confirmed T2) = db (confirmed T)" using Pair Some pass_unfold [OF assms(4)] by metis
    have raw: "sorted_wrt (<) ?raw" using binary_search.insert_sorted [OF assms(2), of "[]" txids] by simp
    have ok: "tx_keys_ok (kv_get K (db (mempool T2)))" using assms(3) m by simp
    show ?thesis using u leveldb.pass_ends [OF assms(1,2) raw ok] m by metis
  qed
qed


subsection \<open>A pass that replaces a stale transaction by a listed one\<close>

definition ex_node :: "int \<Rightarrow> unit rpc" where
  "ex_node tip = \<lparr>rpc_info = \<lambda>N. (Some \<lparr>ci_blocks = tip, ci_progress = None, ci_ibd = False, ci_best = Some (replicate 32 9)\<rparr>, N),
     rpc_hash = \<lambda>i N. (None, N), rpc_block = \<lambda>a h N. (Inl False, N), rpc_reassembled = \<lambda>h N. (Inl False, N),
     rpc_batch = \<lambda>a hs N. ([], N), rpc_mempool = \<lambda>N. (Some [replicate 32 2], N), rpc_rawtxs = \<lambda>hs N. (Some (map Some hs), N),
     rpc_now = \<lambda>N. 0, rpc_iso = \<lambda>N. [], rpc_heapHigh = \<lambda>N. False\<rparr>"

definition ex_parse :: "bytes \<Rightarrow> tx option" where
  "ex_parse raw = Some \<lparr>tx_id = raw, tx_ins = [\<lparr>ti_hash = replicate 32 7, ti_index = 0, ti_standard_input = None\<rparr>], tx_outs = []\<rparr>"

definition ex_pool :: "(ref_db, unit) tracker" where
  "ex_pool = newTracker
     \<lparr>stat = resetCaches, db = \<lparr>ref_entries = [(PREFIX_LAST_BLOCK_HEIGHT, utf8 (hexint 1)), (PREFIX_LAST_BLOCK_HASH, utf8 (b2h (replicate 32 9)))], ref_left = 9\<rparr>,
      transactionArray = None, deletedTransactionArray = None\<rparr>
     \<lparr>stat = resetCaches, db = \<lparr>ref_entries = [(tKey (replicate 32 1), [])], ref_left = 9\<rparr>,
      transactionArray = None, deletedTransactionArray = None\<rparr> () 100 100 False True 0"

lemma ex_pool_fields: "\<not> mempoolBusy ex_pool" "rpc_mempool (ex_node t) (node ex_pool) = (Some [replicate 32 2], ())"
  "kv_get ref_kv (db (mempool ex_pool)) = [tKey (replicate 32 1) \<mapsto> []]" "tx_keys_ok (kv_get ref_kv (db (mempool ex_pool)))"
  "transactionArray (mempool ex_pool) = None" "answers_in_order (ex_node t)"
  by (auto simp: ex_pool_def newTracker_def ex_node_def ref_get_def tx_keys_ok_def answers_in_order_def split: if_splits)

lemma ex_not_skippable: "\<not> skippable (ex_node t) ex_parse x"
  by (auto simp: skippable_def ex_node_def nothing_to_stage_def ex_parse_def)

lemma ex_on_tip: "on_tip ref_kv (ex_node t) ex_pool \<longleftrightarrow> t = 1"
  by (auto simp: on_tip_def committedTipIsNodeTip_def mcatch_def mbind_def on_node_def on_db_def ex_node_def ex_pool_def newTracker_def
      getLastBlockHeight_def getLastBlockHash_def ref_get_def parseInt16_hexint)

theorem mempool_pass_ends_witness:
  "\<exists>T'. updateMempool ref_kv (ex_node 1) ref_search (\<lambda>_. []) ex_parse ex_pool = Some (Inr (), T') \<and> \<not> mempoolBusy T'
    \<and> transactionArray (mempool T') = None \<and> db (confirmed T') = db (confirmed ex_pool)"
  using ex_pool_fields by (intro mempool_pass_ends [OF leveldb_ref_kv search_ref]) simp_all


lemma ex_scans: "in_range (range_of [P_TX]) (tKey (replicate 32 b))" "\<not> in_range (range_of (P_IN_HINT # t)) (tKey (replicate 32 b))"
  "\<not> in_range (range_of (P_OUT_HINT # t)) (tKey (replicate 32 b))"
  by (simp_all add: in_range_of_short MAX_KEY_LEN_def) (simp_all add: tKey_def prefix_defs)

lemma ref_pool_commit:
  assumes "open_batch s" and "ref_left (db s) = Suc n"
  shows "\<exists>s'. endTransaction ref_kv True s = (Inr (), s') \<and> ref_left (db s') = n"
  using assms by (auto simp: endTransaction_def ref_batch_def open_batch_def)

lemma ref_mem_batch:
  assumes "f (begun T) = (Inr a, s)" and "open_batch s" and "ref_left (db s) = Suc n" and "flags_only g"
  shows "\<exists>b T'. mem_batch ref_kv f g T = (Inr b, T') \<and> ref_left (db (mempool T')) = n \<and> (\<exists>s'. g a (put_mem s' T) = (Inr b, T'))"
proof -
  obtain s' where s': "endTransaction ref_kv True s = (Inr (), s')" "ref_left (db s') = n" using ref_pool_commit [OF assms(2,3)] by blast
  obtain b T' where g: "g a (put_mem s' T) = (Inr b, T')" "mempool T' = s'"
    using assms(4) unfolding flags_only_def by (metis mem_put(2))
  then have "mem_batch ref_kv f g T = (Inr b, T')" using assms(1) s' by (simp add: mem_batch_run mcatch_def)
  then show ?thesis using g s' by blast
qed

lemma ex_pass_ready: "\<exists>r T'. updateMempool ref_kv (ex_node 1) ref_search (\<lambda>_. []) ex_parse ex_pool = Some (r, T') \<and> mempoolReconverged T'"
proof -
  let ?b = "replicate 32 2 :: bytes"
  obtain T2 where u: "updateMempool ref_kv (ex_node 1) ref_search (\<lambda>_. []) ex_parse ex_pool
      = reconvergeMempool ref_kv (ex_node 1) ref_search (\<lambda>_. []) ex_parse (insertSortedTxids ref_search [] [?b]) True T2"
    and m: "mempool T2 = mempool ex_pool"
    using ex_on_tip pass_unfold [OF ex_pool_fields(1,2), where K = ref_kv and bs = ref_search and sha = "\<lambda>_. []" and F = ex_parse] by metis
  have l: "insertSortedTxids ref_search [] [?b] = [?b]" by (simp add: ref_search_def)
  have left: "ref_left (db (mempool T2)) = Suc 8" by (simp add: m ex_pool_def newTracker_def)
  have k: "tx_keys_ok (kv_get ref_kv (db (begun T2)))" "open_batch (begun T2)" using ex_pool_fields(4) m by simp_all
  obtain D n where d: "deleteAndCompareTxsNotInList ref_kv ref_search [?b] False (begun T2)
      = (Inr (filter (\<lambda>x. x \<notin> stored_txs (kv_get ref_kv (db (begun T2)))) [?b], n), fold stage (gone_items ref_kv (begun T2) D) (begun T2))"
    by (rule ref.prune_store [OF search_ref _ k, of "[?b]" False]) simp_all
  have f: "filter (\<lambda>x. x \<notin> stored_txs (kv_get ref_kv (db (begun T2)))) [?b] = [?b]"
    using ex_pool_fields(3) m by (simp add: stored_txs_def replicate_eq_replicate)
  obtain c T3 where p: "pruneMempoolStore ref_kv ref_search [?b] no_counts True T2 = (Inr ([?b], c), T3)" "ref_left (db (mempool T3)) = 8"
  proof -
    let ?g = "\<lambda>(raw', txs, ins, outs). mseq (mmod (\<lambda>T. T\<lparr>mempoolEpoch := mempoolEpoch T + 1,
             mempoolReconverged := (if length raw' > 0 then False else mempoolReconverged T)\<rparr>))
        (mret (raw', no_counts\<lparr>transactionsLess := txs, inputsLess := ins, outputsLess := outs\<rparr>))"
    let ?f = "deleteAndCompareTxsNotInList ref_kv ref_search [?b] False"
    let ?s = "fold stage (gone_items ref_kv (begun T2) D) (begun T2)"
    have g: "flags_only ?g" by (auto simp: flags_only_def)
    have s: "open_batch ?s" "ref_left (db ?s) = Suc 8" using left by simp_all
    have "\<exists>b T'. mem_batch ref_kv ?f ?g T2 = (Inr b, T') \<and> ref_left (db (mempool T')) = 8
        \<and> (\<exists>s'. ?g ([?b], n) (put_mem s' T2) = (Inr b, T'))"
      using d [unfolded f] s g by (rule ref_mem_batch)
    then show ?thesis using that unfolding prune_batch by (auto split: prod.splits)
  qed
  have c: "chunks [?b] = [[?b]]" by (subst chunks.simps, subst chunks.simps) (simp add: MEMPOOL_BATCH_SIZE_def)
  have fb: "fetchBatch (ex_node 1) [?b] 0 T3 = Some (Inr [Some ?b], T3)"
    by (subst fetchBatch.simps) (simp add: ex_node_def)
  obtain c1 s1 where st: "stageTxs ref_kv (\<lambda>_. []) ex_parse [Some ?b] [?b] c (begun T3) = (Inr c1, s1)"
    by (simp add: ex_parse_def isStageableMempoolTx_def parseTransaction_def insertTransaction_def builder_ok encodeTx_def falsy_def ZERO_HASH_def
      parseTransactionInputs_def traced_def COINBASE_INDEX_def prevTxHash_def insertInput_def insertInputHint_def encodeInputVal_def
      parseTransactionOutputs_def Let_def)
  have o1: "open_batch s1" "db s1 = db (mempool T3)"
  proof -
    obtain its st where "s1 = (fold stage its (begun T3))\<lparr>stat := st\<rparr>"
      by (rule puts_inD [OF puts_txs [OF order_refl] begun_simps(2) st])
    then show "open_batch s1" "db s1 = db (mempool T3)" by simp_all
  qed
  obtain c2 T4 where b: "stageMempoolBatch ref_kv (\<lambda>_. []) ex_parse [Some ?b] [?b] c T3 = (Inr c2, T4)"
  proof -
    have g: "flags_only (\<lambda>c' :: counts. mseq (mmod (\<lambda>T :: (ref_db, unit) tracker. T\<lparr>mempoolEpoch := mempoolEpoch T + 1\<rparr>)) (mret c'))"
      by (simp add: flags_only_def)
    have n: "ref_left (db s1) = Suc 7" using o1(2) p(2) by simp
    have "\<exists>b T'. stageMempoolBatch ref_kv (\<lambda>_. []) ex_parse [Some ?b] [?b] c T3 = (Inr b, T') \<and> ref_left (db (mempool T')) = 7
        \<and> (\<exists>s'. mseq (mmod (\<lambda>T. T\<lparr>mempoolEpoch := mempoolEpoch T + 1\<rparr>)) (mret c1) (put_mem s' T3) = (Inr b, T'))"
      unfolding stage_batch using st o1(1) n g by (rule ref_mem_batch)
    then show ?thesis using that by blast
  qed
  show ?thesis unfolding u l
    by (simp add: reconvergeMempool_def ombind_def omcatch_def omrun_def p(1) c fb b markMempoolReconverged_def)
qed

lemma stored_single: "length t = 32 \<Longrightarrow> stored_txs [tKey t \<mapsto> v] = {t}"
  by (auto simp: stored_txs_def split: if_splits)

theorem mempool_converges_witness:
  "\<exists>T' :: (ref_db, unit) tracker. stored_txs (kv_get ref_kv (db (mempool T'))) = {replicate 32 2} \<and> mempoolReconverged T'
     \<and> stored_txs (kv_get ref_kv (db (mempool ex_pool))) = {replicate 32 1}"
proof -
  obtain r T' where u: "updateMempool ref_kv (ex_node 1) ref_search (\<lambda>_. []) ex_parse ex_pool = Some (r, T')"
    and r: "mempoolReconverged T'" using ex_pass_ready by blast
  have "replicate 32 2 \<in> stored_txs (kv_get ref_kv (db (mempool T')))" "stored_txs (kv_get ref_kv (db (mempool T'))) \<subseteq> {replicate 32 2}"
    using mempool_converges [OF leveldb_ref_kv search_ref ex_pool_fields(6,4,1,2) u r] ex_not_skippable [of 1 "replicate 32 2"] ex_on_tip [of 1]
    by simp_all
  then have e: "stored_txs (kv_get ref_kv (db (mempool T'))) = {replicate 32 2}" by (intro equalityI) simp_all
  have "stored_txs (kv_get ref_kv (db (mempool ex_pool))) = {replicate 32 1}"
    unfolding ex_pool_fields(3) by (rule stored_single) simp
  with e r show ?thesis by (intro exI conjI)
qed

end
