(* ===== verification/Wire.thy ===== *)
theory Wire
  imports Prelude
begin

text \<open>
  Reading and writing the wire format: the little-endian readers and writers of Node's Buffer,
  and the serialisation helpers of \<^verbatim>\<open>src/chain/bufferutils.js\<close> (the in-process patch of
  \<^verbatim>\<open>src/chain/apply_bufferutils_patch.js\<close> mirrors its 64-bit functions). The package
  varuint-bitcoin is not part of the repository, so it is a parameter: a \<open>varuint\<close> record.

  The last part states the wire layout of a transaction independently of the code: the
  CompactSize encoding \<open>compact\<close>, and the serialisation of inputs, outputs and witnesses that the
  structural readers of the AuxPoW codec and of the MWEB decoder walk over.
\<close>

subsection \<open>Node's Buffer\<close>

definition read_at :: "nat \<Rightarrow> bytes \<Rightarrow> nat \<Rightarrow> error + bytes" where
  "read_at n buf offset =
     (if offset + n \<le> length buf then Inr (slice offset (offset + n) buf) else Inl OutOfRange)"

definition write_at :: "bytes \<Rightarrow> bytes \<Rightarrow> nat \<Rightarrow> error + bytes" where
  "write_at bs buf offset =
     (if offset + length bs \<le> length buf
      then Inr (take offset buf @ bs @ drop (offset + length bs) buf) else Inl OutOfRange)"

definition readUIntLE :: "nat \<Rightarrow> bytes \<Rightarrow> nat \<Rightarrow> error + nat" where
  "readUIntLE n buf offset = rbind (read_at n buf offset) (\<lambda>bs. Inr (unle bs))"

definition readInt32LE :: "bytes \<Rightarrow> nat \<Rightarrow> error + int" where
  "readInt32LE buf offset = rbind (readUIntLE 4 buf offset) (\<lambda>v. Inr (sint (of_nat v :: u32)))"

definition writeUIntLE :: "nat \<Rightarrow> int \<Rightarrow> bytes \<Rightarrow> nat \<Rightarrow> error + bytes" where
  "writeUIntLE n v buf offset =
     (if v < 0 \<or> v \<ge> 256 ^ n then Inl OutOfRange else write_at (le n (nat v)) buf offset)"

definition writeInt32LE :: "int \<Rightarrow> bytes \<Rightarrow> nat \<Rightarrow> error + bytes" where
  "writeInt32LE v buf offset =
     (if v < - (2 ^ 31) \<or> v \<ge> 2 ^ 31 then Inl OutOfRange
      else write_at (le 4 (nat (v mod 2 ^ 32))) buf offset)"

text \<open>
  A 64-bit count read as a JavaScript Number is rounded to 53 significant bits, half to even.
\<close>

fun excess_bits :: "nat \<Rightarrow> nat \<Rightarrow> nat" where
  "excess_bits 0 v = 0"
| "excess_bits (Suc k) v = (if v < 2 ^ 53 then 0 else Suc (excess_bits k (v div 2)))"

definition toNumber :: "nat \<Rightarrow> nat" where
  "toNumber v = (let u = 2 ^ excess_bits 11 v; q = v div u; r = v mod u in
     if 2 * r > u \<or> 2 * r = u \<and> odd q then (q + 1) * u else q * u)"

definition MAX_SAFE_INTEGER :: nat where
  "MAX_SAFE_INTEGER = 9007199254740991"

lemma toNumber_exact [simp]: "v < 2 ^ 53 \<Longrightarrow> toNumber v = v"
  using excess_bits.simps(2) [of 10 v] by (simp add: toNumber_def)

subsection \<open>The 64-bit helpers\<close>

definition verifuint :: "int \<Rightarrow> int \<Rightarrow> error + unit" where
  "verifuint v mx =
     (if v < 0 then Inl (WireError ''specified a negative value for writing an unsigned value'')
      else if v > mx then Inl (WireError ''RangeError: value out of range'')
      else Inr ())"

definition readUInt64LE :: "bytes \<Rightarrow> nat \<Rightarrow> error + nat" where
  "readUInt64LE buf offset =
     rbind (readUIntLE 4 buf offset) (\<lambda>a.
     rbind (readUIntLE 4 buf (offset + 4)) (\<lambda>b.
     let s = toNumber (b * 0x100000000 + a) in
     rbind (verifuint (int s) 0x001fffffffffffff) (\<lambda>_. Inr s)))"

definition writeUInt64LE :: "bytes \<Rightarrow> int \<Rightarrow> nat \<Rightarrow> error + (bytes \<times> nat)" where
  "writeUInt64LE buf v offset =
     rbind (verifuint v 0x001fffffffffffff) (\<lambda>_.
     rbind (writeInt32LE (sint (of_int v :: u32)) buf offset) (\<lambda>buf1.
     rbind (writeUIntLE 4 (v div 0x100000000) buf1 (offset + 4)) (\<lambda>buf2.
     Inr (buf2, offset + 8))))"

text \<open>\<open>reverseBuffer\<close> swaps the ends inwards, in place, for the first half of the indices.\<close>

fun swapEnds :: "nat \<Rightarrow> nat \<Rightarrow> nat \<Rightarrow> bytes \<Rightarrow> bytes" where
  "swapEnds 0 i j buf = buf"
| "swapEnds (Suc k) i j buf = swapEnds k (Suc i) (j - 1) (buf[i := buf ! j, j := buf ! i])"

definition reverseBuffer :: "bytes \<Rightarrow> bytes" where
  "reverseBuffer buf =
     (if length buf < 1 then buf else swapEnds ((length buf + 1) div 2) 0 (length buf - 1) buf)"

subsection \<open>BufferWriter and BufferReader\<close>

record varuint =
  vu_encode :: "nat \<Rightarrow> error + bytes"
  vu_decode :: "bytes \<Rightarrow> nat \<Rightarrow> error + (nat \<times> nat)"

record cursor =
  cu_buffer :: bytes
  cu_offset :: nat

definition withCapacity :: "nat \<Rightarrow> cursor" where
  "withCapacity sz = \<lparr>cu_buffer = replicate sz 0, cu_offset = 0\<rparr>"

definition put_with :: "(bytes \<Rightarrow> nat \<Rightarrow> error + bytes) \<Rightarrow> nat \<Rightarrow> (cursor, unit) m" where
  "put_with w n = mbind (mget (\<lambda>c. w (cu_buffer c) (cu_offset c))) (\<lambda>r. mbind (mlift r) (\<lambda>b.
     mmod (\<lambda>c. c\<lparr>cu_buffer := b, cu_offset := cu_offset c + n\<rparr>)))"

definition bw_writeUInt8 :: "int \<Rightarrow> (cursor, unit) m" where
  "bw_writeUInt8 i = put_with (writeUIntLE 1 i) 1"

definition bw_writeInt32 :: "int \<Rightarrow> (cursor, unit) m" where
  "bw_writeInt32 i = put_with (writeInt32LE i) 4"

definition bw_writeUInt32 :: "int \<Rightarrow> (cursor, unit) m" where
  "bw_writeUInt32 i = put_with (writeUIntLE 4 i) 4"

definition bw_writeUInt64 :: "int \<Rightarrow> (cursor, unit) m" where
  "bw_writeUInt64 v = put_with (writeUIntLE 8 v) 8"

definition bw_writeVarInt :: "varuint \<Rightarrow> nat \<Rightarrow> (cursor, unit) m" where
  "bw_writeVarInt V i = mbind (mlift (vu_encode V i)) (\<lambda>e. put_with (write_at e) (length e))"

definition bw_writeSlice :: "bytes \<Rightarrow> (cursor, unit) m" where
  "bw_writeSlice s = put_with (\<lambda>buf offset.
     if length buf < offset + length s then Inl (WireError ''Cannot write slice out of bounds'')
     else write_at s buf offset) (length s)"

definition bw_writeVarSlice :: "varuint \<Rightarrow> bytes \<Rightarrow> (cursor, unit) m" where
  "bw_writeVarSlice V s = mseq (bw_writeVarInt V (length s)) (bw_writeSlice s)"

definition bw_writeVector :: "varuint \<Rightarrow> bytes list \<Rightarrow> (cursor, unit) m" where
  "bw_writeVector V v = mseq (bw_writeVarInt V (length v)) (mfor v (bw_writeVarSlice V))"

definition bw_end :: "(cursor, bytes) m" where
  "bw_end = mbind (mget (\<lambda>c. c)) (\<lambda>c.
     if length (cu_buffer c) = cu_offset c then mret (cu_buffer c) else mthrow (WireError ''buffer size''))"

definition get_with :: "(bytes \<Rightarrow> nat \<Rightarrow> error + 'a) \<Rightarrow> nat \<Rightarrow> (cursor, 'a) m" where
  "get_with r n = mbind (mget (\<lambda>c. r (cu_buffer c) (cu_offset c))) (\<lambda>v. mbind (mlift v) (\<lambda>x.
     mseq (mmod (\<lambda>c. c\<lparr>cu_offset := cu_offset c + n\<rparr>)) (mret x)))"

definition br_readUInt8 :: "(cursor, nat) m" where
  "br_readUInt8 = get_with (readUIntLE 1) 1"

definition br_readInt32 :: "(cursor, int) m" where
  "br_readInt32 = get_with readInt32LE 4"

definition br_readUInt32 :: "(cursor, nat) m" where
  "br_readUInt32 = get_with (readUIntLE 4) 4"

definition br_readUInt64 :: "(cursor, nat) m" where
  "br_readUInt64 = get_with (readUIntLE 8) 8"

definition br_readVarInt :: "varuint \<Rightarrow> (cursor, nat) m" where
  "br_readVarInt V = mbind (mget (\<lambda>c. vu_decode V (cu_buffer c) (cu_offset c))) (\<lambda>r. mbind (mlift r) (\<lambda>(vi, n).
     mseq (mmod (\<lambda>c. c\<lparr>cu_offset := cu_offset c + n\<rparr>)) (mret vi)))"

definition br_readSlice :: "nat \<Rightarrow> (cursor, bytes) m" where
  "br_readSlice n = get_with (\<lambda>buf offset.
     if length buf < offset + n then Inl (WireError ''Cannot read slice out of bounds'')
     else Inr (slice offset (offset + n) buf)) n"

definition br_readVarSlice :: "varuint \<Rightarrow> (cursor, bytes) m" where
  "br_readVarSlice V = mbind (br_readVarInt V) br_readSlice"

fun br_readSlices :: "varuint \<Rightarrow> nat \<Rightarrow> (cursor, bytes list) m" where
  "br_readSlices V 0 = mret []"
| "br_readSlices V (Suc n) = mbind (br_readVarSlice V) (\<lambda>s. mbind (br_readSlices V n) (\<lambda>ss. mret (s # ss)))"

definition br_readVector :: "varuint \<Rightarrow> (cursor, bytes list) m" where
  "br_readVector V = mbind (br_readVarInt V) (br_readSlices V)"

subsection \<open>What is written is read back\<close>

text \<open>The fields a serialisation is made of, each with the method that writes it and the one that reads it.\<close>

datatype field = FUInt8 nat | FInt32 int | FUInt32 nat | FUInt64 nat | FVarInt nat
  | FSlice bytes | FVarSlice bytes | FVector "bytes list"

fun write_field :: "varuint \<Rightarrow> field \<Rightarrow> (cursor, unit) m" where
  "write_field V (FUInt8 i) = bw_writeUInt8 (int i)"
| "write_field V (FInt32 i) = bw_writeInt32 i"
| "write_field V (FUInt32 i) = bw_writeUInt32 (int i)"
| "write_field V (FUInt64 i) = bw_writeUInt64 (int i)"
| "write_field V (FVarInt i) = bw_writeVarInt V i"
| "write_field V (FSlice s) = bw_writeSlice s"
| "write_field V (FVarSlice s) = bw_writeVarSlice V s"
| "write_field V (FVector v) = bw_writeVector V v"

text \<open>The reader of the field that has the shape of \<open>f\<close>.\<close>

fun read_field :: "varuint \<Rightarrow> field \<Rightarrow> (cursor, field) m" where
  "read_field V (FUInt8 _) = mbind br_readUInt8 (\<lambda>i. mret (FUInt8 i))"
| "read_field V (FInt32 _) = mbind br_readInt32 (\<lambda>i. mret (FInt32 i))"
| "read_field V (FUInt32 _) = mbind br_readUInt32 (\<lambda>i. mret (FUInt32 i))"
| "read_field V (FUInt64 _) = mbind br_readUInt64 (\<lambda>i. mret (FUInt64 i))"
| "read_field V (FVarInt _) = mbind (br_readVarInt V) (\<lambda>i. mret (FVarInt i))"
| "read_field V (FSlice s) = mbind (br_readSlice (length s)) (\<lambda>x. mret (FSlice x))"
| "read_field V (FVarSlice _) = mbind (br_readVarSlice V) (\<lambda>x. mret (FVarSlice x))"
| "read_field V (FVector _) = mbind (br_readVector V) (\<lambda>x. mret (FVector x))"

fun read_fields :: "varuint \<Rightarrow> field list \<Rightarrow> (cursor, field list) m" where
  "read_fields V [] = mret []"
| "read_fields V (f # fs) = mbind (read_field V f) (\<lambda>x. mbind (read_fields V fs) (\<lambda>xs. mret (x # xs)))"

text \<open>Documented behaviour of varuint-bitcoin: decoding where a number was encoded gives the number and its width.\<close>

definition varuint_ok :: "varuint \<Rightarrow> bool" where
  "varuint_ok V \<longleftrightarrow> (\<forall>i e p s. vu_encode V i = Inr e \<longrightarrow> vu_decode V (p @ e @ s) (length p) = Inr (i, length e))"

text \<open>
  \<open>picks r e x\<close>: a reader that meets \<open>e\<close> at the offset gives \<open>x\<close> and moves past it.
  \<open>paired w r x\<close>: where \<open>w\<close> succeeds it puts some bytes at the offset, moves past them and changes
  no other byte, and \<open>r\<close> reads \<open>x\<close> from those bytes.
\<close>

definition picks :: "(cursor, 'a) m \<Rightarrow> bytes \<Rightarrow> 'a \<Rightarrow> bool" where
  "picks r e x \<longleftrightarrow> (\<forall>p s. r \<lparr>cu_buffer = p @ e @ s, cu_offset = length p\<rparr>
     = (Inr x, \<lparr>cu_buffer = p @ e @ s, cu_offset = length p + length e\<rparr>))"

definition overlay :: "cursor \<Rightarrow> bytes \<Rightarrow> cursor" where
  "overlay c e = \<lparr>cu_buffer = take (cu_offset c) (cu_buffer c) @ e @ drop (cu_offset c + length e) (cu_buffer c),
                  cu_offset = cu_offset c + length e\<rparr>"

definition paired :: "(cursor, unit) m \<Rightarrow> (cursor, 'a) m \<Rightarrow> 'a \<Rightarrow> bool" where
  "paired w r x \<longleftrightarrow> (\<forall>c c'. cu_offset c \<le> length (cu_buffer c) \<longrightarrow> w c = (Inr (), c') \<longrightarrow>
     (\<exists>e. cu_offset c + length e \<le> length (cu_buffer c) \<and> c' = overlay c e \<and> picks r e x))"

lemma picks_mbind: "picks r1 e1 x \<Longrightarrow> picks (r2 x) e2 y \<Longrightarrow> picks (mbind r1 r2) (e1 @ e2) y"
proof -
  assume r1: "picks r1 e1 x" and r2: "picks (r2 x) e2 y"
  show ?thesis
    unfolding picks_def
  proof (intro allI)
    fix p s
    have a: "r1 \<lparr>cu_buffer = p @ e1 @ e2 @ s, cu_offset = length p\<rparr>
      = (Inr x, \<lparr>cu_buffer = p @ e1 @ e2 @ s, cu_offset = length p + length e1\<rparr>)"
      using r1 unfolding picks_def by blast
    have b: "r2 x \<lparr>cu_buffer = (p @ e1) @ e2 @ s, cu_offset = length (p @ e1)\<rparr>
      = (Inr y, \<lparr>cu_buffer = (p @ e1) @ e2 @ s, cu_offset = length (p @ e1) + length e2\<rparr>)"
      using r2 unfolding picks_def by blast
    show "mbind r1 r2 \<lparr>cu_buffer = p @ (e1 @ e2) @ s, cu_offset = length p\<rparr>
      = (Inr y, \<lparr>cu_buffer = p @ (e1 @ e2) @ s, cu_offset = length p + length (e1 @ e2)\<rparr>)"
      using a b by (simp add: mbind_def add.assoc)
  qed
qed

lemma picks_mret: "picks r e x \<Longrightarrow> picks (mbind r (\<lambda>x. mret (h x))) e (h x)"
  using picks_mbind [of r e x "\<lambda>x. mret (h x)" "[]" "h x"] by (simp add: picks_def)

lemma overlay_overlay:
  "cu_offset c + length e1 \<le> length (cu_buffer c) \<Longrightarrow> overlay (overlay c e1) e2 = overlay c (e1 @ e2)"
  by (simp add: overlay_def add.assoc add.left_commute add.commute)

lemma paired_seq:
  assumes "paired w1 r1 x" and "paired w2 (r2 x) y"
  shows "paired (mseq w1 w2) (mbind r1 r2) y"
  unfolding paired_def
proof (intro allI impI)
  fix c c' :: cursor
  assume l: "cu_offset c \<le> length (cu_buffer c)"
  assume "mseq w1 w2 c = (Inr (), c')"
  then obtain c1 where w: "w1 c = (Inr (), c1)" "w2 c1 = (Inr (), c')" by (auto simp: mseq_Inr_iff)
  obtain e1 where e1: "cu_offset c + length e1 \<le> length (cu_buffer c)" "c1 = overlay c e1" "picks r1 e1 x"
    using assms(1) w(1) l unfolding paired_def by blast
  have l1: "cu_offset c1 \<le> length (cu_buffer c1)" using e1 by (simp add: overlay_def)
  obtain e2 where e2: "cu_offset c1 + length e2 \<le> length (cu_buffer c1)" "c' = overlay c1 e2" "picks (r2 x) e2 y"
    using assms(2) w(2) l1 unfolding paired_def by blast
  show "\<exists>e. cu_offset c + length e \<le> length (cu_buffer c) \<and> c' = overlay c e \<and> picks (mbind r1 r2) e y"
  proof (intro exI [of _ "e1 @ e2"] conjI)
    show "cu_offset c + length (e1 @ e2) \<le> length (cu_buffer c)" using e1(1,2) e2(1) by (simp add: overlay_def)
    show "c' = overlay c (e1 @ e2)" using e1(1,2) e2(2) by (simp add: overlay_overlay)
    show "picks (mbind r1 r2) (e1 @ e2) y" using e1(3) e2(3) by (rule picks_mbind)
  qed
qed

lemma paired_mret: "paired w r x \<Longrightarrow> paired w (mbind r (\<lambda>x. mret (h x))) (h x)"
  unfolding paired_def using picks_mret [of r _ x h] by fast

lemma write_at_Inr: "write_at e buf off = Inr b \<longleftrightarrow> off + length e \<le> length buf
    \<and> b = take off buf @ e @ drop (off + length e) buf"
  by (auto simp: write_at_def)

text \<open>A fixed-width writer and the reader of that width.\<close>

lemma paired_fixed:
  assumes "\<And>buf off b. w buf off = Inr b \<Longrightarrow> write_at e buf off = Inr b"
    and "length e = n" and "\<And>p s. r (p @ e @ s) (length p) = Inr x"
  shows "paired (put_with w n) (get_with r n) x"
  unfolding paired_def
proof (intro allI impI)
  fix c c'
  assume "put_with w n c = (Inr (), c')"
  then obtain b where b: "w (cu_buffer c) (cu_offset c) = Inr b" "c' = c\<lparr>cu_buffer := b, cu_offset := cu_offset c + n\<rparr>"
    by (auto simp: put_with_def mbind_Inr_iff)
  have "picks (get_with r n) e x"
    using assms(2,3) by (auto simp: picks_def get_with_def)
  moreover have "write_at e (cu_buffer c) (cu_offset c) = Inr b" by (rule assms(1) [OF b(1)])
  ultimately show "\<exists>e. cu_offset c + length e \<le> length (cu_buffer c) \<and> c' = overlay c e \<and> picks (get_with r n) e x"
    using b(2) assms(2) by (intro exI [of _ e]) (auto simp: write_at_Inr overlay_def)
qed

lemma slice_mid [simp]: "length e = n \<Longrightarrow> slice (length p) (length p + n) (p @ e @ s) = e"
  by (simp add: slice_exact)

lemma read_at_mid [simp]: "length e = n \<Longrightarrow> read_at n (p @ e @ s) (length p) = Inr e"
  by (simp add: read_at_def)

lemma paired_uint: "paired (put_with (writeUIntLE n (int i)) n) (get_with (readUIntLE n) n) i"
proof (cases "i < 256 ^ n")
  case True
  then show ?thesis
    by (intro paired_fixed [where e = "le n i"]) (auto simp: writeUIntLE_def readUIntLE_def split: if_splits)
next
  case False
  then have "\<not> int i < 256 ^ n" by (metis of_nat_less_iff of_nat_numeral of_nat_power)
  then show ?thesis by (auto simp: paired_def put_with_def writeUIntLE_def)
qed

lemma sint_of_nat32:
  assumes "- 2147483648 \<le> i" and "i < 2147483648"
  shows "sint (of_nat (nat (i mod 4294967296)) :: u32) = i" "sint (word_of_int (i mod 4294967296) :: u32) = i"
proof -
  have "(word_of_int (i mod 4294967296) :: u32) = word_of_int i"
    by transfer (simp add: take_bit_eq_mod)
  moreover have "sint (word_of_int i :: u32) = i"
    using assms by (simp add: sint_sbintrunc' signed_take_bit_int_eq_self)
  ultimately show "sint (of_nat (nat (i mod 4294967296)) :: u32) = i" "sint (word_of_int (i mod 4294967296) :: u32) = i"
    by simp_all
qed

lemma paired_int32: "paired (bw_writeInt32 i) br_readInt32 i"
proof (cases "- (2 ^ 31) \<le> i \<and> i < 2 ^ 31")
  case True
  have v: "nat (i mod 4294967296) mod 4294967296 = nat (i mod 4294967296)" by simp
  have "sint (of_nat (nat (i mod 4294967296)) :: u32) = i"
    using sint_of_nat32 [of i] True by simp
  then have "readInt32LE (p @ le 4 (nat (i mod 4294967296)) @ s) (length p) = Inr i" for p s
    by (simp add: readInt32LE_def readUIntLE_def v)
  then show ?thesis
    unfolding bw_writeInt32_def br_readInt32_def
    by (intro paired_fixed [where e = "le 4 (nat (i mod 4294967296))"]) (auto simp: writeInt32LE_def split: if_splits)
next
  case False
  then show ?thesis by (auto simp: paired_def bw_writeInt32_def put_with_def writeInt32LE_def)
qed

lemma paired_slice: "paired (bw_writeSlice e) (br_readSlice (length e)) e"
  unfolding bw_writeSlice_def br_readSlice_def
  by (rule paired_fixed [where e = e]) (auto split: if_splits)

lemma paired_varint:
  assumes "varuint_ok V"
  shows "paired (bw_writeVarInt V i) (br_readVarInt V) i"
  unfolding paired_def
proof (intro allI impI)
  fix c c'
  assume "bw_writeVarInt V i c = (Inr (), c')"
  then obtain e b where e: "vu_encode V i = Inr e" "write_at e (cu_buffer c) (cu_offset c) = Inr b"
    "c' = c\<lparr>cu_buffer := b, cu_offset := cu_offset c + length e\<rparr>"
    by (auto simp: bw_writeVarInt_def put_with_def mbind_Inr_iff)
  have "picks (br_readVarInt V) e i"
    using assms e(1) by (simp add: picks_def br_readVarInt_def varuint_ok_def)
  then show "\<exists>e. cu_offset c + length e \<le> length (cu_buffer c) \<and> c' = overlay c e \<and> picks (br_readVarInt V) e i"
    using e(2,3) by (intro exI [of _ e]) (auto simp: write_at_Inr overlay_def)
qed

lemma paired_varslice: "varuint_ok V \<Longrightarrow> paired (bw_writeVarSlice V e) (br_readVarSlice V) e"
  unfolding bw_writeVarSlice_def br_readVarSlice_def by (intro paired_seq [where x = "length e"] paired_varint paired_slice)

lemma paired_mret_const: "paired (mret ()) (mret x) x"
  by (auto simp: paired_def picks_def overlay_def intro!: exI [of _ "[]"])

lemma paired_slices: "varuint_ok V \<Longrightarrow> paired (mfor v (bw_writeVarSlice V)) (br_readSlices V (length v)) v"
proof (induction v)
  case Nil
  then show ?case by (simp only: mfor.simps br_readSlices.simps read_fields.simps list.size paired_mret_const)
next
  case (Cons e v)
  have "paired (mseq (bw_writeVarSlice V e) (mfor v (bw_writeVarSlice V)))
    (mbind (br_readVarSlice V) (\<lambda>s. mbind (br_readSlices V (length v)) (\<lambda>ss. mret (s # ss)))) (e # v)"
    by (rule paired_seq [where x = e]) (auto intro: paired_varslice paired_mret Cons)
  then show ?case by simp
qed

lemma paired_field: "varuint_ok V \<Longrightarrow> paired (write_field V f) (read_field V f) f"
  by (cases f) (auto simp: bw_writeUInt8_def br_readUInt8_def bw_writeUInt32_def br_readUInt32_def bw_writeUInt64_def
      br_readUInt64_def bw_writeVector_def br_readVector_def
      intro!: paired_mret paired_uint paired_int32 paired_slice paired_varint paired_varslice
        paired_seq [where x = "length _"] paired_slices)

lemma paired_fields: "varuint_ok V \<Longrightarrow> paired (mfor fs (write_field V)) (read_fields V fs) fs"
proof (induction fs)
  case Nil
  then show ?case by (simp only: mfor.simps br_readSlices.simps read_fields.simps list.size paired_mret_const)
next
  case (Cons f fs)
  have "paired (mseq (write_field V f) (mfor fs (write_field V)))
    (mbind (read_field V f) (\<lambda>x. mbind (read_fields V fs) (\<lambda>xs. mret (x # xs)))) (f # fs)"
    by (rule paired_seq [where x = f]) (auto intro: paired_field paired_mret Cons)
  then show ?case by simp
qed

text \<open>
  C35. Whatever sequence of fields a BufferWriter of the patched bufferutils writes without
  throwing, a BufferReader over the bytes that \<open>end\<close> returns reads the same fields back, with
  every value at its full range (an unsigned 64-bit amount above \<open>2 ^ 53\<close> included) and ends at
  the end of the buffer.
\<close>

theorem written_fields_read_back:
  assumes "varuint_ok V" and "mseq (mfor fs (write_field V)) bw_end (withCapacity n) = (Inr buf, c)"
  shows "length buf = n \<and> read_fields V fs \<lparr>cu_buffer = buf, cu_offset = 0\<rparr>
    = (Inr fs, \<lparr>cu_buffer = buf, cu_offset = length buf\<rparr>)"
proof -
  obtain c1 where w: "mfor fs (write_field V) (withCapacity n) = (Inr (), c1)" and e: "bw_end c1 = (Inr buf, c)"
    using assms(2) by (auto simp: mseq_Inr_iff)
  obtain x where x: "length x \<le> n" "c1 = overlay (withCapacity n) x" "picks (read_fields V fs) x fs"
  proof -
    have "cu_offset (withCapacity n) \<le> length (cu_buffer (withCapacity n))" by (simp add: withCapacity_def)
    then obtain x where "cu_offset (withCapacity n) + length x \<le> length (cu_buffer (withCapacity n))"
      "c1 = overlay (withCapacity n) x" "picks (read_fields V fs) x fs"
      using paired_fields [OF assms(1), of fs] w unfolding paired_def by blast
    then show ?thesis using that by (simp add: withCapacity_def)
  qed
  have b: "buf = x" "length x = n"
    using e x by (auto simp: bw_end_def overlay_def withCapacity_def split: if_splits)
  then show ?thesis
    using x(3) [unfolded picks_def, rule_format, of "[]" "[]"] by simp
qed

definition varuint_short :: varuint where
  "varuint_short = \<lparr>vu_encode = (\<lambda>i. if i < 0xFD then Inr [of_nat i] else Inl OutOfRange),
     vu_decode = (\<lambda>buf off. rbind (readUIntLE 1 buf off) (\<lambda>i. if i < 0xFD then Inr (i, 1) else Inl OutOfRange))\<rparr>"

lemma varuint_short_ok: "varuint_ok varuint_short"
proof -
  have "readUIntLE 1 (p @ [of_nat i] @ s) (length p) = Inr i" if "i < 253" for i p and s :: bytes
    using read_at_mid [of "[of_nat i]" 1 p s] that by (simp add: readUIntLE_def unle_def unbe_def)
  then show ?thesis by (auto simp: varuint_ok_def varuint_short_def split: if_splits)
qed

definition fields_example :: "field list" where
  "fields_example = [FUInt64 (2 ^ 60 + 1), FVarSlice [1, 2], FInt32 (-5), FVector [[7], []]]"

theorem written_fields_read_back_witness:
  "\<exists>buf c. mseq (mfor fields_example (write_field varuint_short)) bw_end (withCapacity 19) = (Inr buf, c)
   \<and> read_fields varuint_short fields_example \<lparr>cu_buffer = buf, cu_offset = 0\<rparr>
     = (Inr fields_example, \<lparr>cu_buffer = buf, cu_offset = length buf\<rparr>)"
proof -
  have "\<exists>buf c. mseq (mfor fields_example (write_field varuint_short)) bw_end (withCapacity 19) = (Inr buf, c)"
    by (simp add: fields_example_def varuint_short_def withCapacity_def bw_end_def bw_writeUInt64_def bw_writeVarSlice_def
        bw_writeVarInt_def bw_writeSlice_def bw_writeInt32_def bw_writeVector_def put_with_def writeUIntLE_def
        writeInt32LE_def write_at_def mseq_def mbind_def)
  then show ?thesis using written_fields_read_back [OF varuint_short_ok] by blast
qed

subsection \<open>The 64-bit helpers and the reversal\<close>

lemma swapEnds_rev:
  "length p = i \<Longrightarrow> length q = i \<Longrightarrow> swapEnds ((length b + 1) div 2) i (i + length b - 1) (p @ b @ q) = p @ rev b @ q"
proof (induction b arbitrary: i p q rule: length_induct)
  case (1 b)
  consider "b = []" | x where "b = [x]" | x m y where "b = x # m @ [y]"
    by (metis neq_Nil_conv rev_exhaust)
  then show ?case
  proof cases
    case 3
    have k: "(length b + 1) div 2 = Suc ((length m + 1) div 2)" using 3 by simp
    have "swapEnds ((length m + 1) div 2) (Suc i) (Suc i + length m - 1) ((p @ [y]) @ m @ ([x] @ q)) = (p @ [y]) @ rev m @ ([x] @ q)"
      using 1 3 by (intro "1.IH" [rule_format]) simp_all
    moreover have "(p @ b @ q)[i := (p @ b @ q) ! (i + length b - 1), i + length b - 1 := (p @ b @ q) ! i] = (p @ [y]) @ m @ ([x] @ q)"
      using 1(2,3) 3 by (simp add: nth_append list_update_append)
    ultimately show ?thesis using 3 k by simp
  qed (use 1 in \<open>simp_all add: nth_append list_update_append\<close>)
qed

lemma reverseBuffer_rev: "reverseBuffer buf = rev buf"
  using swapEnds_rev [of "[]" 0 "[]" buf] by (simp add: reverseBuffer_def)

subsection \<open>The layout of a transaction\<close>

text \<open>
  The CompactSize form of a count, and the transaction layout of Bitcoin and its descendants:
  what a node writes, stated independently of the code that walks over it. An input is its
  36-byte outpoint, its script and its 4-byte sequence; an output its 8-byte amount and its
  script; the witness of an input is a list of items.
\<close>

definition compact :: "nat \<Rightarrow> bytes" where
  "compact v = (if v < 0xFD then [of_nat v] else if v \<le> 0xFFFF then 0xFD # le 2 v
     else if v \<le> 0xFFFFFFFF then 0xFE # le 4 v else 0xFF # le 8 v)"

type_synonym wire_in = "bytes \<times> bytes \<times> bytes"
type_synonym wire_out = "bytes \<times> bytes"

definition ser_var :: "bytes \<Rightarrow> bytes" where
  "ser_var s = compact (length s) @ s"

definition ser_in :: "wire_in \<Rightarrow> bytes" where
  "ser_in i = (case i of (prevout, script, sequence) \<Rightarrow> prevout @ ser_var script @ sequence)"

definition ser_out :: "wire_out \<Rightarrow> bytes" where
  "ser_out x = (case x of (amount, script) \<Rightarrow> amount @ ser_var script)"

definition ser_stack :: "bytes list \<Rightarrow> bytes" where
  "ser_stack items = compact (length items) @ concat (map ser_var items)"

definition ser_vec :: "('a \<Rightarrow> bytes) \<Rightarrow> 'a list \<Rightarrow> bytes" where
  "ser_vec f xs = compact (length xs) @ concat (map f xs)"

definition small :: "'a list \<Rightarrow> bool" where
  "small xs \<longleftrightarrow> length xs < 2 ^ 53"

definition in_ok :: "wire_in \<Rightarrow> bool" where
  "in_ok i = (case i of (prevout, script, sequence) \<Rightarrow> length prevout = 36 \<and> small script \<and> length sequence = 4)"

definition out_ok :: "wire_out \<Rightarrow> bool" where
  "out_ok x = (case x of (amount, script) \<Rightarrow> length amount = 8 \<and> small script)"

definition stack_ok :: "bytes list \<Rightarrow> bool" where
  "stack_ok items \<longleftrightarrow> small items \<and> (\<forall>i \<in> set items. small i)"

lemma compact_nonempty [simp]: "compact v \<noteq> []"
  by (simp add: compact_def)

lemma hd_compact: "hd (compact v) = (if v < 0xFD then of_nat v else if v \<le> 0xFFFF then 0xFD
     else if v \<le> 0xFFFFFFFF then 0xFE else 0xFF)"
  by (simp add: compact_def)

lemma readUIntLE_le [simp]:
  "v < 256 ^ n \<Longrightarrow> readUIntLE n (p @ le n v @ s) (length p) = Inr v"
  by (simp add: readUIntLE_def)

lemma readUIntLE_le_Cons:
  "v < 256 ^ n \<Longrightarrow> readUIntLE n (p @ b # le n v @ s) (Suc (length p)) = Inr v"
  using readUIntLE_le [of v n "p @ [b]" s] by simp

lemma be_add: "be (m + n) v = be m (v div 256 ^ n) @ be n v"
  by (induction n arbitrary: v) (simp_all add: div_mult2_eq)

lemma le_add: "le (m + n) v = le n v @ le m (v div 256 ^ n)"
  by (simp add: le_def be_add)

lemma be_mod: "be n (v mod 256 ^ n) = be n v"
  by (metis be_unbe length_be unbe_be)

lemma le_mod: "le n (v mod 256 ^ n) = le n v"
  by (simp add: le_def be_mod)

lemma le_8: "le 8 v = le 4 v @ le 4 (v div 4294967296)"
  using le_add [of 4 4 v] by simp

end
