(* ===== verification/AuxPow.thy ===== *)
theory AuxPow
  imports Wire Hexadecimal
begin

text \<open>
  The AuxPoW codec of merge-mined blocks, \<^verbatim>\<open>src/chain/blockchain_connector/auxpow_codec.js\<close>: the
  varint text, the structural walk over the AuxPoW section, the check that a stripped block is one
  whole block, and the two cuts that strip the section from a block's hex. The block parser is
  bitcoinjs-lib's and a parameter (record \<open>bitcoinjs\<close>). The layout of an AuxPoW section is stated
  apart from the code (\<open>ser_auxpow\<close>), and the walk is shown to end exactly behind it.
\<close>

unbundle bit_operations_syntax

subsection \<open>Varints\<close>

definition encodeVarintHex :: "nat \<Rightarrow> error + string" where
  "encodeVarintHex v =
     (if v < 0xFD then Inr (padStart 2 (CHR ''0'') (toString16 v))
      else if v \<le> 0xFFFF then Inr (b2h (0xFD # le 2 v))
      else if v \<le> 0xFFFFFFFF then Inr (b2h (0xFE # le 4 v))
      else Inl (WireError ''encodeVarintHex: value out of supported range''))"

definition readVarint :: "bytes \<Rightarrow> nat \<Rightarrow> error + (nat \<times> nat)" where
  "readVarint buf offset =
     (let first = (if offset < length buf then Some (unat (buf ! offset)) else None) in
      case first of
        Some f \<Rightarrow>
          if f < 0xFD then Inr (f, 1)
          else if f = 0xFD then rbind (readUIntLE 2 buf (offset + 1)) (\<lambda>v. Inr (v, 3))
          else if f = 0xFE then rbind (readUIntLE 4 buf (offset + 1)) (\<lambda>v. Inr (v, 5))
          else rbind (readUIntLE 4 buf (offset + 1)) (\<lambda>lo.
               rbind (readUIntLE 4 buf (offset + 5)) (\<lambda>hi.
               Inr (toNumber (hi * 0x100000000 + lo), 9)))
      | None \<Rightarrow> Inl OutOfRange)"

subsection \<open>The walk over the section\<close>

fun skipInputs :: "bytes \<Rightarrow> nat \<Rightarrow> nat \<Rightarrow> error + nat" where
  "skipInputs buf 0 offset = Inr offset"
| "skipInputs buf (Suc n) offset =
     (if offset + 36 > length buf then Inl (WireError ''AuxPoW parse: buffer too short for coinbase input prevout'')
      else rbind (readVarint buf (offset + 36)) (\<lambda>(script, b).
        let offset = offset + 36 + (b + script) in
        if offset + 4 > length buf then Inl (WireError ''AuxPoW parse: buffer too short for coinbase input sequence'')
        else skipInputs buf n (offset + 4)))"

definition skipCoinbaseInputs :: "bytes \<Rightarrow> nat \<Rightarrow> error + (nat \<times> bool \<times> nat)" where
  "skipCoinbaseInputs buf start =
     (if start + 4 > length buf then Inl (WireError ''AuxPoW parse: buffer too short for coinbase version'')
      else
        let offset = start + 4;
            hasSegwit = (offset < length buf \<and> buf ! offset = 0);
            offset = (if hasSegwit then offset + 2 else offset) in
        rbind (readVarint buf offset) (\<lambda>(nIns, b).
        rbind (skipInputs buf nIns (offset + b)) (\<lambda>offset. Inr (offset, hasSegwit, nIns))))"

fun skipOutputs :: "bytes \<Rightarrow> nat \<Rightarrow> nat \<Rightarrow> error + nat" where
  "skipOutputs buf 0 offset = Inr offset"
| "skipOutputs buf (Suc n) offset =
     (if offset + 8 > length buf then Inl (WireError ''AuxPoW parse: buffer too short for coinbase output value'')
      else rbind (readVarint buf (offset + 8)) (\<lambda>(script, b). skipOutputs buf n (offset + 8 + (b + script))))"

fun skipItems :: "bytes \<Rightarrow> nat \<Rightarrow> nat \<Rightarrow> error + nat" where
  "skipItems buf 0 offset = Inr offset"
| "skipItems buf (Suc n) offset =
     rbind (readVarint buf offset) (\<lambda>(item, b). skipItems buf n (offset + (b + item)))"

fun skipStacks :: "bytes \<Rightarrow> nat \<Rightarrow> nat \<Rightarrow> error + nat" where
  "skipStacks buf 0 offset = Inr offset"
| "skipStacks buf (Suc n) offset =
     rbind (readVarint buf offset) (\<lambda>(items, b).
     rbind (skipItems buf items (offset + b)) (\<lambda>offset. skipStacks buf n offset))"

definition skipCoinbaseOutputs :: "bytes \<Rightarrow> nat \<Rightarrow> bool \<Rightarrow> nat \<Rightarrow> error + nat" where
  "skipCoinbaseOutputs buf start hasSegwit nIns =
     rbind (readVarint buf start) (\<lambda>(nOuts, b).
     rbind (skipOutputs buf nOuts (start + b)) (\<lambda>offset.
     rbind (if hasSegwit then skipStacks buf nIns offset else Inr offset) (\<lambda>offset.
     if offset + 4 > length buf then Inl (WireError ''AuxPoW parse: buffer too short for coinbase locktime'')
     else Inr (offset + 4))))"

definition skipBranch :: "string \<Rightarrow> bytes \<Rightarrow> nat \<Rightarrow> error + nat" where
  "skipBranch what buf offset =
     rbind (readVarint buf offset) (\<lambda>(n, b).
     let offset = offset + b in
     if offset + n * 32 + 4 > length buf then Inl (WireError what) else Inr (offset + (n * 32 + 4)))"

definition skipAuxPow :: "bytes \<Rightarrow> nat \<Rightarrow> error + nat" where
  "skipAuxPow buf start =
     rbind (skipCoinbaseInputs buf start) (\<lambda>(offset, hasSegwit, nIns).
     rbind (skipCoinbaseOutputs buf offset hasSegwit nIns) (\<lambda>offset.
     if offset + 32 > length buf then Inl (WireError ''AuxPoW parse: buffer too short for parent block hash'')
     else
       rbind (skipBranch ''AuxPoW parse: buffer too short for coinbase branch'' buf (offset + 32)) (\<lambda>offset.
       rbind (skipBranch ''AuxPoW parse: buffer too short for chain branch'' buf offset) (\<lambda>offset.
       if offset + 80 > length buf then Inl (WireError ''AuxPoW parse: buffer too short for parent block header'')
       else Inr (offset + 80)))))"

subsection \<open>Stripping\<close>

text \<open>
  What the tracker uses of bitcoinjs-lib: the block and transaction parsers (the strict one and
  the one that accepts trailing bytes), the serialised lengths, a fresh transaction whose version,
  outputs and lock time are assigned, the merkle root of a list of transactions, and the witness
  commitment of a block.
\<close>

record ('t) wblock =
  wb_version :: int
  wb_prevHash :: bytes
  wb_merkleRoot :: bytes
  wb_timestamp :: nat
  wb_bits :: nat
  wb_nonce :: nat
  wb_transactions :: "'t list option"
  wb_witnessCommit :: "bytes option"

record ('t) bitcoinjs =
  bj_block :: "bytes \<Rightarrow> error + 't wblock"
  bj_blockLength :: "'t wblock \<Rightarrow> nat"
  bj_tx :: "bytes \<Rightarrow> error + 't"
  bj_txNoStrict :: "bytes \<Rightarrow> error + 't"
  bj_txLength :: "'t \<Rightarrow> nat"
  bj_inputless :: "int \<Rightarrow> (bytes \<times> nat) list \<Rightarrow> nat \<Rightarrow> 't"
  bj_merkleRoot :: "'t list \<Rightarrow> error + bytes"
  bj_witnessCommit :: "'t wblock \<Rightarrow> bytes option"

definition transactions_of :: "'t wblock \<Rightarrow> 't list" where
  "transactions_of b = (case wb_transactions b of None \<Rightarrow> [] | Some txs \<Rightarrow> txs)"

definition assertWholeBlock :: "'t bitcoinjs \<Rightarrow> string \<Rightarrow> error + unit" where
  "assertWholeBlock B blockHex =
     (let buf = h2b blockHex in
      if length buf * 2 \<noteq> length blockHex then Inl (WireError ''AuxPoW parse: stripped block is not whole hex bytes'')
      else case bj_block B buf of
        Inl _ \<Rightarrow> Inl (WireError ''AuxPoW parse: stripped block does not parse'')
      | Inr block \<Rightarrow>
          let txs = transactions_of block in
          if length txs < 1 then Inl (WireError ''AuxPoW parse: stripped block holds no transactions'')
          else if bj_blockLength B block \<noteq> length buf
          then Inl (WireError ''AuxPoW parse: stripped block has bytes after its last transaction'')
          else rbind (bj_merkleRoot B txs) (\<lambda>root.
            if root \<noteq> wb_merkleRoot block
            then Inl (WireError ''AuxPoW parse: stripped block merkle root does not match its transactions'')
            else Inr ()))"

definition versionOfHex :: "string \<Rightarrow> u32" where
  "versionOfHex hex8 =
     (let versionLE = (case parseInt16 hex8 of None \<Rightarrow> 0 | Some v \<Rightarrow> of_int v) :: u32 in
      push_bit 24 (versionLE AND 0xFF)
      OR push_bit 16 (drop_bit 8 versionLE AND 0xFF)
      OR push_bit 8 (drop_bit 16 versionLE AND 0xFF)
      OR (drop_bit 24 versionLE AND 0xFF))"

definition stripAuxPowFromBlockHex :: "'t bitcoinjs \<Rightarrow> string \<Rightarrow> string \<Rightarrow> error + string" where
  "stripAuxPowFromBlockHex B headerHex blockHex =
     (if length headerHex > 160 then
        let stripped = take 160 blockHex @ drop (160 + (length headerHex - 160)) blockHex in
        rbind (assertWholeBlock B stripped) (\<lambda>_. Inr stripped)
      else if length blockHex \<ge> 8 \<and> versionOfHex (take 8 blockHex) AND 0x100 \<noteq> 0 then
        rbind (skipAuxPow (h2b blockHex) 80) (\<lambda>afterAuxPow.
        let stripped = take 160 blockHex @ drop (afterAuxPow * 2) blockHex in
        rbind (assertWholeBlock B stripped) (\<lambda>_. Inr stripped))
      else Inr blockHex)"

subsection \<open>The layout of the section\<close>

text \<open>
  The coinbase transaction of the parent block (with or without a witness), the parent block's
  hash, the coinbase merkle branch and the chain merge-mining branch, each with its 4-byte index,
  and the parent block header.
\<close>

record auxpow =
  ap_version :: bytes
  ap_segwit :: "byte option"
  ap_ins :: "wire_in list"
  ap_outs :: "wire_out list"
  ap_stacks :: "bytes list list"
  ap_locktime :: bytes
  ap_parentHash :: bytes
  ap_branch :: "bytes list"
  ap_index :: bytes
  ap_chain :: "bytes list"
  ap_chainIndex :: bytes
  ap_header :: bytes

definition ser_branch :: "bytes list \<Rightarrow> bytes \<Rightarrow> bytes" where
  "ser_branch hs index = ser_vec (\<lambda>h. h) hs @ index"

definition ser_auxpow :: "auxpow \<Rightarrow> bytes" where
  "ser_auxpow a = ap_version a @ (case ap_segwit a of None \<Rightarrow> [] | Some flag \<Rightarrow> [0, flag])
     @ ser_vec ser_in (ap_ins a) @ ser_vec ser_out (ap_outs a)
     @ (if ap_segwit a = None then [] else concat (map ser_stack (ap_stacks a)))
     @ ap_locktime a @ ap_parentHash a @ ser_branch (ap_branch a) (ap_index a)
     @ ser_branch (ap_chain a) (ap_chainIndex a) @ ap_header a"

definition branch_ok :: "bytes list \<Rightarrow> bytes \<Rightarrow> bool" where
  "branch_ok hs index \<longleftrightarrow> small hs \<and> (\<forall>h \<in> set hs. length h = 32) \<and> length index = 4"

definition auxpow_ok :: "auxpow \<Rightarrow> bool" where
  "auxpow_ok a \<longleftrightarrow> length (ap_version a) = 4 \<and> (ap_segwit a = None \<longrightarrow> ap_ins a \<noteq> [])
     \<and> small (ap_ins a) \<and> list_all in_ok (ap_ins a) \<and> small (ap_outs a) \<and> list_all out_ok (ap_outs a)
     \<and> (ap_segwit a \<noteq> None \<longrightarrow> length (ap_stacks a) = length (ap_ins a) \<and> list_all stack_ok (ap_stacks a))
     \<and> length (ap_locktime a) = 4 \<and> length (ap_parentHash a) = 32
     \<and> branch_ok (ap_branch a) (ap_index a) \<and> branch_ok (ap_chain a) (ap_chainIndex a) \<and> length (ap_header a) = 80"

subsection \<open>The walk ends behind the section\<close>

lemma readVarint_compact:
  assumes "v < 2 ^ 53"
  shows "readVarint (p @ compact v @ s) (length p) = Inr (v, length (compact v))"
proof -
  consider "v < 0xFD" | "0xFD \<le> v" "v \<le> 0xFFFF" | "0xFFFF < v" "v \<le> 0xFFFFFFFF" | "0xFFFFFFFF < v" by linarith
  then show ?thesis
  proof cases
    case 4
    have "readUIntLE 4 (p @ 255 # le 4 v @ le 4 (v div 4294967296) @ s) (Suc (length p)) = Inr (v mod 256 ^ 4)"
      using readUIntLE_le [of "v mod 256 ^ 4" 4 "p @ [255]" "le 4 (v div 4294967296) @ s"] le_mod [of 4 v] by simp
    moreover have "readUIntLE 4 (p @ 255 # le 4 v @ le 4 (v div 4294967296) @ s) (length p + 5) = Inr (v div 4294967296)"
      using readUIntLE_le [of "v div 4294967296" 4 "p @ 255 # le 4 v" s] assms by simp
    moreover have "v div 4294967296 * 4294967296 + v mod 4294967296 = v" by simp
    ultimately show ?thesis
      using 4 assms by (simp add: readVarint_def compact_def le_8 nth_append)
  qed (use readUIntLE_le_Cons [of v 2 p _ s] readUIntLE_le_Cons [of v 4 p _ s] in
        \<open>simp_all add: readVarint_def compact_def nth_append\<close>)
qed

text \<open>\<open>passes f e\<close>: wherever \<open>e\<close> stands, \<open>f\<close> started at it ends behind it.\<close>

definition passes :: "(bytes \<Rightarrow> nat \<Rightarrow> error + nat) \<Rightarrow> bytes \<Rightarrow> bool" where
  "passes f e \<longleftrightarrow> (\<forall>p s. f (p @ e @ s) (length p) = Inr (length p + length e))"

lemma passesD: "passes f e \<Longrightarrow> f (p @ e @ s) (length p) = Inr (length p + length e)"
  by (simp add: passes_def)

lemma passes_then:
  assumes "passes f e1" and "passes g e2"
  shows "passes (\<lambda>buf offset. rbind (f buf offset) (g buf)) (e1 @ e2)"
proof -
  have "f (p @ e1 @ e2 @ s) (length p) = Inr (length p + length e1)" for p s using assms(1) by (rule passesD)
  moreover have "g (p @ e1 @ e2 @ s) (length p + length e1) = Inr (length p + (length e1 + length e2))" for p s
    using passesD [OF assms(2), of "p @ e1" s] by (simp add: add.assoc)
  ultimately show ?thesis by (simp add: passes_def)
qed

lemma passes_Inr: "passes (\<lambda>buf. Inr) []"
  by (simp add: passes_def)

text \<open>The two ways a count is used: it is followed by as many bytes, or by as many parts.\<close>

lemma readVarint_after:
  "v < 2 ^ 53 \<Longrightarrow> readVarint (p @ q @ compact v @ s) (length p + length q) = Inr (v, length (compact v))"
  using readVarint_compact [of v "p @ q" s] by simp

lemma passes_count:
  assumes "n < 2 ^ 53" and "passes (\<lambda>buf. h buf n) e"
  shows "passes (\<lambda>buf offset. rbind (readVarint buf offset) (\<lambda>(n, b). h buf n (offset + b))) (compact n @ e)"
proof -
  have "h (p @ compact n @ e @ s) n (length p + length (compact n)) = Inr (length p + (length (compact n) + length e))" for p s
    using passesD [OF assms(2), of "p @ compact n" s] by (simp add: add.assoc)
  then show ?thesis using readVarint_compact [OF assms(1)] by (simp add: passes_def)
qed

lemma passes_repeat:
  assumes "\<And>buf offset. f buf 0 offset = Inr offset"
    and "\<And>x p s n. x \<in> set xs \<Longrightarrow> f (p @ e x @ s) (Suc n) (length p) = f (p @ e x @ s) n (length p + length (e x))"
  shows "passes (\<lambda>buf. f buf (length xs)) (concat (map e xs))"
  using assms(2)
proof (induction xs)
  case (Cons x xs)
  have "f (p @ e x @ concat (map e xs) @ s) (length xs) (length p + length (e x))
     = Inr (length p + (length (e x) + length (concat (map e xs))))" for p s
    using passesD [OF Cons.IH [OF Cons.prems], of "p @ e x" s] by (simp add: add.assoc)
  then show ?case using Cons.prems [of x] by (simp add: passes_def)
qed (simp add: passes_def assms(1))

lemma passes_inputs: "list_all in_ok ins \<Longrightarrow> passes (\<lambda>buf. skipInputs buf (length ins)) (concat (map ser_in ins))"
proof (rule passes_repeat)
  fix i p s n
  assume "list_all in_ok ins" and "i \<in> set ins"
  then obtain q c z where i: "i = (q, c, z)" "length q = 36" "length c < 2 ^ 53" "length z = 4"
    by (cases i) (auto simp: list_all_iff in_ok_def small_def)
  then show "skipInputs (p @ ser_in i @ s) (Suc n) (length p) = skipInputs (p @ ser_in i @ s) n (length p + length (ser_in i))"
    using readVarint_after [OF i(3), of p q "c @ z @ s"] by (simp add: ser_in_def ser_var_def add.assoc)
qed simp

lemma passes_outputs: "list_all out_ok outs \<Longrightarrow> passes (\<lambda>buf. skipOutputs buf (length outs)) (concat (map ser_out outs))"
proof (rule passes_repeat)
  fix x p s n
  assume "list_all out_ok outs" and "x \<in> set outs"
  then obtain a c where x: "x = (a, c)" "length a = 8" "length c < 2 ^ 53"
    by (cases x) (auto simp: list_all_iff out_ok_def small_def)
  then show "skipOutputs (p @ ser_out x @ s) (Suc n) (length p) = skipOutputs (p @ ser_out x @ s) n (length p + length (ser_out x))"
    using readVarint_after [OF x(3), of p a "c @ s"] by (simp add: ser_out_def ser_var_def add.assoc)
qed simp

lemma passes_items: "\<forall>i \<in> set items. small i \<Longrightarrow> passes (\<lambda>buf. skipItems buf (length items)) (concat (map ser_var items))"
  by (rule passes_repeat) (simp_all add: ser_var_def small_def readVarint_compact)

lemma passes_stacks: "list_all stack_ok stacks \<Longrightarrow> passes (\<lambda>buf. skipStacks buf (length stacks)) (concat (map ser_stack stacks))"
proof (rule passes_repeat)
  fix items p s n
  assume "list_all stack_ok stacks" and "items \<in> set stacks"
  then have ok: "length items < 2 ^ 53" "\<forall>i \<in> set items. small i"
    by (auto simp: list_all_iff stack_ok_def small_def)
  show "skipStacks (p @ ser_stack items @ s) (Suc n) (length p) = skipStacks (p @ ser_stack items @ s) n (length p + length (ser_stack items))"
    using passesD [OF passes_count [where h = skipItems, OF ok(1) passes_items [OF ok(2)]], of p s]
    by (simp add: ser_stack_def readVarint_compact [OF ok(1)])
qed simp

lemma passes_branch: "branch_ok hs index \<Longrightarrow> passes (skipBranch what) (ser_branch hs index)"
proof -
  assume ok: "branch_ok hs index"
  have "length (concat hs) = 32 * length hs" if "\<forall>h \<in> set hs. length h = 32" for hs :: "bytes list"
    using that by (induction hs) auto
  then have "length (concat hs) = length hs * 32" using ok by (simp add: branch_ok_def)
  then show ?thesis
    using ok by (simp add: passes_def skipBranch_def ser_branch_def ser_vec_def readVarint_compact branch_ok_def small_def
        Let_def add.assoc)
qed

lemma compact_hd_not_zero: "0 < v \<Longrightarrow> hd (compact v) \<noteq> 0"
proof -
  assume "0 < v"
  have "(of_nat v :: byte) \<noteq> 0" if "v < 253" using that \<open>0 < v\<close> unat_of_nat_byte [of v] by (cases "(of_nat v :: byte) = 0") simp_all
  then show ?thesis by (auto simp: hd_compact)
qed

text \<open>The coinbase transaction: its marker is read as the segwit marker exactly when it is one.\<close>

lemma coinbase_inputs:
  assumes "auxpow_ok a"
  shows "skipCoinbaseInputs (p @ ap_version a @ (case ap_segwit a of None \<Rightarrow> [] | Some flag \<Rightarrow> [0, flag]) @ ser_vec ser_in (ap_ins a) @ s) (length p)
    = Inr (length (p @ ap_version a @ (case ap_segwit a of None \<Rightarrow> [] | Some flag \<Rightarrow> [0, flag]) @ ser_vec ser_in (ap_ins a)),
           ap_segwit a \<noteq> None, length (ap_ins a))"
proof -
  let ?m = "case ap_segwit a of None \<Rightarrow> [] | Some flag \<Rightarrow> [0, flag]" and ?n = "length (ap_ins a)"
  let ?i = "concat (map ser_in (ap_ins a))"
  let ?buf = "p @ ap_version a @ ?m @ (compact ?n @ ?i) @ s"
  have ok: "length (ap_version a) = 4" "?n < 2 ^ 53" "list_all in_ok (ap_ins a)" "ap_segwit a = None \<Longrightarrow> 0 < ?n"
    using assms by (auto simp: auxpow_ok_def small_def)
  have marker: "(length p + 4 < length ?buf \<and> ?buf ! (length p + 4) = 0) \<longleftrightarrow> ap_segwit a \<noteq> None"
  proof (cases "ap_segwit a")
    case None
    have "?buf ! (length p + 4) = hd (compact ?n)"
      using ok(1) None hd_conv_nth [of "compact ?n"] by (simp add: nth_append)
    then show ?thesis using None compact_hd_not_zero [OF ok(4)] by simp
  qed (use ok(1) in \<open>simp add: nth_append\<close>)
  have v: "readVarint ?buf (length (p @ ap_version a @ ?m)) = Inr (?n, length (compact ?n))"
    using readVarint_compact [OF ok(2), of "p @ ap_version a @ ?m" "?i @ s"] by simp
  have i: "skipInputs ?buf ?n (length (p @ ap_version a @ ?m) + length (compact ?n))
     = Inr (length (p @ ap_version a @ ?m) + length (compact ?n) + length ?i)"
    using passesD [OF passes_inputs [OF ok(3)], of "p @ ap_version a @ ?m @ compact ?n" s] by (simp add: add.assoc)
  have o: "(if ap_segwit a \<noteq> None then length p + 4 + 2 else length p + 4) = length (p @ ap_version a @ ?m)"
    using ok(1) by (cases "ap_segwit a") simp_all
  show ?thesis
    unfolding ser_vec_def skipCoinbaseInputs_def Let_def marker o v i
    by (use ok(1) v i in \<open>simp add: marker [simplified] o [simplified] add.assoc\<close>)
qed

lemma passes_outs_lock:
  assumes "small outs" and "list_all out_ok outs" and "length lock = 4"
    and "sw \<Longrightarrow> length stacks = n \<and> list_all stack_ok stacks"
  shows "passes (\<lambda>buf start. skipCoinbaseOutputs buf start sw n)
    (ser_vec ser_out outs @ (if sw then concat (map ser_stack stacks) else []) @ lock)"
proof -
  have w: "passes (\<lambda>buf offset. if sw then skipStacks buf n offset else Inr offset) (if sw then concat (map ser_stack stacks) else [])"
    using passes_stacks [of stacks] assms(4) by (cases sw) (auto simp: passes_Inr)
  have l: "passes (\<lambda>buf offset. if offset + 4 > length buf then Inl e else Inr (offset + 4)) lock" for e
    using assms(3) by (simp add: passes_def)
  have o: "passes (\<lambda>buf offset. rbind (readVarint buf offset) (\<lambda>(nOuts, b). skipOutputs buf nOuts (offset + b))) (ser_vec ser_out outs)"
    unfolding ser_vec_def using assms(1) by (intro passes_count passes_outputs assms(2)) (simp add: small_def)
  have eq: "skipCoinbaseOutputs buf start sw n = rbind (rbind (readVarint buf start) (\<lambda>(nOuts, b). skipOutputs buf nOuts (start + b)))
     (\<lambda>offset. rbind (if sw then skipStacks buf n offset else Inr offset) (\<lambda>offset.
       if offset + 4 > length buf then Inl (WireError ''AuxPoW parse: buffer too short for coinbase locktime'') else Inr (offset + 4)))"
    for buf start
    by (auto simp: skipCoinbaseOutputs_def rbind_def split: sum.split prod.split)
  show ?thesis
    unfolding eq by (intro passes_then [where g = "\<lambda>buf offset. rbind (if sw then skipStacks buf n offset else Inr offset) (h buf)" for h] o passes_then w l)
qed

lemma rbind_guard: "rbind (if b then Inl e else Inr a) f = (if b then Inl e else f a)"
  by simp

lemma passes_auxpow:
  assumes "auxpow_ok a"
  shows "passes skipAuxPow (ser_auxpow a)"
proof -
  let ?sw = "ap_segwit a \<noteq> None" and ?n = "length (ap_ins a)"
  let ?front = "ap_version a @ (case ap_segwit a of None \<Rightarrow> [] | Some flag \<Rightarrow> [0, flag]) @ ser_vec ser_in (ap_ins a)"
  let ?mid = "ser_vec ser_out (ap_outs a) @ (if ?sw then concat (map ser_stack (ap_stacks a)) else []) @ ap_locktime a"
  let ?tail = "\<lambda>buf offset.
     if offset + 32 > length buf then Inl (WireError ''AuxPoW parse: buffer too short for parent block hash'')
     else
       rbind (skipBranch ''AuxPoW parse: buffer too short for coinbase branch'' buf (offset + 32)) (\<lambda>offset.
       rbind (skipBranch ''AuxPoW parse: buffer too short for chain branch'' buf offset) (\<lambda>offset.
       if offset + 80 > length buf then Inl (WireError ''AuxPoW parse: buffer too short for parent block header'')
       else Inr (offset + 80)))"
  have ok: "length (ap_parentHash a) = 32" "branch_ok (ap_branch a) (ap_index a)" "branch_ok (ap_chain a) (ap_chainIndex a)"
    "length (ap_header a) = 80"
    using assms by (simp_all add: auxpow_ok_def)
  have h: "passes (\<lambda>buf offset. if offset + 80 > length buf then Inl e else Inr (offset + 80)) (ap_header a)" for e
    using ok(4) by (simp add: passes_def)
  have "passes (\<lambda>buf offset. rbind (if offset + 32 > length buf then Inl (WireError ''AuxPoW parse: buffer too short for parent block hash'') else Inr (offset + 32))
       (\<lambda>offset. rbind (skipBranch ''AuxPoW parse: buffer too short for coinbase branch'' buf offset) (\<lambda>offset.
       rbind (skipBranch ''AuxPoW parse: buffer too short for chain branch'' buf offset) (\<lambda>offset.
       if offset + 80 > length buf then Inl (WireError ''AuxPoW parse: buffer too short for parent block header'')
       else Inr (offset + 80)))))
    (ap_parentHash a @ ser_branch (ap_branch a) (ap_index a) @ ser_branch (ap_chain a) (ap_chainIndex a) @ ap_header a)"
    by (rule passes_then, use ok(1) in \<open>simp add: passes_def\<close>, rule passes_then, rule passes_branch [OF ok(2)],
        rule passes_then, rule passes_branch [OF ok(3)], rule h)
  then have tail: "passes ?tail (ap_parentHash a @ ser_branch (ap_branch a) (ap_index a) @ ser_branch (ap_chain a) (ap_chainIndex a) @ ap_header a)"
    by (simp only: rbind_guard)
  have mid: "passes (\<lambda>buf start. skipCoinbaseOutputs buf start ?sw ?n) ?mid"
    using assms by (intro passes_outs_lock) (simp_all add: auxpow_ok_def)
  have rest: "passes (\<lambda>buf offset. rbind (skipCoinbaseOutputs buf offset ?sw ?n) (?tail buf))
     (?mid @ ap_parentHash a @ ser_branch (ap_branch a) (ap_index a) @ ser_branch (ap_chain a) (ap_chainIndex a) @ ap_header a)"
    by (rule passes_then [where f = "\<lambda>buf start. skipCoinbaseOutputs buf start ?sw ?n" and g = ?tail, OF mid tail])
  let ?rear = "?mid @ ap_parentHash a @ ser_branch (ap_branch a) (ap_index a) @ ser_branch (ap_chain a) (ap_chainIndex a) @ ap_header a"
  have eq: "ser_auxpow a = ?front @ ?rear" by (simp add: ser_auxpow_def)
  have "skipAuxPow (p @ (?front @ ?rear) @ s) (length p) = Inr (length p + length (?front @ ?rear))" for p s
  proof -
    let ?buf = "p @ (?front @ ?rear) @ s"
    have c: "skipCoinbaseInputs ?buf (length p) = Inr (length (p @ ?front), ?sw, ?n)"
      using coinbase_inputs [OF assms, of p "?rear @ s"] by (simp only: append.assoc)
    have r: "rbind (skipCoinbaseOutputs ?buf (length (p @ ?front)) ?sw ?n) (?tail ?buf) = Inr (length (p @ ?front) + length ?rear)"
      using passesD [OF rest, of "p @ ?front" s] by (simp only: append.assoc)
    show ?thesis
      unfolding skipAuxPow_def c rbind_simps prod.case r by simp
  qed
  then show ?thesis unfolding passes_def eq by blast
qed

subsection \<open>Both cuts leave the block without the section\<close>

lemma hexrun_b2h: "hexrun (b2h (b # bs)) = Some (unbe (b # bs))"
proof -
  have t: "takeWhile (\<lambda>c. hexval c \<noteq> None) (b2h xs) = b2h xs" for xs
    using b2h_hex [of xs] by (simp add: list_all_iff)
  have "foldl (\<lambda>a c. a * 16 + the (hexval c)) n (b2h xs) = foldl (\<lambda>a b. a * 256 + unat b) n xs" for n xs
    by (induction xs arbitrary: n) (simp_all add: algebra_simps)
  then show ?thesis unfolding hexrun_def t by (simp add: unbe_def Let_def)
qed

lemma parseInt16_b2h: "parseInt16 (b2h (b # bs)) = Some (int (unbe (b # bs)))"
proof -
  obtain c d s where s: "b2h (b # bs) = c # d # s" by simp
  have h: "hexval c \<noteq> None" "hexval d \<noteq> None" using b2h_hex [of "b # bs"] unfolding s by simp_all
  have "\<not> is_space c" "c \<noteq> CHR ''-''" "c \<noteq> CHR ''+''" "d \<noteq> CHR ''x''" "d \<noteq> CHR ''X''"
    using h hexval_not_space [of c] by (auto simp: hexval_def)
  then show ?thesis using hexrun_b2h [of b bs] unfolding s by (simp add: parseInt16_def skip0x_def)
qed

lemma version_bit: "versionOfHex (b2h [b0, b1, b2, b3]) AND 0x100 \<noteq> 0 \<longleftrightarrow> odd (unat b1)"
proof -
  define v where "v = (of_nat (unbe [b0, b1, b2, b3]) :: u32)"
  have "(256 :: u32) = push_bit 8 1" by simp
  then have "versionOfHex (b2h [b0, b1, b2, b3]) AND 0x100 \<noteq> 0 \<longleftrightarrow> bit (versionOfHex (b2h [b0, b1, b2, b3])) 8"
    by (simp only: and_exp_eq_0_iff_not_bit push_bit_of_1 not_not)
  also have "\<dots> \<longleftrightarrow> bit v 16"
    unfolding versionOfHex_def parseInt16_b2h by (simp add: Let_def v_def bit_simps)
  also have "\<dots> \<longleftrightarrow> bit (unbe [b0, b1, b2, b3]) 16"
    by (simp add: v_def bit_simps)
  also have "\<dots> \<longleftrightarrow> odd (unat b1)"
  proof -
    have "unbe [b0, b1, b2, b3] div 2 ^ 16 = unat b0 * 256 + unat b1"
    proof -
      have "unbe [b0, b1, b2, b3] = (unat b0 * 256 + unat b1) * 65536 + (unat b2 * 256 + unat b3)"
        by (simp add: unbe_def algebra_simps)
      moreover have "unat b2 * 256 + unat b3 < 65536"
        using unat_byte_lt [of b2] unat_byte_lt [of b3] by linarith
      ultimately show ?thesis by (simp only: div_mult_self3 div_less) simp
    qed
    then show ?thesis by (simp add: bit_iff_odd)
  qed
  finally show ?thesis .
qed

text \<open>
  C32. Stripping is exact, and the two cuts agree: whether the node's getblockheader answered with
  the AuxPoW bytes in it (the length cut) or with the bare 80-byte header and the AuxPoW bit set in
  the version (the structural cut), the block hex handed on is the header followed by everything
  behind the AuxPoW section, or the check of the stripped block throws. It holds for every
  well-formed section, with or without a witness in the parent coinbase.
\<close>

theorem auxpow_cut_exactly:
  assumes "auxpow_ok a" and "length hdr = 80" and "odd (unat (hdr ! 1))"
    and "headerHex = b2h (hdr @ ser_auxpow a) \<or> length headerHex = 160"
  shows "stripAuxPowFromBlockHex B headerHex (b2h (hdr @ ser_auxpow a @ body))
    = rbind (assertWholeBlock B (b2h (hdr @ body))) (\<lambda>_. Inr (b2h (hdr @ body)))"
proof -
  let ?blk = "b2h (hdr @ ser_auxpow a @ body)"
  have t: "take 160 ?blk = b2h hdr" using assms(2) by simp
  have d: "drop (160 + 2 * length (ser_auxpow a)) ?blk = b2h body" using assms(2) by simp
  show ?thesis
  proof (cases "length headerHex = 160")
    case False
    then have h: "headerHex = b2h (hdr @ ser_auxpow a)" using assms(4) by simp
    then have "length headerHex > 160" "160 + (length headerHex - 160) = 160 + 2 * length (ser_auxpow a)"
      using False assms(2) by simp_all
    then have "take 160 ?blk @ drop (160 + (length headerHex - 160)) ?blk = b2h (hdr @ body)"
      using t d by (simp only: b2h_append)
    then show ?thesis
      using \<open>length headerHex > 160\<close> unfolding stripAuxPowFromBlockHex_def Let_def by (simp only: if_True)
  next
    case True
    obtain b0 b1 b2 b3 h where b: "hdr = [b0, b1, b2, b3] @ h"
      using assms(2) by (auto simp: numeral_eq_Suc length_Suc_conv)
    have "take 8 ?blk = b2h [b0, b1, b2, b3]" using b by simp
    then have v: "versionOfHex (take 8 ?blk) AND 0x100 \<noteq> 0" using version_bit assms(3) b by simp
    have k: "skipAuxPow (h2b ?blk) 80 = Inr (80 + length (ser_auxpow a))"
      using passesD [OF passes_auxpow [OF assms(1)], of hdr body] assms(2) by (simp only: h2b_b2h)
    have "length ?blk \<ge> 8" using assms(2) by simp
    moreover have "drop ((80 + length (ser_auxpow a)) * 2) ?blk = b2h body" using d by (simp add: algebra_simps)
    ultimately show ?thesis
      using True v unfolding stripAuxPowFromBlockHex_def Let_def k t by (simp add: b2h_append)
  qed
qed

definition auxpow_example :: auxpow where
  "auxpow_example = \<lparr>ap_version = [1, 0, 0, 0], ap_segwit = Some 1, ap_ins = [(replicate 36 7, [1, 2], [9, 9, 9, 9])],
     ap_outs = [([1, 0, 0, 0, 0, 0, 0, 0], [3])], ap_stacks = [[[5], []]], ap_locktime = [0, 0, 0, 0],
     ap_parentHash = replicate 32 8, ap_branch = [replicate 32 4], ap_index = [0, 0, 0, 0],
     ap_chain = [], ap_chainIndex = [1, 0, 0, 0], ap_header = replicate 80 6\<rparr>"

definition auxpow_header :: bytes where
  "auxpow_header = [4, 1, 98, 0] @ replicate 76 2"

text \<open>A stand-in for the block parser: everything behind the header is one transaction.\<close>

definition bitcoinjs_plain :: "bytes bitcoinjs" where
  "bitcoinjs_plain = \<lparr>
     bj_block = (\<lambda>buf. if length buf < 80 then Inl OutOfRange
       else Inr \<lparr>wb_version = 1, wb_prevHash = slice 4 36 buf, wb_merkleRoot = slice 36 68 buf, wb_timestamp = 0,
                 wb_bits = 0, wb_nonce = 0, wb_transactions = Some [drop 80 buf], wb_witnessCommit = None\<rparr>),
     bj_blockLength = (\<lambda>b. 80 + length (concat (transactions_of b))),
     bj_tx = Inr, bj_txNoStrict = Inr, bj_txLength = length, bj_inputless = (\<lambda>v outs lock. []),
     bj_merkleRoot = (\<lambda>txs. Inr (replicate 32 2)), bj_witnessCommit = (\<lambda>_. None)\<rparr>"

theorem auxpow_cut_exactly_witness:
  "stripAuxPowFromBlockHex bitcoinjs_plain (b2h auxpow_header) (b2h (auxpow_header @ ser_auxpow auxpow_example @ [1, 77]))
     = Inr (b2h (auxpow_header @ [1, 77]))
   \<and> stripAuxPowFromBlockHex bitcoinjs_plain (b2h (auxpow_header @ ser_auxpow auxpow_example))
         (b2h (auxpow_header @ ser_auxpow auxpow_example @ [1, 77]))
     = Inr (b2h (auxpow_header @ [1, 77]))"
proof -
  have a: "auxpow_ok auxpow_example"
    by (simp add: auxpow_example_def auxpow_ok_def in_ok_def out_ok_def stack_ok_def branch_ok_def small_def)
  have h: "length auxpow_header = 80" "odd (unat (auxpow_header ! 1))" by (simp_all add: auxpow_header_def)
  have l: "length (b2h auxpow_header) = 160" using h by simp
  have "slice 36 68 (auxpow_header @ [1, 77]) = replicate 32 2"
    by (simp add: auxpow_header_def slice_def)
  then have "assertWholeBlock bitcoinjs_plain (b2h (auxpow_header @ [1, 77])) = Inr ()"
    using h by (simp add: assertWholeBlock_def bitcoinjs_plain_def transactions_of_def Let_def
        b2h_append [symmetric] del: b2h_append)
  then show ?thesis
    using auxpow_cut_exactly [OF a h disjI2 [OF l], of bitcoinjs_plain "[1, 77]"]
      auxpow_cut_exactly [OF a h disjI1 [OF refl], of bitcoinjs_plain "[1, 77]"] by (simp only: rbind_simps)
qed

subsection \<open>The varint text\<close>

lemma encodeVarintHex_compact:
  "encodeVarintHex v = (if v \<le> 0xFFFFFFFF then Inr (b2h (compact v))
     else Inl (WireError ''encodeVarintHex: value out of supported range''))"
proof (cases "v < 0xFD")
  case True
  then have "padStart 2 CHR ''0'' (toString16 v) = b2h [of_nat v]" using toString16_pad [of v] by simp
  then show ?thesis using True by (simp add: encodeVarintHex_def compact_def)
qed (simp add: encodeVarintHex_def compact_def)

lemma varint_roundtrip:
  "encodeVarintHex v = Inr t \<Longrightarrow> readVarint (h2b t) 0 = Inr (v, length (h2b t))"
  using readVarint_compact [of v "[]" "[]"] by (auto simp: encodeVarintHex_compact split: if_splits)

end
