(* ===== verification/BlockDecoder.thy ===== *)
theory BlockDecoder
  imports AuxPow
begin

text \<open>
  The block decoder, \<^verbatim>\<open>src/chain/XChainBlockDecoder.js\<close>: Litecoin's MWEB-flagged transactions, which
  bitcoinjs-lib cannot read, are walked with bounds checks and handed on without their MWEB part;
  a block is decoded by the coin's wire format and checked to be whole. The transaction parser,
  the merkle root and the witness commitment are bitcoinjs-lib's and parameters. An error message
  that the code extends with the text of its cause keeps the fixed part only.
\<close>

subsection \<open>The walk over a flagged transaction\<close>

definition mwebShortError :: "string \<Rightarrow> error" where
  "mwebShortError what = WireError (''MWEB tx parse: buffer too short for '' @ what)"

definition skipMwebBytes :: "bytes \<Rightarrow> nat \<Rightarrow> nat \<Rightarrow> string \<Rightarrow> error + nat" where
  "skipMwebBytes buf offset count what =
     (if int count > int (length buf) - int offset then Inl (mwebShortError what) else Inr (offset + count))"

definition readMwebCompactSize :: "bytes \<Rightarrow> nat \<Rightarrow> string \<Rightarrow> error + (nat \<times> nat)" where
  "readMwebCompactSize buf offset what =
     (if offset \<ge> length buf then Inl (mwebShortError what)
      else
        let first = buf ! offset in
        if first < 0xFD then Inr (unat first, offset + 1)
        else
          let width = (if first = 0xFD then 2 else if first = 0xFE then 4 else 8) in
          rbind (skipMwebBytes buf (offset + 1) width what) (\<lambda>fin.
          rbind (readUIntLE width buf (offset + 1)) (\<lambda>v.
          if width = 8 \<and> v > MAX_SAFE_INTEGER
          then Inl (TransactionParse (''MWEB tx parse: '' @ what @ '' exceeds Number.MAX_SAFE_INTEGER''))
          else Inr (v, fin))))"

definition skipMwebVarBytes :: "bytes \<Rightarrow> nat \<Rightarrow> string \<Rightarrow> error + nat" where
  "skipMwebVarBytes buf offset what =
     rbind (readMwebCompactSize buf offset what) (\<lambda>(v, fin). skipMwebBytes buf fin v what)"

fun skipMwebIns :: "bytes \<Rightarrow> nat \<Rightarrow> nat \<Rightarrow> error + nat" where
  "skipMwebIns buf 0 offset = Inr offset"
| "skipMwebIns buf (Suc n) offset =
     rbind (skipMwebBytes buf offset 36 ''input prevout'') (\<lambda>offset.
     rbind (skipMwebVarBytes buf offset ''input script'') (\<lambda>offset.
     rbind (skipMwebBytes buf offset 4 ''input sequence'') (\<lambda>offset.
     skipMwebIns buf n offset)))"

fun skipMwebOuts :: "bytes \<Rightarrow> nat \<Rightarrow> nat \<Rightarrow> error + nat" where
  "skipMwebOuts buf 0 offset = Inr offset"
| "skipMwebOuts buf (Suc n) offset =
     rbind (skipMwebBytes buf offset 8 ''output value'') (\<lambda>offset.
     rbind (skipMwebVarBytes buf offset ''output script'') (\<lambda>offset.
     skipMwebOuts buf n offset))"

text \<open>Where the outputs end, where they start, and the number of inputs.\<close>

definition skipMwebInsAndOuts :: "bytes \<Rightarrow> nat \<Rightarrow> error + (nat \<times> nat \<times> nat)" where
  "skipMwebInsAndOuts buf offset =
     rbind (readMwebCompactSize buf offset ''input count'') (\<lambda>(nIns, offset).
     rbind (skipMwebIns buf nIns offset) (\<lambda>outsStart.
     rbind (readMwebCompactSize buf outsStart ''output count'') (\<lambda>(nOuts, offset).
     rbind (skipMwebOuts buf nOuts offset) (\<lambda>offset. Inr (offset, outsStart, nIns)))))"

fun skipMwebItems :: "bytes \<Rightarrow> nat \<Rightarrow> nat \<Rightarrow> error + nat" where
  "skipMwebItems buf 0 offset = Inr offset"
| "skipMwebItems buf (Suc n) offset =
     rbind (skipMwebVarBytes buf offset ''witness item'') (\<lambda>offset. skipMwebItems buf n offset)"

fun skipMwebWitness :: "bytes \<Rightarrow> nat \<Rightarrow> nat \<Rightarrow> error + nat" where
  "skipMwebWitness buf 0 offset = Inr offset"
| "skipMwebWitness buf (Suc n) offset =
     rbind (readMwebCompactSize buf offset ''witness item count'') (\<lambda>(items, offset).
     rbind (skipMwebItems buf items offset) (\<lambda>offset. skipMwebWitness buf n offset))"

definition LITECOIN_HOGEX_FLAG :: byte where
  "LITECOIN_HOGEX_FLAG = 0x08"

definition LITECOIN_MWEB_SEGWIT_FLAG :: byte where
  "LITECOIN_MWEB_SEGWIT_FLAG = 0x09"

definition hasMwebFlag :: "bytes \<Rightarrow> nat \<Rightarrow> bool" where
  "hasMwebFlag buf offset =
     (if int (length buf) - int offset < 6 then False
      else
        let version = unle (slice offset (offset + 4) buf); flag = buf ! (offset + 5) in
        (version = 1 \<or> version = 2) \<and> buf ! (offset + 4) = 0
        \<and> (flag = LITECOIN_HOGEX_FLAG \<or> flag = LITECOIN_MWEB_SEGWIT_FLAG))"

subsection \<open>Reading a flagged transaction\<close>

fun inputlessOuts :: "bytes \<Rightarrow> nat \<Rightarrow> nat \<Rightarrow> error + (bytes \<times> nat) list" where
  "inputlessOuts buf 0 offset = Inr []"
| "inputlessOuts buf (Suc n) offset =
     rbind (readUIntLE 8 buf offset) (\<lambda>v.
     rbind (readMwebCompactSize buf (offset + 8) ''output script'') (\<lambda>(len, fin).
     rbind (inputlessOuts buf n (fin + len)) (\<lambda>outs. Inr ((slice fin (fin + len) buf, v) # outs))))"

definition buildInputlessTransaction :: "'t bitcoinjs \<Rightarrow> bytes \<Rightarrow> nat \<Rightarrow> nat \<Rightarrow> nat \<Rightarrow> error + 't" where
  "buildInputlessTransaction B buf start outsStart lockTimeAt =
     rbind (readInt32LE buf start) (\<lambda>version.
     rbind (readMwebCompactSize buf outsStart ''output count'') (\<lambda>(nOuts, offset).
     rbind (inputlessOuts buf nOuts offset) (\<lambda>outs.
     rbind (readUIntLE 4 buf lockTimeAt) (\<lambda>locktime.
     Inr (bj_inputless B version outs locktime)))))"

definition readMwebFlaggedTransaction :: "'t bitcoinjs \<Rightarrow> bytes \<Rightarrow> nat \<Rightarrow> bool \<Rightarrow> error + ('t \<times> nat)" where
  "readMwebFlaggedTransaction B buf start standalone =
     (let withWitness = (start + 5 < length buf \<and> odd (unat (buf ! (start + 5)))) in
      rbind (skipMwebInsAndOuts buf (start + 6)) (\<lambda>(insOutsEnd, outsStart, nIns).
      rbind (if withWitness then skipMwebWitness buf nIns insOutsEnd else Inr insOutsEnd) (\<lambda>witnessEnd.
      rbind (skipMwebBytes buf witnessEnd 1 ''MWEB tag'') (\<lambda>tagEnd.
      rbind (if buf ! witnessEnd \<noteq> 0 then
               (if \<not> standalone
                then Inl (WireError ''MWEB tx parse: a non-null MWEB part inside a block has no recorded length'')
                else if int (length buf) - 4 < int tagEnd then Inl (mwebShortError ''locktime'')
                else Inr (length buf - 4))
             else Inr tagEnd) (\<lambda>lockTimeAt.
      rbind (skipMwebBytes buf lockTimeAt 4 ''locktime'') (\<lambda>fin.
      if nIns = 0
      then rbind (buildInputlessTransaction B buf start outsStart lockTimeAt) (\<lambda>tx. Inr (tx, fin - start))
      else
        let plain = slice start (start + 4) buf @ (if withWitness then [0, 1] else [])
              @ slice (start + 6) witnessEnd buf @ slice lockTimeAt fin buf in
        rbind (bj_tx B plain) (\<lambda>tx. Inr (tx, fin - start))))))))"

subsection \<open>Decoding a block\<close>

definition assertBlockBodyIntact :: "'t bitcoinjs \<Rightarrow> 't wblock \<Rightarrow> nat \<Rightarrow> nat \<Rightarrow> bool \<Rightarrow> error + unit" where
  "assertBlockBodyIntact B block bufferLength bodyEnd extensionFollows =
     (let txs = transactions_of block in
      if length txs < 1 then Inl (WireError ''Block holds no transactions'')
      else if bodyEnd \<noteq> bufferLength \<and> \<not> extensionFollows
      then Inl (WireError ''Block has bytes after its last transaction'')
      else rbind (bj_merkleRoot B txs) (\<lambda>root.
        if root \<noteq> wb_merkleRoot block
        then Inl (WireError ''Block merkle root mismatch: the header root is not the root of its transactions'')
        else Inr ()))"

definition readMwebBlockHeader :: "bytes \<Rightarrow> error + (cursor \<times> 't wblock)" where
  "readMwebBlockHeader buffer =
     (if length buffer < 80 then Inl (WireError ''Buffer too small (< 80 bytes)'')
      else case
        mbind br_readInt32 (\<lambda>version.
        mbind (br_readSlice 32) (\<lambda>prevHash.
        mbind (br_readSlice 32) (\<lambda>merkleRoot.
        mbind br_readUInt32 (\<lambda>timestamp.
        mbind br_readUInt32 (\<lambda>bits.
        mbind br_readUInt32 (\<lambda>nonce.
        mret \<lparr>wb_version = version, wb_prevHash = prevHash, wb_merkleRoot = merkleRoot, wb_timestamp = timestamp,
              wb_bits = bits, wb_nonce = nonce, wb_transactions = None, wb_witnessCommit = None\<rparr>))))))
        \<lparr>cu_buffer = buffer, cu_offset = 0\<rparr>
      of (Inl e, _) \<Rightarrow> Inl e | (Inr block, reader) \<Rightarrow> Inr (reader, block))"

definition readMwebTransaction :: "'t bitcoinjs \<Rightarrow> (cursor, 't) m" where
  "readMwebTransaction B =
     mbind (mget (\<lambda>c. bj_txNoStrict B (drop (cu_offset c) (cu_buffer c)))) (\<lambda>r. mbind (mlift r) (\<lambda>tx.
     mseq (mmod (\<lambda>c. c\<lparr>cu_offset := cu_offset c + bj_txLength B tx\<rparr>)) (mret tx)))"

definition validateMwebTransactionCount :: "nat \<Rightarrow> (cursor, unit) m" where
  "validateMwebTransactionCount nTransactions =
     mbind (mget (\<lambda>c. int (length (cu_buffer c)) - int (cu_offset c))) (\<lambda>remainingBytes.
     if 10 * int nTransactions > remainingBytes then mthrow (WireError ''invalid transaction count'') else mret ())"

text \<open>\<open>readMwebTransactions B n\<close> with \<open>n\<close> transactions left: the last one may be flagged.\<close>

fun readMwebTransactions :: "'t bitcoinjs \<Rightarrow> nat \<Rightarrow> (cursor, 't list \<times> bool) m" where
  "readMwebTransactions B 0 = mret ([], False)"
| "readMwebTransactions B (Suc n) = mbind (mget (\<lambda>c. c)) (\<lambda>c.
     if n = 0 \<and> hasMwebFlag (cu_buffer c) (cu_offset c)
     then mbind (mlift (readMwebFlaggedTransaction B (cu_buffer c) (cu_offset c) False)) (\<lambda>(tx, consumed).
       mseq (mmod (\<lambda>c. c\<lparr>cu_offset := cu_offset c + consumed\<rparr>)) (mret ([tx], True)))
     else mbind (readMwebTransaction B) (\<lambda>tx.
       mbind (readMwebTransactions B n) (\<lambda>(txs, hogExLast). mret (tx # txs, hogExLast))))"

datatype wireFormat = WireDefault | WireMweb | WireAuxpow

definition transactionParseError :: "string \<Rightarrow> error \<Rightarrow> error" where
  "transactionParseError message cause =
     (case cause of TransactionParse m \<Rightarrow> TransactionParse m | _ \<Rightarrow> TransactionParse message)"

definition blockFromBuffer :: "'t bitcoinjs \<Rightarrow> varuint \<Rightarrow> wireFormat \<Rightarrow> bytes \<Rightarrow> error + 't wblock" where
  "blockFromBuffer B V fmt buffer =
     (if fmt = WireMweb then
        rbind (readMwebBlockHeader buffer) (\<lambda>(reader, block).
        if length buffer = 80 then Inr block
        else case
          mbind (br_readVarInt V) (\<lambda>nTransactions.
          mseq (validateMwebTransactionCount nTransactions) (readMwebTransactions B nTransactions)) reader
        of (Inl err, _) \<Rightarrow> Inl (transactionParseError ''Block transaction parse failed: '' err)
         | (Inr (txs, extensionFollows), reader') \<Rightarrow>
             let block' = block\<lparr>wb_transactions := Some txs\<rparr> in
             rbind (assertBlockBodyIntact B block' (length buffer) (cu_offset reader') extensionFollows) (\<lambda>_.
             Inr (case bj_witnessCommit B block' of
                 None \<Rightarrow> block' | Some w \<Rightarrow> block'\<lparr>wb_witnessCommit := Some w\<rparr>)))
      else case bj_block B buffer of
          Inl err \<Rightarrow> Inl (transactionParseError ''Block transaction parse failed: '' err)
        | Inr plainBlock \<Rightarrow>
            if length buffer = 80 then Inr plainBlock
            else rbind (assertBlockBodyIntact B plainBlock (length buffer) (bj_blockLength B plainBlock) False)
                   (\<lambda>_. Inr plainBlock))"

definition blockFromHex :: "'t bitcoinjs \<Rightarrow> varuint \<Rightarrow> wireFormat \<Rightarrow> string \<Rightarrow> error + 't wblock" where
  "blockFromHex B V fmt blockHex = blockFromBuffer B V fmt (h2b blockHex)"

definition txFromHex :: "'t bitcoinjs \<Rightarrow> wireFormat \<Rightarrow> string \<Rightarrow> error + 't" where
  "txFromHex B fmt hexString =
     (case
       (if hexString = [] \<or> odd (length hexString) \<or> \<not> list_all (\<lambda>c. hexval c \<noteq> None) hexString
        then Inl (TransactionParse ''Transaction hex must be a non-empty, even-length hexadecimal string'')
        else
          let buffer = h2b hexString in
          if fmt = WireMweb \<and> hasMwebFlag buffer 0 then
            rbind (readMwebFlaggedTransaction B buffer 0 True) (\<lambda>(tx, consumed).
            if consumed \<noteq> length buffer then Inl (TransactionParse ''Transaction has trailing byte(s)'') else Inr tx)
          else
            rbind (bj_txNoStrict B buffer) (\<lambda>tx.
            if bj_txLength B tx \<noteq> length buffer then Inl (TransactionParse ''Transaction has trailing byte(s)'')
            else Inr tx))
      of Inl err \<Rightarrow> Inl (transactionParseError ''Transaction parse failed: '' err)
       | Inr tx \<Rightarrow> Inr tx)"

definition doubleSha256AndReverse :: "(bytes \<Rightarrow> bytes) \<Rightarrow> bytes \<Rightarrow> bytes" where
  "doubleSha256AndReverse sha256 data = rev (sha256 (sha256 data))"

subsection \<open>The layout of a flagged transaction\<close>

text \<open>
  Litecoin's serialisation: version, the marker 0x00, the flag (0x08, or 0x09 with a witness),
  inputs, outputs, the witness, the MWEB tag with its body (a null tag is the single byte 0x00),
  lock time. Without its MWEB part it is the plain form, with the segwit marker where it has a
  witness.
\<close>

record mweb_tx =
  mt_version :: nat
  mt_witness :: bool
  mt_ins :: "wire_in list"
  mt_outs :: "wire_out list"
  mt_stacks :: "bytes list list"
  mt_mweb :: bytes
  mt_locktime :: nat

definition ser_inouts :: "mweb_tx \<Rightarrow> bytes" where
  "ser_inouts t = ser_vec ser_in (mt_ins t) @ ser_vec ser_out (mt_outs t)"

definition ser_stacks :: "mweb_tx \<Rightarrow> bytes" where
  "ser_stacks t = (if mt_witness t then concat (map ser_stack (mt_stacks t)) else [])"

definition ser_mweb :: "mweb_tx \<Rightarrow> bytes" where
  "ser_mweb t = le 4 (mt_version t) @ [0, if mt_witness t then 0x09 else 0x08] @ ser_inouts t @ ser_stacks t
     @ mt_mweb t @ le 4 (mt_locktime t)"

definition ser_plain :: "mweb_tx \<Rightarrow> bytes" where
  "ser_plain t = le 4 (mt_version t) @ (if mt_witness t then [0, 1] else []) @ ser_inouts t @ ser_stacks t
     @ le 4 (mt_locktime t)"

definition mweb_ok :: "mweb_tx \<Rightarrow> bool" where
  "mweb_ok t \<longleftrightarrow> (mt_version t = 1 \<or> mt_version t = 2) \<and> small (mt_ins t) \<and> list_all in_ok (mt_ins t)
     \<and> small (mt_outs t) \<and> list_all out_ok (mt_outs t)
     \<and> (mt_witness t \<longrightarrow> length (mt_stacks t) = length (mt_ins t) \<and> list_all stack_ok (mt_stacks t))
     \<and> mt_mweb t \<noteq> [] \<and> mt_locktime t < 2 ^ 32"

subsection \<open>Reading is exact\<close>

lemma compact_read:
  assumes "v < 2 ^ 53"
  shows "readMwebCompactSize (p @ compact v @ s) (length p) what = Inr (v, length p + length (compact v))"
proof -
  have first: "(of_nat v :: byte) < 253" if "v < 253"
    using that by (simp add: word_less_nat_alt)
  consider "v < 0xFD" | "0xFD \<le> v" "v \<le> 0xFFFF" | "0xFFFF < v" "v \<le> 0xFFFFFFFF" | "0xFFFFFFFF < v" by linarith
  then show ?thesis
    by cases (use first readUIntLE_le_Cons [of v 2 p _ s] readUIntLE_le_Cons [of v 4 p _ s]
        readUIntLE_le_Cons [of v 8 p _ s] assms in
      \<open>simp_all add: readMwebCompactSize_def compact_def nth_append skipMwebBytes_def MAX_SAFE_INTEGER_def\<close>)
qed

lemma compact_read_after:
  "v < 2 ^ 53 \<Longrightarrow> readMwebCompactSize (p @ q @ compact v @ s) (length p + length q) what
    = Inr (v, length p + length q + length (compact v))"
  using compact_read [of v "p @ q" s what] by simp

lemma passes_bytes: "length e = n \<Longrightarrow> passes (\<lambda>buf offset. skipMwebBytes buf offset n what) e"
  by (simp add: passes_def skipMwebBytes_def)

lemma passes_counted:
  assumes "n < 2 ^ 53" and "passes (\<lambda>buf. h buf n) e"
  shows "passes (\<lambda>buf offset. rbind (readMwebCompactSize buf offset what) (\<lambda>(n, offset). h buf n offset)) (compact n @ e)"
proof -
  have "h (p @ compact n @ e @ s) n (length p + length (compact n)) = Inr (length p + (length (compact n) + length e))" for p s
    using passesD [OF assms(2), of "p @ compact n" s] by (simp add: add.assoc)
  then show ?thesis using compact_read [OF assms(1)] by (simp add: passes_def)
qed

lemma passes_varbytes: "small e \<Longrightarrow> passes (\<lambda>buf offset. skipMwebVarBytes buf offset what) (ser_var e)"
  unfolding skipMwebVarBytes_def ser_var_def
  by (rule passes_counted [where h = "\<lambda>buf n offset. skipMwebBytes buf offset n what"])
     (simp_all add: small_def passes_bytes)

lemma passes_mweb_ins: "list_all in_ok ins \<Longrightarrow> passes (\<lambda>buf. skipMwebIns buf (length ins)) (concat (map ser_in ins))"
proof (rule passes_repeat)
  fix i p s n
  assume "list_all in_ok ins" and "i \<in> set ins"
  then obtain q c z where i: "i = (q, c, z)" "length q = 36" "small c" "length z = 4"
    by (cases i) (auto simp: list_all_iff in_ok_def)
  have "passes (\<lambda>buf offset. rbind (skipMwebBytes buf offset 36 ''input prevout'') (\<lambda>offset.
     rbind (skipMwebVarBytes buf offset ''input script'') (\<lambda>offset. skipMwebBytes buf offset 4 ''input sequence''))) (ser_in i)"
    unfolding i(1) ser_in_def prod.case using i by (intro passes_then passes_bytes passes_varbytes)
  from passesD [OF this, of p s]
  show "skipMwebIns (p @ ser_in i @ s) (Suc n) (length p) = skipMwebIns (p @ ser_in i @ s) n (length p + length (ser_in i))"
    by (auto simp: rbind_Inr_iff)
qed simp

lemma passes_mweb_outs: "list_all out_ok outs \<Longrightarrow> passes (\<lambda>buf. skipMwebOuts buf (length outs)) (concat (map ser_out outs))"
proof (rule passes_repeat)
  fix x p s n
  assume "list_all out_ok outs" and "x \<in> set outs"
  then obtain a c where x: "x = (a, c)" "length a = 8" "small c"
    by (cases x) (auto simp: list_all_iff out_ok_def)
  have "passes (\<lambda>buf offset. rbind (skipMwebBytes buf offset 8 ''output value'') (\<lambda>offset.
     skipMwebVarBytes buf offset ''output script'')) (ser_out x)"
    unfolding x(1) ser_out_def prod.case using x by (intro passes_then passes_bytes passes_varbytes)
  from passesD [OF this, of p s]
  show "skipMwebOuts (p @ ser_out x @ s) (Suc n) (length p) = skipMwebOuts (p @ ser_out x @ s) n (length p + length (ser_out x))"
    by (auto simp: rbind_Inr_iff)
qed simp

lemma passes_mweb_items: "\<forall>i \<in> set items. small i \<Longrightarrow> passes (\<lambda>buf. skipMwebItems buf (length items)) (concat (map ser_var items))"
proof (rule passes_repeat)
  fix i p s n
  assume "\<forall>i \<in> set items. small i" and "i \<in> set items"
  then show "skipMwebItems (p @ ser_var i @ s) (Suc n) (length p) = skipMwebItems (p @ ser_var i @ s) n (length p + length (ser_var i))"
    using passesD [OF passes_varbytes [of i], of p s] by simp
qed simp

lemma passes_mweb_witness:
  "list_all stack_ok stacks \<Longrightarrow> passes (\<lambda>buf. skipMwebWitness buf (length stacks)) (concat (map ser_stack stacks))"
proof (rule passes_repeat)
  fix items p s n
  assume "list_all stack_ok stacks" and "items \<in> set stacks"
  then have ok: "length items < 2 ^ 53" "\<forall>i \<in> set items. small i"
    by (auto simp: list_all_iff stack_ok_def small_def)
  show "skipMwebWitness (p @ ser_stack items @ s) (Suc n) (length p) = skipMwebWitness (p @ ser_stack items @ s) n (length p + length (ser_stack items))"
    using passesD [OF passes_counted [where h = skipMwebItems and what = "''witness item count''", OF ok(1) passes_mweb_items [OF ok(2)]], of p s]
    by (simp add: ser_stack_def compact_read [OF ok(1)])
qed simp

lemma mweb_ins_and_outs:
  assumes "mweb_ok t"
  shows "skipMwebInsAndOuts (p @ ser_inouts t @ s) (length p)
    = Inr (length p + length (ser_inouts t), length p + length (ser_vec ser_in (mt_ins t)), length (mt_ins t))"
proof -
  let ?n = "length (mt_ins t)" and ?k = "length (mt_outs t)"
  let ?i = "concat (map ser_in (mt_ins t))" and ?o = "concat (map ser_out (mt_outs t))"
  let ?buf = "p @ ser_inouts t @ s"
  have ok: "?n < 2 ^ 53" "?k < 2 ^ 53" "list_all in_ok (mt_ins t)" "list_all out_ok (mt_outs t)"
    using assms by (simp_all add: mweb_ok_def small_def)
  have b: "?buf = p @ compact ?n @ ?i @ compact ?k @ ?o @ s"
    by (simp add: ser_inouts_def ser_vec_def)
  have 1: "readMwebCompactSize ?buf (length p) w = Inr (?n, length (p @ compact ?n))" for w
    using compact_read [OF ok(1), of p "?i @ compact ?k @ ?o @ s"] b by simp
  have 2: "skipMwebIns ?buf ?n (length (p @ compact ?n)) = Inr (length (p @ compact ?n @ ?i))"
    using passesD [OF passes_mweb_ins [OF ok(3)], of "p @ compact ?n" "compact ?k @ ?o @ s"] b by simp
  have 3: "readMwebCompactSize ?buf (length (p @ compact ?n @ ?i)) w = Inr (?k, length (p @ compact ?n @ ?i @ compact ?k))" for w
    using compact_read [OF ok(2), of "p @ compact ?n @ ?i" "?o @ s" w] b by simp
  have 4: "skipMwebOuts ?buf ?k (length (p @ compact ?n @ ?i @ compact ?k)) = Inr (length (p @ compact ?n @ ?i @ compact ?k @ ?o))"
    using passesD [OF passes_mweb_outs [OF ok(4)], of "p @ compact ?n @ ?i @ compact ?k" s] b by simp
  show ?thesis
    unfolding skipMwebInsAndOuts_def 1 rbind_simps prod.case 2 3 4 by (simp add: ser_inouts_def ser_vec_def)
qed

lemma mweb_flag:
  assumes "mweb_ok t"
  shows "hasMwebFlag (p @ ser_mweb t @ s) (length p)"
  using assms by (auto simp: hasMwebFlag_def ser_mweb_def mweb_ok_def slice_def nth_append Let_def
      LITECOIN_HOGEX_FLAG_def LITECOIN_MWEB_SEGWIT_FLAG_def)

text \<open>
  Where everything is in the buffer: what the reader computes before it hands the transaction on.
\<close>

definition mweb_tail :: "bool \<Rightarrow> bytes \<Rightarrow> bytes \<Rightarrow> bool" where
  "mweb_tail standalone mweb s \<longleftrightarrow> mweb = [0] \<or> (hd mweb \<noteq> 0 \<and> standalone \<and> s = [])"

lemma mweb_walk:
  fixes t
  defines "w \<equiv> 6 + length (ser_inouts t) + length (ser_stacks t)"
  assumes ok: "mweb_ok t" and tail: "mweb_tail standalone (mt_mweb t) s"
  shows "readMwebFlaggedTransaction B (p @ ser_mweb t @ s) (length p) standalone
    = (if mt_ins t = []
       then rbind (buildInputlessTransaction B (p @ ser_mweb t @ s) (length p)
              (length p + 6 + length (ser_vec ser_in (mt_ins t))) (length p + w + length (mt_mweb t)))
              (\<lambda>tx. Inr (tx, length (ser_mweb t)))
       else rbind (bj_tx B (ser_plain t)) (\<lambda>tx. Inr (tx, length (ser_mweb t))))"
proof -
  let ?fl = "if mt_witness t then 0x09 else 0x08 :: byte"
  let ?h = "le 4 (mt_version t) @ [0, ?fl]"
  let ?buf = "p @ ser_mweb t @ s" and ?lock = "le 4 (mt_locktime t)"
  have b: "?buf = (p @ ?h) @ ser_inouts t @ ser_stacks t @ mt_mweb t @ ?lock @ s"
    by (simp add: ser_mweb_def)
  have l: "length ?buf = length p + w + length (mt_mweb t) + 4 + length s"
    by (simp add: ser_mweb_def w_def)
  have flag: "(length p + 5 < length ?buf \<and> odd (unat (?buf ! (length p + 5)))) = mt_witness t"
    by (simp add: ser_mweb_def nth_append)
  have io: "skipMwebInsAndOuts ?buf (length p + 6) = Inr (length p + 6 + length (ser_inouts t),
      length p + 6 + length (ser_vec ser_in (mt_ins t)), length (mt_ins t))"
    using mweb_ins_and_outs [OF ok, of "p @ ?h" "ser_stacks t @ mt_mweb t @ ?lock @ s"] unfolding b by (simp add: add.assoc)
  have wit: "(if mt_witness t then skipMwebWitness ?buf (length (mt_ins t)) (length p + 6 + length (ser_inouts t))
     else Inr (length p + 6 + length (ser_inouts t))) = Inr (length p + w)"
  proof (cases "mt_witness t")
    case True
    then have "list_all stack_ok (mt_stacks t)" "length (mt_stacks t) = length (mt_ins t)" using ok by (simp_all add: mweb_ok_def)
    then show ?thesis
      using True passesD [OF passes_mweb_witness, of "mt_stacks t" "p @ ?h @ ser_inouts t" "mt_mweb t @ ?lock @ s"]
      unfolding b by (simp add: w_def ser_stacks_def add.assoc)
  qed (simp add: w_def ser_stacks_def)
  obtain c m where m: "mt_mweb t = c # m" using ok by (cases "mt_mweb t") (auto simp: mweb_ok_def)
  have tag: "?buf ! (length p + w) = c"
    unfolding b by (simp add: nth_append w_def m)
  have tagEnd: "skipMwebBytes ?buf (length p + w) 1 what = Inr (length p + w + 1)" for what
    using l m by (simp add: skipMwebBytes_def)
  have lock: "(if ?buf ! (length p + w) \<noteq> 0 then
               (if \<not> standalone
                then Inl (WireError ''MWEB tx parse: a non-null MWEB part inside a block has no recorded length'')
                else if int (length ?buf) - 4 < int (length p + w + 1) then Inl (mwebShortError ''locktime'')
                else Inr (length ?buf - 4))
             else Inr (length p + w + 1)) = Inr (length p + w + length (mt_mweb t))"
    using tail l m unfolding tag by (auto simp: mweb_tail_def)
  have fin: "skipMwebBytes ?buf (length p + w + length (mt_mweb t)) 4 what = Inr (length p + w + length (mt_mweb t) + 4)" for what
    using l by (simp add: skipMwebBytes_def)
  have consumed: "length p + w + length (mt_mweb t) + 4 - length p = length (ser_mweb t)"
    by (simp add: ser_mweb_def w_def)
  have s1: "slice (length p) (length p + 4) ?buf = le 4 (mt_version t)"
    using slice_exact [of p "length p" "le 4 (mt_version t)" "length p + 4" "[0, ?fl] @ ser_inouts t @ ser_stacks t @ mt_mweb t @ ?lock @ s"]
    unfolding b by simp
  have s2: "slice (length p + 6) (length p + w) ?buf = ser_inouts t @ ser_stacks t"
    using slice_exact [of "p @ ?h" "length p + 6" "ser_inouts t @ ser_stacks t" "length p + w" "mt_mweb t @ ?lock @ s"]
    unfolding b by (simp add: w_def)
  have s3: "slice (length p + w + length (mt_mweb t)) (length p + w + length (mt_mweb t) + 4) ?buf = ?lock"
    using slice_exact [of "p @ ?h @ ser_inouts t @ ser_stacks t @ mt_mweb t" "length p + w + length (mt_mweb t)" ?lock
      "length p + w + length (mt_mweb t) + 4" s]
    unfolding b by (simp add: w_def)
  show ?thesis
    unfolding readMwebFlaggedTransaction_def flag Let_def io rbind_simps prod.case wit tagEnd lock fin s1 s2 s3 consumed
    by (simp add: ser_plain_def)
qed

lemma inputless_outs:
  "list_all out_ok outs \<Longrightarrow> inputlessOuts (p @ concat (map ser_out outs) @ s) (length outs) (length p)
    = Inr (map (\<lambda>(amount, script). (script, unle amount)) outs)"
proof (induction outs arbitrary: p)
  case (Cons x outs)
  obtain a c where x: "x = (a, c)" "length a = 8" "length c < 2 ^ 53"
    using Cons.prems by (cases x) (auto simp: out_ok_def small_def)
  let ?rest = "concat (map ser_out outs) @ s"
  let ?buf = "p @ a @ compact (length c) @ c @ ?rest"
  have v: "readUIntLE 8 ?buf (length p) = Inr (unle a)" using x(2) by (simp add: readUIntLE_def)
  have z: "readMwebCompactSize ?buf (length p + 8) what = Inr (length c, length p + 8 + length (compact (length c)))" for what
    using compact_read_after [OF x(3), of p a "c @ ?rest" what] x(2) by simp
  have sl: "slice (length p + 8 + length (compact (length c))) (length p + 8 + length (compact (length c)) + length c) ?buf = c"
    using slice_exact [of "p @ a @ compact (length c)" "length p + 8 + length (compact (length c))" c
      "length p + 8 + length (compact (length c)) + length c" ?rest] x(2) by (simp add: add.assoc)
  have r: "inputlessOuts ?buf (length outs) (length p + 8 + length (compact (length c)) + length c)
      = Inr (map (\<lambda>(amount, script). (script, unle amount)) outs)"
    using Cons.IH [of "p @ a @ compact (length c) @ c"] Cons.prems x(2) by (simp add: add.assoc)
  have "inputlessOuts ?buf (Suc (length outs)) (length p) = Inr ((c, unle a) # map (\<lambda>(amount, script). (script, unle amount)) outs)"
    unfolding inputlessOuts.simps v z r sl rbind_simps prod.case ..
  moreover have "ser_out x = a @ compact (length c) @ c" by (simp add: x(1) ser_out_def ser_var_def)
  ultimately show ?case using x(1) by (simp del: inputlessOuts.simps)
qed simp

lemma inputless_build:
  assumes "mweb_ok t"
  shows "buildInputlessTransaction B (p @ ser_mweb t @ s) (length p) (length p + 6 + length (ser_vec ser_in (mt_ins t)))
      (length p + (6 + length (ser_inouts t) + length (ser_stacks t)) + length (mt_mweb t))
    = Inr (bj_inputless B (int (mt_version t)) (map (\<lambda>(amount, script). (script, unle amount)) (mt_outs t)) (mt_locktime t))"
proof -
  let ?fl = "if mt_witness t then 0x09 else 0x08 :: byte" and ?k = "length (mt_outs t)"
  let ?h = "le 4 (mt_version t) @ [0, ?fl] @ ser_vec ser_in (mt_ins t)" and ?o = "concat (map ser_out (mt_outs t))"
  let ?z = "ser_stacks t @ mt_mweb t" and ?lock = "le 4 (mt_locktime t)"
  let ?buf = "p @ ser_mweb t @ s"
  have ok: "mt_version t = 1 \<or> mt_version t = 2" "?k < 2 ^ 53" "list_all out_ok (mt_outs t)" "mt_locktime t < 256 ^ 4"
    using assms by (simp_all add: mweb_ok_def small_def)
  have b: "?buf = (p @ ?h) @ compact ?k @ ?o @ ?z @ ?lock @ s"
    by (simp add: ser_mweb_def ser_inouts_def ser_vec_def)
  have 1: "readInt32LE ?buf (length p) = Inr (int (mt_version t))"
    using ok(1) readUIntLE_le [of "mt_version t" 4 p "[0, ?fl] @ ser_inouts t @ ?z @ ?lock @ s"]
    by (auto simp: readInt32LE_def ser_mweb_def)
  have 2: "readMwebCompactSize ?buf (length p + 6 + length (ser_vec ser_in (mt_ins t))) what
     = Inr (?k, length (p @ ?h @ compact ?k))" for what
    using compact_read [OF ok(2), of "p @ ?h" "?o @ ?z @ ?lock @ s" what] unfolding b by (simp add: add.assoc)
  have 3: "inputlessOuts ?buf ?k (length (p @ ?h @ compact ?k)) = Inr (map (\<lambda>(amount, script). (script, unle amount)) (mt_outs t))"
    using inputless_outs [OF ok(3), of "p @ ?h @ compact ?k" "?z @ ?lock @ s"] unfolding b by simp
  have 4: "readUIntLE 4 ?buf (length p + (6 + length (ser_inouts t) + length (ser_stacks t)) + length (mt_mweb t)) = Inr (mt_locktime t)"
    using readUIntLE_le [OF ok(4), of "p @ ?h @ compact ?k @ ?o @ ?z" s]
    unfolding b by (simp add: ser_inouts_def ser_vec_def add.assoc)
  show ?thesis
    unfolding buildInputlessTransaction_def 1 2 3 4 rbind_simps prod.case ..
qed

text \<open>
  C33. An MWEB-flagged Litecoin transaction is read exactly: wherever it stands in the buffer it is
  recognised, all its bytes and no others are consumed, and bitcoinjs-lib is given its plain
  serialisation with the witness and without the MWEB part; a transaction without transparent
  inputs, which bitcoinjs-lib would misread, is built with its own version, outputs and lock time.
  The MWEB part is null, or the transaction stands alone and ends the buffer.
\<close>

theorem mweb_tx_read_exactly:
  assumes "mweb_ok t" and "mweb_tail standalone (mt_mweb t) s"
  shows "hasMwebFlag (p @ ser_mweb t @ s) (length p)
    \<and> readMwebFlaggedTransaction B (p @ ser_mweb t @ s) (length p) standalone
      = rbind (if mt_ins t = []
               then Inr (bj_inputless B (int (mt_version t)) (map (\<lambda>(amount, script). (script, unle amount)) (mt_outs t)) (mt_locktime t))
               else bj_tx B (ser_plain t)) (\<lambda>tx. Inr (tx, length (ser_mweb t)))"
  unfolding mweb_walk [OF assms] inputless_build [OF assms(1)] using mweb_flag [OF assms(1)] by simp

definition mweb_example :: mweb_tx where
  "mweb_example = \<lparr>mt_version = 2, mt_witness = True, mt_ins = [(replicate 36 7, [], [255, 255, 255, 255])],
     mt_outs = [([0, 0, 0, 0, 0, 0, 0, 1], [3])], mt_stacks = [[[5, 6], []]], mt_mweb = [1, 44, 45], mt_locktime = 700\<rparr>"

theorem mweb_tx_read_exactly_witness:
  "readMwebFlaggedTransaction bitcoinjs_plain ([1, 2] @ ser_mweb mweb_example @ []) 2 True
    = Inr (ser_plain mweb_example, length (ser_mweb mweb_example))"
proof -
  have "mweb_ok mweb_example"
    by (simp add: mweb_example_def mweb_ok_def in_ok_def out_ok_def stack_ok_def small_def)
  moreover have "mweb_tail True (mt_mweb mweb_example) []" by (simp add: mweb_tail_def mweb_example_def)
  moreover have "mt_ins mweb_example \<noteq> []" by (simp add: mweb_example_def)
  ultimately show ?thesis
    using mweb_tx_read_exactly [of mweb_example True "[]" "[1, 2]" bitcoinjs_plain] by (simp add: bitcoinjs_plain_def numeral_2_eq_2)
qed

subsection \<open>A decoded block is whole\<close>

lemma readMwebTransactions_reads:
  "readMwebTransactions B n c = (Inr (txs, hogEx), c') \<Longrightarrow>
     cu_buffer c' = cu_buffer c \<and> length txs = n
   \<and> (if hogEx then txs \<noteq> [] \<and> hasMwebFlag (cu_buffer c) (cu_offset c + sum_list (map (bj_txLength B) (butlast txs)))
      else cu_offset c' = cu_offset c + sum_list (map (bj_txLength B) txs))"
proof (induction n arbitrary: c txs hogEx)
  case (Suc n)
  show ?case
  proof (cases "n = 0 \<and> hasMwebFlag (cu_buffer c) (cu_offset c)")
    case True
    then show ?thesis using Suc.prems by (auto simp: mbind_Inr_iff mseq_Inr_iff)
  next
    case False
    from Suc.prems have "mbind (readMwebTransaction B) (\<lambda>tx.
       mbind (readMwebTransactions B n) (\<lambda>(txs, hogExLast). mret (tx # txs, hogExLast))) c = (Inr (txs, hogEx), c')"
      using False by (auto simp: mbind_Inr_iff)
    then obtain tx c1 rest where t: "readMwebTransaction B c = (Inr tx, c1)"
      and r: "readMwebTransactions B n c1 = (Inr (rest, hogEx), c')" and x: "txs = tx # rest"
      by (auto simp: mbind_Inr_iff)
    have c1: "cu_buffer c1 = cu_buffer c" "cu_offset c1 = cu_offset c + bj_txLength B tx"
      using t by (auto simp: readMwebTransaction_def mbind_Inr_iff mseq_Inr_iff)
    show ?thesis using Suc.IH [OF r] c1 x by (auto simp: add.assoc)
  qed
qed simp

lemma readMwebBlockHeader_fields:
  assumes "readMwebBlockHeader buffer = Inr (reader, block)"
  shows "length buffer \<ge> 80 \<and> reader = \<lparr>cu_buffer = buffer, cu_offset = 80\<rparr> \<and> wb_prevHash block = slice 4 36 buffer
    \<and> wb_merkleRoot block = slice 36 68 buffer \<and> wb_transactions block = None"
  using assms
  by (auto simp: readMwebBlockHeader_def br_readInt32_def br_readSlice_def br_readUInt32_def get_with_def
      mbind_Inr_iff mseq_Inr_iff split: if_splits prod.splits sum.splits)

lemma assertBlockBodyIntact_ok:
  "assertBlockBodyIntact B block len bodyEnd ext = Inr u \<longleftrightarrow> transactions_of block \<noteq> [] \<and> (bodyEnd = len \<or> ext)
    \<and> bj_merkleRoot B (transactions_of block) = Inr (wb_merkleRoot block)"
  by (auto simp: assertBlockBodyIntact_def Let_def rbind_Inr_iff not_less)

text \<open>
  C34. A block that decodes is whole: beyond a bare header it has a transaction, its header's merkle
  root (under MWEB, the bytes 36 to 68 of the buffer) is that of its transactions, and the
  transactions fill the buffer to its end. Under MWEB this is stated byte by byte: the
  transactions are as many as the count behind the 80 bytes of the header says, and their lengths,
  laid end to end from the byte behind that count, end exactly at the buffer's end, unless the byte
  where the last one starts carries the MWEB flag, behind which Litecoin writes the extension block.
\<close>

theorem decoded_block_is_whole:
  fixes B :: "'t bitcoinjs"
  assumes "blockFromBuffer B V fmt buffer = Inr block" and "length buffer \<noteq> 80"
  shows "transactions_of block \<noteq> [] \<and> bj_merkleRoot B (transactions_of block) = Inr (wb_merkleRoot block)
    \<and> (if fmt = WireMweb
       then wb_merkleRoot block = slice 36 68 buffer \<and> wb_prevHash block = slice 4 36 buffer
         \<and> (let size_of = \<lambda>txs. sum_list (map (bj_txLength B) txs); txs = transactions_of block in
             \<exists>c. br_readVarInt V \<lparr>cu_buffer = buffer, cu_offset = 80\<rparr> = (Inr (length txs), c)
               \<and> (cu_offset c + size_of txs = length buffer \<or> hasMwebFlag buffer (cu_offset c + size_of (butlast txs))))
       else bj_blockLength B block = length buffer)"
proof (cases "fmt = WireMweb")
  case False
  then show ?thesis
    using assms by (auto simp: blockFromBuffer_def rbind_Inr_iff assertBlockBodyIntact_ok split: sum.splits)
next
  case True
  obtain reader and hd0 :: "'t wblock" where h: "readMwebBlockHeader buffer = Inr (reader, hd0)"
    using assms True by (auto simp: blockFromBuffer_def rbind_Inr_iff)
  note f = readMwebBlockHeader_fields [OF h]
  let ?body = "mbind (br_readVarInt V) (\<lambda>nTransactions.
          mseq (validateMwebTransactionCount nTransactions) (readMwebTransactions B nTransactions)) reader"
  from assms True h obtain txs ext reader' where b: "?body = (Inr (txs, ext), reader')"
    by (auto simp: blockFromBuffer_def rbind_Inr_iff split: sum.splits prod.splits)
  let ?block = "hd0\<lparr>wb_transactions := Some txs\<rparr>"
  from assms True h b have i: "assertBlockBodyIntact B ?block (length buffer) (cu_offset reader') ext = Inr ()"
    and blk: "block = ?block \<or> (\<exists>w. block = ?block\<lparr>wb_witnessCommit := Some w\<rparr>)"
    by (auto simp: blockFromBuffer_def Let_def rbind_Inr_iff split: option.splits)
  have t: "transactions_of block = txs" "wb_merkleRoot block = wb_merkleRoot hd0" "wb_prevHash block = wb_prevHash hd0"
    using blk by (auto simp: transactions_of_def)
  have w: "txs \<noteq> []" "cu_offset reader' = length buffer \<or> ext" "bj_merkleRoot B txs = Inr (wb_merkleRoot hd0)"
    using i unfolding assertBlockBodyIntact_ok by (simp_all add: transactions_of_def)
  from b obtain n c1 c2 where v: "br_readVarInt V reader = (Inr n, c1)" and c: "validateMwebTransactionCount n c1 = (Inr (), c2)"
    and r: "readMwebTransactions B n c2 = (Inr (txs, ext), reader')"
    by (auto simp: mbind_Inr_iff mseq_Inr_iff)
  have "cu_buffer c1 = buffer"
    using v f by (auto simp: br_readVarInt_def mbind_Inr_iff mseq_Inr_iff)
  moreover have "c2 = c1"
    using c by (auto simp: validateMwebTransactionCount_def mbind_Inr_iff split: if_splits)
  ultimately have "br_readVarInt V reader = (Inr (length txs), c1)
      \<and> (cu_offset c1 + sum_list (map (bj_txLength B) txs) = length buffer
         \<or> hasMwebFlag buffer (cu_offset c1 + sum_list (map (bj_txLength B) (butlast txs))))"
    using readMwebTransactions_reads [OF r] w(2) v by (auto split: if_splits)
  then show ?thesis using True w(1,3) t f by (auto simp: Let_def)
qed

definition block_example :: bytes where
  "block_example = replicate 80 2 @ [1] @ replicate 12 5"

theorem decoded_block_is_whole_witness:
  "\<exists>block. blockFromBuffer bitcoinjs_plain varuint_short WireMweb block_example = Inr block
    \<and> transactions_of block \<noteq> [] \<and> wb_merkleRoot block = slice 36 68 block_example
    \<and> 81 + sum_list (map (bj_txLength bitcoinjs_plain) (transactions_of block)) = length block_example"
proof -
  let ?c = "\<lparr>cu_buffer = block_example, cu_offset = 81\<rparr>"
  have l: "length block_example = 93" by (simp add: block_example_def)
  obtain hd0 :: "bytes wblock" where h: "readMwebBlockHeader block_example = Inr (\<lparr>cu_buffer = block_example, cu_offset = 80\<rparr>, hd0)"
    by (simp add: readMwebBlockHeader_def br_readInt32_def br_readSlice_def br_readUInt32_def get_with_def l
        readInt32LE_def readUIntLE_def read_at_def mbind_def mseq_def)
  then have m: "wb_merkleRoot hd0 = replicate 32 2"
    using readMwebBlockHeader_fields [OF h] by (simp add: block_example_def slice_def)
  have v: "br_readVarInt varuint_short \<lparr>cu_buffer = block_example, cu_offset = 80\<rparr> = (Inr 1, ?c)"
    by (simp add: br_readVarInt_def varuint_short_def readUIntLE_def read_at_def block_example_def slice_def unle_def unbe_def)
  have t: "readMwebTransactions bitcoinjs_plain 1 ?c
      = (Inr ([replicate 12 5], False), \<lparr>cu_buffer = block_example, cu_offset = 93\<rparr>)"
    by (simp add: readMwebTransaction_def bitcoinjs_plain_def block_example_def hasMwebFlag_def nth_append mbind_def mseq_def Let_def)
  have c: "validateMwebTransactionCount 1 ?c = (Inr (), ?c)"
    by (simp add: validateMwebTransactionCount_def block_example_def)
  have b: "mbind (br_readVarInt varuint_short) (\<lambda>nTransactions.
      mseq (validateMwebTransactionCount nTransactions) (readMwebTransactions bitcoinjs_plain nTransactions))
      \<lparr>cu_buffer = block_example, cu_offset = 80\<rparr>
    = (Inr ([replicate 12 5], False), \<lparr>cu_buffer = block_example, cu_offset = 93\<rparr>)"
    unfolding mbind_def mseq_def v c t prod.case sum.case ..
  have i: "assertBlockBodyIntact bitcoinjs_plain (hd0\<lparr>wb_transactions := Some [replicate 12 5]\<rparr>) 93 93 False = Inr ()"
    unfolding assertBlockBodyIntact_ok by (simp add: transactions_of_def bitcoinjs_plain_def m)
  have no_flag: "\<not> hasMwebFlag block_example 81"
    by (simp add: hasMwebFlag_def block_example_def nth_append Let_def)
  obtain block where blk: "blockFromBuffer bitcoinjs_plain varuint_short WireMweb block_example = Inr block"
    unfolding blockFromBuffer_def h rbind_simps prod.case b sum.case Let_def cursor.simps l i by simp
  have whole: "transactions_of block \<noteq> []" "wb_merkleRoot block = slice 36 68 block_example"
    and fill: "\<exists>c. br_readVarInt varuint_short \<lparr>cu_buffer = block_example, cu_offset = 80\<rparr> = (Inr (length (transactions_of block)), c)
      \<and> (cu_offset c + sum_list (map (bj_txLength bitcoinjs_plain) (transactions_of block)) = length block_example
         \<or> hasMwebFlag block_example (cu_offset c + sum_list (map (bj_txLength bitcoinjs_plain) (butlast (transactions_of block)))))"
    using decoded_block_is_whole [OF blk] l by (simp_all add: Let_def)
  from fill have one: "length (transactions_of block) = 1"
    and end_of: "81 + sum_list (map (bj_txLength bitcoinjs_plain) (transactions_of block)) = length block_example
      \<or> hasMwebFlag block_example (81 + sum_list (map (bj_txLength bitcoinjs_plain) (butlast (transactions_of block))))"
    using v by auto
  have "butlast (transactions_of block) = []" using one by (cases "transactions_of block") auto
  then show ?thesis using blk whole end_of no_flag by auto
qed

end
