(* ===== verification/Config.thy ===== *)
theory Config
  imports Hexadecimal "HOL-Library.Log_Nat"
begin

text \<open>
  The numeric configuration of the tracker: the strict integer reader of environment knobs
  (\<^verbatim>\<open>src/config/env_int.js\<close>), the reorg-recovery window of a chain (\<^verbatim>\<open>src/chain/undo_blocks.js\<close>),
  its coinbase maturity (\<^verbatim>\<open>src/chain/coinbase_maturity.js\<close>) and the sizes derived from the memory
  budget (\<^verbatim>\<open>src/store/memory_budget.js\<close>). The environment is a map from names to texts. A text is
  read as JavaScript's \<open>Number\<close> reads it: the grammar of numeric literals, and the rounding to
  the nearest double.
\<close>

subsection \<open>JavaScript's Number of a text\<close>

definition trim :: "string \<Rightarrow> string" where
  "trim s = rev (dropWhile is_space (rev (dropWhile is_space s)))"

definition round_half_even :: "rat \<Rightarrow> int" where
  "round_half_even q = (let n = \<lfloor>q\<rfloor>; f = q - of_int n in
     if f > 1/2 \<or> f = 1/2 \<and> odd n then n + 1 else n)"

text \<open>The binary exponent of a positive rational: \<open>2 powi e \<le> r < 2 powi (e + 1)\<close>.\<close>

definition binexp :: "rat \<Rightarrow> int" where
  "binexp r = (case quotient_of r of (p, q) \<Rightarrow>
     let e = int (floorlog 2 (nat p)) - int (floorlog 2 (nat q)) in
     if (2 :: rat) powi e \<le> r then e else e - 1)"

text \<open>The nearest double of a non-negative rational; \<open>None\<close> is infinity.\<close>

definition to_double :: "rat \<Rightarrow> rat option" where
  "to_double r =
     (if r = 0 then Some 0
      else let u = (2 :: rat) powi (max (binexp r - 52) (- 1074)); v = of_int (round_half_even (r / u)) * u in
        if v \<ge> 2 powi 1024 then None else Some v)"

definition exponentPart :: "string \<Rightarrow> int option" where
  "exponentPart s = (case s of
       [] \<Rightarrow> Some 0
     | c # r \<Rightarrow>
         if \<not> (c = CHR ''e'' \<or> c = CHR ''E'') then None
         else
           let neg = (r \<noteq> [] \<and> hd r = CHR ''-''); ds = (if r \<noteq> [] \<and> (hd r = CHR ''-'' \<or> hd r = CHR ''+'') then tl r else r) in
           if ds = [] \<or> \<not> list_all is_digit ds then None
           else Some (if neg then - int (undec ds) else int (undec ds)))"

definition unsignedDecimal :: "string \<Rightarrow> rat option" where
  "unsignedDecimal s =
     (let ip = takeWhile is_digit s; r1 = dropWhile is_digit s;
          point = (r1 \<noteq> [] \<and> hd r1 = CHR ''.'');
          fp = (if point then takeWhile is_digit (tl r1) else []);
          r2 = (if point then dropWhile is_digit (tl r1) else r1) in
      if ip = [] \<and> fp = [] then None
      else case exponentPart r2 of None \<Rightarrow> None
         | Some e \<Rightarrow> to_double (of_nat (undec (ip @ fp)) * 10 powi (e - int (length fp))))"

definition radixDigits :: "nat \<Rightarrow> string \<Rightarrow> rat option" where
  "radixDigits b ds =
     (if ds = [] \<or> \<not> list_all (\<lambda>c. case hexval c of None \<Rightarrow> False | Some d \<Rightarrow> d < b) ds then None
      else to_double (of_nat (foldl (\<lambda>a c. a * b + the (hexval c)) 0 ds)))"

text \<open>\<open>Number\<close> of a trimmed, non-empty text; \<open>None\<close> is NaN or an infinity, neither of which is an integer.\<close>

definition jsNumber :: "string \<Rightarrow> rat option" where
  "jsNumber s =
     (if take 2 s \<in> {''0x'', ''0X''} then radixDigits 16 (drop 2 s)
      else if take 2 s \<in> {''0o'', ''0O''} then radixDigits 8 (drop 2 s)
      else if take 2 s \<in> {''0b'', ''0B''} then radixDigits 2 (drop 2 s)
      else case s of
        [] \<Rightarrow> Some 0
      | c # r \<Rightarrow>
          if c = CHR ''-'' then map_option uminus (unsignedDecimal r)
          else unsignedDecimal (if c = CHR ''+'' then r else s))"

subsection \<open>Integer knobs\<close>

record int_read =
  ir_absent :: bool
  ir_value :: "int option"

definition readInt :: "string option \<Rightarrow> int_read" where
  "readInt raw = (case raw of
       None \<Rightarrow> \<lparr>ir_absent = True, ir_value = None\<rparr>
     | Some s \<Rightarrow>
         if trim s = [] then \<lparr>ir_absent = True, ir_value = None\<rparr>
         else case jsNumber (trim s) of
             None \<Rightarrow> \<lparr>ir_absent = False, ir_value = None\<rparr>
           | Some parsed \<Rightarrow>
               if of_int \<lfloor>parsed\<rfloor> \<noteq> parsed then \<lparr>ir_absent = False, ir_value = None\<rparr>
               else \<lparr>ir_absent = False, ir_value = Some \<lfloor>parsed\<rfloor>\<rparr>)"

definition intKnob :: "string option \<Rightarrow> int \<Rightarrow> int \<Rightarrow> int" where
  "intKnob raw fallback mn =
     (let r = readInt raw in
      if ir_absent r then fallback
      else case ir_value r of None \<Rightarrow> fallback | Some v \<Rightarrow> if v < mn then fallback else v)"

type_synonym environment = "string \<Rightarrow> string option"

definition envInt :: "environment \<Rightarrow> string \<Rightarrow> int \<Rightarrow> int \<Rightarrow> int" where
  "envInt env name fallback mn = intKnob (env name) fallback mn"

subsection \<open>The reorg-recovery window of a chain\<close>

datatype tick = BTC | LTC | DOGE

text \<open>The coin registry's table from full names to tickers (\<^verbatim>\<open>src/coins\<close>), as used here.\<close>

definition FULL_NAME_TO_TICK :: "string \<Rightarrow> tick option" where
  "FULL_NAME_TO_TICK name =
     (if name = ''bitcoin'' then Some BTC else if name = ''litecoin'' then Some LTC
      else if name = ''dogecoin'' then Some DOGE else None)"

fun tick_name :: "tick \<Rightarrow> string" where
  "tick_name BTC = ''BTC''"
| "tick_name LTC = ''LTC''"
| "tick_name DOGE = ''DOGE''"

definition lower :: "char \<Rightarrow> char" where
  "lower c = (let n = (of_char c :: nat) in if 65 \<le> n \<and> n \<le> 90 then char_of (n + 32) else c)"

definition upper :: "char \<Rightarrow> char" where
  "upper c = (let n = (of_char c :: nat) in if 97 \<le> n \<and> n \<le> 122 then char_of (n - 32) else c)"

text \<open>The text before and after the last hyphen; \<open>None\<close> where there is no hyphen.\<close>

definition splitLastHyphen :: "string \<Rightarrow> (string \<times> string) option" where
  "splitLastHyphen n = (let r = rev n; after = takeWhile (\<lambda>c. c \<noteq> CHR ''-'') r in
     if length after = length r then None else Some (rev (drop (Suc (length after)) r), rev after))"

definition coinFromNetwork :: "string \<Rightarrow> tick option" where
  "coinFromNetwork network =
     (let n = map lower network in
      FULL_NAME_TO_TICK (case splitLastHyphen n of None \<Rightarrow> n | Some (full, _) \<Rightarrow> full))"

definition netFromNetwork :: "string \<Rightarrow> string" where
  "netFromNetwork network =
     (case splitLastHyphen (map lower network) of None \<Rightarrow> [] | Some (_, net) \<Rightarrow> net)"

definition undoBlocksKey :: "string \<Rightarrow> string \<Rightarrow> string" where
  "undoBlocksKey coin net = coin @ ''_'' @ map upper net"

definition DEFAULT_UNDO_BLOCKS :: "string \<Rightarrow> int option" where
  "DEFAULT_UNDO_BLOCKS = map_of [
     (''BTC_MAINNET'', 12), (''LTC_MAINNET'', 120), (''DOGE_MAINNET'', 120),
     (''BTC_TESTNET'', 120), (''LTC_TESTNET'', 5000), (''DOGE_TESTNET'', 120),
     (''BTC_REGTEST'', 12), (''LTC_REGTEST'', 120), (''DOGE_REGTEST'', 120)]"

definition MAX_SAFE_UNDO_BLOCKS :: int where
  "MAX_SAFE_UNDO_BLOCKS = 126"

definition LTC_TESTNET_SAFE_UNDO_BLOCKS :: int where
  "LTC_TESTNET_SAFE_UNDO_BLOCKS = 5006"

definition safeUndoBlocksCeiling :: "string \<Rightarrow> int" where
  "safeUndoBlocksCeiling network =
     (let key = undoBlocksKey (case coinFromNetwork network of None \<Rightarrow> ''null'' | Some c \<Rightarrow> tick_name c) (netFromNetwork network) in
      if key = ''LTC_TESTNET'' then LTC_TESTNET_SAFE_UNDO_BLOCKS else MAX_SAFE_UNDO_BLOCKS)"

text \<open>
  An explicit option is an integer or anything else (\<open>None\<close>). The second component of the result
  says whether the window exceeds the safe ceiling, which the code only warns about.
\<close>

definition resolveUndoBlocks :: "environment \<Rightarrow> string \<Rightarrow> int option \<Rightarrow> error + (int \<times> bool)" where
  "resolveUndoBlocks env network optsUndoBlocks =
     (let net = netFromNetwork network in
      case coinFromNetwork network of
        None \<Rightarrow> Inl (BadConfig ''undo-blocks: network names no coin in the canonical registry'')
      | Some coin \<Rightarrow>
          (case DEFAULT_UNDO_BLOCKS (undoBlocksKey (tick_name coin) net) of
             None \<Rightarrow> Inl (BadConfig ''undo-blocks: coin has no reorg-recovery window for net'')
           | Some fallback \<Rightarrow>
               let envVal = envInt env (''XCHAIN_UNDO_BLOCKS_'' @ tick_name coin) fallback 1;
                   resolved = (case optsUndoBlocks of
                       Some n \<Rightarrow> if n > 0 then n else if envVal > 0 then envVal else fallback
                     | None \<Rightarrow> if envVal > 0 then envVal else fallback) in
               Inr (resolved, resolved > safeUndoBlocksCeiling network)))"

subsection \<open>The coinbase maturity of a chain\<close>

fun DEFAULT_COINBASE_MATURITY :: "tick \<Rightarrow> string \<Rightarrow> int option" where
  "DEFAULT_COINBASE_MATURITY BTC net = map_of [(''mainnet'', 100), (''testnet'', 100), (''regtest'', 100)] net"
| "DEFAULT_COINBASE_MATURITY LTC net = map_of [(''mainnet'', 100), (''testnet'', 100), (''regtest'', 100)] net"
| "DEFAULT_COINBASE_MATURITY DOGE net = map_of [(''mainnet'', 240), (''testnet'', 240), (''regtest'', 60)] net"

definition resolveCoinbaseMaturity :: "environment \<Rightarrow> string \<Rightarrow> int option \<Rightarrow> error + int" where
  "resolveCoinbaseMaturity env network optsMaturity =
     (let net = netFromNetwork network in
      case coinFromNetwork network of
        None \<Rightarrow> Inl (BadConfig ''coinbase-maturity: network names no coin in the canonical registry'')
      | Some coin \<Rightarrow>
          (case DEFAULT_COINBASE_MATURITY coin net of
             None \<Rightarrow> Inl (BadConfig ''coinbase-maturity: coin has no declared coinbase maturity for net'')
           | Some def \<Rightarrow>
               let envVal = envInt env ''XCHAIN_COINBASE_MATURITY'' def 1 in
               (case optsMaturity of
                  Some n \<Rightarrow> Inr (if n > 0 then n else if envVal > 0 then envVal else def)
                | None \<Rightarrow> Inr (if envVal > 0 then envVal else def))))"

subsection \<open>The memory budget\<close>

definition MIB :: rat where "MIB = 1048576"
definition CACHE_MIN_BYTES :: rat where "CACHE_MIN_BYTES = 128 * MIB"
definition CACHE_MAX_BYTES :: rat where "CACHE_MAX_BYTES = 4096 * MIB"
definition HEAP_FLUSH_MIN_MB :: rat where "HEAP_FLUSH_MIN_MB = 256"
definition HEAP_FLUSH_MAX_MB :: rat where "HEAP_FLUSH_MAX_MB = 2048"
definition BULK_SYNC_MIN_MB :: rat where "BULK_SYNC_MIN_MB = 512"
definition BULK_SYNC_MAX_MB :: rat where "BULK_SYNC_MAX_MB = 4096"
definition CACHE_FRACTION :: rat where "CACHE_FRACTION = 4"
definition HEAP_FLUSH_FRACTION :: rat where "HEAP_FLUSH_FRACTION = 8"
definition BULK_SYNC_FRACTION :: rat where "BULK_SYNC_FRACTION = 2"

text \<open>The candidate cgroup files in order, each its text or \<open>None\<close> where it cannot be read.\<close>

fun readCgroupLimitBytes :: "string option list \<Rightarrow> rat option" where
  "readCgroupLimitBytes [] = None"
| "readCgroupLimitBytes (file # files) =
     (case file of
        None \<Rightarrow> readCgroupLimitBytes files
      | Some text \<Rightarrow>
          let raw = trim text in
          if raw = ''max'' \<or> raw = [] then readCgroupLimitBytes files
          else case jsNumber raw of
              None \<Rightarrow> readCgroupLimitBytes files
            | Some v \<Rightarrow> if v \<le> 0 then readCgroupLimitBytes files else Some v)"

definition clamp :: "rat \<Rightarrow> rat \<Rightarrow> rat \<Rightarrow> rat" where
  "clamp v mn mx = max mn (min mx v)"

definition budgetBytes :: "rat \<Rightarrow> string option list \<Rightarrow> rat" where
  "budgetBytes hostBytes cgroups = (case readCgroupLimitBytes cgroups of
     Some c \<Rightarrow> if c < hostBytes then c else hostBytes | None \<Rightarrow> hostBytes)"

definition leveldbCacheBytes :: "string option \<Rightarrow> rat \<Rightarrow> int" where
  "leveldbCacheBytes knob budget =
     intKnob knob \<lfloor>clamp (budget / CACHE_FRACTION) CACHE_MIN_BYTES CACHE_MAX_BYTES\<rfloor> 1"

definition heapFlushThresholdMB :: "string option \<Rightarrow> rat \<Rightarrow> int" where
  "heapFlushThresholdMB knob budget =
     intKnob knob \<lfloor>clamp (budget / HEAP_FLUSH_FRACTION / MIB) HEAP_FLUSH_MIN_MB HEAP_FLUSH_MAX_MB\<rfloor> 1"

definition bulkSyncRamBudgetMB :: "rat \<Rightarrow> int" where
  "bulkSyncRamBudgetMB budget =
     \<lfloor>clamp (budget / BULK_SYNC_FRACTION / MIB) BULK_SYNC_MIN_MB BULK_SYNC_MAX_MB\<rfloor>"

definition clampBulkSyncRamBudgetMB :: "int \<Rightarrow> rat \<Rightarrow> int" where
  "clampBulkSyncRamBudgetMB requestedMB budget = min requestedMB (bulkSyncRamBudgetMB budget)"

subsection \<open>Whole numbers are read exactly\<close>

lemma round_half_even_int [simp]: "round_half_even (of_int n) = n"
  by (simp add: round_half_even_def)

lemma binexp_nat: "0 < n \<Longrightarrow> binexp (of_nat n) = int (floorlog 2 n) - 1"
proof -
  assume n: "0 < n"
  have q: "quotient_of (of_nat n) = (int n, 1)"
    using quotient_of_int [of "int n"] by simp
  have "0 < floorlog 2 n" using n by (simp add: floorlog_def)
  then have e: "(2 :: rat) powi (int (floorlog 2 n) - 1) = of_nat (2 ^ (floorlog 2 n - 1))"
    by (simp add: power_int_def nat_diff_distrib)
  have "2 ^ (floorlog 2 n - 1) \<le> n" using floorlog_bounds [of n 2] n by simp
  then have "(2 :: rat) powi (int (floorlog 2 n) - 1) \<le> of_nat n" unfolding e by (simp only: of_nat_le_iff)
  moreover have "floorlog 2 (Suc 0) = 1" by (simp add: floorlog_def)
  ultimately show ?thesis by (simp add: binexp_def q)
qed

lemma to_double_nat: "n < 2 ^ 53 \<Longrightarrow> to_double (of_nat n) = Some (of_nat n)"
proof (cases "n = 0")
  case False
  assume n: "n < 2 ^ 53"
  let ?e = "binexp (of_nat n)"
  have e: "?e = int (floorlog 2 n) - 1" using False by (simp add: binexp_nat)
  have "floorlog 2 n \<le> 53" using n by (intro floorlog_leI) simp_all
  moreover have "0 < floorlog 2 n" using False by (simp add: floorlog_def)
  ultimately obtain k where k: "?e - 52 = - int k" "k \<le> 52"
    using e that [of "nat (52 - ?e)"] by auto
  let ?u = "(2 :: rat) powi (max (?e - 52) (- 1074))"
  have u: "?u = 1 / 2 ^ k" using k by (simp add: power_int_def inverse_eq_divide power_one_over max_def)
  have "of_nat n / ?u = of_int (int n * 2 ^ k)" unfolding u by simp
  then have v: "of_int (round_half_even (of_nat n / ?u)) * ?u = of_nat n"
    by (simp only: round_half_even_int) (simp add: u)
  have "(of_nat n :: rat) < of_nat (2 ^ 53)" using n by (simp only: of_nat_less_iff)
  also have "\<dots> < 2 powi 1024" by (simp add: power_int_def)
  finally have "\<not> (2 :: rat) powi 1024 \<le> of_nat n" by simp
  then show ?thesis using False unfolding to_double_def Let_def v by simp
qed (simp add: to_double_def)

lemma takeWhile_append_stop: "list_all P xs \<Longrightarrow> \<not> P y \<Longrightarrow> takeWhile P (xs @ y # ys) = xs \<and> dropWhile P (xs @ y # ys) = y # ys"
  by (induction xs) auto

lemma takeWhile_all: "list_all P xs \<Longrightarrow> takeWhile P xs = xs \<and> dropWhile P xs = []"
  by (induction xs) auto

lemma digit_not_space: "is_digit c \<Longrightarrow> \<not> is_space c"
  by (auto simp: is_digit_def is_space_def)

lemma digit_not: "is_digit c \<Longrightarrow> c \<noteq> CHR ''-'' \<and> c \<noteq> CHR ''+'' \<and> c \<notin> set ''xXoObB''"
  by (auto simp: is_digit_def)

definition plain_start :: "string \<Rightarrow> bool" where
  "plain_start s \<longleftrightarrow> s \<noteq> [] \<and> is_digit (hd s) \<and> take 2 s \<notin> {''0x'', ''0X'', ''0o'', ''0O'', ''0b'', ''0B''}"

lemma jsNumber_decimal: "plain_start s \<Longrightarrow> jsNumber s = unsignedDecimal s"
  using digit_not [of "hd s"] by (cases s) (auto simp: plain_start_def jsNumber_def)

lemma plain_start_append:
  assumes "list_all is_digit ds" and "ds \<noteq> []" and "r = [] \<or> hd r \<notin> set ''xXoObB''"
  shows "plain_start (ds @ r)"
proof -
  obtain d ds' where d: "ds = d # ds'" using assms(2) by (cases ds) auto
  show ?thesis
  proof (cases ds')
    case Nil
    then show ?thesis using d assms(1,3) by (cases r) (auto simp: plain_start_def)
  next
    case (Cons e es)
    then have "is_digit e" using d assms(1) by simp
    then show ?thesis using d Cons assms(1) digit_not [of e] by (auto simp: plain_start_def)
  qed
qed

lemma dropWhile_stops: "xs \<noteq> [] \<Longrightarrow> \<not> P (hd xs) \<Longrightarrow> dropWhile P xs = xs"
  by (cases xs) auto

lemma trim_none: "s \<noteq> [] \<Longrightarrow> \<not> is_space (hd s) \<Longrightarrow> \<not> is_space (last s) \<Longrightarrow> trim s = s"
  using dropWhile_stops [of s is_space] dropWhile_stops [of "rev s" is_space] by (simp add: trim_def hd_rev)

lemma readInt_dec: "n < 2 ^ 53 \<Longrightarrow> readInt (Some (dec n)) = \<lparr>ir_absent = False, ir_value = Some (int n)\<rparr>"
proof -
  assume n: "n < 2 ^ 53"
  have d: "list_all is_digit (dec n)" "dec n \<noteq> []" by (simp_all add: dec_digits)
  then have "is_digit (hd (dec n))" "is_digit (last (dec n))" by (auto simp: list_all_iff)
  then have t: "trim (dec n) = dec n" using d(2) by (simp add: trim_none digit_not_space)
  have "jsNumber (dec n) = Some (of_nat n)"
    using jsNumber_decimal [of "dec n"] plain_start_append [OF d, of "[]"] takeWhile_all [OF d(1)] d(2) to_double_nat [OF n]
    by (simp add: unsignedDecimal_def exponentPart_def Let_def)
  then show ?thesis using t d(2) by (simp add: readInt_def)
qed

text \<open>Digits followed by anything that cannot continue a number are not a number at all.\<close>

lemma readInt_garbage:
  assumes "list_all is_digit ds" and "ds \<noteq> []" and "\<not> is_digit c" and "\<not> is_space c" and "c \<notin> set ''.eExXoObB''"
  shows "ir_absent (readInt (Some (ds @ c # rest))) = False \<and> ir_value (readInt (Some (ds @ c # rest))) = None"
proof -
  obtain rest' where t: "trim (ds @ c # rest) = ds @ c # rest'"
  proof -
    let ?r = "dropWhile is_space (rev rest)"
    have "dropWhile is_space (ds @ c # rest) = ds @ c # rest"
      using assms(1,2) digit_not_space by (cases ds) auto
    moreover have "dropWhile is_space (rev (ds @ c # rest)) = ?r @ c # rev ds"
      using assms(4) by (simp add: dropWhile_append dropWhile_eq_Nil_conv)
    ultimately have "trim (ds @ c # rest) = ds @ c # rev ?r" by (simp add: trim_def)
    then show ?thesis by (rule that)
  qed
  have "jsNumber (ds @ c # rest') = unsignedDecimal (ds @ c # rest')"
    by (rule jsNumber_decimal, rule plain_start_append [OF assms(1,2)]) (use assms(5) in auto)
  moreover have "unsignedDecimal (ds @ c # rest') = None"
    using takeWhile_append_stop [OF assms(1,3), of rest'] assms(2,5) by (simp add: unsignedDecimal_def exponentPart_def Let_def)
  ultimately show ?thesis unfolding readInt_def option.case t by simp
qed

subsection \<open>What the window resolves to\<close>

lemma intKnob_dec: "n < 2 ^ 53 \<Longrightarrow> intKnob (Some (dec n)) fallback mn = (if int n < mn then fallback else int n)"
  by (simp add: intKnob_def readInt_dec)

lemma intKnob_min: "fallback \<ge> mn \<Longrightarrow> intKnob raw fallback mn \<ge> mn"
  by (simp add: intKnob_def Let_def split: option.split)

lemma intKnob_garbage:
  "list_all is_digit ds \<Longrightarrow> ds \<noteq> [] \<Longrightarrow> \<not> is_digit c \<Longrightarrow> \<not> is_space c \<Longrightarrow> c \<notin> set ''.eExXoObB''
    \<Longrightarrow> intKnob (Some (ds @ c # rest)) fallback mn = fallback"
  using readInt_garbage [of ds c rest] by (simp add: intKnob_def Let_def)

lemma DEFAULT_UNDO_BLOCKS_pos: "DEFAULT_UNDO_BLOCKS key = Some d \<Longrightarrow> 1 \<le> d"
  by (auto simp: DEFAULT_UNDO_BLOCKS_def split: if_splits)

definition undoKnob :: "tick \<Rightarrow> string" where
  "undoKnob coin = ''XCHAIN_UNDO_BLOCKS_'' @ tick_name coin"

text \<open>
  C37. What the reorg-recovery window of a registered chain resolves to: an explicit positive option,
  else the environment knob where its whole text is a positive number, else the chain's default. A
  knob that only begins with a number never shortens or widens the window. Whatever the knob holds
  the window is at least one block. A network that names no registered coin, or a chain without a
  declared window, is refused whatever the option and the environment say.
\<close>

theorem undo_window_resolution:
  assumes "coinFromNetwork network = Some coin"
    and "DEFAULT_UNDO_BLOCKS (undoBlocksKey (tick_name coin) (netFromNetwork network)) = Some d"
    and "0 < k" and "k < 2 ^ 53" and "list_all is_digit ds" and "ds \<noteq> []"
    and "\<not> is_digit c" and "\<not> is_space c" and "c \<notin> set ''.eExXoObB''"
  shows "resolveUndoBlocks env network (Some (int k)) = Inr (int k, int k > safeUndoBlocksCeiling network)
    \<and> resolveUndoBlocks (env(undoKnob coin \<mapsto> dec k)) network None = Inr (int k, int k > safeUndoBlocksCeiling network)
    \<and> resolveUndoBlocks (env(undoKnob coin := None)) network None = Inr (d, d > safeUndoBlocksCeiling network)
    \<and> resolveUndoBlocks (env(undoKnob coin \<mapsto> ds @ c # rest)) network None = Inr (d, d > safeUndoBlocksCeiling network)
    \<and> (\<exists>n w. resolveUndoBlocks env network opts = Inr (n, w) \<and> 1 \<le> n)
    \<and> (\<forall>undeclared. (case coinFromNetwork undeclared of None \<Rightarrow> True
          | Some other \<Rightarrow> DEFAULT_UNDO_BLOCKS (undoBlocksKey (tick_name other) (netFromNetwork undeclared)) = None)
        \<longrightarrow> (\<exists>msg. resolveUndoBlocks env undeclared opts = Inl (BadConfig msg)))"
proof -
  have u: "undoKnob coin = ''XCHAIN_UNDO_BLOCKS_'' @ tick_name coin" by (simp add: undoKnob_def)
  have d: "1 \<le> d" using assms(2) by (rule DEFAULT_UNDO_BLOCKS_pos)
  have r: "resolveUndoBlocks e network q =
     (let envVal = intKnob (e (undoKnob coin)) d 1;
          n = (case q of Some n \<Rightarrow> if n > 0 then n else if envVal > 0 then envVal else d
                 | None \<Rightarrow> if envVal > 0 then envVal else d) in Inr (n, n > safeUndoBlocksCeiling network))" for e q
    using assms(1,2) by (simp add: resolveUndoBlocks_def envInt_def u Let_def)
  have "1 \<le> intKnob (env (undoKnob coin)) d 1" using d by (rule intKnob_min)
  moreover have "intKnob None d 1 = d" by (simp add: intKnob_def readInt_def)
  moreover have "\<forall>undeclared. (case coinFromNetwork undeclared of None \<Rightarrow> True
          | Some other \<Rightarrow> DEFAULT_UNDO_BLOCKS (undoBlocksKey (tick_name other) (netFromNetwork undeclared)) = None)
        \<longrightarrow> (\<exists>msg. resolveUndoBlocks env undeclared opts = Inl (BadConfig msg))"
    by (auto simp: resolveUndoBlocks_def Let_def split: option.splits)
  ultimately show ?thesis
    unfolding r using assms(3,4) d intKnob_garbage [OF assms(5-9), of rest d 1]
    by (auto simp: intKnob_dec Let_def split: option.split)
qed

theorem undo_window_resolution_witness:
  "resolveUndoBlocks (\<lambda>_. Some ''12garbage'') ''litecoin-testnet'' None = Inr (5000, False)
   \<and> resolveUndoBlocks (\<lambda>_. Some ''200'') ''Bitcoin-Mainnet'' None = Inr (200, True)"
proof -
  have lc: "map lower ''litecoin-testnet'' = ''litecoin-testnet''" "map lower ''Bitcoin-Mainnet'' = ''bitcoin-mainnet''"
    by code_simp+
  have sp: "splitLastHyphen ''litecoin-testnet'' = Some (''litecoin'', ''testnet'')"
    "splitLastHyphen ''bitcoin-mainnet'' = Some (''bitcoin'', ''mainnet'')"
    by (simp_all add: splitLastHyphen_def)
  have n: "coinFromNetwork ''litecoin-testnet'' = Some LTC" "netFromNetwork ''litecoin-testnet'' = ''testnet''"
    "coinFromNetwork ''Bitcoin-Mainnet'' = Some BTC" "netFromNetwork ''Bitcoin-Mainnet'' = ''mainnet''"
    unfolding coinFromNetwork_def netFromNetwork_def lc sp Let_def by (simp_all add: FULL_NAME_TO_TICK_def)
  have k: "undoBlocksKey (tick_name LTC) ''testnet'' = ''LTC_TESTNET''" "undoBlocksKey (tick_name BTC) ''mainnet'' = ''BTC_MAINNET''"
    by code_simp+
  have d: "DEFAULT_UNDO_BLOCKS ''LTC_TESTNET'' = Some 5000" "DEFAULT_UNDO_BLOCKS ''BTC_MAINNET'' = Some 12"
    by (simp_all add: DEFAULT_UNDO_BLOCKS_def)
  have c: "safeUndoBlocksCeiling ''litecoin-testnet'' = 5006" "safeUndoBlocksCeiling ''Bitcoin-Mainnet'' = 126"
    by (simp_all add: safeUndoBlocksCeiling_def n k LTC_TESTNET_SAFE_UNDO_BLOCKS_def MAX_SAFE_UNDO_BLOCKS_def del: tick_name.simps)
  have g: "list_all is_digit ''12''" "\<not> is_digit (CHR ''g'')" "\<not> is_space (CHR ''g'')" by (simp_all add: is_digit_def is_space_def)
  have "resolveUndoBlocks ((\<lambda>_. Some ''12garbage'')(undoKnob LTC \<mapsto> ''12'' @ CHR ''g'' # ''arbage'')) ''litecoin-testnet'' None = Inr (5000, False)"
    using undo_window_resolution [OF n(1), of 5000 1 "''12''" "CHR ''g''" "\<lambda>_. Some ''12garbage''" "''arbage''" None] n(2) k(1) d(1) c(1) g
    by simp
  moreover have "dec 200 = ''200''" by code_simp
  then have "resolveUndoBlocks ((\<lambda>_. Some ''200'')(undoKnob BTC \<mapsto> ''200'')) ''Bitcoin-Mainnet'' None = Inr (200, True)"
    using undo_window_resolution [OF n(3), of 12 200 "''12''" "CHR ''g''" "\<lambda>_. Some ''200''" "''arbage''" None] n(4) k(2) d(2) c(2) g
    by simp
  ultimately show ?thesis by (simp add: fun_upd_idem)
qed

subsection \<open>Bounds of the derived sizes\<close>

lemma floor_clamp: "of_int a \<le> mn \<Longrightarrow> mx \<le> of_int b \<Longrightarrow> mn \<le> mx \<Longrightarrow> a \<le> \<lfloor>clamp v mn mx\<rfloor> \<and> \<lfloor>clamp v mn mx\<rfloor> \<le> b"
proof -
  assume a: "of_int a \<le> mn" and b: "mx \<le> of_int b" and m: "mn \<le> mx"
  have "mn \<le> clamp v mn mx" "clamp v mn mx \<le> mx" using m by (simp_all add: clamp_def)
  then have "of_int a \<le> clamp v mn mx" "clamp v mn mx < of_int b + 1" using a b by linarith+
  then show ?thesis by (simp add: le_floor_iff floor_le_iff)
qed

text \<open>Without a knob the derived sizes keep to their declared ranges, whatever the budget.\<close>

lemma derived_sizes_bounded:
  "134217728 \<le> leveldbCacheBytes None budget \<and> leveldbCacheBytes None budget \<le> 4294967296
   \<and> 256 \<le> heapFlushThresholdMB None budget \<and> heapFlushThresholdMB None budget \<le> 2048
   \<and> 512 \<le> bulkSyncRamBudgetMB budget \<and> clampBulkSyncRamBudgetMB r budget \<le> 4096"
  using floor_clamp [of 134217728 CACHE_MIN_BYTES CACHE_MAX_BYTES 4294967296 "budget / CACHE_FRACTION"]
    floor_clamp [of 256 HEAP_FLUSH_MIN_MB HEAP_FLUSH_MAX_MB 2048 "budget / HEAP_FLUSH_FRACTION / MIB"]
    floor_clamp [of 512 BULK_SYNC_MIN_MB BULK_SYNC_MAX_MB 4096 "budget / BULK_SYNC_FRACTION / MIB"]
  by (simp add: leveldbCacheBytes_def heapFlushThresholdMB_def bulkSyncRamBudgetMB_def clampBulkSyncRamBudgetMB_def
      intKnob_def readInt_def CACHE_MIN_BYTES_def CACHE_MAX_BYTES_def MIB_def HEAP_FLUSH_MIN_MB_def HEAP_FLUSH_MAX_MB_def
      BULK_SYNC_MIN_MB_def BULK_SYNC_MAX_MB_def min_le_iff_disj floor_le_iff)

text \<open>The budget never exceeds what binds: the host's memory, or a positive cgroup limit below it.\<close>

lemma readCgroupLimitBytes_pos: "readCgroupLimitBytes files = Some v \<Longrightarrow> 0 < v"
  by (induction files) (auto simp: Let_def split: option.splits if_splits)

lemma budget_within_limits:
  "budgetBytes host files \<le> host \<and> (\<forall>v. readCgroupLimitBytes files = Some v \<longrightarrow> budgetBytes host files \<le> v)"
  by (auto simp: budgetBytes_def split: option.split)

end
