(* ===== verification/ConcurrencyGate.thy ===== *)
theory ConcurrencyGate
  imports Config
begin

text \<open>
  The process-wide concurrency gate in front of the API, \<^verbatim>\<open>src/server/concurrency_gate.js\<close>, as a state
  machine. A request that the gate admits gets a slot; the slot is given back when the response
  ends, unless a held handler claimed it, in which case it is given back when the handler and all
  work tracked on the slot have settled. The steps are the synchronous pieces of the code between
  its awaits; they may come in any order. A request keeps its position in the list of slots for
  good, \<open>None\<close> standing for a request without a slot (passed through or shed).
\<close>

subsection \<open>The cap\<close>

definition resolveLimit :: "string option \<Rightarrow> int \<Rightarrow> int" where
  "resolveLimit rawValue defaultLimit =
     (let fallback = (if defaultLimit > 0 then defaultLimit else 0); read = readInt rawValue in
      if ir_absent read then fallback
      else case ir_value read of None \<Rightarrow> fallback | Some v \<Rightarrow> if v > 0 then v else 0)"

subsection \<open>State\<close>

text \<open>A held handler runs, then awaits the tracked promises it has taken from the slot, then is done.\<close>

datatype hold = Running | Draining nat | Settled

record slot =
  sl_released :: bool
  sl_claimed :: bool
  sl_work :: nat
  sl_holds :: "hold list"

record gate =
  gt_limit :: nat
  gt_inFlight :: nat
  gt_shed :: nat
  gt_slots :: "slot option list"

definition createConcurrencyGate :: "int \<Rightarrow> gate" where
  "createConcurrencyGate limit = \<lparr>gt_limit = nat limit, gt_inFlight = 0, gt_shed = 0, gt_slots = []\<rparr>"

definition fresh_slot :: slot where
  "fresh_slot = \<lparr>sl_released = False, sl_claimed = False, sl_work = 0, sl_holds = []\<rparr>"

subsection \<open>Operations\<close>

definition concurrencyGate :: "bool \<Rightarrow> gate \<Rightarrow> gate" where
  "concurrencyGate skip g =
     (if gt_limit g = 0 \<or> skip then g\<lparr>gt_slots := gt_slots g @ [None]\<rparr>
      else if gt_inFlight g \<ge> gt_limit g then g\<lparr>gt_shed := gt_shed g + 1, gt_slots := gt_slots g @ [None]\<rparr>
      else g\<lparr>gt_inFlight := gt_inFlight g + 1, gt_slots := gt_slots g @ [Some fresh_slot]\<rparr>)"

definition with_slot :: "nat \<Rightarrow> (slot \<Rightarrow> gate \<Rightarrow> gate) \<Rightarrow> gate \<Rightarrow> gate" where
  "with_slot i f g = (if i < length (gt_slots g) then (case gt_slots g ! i of None \<Rightarrow> g | Some s \<Rightarrow> f s g) else g)"

definition set_slot :: "nat \<Rightarrow> slot \<Rightarrow> gate \<Rightarrow> gate" where
  "set_slot i s g = g\<lparr>gt_slots := (gt_slots g)[i := Some s]\<rparr>"

definition release :: "nat \<Rightarrow> slot \<Rightarrow> gate \<Rightarrow> gate" where
  "release i s g =
     (if sl_released s then set_slot i s g
      else set_slot i (s\<lparr>sl_released := True\<rparr>) (g\<lparr>gt_inFlight := gt_inFlight g - 1\<rparr>))"

definition releaseIfUnclaimed :: "nat \<Rightarrow> gate \<Rightarrow> gate" where
  "releaseIfUnclaimed i = with_slot i (\<lambda>s. if sl_claimed s then id else release i s)"

definition heldHandler :: "nat \<Rightarrow> gate \<Rightarrow> gate" where
  "heldHandler i = with_slot i (\<lambda>s. set_slot i (s\<lparr>sl_claimed := True, sl_holds := sl_holds s @ [Running]\<rparr>))"

definition trackWork :: "nat \<Rightarrow> gate \<Rightarrow> gate" where
  "trackWork i = with_slot i (\<lambda>s. set_slot i (s\<lparr>sl_work := sl_work s + 1\<rparr>))"

text \<open>The head of the drain loop: take the tracked work and await it, or give the slot back.\<close>

definition drainLoop :: "nat \<Rightarrow> nat \<Rightarrow> slot \<Rightarrow> gate \<Rightarrow> gate" where
  "drainLoop i j s =
     (if sl_work s > 0 then set_slot i (s\<lparr>sl_work := 0, sl_holds := (sl_holds s)[j := Draining (sl_work s)]\<rparr>)
      else release i (s\<lparr>sl_holds := (sl_holds s)[j := Settled]\<rparr>))"

text \<open>
  What happens, by the request's position and, where a held handler is concerned, its position among
  the request's handlers.
\<close>

datatype event = Request bool | ResponseEnds nat | HoldBegins nat | WorkTracked nat
  | HandlerSettles nat nat | WorkSettles nat nat | DrainResumes nat nat

inductive gate_step :: "gate \<Rightarrow> event \<Rightarrow> gate \<Rightarrow> bool" where
  request: "gate_step g (Request skip) (concurrencyGate skip g)"
| response_ends: "gate_step g (ResponseEnds i) (releaseIfUnclaimed i g)"
| hold_begins: "gate_step g (HoldBegins i) (heldHandler i g)"
| work_tracked: "i < length (gt_slots g) \<Longrightarrow> gate_step g (WorkTracked i) (trackWork i g)"
| handler_settles: "i < length (gt_slots g) \<Longrightarrow> gt_slots g ! i = Some s \<Longrightarrow> j < length (sl_holds s) \<Longrightarrow> sl_holds s ! j = Running
    \<Longrightarrow> gate_step g (HandlerSettles i j) (drainLoop i j s g)"
| work_settles: "i < length (gt_slots g) \<Longrightarrow> gt_slots g ! i = Some s \<Longrightarrow> j < length (sl_holds s) \<Longrightarrow> sl_holds s ! j = Draining (Suc k)
    \<Longrightarrow> gate_step g (WorkSettles i j) (set_slot i (s\<lparr>sl_holds := (sl_holds s)[j := Draining k]\<rparr>) g)"
| drain_resumes: "i < length (gt_slots g) \<Longrightarrow> gt_slots g ! i = Some s \<Longrightarrow> j < length (sl_holds s) \<Longrightarrow> sl_holds s ! j = Draining 0
    \<Longrightarrow> gate_step g (DrainResumes i j) (drainLoop i j s g)"

inductive gate_run :: "gate \<Rightarrow> event list \<Rightarrow> gate \<Rightarrow> bool" where
  start: "gate_run g [] g"
| further: "gate_run g es g' \<Longrightarrow> gate_step g' e g'' \<Longrightarrow> gate_run g (es @ [e]) g''"

lemma gate_run_append: "gate_run g' es' g'' \<Longrightarrow> gate_run g es g' \<Longrightarrow> gate_run g (es @ es') g''"
proof (induction rule: gate_run.induct)
  case (further g es' g' e g'')
  then show ?case using gate_run.further [of _ "es @ es'" g' e g''] by simp
qed simp

text \<open>The promises tracked on request \<open>i\<close> and those of them that have settled, read off a run's events.\<close>

definition tracked :: "nat \<Rightarrow> event list \<Rightarrow> nat" where
  "tracked i es = length (filter (\<lambda>e. e = WorkTracked i) es)"

definition finished :: "nat \<Rightarrow> event list \<Rightarrow> nat" where
  "finished i es = length (filter (\<lambda>e. \<exists>j. e = WorkSettles i j) es)"

subsection \<open>Every slot is counted once and released once\<close>

definition counted :: "slot option \<Rightarrow> bool" where
  "counted x = (case x of None \<Rightarrow> False | Some s \<Rightarrow> \<not> sl_released s)"

definition slot_ok :: "slot \<Rightarrow> bool" where
  "slot_ok s \<longleftrightarrow> (sl_claimed s \<longleftrightarrow> sl_holds s \<noteq> []) \<and> (Settled \<in> set (sl_holds s) \<longrightarrow> sl_released s)"

definition gate_inv :: "gate \<Rightarrow> bool" where
  "gate_inv g \<longleftrightarrow> gt_inFlight g = length (filter counted (gt_slots g)) \<and> gt_inFlight g \<le> gt_limit g
     \<and> (\<forall>s. Some s \<in> set (gt_slots g) \<longrightarrow> slot_ok s)"

lemma length_filter_update:
  "i < length xs \<Longrightarrow> length (filter P (xs[i := y])) + (if P (xs ! i) then 1 else 0) = length (filter P xs) + (if P y then 1 else 0)"
proof (induction xs arbitrary: i)
  case (Cons x xs)
  then show ?case by (cases i) auto
qed simp

text \<open>A step on one slot that leaves it counted as it was.\<close>

lemma set_slot_inv:
  assumes "gate_inv g" and "i < length (gt_slots g)" and "gt_slots g ! i = Some s"
    and "sl_released s' = sl_released s" and "slot_ok s'"
  shows "gate_inv (set_slot i s' g)"
  using assms length_filter_update [OF assms(2), of counted "Some s'"] set_update_subset_insert [of "gt_slots g" i "Some s'"]
  by (auto simp: gate_inv_def set_slot_def counted_def split: if_splits)

lemma release_inv:
  assumes "gate_inv g" and "i < length (gt_slots g)" and "gt_slots g ! i = Some s"
    and "sl_released s' = sl_released s" and "slot_ok (s'\<lparr>sl_released := True\<rparr>)"
  shows "gate_inv (release i s' g)"
proof (cases "sl_released s")
  case True
  then show ?thesis using set_slot_inv [OF assms(1-4)] assms(4,5) by (simp add: release_def slot_ok_def)
next
  case False
  then show ?thesis
    using assms length_filter_update [OF assms(2), of counted "Some (s'\<lparr>sl_released := True\<rparr>)"]
      set_update_subset_insert [of "gt_slots g" i "Some (s'\<lparr>sl_released := True\<rparr>)"]
    by (auto simp: gate_inv_def release_def set_slot_def counted_def)
qed

lemma slot_ok_of: "gate_inv g \<Longrightarrow> i < length (gt_slots g) \<Longrightarrow> gt_slots g ! i = Some s \<Longrightarrow> slot_ok s"
  by (metis gate_inv_def nth_mem)

lemma drainLoop_inv:
  assumes "gate_inv g" and "i < length (gt_slots g)" and "gt_slots g ! i = Some s" and "j < length (sl_holds s)"
  shows "gate_inv (drainLoop i j s g)"
proof -
  have ok: "slot_ok s" using slot_ok_of [OF assms(1-3)] .
  have "Settled \<in> set ((sl_holds s)[j := Draining n]) \<Longrightarrow> Settled \<in> set (sl_holds s)" for n
    using set_update_subset_insert [of "sl_holds s" j "Draining n"] by auto
  then have d: "slot_ok (s\<lparr>sl_work := 0, sl_holds := (sl_holds s)[j := Draining n]\<rparr>)" for n
    using ok assms(4) by (auto simp: slot_ok_def)
  have r: "slot_ok (s\<lparr>sl_holds := (sl_holds s)[j := Settled], sl_released := True\<rparr>)"
    using ok assms(4) by (auto simp: slot_ok_def)
  show ?thesis
    unfolding drainLoop_def
    using set_slot_inv [OF assms(1-3) _ d] release_inv [OF assms(1-3), of "s\<lparr>sl_holds := (sl_holds s)[j := Settled]\<rparr>"] r
    by simp
qed

lemma gate_step_inv: "gate_step g e g' \<Longrightarrow> gate_inv g \<Longrightarrow> gate_inv g'"
proof (induction rule: gate_step.induct)
  case (request g skip)
  then show ?case by (auto simp: concurrencyGate_def gate_inv_def counted_def fresh_slot_def slot_ok_def)
next
  case (response_ends g i)
  then show ?case
    using release_inv [OF response_ends, of i] slot_ok_of [OF response_ends, of i]
    by (auto simp: releaseIfUnclaimed_def with_slot_def slot_ok_def split: option.split)
next
  case (hold_begins g i)
  then show ?case
    using slot_ok_of [OF hold_begins, of i]
    by (auto simp: heldHandler_def with_slot_def slot_ok_def intro!: set_slot_inv split: option.split)
next
  case (work_tracked i g)
  then show ?case
    using slot_ok_of [OF work_tracked.prems work_tracked.hyps]
    by (auto simp: trackWork_def with_slot_def slot_ok_def intro!: set_slot_inv split: option.split)
next
  case (work_settles i g s j k)
  have "Settled \<in> set ((sl_holds s)[j := Draining k]) \<Longrightarrow> Settled \<in> set (sl_holds s)"
    using set_update_subset_insert [of "sl_holds s" j "Draining k"] by auto
  then show ?case
    using slot_ok_of [OF work_settles.prems work_settles.hyps(1,2)] work_settles
    by (intro set_slot_inv [of g i s]) (auto simp: slot_ok_def)
qed (auto intro: drainLoop_inv)

lemma gate_run_inv: "gate_run g es g' \<Longrightarrow> gate_inv g \<Longrightarrow> gate_inv g'"
  by (induction rule: gate_run.induct) (auto intro: gate_step_inv)

subsection \<open>A claimed slot outlives its work\<close>

text \<open>
  \<open>busy s\<close>: a handler of the slot is still at work, that is, no held handler has settled with all
  the work it took from the slot. Such a slot, once claimed while it was held, is not given back.
\<close>

definition busy :: "slot \<Rightarrow> bool" where
  "busy s \<longleftrightarrow> sl_claimed s \<and> Settled \<notin> set (sl_holds s)"

definition kept :: "nat \<Rightarrow> gate \<Rightarrow> bool" where
  "kept i g \<longleftrightarrow> i < length (gt_slots g) \<and> (\<exists>s. gt_slots g ! i = Some s \<and> sl_claimed s \<and> (busy s \<longrightarrow> \<not> sl_released s))"

lemma kept_set_slot:
  assumes "kept i g" and "k < length (gt_slots g)" and "gt_slots g ! k = Some s"
    and "sl_claimed s \<Longrightarrow> sl_claimed s'" and "sl_claimed s \<Longrightarrow> busy s' \<Longrightarrow> busy s \<and> sl_released s' = sl_released s"
  shows "kept i (set_slot k s' (g\<lparr>gt_inFlight := n\<rparr>)) \<and> kept i (set_slot k s' g)"
  using assms by (auto simp: kept_def set_slot_def nth_list_update)

lemma kept_release:
  assumes "kept i g" and "k < length (gt_slots g)" and "gt_slots g ! k = Some s"
    and "sl_claimed s \<Longrightarrow> sl_claimed s' \<and> \<not> busy s'"
  shows "kept i (release k s' g)"
  using kept_set_slot [OF assms(1-3), of s'] kept_set_slot [OF assms(1-3), of "s'\<lparr>sl_released := True\<rparr>"] assms(4)
  by (auto simp: release_def busy_def)

lemma kept_drain:
  assumes "kept i g" and "k < length (gt_slots g)" and "gt_slots g ! k = Some s" and "j < length (sl_holds s)"
    and "sl_holds s ! j \<noteq> Settled"
  shows "kept i (drainLoop k j s g)"
proof -
  have u: "Settled \<in> set (sl_holds s) \<Longrightarrow> Settled \<in> set ((sl_holds s)[j := Draining n])" for n
    using assms(4,5) by (metis in_set_conv_nth length_list_update nth_list_update_neq)
  have "Settled \<in> set ((sl_holds s)[j := Settled])" using assms(4) by (simp add: set_update_memI)
  then have r: "kept i (release k (s\<lparr>sl_holds := (sl_holds s)[j := Settled]\<rparr>) g)"
    by (intro kept_release [OF assms(1-3)]) (simp add: busy_def)
  have "kept i (set_slot k (s\<lparr>sl_work := 0, sl_holds := (sl_holds s)[j := Draining n]\<rparr>) g)" for n
    using u kept_set_slot [OF assms(1-3), of "s\<lparr>sl_work := 0, sl_holds := (sl_holds s)[j := Draining n]\<rparr>"]
    by (auto simp: busy_def)
  then show ?thesis using r by (simp add: drainLoop_def)
qed

lemma gate_step_kept: "gate_step g e g' \<Longrightarrow> kept i g \<Longrightarrow> kept i g'"
proof (induction rule: gate_step.induct)
  case (request g skip)
  then show ?case by (auto simp: concurrencyGate_def kept_def nth_append)
next
  case (response_ends g k)
  then show ?case
    by (auto simp: releaseIfUnclaimed_def with_slot_def intro!: kept_release split: option.split)
next
  case (hold_begins g k)
  then show ?case
    by (auto simp: heldHandler_def with_slot_def busy_def intro!: kept_set_slot [THEN conjunct2] split: option.split)
next
  case (work_tracked k g)
  then show ?case
    by (auto simp: trackWork_def with_slot_def busy_def intro!: kept_set_slot [THEN conjunct2] split: option.split)
next
  case (work_settles k g s j n)
  have "Settled \<in> set (sl_holds s) \<Longrightarrow> Settled \<in> set ((sl_holds s)[j := Draining n])"
    using work_settles.hyps(3,4) by (metis hold.distinct(5) in_set_conv_nth length_list_update nth_list_update_neq)
  then show ?case
    using kept_set_slot [OF work_settles.prems work_settles.hyps(1,2), of "s\<lparr>sl_holds := (sl_holds s)[j := Draining n]\<rparr>"]
    by (auto simp: busy_def)
qed (auto intro: kept_drain)

lemma gate_run_kept: "gate_run g es g' \<Longrightarrow> kept i g \<Longrightarrow> kept i g'"
  by (induction rule: gate_run.induct) (auto intro: gate_step_kept)

subsection \<open>No tracked work is lost\<close>

text \<open>The work of a slot that has not settled: waiting to be taken, or taken by a handler's drain.\<close>

fun taken :: "hold \<Rightarrow> nat" where
  "taken (Draining k) = k"
| "taken Running = 0"
| "taken Settled = 0"

definition unsettled :: "slot \<Rightarrow> nat" where
  "unsettled s = sl_work s + sum_list (map taken (sl_holds s))"

lemma taken_update:
  "j < length hs \<Longrightarrow> sum_list (map taken (hs[j := h])) + taken (hs ! j) = sum_list (map taken hs) + taken h"
proof (induction hs arbitrary: j)
  case (Cons x hs)
  then show ?case by (cases j) auto
qed simp

definition accounted :: "event list \<Rightarrow> gate \<Rightarrow> bool" where
  "accounted es g \<longleftrightarrow> (\<forall>i. (i \<ge> length (gt_slots g) \<longrightarrow> tracked i es = 0 \<and> finished i es = 0)
     \<and> (\<forall>s. i < length (gt_slots g) \<longrightarrow> gt_slots g ! i = Some s \<longrightarrow> tracked i es = finished i es + unsettled s))"

lemma count_snoc:
  "tracked i (es @ [e]) = tracked i es + (if e = WorkTracked i then 1 else 0)"
  "finished i (es @ [e]) = finished i es + (if \<exists>j. e = WorkSettles i j then 1 else 0)"
  by (auto simp: tracked_def finished_def)

lemma slots_of_release: "gt_slots (release i s g) = (gt_slots g)[i := Some (s\<lparr>sl_released := True\<rparr>)]"
  by (cases s) (simp add: release_def set_slot_def)

lemma accounted_update:
  assumes "accounted es g" and "i < length (gt_slots g)" and "gt_slots g' = (gt_slots g)[i := Some s']"
    and "tracked i (es @ [e]) = finished i (es @ [e]) + unsettled s'"
    and "\<And>k. k \<noteq> i \<Longrightarrow> tracked k (es @ [e]) = tracked k es \<and> finished k (es @ [e]) = finished k es"
  shows "accounted (es @ [e]) g'"
  unfolding accounted_def
proof (intro allI conjI impI)
  fix k
  assume "length (gt_slots g') \<le> k"
  then show "tracked k (es @ [e]) = 0" "finished k (es @ [e]) = 0" using assms by (auto simp: accounted_def)
next
  fix k s
  assume "k < length (gt_slots g')" "gt_slots g' ! k = Some s"
  then show "tracked k (es @ [e]) = finished k (es @ [e]) + unsettled s"
    using assms by (cases "k = i") (auto simp: accounted_def)
qed

lemma accounted_drain:
  assumes "accounted es g" and "i < length (gt_slots g)" and "gt_slots g ! i = Some s" and "j < length (sl_holds s)"
    and "taken (sl_holds s ! j) = 0"
    and "\<And>k. tracked k (es @ [e]) = tracked k es \<and> finished k (es @ [e]) = finished k es"
  shows "accounted (es @ [e]) (drainLoop i j s g)"
proof (cases "sl_work s > 0")
  case True
  show ?thesis
    by (rule accounted_update [OF assms(1,2), where s' = "s\<lparr>sl_work := 0, sl_holds := (sl_holds s)[j := Draining (sl_work s)]\<rparr>"])
      (use True assms taken_update [OF assms(4), of "Draining (sl_work s)"] in
        \<open>auto simp: drainLoop_def set_slot_def unsettled_def accounted_def\<close>)
next
  case False
  show ?thesis
    by (rule accounted_update [OF assms(1,2), where s' = "s\<lparr>sl_holds := (sl_holds s)[j := Settled], sl_released := True\<rparr>"])
      (use False assms taken_update [OF assms(4), of Settled] in
        \<open>auto simp: drainLoop_def slots_of_release unsettled_def accounted_def\<close>)
qed

lemma accounted_same:
  assumes "accounted es g" and "length (gt_slots g') = length (gt_slots g)"
    and "\<And>k s'. k < length (gt_slots g) \<Longrightarrow> gt_slots g' ! k = Some s' \<Longrightarrow> \<exists>s. gt_slots g ! k = Some s \<and> unsettled s' = unsettled s"
    and "\<And>k. tracked k (es @ [e]) = tracked k es \<and> finished k (es @ [e]) = finished k es"
  shows "accounted (es @ [e]) g'"
  using assms unfolding accounted_def by metis

lemma gate_step_accounted: "gate_step g e g' \<Longrightarrow> accounted es g \<Longrightarrow> accounted (es @ [e]) g'"
proof (induction rule: gate_step.induct)
  case (request g skip)
  then show ?case
    by (auto simp: concurrencyGate_def accounted_def count_snoc nth_append less_Suc_eq fresh_slot_def unsettled_def)
next
  case (response_ends g i)
  then show ?case
    by (intro accounted_same [OF response_ends])
      (auto simp: releaseIfUnclaimed_def with_slot_def slots_of_release count_snoc nth_list_update unsettled_def
        split: option.splits if_splits)
next
  case (hold_begins g i)
  then show ?case
    by (intro accounted_same [OF hold_begins])
      (auto simp: heldHandler_def with_slot_def set_slot_def count_snoc nth_list_update unsettled_def split: option.splits if_splits)
next
  case (work_tracked i g)
  show ?case
  proof (cases "gt_slots g ! i")
    case None
    then show ?thesis using work_tracked by (auto simp: trackWork_def with_slot_def accounted_def count_snoc)
  next
    case (Some s)
    show ?thesis
      by (rule accounted_update [OF work_tracked.prems work_tracked.hyps, where s' = "s\<lparr>sl_work := sl_work s + 1\<rparr>"])
        (use Some work_tracked in \<open>auto simp: trackWork_def with_slot_def set_slot_def count_snoc accounted_def unsettled_def\<close>)
  qed
next
  case (work_settles i g s j k)
  show ?case
    by (rule accounted_update [OF work_settles.prems work_settles.hyps(1), where s' = "s\<lparr>sl_holds := (sl_holds s)[j := Draining k]\<rparr>"])
      (use work_settles taken_update [OF work_settles.hyps(3), of "Draining k"] in
        \<open>auto simp: set_slot_def count_snoc accounted_def unsettled_def\<close>)
qed (auto intro!: accounted_drain simp: count_snoc)

lemma gate_run_accounted: "gate_run g es g' \<Longrightarrow> accounted [] g \<Longrightarrow> accounted es g'"
  by (induction rule: gate_run.induct) (auto intro: gate_step_accounted)

text \<open>A claimed slot is given back only by a drain loop that found nothing left to take.\<close>

lemma released_by_drain:
  assumes "gate_step g e g'" and "i < length (gt_slots g)" and "gt_slots g ! i = Some s" and "sl_claimed s" and "\<not> sl_released s"
    and "gt_slots g' ! i = Some s'" and "sl_released s'"
  shows "\<exists>j < length (sl_holds s). sl_work s = 0
    \<and> (e = HandlerSettles i j \<and> sl_holds s ! j = Running \<or> e = DrainResumes i j \<and> sl_holds s ! j = Draining 0)"
  using assms(1)
proof (cases rule: gate_step.cases)
  case (request skip)
  then show ?thesis using assms by (auto simp: concurrencyGate_def nth_append split: if_splits)
next
  case (response_ends k)
  then show ?thesis using assms
    by (auto simp: releaseIfUnclaimed_def with_slot_def slots_of_release nth_list_update split: option.splits if_splits)
next
  case (hold_begins k)
  then show ?thesis using assms
    by (auto simp: heldHandler_def with_slot_def set_slot_def nth_list_update split: option.splits if_splits)
next
  case (work_tracked k)
  then show ?thesis using assms
    by (auto simp: trackWork_def with_slot_def set_slot_def nth_list_update split: option.splits if_splits)
next
  case (handler_settles k t j)
  then show ?thesis using assms
    by (auto simp: drainLoop_def set_slot_def slots_of_release nth_list_update split: if_splits)
next
  case (work_settles k t j n)
  then show ?thesis using assms by (auto simp: set_slot_def nth_list_update split: if_splits)
next
  case (drain_resumes k t j)
  then show ?thesis using assms
    by (auto simp: drainLoop_def set_slot_def slots_of_release nth_list_update split: if_splits)
qed

lemma gate_run_limit: "gate_run g es g' \<Longrightarrow> gt_limit g' = gt_limit g"
proof (induction rule: gate_run.induct)
  case (further g es g' e g'')
  then show ?case
    by (auto elim!: gate_step.cases simp: concurrencyGate_def releaseIfUnclaimed_def heldHandler_def trackWork_def
        drainLoop_def with_slot_def release_def set_slot_def split: option.splits)
qed simp

text \<open>
  C36. The gate counts work, not sockets. In every state it can reach from its creation, in whatever
  order requests, responses, handlers and tracked work interleave, the number in flight is the
  number of slots not yet given back and never above the cap; every slot of a handler that settled
  has been given back; and a slot that a handler claimed before it was given back stays counted, in
  every later state, for as long as no held handler on it has settled together with the work it
  took, whatever happens to the response meanwhile. The step that does give a claimed slot back is
  one of its handlers' drain loops, which found no tracked work left to take; and where the slot has
  one held handler, that handler has returned and every promise ever tracked on the slot has
  settled, by the count of the run's own events.
\<close>

theorem gate_counts_work:
  assumes "gate_run (createConcurrencyGate limit) es g" and "gate_run g es' g'"
  shows "gt_inFlight g' = length (filter counted (gt_slots g')) \<and> int (gt_inFlight g') \<le> max 0 limit
    \<and> (\<forall>s. Some s \<in> set (gt_slots g') \<and> Settled \<in> set (sl_holds s) \<longrightarrow> sl_released s)
    \<and> (\<forall>i s s'. i < length (gt_slots g) \<and> gt_slots g ! i = Some s \<and> sl_claimed s \<and> \<not> sl_released s
         \<and> gt_slots g' ! i = Some s' \<and> Settled \<notin> set (sl_holds s') \<longrightarrow> \<not> sl_released s')
    \<and> (\<forall>e g'' i s s'. gate_step g' e g'' \<and> i < length (gt_slots g') \<and> gt_slots g' ! i = Some s \<and> sl_claimed s
         \<and> \<not> sl_released s \<and> gt_slots g'' ! i = Some s' \<and> sl_released s'
         \<longrightarrow> sl_work s = 0 \<and> (\<exists>j < length (sl_holds s). e = HandlerSettles i j \<or> e = DrainResumes i j)
           \<and> (length (sl_holds s) = 1 \<longrightarrow> finished i (es @ es') = tracked i (es @ es')))"
proof -
  have i0: "gate_inv (createConcurrencyGate limit)" by (simp add: createConcurrencyGate_def gate_inv_def)
  have all: "gate_run (createConcurrencyGate limit) (es @ es') g'" using assms(2,1) by (rule gate_run_append)
  have inv: "gate_inv g'" by (rule gate_run_inv [OF all i0])
  have acc: "accounted (es @ es') g'"
    by (rule gate_run_accounted [OF all]) (simp add: accounted_def tracked_def finished_def createConcurrencyGate_def)
  have lim: "gt_limit g' = nat limit" using gate_run_limit [OF all] by (simp add: createConcurrencyGate_def)
  have kept: "\<not> sl_released s'" if "i < length (gt_slots g)" "gt_slots g ! i = Some s" "sl_claimed s" "\<not> sl_released s"
    "gt_slots g' ! i = Some s'" "Settled \<notin> set (sl_holds s')" for i s s'
  proof -
    have "kept i g" using that by (simp add: kept_def)
    then have "kept i g'" by (rule gate_run_kept [OF assms(2)])
    then show ?thesis using that by (auto simp: kept_def busy_def)
  qed
  have drained: "sl_work s = 0 \<and> (\<exists>j < length (sl_holds s). e = HandlerSettles i j \<or> e = DrainResumes i j)
      \<and> (length (sl_holds s) = 1 \<longrightarrow> finished i (es @ es') = tracked i (es @ es'))"
    if h: "gate_step g' e g''" "i < length (gt_slots g')" "gt_slots g' ! i = Some s" "sl_claimed s" "\<not> sl_released s"
      "gt_slots g'' ! i = Some s'" "sl_released s'" for e g'' i s s'
  proof -
    obtain j where j: "j < length (sl_holds s)" "sl_work s = 0" "taken (sl_holds s ! j) = 0" "e = HandlerSettles i j \<or> e = DrainResumes i j"
      using released_by_drain [OF h] by force
    have "finished i (es @ es') = tracked i (es @ es')" if one: "length (sl_holds s) = 1"
    proof -
      have "sum_list (map taken (sl_holds s)) = 0" using one j(1,3) by (cases "sl_holds s") auto
      then show ?thesis using acc j(2) \<open>i < length (gt_slots g')\<close> \<open>gt_slots g' ! i = Some s\<close>
        by (auto simp: accounted_def unsettled_def)
    qed
    then show ?thesis using j by blast
  qed
  show ?thesis using inv lim kept drained by (auto simp: gate_inv_def slot_ok_def)
qed

text \<open>
  A client that hangs up while its held handler still has tracked work, and a second request; then
  the handler returns and its tracked work settles.
\<close>

definition gate_claimed :: gate where
  "gate_claimed = heldHandler 0 (concurrencyGate False (createConcurrencyGate 1))"

definition gate_hung_up :: gate where
  "gate_hung_up = concurrencyGate False (releaseIfUnclaimed 0 (trackWork 0 gate_claimed))"

definition ex_gate :: "hold \<Rightarrow> nat \<Rightarrow> gate" where
  "ex_gate h work = \<lparr>gt_limit = 1, gt_inFlight = 1, gt_shed = 1,
     gt_slots = [Some \<lparr>sl_released = False, sl_claimed = True, sl_work = work, sl_holds = [h]\<rparr>, None]\<rparr>"

lemma gate_claimed_simp:
  "gate_claimed = \<lparr>gt_limit = 1, gt_inFlight = 1, gt_shed = 0,
     gt_slots = [Some \<lparr>sl_released = False, sl_claimed = True, sl_work = 0, sl_holds = [Running]\<rparr>]\<rparr>"
  by (simp add: gate_claimed_def createConcurrencyGate_def concurrencyGate_def heldHandler_def with_slot_def set_slot_def fresh_slot_def)

lemma gate_hung_up_simp: "gate_hung_up = ex_gate Running 1"
  by (simp add: gate_hung_up_def gate_claimed_simp concurrencyGate_def trackWork_def releaseIfUnclaimed_def with_slot_def
      set_slot_def ex_gate_def)

lemma ex_gate_claimed: "gate_run (createConcurrencyGate 1) ([] @ [Request False] @ [HoldBegins 0]) gate_claimed"
  unfolding gate_claimed_def append_assoc [symmetric]
  by (rule gate_run.further, rule gate_run.further, rule gate_run.start, rule gate_step.request, rule gate_step.hold_begins)

lemma ex_gate_hung_up: "gate_run gate_claimed ([] @ [WorkTracked 0] @ [ResponseEnds 0] @ [Request False]) gate_hung_up"
proof -
  have "gate_step gate_claimed (WorkTracked 0) (trackWork 0 gate_claimed)"
    by (rule gate_step.work_tracked) (simp add: gate_claimed_simp)
  then show ?thesis
    unfolding gate_hung_up_def append_assoc [symmetric]
    by (intro gate_run.further [OF _ gate_step.request] gate_run.further [OF _ gate_step.response_ends]
        gate_run.further [OF gate_run.start])
qed

lemma ex_gate_steps:
  "gate_step (ex_gate Running 1) (HandlerSettles 0 0) (ex_gate (Draining 1) 0)"
  "gate_step (ex_gate (Draining 1) 0) (WorkSettles 0 0) (ex_gate (Draining 0) 0)"
  "gate_step (ex_gate (Draining 0) 0) (DrainResumes 0 0)
     (drainLoop 0 0 \<lparr>sl_released = False, sl_claimed = True, sl_work = 0, sl_holds = [Draining 0]\<rparr> (ex_gate (Draining 0) 0))"
  using gate_step.handler_settles [of 0 "ex_gate Running 1" "\<lparr>sl_released = False, sl_claimed = True, sl_work = 1, sl_holds = [Running]\<rparr>" 0]
    gate_step.work_settles [of 0 "ex_gate (Draining 1) 0" "\<lparr>sl_released = False, sl_claimed = True, sl_work = 0, sl_holds = [Draining 1]\<rparr>" 0 0]
    gate_step.drain_resumes [of 0 "ex_gate (Draining 0) 0" "\<lparr>sl_released = False, sl_claimed = True, sl_work = 0, sl_holds = [Draining 0]\<rparr>" 0]
  by (simp_all add: ex_gate_def drainLoop_def set_slot_def)

theorem gate_counts_work_witness:
  "gt_inFlight (ex_gate (Draining 0) 0) = 1
   \<and> finished 0 [Request False, HoldBegins 0, WorkTracked 0, ResponseEnds 0, Request False, HandlerSettles 0 0, WorkSettles 0 0]
     = tracked 0 [Request False, HoldBegins 0, WorkTracked 0, ResponseEnds 0, Request False, HandlerSettles 0 0, WorkSettles 0 0]"
proof -
  have run: "gate_run gate_claimed ((([] @ [WorkTracked 0] @ [ResponseEnds 0] @ [Request False]) @ [HandlerSettles 0 0]) @ [WorkSettles 0 0])
      (ex_gate (Draining 0) 0)"
    by (rule gate_run.further [OF gate_run.further [OF ex_gate_hung_up [unfolded gate_hung_up_simp] ex_gate_steps(1)] ex_gate_steps(2)])
  show ?thesis
    using gate_counts_work [OF ex_gate_claimed run] ex_gate_steps(3)
    by (fastforce simp: ex_gate_def drainLoop_def slots_of_release counted_def)
qed

end
