(* ===== verification/Xdmp.thy ===== *)
theory Xdmp
  imports Hexadecimal Config
begin

text \<open>
  The block dump of bulk sync: the \<^verbatim>\<open>.xdmp\<close> writer and reader (\<^verbatim>\<open>src/bulk_sync/xdmp_writer.js\<close>,
  \<^verbatim>\<open>xdmp_reader.js\<close>) and the chunked dump loop of \<^verbatim>\<open>dump.js\<close>. A file is the list of its bytes; the
  node connector is a parameter, a reply of it or the error it throws. Handles, renames, the progress
  lines and the argument parser are left out.
\<close>

subsection \<open>The format\<close>

definition CHAIN_CODES :: "string \<Rightarrow> nat option" where
  "CHAIN_CODES c = map_of [(''bitcoin'', 1), (''litecoin'', 2), (''dogecoin'', 3)] c"

definition NETWORK_CODES :: "string \<Rightarrow> nat option" where
  "NETWORK_CODES c = map_of [(''mainnet'', 1), (''testnet'', 2), (''regtest'', 3)] c"

definition CHAIN_NAMES :: "nat \<Rightarrow> string option" where
  "CHAIN_NAMES c = map_of [(1, ''bitcoin''), (2, ''litecoin''), (3, ''dogecoin'')] c"

definition NETWORK_NAMES :: "nat \<Rightarrow> string option" where
  "NETWORK_NAMES c = map_of [(1, ''mainnet''), (2, ''testnet''), (3, ''regtest'')] c"

definition MAGIC_DUMP :: bytes where
  "MAGIC_DUMP = [0x58, 0x43, 0x48, 0x4E, 0x44, 0x4D, 0x50, 0x31]"

definition HEADER_SIZE :: nat where "HEADER_SIZE = 64"
definition RECORD_PREFIX :: nat where "RECORD_PREFIX = 40"
definition MAX_BLOCK_SIZE :: nat where "MAX_BLOCK_SIZE = 32 * 1024 * 1024"

definition writeUInt32LE :: "int \<Rightarrow> error + bytes" where
  "writeUInt32LE x = (if 0 \<le> x \<and> x \<le> 4294967295 then Inr (le 4 (nat x)) else Inl OutOfRange)"

subsection \<open>Writing\<close>

definition makeHeader :: "string \<Rightarrow> string \<Rightarrow> int \<Rightarrow> int \<Rightarrow> int \<Rightarrow> error + bytes" where
  "makeHeader chain netName firstHeight lastHeight chainTipAtDump =
     (case (CHAIN_CODES chain, NETWORK_CODES netName) of
        (Some c, Some n) \<Rightarrow>
          rbind (writeUInt32LE firstHeight) (\<lambda>f.
          rbind (writeUInt32LE lastHeight) (\<lambda>l.
          rbind (writeUInt32LE (lastHeight - firstHeight + 1)) (\<lambda>k.
          rbind (writeUInt32LE chainTipAtDump) (\<lambda>t.
          Inr (MAGIC_DUMP @ [of_nat c, of_nat n] @ le 2 1 @ f @ l @ k @ t @ replicate 36 0)))))
      | _ \<Rightarrow> Inl TypeError)"

text \<open>A block of a reply: its height, and hash and serialisation as hexadecimal text.\<close>

record fetched_block =
  fb_height :: int
  fb_hash :: string
  fb_hex :: string

definition blockRecord :: "fetched_block \<Rightarrow> error + bytes" where
  "blockRecord b =
     (let blockBytes = h2b (fb_hex b); hashBytes = h2b (fb_hash b) in
      if length blockBytes = 0 \<or> length blockBytes > MAX_BLOCK_SIZE then Inl (BadConfig ''block has invalid size'')
      else if length hashBytes \<noteq> 32 then Inl (BadConfig ''block has invalid hash length'')
      else rbind (writeUInt32LE (int (length blockBytes))) (\<lambda>s.
           rbind (writeUInt32LE (fb_height b)) (\<lambda>h. Inr (s @ h @ hashBytes @ blockBytes))))"

fun writeBlockRecords :: "fetched_block list \<Rightarrow> bytes \<Rightarrow> error + bytes" where
  "writeBlockRecords [] file = Inr file"
| "writeBlockRecords (b # bs) file = rbind (blockRecord b) (\<lambda>r. writeBlockRecords bs (file @ r))"

subsection \<open>Reading\<close>

record xdmp_reader =
  xr_file :: bytes
  xr_pos :: nat
  xr_chain :: string
  xr_network :: string
  xr_firstHeight :: nat
  xr_lastHeight :: nat
  xr_blockCount :: nat
  xr_chainTipAtDump :: nat

definition XdmpReader :: "bytes \<Rightarrow> error + xdmp_reader" where
  "XdmpReader file =
     (let hdr = take HEADER_SIZE file in
      if length hdr \<noteq> HEADER_SIZE then Inl (WireError ''short header read'')
      else if slice 0 8 hdr \<noteq> MAGIC_DUMP then Inl (WireError ''bad magic'')
      else (case (CHAIN_NAMES (unat (hdr ! 8)), NETWORK_NAMES (unat (hdr ! 9))) of
          (None, _) \<Rightarrow> Inl (WireError ''unknown chain_code'')
        | (Some _, None) \<Rightarrow> Inl (WireError ''unknown net_code'')
        | (Some c, Some n) \<Rightarrow>
            if unle (slice 10 12 hdr) \<noteq> 1 then Inl (WireError ''unsupported version'')
            else
              let f = unle (slice 12 16 hdr); l = unle (slice 16 20 hdr); k = unle (slice 20 24 hdr) in
              if int k \<noteq> int l - int f + 1 then Inl (WireError ''block_count mismatch'')
              else Inr \<lparr>xr_file = file, xr_pos = HEADER_SIZE, xr_chain = c, xr_network = n, xr_firstHeight = f,
                        xr_lastHeight = l, xr_blockCount = k, xr_chainTipAtDump = unle (slice 24 28 hdr)\<rparr>))"

text \<open>What \<open>blocks()\<close> yields, and one turn of its loop. The scratch view a block is given as is used up before the next turn.\<close>

record dumped =
  db_height :: nat
  db_blockHash :: bytes
  db_blockBytes :: bytes

definition nextBlock :: "int \<Rightarrow> xdmp_reader \<Rightarrow> error + (dumped \<times> xdmp_reader)" where
  "nextBlock prevHeight r =
     (let prefix' = slice (xr_pos r) (xr_pos r + RECORD_PREFIX) (xr_file r); pos = xr_pos r + RECORD_PREFIX in
      if length prefix' \<noteq> RECORD_PREFIX then Inl (WireError ''short prefix read'')
      else
        let blockSize = unle (slice 0 4 prefix'); height = unle (slice 4 8 prefix') in
        if blockSize = 0 \<or> blockSize > MAX_BLOCK_SIZE then Inl (WireError ''invalid block_size'')
        else if int height \<noteq> prevHeight + 1 then Inl (WireError ''height gap'')
        else
          let blockBytes = slice pos (pos + blockSize) (xr_file r) in
          if length blockBytes \<noteq> blockSize then Inl (WireError ''short data read'')
          else Inr (\<lparr>db_height = height, db_blockHash = slice 8 40 prefix', db_blockBytes = blockBytes\<rparr>,
                    r\<lparr>xr_pos := pos + blockSize\<rparr>))"

text \<open>
  \<open>for (const block of reader.blocks()) f(block)\<close> for the blocks not read yet: a fault of the reader or of
  the body ends the loop.
\<close>

fun forBlocks :: "nat \<Rightarrow> int \<Rightarrow> (dumped \<Rightarrow> ('s, unit) m) \<Rightarrow> xdmp_reader \<Rightarrow> ('s, unit) m" where
  "forBlocks 0 prevHeight f r = mret ()"
| "forBlocks (Suc left) prevHeight f r =
     mbind (mlift (nextBlock prevHeight r)) (\<lambda>(b, r'). mseq (f b) (forBlocks left (int (db_height b)) f r'))"

definition xdmpBlocks :: "(dumped \<Rightarrow> ('s, unit) m) \<Rightarrow> xdmp_reader \<Rightarrow> ('s, unit) m" where
  "xdmpBlocks f r = forBlocks (xr_blockCount r) (int (xr_firstHeight r) - 1) f r"

subsection \<open>Dumping a range\<close>

definition RPC_BATCH_SIZE :: int where "RPC_BATCH_SIZE = 25"

text \<open>
  The node behind the connector: its replies may depend on its state, which every call threads.
  \<open>cn_tagged\<close> reads the \<open>auxPowParseFailure\<close> tag of an error.
\<close>

record 'n connector =
  cn_getBlockHash :: "int \<Rightarrow> ('n, string) m"
  cn_getBlocksBatch :: "int list \<Rightarrow> ('n, fetched_block list) m"
  cn_getBlocksBatchWithoutAuxPow :: "int list \<Rightarrow> ('n, fetched_block list) m"
  cn_getBlockWithoutAuxPow :: "string \<Rightarrow> ('n, string) m"
  cn_getBlockReassembled :: "string \<Rightarrow> ('n, string) m"
  cn_tagged :: "error \<Rightarrow> bool"

definition lastHash :: "xdmp_reader \<Rightarrow> error + bytes option" where
  "lastHash r = (case xdmpBlocks (\<lambda>b. mmod (\<lambda>_. Some (db_blockHash b))) r None of (Inl e, _) \<Rightarrow> Inl e | (Inr _, h) \<Rightarrow> Inr h)"

definition existingChunkMatchesChain :: "'n connector \<Rightarrow> bytes \<Rightarrow> int \<Rightarrow> int \<Rightarrow> ('n, bool) m" where
  "existingChunkMatchesChain cn file chunkStart chunkEnd =
     mcatch (mbind (mlift (XdmpReader file)) (\<lambda>reader.
       if int (xr_firstHeight reader) \<noteq> chunkStart \<or> int (xr_lastHeight reader) \<noteq> chunkEnd then mret False
       else mbind (mlift (lastHash reader)) (\<lambda>h. case h of
           None \<Rightarrow> mret False
         | Some lh \<Rightarrow> mbind (cn_getBlockHash cn chunkEnd) (\<lambda>nodeHash. mret (b2h lh = nodeHash)))))
     (\<lambda>_. mret False)"

definition assertHeaderMatchesHash :: "(bytes \<Rightarrow> bytes) \<Rightarrow> string \<Rightarrow> string \<Rightarrow> error + unit" where
  "assertHeaderMatchesHash sha hash hex =
     (let header = h2b (take 160 hex); actual = b2h (rev (sha (sha header))) in
      if length header \<noteq> 80 \<or> actual \<noteq> map lower hash
      then Inl (BadConfig ''reassembled block header does not hash to the requested hash'') else Inr ())"

definition fetchAuxPowBlockForDump :: "'n connector \<Rightarrow> (bytes \<Rightarrow> bytes) \<Rightarrow> int \<Rightarrow> ('n, fetched_block) m" where
  "fetchAuxPowBlockForDump cn sha height =
     mbind (cn_getBlockHash cn height) (\<lambda>hash.
     mcatch (mbind (cn_getBlockWithoutAuxPow cn hash) (\<lambda>hex. mret \<lparr>fb_height = height, fb_hash = hash, fb_hex = hex\<rparr>))
       (\<lambda>err. if \<not> cn_tagged cn err then mthrow err
         else mbind (cn_getBlockReassembled cn hash) (\<lambda>hex.
           mseq (mlift (assertHeaderMatchesHash sha hash hex))
             (mret \<lparr>fb_height = height, fb_hash = hash, fb_hex = hex\<rparr>))))"

fun fetchEach :: "'n connector \<Rightarrow> (bytes \<Rightarrow> bytes) \<Rightarrow> int list \<Rightarrow> fetched_block list \<Rightarrow> ('n, fetched_block list) m" where
  "fetchEach cn sha [] bs = mret bs"
| "fetchEach cn sha (h # hs) bs = mbind (fetchAuxPowBlockForDump cn sha h) (\<lambda>b. fetchEach cn sha hs (bs @ [b]))"

definition fetchDumpBatch :: "'n connector \<Rightarrow> (bytes \<Rightarrow> bytes) \<Rightarrow> int list \<Rightarrow> bool \<Rightarrow> ('n, fetched_block list) m" where
  "fetchDumpBatch cn sha heights auxPow =
     (if \<not> auxPow then cn_getBlocksBatch cn heights
      else mcatch (cn_getBlocksBatchWithoutAuxPow cn heights)
        (\<lambda>err. if \<not> cn_tagged cn err then mthrow err else fetchEach cn sha heights []))"

text \<open>The batches of a chunk, written one after the other.\<close>

function dumpBatches :: "'n connector \<Rightarrow> (bytes \<Rightarrow> bytes) \<Rightarrow> bool \<Rightarrow> int \<Rightarrow> int \<Rightarrow> bytes \<Rightarrow> ('n, bytes) m" where
  "dumpBatches cn sha auxPow cursor chunkEnd file =
     (if cursor > chunkEnd then mret file
      else
        let batchEnd = min (cursor + RPC_BATCH_SIZE - 1) chunkEnd in
        mbind (fetchDumpBatch cn sha [cursor..batchEnd] auxPow) (\<lambda>bs.
        mbind (mlift (writeBlockRecords bs file)) (\<lambda>file'.
        dumpBatches cn sha auxPow (batchEnd + 1) chunkEnd file')))"
  by pat_completeness auto
termination
  by (relation "measure (\<lambda>(_, _, _, c, e, _). nat (e + 1 - c))") (auto simp: RPC_BATCH_SIZE_def min_def)

declare dumpBatches.simps [simp del]

text \<open>The chunk's file: the existing one when it ends on the node's chain, a new one otherwise.\<close>

definition dumpChunk :: "'n connector \<Rightarrow> (bytes \<Rightarrow> bytes) \<Rightarrow> string \<Rightarrow> string \<Rightarrow> bool \<Rightarrow> int \<Rightarrow> int \<Rightarrow> int \<Rightarrow> bytes option \<Rightarrow> ('n, bytes) m" where
  "dumpChunk cn sha chain netName auxPow chunkStart chunkEnd chainTipAtDump existing =
     (let dump = mbind (mlift (makeHeader chain netName chunkStart chunkEnd chainTipAtDump)) (\<lambda>hdr.
                   dumpBatches cn sha auxPow chunkStart chunkEnd hdr) in
      case existing of None \<Rightarrow> dump
      | Some file \<Rightarrow> mbind (existingChunkMatchesChain cn file chunkStart chunkEnd) (\<lambda>ok. if ok then mret file else dump))"

definition undoWindowBounds :: "environment \<Rightarrow> int \<Rightarrow> string \<Rightarrow> error + int" where
  "undoWindowBounds env chainTipAtDump network =
     rbind (resolveUndoBlocks env network None) (\<lambda>(undoBlocks, _). Inr (chainTipAtDump - undoBlocks))"

definition assertExplicitToOutsideUndoWindow :: "environment \<Rightarrow> int \<Rightarrow> int \<Rightarrow> string \<Rightarrow> bool \<Rightarrow> error + int" where
  "assertExplicitToOutsideUndoWindow env dumpEnd chainTipAtDump network allowUndoWindow =
     rbind (undoWindowBounds env chainTipAtDump network) (\<lambda>safeEnd.
     if dumpEnd \<le> safeEnd then Inr safeEnd
     else if \<not> allowUndoWindow then Inl (BadConfig ''--to lands inside the live undo window'')
     else Inr safeEnd)"

record dump_args =
  da_network :: string
  da_from :: int
  da_to :: "int option"
  da_tipSafety :: int
  da_allowUndoWindow :: bool

definition resolveDumpEnd :: "environment \<Rightarrow> dump_args \<Rightarrow> int \<Rightarrow> error + int" where
  "resolveDumpEnd env args chainTipAtDump = (case da_to args of
       Some dumpEnd \<Rightarrow>
         if dumpEnd > chainTipAtDump then Inl (BadConfig ''--to is beyond current tip'')
         else rbind (assertExplicitToOutsideUndoWindow env dumpEnd chainTipAtDump (da_network args) (da_allowUndoWindow args))
                (\<lambda>_. Inr dumpEnd)
     | None \<Rightarrow>
         let dumpEnd = chainTipAtDump - da_tipSafety args in
         if dumpEnd < da_from args then Inl (BadConfig ''computed dump end is before --from'') else Inr dumpEnd)"

text \<open>The chunks of a dump; the argument check has made \<open>chunkSize\<close> positive.\<close>

function chunkRanges :: "int \<Rightarrow> int \<Rightarrow> int \<Rightarrow> (int \<times> int) list" where
  "chunkRanges chunkStart dumpEnd chunkSize =
     (if chunkStart > dumpEnd \<or> chunkSize \<le> 0 then []
      else
        let chunkEnd = min (chunkStart + chunkSize - 1) dumpEnd in
        (chunkStart, chunkEnd) # chunkRanges (chunkEnd + 1) dumpEnd chunkSize)"
  by pat_completeness auto
termination by (relation "measure (\<lambda>(c, e, _). nat (e + 1 - c))") (auto simp: min_def)

declare chunkRanges.simps [simp del]

subsection \<open>A written dump reads back\<close>

definition dumped_of :: "fetched_block \<Rightarrow> dumped" where
  "dumped_of b = \<lparr>db_height = nat (fb_height b), db_blockHash = h2b (fb_hash b), db_blockBytes = h2b (fb_hex b)\<rparr>"

lemma writeUInt32LE_Inr: "writeUInt32LE x = Inr bs \<longleftrightarrow> 0 \<le> x \<and> x \<le> 4294967295 \<and> bs = le 4 (nat x)"
  by (auto simp: writeUInt32LE_def)

lemma u32_fits: "0 \<le> x \<Longrightarrow> x \<le> 4294967295 \<Longrightarrow> nat x mod 4294967296 = nat x"
  by (simp add: nat_less_iff)

lemma slice_at: "length xs = a \<Longrightarrow> slice a b (xs @ ys) = take (b - a) ys"
  by (auto simp: slice_def)

lemma blockRecord_read:
  assumes "blockRecord b = Inr rec" and "xr_file r = pre @ rec @ suf" and "xr_pos r = length pre" and "fb_height b = prev + 1"
  shows "nextBlock prev r = Inr (dumped_of b, r\<lparr>xr_pos := length (pre @ rec)\<rparr>)" and "fb_height b = int (db_height (dumped_of b))"
proof -
  let ?bb = "h2b (fb_hex b)" and ?hb = "h2b (fb_hash b)"
  have len: "0 < length ?bb" "length ?bb \<le> MAX_BLOCK_SIZE" "length ?hb = 32"
    and rec: "rec = le 4 (length ?bb) @ le 4 (nat (fb_height b)) @ ?hb @ ?bb"
    and h: "0 \<le> fb_height b" "fb_height b \<le> 4294967295"
    using assms(1) by (auto simp: blockRecord_def Let_def rbind_Inr_iff writeUInt32LE_Inr split: if_splits)
  have fits: "length ?bb mod 4294967296 = length ?bb" using len(2) by (simp add: MAX_BLOCK_SIZE_def)
  let ?pfx = "le 4 (length ?bb) @ le 4 (nat (fb_height b)) @ ?hb"
  have pfx: "slice (length pre) (length pre + RECORD_PREFIX) (pre @ rec @ suf) = ?pfx"
    using len(3) by (simp add: slice_at rec RECORD_PREFIX_def)
  have f: "unle (slice 0 4 ?pfx) = length ?bb" "unle (slice 4 8 ?pfx) = nat (fb_height b)" "slice 8 40 ?pfx = ?hb"
    using len(3) fits u32_fits [OF h] by (simp_all add: slice_def)
  have data: "slice (length pre + RECORD_PREFIX) (length pre + RECORD_PREFIX + length ?bb) (pre @ rec @ suf) = ?bb"
    using len(3) slice_at [of "pre @ ?pfx" "length pre + RECORD_PREFIX" _ "?bb @ suf"] by (simp add: rec RECORD_PREFIX_def)
  have p: "length ?pfx = RECORD_PREFIX" "length (pre @ rec) = length pre + RECORD_PREFIX + length ?bb"
    using len(3) by (simp_all add: rec RECORD_PREFIX_def)
  show "nextBlock prev r = Inr (dumped_of b, r\<lparr>xr_pos := length (pre @ rec)\<rparr>)"
    using len h assms(4) unfolding nextBlock_def assms(2,3) pfx Let_def f data p by (auto simp: dumped_of_def)
  show "fb_height b = int (db_height (dumped_of b))" using h by (simp add: dumped_of_def)
qed

lemma written_records: "writeBlockRecords bs fl = Inr fl' \<Longrightarrow> \<exists>rs. fl' = fl @ rs"
  by (induction bs arbitrary: fl) (fastforce simp: rbind_Inr_iff)+

lemma read_written:
  "writeBlockRecords bs fl = Inr fl' \<Longrightarrow> map fb_height bs = [h..e] \<Longrightarrow> xr_file r = fl' \<Longrightarrow> xr_pos r = length fl
    \<Longrightarrow> forBlocks (length bs) (h - 1) f r s = mfor (map dumped_of bs) f s"
proof (induction bs arbitrary: fl h r s)
  case (Cons b bs)
  then obtain rec where rec: "blockRecord b = Inr rec" "writeBlockRecords bs (fl @ rec) = Inr fl'"
    by (auto simp: rbind_Inr_iff)
  then obtain rs where rs: "fl' = fl @ rec @ rs" using written_records by fastforce
  have "h \<le> e" using Cons.prems(2) by (cases "h \<le> e") auto
  then have h: "fb_height b = h" "map fb_height bs = [h + 1..e]" using Cons.prems(2) by (simp_all add: upto_rec1)
  note n = blockRecord_read [OF rec(1), of r fl rs "h - 1"]
  have nb: "nextBlock (h - 1) r = Inr (dumped_of b, r\<lparr>xr_pos := length (fl @ rec)\<rparr>)" and
    hb: "int (db_height (dumped_of b)) = h"
    using n Cons.prems(3,4) rs h(1) by simp_all
  have "forBlocks (length bs) h f (r\<lparr>xr_pos := length (fl @ rec)\<rparr>) s' = mfor (map dumped_of bs) f s'" for s'
    using Cons.IH [OF rec(2) h(2), of "r\<lparr>xr_pos := length (fl @ rec)\<rparr>"] Cons.prems(3) by simp
  then have "forBlocks (length bs) h f (r\<lparr>xr_pos := length (fl @ rec)\<rparr>) = mfor (map dumped_of bs) f" by (simp add: fun_eq_iff)
  then show ?case by (simp add: nb hb)
qed simp

lemma CHAIN_codes: "CHAIN_CODES c = Some k \<longleftrightarrow> CHAIN_NAMES k = Some c" "CHAIN_CODES c = Some k \<Longrightarrow> k < 256"
  by (auto simp: CHAIN_CODES_def CHAIN_NAMES_def split: if_splits)

lemma NETWORK_codes: "NETWORK_CODES c = Some k \<longleftrightarrow> NETWORK_NAMES k = Some c" "NETWORK_CODES c = Some k \<Longrightarrow> k < 256"
  by (auto simp: NETWORK_CODES_def NETWORK_NAMES_def split: if_splits)

lemma header_read:
  assumes "makeHeader chain netName f l t = Inr hdr"
  shows "length hdr = HEADER_SIZE"
    and "XdmpReader (hdr @ rs) = Inr \<lparr>xr_file = hdr @ rs, xr_pos = HEADER_SIZE, xr_chain = chain, xr_network = netName,
      xr_firstHeight = nat f, xr_lastHeight = nat l, xr_blockCount = nat (l - f + 1), xr_chainTipAtDump = nat t\<rparr>"
proof -
  obtain c n where cn: "CHAIN_CODES chain = Some c" "NETWORK_CODES netName = Some n"
    using assms by (auto simp: makeHeader_def split: option.splits)
  have b: "0 \<le> f" "f \<le> 4294967295" "0 \<le> l" "l \<le> 4294967295" "0 \<le> l - f + 1" "l - f + 1 \<le> 4294967295" "0 \<le> t" "t \<le> 4294967295"
    and hdr: "hdr = MAGIC_DUMP @ [of_nat c, of_nat n] @ le 2 1 @ le 4 (nat f) @ le 4 (nat l) @ le 4 (nat (l - f + 1)) @ le 4 (nat t) @ replicate 36 0"
    using assms cn by (auto simp: makeHeader_def rbind_Inr_iff writeUInt32LE_Inr)
  show len: "length hdr = HEADER_SIZE" by (simp add: hdr MAGIC_DUMP_def HEADER_SIZE_def)
  have nm: "length MAGIC_DUMP = 8" by (simp add: MAGIC_DUMP_def)
  have parts: "slice 0 8 hdr = MAGIC_DUMP" "hdr ! 8 = of_nat c" "hdr ! 9 = of_nat n" "unle (slice 10 12 hdr) = 1"
    "unle (slice 12 16 hdr) = nat f" "unle (slice 16 20 hdr) = nat l" "unle (slice 20 24 hdr) = nat (l - f + 1)" "unle (slice 24 28 hdr) = nat t"
    using u32_fits [OF b(1,2)] u32_fits [OF b(3,4)] u32_fits [OF b(5,6)] u32_fits [OF b(7,8)]
    by (simp_all add: hdr slice_def nth_append nm)
  have names: "CHAIN_NAMES (unat (of_nat c :: byte)) = Some chain" "NETWORK_NAMES (unat (of_nat n :: byte)) = Some netName"
    using CHAIN_codes [of chain c] NETWORK_codes [of netName n] cn by simp_all
  have tk: "take HEADER_SIZE (hdr @ rs) = hdr" using len by simp
  have count: "int (nat (l - f + 1)) = int (nat l) - int (nat f) + 1" using b by simp
  show "XdmpReader (hdr @ rs) = Inr \<lparr>xr_file = hdr @ rs, xr_pos = HEADER_SIZE, xr_chain = chain, xr_network = netName,
      xr_firstHeight = nat f, xr_lastHeight = nat l, xr_blockCount = nat (l - f + 1), xr_chainTipAtDump = nat t\<rparr>"
    unfolding XdmpReader_def tk Let_def parts names using len count by simp
qed

end
