(* ===== verification/BulkStreams.thy ===== *)
theory BulkStreams
  imports Tracker Xdmp
begin

text \<open>
  The parse worker of bulk sync: the binary writers of its three streams (\<^verbatim>\<open>src/bulk_sync/writers.js\<close>),
  the block processor (\<^verbatim>\<open>process_block.js\<close>) and the loop over a dump (\<^verbatim>\<open>parse_worker.js\<close>). A
  stream's file is the list of its bytes; the temporary name, the fsync and the rename are the flag
  \<open>final\<close>. SHA-256 and the block decoder are parameters. The 32-byte Buffers copied into a record are
  cut at 32 bytes; a shorter one never occurs.
\<close>

subsection \<open>Headers\<close>

definition MAGIC_OUTPUTS :: bytes where "MAGIC_OUTPUTS = [0x58, 0x43, 0x48, 0x4E, 0x4F, 0x55, 0x54, 0x32]"
definition MAGIC_SPENDS :: bytes where "MAGIC_SPENDS = [0x58, 0x43, 0x48, 0x4E, 0x53, 0x50, 0x44, 0x32]"
definition MAGIC_META :: bytes where "MAGIC_META = [0x58, 0x43, 0x48, 0x4E, 0x4D, 0x54, 0x41, 0x32]"

definition OUT_TXID :: nat where "OUT_TXID = 0"
definition OUT_VOUT :: nat where "OUT_VOUT = 32"
definition OUT_VALUE :: nat where "OUT_VALUE = 36"
definition OUT_HEIGHT :: nat where "OUT_HEIGHT = 44"
definition OUT_SCRIPT :: nat where "OUT_SCRIPT = 48"
definition OUT_BLOCK :: nat where "OUT_BLOCK = 80"
definition OUT_COINBASE :: nat where "OUT_COINBASE = 112"
definition OUTPUTS_RECORD_SIZE :: nat where "OUTPUTS_RECORD_SIZE = 113"
definition SPD_PREV_TXID :: nat where "SPD_PREV_TXID = 0"
definition SPD_PREV_VOUT :: nat where "SPD_PREV_VOUT = 32"
definition SPD_SPENDER_TXID :: nat where "SPD_SPENDER_TXID = 36"
definition SPENDS_RECORD_SIZE :: nat where "SPENDS_RECORD_SIZE = 68"

lemmas layout_defs = OUT_TXID_def OUT_VOUT_def OUT_VALUE_def OUT_HEIGHT_def OUT_SCRIPT_def OUT_BLOCK_def OUT_COINBASE_def
  OUTPUTS_RECORD_SIZE_def SPD_PREV_TXID_def SPD_PREV_VOUT_def SPD_SPENDER_TXID_def SPENDS_RECORD_SIZE_def

definition streamHeader :: "bytes \<Rightarrow> string \<Rightarrow> string \<Rightarrow> int \<Rightarrow> int \<Rightarrow> nat \<Rightarrow> error + bytes" where
  "streamHeader magic chain netName firstHeight lastHeight recordSize =
     (case CHAIN_CODES chain of
        None \<Rightarrow> Inl (BadConfig ''Unknown chain'')
      | Some c \<Rightarrow> (case NETWORK_CODES netName of
          None \<Rightarrow> Inl (BadConfig ''Unknown network'')
        | Some n \<Rightarrow>
            if length magic \<noteq> 8 then Inl (BadConfig ''magic must be 8 bytes'')
            else
              rbind (writeUInt32LE firstHeight) (\<lambda>f.
              rbind (writeUInt32LE lastHeight) (\<lambda>l.
              rbind (writeUInt32LE (int recordSize)) (\<lambda>s.
              Inr (magic @ [of_nat c, of_nat n] @ le 2 2 @ f @ l @ replicate 8 0 @ s @ replicate 32 0))))))"

definition backfillRecordCount :: "nat \<Rightarrow> bytes \<Rightarrow> bytes" where
  "backfillRecordCount count file = take 20 file @ le 8 count @ drop 28 file"

subsection \<open>The fixed-record writers\<close>

definition FLUSH_BATCH_BYTES :: nat where "FLUSH_BATCH_BYTES = 256 * 1024"

record fixed_writer =
  fw_file :: bytes
  fw_batch :: "bytes list"
  fw_batchCap :: nat
  fw_count :: nat
  fw_closed :: bool
  fw_final :: bool

definition FixedRecordWriter :: "bytes \<Rightarrow> string \<Rightarrow> string \<Rightarrow> int \<Rightarrow> int \<Rightarrow> nat \<Rightarrow> error + fixed_writer" where
  "FixedRecordWriter magic chain netName firstHeight lastHeight recordSize =
     rbind (streamHeader magic chain netName firstHeight lastHeight recordSize) (\<lambda>hdr.
     Inr \<lparr>fw_file = hdr, fw_batch = [], fw_batchCap = max 1 (FLUSH_BATCH_BYTES div recordSize), fw_count = 0,
          fw_closed = False, fw_final = False\<rparr>)"

definition fw_flush :: "fixed_writer \<Rightarrow> fixed_writer" where
  "fw_flush w = w\<lparr>fw_file := fw_file w @ concat (fw_batch w), fw_batch := []\<rparr>"

text \<open>\<open>advance\<close> after the slot has been filled with the record.\<close>

definition fw_advance :: "bytes \<Rightarrow> fixed_writer \<Rightarrow> fixed_writer" where
  "fw_advance rec w =
     (let w1 = w\<lparr>fw_batch := fw_batch w @ [rec], fw_count := fw_count w + 1\<rparr> in
      if length (fw_batch w1) = fw_batchCap w1 then fw_flush w1 else w1)"

definition fw_close :: "fixed_writer \<Rightarrow> fixed_writer" where
  "fw_close w =
     (if fw_closed w then w
      else let w1 = fw_flush (w\<lparr>fw_closed := True\<rparr>) in
           w1\<lparr>fw_file := backfillRecordCount (fw_count w1) (fw_file w1), fw_final := True\<rparr>)"

definition fw_abort :: "fixed_writer \<Rightarrow> fixed_writer" where
  "fw_abort w = w\<lparr>fw_closed := True\<rparr>"

definition outputRecord :: "bytes \<Rightarrow> nat \<Rightarrow> int \<Rightarrow> int \<Rightarrow> bytes \<Rightarrow> bytes \<Rightarrow> bool \<Rightarrow> error + bytes" where
  "outputRecord txid vout value height scriptPubKey blockHash isCoinbase =
     rbind (writeBigUInt64BE value) (\<lambda>v.
     rbind (writeInt32BE height) (\<lambda>h.
     Inr (take 32 txid @ be32 (of_nat vout) @ v @ h @ take 32 scriptPubKey @ take 32 blockHash @ [if isCoinbase then 1 else 0])))"

definition spendRecord :: "bytes \<Rightarrow> u32 \<Rightarrow> bytes \<Rightarrow> bytes" where
  "spendRecord prevTxid prevVout spenderTxid = take 32 prevTxid @ be32 prevVout @ take 32 spenderTxid"

subsection \<open>The meta writer\<close>

record meta_writer =
  mw_file :: bytes
  mw_buf :: bytes
  mw_cap :: nat
  mw_count :: nat
  mw_closed :: bool
  mw_final :: bool

definition MetaWriter :: "string \<Rightarrow> string \<Rightarrow> int \<Rightarrow> int \<Rightarrow> error + meta_writer" where
  "MetaWriter chain netName firstHeight lastHeight =
     rbind (streamHeader MAGIC_META chain netName firstHeight lastHeight 0) (\<lambda>hdr.
     Inr \<lparr>mw_file = hdr, mw_buf = [], mw_cap = FLUSH_BATCH_BYTES, mw_count = 0, mw_closed = False, mw_final = False\<rparr>)"

definition mw_flush :: "meta_writer \<Rightarrow> meta_writer" where
  "mw_flush w = w\<lparr>mw_file := mw_file w @ mw_buf w, mw_buf := []\<rparr>"

definition mw_ensure :: "nat \<Rightarrow> meta_writer \<Rightarrow> meta_writer" where
  "mw_ensure needed w =
     (if length (mw_buf w) + needed \<le> mw_cap w then w
      else let w1 = mw_flush w in if needed > mw_cap w1 then w1\<lparr>mw_cap := needed\<rparr> else w1)"

definition metaRecord :: "int \<Rightarrow> int \<Rightarrow> bytes \<Rightarrow> bytes \<Rightarrow> bytes list \<Rightarrow> bytes" where
  "metaRecord height timestamp blockHash previousHash txidList =
     be32 (of_int height) @ be32 (of_int timestamp) @ take 32 blockHash @ take 32 previousHash
       @ be32 (of_nat (length txidList)) @ concat (map (take 32) txidList)"

definition writeBlock :: "int \<Rightarrow> int \<Rightarrow> bytes \<Rightarrow> bytes \<Rightarrow> bytes list \<Rightarrow> meta_writer \<Rightarrow> meta_writer" where
  "writeBlock height timestamp blockHash previousHash txidList w =
     (let w1 = mw_ensure (76 + 32 * length txidList) w in
      w1\<lparr>mw_buf := mw_buf w1 @ metaRecord height timestamp blockHash previousHash txidList, mw_count := mw_count w1 + 1\<rparr>)"

definition mw_close :: "meta_writer \<Rightarrow> meta_writer" where
  "mw_close w =
     (if mw_closed w then w
      else let w1 = mw_flush (w\<lparr>mw_closed := True\<rparr>) in
           w1\<lparr>mw_file := backfillRecordCount (mw_count w1) (mw_file w1), mw_final := True\<rparr>)"

definition mw_abort :: "meta_writer \<Rightarrow> meta_writer" where
  "mw_abort w = w\<lparr>mw_closed := True\<rparr>"

subsection \<open>Processing a block\<close>

record writers =
  ws_outputs :: fixed_writer
  ws_spends :: fixed_writer
  ws_meta :: meta_writer

fun appendOutputs :: "(bytes \<Rightarrow> bytes) \<Rightarrow> bytes \<Rightarrow> int \<Rightarrow> bytes \<Rightarrow> bool \<Rightarrow> (nat \<times> txout) list \<Rightarrow> (writers, unit) m" where
  "appendOutputs sha txid height blockHash isCoinbase [] = mret ()"
| "appendOutputs sha txid height blockHash isCoinbase ((vout, out) # outs) =
     mbind (mlift (outputRecord txid vout (to_value out) height (sha (to_script out)) blockHash isCoinbase)) (\<lambda>rec.
     mseq (mmod (\<lambda>w. w\<lparr>ws_outputs := fw_advance rec (ws_outputs w)\<rparr>))
       (appendOutputs sha txid height blockHash isCoinbase outs))"

definition appendSpends :: "txin list \<Rightarrow> bytes \<Rightarrow> (writers, unit) m" where
  "appendSpends ins txid =
     mfor ins (\<lambda>inp. if \<not> traced inp then mret ()
       else mmod (\<lambda>w. w\<lparr>ws_spends := fw_advance (spendRecord (prevTxHash inp) (ti_index inp) txid) (ws_spends w)\<rparr>))"

definition processTransaction :: "(bytes \<Rightarrow> bytes) \<Rightarrow> int \<Rightarrow> bytes \<Rightarrow> tx \<Rightarrow> (writers, unit) m" where
  "processTransaction sha height blockHash t =
     mseq (appendOutputs sha (tx_id t) height blockHash (isCoinbaseTransaction t) (enumerate 0 (tx_outs t)))
       (appendSpends (tx_ins t) (tx_id t))"

definition processBlock :: "(bytes \<Rightarrow> bytes) \<Rightarrow> block \<Rightarrow> int \<Rightarrow> bytes \<Rightarrow> (writers, unit) m" where
  "processBlock sha block height blockHash =
     mseq (mfor (bl_transactions block) (processTransaction sha height blockHash))
       (mmod (\<lambda>w. w\<lparr>ws_meta := writeBlock height (bl_timestamp block) blockHash (rev (bl_prevHash block))
          (map tx_id (bl_transactions block)) (ws_meta w)\<rparr>))"

subsection \<open>The worker\<close>

text \<open>
  \<open>processBlocks\<close> and \<open>finishOutputs\<close> with the writers of \<open>main\<close>: the three files when the worker
  finishes. A fault at any block aborts the writers, and the process exits without a final file.
\<close>

definition workBlock :: "(bytes \<Rightarrow> bytes) \<Rightarrow> (bytes \<Rightarrow> error + block) \<Rightarrow> dumped \<Rightarrow> (writers, unit) m" where
  "workBlock sha decode b =
     mbind (mlift (decode (db_blockBytes b))) (\<lambda>block. processBlock sha block (int (db_height b)) (db_blockHash b))"

definition processBlocks :: "(bytes \<Rightarrow> bytes) \<Rightarrow> (bytes \<Rightarrow> error + block) \<Rightarrow> xdmp_reader \<Rightarrow> (writers, unit) m" where
  "processBlocks sha decode reader = xdmpBlocks (workBlock sha decode) reader"

record streams =
  sm_outputs :: bytes
  sm_spends :: bytes
  sm_meta :: bytes

definition openWriters :: "xdmp_reader \<Rightarrow> error + writers" where
  "openWriters r =
     (let f = int (xr_firstHeight r); l = int (xr_lastHeight r); c = xr_chain r; n = xr_network r in
      rbind (FixedRecordWriter MAGIC_OUTPUTS c n f l OUTPUTS_RECORD_SIZE) (\<lambda>outputs.
      rbind (FixedRecordWriter MAGIC_SPENDS c n f l SPENDS_RECORD_SIZE) (\<lambda>spends.
      rbind (MetaWriter c n f l) (\<lambda>meta.
      Inr \<lparr>ws_outputs = outputs, ws_spends = spends, ws_meta = meta\<rparr>))))"

definition finishOutputs :: "writers \<Rightarrow> streams" where
  "finishOutputs w = \<lparr>sm_outputs = fw_file (fw_close (ws_outputs w)), sm_spends = fw_file (fw_close (ws_spends w)),
     sm_meta = mw_file (mw_close (ws_meta w))\<rparr>"

definition parseWorker :: "(bytes \<Rightarrow> bytes) \<Rightarrow> (bytes \<Rightarrow> error + block) \<Rightarrow> bytes \<Rightarrow> error + streams" where
  "parseWorker sha decode file =
     rbind (XdmpReader file) (\<lambda>reader.
     rbind (openWriters reader) (\<lambda>w0.
     (case processBlocks sha decode reader w0 of (Inl e, _) \<Rightarrow> Inl e | (Inr _, w) \<Rightarrow> Inr (finishOutputs w))))"

subsection \<open>What the streams hold\<close>

text \<open>
  An unspent output as a value, its record, and the outputs and spends of a block. A block comes with
  its height and its hash.
\<close>

record utxo =
  ux_txid :: bytes
  ux_vout :: u32
  ux_value :: int
  ux_height :: int
  ux_script :: bytes
  ux_block :: bytes
  ux_coinbase :: bool

type_synonym chain_block = "int \<times> bytes \<times> block"

definition enc_utxo :: "utxo \<Rightarrow> bytes" where
  "enc_utxo u = ux_txid u @ be32 (ux_vout u) @ be 8 (nat (ux_value u)) @ be 4 (nat (ux_height u mod 4294967296))
     @ ux_script u @ ux_block u @ [if ux_coinbase u then 1 else 0]"

definition utxo_ok :: "utxo \<Rightarrow> bool" where
  "utxo_ok u \<longleftrightarrow> length (ux_txid u) = 32 \<and> length (ux_script u) = 32 \<and> length (ux_block u) = 32
     \<and> 0 \<le> ux_value u \<and> ux_value u \<le> 18446744073709551615 \<and> - 2147483648 \<le> ux_height u \<and> ux_height u \<le> 2147483647"

definition utxo_of :: "(bytes \<Rightarrow> bytes) \<Rightarrow> bytes \<Rightarrow> int \<Rightarrow> bytes \<Rightarrow> bool \<Rightarrow> nat \<times> txout \<Rightarrow> utxo" where
  "utxo_of sha txid height blockHash cb p = \<lparr>ux_txid = txid, ux_vout = of_nat (fst p), ux_value = to_value (snd p),
     ux_height = height, ux_script = sha (to_script (snd p)), ux_block = blockHash, ux_coinbase = cb\<rparr>"

definition tx_created :: "(bytes \<Rightarrow> bytes) \<Rightarrow> int \<Rightarrow> bytes \<Rightarrow> tx \<Rightarrow> utxo list" where
  "tx_created sha height blockHash t =
     map (utxo_of sha (tx_id t) height blockHash (isCoinbaseTransaction t)) (enumerate 0 (tx_outs t))"

definition created :: "(bytes \<Rightarrow> bytes) \<Rightarrow> chain_block \<Rightarrow> utxo list" where
  "created sha b = (case b of (height, blockHash, block) \<Rightarrow> concat (map (tx_created sha height blockHash) (bl_transactions block)))"

definition tx_spends :: "tx \<Rightarrow> (bytes \<times> u32 \<times> bytes) list" where
  "tx_spends t = map (\<lambda>i. (prevTxHash i, ti_index i, tx_id t)) (filter traced (tx_ins t))"

definition spends :: "chain_block \<Rightarrow> (bytes \<times> u32 \<times> bytes) list" where
  "spends b = (case b of (_, _, block) \<Rightarrow> concat (map tx_spends (bl_transactions block)))"

definition enc_spend :: "bytes \<times> u32 \<times> bytes \<Rightarrow> bytes" where
  "enc_spend s = (case s of (prev, vout, spender) \<Rightarrow> prev @ be32 vout @ spender)"

text \<open>The library's part of the widths: SHA-256 has 32 bytes, and so have transaction ids.\<close>

definition tx_ok :: "tx \<Rightarrow> bool" where
  "tx_ok t \<longleftrightarrow> length (tx_id t) = 32 \<and> (\<forall>i \<in> set (tx_ins t). length (ti_hash i) = 32)"

definition content :: "fixed_writer \<Rightarrow> bytes" where
  "content w = fw_file w @ concat (fw_batch w)"

lemma content_advance [simp]:
  "content (fw_advance r w) = content w @ r" "fw_count (fw_advance r w) = fw_count w + 1" "fw_closed (fw_advance r w) = fw_closed w"
  by (simp_all add: fw_advance_def fw_flush_def content_def Let_def)

lemma outputRecord_enc:
  assumes "outputRecord txid vout value height script blockHash cb = Inr r"
    and "length txid = 32" and "length script = 32" and "length blockHash = 32"
  shows "r = enc_utxo \<lparr>ux_txid = txid, ux_vout = of_nat vout, ux_value = value, ux_height = height, ux_script = script,
      ux_block = blockHash, ux_coinbase = cb\<rparr>"
    and "utxo_ok \<lparr>ux_txid = txid, ux_vout = of_nat vout, ux_value = value, ux_height = height, ux_script = script,
      ux_block = blockHash, ux_coinbase = cb\<rparr>"
  using assms by (auto simp: outputRecord_def rbind_Inr_iff enc_utxo_def utxo_ok_def writeBigUInt64BE_def writeInt32BE_def split: if_splits)

definition meta_content :: "meta_writer \<Rightarrow> bytes" where
  "meta_content w = mw_file w @ mw_buf w"

lemma meta_content_ensure [simp]:
  "meta_content (mw_ensure n w) = meta_content w" "mw_count (mw_ensure n w) = mw_count w" "mw_closed (mw_ensure n w) = mw_closed w"
  by (simp_all add: mw_ensure_def mw_flush_def meta_content_def Let_def)

lemma meta_content_write [simp]:
  "meta_content (writeBlock h t bh ph ids w) = meta_content w @ metaRecord h t bh ph ids"
  "mw_count (writeBlock h t bh ph ids w) = mw_count w + 1" "mw_closed (writeBlock h t bh ph ids w) = mw_closed w"
  using meta_content_ensure(1) [of "76 + 32 * length ids" w, unfolded meta_content_def]
  by (simp_all add: writeBlock_def Let_def meta_content_def)

text \<open>The meta record of a block.\<close>

definition meta_of :: "chain_block \<Rightarrow> bytes" where
  "meta_of b = (case b of (height, blockHash, block) \<Rightarrow>
     metaRecord height (bl_timestamp block) blockHash (rev (bl_prevHash block)) (map tx_id (bl_transactions block)))"

text \<open>\<open>streamed\<close>: from \<open>w\<close> to \<open>w'\<close> the writers took the outputs \<open>us\<close>, the spends \<open>ss\<close> and the meta records \<open>ms\<close>.\<close>

definition streamed :: "utxo list \<Rightarrow> (bytes \<times> u32 \<times> bytes) list \<Rightarrow> bytes list \<Rightarrow> writers \<Rightarrow> writers \<Rightarrow> bool" where
  "streamed us ss ms w w' \<longleftrightarrow>
     content (ws_outputs w') = content (ws_outputs w) @ concat (map enc_utxo us)
     \<and> fw_count (ws_outputs w') = fw_count (ws_outputs w) + length us
     \<and> fw_closed (ws_outputs w') = fw_closed (ws_outputs w)
     \<and> content (ws_spends w') = content (ws_spends w) @ concat (map enc_spend ss)
     \<and> fw_count (ws_spends w') = fw_count (ws_spends w) + length ss
     \<and> fw_closed (ws_spends w') = fw_closed (ws_spends w)
     \<and> meta_content (ws_meta w') = meta_content (ws_meta w) @ concat ms
     \<and> mw_count (ws_meta w') = mw_count (ws_meta w) + length ms
     \<and> mw_closed (ws_meta w') = mw_closed (ws_meta w)
     \<and> (\<forall>u \<in> set us. utxo_ok u)"

lemma streamed_refl [simp]: "streamed [] [] [] w w"
  by (simp add: streamed_def)

lemma streamed_trans: "streamed us ss ms w w' \<Longrightarrow> streamed us' ss' ms' w' w'' \<Longrightarrow> streamed (us @ us') (ss @ ss') (ms @ ms') w w''"
  by (auto simp: streamed_def)

lemma appendOutputs_streams:
  assumes "appendOutputs sha txid height bh cb ps w = (Inr (), w')" and "length txid = 32" and "length bh = 32" and "\<And>s. length (sha s) = 32"
  shows "streamed (map (utxo_of sha txid height bh cb) ps) [] [] w w'"
  using assms(1)
proof (induction ps arbitrary: w)
  case (Cons p ps)
  obtain vout out where p: "p = (vout, out)" by force
  obtain r where r: "outputRecord txid vout (to_value out) height (sha (to_script out)) bh cb = Inr r"
    using Cons.prems p by (cases "outputRecord txid vout (to_value out) height (sha (to_script out)) bh cb") auto
  let ?w = "w\<lparr>ws_outputs := fw_advance r (ws_outputs w)\<rparr>"
  note e = outputRecord_enc [OF r assms(2) assms(4) assms(3)]
  have "streamed [utxo_of sha txid height bh cb p] [] [] w ?w"
    using e by (simp add: streamed_def utxo_of_def p)
  moreover have "streamed (map (utxo_of sha txid height bh cb) ps) [] [] ?w w'"
    using Cons.prems p r by (intro Cons.IH) simp
  ultimately show ?case using streamed_trans by fastforce
qed simp

lemma appendSpends_streams:
  assumes "appendSpends ins txid w = (Inr (), w')" and "length txid = 32" and "\<forall>i \<in> set ins. length (ti_hash i) = 32"
  shows "streamed [] (map (\<lambda>i. (prevTxHash i, ti_index i, txid)) (filter traced ins)) [] w w'"
  using assms unfolding appendSpends_def
proof (induction ins arbitrary: w)
  case (Cons i ins)
  show ?case
  proof (cases "traced i")
    case False
    then show ?thesis using Cons by simp
  next
    case True
    let ?w = "w\<lparr>ws_spends := fw_advance (spendRecord (prevTxHash i) (ti_index i) txid) (ws_spends w)\<rparr>"
    have "streamed [] [(prevTxHash i, ti_index i, txid)] [] w ?w"
      using Cons.prems by (simp add: streamed_def spendRecord_def enc_spend_def prevTxHash_def)
    moreover have "streamed [] (map (\<lambda>i. (prevTxHash i, ti_index i, txid)) (filter traced ins)) [] ?w w'"
      using Cons True by simp
    ultimately show ?thesis using streamed_trans True by fastforce
  qed
qed simp

lemma processTransaction_streams:
  assumes "processTransaction sha height bh t w = (Inr (), w')" and "tx_ok t" and "length bh = 32" and "\<And>s. length (sha s) = 32"
  shows "streamed (tx_created sha height bh t) (tx_spends t) [] w w'"
proof -
  obtain w1 where "appendOutputs sha (tx_id t) height bh (isCoinbaseTransaction t) (enumerate 0 (tx_outs t)) w = (Inr (), w1)"
    "appendSpends (tx_ins t) (tx_id t) w1 = (Inr (), w')"
    using assms(1) by (auto simp: processTransaction_def mseq_Inr_iff)
  then show ?thesis
    using appendOutputs_streams [of sha "tx_id t" height bh] appendSpends_streams [of "tx_ins t" "tx_id t" w1 w'] assms(2-4) streamed_trans
    unfolding tx_created_def tx_spends_def tx_ok_def by fastforce
qed

lemma processBlock_streams:
  assumes "processBlock sha block height bh w = (Inr (), w')" and "\<forall>t \<in> set (bl_transactions block). tx_ok t"
    and "length bh = 32" and "\<And>s. length (sha s) = 32"
  shows "streamed (created sha (height, bh, block)) (spends (height, bh, block)) [meta_of (height, bh, block)] w w'"
proof -
  have txs: "mfor ts (processTransaction sha height bh) w = (Inr (), w1) \<Longrightarrow> \<forall>t \<in> set ts. tx_ok t \<Longrightarrow>
      streamed (concat (map (tx_created sha height bh) ts)) (concat (map tx_spends ts)) [] w w1" for ts w w1
  proof (induction ts arbitrary: w)
    case (Cons t ts)
    obtain w2 where "processTransaction sha height bh t w = (Inr (), w2)" "mfor ts (processTransaction sha height bh) w2 = (Inr (), w1)"
      using Cons.prems(1) by (auto simp: mseq_Inr_iff)
    then show ?case using Cons processTransaction_streams [OF _ _ assms(3,4)] streamed_trans by fastforce
  qed simp
  obtain w1 where "mfor (bl_transactions block) (processTransaction sha height bh) w = (Inr (), w1)"
    "w' = w1\<lparr>ws_meta := writeBlock height (bl_timestamp block) bh (rev (bl_prevHash block)) (map tx_id (bl_transactions block)) (ws_meta w1)\<rparr>"
    using assms(1) by (auto simp: processBlock_def mseq_Inr_iff)
  then show ?thesis using txs [of "bl_transactions block" w w1] assms(2) by (simp add: created_def spends_def meta_of_def streamed_def)
qed

text \<open>The blocks of a dump, as the worker decodes them.\<close>

definition collectBlock :: "(bytes \<Rightarrow> error + block) \<Rightarrow> dumped \<Rightarrow> (chain_block list, unit) m" where
  "collectBlock decode b =
     mbind (mlift (decode (db_blockBytes b))) (\<lambda>block. mmod (\<lambda>bs. bs @ [(int (db_height b), db_blockHash b, block)]))"

definition readBlocks :: "(bytes \<Rightarrow> error + block) \<Rightarrow> xdmp_reader \<Rightarrow> (chain_block list, unit) m" where
  "readBlocks decode reader = xdmpBlocks (collectBlock decode) reader"

definition dumpBlocks :: "(bytes \<Rightarrow> error + block) \<Rightarrow> bytes \<Rightarrow> error + chain_block list" where
  "dumpBlocks decode file =
     rbind (XdmpReader file) (\<lambda>r. case readBlocks decode r [] of (Inl e, _) \<Rightarrow> Inl e | (Inr _, bs) \<Rightarrow> Inr bs)"

definition decoder_ok :: "(bytes \<Rightarrow> error + block) \<Rightarrow> bool" where
  "decoder_ok decode \<longleftrightarrow> (\<forall>x block. decode x = Inr block \<longrightarrow> (\<forall>t \<in> set (bl_transactions block). tx_ok t))"

lemma nextBlock_hash: "nextBlock prev r = Inr (b, r') \<Longrightarrow> length (db_blockHash b) = 32"
  by (auto simp: nextBlock_def Let_def RECORD_PREFIX_def split: if_splits)

lemma forBlocks_streams:
  assumes "forBlocks n prev (workBlock sha decode) r w = (Inr (), w')" and "decoder_ok decode" and "\<And>s. length (sha s) = 32"
  shows "\<exists>bs. (\<forall>l. forBlocks n prev (collectBlock decode) r l = (Inr (), l @ bs))
    \<and> streamed (concat (map (created sha) bs)) (concat (map spends bs)) (map meta_of bs) w w'"
  using assms(1)
proof (induction n arbitrary: prev r w)
  case 0
  then show ?case by (intro exI [of _ "[]"]) simp
next
  case (Suc n)
  obtain b r' where b: "nextBlock prev r = Inr (b, r')" using Suc.prems by (cases "nextBlock prev r") auto
  obtain w1 where w1: "workBlock sha decode b w = (Inr (), w1)"
    "forBlocks n (int (db_height b)) (workBlock sha decode) r' w1 = (Inr (), w')"
    using Suc.prems b by (auto simp: mseq_Inr_iff)
  obtain block where d: "decode (db_blockBytes b) = Inr block"
    using w1(1) by (cases "decode (db_blockBytes b)") (auto simp: workBlock_def)
  let ?b = "(int (db_height b), db_blockHash b, block)"
  obtain bs where bs: "\<And>l. forBlocks n (int (db_height b)) (collectBlock decode) r' l = (Inr (), l @ bs)"
    "streamed (concat (map (created sha) bs)) (concat (map spends bs)) (map meta_of bs) w1 w'"
    using Suc.IH [OF w1(2)] by blast
  have "processBlock sha block (int (db_height b)) (db_blockHash b) w = (Inr (), w1)" using w1(1) d by (simp add: workBlock_def)
  then have "streamed (created sha ?b) (spends ?b) [meta_of ?b] w w1"
    using processBlock_streams [OF _ _ nextBlock_hash [OF b] assms(3)] assms(2) d by (auto simp: decoder_ok_def)
  moreover have "collectBlock decode b l = (Inr (), l @ [?b])" for l using d by (simp add: collectBlock_def)
  ultimately show ?case
    using b bs streamed_trans by (intro exI [of _ "?b # bs"]) (fastforce simp: mseq_run)
qed

lemma streamHeader_length: "streamHeader magic c n f l s = Inr h \<Longrightarrow> length h = 64"
  by (auto simp: streamHeader_def rbind_Inr_iff writeUInt32LE_Inr split: option.splits if_splits)

lemma backfill_append: "length h = 64 \<Longrightarrow> backfillRecordCount k (h @ xs) = backfillRecordCount k h @ xs"
  by (simp add: backfillRecordCount_def)

lemma fw_close_file: "\<not> fw_closed w \<Longrightarrow> fw_file (fw_close w) = backfillRecordCount (fw_count w) (content w)"
  by (simp add: fw_close_def fw_flush_def content_def Let_def)

lemma mw_close_file: "\<not> mw_closed w \<Longrightarrow> mw_file (mw_close w) = backfillRecordCount (mw_count w) (meta_content w)"
  by (simp add: mw_close_def mw_flush_def meta_content_def Let_def)

definition stream_of :: "bytes \<Rightarrow> xdmp_reader \<Rightarrow> nat \<Rightarrow> nat \<Rightarrow> bytes \<Rightarrow> bytes \<Rightarrow> bool" where
  "stream_of magic r recordSize count body file \<longleftrightarrow>
     (\<exists>h. streamHeader magic (xr_chain r) (xr_network r) (int (xr_firstHeight r)) (int (xr_lastHeight r)) recordSize = Inr h
       \<and> file = backfillRecordCount count h @ body)"

text \<open>A worker that finishes leaves the headers, with their record counts, and the records of its blocks.\<close>

lemma parseWorker_streams:
  assumes "parseWorker sha decode file = Inr s" and "decoder_ok decode" and "\<And>s. length (sha s) = 32"
  obtains r bs where "XdmpReader file = Inr r" and "dumpBlocks decode file = Inr bs"
    and "stream_of MAGIC_OUTPUTS r OUTPUTS_RECORD_SIZE (length (concat (map (created sha) bs)))
      (concat (map enc_utxo (concat (map (created sha) bs)))) (sm_outputs s)"
    and "stream_of MAGIC_SPENDS r SPENDS_RECORD_SIZE (length (concat (map spends bs)))
      (concat (map enc_spend (concat (map spends bs)))) (sm_spends s)"
    and "stream_of MAGIC_META r 0 (length bs) (concat (map meta_of bs)) (sm_meta s)"
    and "\<forall>u \<in> set (concat (map (created sha) bs)). utxo_ok u"
proof -
  obtain r w0 where r: "XdmpReader file = Inr r" and w0: "openWriters r = Inr w0"
    and run: "(case processBlocks sha decode r w0 of (Inl e, _) \<Rightarrow> Inl e | (Inr _, w) \<Rightarrow> Inr (finishOutputs w)) = Inr s"
    using assms(1) by (auto simp: parseWorker_def rbind_Inr_iff)
  obtain res w where pw: "processBlocks sha decode r w0 = (res, w)" by force
  then have w: "processBlocks sha decode r w0 = (Inr (), w)" "s = finishOutputs w"
    using run by (cases res; simp)+
  obtain oh sh mh where h: "streamHeader MAGIC_OUTPUTS (xr_chain r) (xr_network r) (int (xr_firstHeight r)) (int (xr_lastHeight r)) OUTPUTS_RECORD_SIZE = Inr oh"
    "streamHeader MAGIC_SPENDS (xr_chain r) (xr_network r) (int (xr_firstHeight r)) (int (xr_lastHeight r)) SPENDS_RECORD_SIZE = Inr sh"
    "streamHeader MAGIC_META (xr_chain r) (xr_network r) (int (xr_firstHeight r)) (int (xr_lastHeight r)) 0 = Inr mh"
    and init: "content (ws_outputs w0) = oh" "fw_count (ws_outputs w0) = 0" "\<not> fw_closed (ws_outputs w0)"
      "content (ws_spends w0) = sh" "fw_count (ws_spends w0) = 0" "\<not> fw_closed (ws_spends w0)"
      "meta_content (ws_meta w0) = mh" "mw_count (ws_meta w0) = 0" "\<not> mw_closed (ws_meta w0)"
    using w0 by (auto simp: openWriters_def rbind_Inr_iff FixedRecordWriter_def MetaWriter_def Let_def content_def meta_content_def)
  obtain bs where bs: "readBlocks decode r [] = (Inr (), bs)"
    and st: "streamed (concat (map (created sha) bs)) (concat (map spends bs)) (map meta_of bs) w0 w"
    using forBlocks_streams [OF w(1) [unfolded processBlocks_def xdmpBlocks_def] assms(2,3)]
    unfolding readBlocks_def xdmpBlocks_def by fastforce
  have "dumpBlocks decode file = Inr bs" using r bs by (simp add: dumpBlocks_def)
  moreover have "stream_of MAGIC_OUTPUTS r OUTPUTS_RECORD_SIZE (length (concat (map (created sha) bs)))
      (concat (map enc_utxo (concat (map (created sha) bs)))) (sm_outputs s)"
    using st h(1) init streamHeader_length [OF h(1)]
    by (auto simp: stream_of_def w(2) finishOutputs_def fw_close_file streamed_def backfill_append)
  moreover have "stream_of MAGIC_SPENDS r SPENDS_RECORD_SIZE (length (concat (map spends bs)))
      (concat (map enc_spend (concat (map spends bs)))) (sm_spends s)"
    using st h(2) init streamHeader_length [OF h(2)]
    by (auto simp: stream_of_def w(2) finishOutputs_def fw_close_file streamed_def backfill_append)
  moreover have "stream_of MAGIC_META r 0 (length bs) (concat (map meta_of bs)) (sm_meta s)"
    using st h(3) init streamHeader_length [OF h(3)]
    by (auto simp: stream_of_def w(2) finishOutputs_def mw_close_file streamed_def backfill_append)
  ultimately show ?thesis using that r st by (auto simp: streamed_def)
qed

end
