(* ===== verification/ExternalSort.thy ===== *)
theory ExternalSort
  imports Prelude "HOL-Library.Multiset" "HOL-Library.Product_Lexorder"
begin

text \<open>
  The external sort of bulk sync, \<^verbatim>\<open>src/bulk_sync/merger/external_sort.js\<close>: fixed-size records are
  sorted by a key prefix in runs that fit the memory budget, and the runs are merged with a binary
  min-heap. A file is the list of its bytes; opening, closing and deleting files, the temporary
  directory and the progress callback are left out, and a read never comes back short. The whole
  is shown to be a stable sort of the records by their key.
\<close>

subsection \<open>The heap\<close>

record node =
  nd_key :: bytes
  nd_seq :: nat
  nd_record :: bytes

definition less_node :: "node \<Rightarrow> node \<Rightarrow> bool" where
  "less_node a b = (if nd_key a \<noteq> nd_key b then nd_key a < nd_key b else nd_seq a < nd_seq b)"

definition swap :: "'a list \<Rightarrow> nat \<Rightarrow> nat \<Rightarrow> 'a list" where
  "swap xs i j = xs[i := xs ! j, j := xs ! i]"

function siftUp :: "node list \<Rightarrow> nat \<Rightarrow> node list" where
  "siftUp nodes i =
     (if i > 0 then
        let parent = (i - 1) div 2 in
        if less_node (nodes ! i) (nodes ! parent) then siftUp (swap nodes i parent) parent else nodes
      else nodes)"
  by pat_completeness auto
termination by (relation "measure snd") auto

definition push :: "node \<Rightarrow> node list \<Rightarrow> node list" where
  "push x nodes = siftUp (nodes @ [x]) (length nodes)"

definition smallestChild :: "node list \<Rightarrow> nat \<Rightarrow> nat" where
  "smallestChild nodes i =
     (let n = length nodes; l = 2 * i + 1; r = 2 * i + 2;
          s1 = (if l < n \<and> less_node (nodes ! l) (nodes ! i) then l else i) in
      if r < n \<and> less_node (nodes ! r) (nodes ! s1) then r else s1)"

lemma smallestChild_cases:
  "smallestChild nodes i = i \<or> (smallestChild nodes i < length nodes \<and> (smallestChild nodes i = 2 * i + 1 \<or> smallestChild nodes i = 2 * i + 2))"
  by (simp add: smallestChild_def Let_def)

lemma length_swap [simp]: "length (swap xs i j) = length xs"
  by (simp add: swap_def)

function siftDown :: "node list \<Rightarrow> nat \<Rightarrow> node list" where
  "siftDown nodes i =
     (let smallest = smallestChild nodes i in
      if smallest = i then nodes else siftDown (swap nodes i smallest) smallest)"
  by pat_completeness auto
termination
proof (relation "measure (\<lambda>(nodes, i). length nodes - i)")
  fix nodes i s
  assume "s = smallestChild nodes i" "s \<noteq> i"
  then show "((swap nodes i s, s), (nodes, i)) \<in> measure (\<lambda>(nodes, i). length nodes - i)"
    using smallestChild_cases [of nodes i] by auto
qed simp

declare siftUp.simps [simp del] siftDown.simps [simp del]

definition pop :: "node list \<Rightarrow> (node \<times> node list) option" where
  "pop nodes =
     (if nodes = [] then None
      else
        let tp = nodes ! 0; lst = last nodes; nodes' = butlast nodes in
        Some (tp, if length nodes' > 0 then siftDown (nodes'[0 := lst]) 0 else nodes'))"

subsection \<open>The heap keeps its order\<close>

definition val :: "node \<Rightarrow> bytes \<times> nat" where
  "val a = (nd_key a, nd_seq a)"

lemma less_node_val: "less_node a b \<longleftrightarrow> val a < val b"
  by (auto simp: less_node_def val_def less_prod_def)

abbreviation parent :: "nat \<Rightarrow> nat" where
  "parent j \<equiv> (j - 1) div 2"

lemma parent_less: "0 < j \<Longrightarrow> parent j < j"
  by presburger

definition heap_but :: "nat set \<Rightarrow> node list \<Rightarrow> bool" where
  "heap_but X ns \<longleftrightarrow> (\<forall>j. 0 < j \<and> j < length ns \<and> j \<notin> X \<longrightarrow> val (ns ! parent j) \<le> val (ns ! j))"

lemma mset_swap': "i < length xs \<Longrightarrow> j < length xs \<Longrightarrow> mset (swap xs i j) = mset xs"
  by (simp add: swap_def mset_swap)

lemma nth_swap: "i < length xs \<Longrightarrow> j < length xs \<Longrightarrow> k < length xs \<Longrightarrow>
    swap xs i j ! k = (if k = j then xs ! i else if k = i then xs ! j else xs ! k)"
  by (simp add: swap_def nth_list_update)

text \<open>Sifting up repairs the one place where the order may fail, below a parent that fits its grandchildren.\<close>

lemma siftUp_heap:
  assumes "i < length ns" and "heap_but {i} ns"
    and "\<And>c. 0 < i \<Longrightarrow> c < length ns \<Longrightarrow> 0 < c \<Longrightarrow> parent c = i \<Longrightarrow> val (ns ! parent i) \<le> val (ns ! c)"
  shows "heap_but {} (siftUp ns i) \<and> mset (siftUp ns i) = mset ns"
  using assms
proof (induction ns i rule: siftUp.induct)
  case (1 ns i)
  show ?case
  proof (cases "0 < i \<and> less_node (ns ! i) (ns ! parent i)")
    case False
    then have "siftUp ns i = ns" by (subst siftUp.simps) (auto simp: Let_def)
    moreover have "heap_but {} ns"
      using False 1(3) unfolding heap_but_def less_node_val by (metis empty_iff not_less singletonD)
    ultimately show ?thesis by simp
  next
    case True
    let ?p = "parent i" and ?ns = "swap ns i (parent i)"
    have i: "0 < i" and lt: "val (ns ! i) < val (ns ! ?p)" using True by (simp_all add: less_node_val)
    have p: "?p < i" "?p < length ns" using i 1(2) by auto
    have s: "siftUp ns i = siftUp ?ns ?p" using True by (subst siftUp.simps) (simp add: Let_def)
    have n: "?ns ! k = (if k = ?p then ns ! i else if k = i then ns ! ?p else ns ! k)" if "k < length ns" for k
      using nth_swap [OF 1(2) p(2) that] .
    have h: "heap_but {?p} ?ns"
      unfolding heap_but_def
    proof (intro allI impI)
      fix j assume j: "0 < j \<and> j < length ?ns \<and> j \<notin> {?p}"
      then have jl: "j < length ns" "parent j < length ns" "0 < j" "j \<noteq> ?p" by auto
      have o: "j \<noteq> i \<Longrightarrow> val (ns ! parent j) \<le> val (ns ! j)" using 1(3) jl by (auto simp: heap_but_def)
      show "val (?ns ! parent j) \<le> val (?ns ! j)"
      proof (cases "j = i")
        case True
        then show ?thesis using n [OF jl(1)] n [OF jl(2)] lt p(1) by (simp add: less_imp_le)
      next
        case False
        note o = o [OF False]
        consider "parent j = ?p" | "parent j = i" | "parent j \<noteq> ?p" "parent j \<noteq> i" by blast
        then show ?thesis
        proof cases
          case 1
          then show ?thesis using n [OF jl(1)] n [OF jl(2)] o lt False jl(4) by simp
        next
          case 2
          then have "val (ns ! ?p) \<le> val (ns ! j)" using "1.prems"(3) [OF i jl(1) jl(3)] by simp
          then show ?thesis using 2 n [OF jl(1)] n [OF jl(2)] False jl(4) p(1) by simp
        next
          case 3
          then show ?thesis using n [OF jl(1)] n [OF jl(2)] o False jl(4) by simp
        qed
      qed
    qed
    have g: "val (?ns ! parent ?p) \<le> val (?ns ! c)" if c: "0 < ?p" "c < length ?ns" "0 < c" "parent c = ?p" for c
    proof -
      have "parent ?p < ?p" using c(1) by (rule parent_less)
      then have cl: "c < length ns" "parent ?p < length ns" "parent ?p < ?p" using c(2) p(2) by simp_all
      have up: "val (ns ! parent ?p) \<le> val (ns ! ?p)" using 1(3) c(1) p by (auto simp: heap_but_def)
      have "c \<noteq> ?p" using c(3,4) by auto
      moreover have "c \<noteq> i \<Longrightarrow> val (ns ! ?p) \<le> val (ns ! c)" using 1(3) c by (auto simp: heap_but_def)
      ultimately show ?thesis using n [OF cl(1)] n [OF cl(2)] up cl(3) p(1) by (cases "c = i") auto
    qed
    have "heap_but {} (siftUp ?ns ?p) \<and> mset (siftUp ?ns ?p) = mset ?ns"
      by (rule "1.IH" [OF i refl _ _ h g]) (use True p(2) in simp_all)
    then show ?thesis using s mset_swap' [OF 1(2) p(2)] by simp
  qed
qed

lemma push_heap:
  assumes "heap_but {} ns"
  shows "heap_but {} (push x ns) \<and> mset (push x ns) = add_mset x (mset ns)"
proof -
  have "heap_but {length ns} (ns @ [x])"
    using assms by (auto simp: heap_but_def nth_append)
  moreover have "\<not> (0 < c \<and> c < length (ns @ [x]) \<and> parent c = length ns \<and> 0 < length ns)" for c by auto
  ultimately show ?thesis
    unfolding push_def using siftUp_heap [of "length ns" "ns @ [x]"] by auto
qed

text \<open>Sifting down repairs the order below one place.\<close>

lemma smallestChild_min:
  assumes "i < length ns"
  shows "val (ns ! smallestChild ns i) \<le> val (ns ! i)"
    and "\<And>c. c < length ns \<Longrightarrow> c = 2 * i + 1 \<or> c = 2 * i + 2 \<Longrightarrow> val (ns ! smallestChild ns i) \<le> val (ns ! c)"
    and "smallestChild ns i \<noteq> i \<Longrightarrow> val (ns ! smallestChild ns i) < val (ns ! i)"
  by (auto simp: smallestChild_def Let_def less_node_val split: if_splits)

lemma parent_child: "0 < c \<Longrightarrow> parent c = i \<longleftrightarrow> c = 2 * i + 1 \<or> c = 2 * i + 2"
  by presburger

lemma siftDown_heap:
  assumes "i < length ns" and "\<And>j. 0 < j \<Longrightarrow> j < length ns \<Longrightarrow> parent j \<noteq> i \<Longrightarrow> val (ns ! parent j) \<le> val (ns ! j)"
    and "\<And>c. 0 < i \<Longrightarrow> c < length ns \<Longrightarrow> 0 < c \<Longrightarrow> parent c = i \<Longrightarrow> val (ns ! parent i) \<le> val (ns ! c)"
  shows "heap_but {} (siftDown ns i) \<and> mset (siftDown ns i) = mset ns"
  using assms
proof (induction ns i rule: siftDown.induct)
  case (1 ns i)
  let ?s = "smallestChild ns i"
  note m = smallestChild_min [OF 1(2)]
  show ?case
  proof (cases "?s = i")
    case True
    then have "siftDown ns i = ns" by (subst siftDown.simps) simp
    moreover have "heap_but {} ns"
      using 1(3) m(2) True unfolding heap_but_def by (metis parent_child)
    ultimately show ?thesis by simp
  next
    case False
    let ?ns = "swap ns i ?s"
    have sc: "?s < length ns" "?s = 2 * i + 1 \<or> ?s = 2 * i + 2" using False smallestChild_cases [of ns i] by auto
    have sp: "0 < ?s" "parent ?s = i" "i < ?s" using sc(2) by auto
    have s: "siftDown ns i = siftDown ?ns ?s" using False by (subst siftDown.simps) (simp add: Let_def)
    have n: "?ns ! k = (if k = ?s then ns ! i else if k = i then ns ! ?s else ns ! k)" if "k < length ns" for k
      using nth_swap [OF 1(2) sc(1) that] .
    have h: "val (?ns ! parent j) \<le> val (?ns ! j)" if j: "0 < j" "j < length ?ns" "parent j \<noteq> ?s" for j
    proof -
      have jl: "j < length ns" "parent j < length ns" using j parent_less [of j] by simp_all
      consider "j = ?s" | "j \<noteq> ?s" "parent j = i" | "j = i" | "j \<noteq> ?s" "parent j \<noteq> i" "j \<noteq> i" by blast
      then show ?thesis
      proof cases
        case 1
        then show ?thesis using n [OF jl(1)] n [OF jl(2)] sp m(1) by simp
      next
        case 2
        then have "val (ns ! ?s) \<le> val (ns ! j)" using m(2) jl(1) parent_child [OF j(1)] by metis
        moreover have "j \<noteq> i" using 2(2) parent_less [OF j(1)] by auto
        ultimately show ?thesis using n [OF jl(1)] n [OF jl(2)] 2 sp(3) by simp
      next
        case 3
        have "val (ns ! parent i) \<le> val (ns ! ?s)" using 3 j(1) sc(1) sp by (intro "1.prems"(3)) auto
        then show ?thesis using n [OF jl(1)] n [OF jl(2)] 3 j(3) sp parent_less [OF j(1)] by simp
      next
        case 4
        then show ?thesis using n [OF jl(1)] n [OF jl(2)] "1.prems"(2) [OF j(1) jl(1)] j(3) by simp
      qed
    qed
    have g: "val (?ns ! parent ?s) \<le> val (?ns ! c)" if c: "c < length ?ns" "0 < c" "parent c = ?s" for c
    proof -
      have cl: "c < length ns" "c \<noteq> ?s" "c \<noteq> i" "i < length ns" using c parent_less [OF c(2)] sp 1(2) by auto
      have "val (ns ! ?s) \<le> val (ns ! c)" using "1.prems"(2) [OF c(2) cl(1)] c(3) sp(3) by simp
      then show ?thesis using n [OF cl(1)] n [OF cl(4)] sp cl by simp
    qed
    have "heap_but {} (siftDown ?ns ?s) \<and> mset (siftDown ?ns ?s) = mset ?ns"
      by (rule "1.IH" [OF refl False _ h]) (use sc(1) g in simp_all)
    then show ?thesis using s mset_swap' [OF 1(2) sc(1)] by simp
  qed
qed

lemma root_min: "heap_but {} ns \<Longrightarrow> i < length ns \<Longrightarrow> val (ns ! 0) \<le> val (ns ! i)"
proof (induction i rule: less_induct)
  case (less i)
  show ?case
  proof (cases "i = 0")
    case False
    then have "val (ns ! parent i) \<le> val (ns ! i)" "parent i < i" using less.prems parent_less [of i] by (auto simp: heap_but_def)
    then show ?thesis using less.IH [of "parent i"] less.prems by (meson order.strict_trans order.trans)
  qed simp
qed

lemma pop_heap:
  assumes "heap_but {} ns" and "ns \<noteq> []"
  obtains top ns' where "pop ns = Some (top, ns')" and "heap_but {} ns'" and "mset ns = add_mset top (mset ns')"
    and "\<And>x. x \<in> set ns \<Longrightarrow> val top \<le> val x"
proof -
  let ?b = "butlast ns"
  let ?ns' = "if length ?b > 0 then siftDown (?b[0 := last ns]) 0 else ?b"
  have p: "pop ns = Some (ns ! 0, ?ns')" by (simp only: pop_def Let_def assms(2) if_False)
  have min: "val (ns ! 0) \<le> val x" if "x \<in> set ns" for x
    using that root_min [OF assms(1)] by (auto simp: in_set_conv_nth)
  show ?thesis
  proof (cases "?b = []")
    case True
    then obtain x where "ns = [x]" using assms(2) by (metis append_butlast_last_id append_Nil)
    then show ?thesis using that [OF p] min True by (simp add: heap_but_def)
  next
    case False
    let ?c = "?b[0 := last ns]"
    have bl: "0 < length ?b" using False by (simp only: length_greater_0_conv not_False_eq_True)
    have c: "val (?c ! parent j) \<le> val (?c ! j)" if "0 < j" "j < length ?c" "parent j \<noteq> 0" for j
      using that assms(1) parent_less [OF that(1)] by (simp add: heap_but_def nth_butlast)
    have h: "heap_but {} (siftDown ?c 0) \<and> mset (siftDown ?c 0) = mset ?c"
      using bl c by (intro siftDown_heap) auto
    obtain x b where b: "?b = x # b" using False by (cases ?b) auto
    have x: "ns ! 0 = x" using b by (metis bl(1) nth_Cons_0 nth_butlast)
    have "mset ns = mset (?b @ [last ns])" using assms(2) by simp
    also have "\<dots> = add_mset (ns ! 0) (mset ?c)" unfolding x b by simp
    finally have m: "mset ns = add_mset (ns ! 0) (mset ?c)" .
    have n: "?ns' = siftDown ?c 0" using bl by (simp only: if_True)
    show ?thesis
      by (rule that [OF p]) (use h m min in \<open>simp_all only: n\<close>)
  qed
qed

subsection \<open>Options and runs\<close>

record sort_options =
  so_headerSize :: nat
  so_recordSize :: int
  so_keySize :: int
  so_ramBudgetBytes :: nat
  so_preserveHeader :: bool

text \<open>A missing RAM budget, like a zero one, becomes one GiB.\<close>

definition resolveSortOptions :: "sort_options \<Rightarrow> error + sort_options" where
  "resolveSortOptions o1 =
     (if so_recordSize o1 \<le> 0 then Inl (BadConfig ''externalSort: recordSize must be a positive integer'')
      else if so_keySize o1 \<le> 0 \<or> so_keySize o1 > so_recordSize o1
      then Inl (BadConfig ''externalSort: keySize must satisfy 0 < keySize <= recordSize'')
      else Inr (o1\<lparr>so_ramBudgetBytes := (if so_ramBudgetBytes o1 = 0 then 1024 * 1024 * 1024 else so_ramBudgetBytes o1)\<rparr>))"

definition MAX_RECORDS_PER_RUN :: nat where
  "MAX_RECORDS_PER_RUN = 67108864"

definition planRuns :: "sort_options \<Rightarrow> bytes \<Rightarrow> error + (nat \<times> nat)" where
  "planRuns o1 inFile =
     (let dataBytes = int (length inFile) - int (so_headerSize o1); recordSize = so_recordSize o1 in
      if dataBytes < 0 \<or> dataBytes mod recordSize \<noteq> 0
      then Inl (BadConfig ''externalSort: input data is not a multiple of recordSize'')
      else Inr (nat (dataBytes div recordSize),
                max 1 (min (so_ramBudgetBytes o1 div nat recordSize) MAX_RECORDS_PER_RUN)))"

text \<open>Array.prototype.sort is stable, and Buffer.compare is the bytewise lexicographic order.\<close>

definition sortedIndices :: "bytes \<Rightarrow> nat \<Rightarrow> nat \<Rightarrow> nat \<Rightarrow> nat list" where
  "sortedIndices bigBuf wantRecords recordSize keySize =
     sort_key (\<lambda>a. slice (a * recordSize) (a * recordSize + keySize) bigBuf) [0..<wantRecords]"

text \<open>A writer that collects \<open>cap\<close> records before it writes them: what is in the file, and what is pending.\<close>

definition emit :: "nat \<Rightarrow> bytes \<Rightarrow> bytes \<times> bytes list \<Rightarrow> bytes \<times> bytes list" where
  "emit cap rec w = (case w of (file, pending) \<Rightarrow>
     if length (pending @ [rec]) = cap then (file @ concat (pending @ [rec]), []) else (file, pending @ [rec]))"

definition flushed :: "bytes \<times> bytes list \<Rightarrow> bytes" where
  "flushed w = (case w of (file, pending) \<Rightarrow> file @ concat pending)"

definition flushCap :: "nat \<Rightarrow> nat" where
  "flushCap recordSize = max 1 (256 * 1024 div recordSize)"

definition writeRun :: "bytes \<Rightarrow> nat list \<Rightarrow> nat \<Rightarrow> bytes" where
  "writeRun bigBuf indices recordSize =
     flushed (fold (\<lambda>i. emit (flushCap recordSize) (slice (i * recordSize) (i * recordSize + recordSize) bigBuf)) indices ([], []))"

text \<open>
  The runs from \<open>position\<close> on. A chunk is never empty, for a record has at least one byte; the test
  for an empty chunk is there to make the recursion well-founded.
\<close>

function createSortedRuns :: "nat \<Rightarrow> nat \<Rightarrow> nat \<Rightarrow> bytes \<Rightarrow> nat \<Rightarrow> bytes list" where
  "createSortedRuns recordSize keySize recordsPerRun inFile position =
     (let wantBytes = min (length inFile - position) (recordsPerRun * recordSize) in
      if position \<ge> length inFile \<or> wantBytes = 0 then []
      else
        let bigBuf = slice position (position + wantBytes) inFile; wantRecords = wantBytes div recordSize in
        writeRun bigBuf (sortedIndices bigBuf wantRecords recordSize keySize) recordSize
        # createSortedRuns recordSize keySize recordsPerRun inFile (position + wantBytes))"
  by pat_completeness auto
termination by (relation "measure (\<lambda>(_, _, _, f, p). length f - p)") (auto simp: min_def intro!: diff_less_mono2)

declare createSortedRuns.simps [simp del]

subsection \<open>The merge\<close>

record merge =
  mg_pos :: "nat list"
  mg_heap :: "node list"
  mg_out :: "bytes \<times> bytes list"
  mg_emitted :: nat

definition readOne :: "bytes list \<Rightarrow> nat \<Rightarrow> nat \<Rightarrow> merge \<Rightarrow> bytes option \<times> merge" where
  "readOne runs recordSize runIdx g =
     (let pos = mg_pos g ! runIdx in
      if pos \<ge> length (runs ! runIdx) then (None, g)
      else (Some (slice pos (pos + recordSize) (runs ! runIdx)), g\<lparr>mg_pos := (mg_pos g)[runIdx := pos + recordSize]\<rparr>))"

definition readAndPush :: "bytes list \<Rightarrow> nat \<Rightarrow> nat \<Rightarrow> nat \<Rightarrow> merge \<Rightarrow> merge" where
  "readAndPush runs recordSize keySize runIdx g = (case readOne runs recordSize runIdx g of
     (None, g') \<Rightarrow> g'
   | (Some rec, g') \<Rightarrow>
       g'\<lparr>mg_heap := push \<lparr>nd_key = take keySize rec, nd_seq = runIdx, nd_record = rec\<rparr> (mg_heap g')\<rparr>)"

text \<open>The loop \<open>while (heap.size > 0)\<close>, with fuel; \<open>None\<close> is out of fuel.\<close>

fun mergeLoop :: "nat \<Rightarrow> bytes list \<Rightarrow> nat \<Rightarrow> nat \<Rightarrow> merge \<Rightarrow> merge option" where
  "mergeLoop fuel runs recordSize keySize g = (case pop (mg_heap g) of
     None \<Rightarrow> Some g
   | Some (tp, heap') \<Rightarrow>
       (case fuel of 0 \<Rightarrow> None
        | Suc k \<Rightarrow>
            mergeLoop k runs recordSize keySize
              (readAndPush runs recordSize keySize (nd_seq tp)
                (g\<lparr>mg_heap := heap', mg_out := emit (flushCap recordSize) (nd_record tp) (mg_out g),
                   mg_emitted := mg_emitted g + 1\<rparr>))))"

declare mergeLoop.simps [simp del]

definition mergeRuns :: "bytes list \<Rightarrow> nat \<Rightarrow> nat \<Rightarrow> nat \<Rightarrow> (error + bytes) option" where
  "mergeRuns runs recordSize keySize totalRecords =
     (let g0 = \<lparr>mg_pos = replicate (length runs) 0, mg_heap = [], mg_out = ([], []), mg_emitted = 0\<rparr>;
          g1 = fold (readAndPush runs recordSize keySize) [0..<length runs] g0 in
      case mergeLoop totalRecords runs recordSize keySize g1 of
        None \<Rightarrow> None
      | Some g \<Rightarrow> Some (if mg_emitted g \<noteq> totalRecords then Inl (BadConfig ''merge emitted records, expected more'')
                       else Inr (flushed (mg_out g))))"

definition externalSort :: "sort_options \<Rightarrow> bytes \<Rightarrow> (error + bytes) option" where
  "externalSort opts inFile =
     (case resolveSortOptions opts of
        Inl e \<Rightarrow> Some (Inl e)
      | Inr o1 \<Rightarrow> (case planRuns o1 inFile of
          Inl e \<Rightarrow> Some (Inl e)
        | Inr (totalRecords, recordsPerRun) \<Rightarrow>
            let recordSize = nat (so_recordSize o1); keySize = nat (so_keySize o1);
                runs = createSortedRuns recordSize keySize recordsPerRun inFile (so_headerSize o1) in
            map_option (\<lambda>r. rbind r (\<lambda>body.
                Inr ((if so_preserveHeader o1 then take (so_headerSize o1) inFile else []) @ body)))
              (mergeRuns runs recordSize keySize totalRecords)))"

subsection \<open>Writers write everything\<close>

lemma flushed_emit [simp]: "flushed (emit cap r w) = flushed w @ r"
  by (cases w) (simp add: flushed_def emit_def)

lemma flushed_fold: "flushed (fold (\<lambda>x. emit cap (f x)) xs w) = flushed w @ concat (map f xs)"
  by (induction xs arbitrary: w) simp_all

lemma writeRun_records:
  "writeRun bigBuf indices n = concat (map (\<lambda>i. slice (i * n) (i * n + n) bigBuf) indices)"
  unfolding writeRun_def by (simp add: flushed_fold) (simp add: flushed_def)

subsection \<open>Records of a file\<close>

text \<open>The records of a byte string, \<open>n\<close> bytes each.\<close>

function records :: "nat \<Rightarrow> bytes \<Rightarrow> bytes list" where
  "records n xs = (if n = 0 \<or> xs = [] then [] else take n xs # records n (drop n xs))"
  by pat_completeness auto
termination by (relation "measure (\<lambda>(n, xs). length xs)") auto

declare records.simps [simp del]

lemma records_Nil [simp]: "records n [] = []"
  by (simp add: records.simps)

lemma records_step: "n > 0 \<Longrightarrow> xs \<noteq> [] \<Longrightarrow> records n xs = take n xs # records n (drop n xs)"
  by (simp add: records.simps [of n xs])

lemma records_Cons [simp]: "length r = n \<Longrightarrow> n > 0 \<Longrightarrow> records n (r @ xs) = r # records n xs"
  by (subst records_step) auto

lemma records_concat: "n > 0 \<Longrightarrow> \<forall>r \<in> set rs. length r = n \<Longrightarrow> records n (concat rs) = rs"
  by (induction rs) auto

text \<open>A byte string of whole records is taken apart record by record.\<close>

lemma whole_induct [consumes 2, case_names Nil Cons]:
  assumes "n > 0" and "n dvd length xs" and "P []" and "\<And>r ys. length r = n \<Longrightarrow> n dvd length ys \<Longrightarrow> P ys \<Longrightarrow> P (r @ ys)"
  shows "P xs"
  using assms(2)
proof (induction "length xs" arbitrary: xs rule: less_induct)
  case less
  show ?case
  proof (cases "xs = []")
    case False
    then have n: "n \<le> length xs" using less.prems assms(1) by (auto dest: dvd_imp_le)
    then have "n dvd length (drop n xs)" using less.prems by simp
    moreover have "P (drop n xs)" using calculation n assms(1) by (intro less.hyps) simp_all
    ultimately have "P (take n xs @ drop n xs)" using n by (intro assms(4)) simp_all
    then show ?thesis by simp
  qed (simp add: assms(3))
qed

lemma records_all: "n > 0 \<Longrightarrow> n dvd length xs \<Longrightarrow> concat (records n xs) = xs \<and> (\<forall>r \<in> set (records n xs). length r = n)"
proof (induction xs rule: whole_induct)
  case (Cons r ys)
  then show ?case by (cases "n = 0") auto
qed simp

lemma records_append: "n > 0 \<Longrightarrow> n dvd length xs \<Longrightarrow> records n (xs @ ys) = records n xs @ records n ys"
proof (induction xs rule: whole_induct)
  case (Cons r zs)
  then show ?case by (cases "n = 0") auto
qed simp

lemma records_slices: "n > 0 \<Longrightarrow> length xs = k * n \<Longrightarrow> records n xs = map (\<lambda>i. slice (i * n) (i * n + n) xs) [0..<k]"
proof (induction k arbitrary: xs)
  case (Suc k)
  have "records n (drop n xs) = map (\<lambda>i. slice (i * n) (i * n + n) (drop n xs)) [0..<k]"
    using Suc by (intro Suc.IH) simp_all
  moreover have "slice (i * n) (i * n + n) (drop n xs) = slice (Suc i * n) (Suc i * n + n) xs" for i
    by (simp add: slice_def add.commute)
  ultimately have "records n xs = slice 0 n xs # map (\<lambda>i. slice (Suc i * n) (Suc i * n + n) xs) [0..<k]"
    using Suc.prems records_step [of n xs] by (cases "xs = []") (auto simp: slice_def)
  also have "\<dots> = map (\<lambda>i. slice (i * n) (i * n + n) xs) [0..<Suc k]"
    by (simp add: upt_conv_Cons map_Suc_upt [symmetric] comp_def del: upt_Suc)
  finally show ?case .
qed simp

lemma map_sort_key: "map f (sort_key (\<lambda>x. g (f x)) xs) = sort_key g (map f xs)"
proof -
  have "map f (insort_key (\<lambda>x. g (f x)) y ys) = insort_key g (f y) (map f ys)" for y ys
    by (induction ys) auto
  then show ?thesis by (induction xs) simp_all
qed

text \<open>A run holds the records of its chunk in stable key order.\<close>

lemma run_sorted:
  assumes "n > 0" and "ks \<le> n" and "length buf = k * n"
  shows "writeRun buf (sortedIndices buf k n ks) n = concat (sort_key (take ks) (records n buf))"
proof -
  let ?f = "\<lambda>i. slice (i * n) (i * n + n) buf"
  have "take ks (?f i) = slice (i * n) (i * n + ks) buf" for i
    using assms(2) by (simp add: slice_def min_def)
  then have "map ?f (sort_key (\<lambda>a. slice (a * n) (a * n + ks) buf) [0..<k]) = sort_key (take ks) (map ?f [0..<k])"
    using map_sort_key [of ?f "take ks"] by simp
  then show ?thesis using records_slices [OF assms(1,3)] by (simp add: writeRun_records sortedIndices_def)
qed

subsection \<open>Merging sorted runs with a priority queue\<close>

text \<open>
  What the merge relies on: a priority queue that holds a multiset and gives up an element of least
  rank. \<open>fronts mk L\<close> are the entries of the non-empty lists of \<open>L\<close>, each made of the first element
  and the number of its list.
\<close>

locale min_queue =
  fixes invar :: "'q \<Rightarrow> bool" and content :: "'q \<Rightarrow> 'a multiset" and ins :: "'a \<Rightarrow> 'q \<Rightarrow> 'q"
    and del_min :: "'q \<Rightarrow> ('a \<times> 'q) option" and rank :: "'a \<Rightarrow> 'r :: linorder"
  assumes invar_ins: "invar q \<Longrightarrow> invar (ins x q)"
    and content_ins: "invar q \<Longrightarrow> content (ins x q) = add_mset x (content q)"
    and del_empty: "invar q \<Longrightarrow> content q = {#} \<Longrightarrow> del_min q = None"
    and del_min: "invar q \<Longrightarrow> content q \<noteq> {#} \<Longrightarrow> \<exists>x q'. del_min q = Some (x, q') \<and> invar q'
        \<and> content q = add_mset x (content q') \<and> (\<forall>y \<in># content q. rank x \<le> rank y)"

definition front :: "('x \<Rightarrow> nat \<Rightarrow> 'a) \<Rightarrow> nat \<Rightarrow> 'x list \<Rightarrow> 'a multiset" where
  "front mk i xs = (case xs of [] \<Rightarrow> {#} | x # _ \<Rightarrow> {#mk x i#})"

definition fronts :: "('x \<Rightarrow> nat \<Rightarrow> 'a) \<Rightarrow> 'x list list \<Rightarrow> 'a multiset" where
  "fronts mk L = (\<Sum>i<length L. front mk i (L ! i))"

lemma front_simps [simp]: "front mk i [] = {#}" "front mk i (x # xs) = {#mk x i#}"
  by (simp_all add: front_def)

lemma fronts_update: "i < length L \<Longrightarrow> fronts mk (L[i := xs]) + front mk i (L ! i) = fronts mk L + front mk i xs"
proof -
  assume i: "i < length L"
  have "(\<Sum>j<length L. front mk j (L[i := xs] ! j)) = front mk i xs + (\<Sum>j\<in>{..<length L} - {i}. front mk j (L ! j))"
    using i by (subst sum.remove [of _ i]) (auto intro!: sum.cong)
  moreover have "(\<Sum>j<length L. front mk j (L ! j)) = front mk i (L ! i) + (\<Sum>j\<in>{..<length L} - {i}. front mk j (L ! j))"
    using i by (subst sum.remove [of _ i]) auto
  ultimately show ?thesis by (simp add: fronts_def ac_simps)
qed

lemma in_fronts: "y \<in># fronts mk L \<longleftrightarrow> (\<exists>i < length L. \<exists>x xs. L ! i = x # xs \<and> y = mk x i)"
proof -
  have "y \<in># front mk i l \<longleftrightarrow> (\<exists>x xs. l = x # xs \<and> y = mk x i)" for i l by (cases l) auto
  then show ?thesis by (auto simp: fronts_def set_mset_sum)
qed

lemma fronts_empty: "concat L = [] \<Longrightarrow> fronts mk L = {#}"
proof -
  assume e: "concat L = []"
  then have "front mk i (L ! i) = {#}" if "i < length L" for i
    using that unfolding concat_eq_Nil_conv by (metis front_simps(1) nth_mem)
  then show ?thesis by (simp add: fronts_def)
qed

lemma sort_key_step:
  assumes "\<And>a. a \<in> set as \<Longrightarrow> f x < f a" and "\<And>b. b \<in> set bs \<Longrightarrow> f x \<le> f b"
  shows "sort_key f (as @ x # bs) = x # sort_key f (as @ bs)"
proof (rule properties_for_sort_key)
  show "sorted (map f (x # sort_key f (as @ bs)))" using assms by (auto simp: less_imp_le)
  fix k assume "k \<in> set (x # sort_key f (as @ bs))"
  have "filter (\<lambda>a. f k = f a) (sort_key f (as @ bs)) = filter (\<lambda>a. f k = f a) (as @ bs)"
    using sort_key_stable [of f "f k" "as @ bs"] by (simp add: eq_commute)
  moreover have "f k = f x \<Longrightarrow> filter (\<lambda>a. f k = f a) as = []" using assms(1) by (force simp: filter_empty_conv)
  ultimately show "filter (\<lambda>a. f k = f a) (x # sort_key f (as @ bs)) = filter (\<lambda>a. f k = f a) (as @ x # bs)" by auto
qed simp

lemma concat_at: "i < length L \<Longrightarrow> concat (L[i := xs]) = concat (take i L) @ xs @ concat (drop (Suc i) L)"
  by (simp add: upd_conv_take_nth_drop)

context min_queue
begin

text \<open>
  The queue over the fronts of sorted lists gives up the first element of the stable sort of them
  all, and with the next element of that list put back it holds the fronts of what is left.
\<close>

lemma next_element:
  assumes "invar q" and "content q = fronts mk L" and "\<And>l. l \<in> set L \<Longrightarrow> sorted (map key l)"
    and "\<And>x i z j. rank (mk x i) \<le> rank (mk z j) \<longleftrightarrow> (key x, i) \<le> (key z, j)" and "concat L \<noteq> []"
  obtains i x xs q' where "i < length L" and "L ! i = x # xs" and "del_min q = Some (mk x i, q')" and "invar q'"
    and "sort_key key (concat L) = x # sort_key key (concat (L[i := xs]))"
    and "content q' + front mk i xs = fronts mk (L[i := xs])"
proof -
  have "fronts mk L \<noteq> {#}"
  proof -
    obtain l where "l \<in> set L" "l \<noteq> []" using assms(5) by auto
    then obtain j where "j < length L" "L ! j \<noteq> []" by (metis in_set_conv_nth)
    then have "mk (hd (L ! j)) j \<in># fronts mk L" unfolding in_fronts by (metis list.collapse)
    then show ?thesis by auto
  qed
  then obtain y q' where y: "del_min q = Some (y, q')" "invar q'" "content q = add_mset y (content q')"
      "\<forall>z \<in># content q. rank y \<le> rank z"
    using del_min [OF assms(1)] assms(2) by auto
  then have "y \<in># fronts mk L" using assms(2) by simp
  then obtain i x xs where i: "i < length L" "L ! i = x # xs" "y = mk x i" unfolding in_fronts by blast
  have least: "(key x, i) \<le> (key z, j)" if j: "j < length L" and z: "z \<in> set (L ! j)" for j z
  proof -
    obtain w ws where w: "L ! j = w # ws" using z by (cases "L ! j") auto
    have "(key x, i) \<le> (key w, j)"
      using y(4) assms(2,4) i(3) w j in_fronts [of "mk w j" mk L] by metis
    moreover have "key w \<le> key z" using assms(3) [OF nth_mem [OF j]] z w by auto
    ultimately show ?thesis by (auto simp: less_eq_prod_def)
  qed
  have l: "concat L = concat (take i L) @ x # xs @ concat (drop (Suc i) L)"
    using concat_at [OF i(1), of "x # xs"] list_update_id [of L i] unfolding i(2) by simp
  have "sort_key key (concat L) = x # sort_key key (concat (take i L) @ xs @ concat (drop (Suc i) L))"
    unfolding l
  proof (rule sort_key_step)
    fix a assume "a \<in> set (concat (take i L))"
    then obtain l where l: "l \<in> set (take i L)" "a \<in> set l" by auto
    then obtain j where "j < i" "a \<in> set (L ! j)" unfolding in_set_conv_nth [of l] by auto
    then show "key x < key a" using least [of j a] i(1) by (auto simp: less_eq_prod_def)
  next
    fix b assume b: "b \<in> set (xs @ concat (drop (Suc i) L))"
    show "key x \<le> key b"
    proof (cases "b \<in> set xs")
      case True
      then show ?thesis using least [of i b] i by (auto simp: less_eq_prod_def)
    next
      case False
      then obtain l where "l \<in> set (drop (Suc i) L)" "b \<in> set l" using b by auto
      then obtain j where "j < length L" "b \<in> set (L ! j)" by (metis in_set_conv_nth in_set_dropD)
      then show ?thesis using least [of j b] by (auto simp: less_eq_prod_def)
    qed
  qed
  moreover have "content q' + front mk i xs = fronts mk (L[i := xs])"
    using fronts_update [OF i(1), of mk xs] y(3) assms(2) i(2,3) by simp
  ultimately show ?thesis using that i y(1,2) concat_at [OF i(1), of xs] by simp
qed

end

interpretation heap: min_queue "heap_but {}" mset push pop val
proof
  fix q :: "node list" and x
  assume q: "heap_but {} q"
  show "heap_but {} (push x q)" "mset (push x q) = add_mset x (mset q)" using push_heap [OF q] by simp_all
  show "mset q = {#} \<Longrightarrow> pop q = None" by (simp add: pop_def)
  assume "mset q \<noteq> {#}"
  then show "\<exists>x q'. pop q = Some (x, q') \<and> heap_but {} q' \<and> mset q = add_mset x (mset q') \<and> (\<forall>y \<in># mset q. val x \<le> val y)"
    using pop_heap [OF q] by (metis mset_zero_iff set_mset_mset)
qed

subsection \<open>The merge is a stable sort\<close>

definition mk_node :: "nat \<Rightarrow> bytes \<Rightarrow> nat \<Rightarrow> node" where
  "mk_node ks r i = \<lparr>nd_key = take ks r, nd_seq = i, nd_record = r\<rparr>"

text \<open>
  \<open>merge_ok\<close>: \<open>L\<close> lists what is left of each run, with the front of every run outside \<open>X\<close> in the heap
  and everything else still to be read from the run's file.
\<close>

definition merge_ok :: "nat set \<Rightarrow> bytes list \<Rightarrow> nat \<Rightarrow> nat \<Rightarrow> bytes list list \<Rightarrow> merge \<Rightarrow> bool" where
  "merge_ok X runs n ks L g \<longleftrightarrow> length L = length runs \<and> length (mg_pos g) = length runs \<and> heap_but {} (mg_heap g)
     \<and> mset (mg_heap g) = (\<Sum>i \<in> {..<length L} - X. front (mk_node ks) i (L ! i))
     \<and> (\<forall>i < length L. drop (mg_pos g ! i) (runs ! i) = concat (if i \<in> X then L ! i else tl (L ! i)))
     \<and> (\<forall>l \<in> set L. sorted (map (take ks) l) \<and> (\<forall>r \<in> set l. length r = n))"

lemma sum_take_in:
  "i < m \<Longrightarrow> i \<in> X \<Longrightarrow> (\<Sum>j \<in> {..<m :: nat} - (X - {i}). F j) = F i + (\<Sum>j \<in> {..<m} - X. (F j :: 'a :: comm_monoid_add))"
proof -
  assume i: "i < m" "i \<in> X"
  have "{..<m} - (X - {i}) = insert i ({..<m} - X)" using i by auto
  then show ?thesis using i by simp
qed

lemma readAndPush_ok:
  assumes "merge_ok X runs n ks L g" and "i \<in> X" and "i < length L" and "n > 0"
  shows "merge_ok (X - {i}) runs n ks L (readAndPush runs n ks i g) \<and> mg_out (readAndPush runs n ks i g) = mg_out g
    \<and> mg_emitted (readAndPush runs n ks i g) = mg_emitted g"
proof -
  have d: "drop (mg_pos g ! i) (runs ! i) = concat (L ! i)" using assms(1-3) by (auto simp: merge_ok_def)
  note s = sum_take_in [OF assms(3,2), of "\<lambda>i. front (mk_node ks) i (L ! i)"]
  show ?thesis
  proof (cases "L ! i")
    case Nil
    then have "mg_pos g ! i \<ge> length (runs ! i)" using d by simp
    then show ?thesis using assms s Nil by (auto simp: readAndPush_def readOne_def merge_ok_def)
  next
    case (Cons r rs)
    have r: "length r = n" using assms(1,3) Cons nth_mem [of i L] by (auto simp: merge_ok_def)
    have "mg_pos g ! i < length (runs ! i)" using d Cons r assms(4) by (cases "mg_pos g ! i < length (runs ! i)") auto
    moreover have "slice (mg_pos g ! i) (mg_pos g ! i + n) (runs ! i) = r" using d Cons r by (simp add: slice_def)
    moreover have "drop (mg_pos g ! i + n) (runs ! i) = concat rs"
      using arg_cong [OF d, of "drop n"] Cons r by (simp add: add.commute)
    moreover have "heap_but {} (mg_heap g)" using assms(1) by (simp add: merge_ok_def)
    note heap.invar_ins [OF this] heap.content_ins [OF this]
    ultimately show ?thesis
      using assms(1,3) s Cons
      by (auto simp: readAndPush_def readOne_def merge_ok_def nth_list_update mk_node_def Let_def)
  qed
qed

lemma mergeLoop_sorts:
  assumes "merge_ok {} runs n ks L g" and "n > 0" and "length (concat L) \<le> fuel"
  shows "\<exists>g'. mergeLoop fuel runs n ks g = Some g' \<and> mg_emitted g' = mg_emitted g + length (concat L)
    \<and> flushed (mg_out g') = flushed (mg_out g) @ concat (sort_key (take ks) (concat L))"
  using assms(1,3)
proof (induction fuel arbitrary: L g)
  case (0 L g)
  then have "mg_heap g = []" using fronts_empty [of L "mk_node ks"] by (auto simp: merge_ok_def fronts_def)
  then show ?case using 0 by (subst mergeLoop.simps) (auto simp: pop_def concat_eq_Nil_conv)
next
  case (Suc fuel L g)
  let ?mk = "mk_node ks"
  have h: "heap_but {} (mg_heap g)" "mset (mg_heap g) = fronts ?mk L" "\<And>l. l \<in> set L \<Longrightarrow> sorted (map (take ks) l)"
    using Suc.prems(1) by (auto simp: merge_ok_def fronts_def)
  show ?case
  proof (cases "concat L = []")
    case True
    then have "fronts ?mk L = {#}" by (rule fronts_empty)
    then have "mg_heap g = []" using h(2) by simp
    then show ?thesis using True by (subst mergeLoop.simps) (auto simp: pop_def)
  next
    case False
    have rank: "val (?mk x i) \<le> val (?mk z j) \<longleftrightarrow> (take ks x, i) \<le> (take ks z, j)" for x i z j
      by (simp add: mk_node_def val_def)
    obtain i x xs q' where i: "i < length L" "L ! i = x # xs" "pop (mg_heap g) = Some (?mk x i, q')" "heap_but {} q'"
      and srt: "sort_key (take ks) (concat L) = x # sort_key (take ks) (concat (L[i := xs]))"
      and m: "mset q' + front ?mk i xs = fronts ?mk (L[i := xs])"
      by (rule heap.next_element [OF h rank False])
    let ?g = "g\<lparr>mg_heap := q', mg_out := emit (flushCap n) x (mg_out g), mg_emitted := mg_emitted g + 1\<rparr>"
    let ?L = "L[i := xs]"
    have "fronts ?mk ?L = front ?mk i xs + (\<Sum>j \<in> {..<length ?L} - {i}. front ?mk j (?L ! j))"
      unfolding fronts_def using i(1) sum_take_in [of i "length ?L" "{i}" "\<lambda>j. front ?mk j (?L ! j)"] by simp
    then have "mset q' = (\<Sum>j \<in> {..<length ?L} - {i}. front ?mk j (?L ! j))" using m by (simp add: add.commute)
    moreover have "sorted (map (take ks) xs) \<and> (\<forall>r \<in> set xs. length r = n)"
      using Suc.prems(1) nth_mem [OF i(1)] i(2) by (auto simp: merge_ok_def)
    ultimately have ok: "merge_ok {i} runs n ks ?L ?g"
      using Suc.prems(1) i by (auto simp: merge_ok_def nth_list_update dest!: set_update_subset_insert [THEN subsetD])
    have il: "i < length ?L" using i(1) by simp
    note r = readAndPush_ok [OF ok _ il assms(2), simplified]
    have len: "length (concat L) = Suc (length (concat ?L))"
      using arg_cong [OF srt, of length] by simp
    obtain g' where g': "mergeLoop fuel runs n ks (readAndPush runs n ks i ?g) = Some g'"
      "mg_emitted g' = mg_emitted g + 1 + length (concat ?L)"
      "flushed (mg_out g') = flushed (mg_out ?g) @ concat (sort_key (take ks) (concat ?L))"
      using Suc.IH [of ?L "readAndPush runs n ks i ?g"] r Suc.prems(2) len by auto
    have "mergeLoop (Suc fuel) runs n ks g = mergeLoop fuel runs n ks (readAndPush runs n ks i ?g)"
      using i(3) by (subst mergeLoop.simps) (simp add: mk_node_def)
    then show ?thesis using g' srt len by simp
  qed
qed

subsection \<open>The whole sort\<close>

lemma runs_of_chunks:
  assumes "n > 0" and "ks \<le> n" and "rpr > 0" and "n dvd (length f - pos)"
  shows "\<exists>cs. createSortedRuns n ks rpr f pos = map (\<lambda>c. concat (sort_key (take ks) c)) cs
    \<and> concat cs = records n (drop pos f) \<and> (\<forall>c \<in> set cs. \<forall>r \<in> set c. length r = n)"
  using assms
proof (induction n ks rpr f pos rule: createSortedRuns.induct)
  case (1 n ks rpr f pos)
  define w where "w = min (length f - pos) (rpr * n)"
  show ?case
  proof (cases "pos \<ge> length f \<or> w = 0")
    case True
    then have "createSortedRuns n ks rpr f pos = []" by (subst createSortedRuns.simps) (simp add: Let_def w_def)
    moreover have "rpr * n > 0" using 1 by simp
    then have "length f \<le> pos" using True by (simp add: w_def min_def split: if_splits)
    then have "drop pos f = []" by simp
    ultimately show ?thesis by (intro exI [of _ "[]"]) simp
  next
    case False
    define buf where "buf = slice pos (pos + w) f"
    have dvd: "n dvd w" using 1(5) by (simp add: w_def min_def)
    have len: "length buf = w" using False by (simp add: buf_def w_def)
    have split: "drop pos f = buf @ drop (pos + w) f"
      using append_take_drop_id [of w "drop pos f"] by (simp add: buf_def slice_def add.commute)
    have "n dvd length f - (pos + w)" using dvd_diff_nat [OF 1(5) dvd] by (simp add: diff_diff_left)
    then obtain cs where cs: "createSortedRuns n ks rpr f (pos + w) = map (\<lambda>c. concat (sort_key (take ks) c)) cs"
      "concat cs = records n (drop (pos + w) f)" "\<forall>c \<in> set cs. \<forall>r \<in> set c. length r = n"
      using "1.IH" [OF w_def False buf_def refl 1(2-4)] by blast
    have dvd': "n dvd length buf" "length buf = (w div n) * n" using dvd len by simp_all
    have "createSortedRuns n ks rpr f pos
      = writeRun buf (sortedIndices buf (w div n) n ks) n # createSortedRuns n ks rpr f (pos + w)"
      using False by (subst createSortedRuns.simps) (simp only: Let_def if_False w_def buf_def)
    then have runs: "createSortedRuns n ks rpr f pos
      = concat (sort_key (take ks) (records n buf)) # createSortedRuns n ks rpr f (pos + w)"
      by (simp only: run_sorted [OF 1(2,3) dvd'(2)])
    note r = records_append [OF 1(2) dvd'(1), of "drop (pos + w) f"] records_all [OF 1(2) dvd'(1)]
    show ?thesis
    proof (intro exI conjI)
      show "createSortedRuns n ks rpr f pos = map (\<lambda>c. concat (sort_key (take ks) c)) (records n buf # cs)"
        by (simp only: runs cs(1) list.map)
      show "concat (records n buf # cs) = records n (drop pos f)" by (simp only: split r(1) concat.simps cs(2))
      show "\<forall>c \<in> set (records n buf # cs). \<forall>r \<in> set c. length r = n" using r(2) cs(3) by simp
    qed
  qed
qed

lemma sort_key_concat: "sort_key f (concat (map (sort_key f) cs)) = sort_key f (concat cs)"
proof (rule properties_for_sort_key)
  show "mset (sort_key f (concat cs)) = mset (concat (map (sort_key f) cs))" by (induction cs) simp_all
  fix k
  have "filter (\<lambda>x. f k = f x) (concat (map (sort_key f) cs)) = filter (\<lambda>x. f k = f x) (concat cs)"
    by (induction cs) (simp_all add: eq_commute [of "f k"] sort_key_stable)
  then show "filter (\<lambda>x. f k = f x) (sort_key f (concat cs)) = filter (\<lambda>x. f k = f x) (concat (map (sort_key f) cs))"
    by (simp add: eq_commute [of "f k"] sort_key_stable)
qed simp

lemma prime_ok:
  assumes "merge_ok {k..<length L} runs n ks L g" and "k \<le> length L" and "n > 0"
  shows "merge_ok {} runs n ks L (fold (readAndPush runs n ks) [k..<length L] g)
    \<and> mg_out (fold (readAndPush runs n ks) [k..<length L] g) = mg_out g
    \<and> mg_emitted (fold (readAndPush runs n ks) [k..<length L] g) = mg_emitted g"
  using assms(1,2)
proof (induction "length L - k" arbitrary: k g)
  case (Suc m)
  then have k: "k \<in> {k..<length L}" "k < length L" "m = length L - Suc k" "Suc k \<le> length L" by auto
  have e: "{k..<length L} - {k} = {Suc k..<length L}" by auto
  note r = readAndPush_ok [OF Suc.prems(1) k(1,2) assms(3), unfolded e]
  show ?case using Suc.hyps(1) [OF k(3) conjunct1 [OF r] k(4)] r by (simp add: upt_conv_Cons [OF k(2)])
qed simp

lemma mergeRuns_sorts:
  assumes "n > 0" and "\<forall>c \<in> set cs. \<forall>r \<in> set c. length r = n"
  shows "mergeRuns (map (\<lambda>c. concat (sort_key (take ks) c)) cs) n ks (length (concat cs))
    = Some (Inr (concat (sort_key (take ks) (concat cs))))"
proof -
  let ?L = "map (sort_key (take ks)) cs" and ?runs = "map (\<lambda>c. concat (sort_key (take ks) c)) cs"
  let ?g = "\<lparr>mg_pos = replicate (length ?runs) 0, mg_heap = [], mg_out = ([], []), mg_emitted = 0\<rparr>"
  let ?g1 = "fold (readAndPush ?runs n ks) [0..<length ?runs] ?g"
  have "merge_ok {0..<length ?L} ?runs n ks ?L ?g"
    using assms(2) by (auto simp: merge_ok_def heap_but_def atLeast0LessThan)
  note p = prime_ok [OF this _ assms(1), simplified]
  have len: "length (concat ?L) = length (concat cs)" by (induction cs) simp_all
  obtain g' where g': "mergeLoop (length (concat cs)) ?runs n ks ?g1 = Some g'" "mg_emitted g' = length (concat cs)"
    "flushed (mg_out g') = concat (sort_key (take ks) (concat ?L))"
    using mergeLoop_sorts [OF conjunct1 [OF p] assms(1), of "length (concat cs)"] p len by (auto simp: flushed_def)
  then show ?thesis by (simp add: mergeRuns_def sort_key_concat)
qed

lemma externalSort_result:
  assumes "0 < so_recordSize opts" and "0 < so_keySize opts" and "so_keySize opts \<le> so_recordSize opts"
    and "so_headerSize opts \<le> length inFile" and "so_recordSize opts dvd int (length inFile - so_headerSize opts)"
  shows "externalSort opts inFile = Some (Inr ((if so_preserveHeader opts then take (so_headerSize opts) inFile else [])
    @ concat (sort_key (take (nat (so_keySize opts))) (records (nat (so_recordSize opts)) (drop (so_headerSize opts) inFile)))))"
proof -
  let ?n = "nat (so_recordSize opts)" and ?ks = "nat (so_keySize opts)" and ?h = "so_headerSize opts"
  define o1 where "o1 = opts\<lparr>so_ramBudgetBytes := (if so_ramBudgetBytes opts = 0 then 1024 * 1024 * 1024 else so_ramBudgetBytes opts)\<rparr>"
  have r: "resolveSortOptions opts = Inr o1" using assms by (simp add: resolveSortOptions_def o1_def)
  have f: "so_headerSize o1 = ?h" "so_recordSize o1 = so_recordSize opts" "so_keySize o1 = so_keySize opts"
    "so_preserveHeader o1 = so_preserveHeader opts" by (simp_all add: o1_def)
  have n: "?n > 0" "?ks \<le> ?n" "so_recordSize opts = int ?n" using assms by auto
  have dvd: "?n dvd length inFile - ?h" using assms(5) n(3) by (metis int_dvd_int_iff)
  define rpr where "rpr = max 1 (min (so_ramBudgetBytes o1 div ?n) MAX_RECORDS_PER_RUN)"
  have rpr: "rpr > 0" by (simp add: rpr_def)
  obtain cs where cs: "createSortedRuns ?n ?ks rpr inFile ?h = map (\<lambda>c. concat (sort_key (take ?ks) c)) cs"
    "concat cs = records ?n (drop ?h inFile)" "\<forall>c \<in> set cs. \<forall>r \<in> set c. length r = ?n"
    using runs_of_chunks [OF n(1,2) rpr dvd] by blast
  obtain k where k: "length inFile - ?h = k * ?n" using dvd by (metis dvd_div_mult_self)
  have "length (concat cs) = k"
    using records_slices [OF n(1), of "drop ?h inFile" k] k cs(2) by simp
  moreover have "planRuns o1 inFile = Inr (k, rpr)"
  proof -
    have d: "int (length inFile) - int ?h = int k * so_recordSize opts"
      using k assms(4) n(3) by (metis of_nat_diff of_nat_mult)
    have "0 \<le> int k * so_recordSize opts" using assms(1) by simp
    then have "\<not> int k * so_recordSize opts < 0" by linarith
    then show ?thesis using assms(1) by (simp add: planRuns_def f Let_def d rpr_def del: mult_less_0_iff zero_le_mult_iff)
  qed
  ultimately show ?thesis
    using mergeRuns_sorts [OF n(1) cs(3), of ?ks] cs r by (simp add: externalSort_def f Let_def)
qed

text \<open>
  C38. The external sort is a stable sort: on every file of whole records, for every budget and
  whatever the runs it is cut into, it ends, and its output is the header (when it is kept) and the
  records in the order of their key prefixes, records with equal keys in the order of the input.
\<close>

theorem external_sort_is_stable_sort:
  assumes "0 < so_recordSize opts" and "0 < so_keySize opts" and "so_keySize opts \<le> so_recordSize opts"
    and "so_headerSize opts \<le> length inFile" and "so_recordSize opts dvd int (length inFile - so_headerSize opts)"
  shows "externalSort opts inFile = Some (Inr ((if so_preserveHeader opts then take (so_headerSize opts) inFile else [])
    @ concat (sort_key (take (nat (so_keySize opts))) (records (nat (so_recordSize opts)) (drop (so_headerSize opts) inFile)))))"
  using assms by (rule externalSort_result)

theorem external_sort_is_stable_sort_witness:
  "externalSort \<lparr>so_headerSize = 1, so_recordSize = 2, so_keySize = 1, so_ramBudgetBytes = 4, so_preserveHeader = True\<rparr>
     [0xff, 3, 1, 2, 9, 3, 0, 1, 7, 2, 4]
   = Some (Inr [0xff, 1, 7, 2, 9, 2, 4, 3, 1, 3, 0])"
  using external_sort_is_stable_sort [of
    "\<lparr>so_headerSize = 1, so_recordSize = 2, so_keySize = 1, so_ramBudgetBytes = 4, so_preserveHeader = True\<rparr>"
    "[0xff, 3, 1, 2, 9, 3, 0, 1, 7, 2, 4]"]
  by (simp add: records_step)

end
