(* ===== verification/StreamingJoin.thy ===== *)
theory StreamingJoin
  imports ExternalSort
begin

text \<open>
  The streaming left anti-join of bulk sync, \<^verbatim>\<open>src/bulk_sync/merger/streaming_join.js\<close>: two files of
  fixed-size records sorted by the same key prefix are read side by side, and the left records whose
  key does not appear on the right are written out. A file is the list of its bytes and a read never
  comes back short. The reader hands out views into its buffer; the join copies or drops each before
  it asks for the next, so a view is modelled by its bytes.
\<close>

subsection \<open>Buffered reading and writing\<close>

definition IO_CHUNK_BYTES :: nat where
  "IO_CHUNK_BYTES = 256 * 1024"

record reader =
  rd_file :: bytes
  rd_pos :: nat
  rd_recordSize :: nat
  rd_cap :: nat
  rd_buf :: bytes
  rd_bufOff :: nat
  rd_closed :: bool

text \<open>\<open>rd_cap\<close> is the size of the scratch buffer, \<open>rd_buf\<close> its valid first \<open>_bufLen\<close> bytes. A remainder modulo zero is \<open>NaN\<close>.\<close>

definition RecordReader :: "bytes \<Rightarrow> nat \<Rightarrow> nat \<Rightarrow> error + reader" where
  "RecordReader file headerSize recordSize =
     (if length file < headerSize \<or> recordSize = 0 \<or> (length file - headerSize) mod recordSize \<noteq> 0
      then Inl (BadConfig ''RecordReader: data is not a multiple of recordSize'')
      else Inr \<lparr>rd_file = file, rd_pos = headerSize, rd_recordSize = recordSize,
                rd_cap = max 1 (IO_CHUNK_BYTES div recordSize) * recordSize,
                rd_buf = [], rd_bufOff = 0, rd_closed = False\<rparr>)"

definition refill :: "reader \<Rightarrow> bool \<times> reader" where
  "refill r =
     (if rd_closed r \<or> rd_pos r \<ge> length (rd_file r) then (False, r\<lparr>rd_buf := [], rd_bufOff := 0\<rparr>)
      else
        let want = min (rd_cap r) (length (rd_file r) - rd_pos r) in
        (True, r\<lparr>rd_buf := slice (rd_pos r) (rd_pos r + want) (rd_file r), rd_pos := rd_pos r + want, rd_bufOff := 0\<rparr>))"

definition nextRecord :: "reader \<Rightarrow> bytes option \<times> reader" where
  "nextRecord r =
     (let (more, r1) = (if rd_bufOff r \<ge> length (rd_buf r) then refill r else (True, r)) in
      if \<not> more then (None, r1)
      else (Some (slice (rd_bufOff r1) (rd_bufOff r1 + rd_recordSize r1) (rd_buf r1)),
            r1\<lparr>rd_bufOff := rd_bufOff r1 + rd_recordSize r1\<rparr>))"

text \<open>A writer is the pair of what is in the file and the records its buffer holds, as in the external sort.\<close>

definition RecordWriter :: "bytes \<times> bytes list" where
  "RecordWriter = ([], [])"

definition writeRaw :: "bytes \<Rightarrow> bytes \<times> bytes list \<Rightarrow> bytes \<times> bytes list" where
  "writeRaw b w = (flushed w @ b, [])"

definition writeRecord :: "nat \<Rightarrow> bytes \<Rightarrow> bytes \<times> bytes list \<Rightarrow> bytes \<times> bytes list" where
  "writeRecord recordSize = emit (max 1 (IO_CHUNK_BYTES div recordSize))"

subsection \<open>The join\<close>

text \<open>The loop asks its two sources for records through their \<open>next\<close> method, here \<open>nxt\<close>.\<close>

record 'r join =
  jn_left :: 'r
  jn_right :: 'r
  jn_out :: "bytes \<times> bytes list"
  jn_leftCurr :: "bytes option"
  jn_rightCurr :: "bytes option"
  jn_leftRead :: nat
  jn_rightRead :: nat
  jn_emitted :: nat
  jn_canceled :: nat
  jn_orphanSpends :: nat
  jn_anomalies :: "bytes list"

definition pullLeft :: "('r \<Rightarrow> bytes option \<times> 'r) \<Rightarrow> 'r join \<Rightarrow> 'r join" where
  "pullLeft nxt j = (case nxt (jn_left j) of (c, r) \<Rightarrow>
     j\<lparr>jn_left := r, jn_leftCurr := c, jn_leftRead := jn_leftRead j + (if c \<noteq> None then 1 else 0)\<rparr>)"

definition pullRight :: "('r \<Rightarrow> bytes option \<times> 'r) \<Rightarrow> 'r join \<Rightarrow> 'r join" where
  "pullRight nxt j = (case nxt (jn_right j) of (c, r) \<Rightarrow>
     j\<lparr>jn_right := r, jn_rightCurr := c, jn_rightRead := jn_rightRead j + (if c \<noteq> None then 1 else 0)\<rparr>)"

definition emitLeft :: "nat \<Rightarrow> bytes \<Rightarrow> 'r join \<Rightarrow> 'r join" where
  "emitLeft recordSize l j = j\<lparr>jn_out := writeRecord recordSize l (jn_out j), jn_emitted := jn_emitted j + 1\<rparr>"

definition orphanSpend :: "nat \<Rightarrow> bytes \<Rightarrow> 'r join \<Rightarrow> 'r join" where
  "orphanSpend keySize r j =
     j\<lparr>jn_orphanSpends := jn_orphanSpends j + 1, jn_anomalies := jn_anomalies j @ [take keySize r]\<rparr>"

text \<open>One turn of \<open>while (leftCurr)\<close>.\<close>

definition joinTurn :: "('r \<Rightarrow> bytes option \<times> 'r) \<Rightarrow> nat \<Rightarrow> nat \<Rightarrow> bytes \<Rightarrow> 'r join \<Rightarrow> 'r join" where
  "joinTurn nxt recordSize keySize l j = (case jn_rightCurr j of
     None \<Rightarrow> pullLeft nxt (emitLeft recordSize l j)
   | Some r \<Rightarrow>
       if take keySize l < take keySize r then pullLeft nxt (emitLeft recordSize l j)
       else if take keySize l > take keySize r then pullRight nxt (orphanSpend keySize r j)
       else pullRight nxt (pullLeft nxt (j\<lparr>jn_canceled := jn_canceled j + 1\<rparr>)))"

text \<open>Both loops with fuel, \<open>None\<close> out of fuel: each turn takes a record of at least one byte.\<close>

fun drainRight :: "nat \<Rightarrow> ('r \<Rightarrow> bytes option \<times> 'r) \<Rightarrow> nat \<Rightarrow> 'r join \<Rightarrow> 'r join option" where
  "drainRight fuel nxt keySize j = (case jn_rightCurr j of
     None \<Rightarrow> Some j
   | Some r \<Rightarrow> (case fuel of 0 \<Rightarrow> None | Suc k \<Rightarrow> drainRight k nxt keySize (pullRight nxt (orphanSpend keySize r j))))"

fun joinLoop :: "nat \<Rightarrow> ('r \<Rightarrow> bytes option \<times> 'r) \<Rightarrow> nat \<Rightarrow> nat \<Rightarrow> 'r join \<Rightarrow> 'r join option" where
  "joinLoop fuel nxt recordSize keySize j = (case jn_leftCurr j of
     None \<Rightarrow> drainRight fuel nxt keySize j
   | Some l \<Rightarrow> (case fuel of 0 \<Rightarrow> None | Suc k \<Rightarrow> joinLoop k nxt recordSize keySize (joinTurn nxt recordSize keySize l j)))"

declare drainRight.simps [simp del] joinLoop.simps [simp del]

definition joinRecords :: "nat \<Rightarrow> ('r \<Rightarrow> bytes option \<times> 'r) \<Rightarrow> nat \<Rightarrow> nat \<Rightarrow> 'r \<Rightarrow> 'r \<Rightarrow> bytes \<times> bytes list \<Rightarrow> 'r join option" where
  "joinRecords fuel nxt recordSize keySize left right out =
     joinLoop fuel nxt recordSize keySize (pullRight nxt (pullLeft nxt
       \<lparr>jn_left = left, jn_right = right, jn_out = out, jn_leftCurr = None, jn_rightCurr = None, jn_leftRead = 0,
         jn_rightRead = 0, jn_emitted = 0, jn_canceled = 0, jn_orphanSpends = 0, jn_anomalies = []\<rparr>))"

record join_options =
  jo_leftHeaderSize :: nat
  jo_rightHeaderSize :: nat
  jo_leftRecordSize :: int
  jo_rightRecordSize :: int
  jo_keySize :: int
  jo_copyLeftHeader :: bool

record join_result =
  jr_output :: bytes
  jr_leftRead :: nat
  jr_rightRead :: nat
  jr_emitted :: nat
  jr_canceled :: nat
  jr_orphanSpends :: nat
  jr_anomalies :: "bytes list"

definition join_result_of :: "'r join \<Rightarrow> join_result" where
  "join_result_of j = \<lparr>jr_output = flushed (jn_out j), jr_leftRead = jn_leftRead j, jr_rightRead = jn_rightRead j,
     jr_emitted = jn_emitted j, jr_canceled = jn_canceled j, jr_orphanSpends = jn_orphanSpends j, jr_anomalies = jn_anomalies j\<rparr>"

definition leftAntiJoin :: "join_options \<Rightarrow> bytes \<Rightarrow> bytes \<Rightarrow> (error + join_result) option" where
  "leftAntiJoin opts leftFile rightFile =
     (let keySize = jo_keySize opts; h = jo_leftHeaderSize opts; n = nat (jo_leftRecordSize opts) in
      if keySize \<le> 0 then Some (Inl (BadConfig ''leftAntiJoin: keySize must be a positive integer''))
      else if keySize > jo_leftRecordSize opts \<or> keySize > jo_rightRecordSize opts
      then Some (Inl (BadConfig ''leftAntiJoin: keySize exceeds one of the record sizes''))
      else (case RecordReader leftFile h n of
         Inl e \<Rightarrow> Some (Inl e)
       | Inr left \<Rightarrow> (case RecordReader rightFile (jo_rightHeaderSize opts) (nat (jo_rightRecordSize opts)) of
           Inl e \<Rightarrow> Some (Inl e)
         | Inr right \<Rightarrow>
             let out = (if jo_copyLeftHeader opts \<and> h > 0 then writeRaw (take h leftFile) RecordWriter else RecordWriter) in
             map_option (\<lambda>j. Inr (join_result_of j))
               (joinRecords (length leftFile + length rightFile) nextRecord n (nat keySize) left right out))))"

subsection \<open>What an anti-join is\<close>

text \<open>
  \<open>anti_join\<close> merges two lists: the left elements that are emitted, and the right ones that met no
  partner. Equal keys use up one element of each side.
\<close>

fun anti_join :: "('a \<Rightarrow> 'k :: linorder) \<Rightarrow> 'a list \<Rightarrow> 'a list \<Rightarrow> 'a list \<times> 'a list" where
  "anti_join key [] rs = ([], rs)"
| "anti_join key (l # ls) [] = (l # ls, [])"
| "anti_join key (l # ls) (r # rs) =
     (if key l < key r then (case anti_join key ls (r # rs) of (es, os) \<Rightarrow> (l # es, os))
      else if key l > key r then (case anti_join key (l # ls) rs of (es, os) \<Rightarrow> (es, r # os))
      else anti_join key ls rs)"

lemma anti_join_Nil [simp]: "anti_join key ls [] = (ls, [])"
  by (cases ls) simp_all

lemma diff_add_notin: "x \<notin># B \<Longrightarrow> add_mset x A - B = add_mset x (A - B)"
  for A B :: "'a multiset"
  by (simp add: add_mset_diff_bothsides diff_add_mset_swap)

lemma notin_later:
  "sorted (map f (r # rs)) \<Longrightarrow> k < f r \<Longrightarrow> k \<notin># mset (map f (r # rs))"
  by (auto dest: leD)

text \<open>On sorted lists the keys that come out are the multiset differences, and the emitted elements keep their order.\<close>

lemma anti_join_spec:
  assumes "sorted (map key ls)" and "sorted (map key rs)"
  shows "mset (map key (fst (anti_join key ls rs))) = mset (map key ls) - mset (map key rs)
    \<and> mset (map key (snd (anti_join key ls rs))) = mset (map key rs) - mset (map key ls)
    \<and> subseq (fst (anti_join key ls rs)) ls \<and> subseq (snd (anti_join key ls rs)) rs
    \<and> length (fst (anti_join key ls rs)) + length rs = length (snd (anti_join key ls rs)) + length ls"
  using assms
proof (induction key ls rs rule: anti_join.induct)
  case (3 key l ls r rs)
  consider (lt) "key l < key r" | (gt) "key r < key l" | (eq) "key l = key r" by force
  then show ?case
  proof cases
    case lt
    have "mset (map key (r # rs)) - mset (map key (l # ls)) = mset (map key (r # rs)) - mset (map key ls)"
      using notin_later [OF 3(5) lt] by (simp add: minus_add_mset_if_not_in_lhs)
    moreover have "mset (map key (l # ls)) - mset (map key (r # rs)) = add_mset (key l) (mset (map key ls) - mset (map key (r # rs)))"
      using diff_add_notin [OF notin_later [OF 3(5) lt]] by simp
    ultimately show ?thesis using 3(1) [OF lt] 3(4,5) lt by (simp add: split_beta)
  next
    case gt
    have "mset (map key (l # ls)) - mset (map key (r # rs)) = mset (map key (l # ls)) - mset (map key rs)"
      using notin_later [OF 3(4) gt] by (simp add: minus_add_mset_if_not_in_lhs)
    moreover have "mset (map key (r # rs)) - mset (map key (l # ls)) = add_mset (key r) (mset (map key rs) - mset (map key (l # ls)))"
      using diff_add_notin [OF notin_later [OF 3(4) gt]] by simp
    ultimately show ?thesis using 3(2) [OF _ gt] 3(4,5) gt by (simp add: split_beta)
  next
    case eq
    then show ?thesis using 3(3-5) by auto
  qed
qed simp_all

subsection \<open>A reader gives the records of its file in order\<close>

locale record_source =
  fixes nxt :: "'r \<Rightarrow> bytes option \<times> 'r" and ok :: "'r \<Rightarrow> bool" and rest :: "'r \<Rightarrow> bytes list"
  assumes nxt_end: "ok r \<Longrightarrow> rest r = [] \<Longrightarrow> \<exists>r'. nxt r = (None, r') \<and> ok r' \<and> rest r' = []"
    and nxt_record: "ok r \<Longrightarrow> rest r = x # xs \<Longrightarrow> \<exists>r'. nxt r = (Some x, r') \<and> ok r' \<and> rest r' = xs"

definition held :: "('r \<Rightarrow> bytes list) \<Rightarrow> bytes option \<Rightarrow> 'r \<Rightarrow> bytes list" where
  "held rest c r = (case c of None \<Rightarrow> [] | Some x \<Rightarrow> x # rest r)"

text \<open>The records a join still has on its two sides, and that a side without a current record is at its end.\<close>

definition lefts :: "('r \<Rightarrow> bytes list) \<Rightarrow> 'r join \<Rightarrow> bytes list" where
  "lefts rest j = held rest (jn_leftCurr j) (jn_left j)"

definition rights :: "('r \<Rightarrow> bytes list) \<Rightarrow> 'r join \<Rightarrow> bytes list" where
  "rights rest j = held rest (jn_rightCurr j) (jn_right j)"

definition join_ok :: "('r \<Rightarrow> bool) \<Rightarrow> ('r \<Rightarrow> bytes list) \<Rightarrow> 'r join \<Rightarrow> bool" where
  "join_ok ok rest j \<longleftrightarrow> ok (jn_left j) \<and> ok (jn_right j)
     \<and> (jn_leftCurr j = None \<longrightarrow> rest (jn_left j) = []) \<and> (jn_rightCurr j = None \<longrightarrow> rest (jn_right j) = [])"

text \<open>\<open>joined\<close> says how the state \<open>j'\<close> at the end relates to \<open>j\<close> when \<open>es\<close> were emitted and \<open>os\<close> were orphans.\<close>

definition joined :: "('r \<Rightarrow> bytes list) \<Rightarrow> nat \<Rightarrow> bytes list \<times> bytes list \<Rightarrow> 'r join \<Rightarrow> 'r join \<Rightarrow> bool" where
  "joined rest keySize eo j j' \<longleftrightarrow> flushed (jn_out j') = flushed (jn_out j) @ concat (fst eo)
     \<and> jn_emitted j' = jn_emitted j + length (fst eo)
     \<and> jn_canceled j' + length (fst eo) = jn_canceled j + length (lefts rest j)
     \<and> jn_orphanSpends j' = jn_orphanSpends j + length (snd eo)
     \<and> jn_anomalies j' = jn_anomalies j @ map (take keySize) (snd eo)
     \<and> jn_leftRead j' = jn_leftRead j + length (rest (jn_left j))
     \<and> jn_rightRead j' = jn_rightRead j + length (rest (jn_right j))"

lemma flushed_writeRecord [simp]: "flushed (writeRecord n r w) = flushed w @ r"
  by (simp add: writeRecord_def)

lemma orphanSpend_sel [simp]:
  "jn_left (orphanSpend ks r j) = jn_left j"
  "jn_right (orphanSpend ks r j) = jn_right j"
  "jn_out (orphanSpend ks r j) = jn_out j"
  "jn_leftCurr (orphanSpend ks r j) = jn_leftCurr j"
  "jn_rightCurr (orphanSpend ks r j) = jn_rightCurr j"
  "jn_leftRead (orphanSpend ks r j) = jn_leftRead j"
  "jn_rightRead (orphanSpend ks r j) = jn_rightRead j"
  "jn_emitted (orphanSpend ks r j) = jn_emitted j"
  "jn_canceled (orphanSpend ks r j) = jn_canceled j"
  "jn_orphanSpends (orphanSpend ks r j) = jn_orphanSpends j + 1"
  "jn_anomalies (orphanSpend ks r j) = jn_anomalies j @ [take ks r]"
  by (simp_all add: orphanSpend_def)

lemma emitLeft_sel [simp]:
  "jn_left (emitLeft n l j) = jn_left j"
  "jn_right (emitLeft n l j) = jn_right j"
  "jn_out (emitLeft n l j) = writeRecord n l (jn_out j)"
  "jn_leftCurr (emitLeft n l j) = jn_leftCurr j"
  "jn_rightCurr (emitLeft n l j) = jn_rightCurr j"
  "jn_leftRead (emitLeft n l j) = jn_leftRead j"
  "jn_rightRead (emitLeft n l j) = jn_rightRead j"
  "jn_emitted (emitLeft n l j) = jn_emitted j + 1"
  "jn_canceled (emitLeft n l j) = jn_canceled j"
  "jn_orphanSpends (emitLeft n l j) = jn_orphanSpends j"
  "jn_anomalies (emitLeft n l j) = jn_anomalies j"
  by (simp_all add: emitLeft_def)

context record_source
begin

lemma pullLeft_cases:
  assumes "ok (jn_left j)"
  obtains c r where "pullLeft nxt j = j\<lparr>jn_left := r, jn_leftCurr := c, jn_leftRead := jn_leftRead j + (if c = None then 0 else 1)\<rparr>"
    and "ok r" and "held rest c r = rest (jn_left j)" and "c = None \<longrightarrow> rest r = []"
    and "length (rest (jn_left j)) = (if c = None then 0 else 1) + length (rest r)"
proof (cases "rest (jn_left j)")
  case Nil
  then show ?thesis using nxt_end [OF assms Nil] by (auto simp: pullLeft_def held_def intro: that)
next
  case (Cons x xs)
  then show ?thesis using nxt_record [OF assms Cons] by (auto simp: pullLeft_def held_def intro: that)
qed

lemma pullRight_cases:
  assumes "ok (jn_right j)"
  obtains c r where "pullRight nxt j = j\<lparr>jn_right := r, jn_rightCurr := c, jn_rightRead := jn_rightRead j + (if c = None then 0 else 1)\<rparr>"
    and "ok r" and "held rest c r = rest (jn_right j)" and "c = None \<longrightarrow> rest r = []"
    and "length (rest (jn_right j)) = (if c = None then 0 else 1) + length (rest r)"
proof (cases "rest (jn_right j)")
  case Nil
  then show ?thesis using nxt_end [OF assms Nil] by (auto simp: pullRight_def held_def intro: that)
next
  case (Cons x xs)
  then show ?thesis using nxt_record [OF assms Cons] by (auto simp: pullRight_def held_def intro: that)
qed

lemma drain_joins:
  "join_ok ok rest j \<Longrightarrow> jn_leftCurr j = None \<Longrightarrow> length (rights rest j) \<le> fuel \<Longrightarrow>
    \<exists>j'. drainRight fuel nxt ks j = Some j' \<and> joined rest ks ([], rights rest j) j j'"
proof (induction fuel arbitrary: j)
  case 0
  then show ?case
    by (subst drainRight.simps) (auto simp: rights_def lefts_def held_def joined_def join_ok_def split: option.splits)
next
  case (Suc fuel)
  show ?case
  proof (cases "jn_rightCurr j")
    case None
    then show ?thesis using Suc.prems
      by (subst drainRight.simps) (auto simp: rights_def lefts_def held_def joined_def join_ok_def)
  next
    case (Some r)
    let ?j = "orphanSpend ks r j"
    have "ok (jn_right ?j)" using Suc.prems(1) by (simp add: join_ok_def)
    then obtain c r' where p: "pullRight nxt ?j = ?j\<lparr>jn_right := r', jn_rightCurr := c, jn_rightRead := jn_rightRead ?j + (if c = None then 0 else 1)\<rparr>"
      "ok r'" "held rest c r' = rest (jn_right ?j)" "c = None \<longrightarrow> rest r' = []"
      "length (rest (jn_right ?j)) = (if c = None then 0 else 1) + length (rest r')"
      by (rule pullRight_cases)
    have "join_ok ok rest (pullRight nxt ?j)" "jn_leftCurr (pullRight nxt ?j) = None" "length (rights rest (pullRight nxt ?j)) \<le> fuel"
      using Suc.prems p Some by (auto simp: join_ok_def rights_def held_def)
    note ih = Suc.IH [OF this]
    have "drainRight (Suc fuel) nxt ks j = drainRight fuel nxt ks (pullRight nxt ?j)"
      using Some by (subst drainRight.simps) simp
    moreover have "rights rest j = r # rights rest (pullRight nxt ?j)"
      using p(3) Some by (simp add: rights_def held_def p(1))
    ultimately show ?thesis
      using ih p(5) Suc.prems(1,2) by (auto simp: joined_def lefts_def held_def p(1) join_ok_def)
  qed
qed

lemma emit_turn:
  assumes "join_ok ok rest j" and "jn_leftCurr j = Some l" and "j1 = pullLeft nxt (emitLeft n l j)"
  shows "join_ok ok rest j1 \<and> lefts rest j = l # lefts rest j1 \<and> rights rest j1 = rights rest j
    \<and> (joined rest ks (es, os) j1 j' \<longrightarrow> joined rest ks (l # es, os) j j')"
proof -
  have "ok (jn_left (emitLeft n l j))" using assms(1) by (simp add: join_ok_def)
  then show ?thesis
    unfolding assms(3)
    by (rule pullLeft_cases) (use assms(1,2) in \<open>auto simp: join_ok_def lefts_def rights_def held_def joined_def\<close>)
qed

lemma orphan_turn:
  assumes "join_ok ok rest j" and "jn_rightCurr j = Some r" and "j1 = pullRight nxt (orphanSpend ks r j)"
  shows "join_ok ok rest j1 \<and> rights rest j = r # rights rest j1 \<and> lefts rest j1 = lefts rest j
    \<and> (joined rest ks (es, os) j1 j' \<longrightarrow> joined rest ks (es, r # os) j j')"
proof -
  have "ok (jn_right (orphanSpend ks r j))" using assms(1) by (simp add: join_ok_def)
  then show ?thesis
    unfolding assms(3)
    by (rule pullRight_cases) (use assms(1,2) in \<open>auto simp: join_ok_def lefts_def rights_def held_def joined_def\<close>)
qed

lemma cancel_turn:
  assumes "join_ok ok rest j" and "jn_leftCurr j = Some l" and "jn_rightCurr j = Some r"
    and "j1 = pullRight nxt (pullLeft nxt (j\<lparr>jn_canceled := jn_canceled j + 1\<rparr>))"
  shows "join_ok ok rest j1 \<and> lefts rest j = l # lefts rest j1 \<and> rights rest j = r # rights rest j1
    \<and> (joined rest ks (es, os) j1 j' \<longrightarrow> joined rest ks (es, os) j j')"
proof -
  let ?j = "j\<lparr>jn_canceled := jn_canceled j + 1\<rparr>"
  have ok: "ok (jn_left ?j)" using assms(1) by (simp add: join_ok_def)
  obtain c q where p: "pullLeft nxt ?j = ?j\<lparr>jn_left := q, jn_leftCurr := c, jn_leftRead := jn_leftRead ?j + (if c = None then 0 else 1)\<rparr>"
    "ok q" "held rest c q = rest (jn_left ?j)" "c = None \<longrightarrow> rest q = []"
    "length (rest (jn_left ?j)) = (if c = None then 0 else 1) + length (rest q)"
    using ok by (rule pullLeft_cases)
  let ?q = "?j\<lparr>jn_left := q, jn_leftCurr := c, jn_leftRead := jn_leftRead ?j + (if c = None then 0 else 1)\<rparr>"
  have okr: "ok (jn_right ?q)" using assms(1) by (simp add: join_ok_def)
  obtain d q' where p': "pullRight nxt ?q = ?q\<lparr>jn_right := q', jn_rightCurr := d, jn_rightRead := jn_rightRead ?q + (if d = None then 0 else 1)\<rparr>"
    "ok q'" "held rest d q' = rest (jn_right ?q)" "d = None \<longrightarrow> rest q' = []"
    "length (rest (jn_right ?q)) = (if d = None then 0 else 1) + length (rest q')"
    using okr by (rule pullRight_cases)
  have j1: "j1 = ?q\<lparr>jn_right := q', jn_rightCurr := d, jn_rightRead := jn_rightRead ?q + (if d = None then 0 else 1)\<rparr>"
    unfolding assms(4) p(1) by (rule p'(1))
  have l: "lefts rest j = l # rest (jn_left j)" "rights rest j = r # rest (jn_right j)"
    using assms(2,3) by (simp_all add: lefts_def rights_def held_def)
  have l1: "lefts rest j1 = rest (jn_left j)" "rights rest j1 = rest (jn_right j)"
    using p(3) p'(3) by (simp_all add: lefts_def rights_def j1)
  have "join_ok ok rest j1" using p(2,4) p'(2,4) by (simp add: j1 join_ok_def)
  then show ?thesis using p(5) p'(5) unfolding l l1 joined_def by (simp add: j1)
qed

text \<open>The loop computes the anti-join of what its sources still hold.\<close>

lemma loop_joins:
  "join_ok ok rest j \<Longrightarrow> length (lefts rest j) + length (rights rest j) \<le> fuel \<Longrightarrow>
    \<exists>j'. joinLoop fuel nxt n ks j = Some j' \<and> joined rest ks (anti_join (take ks) (lefts rest j) (rights rest j)) j j'"
proof (induction fuel arbitrary: j)
  case 0
  then have "jn_leftCurr j = None" by (cases "jn_leftCurr j") (simp_all add: lefts_def held_def)
  then show ?case using drain_joins [OF 0(1), of 0] 0(2) by (subst joinLoop.simps) (simp add: lefts_def held_def)
next
  case (Suc fuel)
  show ?case
  proof (cases "jn_leftCurr j")
    case None
    then show ?thesis using drain_joins [OF Suc.prems(1), of "Suc fuel"] Suc.prems(2)
      by (subst joinLoop.simps) (simp add: lefts_def held_def)
  next
    case (Some l)
    let ?key = "take ks"
    have step: "joinLoop (Suc fuel) nxt n ks j = joinLoop fuel nxt n ks (joinTurn nxt n ks l j)"
      using Some by (subst joinLoop.simps) simp
    show ?thesis
    proof (cases "jn_rightCurr j")
      case None
      then have r: "rights rest j = []" by (simp add: rights_def held_def)
      note t = emit_turn [OF Suc.prems(1) Some refl, of n ks]
      have "joinTurn nxt n ks l j = pullLeft nxt (emitLeft n l j)" using None by (simp add: joinTurn_def)
      then show ?thesis using Suc.IH [of "pullLeft nxt (emitLeft n l j)"] t Suc.prems(2) step r by fastforce
    next
      case right: (Some r)
      consider (lt) "?key l < ?key r" | (gt) "?key r < ?key l" | (eq) "?key l = ?key r" by force
      then show ?thesis
      proof cases
        case lt
        let ?j1 = "pullLeft nxt (emitLeft n l j)"
        have turn: "joinTurn nxt n ks l j = ?j1" using lt right by (simp add: joinTurn_def)
        have t: "join_ok ok rest ?j1" "lefts rest j = l # lefts rest ?j1" "rights rest ?j1 = rights rest j"
          using emit_turn [OF Suc.prems(1) Some refl, of n] by blast+
        obtain j' where j': "joinLoop fuel nxt n ks ?j1 = Some j'"
          "joined rest ks (anti_join ?key (lefts rest ?j1) (rights rest ?j1)) ?j1 j'"
          using Suc.IH [OF t(1)] Suc.prems(2) t(2,3) by auto
        obtain rs where rs: "rights rest j = r # rs" using right by (simp add: rights_def held_def)
        have "joined rest ks (anti_join ?key (lefts rest j) (rights rest j)) j j'"
          using j'(2) emit_turn [OF Suc.prems(1) Some refl, of n ks] t(2,3) lt rs by (simp add: split_beta)
        then show ?thesis using step turn j'(1) by auto
      next
        case gt
        let ?j1 = "pullRight nxt (orphanSpend ks r j)"
        have turn: "joinTurn nxt n ks l j = ?j1" using gt right by (simp add: joinTurn_def)
        have t: "join_ok ok rest ?j1" "rights rest j = r # rights rest ?j1" "lefts rest ?j1 = lefts rest j"
          using orphan_turn [OF Suc.prems(1) right refl, of ks] by blast+
        obtain j' where j': "joinLoop fuel nxt n ks ?j1 = Some j'"
          "joined rest ks (anti_join ?key (lefts rest ?j1) (rights rest ?j1)) ?j1 j'"
          using Suc.IH [OF t(1)] Suc.prems(2) t(2,3) by auto
        obtain ls where ls: "lefts rest j = l # ls" using Some by (simp add: lefts_def held_def)
        have "joined rest ks (anti_join ?key (lefts rest j) (rights rest j)) j j'"
          using j'(2) orphan_turn [OF Suc.prems(1) right refl, of ks] t(2,3) gt not_less_iff_gr_or_eq [THEN iffD2, OF disjI1, OF gt] ls by (simp add: split_beta)
        then show ?thesis using step turn j'(1) by auto
      next
        case eq
        let ?j1 = "pullRight nxt (pullLeft nxt (j\<lparr>jn_canceled := jn_canceled j + 1\<rparr>))"
        have turn: "joinTurn nxt n ks l j = ?j1" using eq right by (simp add: joinTurn_def)
        have t: "join_ok ok rest ?j1" "lefts rest j = l # lefts rest ?j1" "rights rest j = r # rights rest ?j1"
          using cancel_turn [OF Suc.prems(1) Some right refl] by blast+
        obtain j' where j': "joinLoop fuel nxt n ks ?j1 = Some j'"
          "joined rest ks (anti_join ?key (lefts rest ?j1) (rights rest ?j1)) ?j1 j'"
          using Suc.IH [OF t(1)] Suc.prems(2) t(2,3) by auto
        have "joined rest ks (anti_join ?key (lefts rest j) (rights rest j)) j j'"
          using j'(2) cancel_turn [OF Suc.prems(1) Some right refl, of ks] t(2,3) eq
          by (cases "anti_join ?key (lefts rest ?j1) (rights rest ?j1)") simp
        then show ?thesis using step turn j'(1) by auto
      qed
    qed
  qed
qed

end

definition reader_ok :: "reader \<Rightarrow> bool" where
  "reader_ok r \<longleftrightarrow> (let n = rd_recordSize r in n > 0 \<and> n dvd rd_cap r \<and> rd_cap r > 0 \<and> \<not> rd_closed r
     \<and> n dvd length (rd_buf r) - rd_bufOff r \<and> n dvd length (rd_file r) - rd_pos r)"

definition reader_rest :: "reader \<Rightarrow> bytes list" where
  "reader_rest r = records (rd_recordSize r) (drop (rd_bufOff r) (rd_buf r) @ drop (rd_pos r) (rd_file r))"

lemma refill_spec:
  assumes "reader_ok r" and "rd_bufOff r \<ge> length (rd_buf r)" and "rd_pos r < length (rd_file r)"
  obtains r' where "refill r = (True, r')" and "reader_ok r'" and "reader_rest r' = reader_rest r"
    and "rd_bufOff r' < length (rd_buf r')"
proof -
  let ?w = "min (rd_cap r) (length (rd_file r) - rd_pos r)"
  let ?r = "r\<lparr>rd_buf := slice (rd_pos r) (rd_pos r + ?w) (rd_file r), rd_pos := rd_pos r + ?w, rd_bufOff := 0\<rparr>"
  have r: "refill r = (True, ?r)" using assms by (simp add: refill_def reader_ok_def Let_def)
  have w: "?w > 0" "rd_recordSize r dvd ?w" using assms by (auto simp: reader_ok_def Let_def min_def)
  have d: "rd_recordSize r dvd length (rd_file r) - rd_pos r" using assms(1) by (simp add: reader_ok_def Let_def)
  have "rd_recordSize r dvd length (rd_file r) - (rd_pos r + ?w)"
    using dvd_diff_nat [OF d w(2)] by (simp add: diff_diff_left)
  moreover have len: "length (slice (rd_pos r) (rd_pos r + ?w) (rd_file r)) = ?w" by simp
  ultimately have "reader_ok ?r" using assms(1) w(2) by (simp add: reader_ok_def Let_def)
  moreover have "slice (rd_pos r) (rd_pos r + ?w) (rd_file r) @ drop (rd_pos r + ?w) (rd_file r) = drop (rd_pos r) (rd_file r)"
    using append_take_drop_id [of ?w "drop (rd_pos r) (rd_file r)"] by (simp add: slice_def add.commute)
  then have "reader_rest ?r = reader_rest r" using assms(2) by (simp add: reader_rest_def)
  ultimately show ?thesis using w(1) len by (intro that [OF r]) simp_all
qed

lemma next_in_buffer:
  assumes "reader_ok r" and "rd_bufOff r < length (rd_buf r)"
  shows "\<exists>x r'. nextRecord r = (Some x, r') \<and> reader_ok r' \<and> reader_rest r = x # reader_rest r'"
proof -
  let ?n = "rd_recordSize r" and ?b = "drop (rd_bufOff r) (rd_buf r)"
  have n: "?n > 0" "?n dvd length ?b" using assms(1) by (simp_all add: reader_ok_def Let_def)
  then have "?n \<le> length ?b" using assms(2) by (auto dest: dvd_imp_le)
  then have "records ?n (?b @ drop (rd_pos r) (rd_file r)) = take ?n ?b # records ?n (drop ?n ?b @ drop (rd_pos r) (rd_file r))"
    using n assms(2) by (subst records_step) auto
  moreover have "?n dvd length (rd_buf r) - (?n + rd_bufOff r)"
    using dvd_diff_nat [OF n(2) dvd_refl] by (simp add: add.commute)
  ultimately show ?thesis
    using assms by (auto simp: nextRecord_def reader_ok_def reader_rest_def Let_def slice_def add.commute)
qed

lemma next_at_end:
  assumes "reader_ok r" and "rd_bufOff r \<ge> length (rd_buf r)"
  shows "nextRecord r = (case refill r of (b, r') \<Rightarrow> if b then nextRecord r' else (None, r'))"
proof (cases "rd_pos r < length (rd_file r)")
  case True
  then obtain r' where "refill r = (True, r')" "rd_bufOff r' < length (rd_buf r')"
    using refill_spec [OF assms] by blast
  then show ?thesis using assms(2) by (simp add: nextRecord_def)
next
  case False
  then show ?thesis using assms(2) by (simp add: nextRecord_def refill_def)
qed

lemma next_spec:
  assumes "reader_ok r"
  shows "(reader_rest r = [] \<and> (\<exists>r'. nextRecord r = (None, r') \<and> reader_ok r' \<and> reader_rest r' = []))
    \<or> (\<exists>x r'. nextRecord r = (Some x, r') \<and> reader_ok r' \<and> reader_rest r = x # reader_rest r')"
proof (cases "rd_bufOff r < length (rd_buf r)")
  case True
  then show ?thesis using next_in_buffer [OF assms] by blast
next
  case False
  then have e: "rd_bufOff r \<ge> length (rd_buf r)" by simp
  show ?thesis
  proof (cases "rd_pos r < length (rd_file r)")
    case True
    then obtain r' where "refill r = (True, r')" "reader_ok r'" "reader_rest r' = reader_rest r" "rd_bufOff r' < length (rd_buf r')"
      using refill_spec [OF assms e] by blast
    then show ?thesis using next_in_buffer [of r'] next_at_end [OF assms e] by auto
  next
    case False
    then show ?thesis using assms e next_at_end [OF assms e]
      by (auto simp: refill_def reader_rest_def reader_ok_def Let_def)
  qed
qed

interpretation source: record_source nextRecord reader_ok reader_rest
proof
  fix r
  assume ok: "reader_ok r"
  show "reader_rest r = [] \<Longrightarrow> \<exists>r'. nextRecord r = (None, r') \<and> reader_ok r' \<and> reader_rest r' = []"
    using next_spec [OF ok] by auto
  show "\<And>x xs. reader_rest r = x # xs \<Longrightarrow> \<exists>r'. nextRecord r = (Some x, r') \<and> reader_ok r' \<and> reader_rest r' = xs"
    using next_spec [OF ok] by auto
qed

lemma RecordReader_ok:
  assumes "n > 0" and "h \<le> length f" and "n dvd length f - h"
  obtains r where "RecordReader f h n = Inr r" and "reader_ok r" and "reader_rest r = records n (drop h f)"
proof -
  have "\<not> (length f < h \<or> n = 0 \<or> (length f - h) mod n \<noteq> 0)" using assms by (auto simp: dvd_eq_mod_eq_0)
  then show ?thesis using assms(1,3) by (intro that) (auto simp: RecordReader_def reader_ok_def reader_rest_def Let_def)
qed

lemma length_records: "length (records n xs) \<le> length xs"
proof (induction n xs rule: records.induct)
  case (1 n xs)
  show ?case
  proof (cases "n = 0 \<or> xs = []")
    case True
    then show ?thesis by (subst records.simps) simp
  next
    case False
    then have "length (drop n xs) < length xs" by simp
    moreover have "length (records n (drop n xs)) \<le> length (drop n xs)" using 1 False by blast
    moreover have "records n xs = take n xs # records n (drop n xs)" using False by (intro records_step) simp_all
    ultimately have "length (records n xs) = Suc (length (records n (drop n xs)))" by (simp only: list.size(4) add_Suc_right add_0_right)
    then show ?thesis using \<open>length (drop n xs) < length xs\<close> \<open>length (records n (drop n xs)) \<le> length (drop n xs)\<close> by linarith
  qed
qed

text \<open>The result of the whole join of two files, in the terms of \<open>anti_join\<close>.\<close>

lemma leftAntiJoin_result:
  fixes opts leftFile rightFile
  defines "ks \<equiv> nat (jo_keySize opts)" and "n \<equiv> nat (jo_leftRecordSize opts)" and "m \<equiv> nat (jo_rightRecordSize opts)"
  defines "L \<equiv> records n (drop (jo_leftHeaderSize opts) leftFile)" and "R \<equiv> records m (drop (jo_rightHeaderSize opts) rightFile)"
  assumes "0 < jo_keySize opts" and "jo_keySize opts \<le> jo_leftRecordSize opts" and "jo_keySize opts \<le> jo_rightRecordSize opts"
    and "jo_leftHeaderSize opts \<le> length leftFile" and "n dvd length leftFile - jo_leftHeaderSize opts"
    and "jo_rightHeaderSize opts \<le> length rightFile" and "m dvd length rightFile - jo_rightHeaderSize opts"
  shows "leftAntiJoin opts leftFile rightFile = Some (Inr (case anti_join (take ks) L R of (es, os) \<Rightarrow>
    \<lparr>jr_output = (if jo_copyLeftHeader opts then take (jo_leftHeaderSize opts) leftFile else []) @ concat es,
     jr_leftRead = length L, jr_rightRead = length R, jr_emitted = length es, jr_canceled = length L - length es,
     jr_orphanSpends = length os, jr_anomalies = map (take ks) os\<rparr>))"
proof -
  have nm: "n > 0" "m > 0" using assms by (simp_all add: n_def m_def)
  obtain l where l: "RecordReader leftFile (jo_leftHeaderSize opts) n = Inr l" "reader_ok l" "reader_rest l = L"
    using RecordReader_ok [OF nm(1) assms(9,10)] unfolding L_def by blast
  obtain r where r: "RecordReader rightFile (jo_rightHeaderSize opts) m = Inr r" "reader_ok r" "reader_rest r = R"
    using RecordReader_ok [OF nm(2) assms(11,12)] unfolding R_def by blast
  define out where "out = (if jo_copyLeftHeader opts \<and> jo_leftHeaderSize opts > 0
    then writeRaw (take (jo_leftHeaderSize opts) leftFile) RecordWriter else RecordWriter)"
  let ?j = "\<lparr>jn_left = l, jn_right = r, jn_out = out, jn_leftCurr = None, jn_rightCurr = None, jn_leftRead = 0,
         jn_rightRead = 0, jn_emitted = 0, jn_canceled = 0, jn_orphanSpends = 0, jn_anomalies = []\<rparr>"
  have okl: "reader_ok (jn_left ?j)" using l by simp
  obtain c l' where pl: "pullLeft nextRecord ?j = ?j\<lparr>jn_left := l', jn_leftCurr := c, jn_leftRead := jn_leftRead ?j + (if c = None then 0 else 1)\<rparr>"
    "reader_ok l'" "held reader_rest c l' = reader_rest (jn_left ?j)" "c = None \<longrightarrow> reader_rest l' = []"
    "length (reader_rest (jn_left ?j)) = (if c = None then 0 else 1) + length (reader_rest l')"
    using okl by (rule source.pullLeft_cases)
  let ?j1 = "?j\<lparr>jn_left := l', jn_leftCurr := c, jn_leftRead := jn_leftRead ?j + (if c = None then 0 else 1)\<rparr>"
  have okr: "reader_ok (jn_right ?j1)" using r by simp
  obtain d r' where pr: "pullRight nextRecord ?j1 = ?j1\<lparr>jn_right := r', jn_rightCurr := d, jn_rightRead := jn_rightRead ?j1 + (if d = None then 0 else 1)\<rparr>"
    "reader_ok r'" "held reader_rest d r' = reader_rest (jn_right ?j1)" "d = None \<longrightarrow> reader_rest r' = []"
    "length (reader_rest (jn_right ?j1)) = (if d = None then 0 else 1) + length (reader_rest r')"
    using okr by (rule source.pullRight_cases)
  define j2 where "j2 = ?j1\<lparr>jn_right := r', jn_rightCurr := d, jn_rightRead := jn_rightRead ?j1 + (if d = None then 0 else 1)\<rparr>"
  have ok: "join_ok reader_ok reader_rest j2" using pl(2,4) pr(2,4) by (simp add: j2_def join_ok_def)
  have lr: "lefts reader_rest j2 = L" "rights reader_rest j2 = R"
    using pl(3) pr(3) l(3) r(3) by (simp_all add: j2_def lefts_def rights_def)
  have "length L \<le> length leftFile" "length R \<le> length rightFile"
    unfolding L_def R_def using length_records [of n "drop (jo_leftHeaderSize opts) leftFile"]
      length_records [of m "drop (jo_rightHeaderSize opts) rightFile"] by simp_all
  then obtain j' where j': "joinLoop (length leftFile + length rightFile) nextRecord n ks j2 = Some j'"
    "joined reader_rest ks (anti_join (take ks) L R) j2 j'"
    using source.loop_joins [OF ok, of "length leftFile + length rightFile" n ks] lr by auto
  have join: "joinRecords (length leftFile + length rightFile) nextRecord n ks l r out = Some j'"
    unfolding joinRecords_def pl(1) pr(1) using j'(1) by (simp only: j2_def)
  have "flushed out = (if jo_copyLeftHeader opts then take (jo_leftHeaderSize opts) leftFile else [])"
    by (auto simp: out_def writeRaw_def RecordWriter_def flushed_def)
  then have "join_result_of j' = (case anti_join (take ks) L R of (es, os) \<Rightarrow>
    \<lparr>jr_output = (if jo_copyLeftHeader opts then take (jo_leftHeaderSize opts) leftFile else []) @ concat es,
     jr_leftRead = length L, jr_rightRead = length R, jr_emitted = length es, jr_canceled = length L - length es,
     jr_orphanSpends = length os, jr_anomalies = map (take ks) os\<rparr>)"
    using j'(2) pl(5) pr(5) l(3) r(3) lr
    by (cases "anti_join (take ks) L R") (auto simp: join_result_of_def joined_def j2_def)
  then show ?thesis
    using join l(1) r(1) assms(6-8) unfolding out_def by (simp add: leftAntiJoin_def Let_def n_def m_def ks_def)
qed

lemma anti_join_filter:
  assumes "sorted (map key ls)" and "sorted (map key rs)" and "distinct (map key ls)"
  shows "fst (anti_join key ls rs) = filter (\<lambda>l. key l \<notin> key ` set rs) ls"
  using assms
proof (induction key ls rs rule: anti_join.induct)
  case (3 key l ls r rs)
  consider (lt) "key l < key r" | (gt) "key r < key l" | (eq) "key l = key r" by force
  then show ?case
  proof cases
    case lt
    then show ?thesis using 3(1) [OF lt] 3(4-6) by (auto simp: split_beta dest: leD)
  next
    case gt
    then have "filter (\<lambda>x. key x \<notin> key ` set (r # rs)) (l # ls) = filter (\<lambda>x. key x \<notin> key ` set rs) (l # ls)"
      using 3(4) by (intro filter_cong) (auto dest: leD)
    then show ?thesis using 3(2) [OF _ gt] 3(4-6) gt by (simp add: split_beta not_less_iff_gr_or_eq [THEN iffD2, OF disjI1, OF gt])
  next
    case eq
    then have "filter (\<lambda>x. key x \<notin> key ` set (r # rs)) ls = filter (\<lambda>x. key x \<notin> key ` set rs) ls"
      using 3(6) by (intro filter_cong) (auto, metis image_eqI)
    then show ?thesis using 3(3) 3(4-6) eq by simp
  qed
qed (simp_all add: filter_empty_conv)

text \<open>
  C39. The anti-join of two files sorted by the key prefix ends, and it is exact. The emitted records
  are left records in their order, copied byte for byte; counting equal keys, their keys are those of
  the left file less those of the right, and the reported orphans are those of the right less those
  of the left. When no two left records share a key, exactly the left records whose key is not on the
  right are emitted. Both files are read to their end, and every left record is either emitted or
  cancelled.
\<close>

theorem left_anti_join_exact:
  fixes opts leftFile rightFile
  defines "key \<equiv> take (nat (jo_keySize opts))"
    and "L \<equiv> records (nat (jo_leftRecordSize opts)) (drop (jo_leftHeaderSize opts) leftFile)"
    and "R \<equiv> records (nat (jo_rightRecordSize opts)) (drop (jo_rightHeaderSize opts) rightFile)"
  assumes "0 < jo_keySize opts" and "jo_keySize opts \<le> jo_leftRecordSize opts" and "jo_keySize opts \<le> jo_rightRecordSize opts"
    and "jo_leftHeaderSize opts \<le> length leftFile" and "nat (jo_leftRecordSize opts) dvd length leftFile - jo_leftHeaderSize opts"
    and "jo_rightHeaderSize opts \<le> length rightFile" and "nat (jo_rightRecordSize opts) dvd length rightFile - jo_rightHeaderSize opts"
    and "sorted (map key L)" and "sorted (map key R)"
  shows "\<exists>es res. leftAntiJoin opts leftFile rightFile = Some (Inr res)
    \<and> jr_output res = (if jo_copyLeftHeader opts then take (jo_leftHeaderSize opts) leftFile else []) @ concat es
    \<and> subseq es L
    \<and> mset (map key es) = mset (map key L) - mset (map key R)
    \<and> mset (jr_anomalies res) = mset (map key R) - mset (map key L)
    \<and> (distinct (map key L) \<longrightarrow> es = filter (\<lambda>l. key l \<notin> key ` set R) L)
    \<and> jr_leftRead res = length L \<and> jr_rightRead res = length R
    \<and> jr_emitted res = length es \<and> jr_emitted res + jr_canceled res = jr_leftRead res
    \<and> jr_orphanSpends res = length (jr_anomalies res) \<and> jr_orphanSpends res + jr_canceled res = jr_rightRead res"
proof -
  obtain es os where aj: "anti_join key L R = (es, os)" by force
  note spec = anti_join_spec [OF assms(11,12), unfolded aj fst_conv snd_conv] and filt = anti_join_filter [OF assms(11,12), unfolded aj fst_conv]
  have "length es \<le> length L" using spec list_emb_length by blast
  moreover have "leftAntiJoin opts leftFile rightFile = Some (Inr
    \<lparr>jr_output = (if jo_copyLeftHeader opts then take (jo_leftHeaderSize opts) leftFile else []) @ concat es,
     jr_leftRead = length L, jr_rightRead = length R, jr_emitted = length es, jr_canceled = length L - length es,
     jr_orphanSpends = length os, jr_anomalies = map key os\<rparr>)"
    using leftAntiJoin_result [OF assms(4-10)] aj by (simp add: key_def L_def R_def)
  ultimately show ?thesis using spec filt by (intro exI [of _ es] exI conjI) (assumption | auto)+
qed

theorem left_anti_join_exact_witness:
  "\<exists>res. leftAntiJoin \<lparr>jo_leftHeaderSize = 1, jo_rightHeaderSize = 0, jo_leftRecordSize = 2, jo_rightRecordSize = 1,
      jo_keySize = 1, jo_copyLeftHeader = True\<rparr> [0xff, 1, 10, 2, 20, 3, 30] [2, 4] = Some (Inr res)
    \<and> jr_output res = [0xff, 1, 10, 3, 30] \<and> jr_orphanSpends res = 1"
  using left_anti_join_exact [of "\<lparr>jo_leftHeaderSize = 1, jo_rightHeaderSize = 0, jo_leftRecordSize = 2, jo_rightRecordSize = 1,
      jo_keySize = 1, jo_copyLeftHeader = True\<rparr>" "[0xff, 1, 10, 2, 20, 3, 30]" "[2, 4]"]
  by (auto simp: records_step)

end
