(* ===== verification/BulkMerge.thy ===== *)
theory BulkMerge
  imports BulkStreams StreamingJoin
begin

text \<open>
  The merge phase of bulk sync: the concatenation of the workers' streams
  (\<^verbatim>\<open>src/bulk_sync/orchestrator/file_ops.js\<close>) and the phase that sorts outputs and spends and cancels
  them against each other (\<^verbatim>\<open>orchestrator/phases.js\<close>), on a fresh work directory: artifacts of an
  earlier run are not reused. The live file it ends with is shown to hold the unspent outputs of the
  ledger that applies the blocks one by one.
\<close>

subsection \<open>Concatenation\<close>

record dat_header =
  dh_magic :: bytes
  dh_chain :: nat
  dh_net :: nat
  dh_recordSize :: nat

text \<open>\<open>toString('ascii')\<close> drops the high bit of every byte.\<close>

definition ascii :: "bytes \<Rightarrow> bytes" where
  "ascii bs = map (\<lambda>b. of_nat (unat b mod 128)) bs"

record concat_state =
  cs_first :: "dat_header option"
  cs_prevLast :: "nat option"
  cs_count :: nat
  cs_maxLast :: nat
  cs_out :: bytes

definition checkInputHeader :: "bytes \<Rightarrow> nat \<Rightarrow> nat \<Rightarrow> dat_header option \<Rightarrow> nat option \<Rightarrow> error + (dat_header \<times> nat \<times> nat)" where
  "checkInputHeader hdrBuf size' headerSize firstHdr prevLastHeight =
     (let thisHdr = \<lparr>dh_magic = ascii (slice 0 8 hdrBuf), dh_chain = unat (hdrBuf ! 8), dh_net = unat (hdrBuf ! 9),
                     dh_recordSize = unle (slice 28 32 hdrBuf)\<rparr>;
          recordCount = unle (slice 20 28 hdrBuf); firstH = unle (slice 12 16 hdrBuf); lastH = unle (slice 16 20 hdrBuf) in
      if recordCount = 0 \<and> size' \<noteq> headerSize then Inl (BadConfig ''record_count 0: crashed or partial worker output'')
      else (case firstHdr of
          None \<Rightarrow> Inr (thisHdr, recordCount, lastH)
        | Some h \<Rightarrow>
            if thisHdr \<noteq> h then Inl (BadConfig ''refusing to concatenate mixed files'')
            else (case prevLastHeight of
                Some p \<Rightarrow> if firstH \<noteq> p + 1 then Inl (BadConfig ''gap or overlap in parsed ranges'')
                          else Inr (thisHdr, recordCount, lastH)
              | None \<Rightarrow> Inr (thisHdr, recordCount, lastH))))"

definition concatInput :: "nat \<Rightarrow> bytes \<Rightarrow> concat_state \<Rightarrow> error + concat_state" where
  "concatInput headerSize input s =
     (if length input < headerSize then Inl (BadConfig ''input is smaller than headerSize'')
      else rbind (checkInputHeader (take headerSize input) (length input) headerSize (cs_first s) (cs_prevLast s))
        (\<lambda>(thisHdr, recordCount, lastH).
        Inr \<lparr>cs_first = (case cs_first s of None \<Rightarrow> Some thisHdr | Some h \<Rightarrow> Some h), cs_prevLast = Some lastH,
             cs_count = cs_count s + recordCount, cs_maxLast = max (cs_maxLast s) lastH,
             cs_out = cs_out s @ (if cs_first s = None then input else drop headerSize input)\<rparr>))"

fun concatInputs :: "nat \<Rightarrow> bytes list \<Rightarrow> concat_state \<Rightarrow> error + concat_state" where
  "concatInputs headerSize [] s = Inr s"
| "concatInputs headerSize (f # fs) s = rbind (concatInput headerSize f s) (concatInputs headerSize fs)"

definition patchOutputHeader :: "nat \<Rightarrow> nat \<Rightarrow> bytes \<Rightarrow> error + bytes" where
  "patchOutputHeader maxLastHeight totalRecordCount out =
     (if totalRecordCount > 18446744073709551615 then Inl OutOfRange
      else Inr (take 16 out @ le 4 maxLastHeight @ le 8 totalRecordCount @ drop 28 out))"

definition concatFilesWithHeader :: "bytes list \<Rightarrow> nat \<Rightarrow> error + bytes" where
  "concatFilesWithHeader inputs headerSize =
     (if inputs = [] then Inl (BadConfig ''concatFilesWithHeader: no input files'')
      else rbind (concatInputs headerSize inputs \<lparr>cs_first = None, cs_prevLast = None, cs_count = 0, cs_maxLast = 0, cs_out = []\<rparr>)
        (\<lambda>s. patchOutputHeader (cs_maxLast s) (cs_count s) (cs_out s)))"

subsection \<open>The phase\<close>

definition OUTPUTS_KEY_SIZE :: nat where "OUTPUTS_KEY_SIZE = 36"
definition SPENDS_KEY_SIZE :: nat where "SPENDS_KEY_SIZE = 36"

definition hasMagic :: "bytes \<Rightarrow> bytes \<Rightarrow> bool" where
  "hasMagic magic file \<longleftrightarrow> length file \<ge> 8 \<and> ascii (take 8 file) = ascii magic"

definition assertCurrentParseFormat :: "bytes \<Rightarrow> bytes \<Rightarrow> bytes \<Rightarrow> error + unit" where
  "assertCurrentParseFormat allOutputs allSpends allMeta =
     (if hasMagic MAGIC_OUTPUTS allOutputs \<and> hasMagic MAGIC_SPENDS allSpends \<and> hasMagic MAGIC_META allMeta then Inr ()
      else Inl (BadConfig ''bulk-sync stream of an older format''))"

definition readOutputsRecordSize :: "bytes \<Rightarrow> nat" where
  "readOutputsRecordSize file =
     (let buf = slice 28 32 file in
      if length buf < 4 then OUTPUTS_RECORD_SIZE
      else let rs = unle buf in if rs > 0 then rs else OUTPUTS_RECORD_SIZE)"

definition sortOutputs :: "nat \<Rightarrow> nat \<Rightarrow> bytes \<Rightarrow> (error + bytes) option" where
  "sortOutputs outputsRecordSize ramBudgetBytes allOutputs =
     externalSort \<lparr>so_headerSize = HEADER_SIZE, so_recordSize = int outputsRecordSize, so_keySize = int OUTPUTS_KEY_SIZE,
       so_ramBudgetBytes = ramBudgetBytes, so_preserveHeader = False\<rparr> allOutputs"

definition sortSpends :: "nat \<Rightarrow> bytes \<Rightarrow> (error + bytes) option" where
  "sortSpends ramBudgetBytes allSpends =
     externalSort \<lparr>so_headerSize = HEADER_SIZE, so_recordSize = int SPENDS_RECORD_SIZE, so_keySize = int SPENDS_KEY_SIZE,
       so_ramBudgetBytes = ramBudgetBytes, so_preserveHeader = False\<rparr> allSpends"

text \<open>Running one fallible step that may not return after another.\<close>

definition obind :: "(error + 'a) option \<Rightarrow> ('a \<Rightarrow> (error + 'b) option) \<Rightarrow> (error + 'b) option" where
  "obind x f = (case x of None \<Rightarrow> None | Some (Inl e) \<Rightarrow> Some (Inl e) | Some (Inr a) \<Rightarrow> f a)"

lemma obind_simps [simp]: "obind None f = None" "obind (Some (Inl e)) f = Some (Inl e)" "obind (Some (Inr a)) f = f a"
  by (simp_all add: obind_def)

definition antiJoinLiveUtxos :: "int \<Rightarrow> nat \<Rightarrow> bytes \<Rightarrow> bytes \<Rightarrow> (error + bytes) option" where
  "antiJoinLiveUtxos from' outputsRecordSize sortedOutputs sortedSpends =
     obind (leftAntiJoin \<lparr>jo_leftHeaderSize = 0, jo_rightHeaderSize = 0, jo_leftRecordSize = int outputsRecordSize,
       jo_rightRecordSize = int SPENDS_RECORD_SIZE, jo_keySize = int OUTPUTS_KEY_SIZE, jo_copyLeftHeader = False\<rparr>
       sortedOutputs sortedSpends) (\<lambda>joinResult.
     if jr_orphanSpends joinResult > 0 \<and> from' = 0 then Some (Inl (BadConfig ''orphan spends on a from-genesis run''))
     else Some (Inr (jr_output joinResult)))"

record merged =
  pm_allOutputs :: bytes
  pm_allMeta :: bytes
  pm_sortedSpends :: bytes
  pm_liveUtxos :: bytes

text \<open>\<open>phaseMerge\<close> up to the key derivation, which reads these four files. \<open>ramBudget\<close> is in MiB.\<close>

definition phaseMerge :: "nat \<Rightarrow> int \<Rightarrow> streams list \<Rightarrow> (error + merged) option" where
  "phaseMerge ramBudget from' parsed =
     obind (Some (concatFilesWithHeader (map sm_outputs parsed) HEADER_SIZE)) (\<lambda>allOutputs.
     obind (Some (concatFilesWithHeader (map sm_spends parsed) HEADER_SIZE)) (\<lambda>allSpends.
     obind (Some (concatFilesWithHeader (map sm_meta parsed) HEADER_SIZE)) (\<lambda>allMeta.
     obind (Some (assertCurrentParseFormat allOutputs allSpends allMeta)) (\<lambda>_.
     let outputsRecordSize = readOutputsRecordSize allOutputs; ramBudgetBytes = ramBudget * 1024 * 1024 in
     if outputsRecordSize \<noteq> OUTPUTS_RECORD_SIZE then Some (Inl (BadConfig ''outputs record size''))
     else
       obind (sortOutputs outputsRecordSize ramBudgetBytes allOutputs) (\<lambda>sortedOutputs.
       obind (sortSpends ramBudgetBytes allSpends) (\<lambda>sortedSpends.
       obind (antiJoinLiveUtxos from' outputsRecordSize sortedOutputs sortedSpends) (\<lambda>liveUtxos.
       Some (Inr \<lparr>pm_allOutputs = allOutputs, pm_allMeta = allMeta, pm_sortedSpends = sortedSpends, pm_liveUtxos = liveUtxos\<rparr>))))))))"

subsection \<open>The ledger\<close>

text \<open>The specification: blocks are applied one by one to a map of unspent outputs; a block's outputs come before its spends.\<close>

type_synonym outpoint' = "bytes \<times> u32"

definition point :: "utxo \<Rightarrow> outpoint'" where
  "point u = (ux_txid u, ux_vout u)"

definition spent_point :: "bytes \<times> u32 \<times> bytes \<Rightarrow> outpoint'" where
  "spent_point s = (fst s, fst (snd s))"

definition apply_block :: "(bytes \<Rightarrow> bytes) \<Rightarrow> chain_block \<Rightarrow> (outpoint' \<rightharpoonup> utxo) \<Rightarrow> (outpoint' \<rightharpoonup> utxo)" where
  "apply_block sha b U = (U ++ map_of (map (\<lambda>u. (point u, u)) (created sha b))) |` (- set (map spent_point (spends b)))"

definition ledger :: "(bytes \<Rightarrow> bytes) \<Rightarrow> chain_block list \<Rightarrow> (outpoint' \<rightharpoonup> utxo)" where
  "ledger sha bs = fold (apply_block sha) bs Map.empty"

text \<open>No block spends an output that only a later block creates.\<close>

fun spends_in_order :: "(bytes \<Rightarrow> bytes) \<Rightarrow> chain_block list \<Rightarrow> bool" where
  "spends_in_order sha [] \<longleftrightarrow> True"
| "spends_in_order sha (b # bs) \<longleftrightarrow>
     (\<forall>p \<in> set (map spent_point (spends b)). p \<notin> set (map point (concat (map (created sha) bs)))) \<and> spends_in_order sha bs"

text \<open>What a live file means: the map from outpoints to the outputs its records hold.\<close>

definition dec_utxo :: "bytes \<Rightarrow> utxo" where
  "dec_utxo r = \<lparr>ux_txid = slice OUT_TXID (OUT_TXID + 32) r, ux_vout = unbe32 (slice OUT_VOUT (OUT_VOUT + 4) r),
     ux_value = int (unbe (slice OUT_VALUE (OUT_VALUE + 8) r)),
     ux_height = (let n = int (unbe (slice OUT_HEIGHT (OUT_HEIGHT + 4) r)) in if n \<ge> 2147483648 then n - 4294967296 else n),
     ux_script = slice OUT_SCRIPT (OUT_SCRIPT + 32) r, ux_block = slice OUT_BLOCK (OUT_BLOCK + 32) r,
     ux_coinbase = (r ! OUT_COINBASE = 1)\<rparr>"

definition utxo_map :: "bytes \<Rightarrow> (outpoint' \<rightharpoonup> utxo)" where
  "utxo_map file = map_of (map (\<lambda>r. (point (dec_utxo r), dec_utxo r)) (records OUTPUTS_RECORD_SIZE file))"

subsection \<open>The ledger is creation less spending\<close>

definition pairs :: "utxo list \<Rightarrow> (outpoint' \<times> utxo) list" where
  "pairs us = map (\<lambda>u. (point u, u)) us"

lemma fst_pairs: "map fst (pairs us) = map point us"
  by (simp add: pairs_def)

lemma dom_pairs [simp]: "dom (map_of (pairs us)) = point ` set us"
  by (force simp: pairs_def dom_map_of_conv_image_fst)

lemma map_of_pairs_append:
  "distinct (map point (us @ vs)) \<Longrightarrow> map_of (pairs (us @ vs)) = map_of (pairs us) ++ map_of (pairs vs)"
  by (simp add: pairs_def) (rule map_add_comm, force simp: dom_map_of_conv_image_fst)

lemma restrict_add:
  assumes "dom M \<inter> s = {}"
  shows "(X |` (- s)) ++ M = (X ++ M) |` (- s)"
proof
  fix k
  show "((X |` (- s)) ++ M) k = ((X ++ M) |` (- s)) k"
  proof (cases "k \<in> s")
    case True
    then have "M k = None" using assms by blast
    then show ?thesis using True by (simp add: map_add_def)
  qed (simp add: map_add_def restrict_map_def)
qed

lemma ledger_from:
  assumes "distinct (map point (concat (map (created sha) bs)))" and "spends_in_order sha bs"
  shows "fold (apply_block sha) bs U =
    (U ++ map_of (pairs (concat (map (created sha) bs)))) |` (- set (map spent_point (concat (map spends bs))))"
  using assms
proof (induction bs arbitrary: U)
  case Nil
  then show ?case by (simp add: pairs_def)
next
  case (Cons b bs)
  let ?C = "map_of (pairs (created sha b))" and ?M = "map_of (pairs (concat (map (created sha) bs)))"
  let ?s = "set (map spent_point (spends b))" and ?S = "set (map spent_point (concat (map spends bs)))"
  have d: "distinct (map point (created sha b @ concat (map (created sha) bs)))" using Cons.prems(1) by simp
  have "dom ?M \<inter> ?s = {}" using Cons.prems(2) unfolding dom_pairs spends_in_order.simps set_map by blast
  then have "((U ++ ?C) |` (- ?s)) ++ ?M = (U ++ ?C ++ ?M) |` (- ?s)"
    by (rule restrict_add)
  moreover have "fold (apply_block sha) bs (apply_block sha b U) = (apply_block sha b U ++ ?M) |` (- ?S)"
    using Cons by simp
  moreover have "apply_block sha b U = (U ++ ?C) |` (- ?s)" by (simp add: apply_block_def pairs_def)
  ultimately show ?case using map_of_pairs_append [OF d] by (simp add: Int_commute)
qed

subsection \<open>Records and their keys\<close>

lemma length_enc_utxo: "utxo_ok u \<Longrightarrow> length (enc_utxo u) = OUTPUTS_RECORD_SIZE"
  by (simp add: utxo_ok_def enc_utxo_def OUTPUTS_RECORD_SIZE_def)

lemma dec_enc_utxo: "utxo_ok u \<Longrightarrow> dec_utxo (enc_utxo u) = u"
proof -
  assume ok: "utxo_ok u"
  then have len: "length (ux_txid u) = 32" "length (ux_script u) = 32" "length (ux_block u) = 32"
    and v: "nat (ux_value u) < 256 ^ 8" "0 \<le> ux_value u" and h: "- 2147483648 \<le> ux_height u" "ux_height u \<le> 2147483647"
    by (simp_all add: utxo_ok_def nat_less_iff)
  have "slice 0 32 (enc_utxo u) = ux_txid u" "slice 32 36 (enc_utxo u) = be32 (ux_vout u)"
    "slice 36 44 (enc_utxo u) = be 8 (nat (ux_value u))" "slice 44 48 (enc_utxo u) = be 4 (nat (ux_height u mod 4294967296))"
    "slice 48 80 (enc_utxo u) = ux_script u" "slice 80 112 (enc_utxo u) = ux_block u"
    "enc_utxo u ! 112 = (if ux_coinbase u then 1 else 0)"
    using len by (simp_all add: enc_utxo_def slice_def nth_append)
  moreover have "int (nat (ux_height u mod 4294967296)) = ux_height u mod 4294967296" by simp
  moreover have "ux_height u mod 4294967296 = (if ux_height u < 0 then ux_height u + 4294967296 else ux_height u)"
    using h by (simp add: mod_pos_pos_trivial) (smt (verit) mod_add_self2 mod_pos_pos_trivial)
  moreover have "nat (ux_height u mod 4294967296) mod 4294967296 = nat (ux_height u mod 4294967296)"
    by (simp add: nat_less_iff)
  ultimately show ?thesis using v h by (simp add: dec_utxo_def layout_defs Let_def)
qed

lemma records_enc: "\<forall>u \<in> set us. utxo_ok u \<Longrightarrow> records OUTPUTS_RECORD_SIZE (concat (map enc_utxo us)) = map enc_utxo us"
  by (rule records_concat) (auto simp: length_enc_utxo OUTPUTS_RECORD_SIZE_def)

lemma utxo_map_enc: "\<forall>u \<in> set us. utxo_ok u \<Longrightarrow> utxo_map (concat (map enc_utxo us)) = map_of (pairs us)"
  by (simp add: utxo_map_def records_enc pairs_def comp_def dec_enc_utxo cong: map_cong)

definition opkey :: "outpoint' \<Rightarrow> bytes" where
  "opkey p = fst p @ be32 (snd p)"

lemma opkey_inj: "length (fst p) = 32 \<Longrightarrow> length (fst q) = 32 \<Longrightarrow> opkey p = opkey q \<Longrightarrow> p = q"
  by (cases p; cases q) (simp add: opkey_def)

lemma key_enc_utxo: "utxo_ok u \<Longrightarrow> take 36 (enc_utxo u) = opkey (point u)"
  by (simp add: utxo_ok_def enc_utxo_def opkey_def point_def)

definition spend_ok :: "bytes \<times> u32 \<times> bytes \<Rightarrow> bool" where
  "spend_ok s \<longleftrightarrow> length (fst s) = 32 \<and> length (snd (snd s)) = 32"

lemma length_enc_spend: "spend_ok s \<Longrightarrow> length (enc_spend s) = SPENDS_RECORD_SIZE"
  by (cases s) (simp add: spend_ok_def enc_spend_def SPENDS_RECORD_SIZE_def)

lemma key_enc_spend: "spend_ok s \<Longrightarrow> take 36 (enc_spend s) = opkey (spent_point s)"
  by (cases s) (simp add: spend_ok_def enc_spend_def opkey_def spent_point_def)

lemma records_enc_spend: "\<forall>s \<in> set ss. spend_ok s \<Longrightarrow> records SPENDS_RECORD_SIZE (concat (map enc_spend ss)) = map enc_spend ss"
  by (rule records_concat) (auto simp: length_enc_spend SPENDS_RECORD_SIZE_def)

lemma length_all_enc: "\<forall>u \<in> set us. utxo_ok u \<Longrightarrow> length (concat (map enc_utxo us)) = length us * OUTPUTS_RECORD_SIZE"
  by (induction us) (simp_all add: length_enc_utxo)

lemma length_all_enc_spend: "\<forall>s \<in> set ss. spend_ok s \<Longrightarrow> length (concat (map enc_spend ss)) = length ss * SPENDS_RECORD_SIZE"
  by (induction ss) (simp_all add: length_enc_spend)

subsection \<open>Sorting and cancelling\<close>

definition sorted_outputs :: "utxo list \<Rightarrow> utxo list" where
  "sorted_outputs us = sort_key (\<lambda>u. take 36 (enc_utxo u)) us"

definition sorted_spends :: "(bytes \<times> u32 \<times> bytes) list \<Rightarrow> (bytes \<times> u32 \<times> bytes) list" where
  "sorted_spends ss = sort_key (\<lambda>s. take 36 (enc_spend s)) ss"

lemma set_sorted [simp]: "set (sorted_outputs us) = set us" "set (sorted_spends ss) = set ss"
  by (simp_all add: sorted_outputs_def sorted_spends_def)

lemma sort_enc: "sort_key (take 36) (map enc_utxo us) = map enc_utxo (sorted_outputs us)"
    "sort_key (take 36) (map enc_spend ss) = map enc_spend (sorted_spends ss)"
  by (simp_all add: sorted_outputs_def sorted_spends_def map_sort_key)

lemma sortOutputs_enc:
  assumes "length h = 64" and "\<forall>u \<in> set us. utxo_ok u"
  shows "sortOutputs OUTPUTS_RECORD_SIZE ram (h @ concat (map enc_utxo us)) = Some (Inr (concat (map enc_utxo (sorted_outputs us))))"
proof -
  have dvd: "int OUTPUTS_RECORD_SIZE dvd int (length (h @ concat (map enc_utxo us)) - HEADER_SIZE)"
    using assms(1) length_all_enc [OF assms(2)] by (simp add: HEADER_SIZE_def)
  show ?thesis
    unfolding sortOutputs_def
    by (subst externalSort_result) (use dvd assms in \<open>simp_all add: records_enc sort_enc HEADER_SIZE_def OUTPUTS_KEY_SIZE_def\<close>,
        simp_all add: OUTPUTS_RECORD_SIZE_def)
qed

lemma sortSpends_enc:
  assumes "length h = 64" and "\<forall>s \<in> set ss. spend_ok s"
  shows "sortSpends ram (h @ concat (map enc_spend ss)) = Some (Inr (concat (map enc_spend (sorted_spends ss))))"
proof -
  have dvd: "int SPENDS_RECORD_SIZE dvd int (length (h @ concat (map enc_spend ss)) - HEADER_SIZE)"
    using assms(1) length_all_enc_spend [OF assms(2)] by (simp add: HEADER_SIZE_def)
  show ?thesis
    unfolding sortSpends_def
    by (subst externalSort_result) (use dvd assms in \<open>simp_all add: records_enc_spend sort_enc HEADER_SIZE_def SPENDS_KEY_SIZE_def\<close>,
        simp_all add: SPENDS_RECORD_SIZE_def)
qed

lemma subset_mset_distinct:
  assumes "distinct ys"
  shows "mset xs \<subseteq># mset ys \<longleftrightarrow> distinct xs \<and> set xs \<subseteq> set ys"
proof
  assume a: "mset xs \<subseteq># mset ys"
  have "count (mset xs) a \<le> count (mset ys) a" for a using a by (rule mset_subset_eq_count)
  moreover have "count (mset ys) a = (if a \<in> set ys then 1 else 0)" for a using assms by (simp add: distinct_count_atmost_1)
  ultimately have le: "count (mset xs) a \<le> 1" "a \<in> set xs \<Longrightarrow> a \<in> set ys" for a
    by (metis le_numeral_extra(3,4) zero_le_one order.trans) (metis a mset_subset_eqD set_mset_mset)
  have "count (mset xs) a = (if a \<in> set xs then 1 else 0)" for a
    using le(1) [of a] by (cases "a \<in> set xs") (auto simp: le_Suc_eq dest: count_mset_0_iff [THEN iffD1])
  then show "distinct xs \<and> set xs \<subseteq> set ys" using le(2) by (auto simp: distinct_count_atmost_1)
next
  assume "distinct xs \<and> set xs \<subseteq> set ys"
  then show "mset xs \<subseteq># mset ys" using assms by (metis mset_set_set finite_set subset_imp_msubset_mset_set)
qed

text \<open>The join over the two sorted files: the outputs that stay, and whether a spend was left over.\<close>

lemma antiJoin_enc:
  assumes "\<forall>u \<in> set us. utxo_ok u" and "\<forall>s \<in> set ss. spend_ok s" and "distinct (map point us)"
  shows "antiJoinLiveUtxos 0 OUTPUTS_RECORD_SIZE (concat (map enc_utxo (sorted_outputs us))) (concat (map enc_spend (sorted_spends ss)))
    = Some (if distinct (map spent_point ss) \<and> set (map spent_point ss) \<subseteq> set (map point us)
        then Inr (concat (map enc_utxo (filter (\<lambda>u. point u \<notin> set (map spent_point ss)) (sorted_outputs us))))
        else Inl (BadConfig ''orphan spends on a from-genesis run''))"
proof -
  let ?key = "take 36" and ?us = "sorted_outputs us" and ?ss = "sorted_spends ss"
  let ?L = "map enc_utxo ?us" and ?R = "map enc_spend ?ss"
  let ?opts = "\<lparr>jo_leftHeaderSize = 0, jo_rightHeaderSize = 0, jo_leftRecordSize = int OUTPUTS_RECORD_SIZE,
       jo_rightRecordSize = int SPENDS_RECORD_SIZE, jo_keySize = int OUTPUTS_KEY_SIZE, jo_copyLeftHeader = False\<rparr>"
  have recs: "records OUTPUTS_RECORD_SIZE (concat ?L) = ?L" "records SPENDS_RECORD_SIZE (concat ?R) = ?R"
    using assms(1,2) by (simp_all add: records_enc records_enc_spend)
  have dvd: "OUTPUTS_RECORD_SIZE dvd length (concat ?L)" "SPENDS_RECORD_SIZE dvd length (concat ?R)"
    using assms(1,2) length_all_enc [of ?us] length_all_enc_spend [of ?ss] by simp_all
  have srt: "sorted (map ?key ?L)" "sorted (map ?key ?R)"
    by (simp_all add: sort_enc [symmetric])
  obtain es os where aj: "anti_join ?key ?L ?R = (es, os)" by force
  have join: "leftAntiJoin ?opts (concat ?L) (concat ?R) = Some (Inr \<lparr>jr_output = concat es, jr_leftRead = length ?L,
      jr_rightRead = length ?R, jr_emitted = length es, jr_canceled = length ?L - length es,
      jr_orphanSpends = length os, jr_anomalies = map ?key os\<rparr>)"
    using dvd aj recs by (subst leftAntiJoin_result) (simp_all add: OUTPUTS_KEY_SIZE_def, simp_all add: OUTPUTS_RECORD_SIZE_def SPENDS_RECORD_SIZE_def)
  have kl: "map ?key ?L = map (\<lambda>u. opkey (point u)) ?us" using assms(1) by (simp add: key_enc_utxo)
  have kr: "map ?key ?R = map (\<lambda>s. opkey (spent_point s)) ?ss" using assms(2) by (simp add: key_enc_spend)
  let ?A = "set (map point us) \<union> set (map spent_point ss)"
  have "length (fst p) = 32" if "p \<in> ?A" for p
    using that assms(1,2) by (auto simp: point_def spent_point_def utxo_ok_def spend_ok_def)
  then have inj: "inj_on opkey ?A" unfolding inj_on_def using opkey_inj by blast
  have iu: "inj_on opkey (set (map point us))" and iss: "inj_on opkey (set (map spent_point ss))"
    by (rule inj_on_subset [OF inj], blast)+
  have du: "distinct (map opkey (map point us))" using assms(3) iu by (simp only: distinct_map simp_thms)
  have perm: "mset (map point ?us) = mset (map point us)" "mset (map spent_point ?ss) = mset (map spent_point ss)"
    by (simp_all add: sorted_outputs_def sorted_spends_def)
  have "mset (map opkey (map point ?us)) = mset (map opkey (map point us))" using perm(1) by (simp only: mset_map)
  then have "distinct (map opkey (map point ?us))" using du by (rule mset_eq_imp_distinct_iff [THEN iffD2])
  then have dl: "distinct (map ?key ?L)" unfolding kl by (simp only: map_map comp_def)
  have "es = filter (\<lambda>l. ?key l \<notin> ?key ` set ?R) ?L" using anti_join_filter [OF srt dl] aj by simp
  also have "\<dots> = map enc_utxo (filter (\<lambda>u. ?key (enc_utxo u) \<notin> ?key ` set ?R) ?us)" by (simp add: filter_map comp_def)
  also have "filter (\<lambda>u. ?key (enc_utxo u) \<notin> ?key ` set ?R) ?us = filter (\<lambda>u. point u \<notin> set (map spent_point ss)) ?us"
  proof (rule filter_cong [OF refl])
    fix u assume u: "u \<in> set ?us"
    have "?key ` set ?R = opkey ` set (map spent_point ss)" using arg_cong [OF kr, of set] by (simp add: image_image)
    moreover have "?key (enc_utxo u) = opkey (point u)" using u assms(1) by (simp add: key_enc_utxo)
    moreover have "opkey (point u) \<in> opkey ` set (map spent_point ss) \<longleftrightarrow> point u \<in> set (map spent_point ss)"
      using u by (intro inj_on_image_mem_iff [OF inj]) auto
    ultimately show "(?key (enc_utxo u) \<notin> ?key ` set ?R) = (point u \<notin> set (map spent_point ss))" by simp
  qed
  finally have es: "es = map enc_utxo (filter (\<lambda>u. point u \<notin> set (map spent_point ss)) ?us)" .
  have "os = [] \<longleftrightarrow> mset (map ?key ?R) - mset (map ?key ?L) = {#}"
    using anti_join_spec [OF srt] aj by (metis fst_conv snd_conv mset_map mset_zero_iff image_mset_is_empty_iff)
  also have "\<dots> \<longleftrightarrow> mset (map ?key ?R) \<subseteq># mset (map ?key ?L)" by (simp add: Diff_eq_empty_iff_mset)
  also have "\<dots> \<longleftrightarrow> image_mset opkey (mset (map spent_point ss)) \<subseteq># image_mset opkey (mset (map point us))"
  proof -
    have "mset (map ?key ?R) = image_mset opkey (mset (map spent_point ?ss))" unfolding kr by (simp add: multiset.map_comp comp_def)
    moreover have "mset (map ?key ?L) = image_mset opkey (mset (map point ?us))" unfolding kl by (simp add: multiset.map_comp comp_def)
    ultimately show ?thesis by (simp only: perm)
  qed
  also have "\<dots> \<longleftrightarrow> mset (map opkey (map spent_point ss)) \<subseteq># mset (map opkey (map point us))" by (simp only: mset_map)
  also have "\<dots> \<longleftrightarrow> distinct (map opkey (map spent_point ss)) \<and> set (map opkey (map spent_point ss)) \<subseteq> set (map opkey (map point us))"
    by (rule subset_mset_distinct [OF du])
  also have "\<dots> \<longleftrightarrow> distinct (map spent_point ss) \<and> set (map spent_point ss) \<subseteq> set (map point us)"
  proof -
    have "distinct (map opkey (map spent_point ss)) = distinct (map spent_point ss)"
      using iss by (simp only: distinct_map simp_thms)
    moreover have "set (map opkey (map spent_point ss)) \<subseteq> set (map opkey (map point us)) \<longleftrightarrow> set (map spent_point ss) \<subseteq> set (map point us)"
      unfolding set_map [of opkey] using inj unfolding inj_on_def by blast
    ultimately show ?thesis by simp
  qed
  finally show ?thesis using join es by (auto simp: antiJoinLiveUtxos_def)
qed

subsection \<open>Concatenated streams\<close>

text \<open>The dumps of consecutive ranges of one chain.\<close>

fun contiguous_from :: "nat \<Rightarrow> string \<Rightarrow> string \<Rightarrow> xdmp_reader list \<Rightarrow> bool" where
  "contiguous_from p c n [] \<longleftrightarrow> True"
| "contiguous_from p c n (r # rs) \<longleftrightarrow> xr_firstHeight r = p + 1 \<and> xr_chain r = c \<and> xr_network r = n
     \<and> contiguous_from (xr_lastHeight r) c n rs"

fun contiguous :: "xdmp_reader list \<Rightarrow> bool" where
  "contiguous [] \<longleftrightarrow> False"
| "contiguous (r # rs) \<longleftrightarrow> contiguous_from (xr_lastHeight r) (xr_chain r) (xr_network r) rs"

definition header_of :: "bytes \<Rightarrow> nat \<Rightarrow> xdmp_reader \<Rightarrow> dat_header" where
  "header_of magic n r = \<lparr>dh_magic = ascii magic, dh_chain = the (CHAIN_CODES (xr_chain r)),
     dh_net = the (NETWORK_CODES (xr_network r)), dh_recordSize = n\<rparr>"

definition hfile :: "bytes \<Rightarrow> nat \<Rightarrow> xdmp_reader \<Rightarrow> nat \<Rightarrow> bytes \<Rightarrow> bytes \<Rightarrow> bool" where
  "hfile magic n r k body file \<longleftrightarrow> stream_of magic r n k body file \<and> k < 2 ^ 64 \<and> (k = 0 \<longrightarrow> body = []) \<and> length magic = 8"

lemma hfile_header:
  assumes "hfile magic n r k body file"
  obtains h where "file = h @ body" and "length h = 64" and "slice 0 8 h = magic" and "unat (h ! 8) = the (CHAIN_CODES (xr_chain r))"
    and "unat (h ! 9) = the (NETWORK_CODES (xr_network r))" and "unle (slice 12 16 h) = xr_firstHeight r"
    and "unle (slice 16 20 h) = xr_lastHeight r" and "unle (slice 20 28 h) = k" and "unle (slice 28 32 h) = n"
    and "xr_lastHeight r \<le> 4294967295"
proof -
  obtain h0 where h0: "streamHeader magic (xr_chain r) (xr_network r) (int (xr_firstHeight r)) (int (xr_lastHeight r)) n = Inr h0"
    "file = backfillRecordCount k h0 @ body"
    using assms by (auto simp: hfile_def stream_of_def)
  obtain c m where cm: "CHAIN_CODES (xr_chain r) = Some c" "NETWORK_CODES (xr_network r) = Some m"
    using h0(1) by (auto simp: streamHeader_def split: option.splits)
  have mg: "length magic = 8" and k: "k < 2 ^ 64" using assms by (auto simp: hfile_def)
  have b: "xr_firstHeight r \<le> 4294967295" "xr_lastHeight r \<le> 4294967295" "n \<le> 4294967295"
    and h: "h0 = magic @ [of_nat c, of_nat m] @ le 2 2 @ le 4 (xr_firstHeight r) @ le 4 (xr_lastHeight r) @ replicate 8 0 @ le 4 n @ replicate 32 0"
    using h0(1) cm mg by (auto simp: streamHeader_def rbind_Inr_iff writeUInt32LE_Inr)
  let ?h = "backfillRecordCount k h0"
  have e: "?h = magic @ [of_nat c, of_nat m] @ le 2 2 @ le 4 (xr_firstHeight r) @ le 4 (xr_lastHeight r) @ le 8 k @ le 4 n @ replicate 32 0"
    using mg by (simp add: h backfillRecordCount_def)
  have "unat (of_nat c :: byte) = c" "unat (of_nat m :: byte) = m"
    using CHAIN_codes(2) [OF cm(1)] NETWORK_codes(2) [OF cm(2)] by simp_all
  moreover have "slice 0 8 ?h = magic" "?h ! 8 = of_nat c" "?h ! 9 = of_nat m" "slice 12 16 ?h = le 4 (xr_firstHeight r)"
    "slice 16 20 ?h = le 4 (xr_lastHeight r)" "slice 20 28 ?h = le 8 k" "slice 28 32 ?h = le 4 n" "length ?h = 64"
    using mg by (simp_all add: e slice_def nth_append)
  ultimately show ?thesis
    using b k cm by (intro that [OF h0(2)]) simp_all
qed

lemma concatInput_ok:
  assumes "hfile magic n r k body file"
    and "cs_first s = None \<or> (cs_first s = Some (header_of magic n r) \<and> cs_prevLast s = Some p \<and> xr_firstHeight r = p + 1)"
  shows "\<exists>mx. concatInput HEADER_SIZE file s = Inr \<lparr>cs_first = Some (header_of magic n r), cs_prevLast = Some (xr_lastHeight r),
    cs_count = cs_count s + k, cs_maxLast = mx, cs_out = cs_out s @ (if cs_first s = None then file else body)\<rparr>"
proof -
  obtain h where h: "file = h @ body" "length h = 64" "slice 0 8 h = magic" "unat (h ! 8) = the (CHAIN_CODES (xr_chain r))"
    "unat (h ! 9) = the (NETWORK_CODES (xr_network r))" "unle (slice 12 16 h) = xr_firstHeight r"
    "unle (slice 16 20 h) = xr_lastHeight r" "unle (slice 20 28 h) = k" "unle (slice 28 32 h) = n"
    by (rule hfile_header [OF assms(1)])
  have "take HEADER_SIZE file = h" "drop HEADER_SIZE file = body" "\<not> length file < HEADER_SIZE"
    using h(1,2) by (simp_all add: HEADER_SIZE_def)
  moreover have "\<not> (k = 0 \<and> length file \<noteq> HEADER_SIZE)"
    using assms(1) h(1,2) by (auto simp: hfile_def HEADER_SIZE_def)
  ultimately have "checkInputHeader (take HEADER_SIZE file) (length file) HEADER_SIZE (cs_first s) (cs_prevLast s)
      = Inr (header_of magic n r, k, xr_lastHeight r)"
    using assms(2) h(3-9) unfolding checkInputHeader_def Let_def by (auto simp: header_of_def)
  then show ?thesis
    using assms(2) \<open>drop HEADER_SIZE file = body\<close> \<open>\<not> length file < HEADER_SIZE\<close> by (auto simp: concatInput_def)
qed

lemma concatInputs_ok:
  assumes "\<forall>x \<in> set xs. hfile magic n (Rd x) (Kf x) (B x) (F x)" and "contiguous_from p c m (map Rd xs)"
    and "cs_first s = Some \<lparr>dh_magic = ascii magic, dh_chain = the (CHAIN_CODES c), dh_net = the (NETWORK_CODES m), dh_recordSize = n\<rparr>"
    and "cs_prevLast s = Some p"
  shows "\<exists>s'. concatInputs HEADER_SIZE (map F xs) s = Inr s' \<and> cs_out s' = cs_out s @ concat (map B xs)
    \<and> cs_count s' = cs_count s + sum_list (map Kf xs)"
  using assms
proof (induction xs arbitrary: p s)
  case (Cons x xs)
  have hf: "hfile magic n (Rd x) (Kf x) (B x) (F x)" using Cons.prems(1) by simp
  have hd: "header_of magic n (Rd x) = \<lparr>dh_magic = ascii magic, dh_chain = the (CHAIN_CODES c), dh_net = the (NETWORK_CODES m), dh_recordSize = n\<rparr>"
    using Cons.prems(2) by (simp add: header_of_def)
  have "cs_first s = None \<or> (cs_first s = Some (header_of magic n (Rd x)) \<and> cs_prevLast s = Some p \<and> xr_firstHeight (Rd x) = p + 1)"
    using Cons.prems hd by simp
  then obtain mx where mx: "concatInput HEADER_SIZE (F x) s = Inr \<lparr>cs_first = Some (header_of magic n (Rd x)), cs_prevLast = Some (xr_lastHeight (Rd x)),
    cs_count = cs_count s + Kf x, cs_maxLast = mx, cs_out = cs_out s @ B x\<rparr>"
    using concatInput_ok [OF hf] Cons.prems(3) by fastforce
  then show ?case
    using Cons.IH [of "xr_lastHeight (Rd x)" "\<lparr>cs_first = Some (header_of magic n (Rd x)), cs_prevLast = Some (xr_lastHeight (Rd x)),
      cs_count = cs_count s + Kf x, cs_maxLast = mx, cs_out = cs_out s @ B x\<rparr>"] Cons.prems(1,2) hd by (auto simp: add.assoc)
qed simp

lemma concat_streams:
  assumes "\<forall>x \<in> set xs. hfile magic n (Rd x) (Kf x) (B x) (F x)" and "contiguous (map Rd xs)" and "sum_list (map Kf xs) < 2 ^ 64"
  obtains h where "concatFilesWithHeader (map F xs) HEADER_SIZE = Inr (h @ concat (map B xs))" and "length h = 64"
    and "take 8 h = magic" and "unle (slice 28 32 h) = n" and "unle (slice 20 28 h) = sum_list (map Kf xs)"
proof (cases xs)
  case Nil
  then show ?thesis using assms(2) by simp
next
  case (Cons x ys)
  have hf: "hfile magic n (Rd x) (Kf x) (B x) (F x)" using assms(1) Cons by simp
  obtain h where h: "F x = h @ B x" "length h = 64" "slice 0 8 h = magic" "unle (slice 28 32 h) = n"
    by (rule hfile_header [OF hf])
  let ?s0 = "\<lparr>cs_first = None, cs_prevLast = None, cs_count = 0, cs_maxLast = 0, cs_out = []\<rparr>"
  obtain mx where mx: "concatInput HEADER_SIZE (F x) ?s0 = Inr \<lparr>cs_first = Some (header_of magic n (Rd x)),
      cs_prevLast = Some (xr_lastHeight (Rd x)), cs_count = Kf x, cs_maxLast = mx, cs_out = F x\<rparr>"
    using concatInput_ok [OF hf, of ?s0] by auto
  obtain s' where s': "concatInputs HEADER_SIZE (map F ys) \<lparr>cs_first = Some (header_of magic n (Rd x)),
      cs_prevLast = Some (xr_lastHeight (Rd x)), cs_count = Kf x, cs_maxLast = mx, cs_out = F x\<rparr> = Inr s'"
      "cs_out s' = F x @ concat (map B ys)" "cs_count s' = Kf x + sum_list (map Kf ys)"
    using concatInputs_ok [of ys magic n Rd Kf B F "xr_lastHeight (Rd x)" "xr_chain (Rd x)" "xr_network (Rd x)"
        "\<lparr>cs_first = Some (header_of magic n (Rd x)), cs_prevLast = Some (xr_lastHeight (Rd x)), cs_count = Kf x, cs_maxLast = mx, cs_out = F x\<rparr>"]
      assms(1,2) Cons by (auto simp: header_of_def)
  let ?h = "take 16 h @ le 4 (cs_maxLast s') @ le 8 (cs_count s') @ drop 28 h"
  have "\<not> cs_count s' > 18446744073709551615" using s'(3) assms(3) Cons by simp
  then have "patchOutputHeader (cs_maxLast s') (cs_count s') (cs_out s') = Inr (?h @ concat (map B xs))"
    using h(2) Cons by (simp add: patchOutputHeader_def s'(2) h(1))
  then have "concatFilesWithHeader (map F xs) HEADER_SIZE = Inr (?h @ concat (map B xs))"
    using mx s'(1) Cons by (simp add: concatFilesWithHeader_def)
  moreover have "take 8 ?h = magic" using h(2,3) by (simp add: slice_def)
  moreover have "slice 28 32 ?h = slice 28 32 h" using h(2) by (simp add: slice_def)
  moreover have "slice 20 28 ?h = le 8 (cs_count s')" using h(2) by (simp add: slice_def)
  moreover have "cs_count s' = sum_list (map Kf xs)" using s'(3) Cons by simp
  ultimately show ?thesis using h(2,4) assms(3) by (intro that [of ?h]) simp_all
qed

subsection \<open>Bulk sync computes the ledger\<close>

lemma spends_ok: "\<forall>t \<in> set (bl_transactions block). tx_ok t \<Longrightarrow> \<forall>s \<in> set (spends (h, bh, block)). spend_ok s"
  by (auto simp: spends_def tx_spends_def spend_ok_def tx_ok_def prevTxHash_def)

lemma forBlocks_decoded:
  "forBlocks n prev (collectBlock decode) r l = (Inr (), bs) \<Longrightarrow> set bs \<subseteq> set l \<union> {b. \<exists>x. decode x = Inr (snd (snd b))}"
proof (induction n arbitrary: prev r l)
  case (Suc n)
  obtain b r' where b: "nextBlock prev r = Inr (b, r')" using Suc.prems by (cases "nextBlock prev r") auto
  obtain block where d: "decode (db_blockBytes b) = Inr block"
    using Suc.prems b by (cases "decode (db_blockBytes b)") (auto simp: collectBlock_def mseq_def mbind_def)
  have "collectBlock decode b l = (Inr (), l @ [(int (db_height b), db_blockHash b, block)])" using d by (simp add: collectBlock_def)
  then have "forBlocks n (int (db_height b)) (collectBlock decode) r' (l @ [(int (db_height b), db_blockHash b, block)]) = (Inr (), bs)"
    using Suc.prems b by (simp add: mseq_run)
  then show ?case using Suc.IH d by fastforce
qed simp

lemma dumpBlocks_spends:
  assumes "dumpBlocks decode d = Inr bs" and "decoder_ok decode"
  shows "\<forall>s \<in> set (concat (map spends bs)). spend_ok s"
proof -
  obtain r where r: "XdmpReader d = Inr r" and
    c: "(case readBlocks decode r [] of (Inl e, _) \<Rightarrow> Inl e | (Inr _, bs) \<Rightarrow> Inr bs) = Inr bs"
    using assms(1) by (auto simp: dumpBlocks_def rbind_Inr_iff)
  obtain res bs' where rb: "readBlocks decode r [] = (res, bs')" by force
  then have "readBlocks decode r [] = (Inr (), bs)" using c by (cases res) auto
  then have "set bs \<subseteq> {b. \<exists>x. decode x = Inr (snd (snd b))}"
    using forBlocks_decoded [of "xr_blockCount r" "int (xr_firstHeight r) - 1" decode r "[]" bs]
    by (simp add: readBlocks_def xdmpBlocks_def)
  then show ?thesis using spends_ok assms(2) unfolding decoder_ok_def by fastforce
qed

text \<open>The three streams of a worker over the blocks \<open>bs\<close>.\<close>

definition worker_item :: "(bytes \<Rightarrow> bytes) \<Rightarrow> streams \<Rightarrow> xdmp_reader \<Rightarrow> chain_block list \<Rightarrow> bool" where
  "worker_item sha s r bs \<longleftrightarrow> (let us = concat (map (created sha) bs); sp = concat (map spends bs) in
     hfile MAGIC_OUTPUTS OUTPUTS_RECORD_SIZE r (length us) (concat (map enc_utxo us)) (sm_outputs s)
     \<and> hfile MAGIC_SPENDS SPENDS_RECORD_SIZE r (length sp) (concat (map enc_spend sp)) (sm_spends s)
     \<and> hfile MAGIC_META 0 r (length bs) (concat (map meta_of bs)) (sm_meta s)
     \<and> (\<forall>u \<in> set us. utxo_ok u) \<and> (\<forall>s \<in> set sp. spend_ok s))"

lemma parseWorker_item:
  assumes "parseWorker sha decode d = Inr s" and "XdmpReader d = Inr r" and "dumpBlocks decode d = Inr bs"
    and "decoder_ok decode" and "\<And>s. length (sha s) = 32"
    and "length (concat (map (created sha) bs)) < 2 ^ 64" and "length (concat (map spends bs)) < 2 ^ 64" and "length bs < 2 ^ 64"
  shows "worker_item sha s r bs"
proof (rule parseWorker_streams [OF assms(1,4,5)])
  fix r' bs'
  assume *: "XdmpReader d = Inr r'" "dumpBlocks decode d = Inr bs'"
    "stream_of MAGIC_OUTPUTS r' OUTPUTS_RECORD_SIZE (length (concat (map (created sha) bs')))
      (concat (map enc_utxo (concat (map (created sha) bs')))) (sm_outputs s)"
    "stream_of MAGIC_SPENDS r' SPENDS_RECORD_SIZE (length (concat (map spends bs')))
      (concat (map enc_spend (concat (map spends bs')))) (sm_spends s)"
    "stream_of MAGIC_META r' 0 (length bs') (concat (map meta_of bs')) (sm_meta s)"
    "\<forall>u \<in> set (concat (map (created sha) bs')). utxo_ok u"
  then have e: "r' = r" "bs' = bs" using assms(2,3) by simp_all
  have m: "length MAGIC_OUTPUTS = 8" "length MAGIC_SPENDS = 8" "length MAGIC_META = 8"
    by (simp_all add: MAGIC_OUTPUTS_def MAGIC_SPENDS_def MAGIC_META_def)
  show ?thesis
    using *(3-6) assms(6-8) dumpBlocks_spends [OF assms(3,4)] m unfolding e worker_item_def Let_def hfile_def by auto
qed

lemma ascii_magic: "take 8 h = magic \<Longrightarrow> length h = 64 \<Longrightarrow> hasMagic magic (h @ xs)"
  by (simp add: hasMagic_def)

lemma concat_concat_map: "concat (map (\<lambda>x. concat (map f (B x))) xs) = concat (map f (concat (map B xs)))"
  by (induction xs) simp_all

lemma concat_map_concat: "concat (map (\<lambda>x. concat (map f (g x))) xs) = concat (map f (concat (map g xs)))"
  by (induction xs) simp_all

lemma phaseMerge_items:
  fixes S R B xs sha
  defines "bs \<equiv> concat (map B xs)"
  defines "us \<equiv> concat (map (created sha) bs)" and "sp \<equiv> concat (map spends bs)"
  assumes item: "\<forall>x \<in> set xs. worker_item sha (S x) (R x) (B x)" and "contiguous (map R xs)"
    and "length us < 2 ^ 64" and "length sp < 2 ^ 64" and "length bs < 2 ^ 64" and "distinct (map point us)"
  shows "\<exists>oh mh. length oh = 64 \<and> length mh = 64 \<and> take 8 mh = MAGIC_META \<and> unle (slice 20 28 mh) = length bs
    \<and> phaseMerge ram 0 (map S xs) = Some
    (if distinct (map spent_point sp) \<and> set (map spent_point sp) \<subseteq> set (map point us)
     then Inr \<lparr>pm_allOutputs = oh @ concat (map enc_utxo us), pm_allMeta = mh @ concat (map meta_of bs), pm_sortedSpends = concat (map enc_spend (sorted_spends sp)),
        pm_liveUtxos = concat (map enc_utxo (filter (\<lambda>u. point u \<notin> set (map spent_point sp)) (sorted_outputs us)))\<rparr>
     else Inl (BadConfig ''orphan spends on a from-genesis run''))"
proof -
  let ?us = "\<lambda>x. concat (map (created sha) (B x))" and ?sp = "\<lambda>x. concat (map spends (B x))"
  have cat: "concat (map ?us xs) = us" "concat (map ?sp xs) = sp"
    by (simp_all only: us_def sp_def bs_def concat_concat_map)
  have lens: "sum_list (map (\<lambda>x. length (G x)) xs) = length (concat (map G xs))" for G :: "_ \<Rightarrow> 'z list"
    by (simp add: length_concat comp_def)
  have f: "\<forall>x \<in> set xs. hfile MAGIC_OUTPUTS OUTPUTS_RECORD_SIZE (R x) (length (?us x)) (concat (map enc_utxo (?us x))) (sm_outputs (S x))"
    "\<forall>x \<in> set xs. hfile MAGIC_SPENDS SPENDS_RECORD_SIZE (R x) (length (?sp x)) (concat (map enc_spend (?sp x))) (sm_spends (S x))"
    "\<forall>x \<in> set xs. hfile MAGIC_META 0 (R x) (length (B x)) (concat (map meta_of (B x))) (sm_meta (S x))"
    and ok: "\<forall>u \<in> set us. utxo_ok u" "\<forall>s \<in> set sp. spend_ok s"
    using item unfolding cat [symmetric] worker_item_def Let_def by auto
  obtain oh where oh: "concatFilesWithHeader (map (\<lambda>x. sm_outputs (S x)) xs) HEADER_SIZE = Inr (oh @ concat (map enc_utxo us))"
    "length oh = 64" "take 8 oh = MAGIC_OUTPUTS" "unle (slice 28 32 oh) = OUTPUTS_RECORD_SIZE"
    using assms(6) by (rule_tac concat_streams [OF f(1) assms(5)]) (simp_all only: lens concat_concat_map concat_map_concat us_def sp_def bs_def)
  obtain sh where sh: "concatFilesWithHeader (map (\<lambda>x. sm_spends (S x)) xs) HEADER_SIZE = Inr (sh @ concat (map enc_spend sp))"
    "length sh = 64" "take 8 sh = MAGIC_SPENDS"
    using assms(7) by (rule_tac concat_streams [OF f(2) assms(5)]) (simp_all only: lens concat_concat_map concat_map_concat us_def sp_def bs_def)
  obtain mh where mh: "concatFilesWithHeader (map (\<lambda>x. sm_meta (S x)) xs) HEADER_SIZE = Inr (mh @ concat (map meta_of bs))"
    "length mh = 64" "take 8 mh = MAGIC_META" "unle (slice 20 28 mh) = length bs"
    using assms(8) by (rule_tac concat_streams [OF f(3) assms(5)]) (simp_all only: lens concat_concat_map concat_map_concat us_def sp_def bs_def)
  have fmt: "assertCurrentParseFormat (oh @ concat (map enc_utxo us)) (sh @ concat (map enc_spend sp)) (mh @ concat (map meta_of bs)) = Inr ()"
    using ascii_magic oh(2,3) sh(2,3) mh(2,3) by (simp add: assertCurrentParseFormat_def)
  have "slice 28 32 (oh @ concat (map enc_utxo us)) = slice 28 32 oh" using oh(2) by (simp add: slice_def)
  then have rs: "readOutputsRecordSize (oh @ concat (map enc_utxo us)) = OUTPUTS_RECORD_SIZE"
    using oh(2,4) by (simp add: readOutputsRecordSize_def Let_def)
  show ?thesis
    unfolding phaseMerge_def map_map comp_def oh(1) sh(1) mh(1) obind_simps fmt rs Let_def
      sortOutputs_enc [OF oh(2) ok(1)] sortSpends_enc [OF sh(2) ok(2)] antiJoin_enc [OF ok assms(9)]
    by (intro exI [of _ oh] exI [of _ mh]) (simp add: oh(2) mh(2-4))
qed

lemma length_concat_le: "b \<in> set bss \<Longrightarrow> length (concat (map G b)) \<le> length (concat (map G (concat bss))) \<and> length b \<le> length (concat bss)"
  by (induction bss) auto

lemma map_of_filter_keys: "map_of (filter (\<lambda>p. fst p \<notin> X) ps) = map_of ps |` (- X)"
  by (induction ps) (auto simp: restrict_map_def fun_eq_iff)

lemma zip_maps:
  "length ss = length rs \<Longrightarrow> length bs = length rs \<Longrightarrow> map fst (zip ss (zip rs bs)) = ss
    \<and> map (\<lambda>x. fst (snd x)) (zip ss (zip rs bs)) = rs \<and> map (\<lambda>x. snd (snd x)) (zip ss (zip rs bs)) = bs"
  by (auto intro!: nth_equalityI)

text \<open>The records of the live file make up the ledger.\<close>

lemma live_map:
  assumes "\<forall>u \<in> set us. utxo_ok u" and "distinct (map point us)"
  shows "utxo_map (concat (map enc_utxo (filter (\<lambda>u. point u \<notin> X) (sorted_outputs us)))) = map_of (pairs us) |` (- X)"
proof -
  have "utxo_map (concat (map enc_utxo (filter (\<lambda>u. point u \<notin> X) (sorted_outputs us)))) = map_of (pairs (filter (\<lambda>u. point u \<notin> X) (sorted_outputs us)))"
    using assms(1) by (intro utxo_map_enc) simp
  also have "\<dots> = map_of (filter (\<lambda>p. fst p \<notin> X) (pairs (sorted_outputs us)))"
    by (simp add: pairs_def filter_map comp_def)
  also have "\<dots> = map_of (pairs (sorted_outputs us)) |` (- X)"
    by (rule map_of_filter_keys)
  also have "map_of (pairs (sorted_outputs us)) = map_of (pairs us)"
  proof (rule map_of_inject_set [THEN iffD2])
    show "distinct (map fst (pairs (sorted_outputs us)))" "distinct (map fst (pairs us))"
      unfolding fst_pairs using assms(2) by (simp_all add: sorted_outputs_def distinct_map inj_on_def)
    show "set (pairs (sorted_outputs us)) = set (pairs us)" by (simp add: pairs_def)
  qed
  finally show ?thesis .
qed

lemma bulk_merge_result:
  fixes sha decode dumps ss rs bss
  defines "bs \<equiv> concat bss"
  defines "us \<equiv> concat (map (created sha) bs)" and "sp \<equiv> concat (map spends bs)"
  assumes "map (parseWorker sha decode) dumps = map Inr ss" and "map XdmpReader dumps = map Inr rs"
    and "map (dumpBlocks decode) dumps = map Inr bss" and "contiguous rs"
    and "decoder_ok decode" and "\<And>s. length (sha s) = 32"
    and "length us < 2 ^ 64" and "length sp < 2 ^ 64" and "length bs < 2 ^ 64"
    and "distinct (map point us)" and "spends_in_order sha bs"
  shows "(\<forall>u \<in> set us. utxo_ok u)
    \<and> (\<exists>oh mh. length oh = 64 \<and> length mh = 64 \<and> take 8 mh = MAGIC_META \<and> unle (slice 20 28 mh) = length bs
      \<and> phaseMerge ramBudget 0 ss = Some
        (if distinct (map spent_point sp) \<and> set (map spent_point sp) \<subseteq> set (map point us)
         then Inr \<lparr>pm_allOutputs = oh @ concat (map enc_utxo us), pm_allMeta = mh @ concat (map meta_of bs),
           pm_sortedSpends = concat (map enc_spend (sorted_spends sp)),
           pm_liveUtxos = concat (map enc_utxo (filter (\<lambda>u. point u \<notin> set (map spent_point sp)) (sorted_outputs us)))\<rparr>
         else Inl (BadConfig ''orphan spends on a from-genesis run'')))
    \<and> map_of (pairs us) |` (- set (map spent_point sp)) = ledger sha bs"
proof -
  let ?xs = "zip ss (zip rs bss)"
  have len: "length ss = length dumps" "length rs = length dumps" "length bss = length dumps"
    using assms(4-6) by (metis length_map)+
  note maps = zip_maps [of ss rs bss, unfolded len, OF refl refl]
  have item: "\<forall>x \<in> set ?xs. worker_item sha (fst x) (fst (snd x)) (snd (snd x))"
  proof
    fix x assume "x \<in> set ?xs"
    then obtain i where i: "i < length dumps" "x = (ss ! i, rs ! i, bss ! i)" using len by (auto simp: set_zip)
    have d: "parseWorker sha decode (dumps ! i) = Inr (ss ! i)" "XdmpReader (dumps ! i) = Inr (rs ! i)"
      "dumpBlocks decode (dumps ! i) = Inr (bss ! i)"
      using arg_cong [OF assms(4), of "\<lambda>l. l ! i"] arg_cong [OF assms(5), of "\<lambda>l. l ! i"] arg_cong [OF assms(6), of "\<lambda>l. l ! i"] i(1) len by simp_all
    have "bss ! i \<in> set bss" using i(1) len by simp
    note le = length_concat_le [OF this, folded bs_def]
    show "worker_item sha (fst x) (fst (snd x)) (snd (snd x))"
      unfolding i(2) fst_conv snd_conv
      by (rule parseWorker_item [OF d assms(8,9)]) (use le [of "created sha"] le [of spends] assms(10-12) in \<open>simp_all only: us_def sp_def\<close>, linarith+)
  qed
  have okus: "\<forall>u \<in> set us. utxo_ok u"
  proof
    fix u assume "u \<in> set us"
    then obtain b where b: "b \<in> set bss" "u \<in> set (concat (map (created sha) b))" unfolding us_def bs_def by auto
    then have "b \<in> set (map (\<lambda>x. snd (snd x)) ?xs)" by (simp only: maps)
    then obtain x where "x \<in> set ?xs" "snd (snd x) = b" unfolding set_map by blast
    then show "utxo_ok u" using item b(2) unfolding worker_item_def Let_def by blast
  qed
  note m = phaseMerge_items [OF item, of ramBudget, unfolded maps [THEN conjunct1] maps [THEN conjunct2, THEN conjunct1]
      maps [THEN conjunct2, THEN conjunct2], folded bs_def, folded us_def sp_def, OF assms(7,10-13)]
  have "map_of (pairs us) |` (- set (map spent_point sp)) = ledger sha bs"
    unfolding ledger_def using ledger_from [of sha bs Map.empty] assms(13,14) by (simp add: us_def sp_def)
  then show ?thesis using m okus by blast
qed

text \<open>
  C4. Bulk sync refines the ledger. Take dumps of consecutive height ranges of one chain, let one
  worker parse each, in any order, and merge what the workers wrote. Provided no two outputs share an
  outpoint and no block spends an output that only a later block creates, the merge always ends. When
  every spend finds an output of its own, the records of the live file are, as a map from outpoints to
  outputs, exactly the ledger that applies the blocks of all dumps one after the other, for every
  memory budget; otherwise a run from genesis stops at the orphan spends.
\<close>

theorem bulk_merge_refines_ledger:
  fixes sha decode dumps ss rs bss
  defines "bs \<equiv> concat bss"
  defines "us \<equiv> concat (map (created sha) bs)" and "sp \<equiv> concat (map spends bs)"
  assumes "map (parseWorker sha decode) dumps = map Inr ss" and "map XdmpReader dumps = map Inr rs"
    and "map (dumpBlocks decode) dumps = map Inr bss" and "contiguous rs"
    and "decoder_ok decode" and "\<And>s. length (sha s) = 32"
    and "length us < 2 ^ 64" and "length sp < 2 ^ 64" and "length bs < 2 ^ 64"
    and "distinct (map point us)" and "spends_in_order sha bs"
  shows "if distinct (map spent_point sp) \<and> set (map spent_point sp) \<subseteq> set (map point us)
    then \<exists>m. phaseMerge ramBudget 0 ss = Some (Inr m) \<and> utxo_map (pm_liveUtxos m) = ledger sha bs
    else phaseMerge ramBudget 0 ss = Some (Inl (BadConfig ''orphan spends on a from-genesis run''))"
  using bulk_merge_result [OF assms(4-14) [unfolded us_def sp_def bs_def], of ramBudget, folded bs_def, folded us_def sp_def]
    live_map [of us "set (map spent_point sp)"] assms(13)
  by (auto split: if_splits)

text \<open>Two blocks: a coinbase, and a transaction that spends it.\<close>

definition demo_sha :: "bytes \<Rightarrow> bytes" where "demo_sha x = replicate 32 0"

definition demo_tx :: "byte \<Rightarrow> txin \<Rightarrow> tx" where
  "demo_tx c i = \<lparr>tx_id = replicate 32 c, tx_ins = [i], tx_outs = [\<lparr>to_script = [c], to_value = 50\<rparr>]\<rparr>"

definition demo_coinbase :: tx where
  "demo_coinbase = demo_tx 1 \<lparr>ti_hash = replicate 32 0, ti_index = COINBASE_INDEX, ti_standard_input = None\<rparr>"

definition demo_spend :: tx where
  "demo_spend = demo_tx 2 \<lparr>ti_hash = replicate 32 1, ti_index = 0, ti_standard_input = None\<rparr>"

definition demo_block :: "tx \<Rightarrow> block" where
  "demo_block t = \<lparr>bl_timestamp = 7, bl_prevHash = replicate 32 0, bl_transactions = [t]\<rparr>"

definition demo_decode :: "bytes \<Rightarrow> error + block" where
  "demo_decode x = (if x = [1] then Inr (demo_block demo_coinbase) else if x = [2] then Inr (demo_block demo_spend) else Inl UnparsableTx)"

definition demo_fetched :: "fetched_block list" where
  "demo_fetched = [\<lparr>fb_height = 0, fb_hash = b2h (replicate 32 8), fb_hex = b2h [1]\<rparr>, \<lparr>fb_height = 1, fb_hash = b2h (replicate 32 9), fb_hex = b2h [2]\<rparr>]"

definition demo_chain :: "chain_block list" where
  "demo_chain = [(0, replicate 32 8, demo_block demo_coinbase), (1, replicate 32 9, demo_block demo_spend)]"

lemma demo_worker:
  "\<exists>d r s. XdmpReader d = Inr r \<and> dumpBlocks demo_decode d = Inr demo_chain \<and> parseWorker demo_sha demo_decode d = Inr s"
proof -
  obtain hd where hd: "makeHeader ''bitcoin'' ''regtest'' 0 1 1 = Inr hd"
    by (simp add: makeHeader_def CHAIN_CODES_def NETWORK_CODES_def writeUInt32LE_def)
  obtain d where d: "writeBlockRecords demo_fetched hd = Inr d"
    by (simp add: demo_fetched_def blockRecord_def MAX_BLOCK_SIZE_def writeUInt32LE_def Let_def del: b2h.simps)
  obtain rs where rs: "d = hd @ rs" using written_records [OF d] by blast
  define r where "r = \<lparr>xr_file = hd @ rs, xr_pos = HEADER_SIZE, xr_chain = ''bitcoin'', xr_network = ''regtest'',
      xr_firstHeight = 0, xr_lastHeight = 1, xr_blockCount = 2, xr_chainTipAtDump = 1\<rparr>"
  have r: "XdmpReader d = Inr r" using header_read(2) [OF hd, of rs] by (simp add: rs r_def)
  have hs: "map fb_height demo_fetched = [0..1]" by (simp add: demo_fetched_def upto_rec1)
  have run: "xdmpBlocks f r s = mfor (map dumped_of demo_fetched) f s" for f :: "dumped \<Rightarrow> ('s, unit) m" and s
  proof -
    have "length demo_fetched = 2" by (simp add: demo_fetched_def)
    then show ?thesis using read_written [OF d hs, of r f s] header_read(1) [OF hd] by (simp add: xdmpBlocks_def rs r_def)
  qed
  have blocks: "dumpBlocks demo_decode d = Inr demo_chain"
    by (simp add: dumpBlocks_def r readBlocks_def run demo_fetched_def dumped_of_def collectBlock_def demo_decode_def demo_chain_def mseq_run del: b2h.simps)
  have "\<exists>w0. openWriters r = Inr w0"
    by (simp add: r_def openWriters_def FixedRecordWriter_def MetaWriter_def streamHeader_def CHAIN_CODES_def NETWORK_CODES_def Let_def
      MAGIC_OUTPUTS_def MAGIC_SPENDS_def MAGIC_META_def writeUInt32LE_def OUTPUTS_RECORD_SIZE_def SPENDS_RECORD_SIZE_def)
  then obtain w0 where w0: "openWriters r = Inr w0" by blast
  have "fst (processBlock demo_sha (demo_block t) h bh w) = Inr ()" if "t = demo_coinbase \<or> t = demo_spend" "0 \<le> h" "h \<le> 1" for t h bh w
    using that by (auto simp: processBlock_def demo_block_def processTransaction_def demo_coinbase_def demo_spend_def demo_tx_def appendSpends_def
      outputRecord_def writeBigUInt64BE_def writeInt32BE_def mseq_def mbind_def)
  then have pb: "\<exists>w'. processBlock demo_sha (demo_block t) h bh w = (Inr (), w')" if "t = demo_coinbase \<or> t = demo_spend" "0 \<le> h" "h \<le> 1" for t h bh w
    using that by (metis prod.collapse)
  obtain w1 where w1: "processBlock demo_sha (demo_block demo_coinbase) 0 (replicate 32 8) w0 = (Inr (), w1)"
    using pb [of demo_coinbase 0] by auto
  obtain w2 where w2: "processBlock demo_sha (demo_block demo_spend) 1 (replicate 32 9) w1 = (Inr (), w2)"
    using pb [of demo_spend 1] by auto
  have "processBlocks demo_sha demo_decode r w0 = (Inr (), w2)"
    using w1 w2 by (simp add: processBlocks_def run demo_fetched_def dumped_of_def workBlock_def demo_decode_def mseq_run del: b2h.simps)
  then have "parseWorker demo_sha demo_decode d = Inr (finishOutputs w2)" using w0 r by (simp add: parseWorker_def)
  then show ?thesis using r blocks by blast
qed

theorem bulk_merge_refines_ledger_witness:
  "\<exists>s m u. phaseMerge 1 0 [s] = Some (Inr m) \<and> utxo_map (pm_liveUtxos m) = ledger demo_sha demo_chain
    \<and> utxo_map (pm_liveUtxos m) = [(replicate 32 2, 0) \<mapsto> u]"
proof -
  obtain d r s where w: "XdmpReader d = Inr r" "dumpBlocks demo_decode d = Inr demo_chain" "parseWorker demo_sha demo_decode d = Inr s"
    using demo_worker by blast
  have ok: "decoder_ok demo_decode"
    by (auto simp: decoder_ok_def demo_decode_def demo_block_def demo_coinbase_def demo_spend_def demo_tx_def tx_ok_def split: if_splits)
  let ?u = "\<lambda>c h cb bh. \<lparr>ux_txid = replicate 32 c, ux_vout = 0, ux_value = 50, ux_height = h, ux_script = replicate 32 0, ux_block = bh, ux_coinbase = cb\<rparr>"
  have cr: "concat (map (created demo_sha) demo_chain) = [?u 1 0 True (replicate 32 8), ?u 2 1 False (replicate 32 9)]"
    by (simp add: demo_chain_def created_def demo_block_def demo_coinbase_def demo_spend_def demo_tx_def tx_created_def utxo_of_def
      isCoinbaseTransaction_def COINBASE_INDEX_def demo_sha_def)
  have sp: "map spent_point (concat (map spends demo_chain)) = [(replicate 32 1, 0)]"
    by (simp add: demo_chain_def spends_def demo_block_def demo_coinbase_def demo_spend_def demo_tx_def tx_spends_def traced_def
      COINBASE_INDEX_def spent_point_def prevTxHash_def)
  have order: "spends_in_order demo_sha demo_chain"
    by (simp add: demo_chain_def spends_def demo_block_def demo_coinbase_def demo_spend_def demo_tx_def tx_spends_def traced_def COINBASE_INDEX_def)
  have n: "replicate 32 (1 :: byte) \<noteq> replicate 32 2" by simp
  have "\<exists>m. phaseMerge 1 0 [s] = Some (Inr m) \<and> utxo_map (pm_liveUtxos m) = ledger demo_sha demo_chain"
  proof -
    have cc: "concat [demo_chain] = demo_chain" by simp
    have "length (concat (map spends demo_chain)) = 1" using arg_cong [OF sp, of length] by simp
    moreover have "length demo_chain = 2" by (simp add: demo_chain_def)
    ultimately show ?thesis
      using bulk_merge_refines_ledger [of demo_sha demo_decode "[d]" "[s]" "[r]" "[demo_chain]" 1, unfolded cc cr sp] w ok order n
      by (simp add: point_def demo_sha_def)
  qed
  moreover have "ledger demo_sha demo_chain = [(replicate 32 2, 0) \<mapsto> ?u 2 1 False (replicate 32 9)]"
    unfolding ledger_def using ledger_from [of demo_sha demo_chain Map.empty] order n
    by (auto simp: cr sp pairs_def point_def restrict_map_def fun_eq_iff)
  ultimately show ?thesis by auto
qed

end
