(* ===== verification/SeedKeys.thy ===== *)
theory SeedKeys
  imports BulkMerge Config
begin

text \<open>
  The key derivation of bulk sync, \<^verbatim>\<open>src/bulk_sync/merger/derive_keys\<close> with its reader of the meta
  stream (\<^verbatim>\<open>merger/meta_reader.js\<close>): the merged streams become one file of fixed-size records for each
  prefix of the store, sorted by key. A file is the list of its bytes, the directory of key files a map
  from prefix letters to files together with the markers of \<^verbatim>\<open>L.json\<close>. Statistics, progress callbacks
  and temporary files are left out, and so is what a derivation that throws leaves behind, except
  that it has removed the markers.
\<close>

subsection \<open>Layout\<close>

record layout =
  keySize :: nat
  valSize :: nat
  recordSize :: nat

definition lay :: "nat \<Rightarrow> nat \<Rightarrow> nat \<Rightarrow> layout" where
  "lay k v r = \<lparr>keySize = k, valSize = v, recordSize = r\<rparr>"

lemma lay_sel [simp]: "keySize (lay k v r) = k" "valSize (lay k v r) = v" "recordSize (lay k v r) = r"
  by (simp_all add: lay_def)

definition LAYOUT :: "char \<rightharpoonup> layout" where
  "LAYOUT = map_of [(CHR ''B'', lay 33 40 73), (CHR ''T'', lay 33 32 65), (CHR ''I'', lay 37 32 69), (CHR ''O'', lay 69 45 114),
     (CHR ''H'', lay 37 32 69), (CHR ''J'', lay 69 0 69), (CHR ''N'', lay 33 0 33), (CHR ''S'', lay 33 4 37),
     (CHR ''W'', lay 69 32 101), (CHR ''Z'', lay 65 0 65)]"

definition TX_INDEX_LAYOUT :: "char \<rightharpoonup> layout" where
  "TX_INDEX_LAYOUT = map_of [(CHR ''T'', lay 33 68 101), (CHR ''X'', lay 33 32 65), (CHR ''Y'', lay 65 32 97)]"

subsection \<open>Writers, readers and the sort\<close>

record flat =
  fl_out :: "bytes \<times> bytes list"
  fl_count :: nat

definition FlatWriter :: flat where
  "FlatWriter = \<lparr>fl_out = ([], []), fl_count = 0\<rparr>"

definition flatWrite :: "nat \<Rightarrow> bytes \<Rightarrow> flat \<Rightarrow> flat" where
  "flatWrite n rec w = w\<lparr>fl_out := emit (max 1 (256 * 1024 div n)) rec (fl_out w), fl_count := fl_count w + 1\<rparr>"

definition flatClose :: "flat \<Rightarrow> bytes" where
  "flatClose w = flushed (fl_out w)"

definition sortByKey :: "nat \<Rightarrow> nat \<Rightarrow> nat \<Rightarrow> bytes \<Rightarrow> (error + bytes) option" where
  "sortByKey recSize kSize ramBudgetBytes file =
     externalSort \<lparr>so_headerSize = 0, so_recordSize = int recSize, so_keySize = int kSize,
       so_ramBudgetBytes = ramBudgetBytes, so_preserveHeader = False\<rparr> file"

text \<open>
  The loop \<open>while (true) { const rec = reader.next(); if (!rec) break; ... }\<close> with fuel, \<open>None\<close> out of
  fuel, and the whole of opening a reader and running the loop.
\<close>

fun forRecords :: "nat \<Rightarrow> ('r \<Rightarrow> bytes option \<times> 'r) \<Rightarrow> (bytes \<Rightarrow> ('s, unit) m) \<Rightarrow> 'r \<Rightarrow> 's \<Rightarrow> ((error + unit) \<times> 's) option" where
  "forRecords fuel nxt body r s = (case nxt r of
     (None, _) \<Rightarrow> Some (Inr (), s)
   | (Some rec, r1) \<Rightarrow> (case fuel of
       0 \<Rightarrow> None
     | Suc k \<Rightarrow> (case body rec s of (Inl e, s1) \<Rightarrow> Some (Inl e, s1) | (Inr _, s1) \<Rightarrow> forRecords k nxt body r1 s1)))"

declare forRecords.simps [simp del]

definition readRecords :: "nat \<Rightarrow> nat \<Rightarrow> (bytes \<Rightarrow> ('s, unit) m) \<Rightarrow> bytes \<Rightarrow> 's \<Rightarrow> ((error + unit) \<times> 's) option" where
  "readRecords headerSize n body file s = (case RecordReader file headerSize n of
     Inl e \<Rightarrow> Some (Inl e, s)
   | Inr r \<Rightarrow> forRecords (length file) nextRecord body r s)"

text \<open>The state such a loop ends in, as the value of the function around it.\<close>

definition scanned :: "((error + unit) \<times> 's) option \<Rightarrow> (error + 's) option" where
  "scanned x = map_option (\<lambda>(r, s). case r of Inl e \<Rightarrow> Inl e | Inr _ \<Rightarrow> Inr s) x"

subsection \<open>The meta stream\<close>

record meta_reader =
  mr_file :: bytes
  mr_pos :: nat
  mr_chainCode :: nat
  mr_networkCode :: nat
  mr_version :: nat
  mr_firstHeight :: nat
  mr_lastHeight :: nat
  mr_blockCount :: nat

record meta_block =
  mb_height :: nat
  mb_timestamp :: nat
  mb_blockHash :: bytes
  mb_previousHash :: bytes
  mb_txidList :: "bytes list"

definition MIN_RECORD_SIZE :: nat where "MIN_RECORD_SIZE = 76"
definition META_TXID_SIZE :: nat where "META_TXID_SIZE = 32"

definition MetaReader :: "bytes \<Rightarrow> error + meta_reader" where
  "MetaReader file =
     (if length file < HEADER_SIZE then Inl (BadConfig ''meta file too small'')
      else let hdr = take HEADER_SIZE file in
        if take 8 hdr \<noteq> MAGIC_META then Inl (BadConfig ''bad meta magic'')
        else Inr \<lparr>mr_file = file, mr_pos = HEADER_SIZE, mr_chainCode = unat (hdr ! 8), mr_networkCode = unat (hdr ! 9),
          mr_version = unle (slice 10 12 hdr), mr_firstHeight = unle (slice 12 16 hdr), mr_lastHeight = unle (slice 16 20 hdr),
          mr_blockCount = unle (slice 20 28 hdr)\<rparr>)"

text \<open>One turn of the generator \<open>blocks\<close> before its \<open>yield\<close>. A read never comes back short.\<close>

definition metaNext :: "meta_reader \<Rightarrow> error + (meta_block \<times> meta_reader)" where
  "metaNext r =
     (let pos = mr_pos r; remaining = length (mr_file r) - pos; rec = drop pos (mr_file r) in
      if remaining < MIN_RECORD_SIZE then Inl (BadConfig ''meta truncated'')
      else let txCount = unbe (slice 72 76 rec); total = MIN_RECORD_SIZE + META_TXID_SIZE * txCount in
        if total > remaining then Inl (BadConfig ''meta truncated'')
        else Inr (\<lparr>mb_height = unbe (slice 0 4 rec), mb_timestamp = unbe (slice 4 8 rec), mb_blockHash = slice 8 40 rec,
            mb_previousHash = slice 40 72 rec,
            mb_txidList = map (\<lambda>i. slice (MIN_RECORD_SIZE + META_TXID_SIZE * i) (MIN_RECORD_SIZE + META_TXID_SIZE * i + META_TXID_SIZE) rec) [0..<txCount]\<rparr>,
          r\<lparr>mr_pos := pos + total\<rparr>))"

text \<open>\<open>for (const blk of meta.blocks()) ...\<close>: \<open>None\<close> out of fuel; every turn takes at least 76 bytes.\<close>

fun forMeta :: "nat \<Rightarrow> nat \<Rightarrow> (meta_block \<Rightarrow> ('s, unit) m) \<Rightarrow> meta_reader \<Rightarrow> 's \<Rightarrow> ((error + unit) \<times> 's) option" where
  "forMeta fuel yielded body r s =
     (if mr_pos r \<ge> length (mr_file r)
      then Some (if yielded \<noteq> mr_blockCount r then Inl (BadConfig ''meta block_count'') else Inr (), s)
      else (case metaNext r of
          Inl e \<Rightarrow> Some (Inl e, s)
        | Inr (blk, r1) \<Rightarrow> (case fuel of
            0 \<Rightarrow> None
          | Suc k \<Rightarrow> (case body blk s of (Inl e, s1) \<Rightarrow> Some (Inl e, s1) | (Inr _, s1) \<Rightarrow> forMeta k (yielded + 1) body r1 s1))))"

declare forMeta.simps [simp del]

subsection \<open>Options\<close>

record derive_options =
  do_ramBudgetBytes :: nat
  do_network :: string
  do_undoBlocks :: "int option"
  do_removeSpent :: "bool option"
  do_txIndex :: "bool option"
  do_outputsRecordSize :: nat

record derive_ctx =
  dc_ramBudgetBytes :: nat
  dc_undoBlocks :: int
  dc_removeSpent :: bool
  dc_txIndex :: bool
  dc_outputsRecordSize :: nat

record derive_inputs =
  di_meta :: bytes
  di_outputs :: bytes
  di_liveUtxos :: bytes
  di_spendsByPrev :: bytes

text \<open>The pattern \<open>/^bitcoin(?:-|$)/i\<close>.\<close>

definition isBitcoin :: "string \<Rightarrow> bool" where
  "isBitcoin network = (let n = map lower network in take 7 n = ''bitcoin'' \<and> (length n = 7 \<or> n ! 7 = CHR ''-''))"

definition resolveDeriveOptions :: "environment \<Rightarrow> derive_options \<Rightarrow> error + derive_ctx" where
  "resolveDeriveOptions env opts =
     (let ramBudgetBytes = (if do_ramBudgetBytes opts = 0 then 1024 * 1024 * 1024 else do_ramBudgetBytes opts) in
      rbind (resolveUndoBlocks env (do_network opts) (do_undoBlocks opts)) (\<lambda>(undo, _).
      let removeSpent = (do_removeSpent opts \<noteq> Some False);
          txIndex = (case do_txIndex opts of None \<Rightarrow> \<not> isBitcoin (do_network opts) | Some b \<Rightarrow> b);
          outputsRecordSize = (if do_outputsRecordSize opts = 0 then OUTPUTS_RECORD_SIZE else do_outputsRecordSize opts) in
      if outputsRecordSize \<noteq> OUTPUTS_RECORD_SIZE then Inl (BadConfig ''deriveKeys: unsupported outputsRecordSize'')
      else Inr \<lparr>dc_ramBudgetBytes = ramBudgetBytes, dc_undoBlocks = undo, dc_removeSpent = removeSpent,
        dc_txIndex = txIndex, dc_outputsRecordSize = outputsRecordSize\<rparr>))"

subsection \<open>The directory of key files\<close>

text \<open>\<^verbatim>\<open>L.json\<close> as the loader may find it: a field may be absent.\<close>

record last_markers =
  lm_height :: "string option"
  lm_hash :: "string option"
  lm_txIndex :: "bool option"

record keys_dir =
  kd_files :: "char \<rightharpoonup> bytes"
  kd_last :: "last_markers option"

definition clearPriorDeriveOutputs :: "keys_dir \<Rightarrow> keys_dir" where
  "clearPriorDeriveOutputs d = d\<lparr>kd_files := kd_files d |` (- (dom LAYOUT \<union> dom TX_INDEX_LAYOUT)), kd_last := None\<rparr>"

definition putFile :: "char \<Rightarrow> bytes \<Rightarrow> keys_dir \<Rightarrow> keys_dir" where
  "putFile c file d = d\<lparr>kd_files := (kd_files d)(c \<mapsto> file)\<rparr>"

subsection \<open>Blocks\<close>

record meta_scan =
  sc_b :: flat
  sc_t :: "flat option"
  sc_nWindow :: "bytes list"
  sc_lastHeight :: int
  sc_lastHash :: "bytes option"

definition blockRecordB :: "meta_block \<Rightarrow> bytes" where
  "blockRecordB blk = P_BLOCK # take 32 (mb_blockHash blk) @ be 4 (mb_height blk) @ be 4 (mb_timestamp blk) @ take 32 (mb_previousHash blk)"

definition legacyTRecord :: "bytes \<Rightarrow> bytes \<Rightarrow> bytes" where
  "legacyTRecord blockHash txid = P_TX # take 32 txid @ take 32 blockHash"

definition pushWindow :: "int \<Rightarrow> bytes \<Rightarrow> bytes list \<Rightarrow> bytes list" where
  "pushWindow undo h w = (let w1 = w @ [h] in if int (length w1) > undo then drop 1 w1 else w1)"

definition scanMetaBlock :: "derive_ctx \<Rightarrow> meta_block \<Rightarrow> meta_scan \<Rightarrow> meta_scan" where
  "scanMetaBlock ctx blk s = s\<lparr>sc_b := flatWrite 73 (blockRecordB blk) (sc_b s),
     sc_t := map_option (fold (\<lambda>txid. flatWrite 65 (legacyTRecord (mb_blockHash blk) txid)) (mb_txidList blk)) (sc_t s),
     sc_nWindow := pushWindow (dc_undoBlocks ctx) (mb_blockHash blk) (sc_nWindow s),
     sc_lastHeight := int (mb_height blk), sc_lastHash := Some (mb_blockHash blk)\<rparr>"

definition scanMetaBlocks :: "derive_ctx \<Rightarrow> meta_reader \<Rightarrow> (error + meta_scan) option" where
  "scanMetaBlocks ctx meta =
     scanned (forMeta (length (mr_file meta)) 0 (\<lambda>blk. mmod (scanMetaBlock ctx blk)) meta
       \<lparr>sc_b = FlatWriter, sc_t = (if dc_removeSpent ctx \<or> dc_txIndex ctx then None else Some FlatWriter), sc_nWindow = [],
        sc_lastHeight = -1, sc_lastHash = None\<rparr>)"

definition storedBlkRecord :: "bytes \<Rightarrow> bytes" where
  "storedBlkRecord h = P_STORED_BLK # take 32 h"

definition deriveBlockKeys :: "derive_ctx \<Rightarrow> bytes \<Rightarrow> keys_dir \<Rightarrow> (error + keys_dir \<times> int \<times> bytes option) option" where
  "deriveBlockKeys ctx metaFile d =
     obind (Some (MetaReader metaFile)) (\<lambda>meta.
     obind (scanMetaBlocks ctx meta) (\<lambda>s.
     let nRaw = fold (\<lambda>h. flatWrite 33 (storedBlkRecord h)) (sc_nWindow s) FlatWriter; ram = dc_ramBudgetBytes ctx in
     obind (sortByKey 73 33 ram (flatClose (sc_b s))) (\<lambda>b.
     obind (case sc_t s of None \<Rightarrow> Some (Inr id) | Some t \<Rightarrow> obind (sortByKey 65 33 ram (flatClose t)) (\<lambda>f. Some (Inr (putFile (CHR ''T'') f)))) (\<lambda>putT.
     obind (sortByKey 33 33 ram (flatClose nRaw)) (\<lambda>n.
     Some (Inr (putFile (CHR ''N'') n (putT (putFile (CHR ''B'') b d)), sc_lastHeight s, sc_lastHash s)))))))"

subsection \<open>Unspent outputs\<close>

definition hRecord :: "bytes \<Rightarrow> bytes" where
  "hRecord rec = P_OUT_HINT # slice OUT_TXID (OUT_TXID + 32) rec @ slice OUT_VOUT (OUT_VOUT + 4) rec @ slice OUT_SCRIPT (OUT_SCRIPT + 32) rec"

definition oRecord :: "bytes \<Rightarrow> bytes" where
  "oRecord rec = P_OUTPUT # slice OUT_SCRIPT (OUT_SCRIPT + 32) rec @ slice OUT_TXID (OUT_TXID + 32) rec @ slice OUT_VOUT (OUT_VOUT + 4) rec
     @ slice OUT_VALUE (OUT_VALUE + 8) rec @ slice OUT_HEIGHT (OUT_HEIGHT + 4) rec @ slice OUT_TXID (OUT_TXID + 32) rec
     @ [if rec ! OUT_COINBASE = 1 then 1 else 0]"

definition writeLiveRecord :: "bytes \<Rightarrow> (bytes \<times> bytes list) \<times> flat \<Rightarrow> (bytes \<times> bytes list) \<times> flat" where
  "writeLiveRecord rec s = (writeRecord 69 (hRecord rec) (fst s), flatWrite 114 (oRecord rec) (snd s))"

definition writeLiveOutputRecords :: "nat \<Rightarrow> bytes \<Rightarrow> (error + (bytes \<times> bytes list) \<times> flat) option" where
  "writeLiveOutputRecords outputsRecordSize liveUtxos =
     scanned (readRecords 0 outputsRecordSize (\<lambda>rec. mmod (writeLiveRecord rec)) liveUtxos (RecordWriter, FlatWriter))"

definition deriveOutputKeys :: "derive_ctx \<Rightarrow> bytes \<Rightarrow> keys_dir \<Rightarrow> (error + keys_dir) option" where
  "deriveOutputKeys ctx liveUtxos d =
     obind (writeLiveOutputRecords (dc_outputsRecordSize ctx) liveUtxos) (\<lambda>(hOut, oRaw).
     obind (sortByKey 114 69 (dc_ramBudgetBytes ctx) (flatClose oRaw)) (\<lambda>f.
     Some (Inr (putFile (CHR ''O'') f (putFile (CHR ''H'') (flushed hOut) d)))))"

subsection \<open>The transaction index\<close>

record tx_scan =
  ts_prev :: "bytes option"
  ts_t :: flat
  ts_x :: flat
  ts_y :: flat

definition txRecordT :: "bytes \<Rightarrow> bytes" where
  "txRecordT rec = (let fullTxid = slice OUT_TXID (OUT_TXID + 32) rec in
     P_TX # fullTxid @ slice OUT_HEIGHT (OUT_HEIGHT + 4) rec @ slice OUT_BLOCK (OUT_BLOCK + 32) rec @ fullTxid)"

definition txRecordX :: "bytes \<Rightarrow> bytes" where
  "txRecordX rec = P_TX_EXACT # slice OUT_TXID (OUT_TXID + 32) rec @ slice OUT_BLOCK (OUT_BLOCK + 32) rec"

definition txRecordY :: "bytes \<Rightarrow> bytes" where
  "txRecordY rec = (let fullTxid = slice OUT_TXID (OUT_TXID + 32) rec in
     P_TX_BLOCK_RECOVERY # slice OUT_BLOCK (OUT_BLOCK + 32) rec @ fullTxid @ fullTxid)"

text \<open>\<open>readUInt32BE\<close> of the height field, compared with the lowest height inside the window.\<close>

definition recHeight :: "bytes \<Rightarrow> int" where
  "recHeight rec = int (unbe (slice OUT_HEIGHT (OUT_HEIGHT + 4) rec))"

definition writeTxRecord :: "int \<Rightarrow> bytes \<Rightarrow> tx_scan \<Rightarrow> tx_scan" where
  "writeTxRecord wMinHeight rec s =
     (let fullTxid = slice OUT_TXID (OUT_TXID + 32) rec in
      if ts_prev s = Some fullTxid then s
      else let s1 = s\<lparr>ts_prev := Some fullTxid, ts_t := flatWrite 101 (txRecordT rec) (ts_t s), ts_x := flatWrite 65 (txRecordX rec) (ts_x s)\<rparr> in
        if recHeight rec < wMinHeight then s1
        else s1\<lparr>ts_y := flatWrite 97 (txRecordY rec) (ts_y s1)\<rparr>)"

definition deriveTxIndexKeys :: "derive_ctx \<Rightarrow> bytes \<Rightarrow> int \<Rightarrow> keys_dir \<Rightarrow> (error + keys_dir) option" where
  "deriveTxIndexKeys ctx outputs wMinHeight d =
     obind (scanned (readRecords HEADER_SIZE (dc_outputsRecordSize ctx) (\<lambda>rec. mmod (writeTxRecord wMinHeight rec)) outputs
       \<lparr>ts_prev = None, ts_t = FlatWriter, ts_x = FlatWriter, ts_y = FlatWriter\<rparr>)) (\<lambda>s.
     obind (sortByKey 101 37 (dc_ramBudgetBytes ctx) (flatClose (ts_t s))) (\<lambda>t.
     obind (sortByKey 65 33 (dc_ramBudgetBytes ctx) (flatClose (ts_x s))) (\<lambda>x.
     obind (sortByKey 97 65 (dc_ramBudgetBytes ctx) (flatClose (ts_y s))) (\<lambda>y.
     Some (Inr (putFile (CHR ''Y'') y (putFile (CHR ''X'') x (putFile (CHR ''T'') t d))))))))"

subsection \<open>Scripts\<close>

definition CAND_REC_SIZE :: nat where "CAND_REC_SIZE = 72"
definition CAND_KEY_SIZE :: nat where "CAND_KEY_SIZE = 36"

record cand_scan =
  cd_rowId :: nat
  cd_cand :: flat
  cd_w :: flat

definition candRecord :: "nat \<Rightarrow> bytes \<Rightarrow> bytes" where
  "candRecord rid rec = slice OUT_SCRIPT (OUT_SCRIPT + 32) rec @ be 4 rid @ slice OUT_BLOCK (OUT_BLOCK + 32) rec @ slice OUT_HEIGHT (OUT_HEIGHT + 4) rec"

definition wRecord :: "bytes \<Rightarrow> bytes" where
  "wRecord rec = P_OUT_BLK # slice OUT_BLOCK (OUT_BLOCK + 32) rec @ slice OUT_TXID (OUT_TXID + 32) rec @ slice OUT_VOUT (OUT_VOUT + 4) rec
     @ slice OUT_SCRIPT (OUT_SCRIPT + 32) rec"

definition writeCandidate :: "int \<Rightarrow> bytes \<Rightarrow> (cand_scan, unit) m" where
  "writeCandidate wMinHeight rec s =
     (let rid = cd_rowId s; s1 = s\<lparr>cd_rowId := rid + 1\<rparr> in
      if rid > 4294967295 then (Inl (BadConfig ''deriveKeys: output rowId exceeds u32''), s1)
      else let s2 = s1\<lparr>cd_cand := flatWrite CAND_REC_SIZE (candRecord rid rec) (cd_cand s1)\<rparr> in
        if recHeight rec < wMinHeight then (Inr (), s2)
        else (Inr (), s2\<lparr>cd_w := flatWrite 101 (wRecord rec) (cd_w s2)\<rparr>))"

definition writeScriptCandidates :: "derive_ctx \<Rightarrow> bytes \<Rightarrow> int \<Rightarrow> keys_dir \<Rightarrow> (error + bytes \<times> keys_dir) option" where
  "writeScriptCandidates ctx outputs lastHeight d =
     (let wMinHeight = max 0 (lastHeight - dc_undoBlocks ctx + 1) in
      obind (scanned (readRecords HEADER_SIZE (dc_outputsRecordSize ctx) (writeCandidate wMinHeight) outputs
        \<lparr>cd_rowId = 0, cd_cand = FlatWriter, cd_w = FlatWriter\<rparr>)) (\<lambda>s.
      obind (sortByKey CAND_REC_SIZE CAND_KEY_SIZE (dc_ramBudgetBytes ctx) (flatClose (cd_cand s))) (\<lambda>candSorted.
      obind (sortByKey 101 69 (dc_ramBudgetBytes ctx) (flatClose (cd_w s))) (\<lambda>w.
      Some (Inr (candSorted, putFile (CHR ''W'') w d))))))"

record first_scan =
  fs_lastScript :: "bytes option"
  fs_s :: "bytes \<times> bytes list"
  fs_z :: flat

definition sRecord :: "bytes \<Rightarrow> bytes" where
  "sRecord rec = P_SCRIPT_BLK # slice 0 32 rec @ slice 68 72 rec"

definition zRecord :: "bytes \<Rightarrow> bytes" where
  "zRecord rec = P_BLK_SCRIPT # slice 36 68 rec @ slice 0 32 rec"

definition writeFirstSeen :: "int \<Rightarrow> bytes \<Rightarrow> first_scan \<Rightarrow> first_scan" where
  "writeFirstSeen wMinHeight rec s =
     (let scriptHash = slice 0 32 rec in
      if fs_lastScript s = Some scriptHash then s
      else let s1 = s\<lparr>fs_lastScript := Some scriptHash, fs_s := writeRecord 37 (sRecord rec) (fs_s s)\<rparr> in
        if int (unbe (slice 68 72 rec)) < wMinHeight then s1
        else s1\<lparr>fs_z := flatWrite 65 (zRecord rec) (fs_z s1)\<rparr>)"

definition deriveScriptKeys :: "derive_ctx \<Rightarrow> bytes \<Rightarrow> int \<Rightarrow> keys_dir \<Rightarrow> (error + keys_dir) option" where
  "deriveScriptKeys ctx candSorted wMinHeight d =
     obind (scanned (readRecords 0 CAND_REC_SIZE (\<lambda>rec. mmod (writeFirstSeen wMinHeight rec)) candSorted
       \<lparr>fs_lastScript = None, fs_s = RecordWriter, fs_z = FlatWriter\<rparr>)) (\<lambda>s.
     obind (sortByKey 65 65 (dc_ramBudgetBytes ctx) (flatClose (fs_z s))) (\<lambda>z.
     Some (Inr (putFile (CHR ''Z'') z (putFile (CHR ''S'') (flushed (fs_s s)) d)))))"

subsection \<open>Spends\<close>

definition iRecord :: "bytes \<Rightarrow> bytes" where
  "iRecord rec = P_INPUT # slice SPD_PREV_TXID (SPD_PREV_TXID + 32) rec @ slice SPD_PREV_VOUT (SPD_PREV_VOUT + 4) rec
     @ slice SPD_SPENDER_TXID (SPD_SPENDER_TXID + 32) rec"

definition jRecord :: "bytes \<Rightarrow> bytes" where
  "jRecord rec = P_IN_HINT # slice SPD_SPENDER_TXID (SPD_SPENDER_TXID + 32) rec @ slice SPD_PREV_TXID (SPD_PREV_TXID + 32) rec
     @ slice SPD_PREV_VOUT (SPD_PREV_VOUT + 4) rec"

definition writeSpendRecord :: "bytes \<Rightarrow> (bytes \<times> bytes list) \<times> flat \<Rightarrow> (bytes \<times> bytes list) \<times> flat" where
  "writeSpendRecord rec s = (writeRecord 69 (iRecord rec) (fst s), flatWrite 69 (jRecord rec) (snd s))"

definition deriveSpendKeys :: "derive_ctx \<Rightarrow> bytes \<Rightarrow> keys_dir \<Rightarrow> (error + keys_dir) option" where
  "deriveSpendKeys ctx spendsByPrev d =
     (if dc_removeSpent ctx then Some (Inr d)
      else
        obind (scanned (readRecords 0 SPENDS_RECORD_SIZE (\<lambda>rec. mmod (writeSpendRecord rec)) spendsByPrev (RecordWriter, FlatWriter))) (\<lambda>(iOut, jRaw).
        obind (sortByKey 69 69 (dc_ramBudgetBytes ctx) (flatClose jRaw)) (\<lambda>j.
        Some (Inr (putFile (CHR ''J'') j (putFile (CHR ''I'') (flushed iOut) d))))))"

subsection \<open>The whole derivation\<close>

definition writeLastBlockMarkers :: "int \<Rightarrow> bytes option \<Rightarrow> bool \<Rightarrow> keys_dir \<Rightarrow> error + keys_dir" where
  "writeLastBlockMarkers lastHeight lastBlockHash txIndex d = (case lastBlockHash of
     None \<Rightarrow> Inl (BadConfig ''deriveKeys: meta file had no blocks; cannot emit LAST_* markers'')
   | Some h \<Rightarrow> Inr (d\<lparr>kd_last := Some \<lparr>lm_height = Some (hexint lastHeight), lm_hash = Some (b2h h), lm_txIndex = Some txIndex\<rparr>\<rparr>))"

definition deriveKeys :: "environment \<Rightarrow> derive_options \<Rightarrow> derive_inputs \<Rightarrow> keys_dir \<Rightarrow> (error + keys_dir) option" where
  "deriveKeys env opts files d0 =
     obind (Some (resolveDeriveOptions env opts)) (\<lambda>ctx.
     obind (deriveBlockKeys ctx (di_meta files) (clearPriorDeriveOutputs d0)) (\<lambda>(d1, lastHeight, lastBlockHash).
     obind (deriveOutputKeys ctx (di_liveUtxos files) d1) (\<lambda>d2.
     let wMinHeight = max 0 (lastHeight - dc_undoBlocks ctx + 1) in
     obind (if dc_txIndex ctx then deriveTxIndexKeys ctx (di_outputs files) wMinHeight d2 else Some (Inr d2)) (\<lambda>d3.
     obind (writeScriptCandidates ctx (di_outputs files) lastHeight d3) (\<lambda>(candSorted, d4).
     obind (deriveScriptKeys ctx candSorted wMinHeight d4) (\<lambda>d5.
     obind (deriveSpendKeys ctx (di_spendsByPrev files) d5) (\<lambda>d6.
     Some (writeLastBlockMarkers lastHeight lastBlockHash (dc_txIndex ctx) d6))))))))"

subsection \<open>What the loops compute\<close>

context record_source
begin

lemma forRecords_run: "ok r \<Longrightarrow> length (rest r) \<le> fuel \<Longrightarrow> forRecords fuel nxt body r s = Some (mfor (rest r) body s)"
proof (induction fuel arbitrary: r s)
  case 0
  then have e: "rest r = []" by simp
  then obtain r' where "nxt r = (None, r')" using nxt_end [OF 0(1)] by blast
  then show ?case using e by (simp add: forRecords.simps)
next
  case (Suc fuel)
  show ?case
  proof (cases "rest r")
    case Nil
    then obtain r' where "nxt r = (None, r')" using nxt_end [OF Suc.prems(1)] by blast
    then show ?thesis using Nil by (simp add: forRecords.simps)
  next
    case (Cons x xs)
    then obtain r' where r': "nxt r = (Some x, r')" "ok r'" "rest r' = xs" using nxt_record [OF Suc.prems(1)] by blast
    then have "forRecords fuel nxt body r' s1 = Some (mfor xs body s1)" for s1
      using Suc.IH [of r'] Suc.prems(2) Cons by simp
    then show ?thesis
      using r'(1) Cons by (subst forRecords.simps) (auto simp: mseq_def mbind_def split: prod.splits sum.splits)
  qed
qed

end

lemma readRecords_run:
  assumes "n > 0" and "h \<le> length file" and "n dvd length file - h"
  shows "readRecords h n body file s = Some (mfor (records n (drop h file)) body s)"
proof -
  obtain r where r: "RecordReader file h n = Inr r" "reader_ok r" "reader_rest r = records n (drop h file)"
    by (rule RecordReader_ok [OF assms])
  have "length (records n (drop h file)) \<le> length file"
    using length_records [of n "drop h file"] by (simp add: le_trans)
  then show ?thesis
    using r source.forRecords_run [OF r(2), of "length file" body s] by (simp add: readRecords_def)
qed

lemma mfor_mmod: "mfor xs (\<lambda>x. mmod (f x)) s = (Inr (), fold f xs s)"
  by (induction xs arbitrary: s) (simp_all add: mseq_def mbind_def)

lemma scanned_simps [simp]: "scanned (Some (Inr (), s)) = Some (Inr s)" "scanned (Some (Inl e, s)) = Some (Inl e)"
  by (simp_all add: scanned_def)

lemma scan_file:
  assumes "n > 0" and "length h = k" and "\<forall>r \<in> set rs. length r = n"
  shows "readRecords k n body (h @ concat rs) s = Some (mfor rs body s)"
proof -
  have "length (concat rs) = length rs * n" using assms(3) by (induction rs) simp_all
  then show ?thesis
    using assms records_concat [OF assms(1,3)] readRecords_run [of n k "h @ concat rs" body s] by simp
qed

lemma scan_mmod:
  assumes "n > 0" and "length h = k" and "\<forall>r \<in> set rs. length r = n"
  shows "scanned (readRecords k n (\<lambda>r. mmod (f r)) (h @ concat rs) s) = Some (Inr (fold f rs s))"
  by (simp add: scan_file [OF assms] mfor_mmod)

lemma flatClose_simps [simp]: "flatClose FlatWriter = []" "flatClose (flatWrite n r w) = flatClose w @ r"
  by (simp_all add: flatClose_def FlatWriter_def flatWrite_def flushed_def) (simp add: emit_def split: prod.splits)

lemma flatClose_fold [simp]: "flatClose (fold (\<lambda>x. flatWrite n (f x)) xs w) = flatClose w @ concat (map f xs)"
  by (induction xs arbitrary: w) simp_all

lemma flushed_writer [simp]: "flushed RecordWriter = []"
  by (simp add: flushed_def RecordWriter_def)

lemma sortByKey_concat:
  assumes "0 < k" and "k \<le> n" and "\<forall>r \<in> set rs. length r = n"
  shows "sortByKey n k ram (concat rs) = Some (Inr (concat (sort_key (take k) rs)))"
proof -
  have "length (concat rs) = length rs * n" using assms(3) by (induction rs) simp_all
  moreover have "records n (concat rs) = rs" using assms by (intro records_concat) simp_all
  ultimately show ?thesis unfolding sortByKey_def using assms(1,2) by (subst externalSort_result) simp_all
qed

end
