(* ===== verification/SeedLoad.thy ===== *)
theory SeedLoad
  imports SeedKeys Partial
begin

text \<open>
  The loader of bulk sync, \<^verbatim>\<open>src/bulk_sync/merger/loader.js\<close>: the key files become put batches on an
  empty store, and the last batch writes the markers that make the store look synced. The database is
  the parameter of theory Kv. A load that ends early is shown to leave no marker, and one that ends
  leaves exactly the records the live tracker reads.
\<close>

subsection \<open>Records\<close>

text \<open>\<open>transformOValue\<close>: the fixed-width value of \<^verbatim>\<open>O.dat\<close> in the live encoding.\<close>

definition transformOValue :: "bytes \<Rightarrow> error + bytes" where
  "transformOValue value =
     rbind (readBigUInt64BE 0 value) (\<lambda>sat.
     rbind (readInt32BE 8 value) (\<lambda>height.
     encodeOutput sat (Some height) (Some (slice 12 44 value)) (length value > 44 \<and> value ! 44 = 1)))"

definition validateWRecord :: "bytes \<Rightarrow> bytes \<Rightarrow> error + unit" where
  "validateWRecord key value =
     (if length key \<noteq> 69 then Inl (BadConfig ''loadKeys: W key must be 69 bytes'')
      else if length value \<noteq> 32 then Inl (BadConfig ''loadKeys: W value must be 32 bytes'')
      else
        rbind (kOutBlk (slice 1 33 key) (slice 33 65 key) (unbe32 (slice 65 69 key))) (\<lambda>liveKey.
        if liveKey \<noteq> key then Inl (BadConfig ''loadKeys: W key mismatch vs live insertOutputBlock encoding'') else Inr ()))"

definition dropTHeight :: "bytes \<Rightarrow> bytes" where
  "dropTHeight value = drop 4 value"

subsection \<open>Which files\<close>

definition PREFIX_FILES :: string where "PREFIX_FILES = ''BHIJNOSTWZ''"
definition TX_INDEX_FILES :: string where "TX_INDEX_FILES = ''TXY''"

definition selectPrefixes :: "bool \<Rightarrow> bool \<Rightarrow> string" where
  "selectPrefixes removeSpent txIndex =
     (let base = (if removeSpent then filter (\<lambda>p. p \<noteq> CHR ''T'' \<and> p \<noteq> CHR ''I'' \<and> p \<noteq> CHR ''J'') PREFIX_FILES
                  else filter (\<lambda>p. \<not> (txIndex \<and> p = CHR ''T'')) PREFIX_FILES) in
      if \<not> txIndex then base else sort_key (\<lambda>c. of_char c :: nat) (base @ TX_INDEX_FILES))"

definition resolveTxIndex :: "keys_dir \<Rightarrow> bool option \<Rightarrow> bool" where
  "resolveTxIndex dir opt = (case opt of
     Some b \<Rightarrow> b
   | None \<Rightarrow> (case kd_last dir of
       Some L \<Rightarrow> (case lm_txIndex L of Some b \<Rightarrow> b | None \<Rightarrow> list_ex (\<lambda>p. kd_files dir p \<noteq> None) ''XY'')
     | None \<Rightarrow> list_ex (\<lambda>p. kd_files dir p \<noteq> None) ''XY''))"

subsection \<open>Loading one file\<close>

record 'd load =
  ld_db :: 'd
  ld_ops :: "item list"
  ld_total :: nat

definition loadBatch :: "'d kv \<Rightarrow> ('d load, unit) m" where
  "loadBatch K s = (case kv_batch K (ld_db s) (ld_ops s) of
     (ok, d) \<Rightarrow> if ok then (Inr (), s\<lparr>ld_db := d, ld_ops := []\<rparr>) else (Inl DbError, s\<lparr>ld_db := d\<rparr>))"

record prefix_load =
  pl_keySize :: nat
  pl_recordSize :: nat
  pl_valueTransform :: "bytes \<Rightarrow> error + bytes"
  pl_recordValidator :: "bytes \<Rightarrow> bytes \<Rightarrow> error + unit"

definition loadRecord :: "'d kv \<Rightarrow> nat \<Rightarrow> prefix_load \<Rightarrow> bytes \<Rightarrow> ('d load, unit) m" where
  "loadRecord K batchSize p rec =
     (let key = slice 0 (pl_keySize p) rec; value = slice (pl_keySize p) (pl_recordSize p) rec in
      mseq (mlift (pl_recordValidator p key value))
        (mbind (mlift (pl_valueTransform p value)) (\<lambda>v.
         mseq (mmod (\<lambda>s. s\<lparr>ld_ops := ld_ops s @ [Put key v], ld_total := ld_total s + 1\<rparr>))
           (mbind (mget ld_ops) (\<lambda>ops. if length ops \<ge> batchSize then loadBatch K else mret ())))))"

definition flushOps :: "'d kv \<Rightarrow> ('d load, unit) m" where
  "flushOps K = mbind (mget ld_ops) (\<lambda>ops. if length ops > 0 then loadBatch K else mret ())"

definition loadPrefixFile :: "'d kv \<Rightarrow> nat \<Rightarrow> prefix_load \<Rightarrow> bytes \<Rightarrow> ('d, nat) om" where
  "loadPrefixFile K batchSize p file d =
     (case readRecords 0 (pl_recordSize p) (loadRecord K batchSize p) file \<lparr>ld_db = d, ld_ops = [], ld_total = 0\<rparr> of
        None \<Rightarrow> None
      | Some (Inl e, s) \<Rightarrow> Some (Inl e, ld_db s)
      | Some (Inr _, s) \<Rightarrow> (case flushOps K s of
          (Inl e, s1) \<Rightarrow> Some (Inl e, ld_db s1)
        | (Inr _, s1) \<Rightarrow> Some (Inr (ld_total s1), ld_db s1)))"

definition preparePrefixLoad :: "keys_dir \<Rightarrow> char \<Rightarrow> bool \<Rightarrow> error + (prefix_load \<times> bytes)" where
  "preparePrefixLoad dir pfx txIndex =
     (let l = (case (if txIndex then TX_INDEX_LAYOUT pfx else None) of Some l \<Rightarrow> Some l | None \<Rightarrow> LAYOUT pfx) in
      (case l of
        None \<Rightarrow> Inl TypeError
      | Some l \<Rightarrow> (case kd_files dir pfx of
          None \<Rightarrow> Inl (BadConfig ''loadKeys: missing prefix file (partial derive)'')
        | Some file \<Rightarrow> Inr (\<lparr>pl_keySize = keySize l, pl_recordSize = recordSize l,
            pl_valueTransform = (if pfx = CHR ''O'' then transformOValue
              else if txIndex \<and> pfx = CHR ''T'' then (\<lambda>v. Inr (dropTHeight v)) else Inr),
            pl_recordValidator = (if pfx = CHR ''W'' then validateWRecord else (\<lambda>_ _. Inr ()))\<rparr>, file))))"

fun loadPrefixes :: "'d kv \<Rightarrow> nat \<Rightarrow> keys_dir \<Rightarrow> bool \<Rightarrow> string \<Rightarrow> (char \<Rightarrow> nat) \<Rightarrow> ('d, char \<Rightarrow> nat) om" where
  "loadPrefixes K batchSize dir txIndex [] stats = omlift (Inr stats)"
| "loadPrefixes K batchSize dir txIndex (pfx # pfxs) stats =
     ombind (omlift (preparePrefixLoad dir pfx txIndex)) (\<lambda>(p, file).
     ombind (loadPrefixFile K batchSize p file) (\<lambda>count.
     loadPrefixes K batchSize dir txIndex pfxs (stats(pfx := count))))"

subsection \<open>The markers\<close>

definition readLastMarkers :: "keys_dir \<Rightarrow> error + (string \<times> string)" where
  "readLastMarkers dir = (case kd_last dir of
     None \<Rightarrow> Inl (BadConfig ''loadKeys: missing L.json'')
   | Some L \<Rightarrow> (case (lm_height L, lm_hash L) of
       (Some height, Some hash) \<Rightarrow> Inr (height, hash)
     | _ \<Rightarrow> Inl (BadConfig ''loadKeys: L.json missing LAST_BLOCK_HEIGHT / LAST_BLOCK_HASH'')))"

definition STORE_LAYOUT_VERSION :: nat where "STORE_LAYOUT_VERSION = 2"

definition finalOps :: "string \<Rightarrow> string \<Rightarrow> nat \<Rightarrow> item list" where
  "finalOps height hash n =
     [Put PREFIX_LAST_BLOCK_HEIGHT (utf8 height), Put PREFIX_LAST_BLOCK_HASH (utf8 hash),
      Put PREFIX_LAYOUT_VERSION (utf8 (dec STORE_LAYOUT_VERSION))]
     @ (if n > 0 then [Put Q_UNDO_WATERMARK_KEY (utf8 (dec n))] else [])"

definition dbBatch :: "'d kv \<Rightarrow> item list \<Rightarrow> ('d, unit) om" where
  "dbBatch K ops d = (case kv_batch K d ops of (ok, d1) \<Rightarrow> Some (if ok then Inr () else Inl DbError, d1))"

definition writeFinalMarkers :: "'d kv \<Rightarrow> keys_dir \<Rightarrow> (char \<Rightarrow> nat) \<Rightarrow> ('d, unit) om" where
  "writeFinalMarkers K dir stats =
     ombind (omlift (readLastMarkers dir)) (\<lambda>(height, hash). dbBatch K (finalOps height hash (stats (CHR ''N''))))"

text \<open>\<open>db.keys({ limit: 2 })\<close> and the stamp under the only key there may be.\<close>

definition holdsNothingButCurrentStamp :: "'d kv \<Rightarrow> 'd \<Rightarrow> bool" where
  "holdsNothingButCurrentStamp K d =
     (let keys = map fst (kv_iter K d \<lparr>r_gte = None, r_gt = None, r_lte = None, r_limit = Some 2\<rparr>) in
      if keys = [] then True
      else if length keys > 1 \<or> hd keys \<noteq> PREFIX_LAYOUT_VERSION then False
      else kv_get K d PREFIX_LAYOUT_VERSION = Some (utf8 (dec STORE_LAYOUT_VERSION)))"

record load_options =
  lo_batchSize :: nat
  lo_removeSpent :: "bool option"
  lo_txIndex :: "bool option"

text \<open>Opening and closing the database is left out; the statistics are the counts by prefix.\<close>

definition loadKeys :: "'d kv \<Rightarrow> load_options \<Rightarrow> keys_dir \<Rightarrow> ('d, char \<Rightarrow> nat) om" where
  "loadKeys K opts dir d =
     (let batchSize = (if lo_batchSize opts = 0 then 10000 else lo_batchSize opts);
          removeSpent = (lo_removeSpent opts \<noteq> Some False);
          txIndex = resolveTxIndex dir (lo_txIndex opts) in
      if \<not> holdsNothingButCurrentStamp K d then Some (Inl (BadConfig ''loadKeys: target DB is not empty''), d)
      else
        ombind (loadPrefixes K batchSize dir txIndex (selectPrefixes removeSpent txIndex) (\<lambda>_. 0)) (\<lambda>stats.
        ombind (writeFinalMarkers K dir stats) (\<lambda>_. omlift (Inr stats))) d)"

subsection \<open>The phases of the orchestrator\<close>

text \<open>
  The derivation as \<open>phaseMerge\<close> calls it and \<open>phaseLoad\<close>, for the parsed streams of a fresh run. The
  record size is the one \<open>phaseMerge\<close> has just checked.
\<close>

definition deriveLevelDbKeys :: "environment \<Rightarrow> string \<Rightarrow> bool \<Rightarrow> nat \<Rightarrow> nat \<Rightarrow> merged \<Rightarrow> keys_dir \<Rightarrow> (error + keys_dir) option" where
  "deriveLevelDbKeys env network removeSpent outputsRecordSize ramBudgetBytes m dir =
     deriveKeys env \<lparr>do_ramBudgetBytes = ramBudgetBytes, do_network = network, do_undoBlocks = None, do_removeSpent = Some removeSpent,
         do_txIndex = None, do_outputsRecordSize = outputsRecordSize\<rparr>
       \<lparr>di_meta = pm_allMeta m, di_outputs = pm_allOutputs m, di_liveUtxos = pm_liveUtxos m, di_spendsByPrev = pm_sortedSpends m\<rparr> dir"

definition phaseLoad :: "'d kv \<Rightarrow> nat \<Rightarrow> bool \<Rightarrow> keys_dir \<Rightarrow> ('d, char \<Rightarrow> nat) om" where
  "phaseLoad K batchSize removeSpent dir = loadKeys K \<lparr>lo_batchSize = batchSize, lo_removeSpent = Some removeSpent, lo_txIndex = None\<rparr> dir"

record bulk_args =
  ba_network :: string
  ba_from :: int
  ba_ramBudget :: nat
  ba_batchSize :: nat
  ba_removeSpent :: bool

definition mergeAndLoad :: "'d kv \<Rightarrow> environment \<Rightarrow> bulk_args \<Rightarrow> streams list \<Rightarrow> keys_dir \<Rightarrow> ('d, char \<Rightarrow> nat) om" where
  "mergeAndLoad K env args parsed dir d =
     (case obind (phaseMerge (ba_ramBudget args) (ba_from args) parsed)
         (\<lambda>m. deriveLevelDbKeys env (ba_network args) (ba_removeSpent args) OUTPUTS_RECORD_SIZE (ba_ramBudget args * 1024 * 1024) m dir) of
        None \<Rightarrow> None
      | Some (Inl e) \<Rightarrow> Some (Inl e, d)
      | Some (Inr dir1) \<Rightarrow> phaseLoad K (ba_batchSize args) (ba_removeSpent args) dir1 d)"

subsection \<open>What a load does to the database\<close>

definition puts :: "(bytes \<times> bytes) list \<Rightarrow> (bytes \<rightharpoonup> bytes) \<Rightarrow> (bytes \<rightharpoonup> bytes)" where
  "puts es m = fold (\<lambda>(k, v) m. m(k \<mapsto> v)) es m"

lemma puts_simps [simp]: "puts [] m = m" "puts ((k, v) # es) m = puts es (m(k \<mapsto> v))" "puts (es @ fs) m = puts fs (puts es m)"
  by (simp_all add: puts_def)

lemma puts_other: "k \<notin> fst ` set es \<Longrightarrow> puts es m k = m k"
  by (induction es arbitrary: m) auto

lemma puts_map_of: "distinct (map fst es) \<Longrightarrow> puts es m = m ++ map_of es"
proof (induction es arbitrary: m)
  case (Cons e es)
  obtain k v where e: "e = (k, v)" by force
  have "k \<notin> dom (map_of es)" using Cons.prems e by (auto simp: dom_map_of_conv_image_fst)
  then have "m(k \<mapsto> v) ++ map_of es = m ++ map_of (e # es)" unfolding e by (auto simp: map_add_def fun_eq_iff split: option.splits)
  moreover have "puts (e # es) m = puts es (m(k \<mapsto> v))" by (simp add: e)
  moreover have "puts es (m(k \<mapsto> v)) = m(k \<mapsto> v) ++ map_of es" using Cons.prems by (intro Cons.IH) simp
  ultimately show ?case by (simp only:)
qed simp

lemma puts_cong: "m k = m' k \<or> k \<in> fst ` set es \<Longrightarrow> puts es m k = puts es m' k"
proof (induction es arbitrary: m m')
  case (Cons e es)
  obtain a b where "e = (a, b)" by force
  moreover have "puts es (m(a \<mapsto> b)) k = puts es (m'(a \<mapsto> b)) k"
    by (rule Cons.IH) (use Cons.prems \<open>e = (a, b)\<close> in auto)
  ultimately show ?case by (simp only: puts_simps)
qed simp

lemma fold_Put: "fold apply_item (map (\<lambda>(k, v). Put k v) es) m = puts es m"
  by (induction es arbitrary: m) (auto simp: apply_item_def)

definition entry_ok :: "prefix_load \<Rightarrow> bytes \<Rightarrow> bytes \<times> bytes \<Rightarrow> bool" where
  "entry_ok p rec e \<longleftrightarrow> (let value = slice (pl_keySize p) (pl_recordSize p) rec in
     slice 0 (pl_keySize p) rec = fst e \<and> pl_recordValidator p (fst e) value = Inr () \<and> pl_valueTransform p value = Inr (snd e))"

definition view_load :: "'d kv \<Rightarrow> 'd load \<Rightarrow> (bytes \<rightharpoonup> bytes)" where
  "view_load K s = fold apply_item (ld_ops s) (kv_get K (ld_db s))"

text \<open>
  \<open>loads K es s r s'\<close>: from \<open>s\<close> the entries \<open>es\<close> were taken, with result \<open>r\<close>; no other key was
  written or is about to be.
\<close>

definition untouched :: "'d kv \<Rightarrow> bytes \<Rightarrow> 'd load \<Rightarrow> 'd load \<Rightarrow> bool" where
  "untouched K m s s' \<longleftrightarrow> (m \<notin> item_key ` set (ld_ops s) \<longrightarrow>
     kv_get K (ld_db s') m = kv_get K (ld_db s) m \<and> m \<notin> item_key ` set (ld_ops s'))"

text \<open>Some batch of the database may fail.\<close>

definition batch_fails :: "'d kv \<Rightarrow> bool" where
  "batch_fails K \<longleftrightarrow> (\<exists>d ops. \<not> fst (kv_batch K d ops))"

lemma batch_failsI: "kv_batch K d ops = (False, d') \<Longrightarrow> batch_fails K"
  unfolding batch_fails_def by (metis fst_conv)

definition loads :: "'d kv \<Rightarrow> (bytes \<times> bytes) list \<Rightarrow> 'd load \<Rightarrow> error + unit \<Rightarrow> 'd load \<Rightarrow> bool" where
  "loads K es s r s' \<longleftrightarrow> (r = Inr () \<or> r = Inl DbError \<and> batch_fails K) \<and> (\<forall>m. m \<notin> fst ` set es \<longrightarrow> untouched K m s s')
     \<and> (r = Inr () \<longrightarrow> view_load K s' = puts es (view_load K s) \<and> ld_total s' = ld_total s + length es)"

definition put_all :: "'d kv \<Rightarrow> (bytes \<times> bytes) list \<Rightarrow> 'd \<Rightarrow> error + 'a \<Rightarrow> 'd \<Rightarrow> bool" where
  "put_all K es d r d' \<longleftrightarrow> ((\<exists>a. r = Inr a) \<or> r = Inl DbError \<and> batch_fails K) \<and> (\<forall>m. m \<notin> fst ` set es \<longrightarrow> kv_get K d' m = kv_get K d m)
     \<and> ((\<exists>a. r = Inr a) \<longrightarrow> kv_get K d' = puts es (kv_get K d))"

lemma untouched_trans: "untouched K m s s1 \<Longrightarrow> untouched K m s1 s2 \<Longrightarrow> untouched K m s s2"
  by (auto simp: untouched_def)

lemma loads_trans: "loads K es s (Inr ()) s1 \<Longrightarrow> loads K fs s1 r s2 \<Longrightarrow> loads K (es @ fs) s r s2"
  unfolding loads_def by (auto simp: image_Un intro: untouched_trans)

lemma loads_mono: "loads K es s (Inl DbError) s' \<Longrightarrow> loads K (es @ fs) s (Inl DbError) s'"
  by (auto simp: loads_def)

text \<open>The key file of a prefix is there and holds the records of the entries \<open>es\<close>.\<close>

definition holds_file :: "keys_dir \<Rightarrow> bool \<Rightarrow> char \<Rightarrow> (bytes \<times> bytes) list \<Rightarrow> bool" where
  "holds_file dir txIndex pfx es \<longleftrightarrow> (\<exists>p recs. preparePrefixLoad dir pfx txIndex = Inr (p, concat recs) \<and> pl_recordSize p > 0
     \<and> (\<forall>r \<in> set recs. length r = pl_recordSize p) \<and> list_all2 (entry_ok p) recs es)"

definition marker_entries :: "string \<Rightarrow> string \<Rightarrow> nat \<Rightarrow> (bytes \<times> bytes) list" where
  "marker_entries height hash n =
     [(PREFIX_LAST_BLOCK_HEIGHT, utf8 height), (PREFIX_LAST_BLOCK_HASH, utf8 hash), (PREFIX_LAYOUT_VERSION, utf8 (dec STORE_LAYOUT_VERSION))]
     @ (if n > 0 then [(Q_UNDO_WATERMARK_KEY, utf8 (dec n))] else [])"

lemma finalOps_entries: "finalOps height hash n = map (\<lambda>(k, v). Put k v) (marker_entries height hash n)"
  by (simp add: finalOps_def marker_entries_def)

context leveldb
begin

lemma fold_item_other: "m \<notin> item_key ` set ops \<Longrightarrow> fold apply_item ops f m = f m"
  by (induction ops arbitrary: f) (auto simp: apply_item_def)

lemma loadBatch_loads: "loadBatch K s = (r, s') \<Longrightarrow> loads K [] s r s'"
proof (rule batch_cases [of "ld_db s" "ld_ops s"])
  fix d' assume "loadBatch K s = (r, s')" "kv_batch K (ld_db s) (ld_ops s) = (True, d')" "kv_get K d' = fold apply_item (ld_ops s) (kv_get K (ld_db s))"
  then show ?thesis by (auto simp: loads_def loadBatch_def view_load_def fold_item_other untouched_def)
next
  fix d' assume "loadBatch K s = (r, s')" "kv_batch K (ld_db s) (ld_ops s) = (False, d')" "kv_get K d' = kv_get K (ld_db s)"
  then show ?thesis by (auto simp: loads_def loadBatch_def untouched_def intro: batch_failsI)
qed

lemma loadRecord_loads:
  assumes "entry_ok p rec e" and "loadRecord K batchSize p rec s = (r, s')"
  shows "loads K [e] s r s'"
proof -
  obtain k v where e: "e = (k, v)" by force
  let ?s = "s\<lparr>ld_ops := ld_ops s @ [Put k v], ld_total := ld_total s + 1\<rparr>"
  have put: "loads K [e] s (Inr ()) ?s" by (auto simp: loads_def untouched_def e view_load_def apply_item_def)
  have run: "loadRecord K batchSize p rec s = (if length (ld_ops ?s) \<ge> batchSize then loadBatch K ?s else (Inr (), ?s))"
    using assms(1) by (simp add: loadRecord_def entry_ok_def Let_def e)
  show ?thesis
  proof (cases "length (ld_ops ?s) \<ge> batchSize")
    case True
    then show ?thesis using loads_trans [OF put loadBatch_loads, of r s'] run assms(2) by simp
  next
    case False
    then show ?thesis using put run assms(2) by simp
  qed
qed

lemma loadRecords_loads:
  assumes "list_all2 (entry_ok p) recs es" and "mfor recs (loadRecord K batchSize p) s = (r, s')"
  shows "loads K es s r s'"
  using assms
proof (induction recs es arbitrary: s rule: list_all2_induct)
  case Nil
  then show ?case by (auto simp: loads_def untouched_def)
next
  case (Cons rec recs e es)
  obtain r1 s1 where 1: "loadRecord K batchSize p rec s = (r1, s1)" by force
  note l = loadRecord_loads [OF Cons.hyps(1) 1]
  show ?case
  proof (cases r1)
    case (Inl x)
    then have "x = DbError" using l by (simp add: loads_def)
    moreover have "r = Inl x" "s' = s1" using Inl 1 Cons.prems by (simp_all add: mseq_run)
    ultimately have "r = Inl DbError" "s' = s1" "x = DbError" by simp_all
    then show ?thesis using l Inl loads_mono [of K "[e]" s s1 es] by simp
  next
    case (Inr u)
    then have "loads K es s1 r s'" using 1 Cons by (simp add: mseq_run)
    then show ?thesis using l Inr loads_trans [of K "[e]" s s1 es r s'] by simp
  qed
qed

lemma loadPrefixFile_puts:
  assumes "list_all2 (entry_ok p) recs es" and "pl_recordSize p > 0" and "\<forall>r \<in> set recs. length r = pl_recordSize p"
  obtains r d' where "loadPrefixFile K batchSize p (concat recs) d = Some (r, d')" and "put_all K es d r d'"
    and "\<forall>n. r = Inr n \<longrightarrow> n = length es"
proof -
  let ?s = "\<lparr>ld_db = d, ld_ops = [], ld_total = 0\<rparr>"
  obtain r1 s1 where 1: "mfor recs (loadRecord K batchSize p) ?s = (r1, s1)" by force
  have l1: "loads K es ?s r1 s1" by (rule loadRecords_loads [OF assms(1) 1])
  have run: "readRecords 0 (pl_recordSize p) (loadRecord K batchSize p) (concat recs) ?s = Some (r1, s1)"
    using scan_file [OF assms(2), of "[]" 0 recs "loadRecord K batchSize p" ?s] assms(3) 1 by simp
  obtain r2 s2 where 2: "flushOps K s1 = (r2, s2)" by force
  have l2: "loads K [] s1 r2 s2"
  proof (cases "ld_ops s1 = []")
    case True
    then show ?thesis using 2 by (simp add: flushOps_def loads_def untouched_def)
  next
    case False
    then show ?thesis using 2 loadBatch_loads by (simp add: flushOps_def)
  qed
  show ?thesis
  proof (cases r1)
    case (Inl x)
    then show ?thesis using that [of "Inl x" "ld_db s1"] run l1
      by (auto simp: loadPrefixFile_def put_all_def loads_def untouched_def)
  next
    case (Inr u)
    have l: "loads K es ?s r2 s2" using loads_trans [of K es ?s s1 "[]" r2 s2] l1 l2 Inr by simp
    have nop: "ld_ops s2 = []" if "r2 = Inr ()"
      using 2 that by (auto simp: flushOps_def loadBatch_def split: if_splits prod.splits)
    show ?thesis
    proof (cases r2)
      case (Inl x)
      then show ?thesis using that [of "Inl x" "ld_db s2"] run l Inr 2
        by (auto simp: loadPrefixFile_def put_all_def loads_def untouched_def)
    next
      case (Inr u2)
      then show ?thesis using that [of "Inr (ld_total s2)" "ld_db s2"] run l \<open>r1 = Inr u\<close> 2 nop
        by (auto simp: loadPrefixFile_def put_all_def loads_def untouched_def view_load_def)
    qed
  qed
qed

lemma put_all_trans: "put_all K es d (Inr a) d1 \<Longrightarrow> put_all K fs d1 r d2 \<Longrightarrow> put_all K (es @ fs) d r d2"
  unfolding put_all_def by (auto simp: image_Un)

lemma loadPrefixes_puts:
  assumes "\<forall>c \<in> set cs. holds_file dir txIndex c (E c)"
  shows "\<exists>(r :: error + (char \<Rightarrow> nat)) d'. loadPrefixes K batchSize dir txIndex cs st d = Some (r, d') \<and> put_all K (concat (map E cs)) d r d'
    \<and> (\<forall>st'. r = Inr st' \<longrightarrow> (\<forall>c. st' c = (if c \<in> set cs then length (E c) else st c)))"
  using assms
proof (induction cs arbitrary: st d)
  case Nil
  then show ?case by (simp add: omlift_def put_all_def)
next
  case (Cons c cs)
  obtain p recs where p: "preparePrefixLoad dir c txIndex = Inr (p, concat recs)" "pl_recordSize p > 0"
    "\<forall>r \<in> set recs. length r = pl_recordSize p" "list_all2 (entry_ok p) recs (E c)"
    using Cons.prems by (auto simp: holds_file_def)
  obtain r1 d1 where 1: "loadPrefixFile K batchSize p (concat recs) d = Some (r1, d1)" "put_all K (E c) d r1 d1" "\<forall>n. r1 = Inr n \<longrightarrow> n = length (E c)"
    by (rule loadPrefixFile_puts [OF p(4,2,3)])
  show ?case
  proof (cases r1)
    case (Inl x)
    then show ?thesis using p(1) 1 by (auto simp: ombind_def omlift_def put_all_def)
  next
    case (Inr n)
    obtain r2 d2 where 2: "loadPrefixes K batchSize dir txIndex cs (st(c := n)) d1 = Some (r2, d2)" "put_all K (concat (map E cs)) d1 r2 d2"
      "\<forall>st'. r2 = Inr st' \<longrightarrow> (\<forall>a. st' a = (if a \<in> set cs then length (E a) else (st(c := n)) a))"
      using Cons.IH [of "st(c := n)" d1] Cons.prems unfolding list.set by blast
    have "loadPrefixes K batchSize dir txIndex (c # cs) st d = Some (r2, d2)" using p(1) 1(1) 2(1) Inr by (simp add: ombind_def omlift_def)
    moreover have "put_all K (concat (map E (c # cs))) d r2 d2" using put_all_trans 1(2) 2(2) Inr by fastforce
    moreover have "n = length (E c)" using 1(3) Inr by simp
    ultimately show ?thesis using 2(3) by fastforce
  qed
qed

lemma fresh_store:
  assumes "holdsNothingButCurrentStamp K d"
  shows "kv_get K d = Map.empty \<or> kv_get K d = [PREFIX_LAYOUT_VERSION \<mapsto> utf8 (dec STORE_LAYOUT_VERSION)]"
proof -
  let ?r = "\<lparr>r_gte = None, r_gt = None, r_lte = None, r_limit = Some 2\<rparr> :: range"
  have all: "set (kv_iter K d (no_limit ?r)) = {(k, v). kv_get K d k = Some v}"
    using iter_set [of "no_limit ?r" d] by (simp add: in_range_def)
  have two: "kv_iter K d ?r = take 2 (kv_iter K d (no_limit ?r))" by (rule iter_limit) simp
  show ?thesis
  proof (cases "kv_iter K d (no_limit ?r)")
    case Nil
    then show ?thesis using all by (auto simp: fun_eq_iff)
  next
    case (Cons e es)
    then have "es = []" "fst e = PREFIX_LAYOUT_VERSION" "kv_get K d PREFIX_LAYOUT_VERSION = Some (utf8 (dec STORE_LAYOUT_VERSION))"
      using assms two by (auto simp: holdsNothingButCurrentStamp_def Let_def numeral_2_eq_2 split: if_splits)
    then have "kv_get K d k = Some v \<longleftrightarrow> (k, v) = e" for k v using all Cons by auto
    then have "kv_get K d k = (if k = PREFIX_LAYOUT_VERSION then Some (utf8 (dec STORE_LAYOUT_VERSION)) else None)" for k
      using \<open>fst e = _\<close> \<open>kv_get K d PREFIX_LAYOUT_VERSION = _\<close> by (metis fst_conv not_None_eq)
    then show ?thesis by (auto simp: fun_eq_iff)
  qed
qed

lemma loadKeys_puts:
  fixes E opts dir
  defines "tx \<equiv> resolveTxIndex dir (lo_txIndex opts)"
  defines "cs \<equiv> selectPrefixes (lo_removeSpent opts \<noteq> Some False) tx"
  defines "es \<equiv> concat (map E cs)"
  assumes "holdsNothingButCurrentStamp K d" and "\<forall>c \<in> set cs. holds_file dir tx c (E c)"
    and "readLastMarkers dir = Inr (height, hash)"
  shows "\<exists>r d'. loadKeys K opts dir d = Some (r, d')
    \<and> (r = Inl DbError \<and> batch_fails K \<and> (\<forall>m. m \<notin> fst ` set es \<longrightarrow> kv_get K d' m = kv_get K d m)
      \<or> (\<exists>st. r = Inr st) \<and> kv_get K d' = puts (es @ marker_entries height hash (if CHR ''N'' \<in> set cs then length (E (CHR ''N'')) else 0)) Map.empty)"
proof -
  let ?bs = "if lo_batchSize opts = 0 then 10000 else lo_batchSize opts"
  obtain r1 d1 where 1: "loadPrefixes K ?bs dir tx cs (\<lambda>_. 0) d = Some (r1, d1)" "put_all K es d r1 d1"
    "\<forall>st'. r1 = Inr st' \<longrightarrow> (\<forall>c. st' c = (if c \<in> set cs then length (E c) else 0))"
    using loadPrefixes_puts [OF assms(5), of ?bs "\<lambda>_. 0" d] unfolding es_def by blast
  have run: "loadKeys K opts dir d = ombind (\<lambda>d. Some (r1, d1)) (\<lambda>stats. ombind (writeFinalMarkers K dir stats) (\<lambda>_. omlift (Inr stats))) d"
    using assms(4) 1(1) by (simp add: loadKeys_def Let_def tx_def cs_def ombind_def)
  show ?thesis
  proof (cases r1)
    case (Inl x)
    then show ?thesis using run 1(2) by (simp add: ombind_def put_all_def)
  next
    case (Inr st)
    let ?n = "if CHR ''N'' \<in> set cs then length (E (CHR ''N'')) else 0"
    have g: "kv_get K d1 = puts es (kv_get K d)" using 1(2) Inr by (simp add: put_all_def)
    have st: "st (CHR ''N'') = ?n" using 1(3) Inr by simp
    have run2: "loadKeys K opts dir d = (case kv_batch K d1 (finalOps height hash ?n) of (ok, d2) \<Rightarrow> Some (if ok then Inr st else Inl DbError, d2))"
      using run Inr assms(6) st by (simp add: ombind_def writeFinalMarkers_def omlift_def dbBatch_def split: prod.split)
    have fresh: "puts (marker_entries height hash ?n) (puts es (kv_get K d)) = puts (marker_entries height hash ?n) (puts es Map.empty)"
    proof
      fix k
      have "k \<noteq> PREFIX_LAYOUT_VERSION \<Longrightarrow> kv_get K d k = None" using fresh_store [OF assms(4)] by auto
      then have "puts es (kv_get K d) k = puts es Map.empty k \<or> k = PREFIX_LAYOUT_VERSION" using puts_cong [of "kv_get K d" k Map.empty es] by blast
      then show "puts (marker_entries height hash ?n) (puts es (kv_get K d)) k = puts (marker_entries height hash ?n) (puts es Map.empty) k"
        by (intro puts_cong) (force simp: marker_entries_def)
    qed
    show ?thesis
    proof (rule batch_cases [of d1 "finalOps height hash ?n"])
      fix d2 assume "kv_batch K d1 (finalOps height hash ?n) = (True, d2)" "kv_get K d2 = fold apply_item (finalOps height hash ?n) (kv_get K d1)"
      then show ?thesis using run2 fresh g by (simp add: finalOps_entries fold_Put)
    next
      fix d2 assume "kv_batch K d1 (finalOps height hash ?n) = (False, d2)" "kv_get K d2 = kv_get K d1"
      then show ?thesis using run2 1(2) batch_failsI by (auto simp: put_all_def)
    qed
  qed
qed

end

end
