(* ===== verification/SeedSpec.thy ===== *)
theory SeedSpec
  imports SeedLoad
begin

text \<open>
  What bulk sync seeds a store with. The content is stated as a list of entries over the blocks and
  the outputs they create, in terms of the live store's keys; the key files of theory SeedKeys are
  shown to hold these entries, and the loader of theory SeedLoad to put them, and nothing else, into
  the database.
\<close>

subsection \<open>The entries\<close>

text \<open>The first element of every key in the order of the list: \<open>first_by\<close>; \<open>run_heads\<close> drops only repetitions next to each other.\<close>

fun first_by :: "('a \<Rightarrow> 'k) \<Rightarrow> 'a list \<Rightarrow> 'a list" where
  "first_by f [] = []"
| "first_by f (x # xs) = x # filter (\<lambda>y. f y \<noteq> f x) (first_by f xs)"

fun run_heads :: "('a \<Rightarrow> 'k) \<Rightarrow> 'k option \<Rightarrow> 'a list \<Rightarrow> 'a list" where
  "run_heads f prev [] = []"
| "run_heads f prev (x # xs) = (if prev = Some (f x) then run_heads f prev xs else x # run_heads f (Some (f x)) xs)"

definition ux_height4 :: "utxo \<Rightarrow> bytes" where
  "ux_height4 u = be 4 (nat (ux_height u mod 4294967296))"

definition bEntry :: "chain_block \<Rightarrow> bytes \<times> bytes" where
  "bEntry b = (case b of (h, bh, block) \<Rightarrow> (bKey bh, be 4 (nat h) @ be 4 (nat (bl_timestamp block)) @ rev (bl_prevHash block)))"

definition nEntry :: "bytes \<Rightarrow> bytes \<times> bytes" where
  "nEntry bh = (nKey bh, [])"

definition oEntry :: "utxo \<Rightarrow> bytes \<times> bytes" where
  "oEntry u = (oKey (ux_script u) (ux_txid u) (ux_vout u),
     be 8 (nat (ux_value u)) @ ux_height4 u @ ux_txid u @ (if ux_coinbase u then [1] else []))"

definition hEntry :: "utxo \<Rightarrow> bytes \<times> bytes" where
  "hEntry u = (hKey (ux_txid u) (ux_vout u), ux_script u)"

definition wEntry :: "utxo \<Rightarrow> bytes \<times> bytes" where
  "wEntry u = (wKey (ux_block u) (ux_txid u) (ux_vout u), ux_script u)"

definition sEntry :: "utxo \<Rightarrow> bytes \<times> bytes" where
  "sEntry u = (sKey (ux_script u), ux_height4 u)"

definition zEntry :: "utxo \<Rightarrow> bytes \<times> bytes" where
  "zEntry u = (zKey (ux_block u) (ux_script u), [])"

definition tEntry :: "utxo \<Rightarrow> bytes \<times> bytes" where
  "tEntry u = (tKey (ux_txid u), ux_block u @ ux_txid u)"

definition xEntry :: "utxo \<Rightarrow> bytes \<times> bytes" where
  "xEntry u = (xKey (ux_txid u), ux_block u)"

definition yEntry :: "utxo \<Rightarrow> bytes \<times> bytes" where
  "yEntry u = (yKey (ux_block u) (ux_txid u), ux_txid u)"

subsection \<open>First sightings\<close>

definition keyed :: "('a \<Rightarrow> 'k) \<Rightarrow> 'a list \<Rightarrow> ('k \<times> 'a) list" where
  "keyed f xs = map (\<lambda>x. (f x, x)) xs"

lemma keyed_simps [simp]: "keyed f [] = []" "keyed f (x # xs) = (f x, x) # keyed f xs" "map fst (keyed f xs) = map f xs"
  by (simp_all add: keyed_def)

lemma map_of_keyed_filter: "k \<noteq> l \<Longrightarrow> map_of (keyed f (filter (\<lambda>y. f y \<noteq> l) xs)) k = map_of (keyed f xs) k"
  by (induction xs) auto

lemma map_of_first_by: "map_of (keyed f (first_by f xs)) = map_of (keyed f xs)"
proof
  fix k
  show "map_of (keyed f (first_by f xs)) k = map_of (keyed f xs) k"
    by (induction xs) (auto simp: map_of_keyed_filter)
qed

lemma distinct_first_by: "distinct (map f (first_by f xs))"
  by (induction xs) (auto simp: distinct_map inj_on_def)

lemma set_first_by: "set (first_by f xs) \<subseteq> set xs"
  by (induction xs) auto

lemma map_of_run_heads: "prev \<noteq> Some k \<Longrightarrow> map_of (keyed f (run_heads f prev xs)) k = map_of (keyed f xs) k"
  by (induction xs arbitrary: prev) auto

lemma set_run_heads: "set (run_heads f prev xs) \<subseteq> set xs"
  by (induction xs arbitrary: prev) (auto split: if_splits)

lemma run_heads_sorted:
  "sorted (map f xs) \<Longrightarrow> (\<forall>x \<in> set xs. prev \<noteq> None \<longrightarrow> the prev \<le> f x) \<Longrightarrow>
    sorted_wrt (<) (map f (run_heads f prev xs)) \<and> (\<forall>x \<in> set (run_heads f prev xs). prev \<noteq> None \<longrightarrow> the prev < f x)"
  for f :: "'a \<Rightarrow> 'k :: linorder"
proof (induction xs arbitrary: prev)
  case (Cons x xs)
  show ?case
  proof (cases "prev = Some (f x)")
    case True
    then show ?thesis using Cons.prems Cons.IH [of prev] by simp
  next
    case False
    then have "\<forall>y \<in> set (run_heads f (Some (f x)) xs). f x < f y" "sorted_wrt (<) (map f (run_heads f (Some (f x)) xs))"
      using Cons.IH [of "Some (f x)"] Cons.prems(1) by simp_all
    moreover have "prev \<noteq> None \<longrightarrow> the prev < f x" using False Cons.prems(2) by (cases prev) (auto simp: le_less)
    ultimately show ?thesis using False by (auto intro: less_trans)
  qed
qed simp

lemma keyed_set_eq:
  assumes "distinct (map f xs)" and "distinct (map f ys)" and "map_of (keyed f xs) = map_of (keyed f ys)"
  shows "set xs = set ys"
proof -
  have "set (keyed f xs) = set (keyed f ys)" using assms by (metis keyed_simps(3) map_of_inject_set)
  then have "snd ` set (keyed f xs) = snd ` set (keyed f ys)" by simp
  then show ?thesis by (simp add: keyed_def image_image)
qed

definition one_key :: "('a \<Rightarrow> 'k) \<Rightarrow> 'a list \<Rightarrow> bool" where
  "one_key f g \<longleftrightarrow> g \<noteq> [] \<and> (\<forall>x \<in> set g. f x = f (hd g))"

lemma run_heads_groups:
  assumes "\<forall>g \<in> set gs. one_key f g" and "distinct (map (f \<circ> hd) gs)" and "\<forall>g \<in> set gs. prev \<noteq> Some (f (hd g))"
  shows "run_heads f prev (concat gs) = map hd gs"
  using assms
proof (induction gs arbitrary: prev)
  case (Cons g gs)
  obtain x xs where g: "g = x # xs" using Cons.prems(1) by (cases g) (simp_all add: one_key_def)
  have skip: "run_heads f (Some (f x)) (ys @ zs) = run_heads f (Some (f x)) zs" if "\<forall>y \<in> set ys. f y = f x" for ys zs
    using that by (induction ys) auto
  have "f x \<noteq> f (hd h)" if "h \<in> set gs" for h using Cons.prems(2) that g by fastforce
  then have "run_heads f (Some (f x)) (concat gs) = map hd gs"
    using Cons.prems(1,2) by (intro Cons.IH) simp_all
  moreover have "prev \<noteq> Some (f x)" using Cons.prems(3) g by simp
  moreover have "\<forall>y \<in> set xs. f y = f x" using Cons.prems(1) unfolding g one_key_def by simp
  ultimately show ?case using skip [of xs "concat gs"] g by simp
qed simp

subsection \<open>Fields of a record\<close>

lemma enc_utxo_fields:
  assumes "utxo_ok u"
  shows "slice OUT_TXID (OUT_TXID + 32) (enc_utxo u) = ux_txid u"
    and "slice OUT_VOUT (OUT_VOUT + 4) (enc_utxo u) = be32 (ux_vout u)"
    and "slice OUT_VALUE (OUT_VALUE + 8) (enc_utxo u) = be 8 (nat (ux_value u))"
    and "slice OUT_HEIGHT (OUT_HEIGHT + 4) (enc_utxo u) = ux_height4 u"
    and "slice OUT_SCRIPT (OUT_SCRIPT + 32) (enc_utxo u) = ux_script u"
    and "slice OUT_BLOCK (OUT_BLOCK + 32) (enc_utxo u) = ux_block u"
    and "enc_utxo u ! OUT_COINBASE = (if ux_coinbase u then 1 else 0)"
  using assms by (simp_all add: utxo_ok_def enc_utxo_def ux_height4_def layout_defs slice_def nth_append)

definition rec_of :: "bytes \<times> bytes \<Rightarrow> bytes" where
  "rec_of e = fst e @ snd e"

lemma records_of_utxo:
  assumes "utxo_ok u"
  shows "hRecord (enc_utxo u) = rec_of (hEntry u)" and "wRecord (enc_utxo u) = rec_of (wEntry u)"
    and "txRecordX (enc_utxo u) = rec_of (xEntry u)" and "txRecordY (enc_utxo u) = rec_of (yEntry u)"
    and "oRecord (enc_utxo u) = oKey (ux_script u) (ux_txid u) (ux_vout u)
      @ be 8 (nat (ux_value u)) @ ux_height4 u @ ux_txid u @ [if ux_coinbase u then 1 else 0]"
    and "txRecordT (enc_utxo u) = tKey (ux_txid u) @ ux_height4 u @ ux_block u @ ux_txid u"
    and "candRecord i (enc_utxo u) = ux_script u @ be 4 i @ ux_block u @ ux_height4 u"
    and "recHeight (enc_utxo u) = ux_height u mod 4294967296"
  unfolding hRecord_def wRecord_def txRecordX_def txRecordY_def oRecord_def txRecordT_def candRecord_def recHeight_def
    enc_utxo_fields [OF assms] Let_def
  by (simp_all add: rec_of_def hEntry_def wEntry_def xEntry_def yEntry_def key_defs ux_height4_def nat_less_iff)

subsection \<open>The files of unspent outputs\<close>

definition widths :: "nat \<Rightarrow> nat \<Rightarrow> bytes \<times> bytes \<Rightarrow> bool" where
  "widths k v e \<longleftrightarrow> length (fst e) = k \<and> length (snd e) = v"

lemma length_height4 [simp]: "length (ux_height4 u) = 4"
  by (simp add: ux_height4_def)

lemma entry_widths:
  assumes "utxo_ok u"
  shows "widths 37 32 (hEntry u)" and "widths 69 32 (wEntry u)" and "widths 33 32 (xEntry u)" and "widths 65 32 (yEntry u)"
    and "widths 33 4 (sEntry u)" and "widths 65 0 (zEntry u)"
  using assms by (simp_all add: widths_def utxo_ok_def hEntry_def wEntry_def xEntry_def yEntry_def sEntry_def zEntry_def)

lemma length_rec_of: "widths k v e \<Longrightarrow> length (rec_of e) = k + v"
  by (simp add: widths_def rec_of_def)

lemma sort_map: "sort_key k (map g xs) = map g (sort_key (\<lambda>x. k (g x)) xs)"
  by (simp add: map_sort_key)

lemma insort_key_eq: "\<forall>y \<in> insert x (set xs). f y = g y \<Longrightarrow> insort_key f x xs = insort_key g x xs"
  by (induction xs) simp_all

lemma sort_key_eq: "\<forall>x \<in> set xs. f x = g x \<Longrightarrow> sort_key f xs = sort_key g xs"
  by (induction xs) (simp_all add: insort_key_eq)

lemma sort_rec_of:
  assumes "\<forall>e \<in> set es. widths k v e"
  shows "sort_key (take k) (map rec_of es) = map rec_of (sort_key fst es)"
proof -
  have "sort_key (\<lambda>e. take k (rec_of e)) es = sort_key fst es"
    using assms by (intro sort_key_eq ballI) (simp add: widths_def rec_of_def)
  then show ?thesis by (simp add: sort_map)
qed

lemma sortByKey_entries:
  assumes "\<forall>e \<in> set es. widths k v e" and "0 < k"
  shows "sortByKey (k + v) k ram (concat (map rec_of es)) = Some (Inr (concat (map rec_of (sort_key fst es))))"
  using assms by (subst sortByKey_concat) (auto simp: length_rec_of sort_rec_of)

lemma fold_writeLive:
  "flushed (fst (fold writeLiveRecord rs s)) = flushed (fst s) @ concat (map hRecord rs)
    \<and> flatClose (snd (fold writeLiveRecord rs s)) = flatClose (snd s) @ concat (map oRecord rs)"
  by (induction rs arbitrary: s) (simp_all add: writeLiveRecord_def)

definition oFile :: "utxo list \<Rightarrow> bytes" where
  "oFile lv = concat (map (\<lambda>u. oRecord (enc_utxo u)) (sort_key (\<lambda>u. fst (oEntry u)) lv))"

lemma length_oRecord: "utxo_ok u \<Longrightarrow> length (oRecord (enc_utxo u)) = 114"
  by (simp add: records_of_utxo) (simp add: utxo_ok_def)

lemma deriveOutputKeys_enc:
  assumes "\<forall>u \<in> set lv. utxo_ok u" and "dc_outputsRecordSize ctx = OUTPUTS_RECORD_SIZE"
  shows "deriveOutputKeys ctx (concat (map enc_utxo lv)) d
    = Some (Inr (putFile (CHR ''O'') (oFile lv) (putFile (CHR ''H'') (concat (map rec_of (map hEntry lv))) d)))"
proof -
  have len: "\<forall>r \<in> set (map enc_utxo lv). length r = OUTPUTS_RECORD_SIZE" using assms(1) by (simp add: length_enc_utxo)
  define st where "st = fold writeLiveRecord (map enc_utxo lv) (RecordWriter, FlatWriter)"
  have "writeLiveOutputRecords OUTPUTS_RECORD_SIZE (concat (map enc_utxo lv)) = Some (Inr st)"
    using scan_mmod [OF _ refl len, of "[]" writeLiveRecord "(RecordWriter, FlatWriter)"]
    by (simp add: writeLiveOutputRecords_def st_def OUTPUTS_RECORD_SIZE_def)
  moreover have "flushed (fst st) = concat (map rec_of (map hEntry lv))"
    using fold_writeLive [of "map enc_utxo lv" "(RecordWriter, FlatWriter)"] assms(1)
    by (simp add: st_def records_of_utxo(1) comp_def cong: map_cong)
  moreover have "flatClose (snd st) = concat (map (\<lambda>u. oRecord (enc_utxo u)) lv)"
    using fold_writeLive [of "map enc_utxo lv" "(RecordWriter, FlatWriter)"] by (simp add: st_def comp_def)
  moreover have "sortByKey 114 69 (dc_ramBudgetBytes ctx) (concat (map (\<lambda>u. oRecord (enc_utxo u)) lv)) = Some (Inr (oFile lv))"
  proof (subst sortByKey_concat)
    show "\<forall>r \<in> set (map (\<lambda>u. oRecord (enc_utxo u)) lv). length r = 114" using assms(1) by (simp add: length_oRecord)
    have "sort_key (\<lambda>u. take 69 (oRecord (enc_utxo u))) lv = sort_key (\<lambda>u. fst (oEntry u)) lv"
      using assms(1) by (intro sort_key_eq ballI) (simp add: records_of_utxo(5) oEntry_def, simp add: utxo_ok_def)
    then show "Some (Inr (concat (sort_key (take 69) (map (\<lambda>u. oRecord (enc_utxo u)) lv)))) = Some (Inr (oFile lv))"
      by (simp add: oFile_def sort_map)
  qed simp_all
  ultimately show ?thesis
    by (cases st) (simp add: deriveOutputKeys_def assms(2))
qed

subsection \<open>The files of blocks\<close>

definition block_ok :: "chain_block \<Rightarrow> bool" where
  "block_ok b \<longleftrightarrow> (case b of (h, bh, block) \<Rightarrow> 0 \<le> h \<and> h < 4294967296 \<and> length bh = 32 \<and> 0 \<le> bl_timestamp block \<and> bl_timestamp block < 4294967296
     \<and> length (bl_prevHash block) = 32 \<and> length (bl_transactions block) < 4294967296 \<and> (\<forall>t \<in> set (bl_transactions block). length (tx_id t) = 32))"

definition meta_block_of :: "chain_block \<Rightarrow> meta_block" where
  "meta_block_of b = (case b of (h, bh, block) \<Rightarrow> \<lparr>mb_height = nat h, mb_timestamp = nat (bl_timestamp block), mb_blockHash = bh,
     mb_previousHash = rev (bl_prevHash block), mb_txidList = map tx_id (bl_transactions block)\<rparr>)"

lemma be32_of_int: "0 \<le> n \<Longrightarrow> n < 4294967296 \<Longrightarrow> be32 (of_int n) = be 4 (nat n)"
  by (simp add: be32_def unsigned_of_int take_bit_eq_mod nat_mod_as_int)

lemma slice_concat_nth:
  assumes "\<forall>x \<in> set xs. length x = n" and "i < length xs"
  shows "slice (n * i) (n * i + n) (concat xs @ ys) = xs ! i"
  using assms
proof (induction xs arbitrary: i)
  case (Cons x xs)
  show ?case
  proof (cases i)
    case 0
    then show ?thesis using Cons.prems by (simp add: slice_def)
  next
    case (Suc j)
    then have "slice (n * i) (n * i + n) (concat (x # xs) @ ys) = slice (n * j) (n * j + n) (concat xs @ ys)"
      using Cons.prems by (simp add: slice_def)
    then show ?thesis using Cons Suc by simp
  qed
qed simp

lemma metaNext_of:
  assumes "block_ok b" and "drop (mr_pos r) (mr_file r) = meta_of b @ rest"
  shows "metaNext r = Inr (meta_block_of b, r\<lparr>mr_pos := mr_pos r + length (meta_of b)\<rparr>)" and "length (meta_of b) \<ge> 76"
proof -
  obtain h bh block where b: "b = (h, bh, block)" by (cases b)
  define ids where "ids = map tx_id (bl_transactions block)"
  have ok: "0 \<le> h" "h < 4294967296" "length bh = 32" "0 \<le> bl_timestamp block" "bl_timestamp block < 4294967296"
    "length (bl_prevHash block) = 32" "length ids < 4294967296" "\<forall>t \<in> set ids. length t = 32"
    using assms(1) by (auto simp: b block_ok_def ids_def)
  have tk: "map (take 32) ids = ids" using ok(8) by (intro map_idI) simp
  have n: "be32 (of_nat (length ids)) = be 4 (length ids)" using be32_of_int [of "int (length ids)"] ok(7) by simp
  have m: "meta_of b = be 4 (nat h) @ be 4 (nat (bl_timestamp block)) @ bh @ rev (bl_prevHash block) @ be 4 (length ids) @ concat ids"
    using ok by (simp add: b meta_of_def metaRecord_def ids_def [symmetric] tk n be32_of_int map_map [symmetric] del: length_map map_map)
  have len: "length (concat ids) = 32 * length ids" using ok(8) by (induction ids) simp_all
  then have lm: "length (meta_of b) = 76 + 32 * length ids" using m ok by simp
  have flen: "length (mr_file r) - mr_pos r = length (meta_of b) + length rest"
    using arg_cong [OF assms(2), of length] by simp
  let ?rec = "meta_of b @ rest"
  have f: "slice 72 76 ?rec = be 4 (length ids)" "slice 0 4 ?rec = be 4 (nat h)" "slice 4 8 ?rec = be 4 (nat (bl_timestamp block))"
    "slice 8 40 ?rec = bh" "slice 40 72 ?rec = rev (bl_prevHash block)"
    using ok by (simp_all add: m slice_def)
  have "slice (76 + 32 * i) (76 + 32 * i + 32) ?rec = ids ! i" if "i < length ids" for i
  proof -
    have "slice (76 + 32 * i) (76 + 32 * i + 32) ?rec = slice (32 * i) (32 * i + 32) (concat ids @ rest)"
      using ok by (simp add: m slice_def)
    then show ?thesis using slice_concat_nth [OF ok(8) that] by simp
  qed
  then have ids: "map (\<lambda>i. slice (76 + 32 * i) (76 + 32 * i + 32) ?rec) [0..<length ids] = ids"
    by (intro nth_equalityI) simp_all
  have u: "unbe (be 4 (length ids)) = length ids" "unbe (be 4 (nat h)) = nat h" "unbe (be 4 (nat (bl_timestamp block))) = nat (bl_timestamp block)"
    using ok by (simp_all add: nat_less_iff)
  have "\<not> length (meta_of b) + length rest < 76" "\<not> 76 + 32 * length ids > length (meta_of b) + length rest" using lm by simp_all
  then show "metaNext r = Inr (meta_block_of b, r\<lparr>mr_pos := mr_pos r + length (meta_of b)\<rparr>)"
    unfolding metaNext_def Let_def assms(2) flen f u MIN_RECORD_SIZE_def META_TXID_SIZE_def ids lm
    by (simp add: meta_block_of_def b ids_def)
  show "length (meta_of b) \<ge> 76" using lm by simp
qed

lemma forMeta_run:
  assumes "\<forall>b \<in> set bs. block_ok b" and "drop (mr_pos r) (mr_file r) = concat (map meta_of bs)" and "mr_pos r \<le> length (mr_file r)"
    and "length bs \<le> fuel" and "yielded + length bs = mr_blockCount r" and "\<And>x s. fst (body x s) = Inr ()"
  shows "forMeta fuel yielded body r s = Some (mfor (map meta_block_of bs) body s)"
  using assms(1-5)
proof (induction bs arbitrary: fuel yielded r s)
  case Nil
  then show ?case by (subst forMeta.simps) simp
next
  case (Cons b bs)
  obtain k where k: "fuel = Suc k" using Cons.prems(4) by (cases fuel) simp_all
  have d: "drop (mr_pos r) (mr_file r) = meta_of b @ concat (map meta_of bs)" using Cons.prems(2) by simp
  note nx = metaNext_of [OF _ d]
  let ?r = "r\<lparr>mr_pos := mr_pos r + length (meta_of b)\<rparr>"
  have len: "length (mr_file r) - mr_pos r = length (meta_of b) + length (concat (map meta_of bs))" using arg_cong [OF d, of length] by simp
  have "length (meta_of b) \<ge> 76" using nx(2) Cons.prems(1) by simp
  then have lt: "\<not> mr_pos r \<ge> length (mr_file r)" using len by linarith
  have "drop (mr_pos ?r) (mr_file ?r) = concat (map meta_of bs)" using arg_cong [OF d, of "drop (length (meta_of b))"] by (simp add: add.commute)
  then have ih: "forMeta k (yielded + 1) body ?r s1 = Some (mfor (map meta_block_of bs) body s1)" for s1
    using Cons.prems len k lt by (intro Cons.IH) simp_all
  obtain s1 where s1: "body (meta_block_of b) s = (Inr (), s1)" using assms(6) [of "meta_block_of b" s] by (metis prod.collapse)
  have "forMeta fuel yielded body r s = forMeta k (yielded + 1) body ?r s1"
    using nx(1) Cons.prems(1) lt k s1 by (subst forMeta.simps) simp
  then show ?case using ih s1 by (simp add: mseq_run)
qed

definition lastN :: "nat \<Rightarrow> 'a list \<Rightarrow> 'a list" where
  "lastN n xs = drop (length xs - n) xs"

lemma fold_pushWindow:
  assumes "0 < undo" and "int (length w) \<le> undo"
  shows "fold (pushWindow undo) hs w = lastN (nat undo) (w @ hs)"
  using assms(2)
proof (induction hs arbitrary: w)
  case Nil
  then show ?case by (simp add: lastN_def)
next
  case (Cons h hs)
  have "int (length (pushWindow undo h w)) \<le> undo" using Cons.prems assms(1) by (simp add: pushWindow_def Let_def)
  moreover have "lastN (nat undo) (pushWindow undo h w @ hs) = lastN (nat undo) (w @ h # hs)"
  proof (cases "int (length (w @ [h])) > undo")
    case False
    then show ?thesis by (simp add: pushWindow_def lastN_def)
  next
    case True
    then have "length (w @ [h]) = Suc (nat undo)" using Cons.prems assms(1) by simp
    then obtain a v where w: "w @ [h] = a # v" "length v = nat undo" unfolding length_Suc_conv by blast
    have e: "w @ h # hs = a # v @ hs" using w(1) by (metis append.assoc append_Cons append_Nil)
    have "lastN (nat undo) (a # v @ hs) = lastN (nat undo) (v @ hs)" using w(2) by (simp add: lastN_def Suc_diff_le)
    moreover have "pushWindow undo h w = v" using True w(1) by (simp add: pushWindow_def)
    ultimately show ?thesis by (simp only: e)
  qed
  ultimately show ?case using Cons.IH by simp
qed

definition block_hash :: "chain_block \<Rightarrow> bytes" where
  "block_hash b = fst (snd b)"

lemma bEntry_rec: "block_ok b \<Longrightarrow> blockRecordB (meta_block_of b) = rec_of (bEntry b) \<and> widths 33 40 (bEntry b)"
  by (cases b) (simp add: block_ok_def blockRecordB_def meta_block_of_def rec_of_def bEntry_def bKey_def widths_def)

lemma fold_scanMeta:
  fixes ctx bs s
  defines "s' \<equiv> fold (scanMetaBlock ctx) (map meta_block_of bs) s"
  assumes "sc_t s = None"
  shows "sc_t s' = None \<and> flatClose (sc_b s') = flatClose (sc_b s) @ concat (map (\<lambda>b. blockRecordB (meta_block_of b)) bs)
    \<and> sc_nWindow s' = fold (pushWindow (dc_undoBlocks ctx)) (map block_hash bs) (sc_nWindow s)
    \<and> sc_lastHash s' = (if bs = [] then sc_lastHash s else Some (block_hash (last bs)))
    \<and> sc_lastHeight s' = (if bs = [] then sc_lastHeight s else int (nat (fst (last bs))))"
  using assms(2) unfolding s'_def
proof (induction bs arbitrary: s)
  case (Cons b bs)
  have "mb_blockHash (meta_block_of b) = block_hash b" "mb_height (meta_block_of b) = nat (fst b)"
    by (cases b, simp add: meta_block_of_def block_hash_def)+
  then show ?case using Cons.IH [of "scanMetaBlock ctx (meta_block_of b) s"] Cons.prems by (simp add: scanMetaBlock_def)
qed simp

definition sorted_file :: "(bytes \<times> bytes) list \<Rightarrow> bytes" where
  "sorted_file es = concat (map rec_of (sort_key fst es))"

definition meta_file :: "bytes \<Rightarrow> chain_block list \<Rightarrow> bool" where
  "meta_file mh bs \<longleftrightarrow> length mh = 64 \<and> take 8 mh = MAGIC_META \<and> unle (slice 20 28 mh) = length bs"

lemma deriveBlockKeys_enc:
  assumes "\<forall>b \<in> set bs. block_ok b" and "meta_file mh bs" and "dc_removeSpent ctx \<or> dc_txIndex ctx" and "0 < dc_undoBlocks ctx" and "bs \<noteq> []"
  shows "deriveBlockKeys ctx (mh @ concat (map meta_of bs)) d = Some (Inr
    (putFile (CHR ''N'') (sorted_file (map (\<lambda>b. nEntry (block_hash b)) (lastN (nat (dc_undoBlocks ctx)) bs)))
      (putFile (CHR ''B'') (sorted_file (map bEntry bs)) d), fst (last bs), Some (block_hash (last bs))))"
proof -
  define s0 where "s0 = \<lparr>sc_b = FlatWriter, sc_t = None, sc_nWindow = [], sc_lastHeight = -1, sc_lastHash = None\<rparr>"
  define s1 where "s1 = fold (scanMetaBlock ctx) (map meta_block_of bs) s0"
  let ?file = "mh @ concat (map meta_of bs)" and ?undo = "dc_undoBlocks ctx"
  have mh: "length mh = 64" "take 8 mh = MAGIC_META" "unle (slice 20 28 mh) = length bs" using assms(2) by (simp_all add: meta_file_def)
  obtain r where r: "MetaReader ?file = Inr r" "mr_file r = ?file" "mr_pos r = 64" "mr_blockCount r = length bs"
    using mh by (auto simp: MetaReader_def HEADER_SIZE_def Let_def)
  have "length (meta_of b) \<ge> 1" if "b \<in> set bs" for b
    using assms(1) that metaNext_of(2) [of b "\<lparr>mr_file = meta_of b, mr_pos = 0, mr_chainCode = 0, mr_networkCode = 0, mr_version = 0,
      mr_firstHeight = 0, mr_lastHeight = 0, mr_blockCount = 0\<rparr>" "[]"] by fastforce
  then have "length bs \<le> length (concat (map meta_of bs))" by (induction bs) fastforce+
  then have run: "forMeta (length (mr_file r)) 0 (\<lambda>blk. mmod (scanMetaBlock ctx blk)) r s0 = Some (Inr (), s1)"
    using r mh(1) assms(1) by (subst forMeta_run) (simp_all add: mfor_mmod s1_def)
  have s1: "sc_t s1 = None" "flatClose (sc_b s1) = concat (map rec_of (map bEntry bs))"
    "sc_nWindow s1 = lastN (nat ?undo) (map block_hash bs)" "sc_lastHash s1 = Some (block_hash (last bs))" "sc_lastHeight s1 = fst (last bs)"
    using fold_scanMeta [of s0 ctx bs] fold_pushWindow [OF assms(4), of "[]" "map block_hash bs"] assms(1,4,5) last_in_set [OF assms(5)]
    by (auto simp: s1_def s0_def bEntry_rec block_ok_def comp_def split_beta cong: map_cong)
  have scan: "scanMetaBlocks ctx r = Some (Inr s1)" using run assms(3) by (auto simp: scanMetaBlocks_def s0_def)
  let ?ns = "map (\<lambda>b. nEntry (block_hash b)) (lastN (nat ?undo) bs)"
  have sub: "set (lastN (nat ?undo) bs) \<subseteq> set bs" by (simp add: lastN_def set_drop_subset)
  have hl: "length (block_hash b) = 32" if "b \<in> set bs" for b using assms(1) that by (auto simp: block_ok_def block_hash_def)
  have "concat (map storedBlkRecord (sc_nWindow s1)) = concat (map rec_of ?ns)"
    using sub hl unfolding s1(3) by (simp add: lastN_def drop_map comp_def storedBlkRecord_def rec_of_def nEntry_def nKey_def cong: map_cong) (smt (verit) map_eq_conv subsetD take_all order_refl)
  then have n: "flatClose (fold (\<lambda>h. flatWrite 33 (storedBlkRecord h)) (sc_nWindow s1) FlatWriter) = concat (map rec_of ?ns)" by simp
  have "\<forall>e \<in> set (map bEntry bs). widths 33 40 e" using assms(1) bEntry_rec by simp
  note sb = sortByKey_entries [OF this, of "dc_ramBudgetBytes ctx"]
  have "\<forall>e \<in> set ?ns. widths 33 0 e" using hl sub by (auto simp: widths_def nEntry_def)
  note sn = sortByKey_entries [OF this, of "dc_ramBudgetBytes ctx"]
  show ?thesis
    using r(1) scan sb sn s1 n by (simp add: deriveBlockKeys_def Let_def sorted_file_def)
qed

subsection \<open>The file of created outputs and the script candidates\<close>

definition inWindow :: "int \<Rightarrow> utxo \<Rightarrow> bool" where
  "inWindow wMinHeight u \<longleftrightarrow> \<not> ux_height u mod 4294967296 < wMinHeight"

definition cand :: "nat \<times> utxo \<Rightarrow> bytes" where
  "cand p = candRecord (fst p) (enc_utxo (snd p))"

definition cand_key :: "nat \<times> utxo \<Rightarrow> bytes" where
  "cand_key p = ux_script (snd p) @ be 4 (fst p)"

lemma mfor_writeCandidate:
  assumes "\<forall>u \<in> set us. utxo_ok u" and "cd_rowId s + length us \<le> 4294967296"
  shows "\<exists>s'. mfor (map enc_utxo us) (writeCandidate w) s = (Inr (), s')
    \<and> flatClose (cd_cand s') = flatClose (cd_cand s) @ concat (map cand (enumerate (cd_rowId s) us))
    \<and> flatClose (cd_w s') = flatClose (cd_w s) @ concat (map rec_of (map wEntry (filter (inWindow w) us)))"
  using assms
proof (induction us arbitrary: s)
  case (Cons u us)
  let ?rec = "enc_utxo u"
  let ?s = "s\<lparr>cd_rowId := cd_rowId s + 1, cd_cand := flatWrite CAND_REC_SIZE (candRecord (cd_rowId s) ?rec) (cd_cand s),
    cd_w := (if inWindow w u then flatWrite 101 (wRecord ?rec) (cd_w s) else cd_w s)\<rparr>"
  have "writeCandidate w ?rec s = (Inr (), ?s)"
    using Cons.prems records_of_utxo(8) [of u] by (simp add: writeCandidate_def Let_def inWindow_def)
  moreover obtain s' where "mfor (map enc_utxo us) (writeCandidate w) ?s = (Inr (), s')"
    "flatClose (cd_cand s') = flatClose (cd_cand ?s) @ concat (map cand (enumerate (cd_rowId ?s) us))"
    "flatClose (cd_w s') = flatClose (cd_w ?s) @ concat (map rec_of (map wEntry (filter (inWindow w) us)))"
    using Cons.IH [of ?s] Cons.prems by auto
  moreover have "cand (cd_rowId s, u) = candRecord (cd_rowId s) ?rec" by (simp add: cand_def)
  ultimately show ?case using Cons.prems(1) records_of_utxo(2) [of u] by (auto simp: mseq_run)
qed simp

definition cands :: "utxo list \<Rightarrow> (nat \<times> utxo) list" where
  "cands us = sort_key cand_key (enumerate 0 us)"

lemma cand_parts:
  assumes "utxo_ok (snd p)"
  shows "length (cand p) = 72" and "take 36 (cand p) = cand_key p" and "slice 0 32 (cand p) = ux_script (snd p)"
    and "slice 68 72 (cand p) = ux_height4 (snd p)" and "slice 36 68 (cand p) = ux_block (snd p)"
  using assms records_of_utxo(7) [OF assms, of "fst p"] by (simp_all add: cand_def cand_key_def utxo_ok_def slice_def)

lemma writeScriptCandidates_enc:
  assumes "\<forall>u \<in> set us. utxo_ok u" and "length oh = 64" and "length us \<le> 4294967296" and "dc_outputsRecordSize ctx = OUTPUTS_RECORD_SIZE"
  shows "writeScriptCandidates ctx (oh @ concat (map enc_utxo us)) lastHeight d = Some (Inr (concat (map cand (cands us)),
    putFile (CHR ''W'') (sorted_file (map wEntry (filter (inWindow (max 0 (lastHeight - dc_undoBlocks ctx + 1))) us))) d))"
proof -
  let ?w = "max 0 (lastHeight - dc_undoBlocks ctx + 1)"
  have len: "\<forall>r \<in> set (map enc_utxo us). length r = OUTPUTS_RECORD_SIZE" using assms(1) by (simp add: length_enc_utxo)
  obtain s' where s': "mfor (map enc_utxo us) (writeCandidate ?w) \<lparr>cd_rowId = 0, cd_cand = FlatWriter, cd_w = FlatWriter\<rparr> = (Inr (), s')"
    "flatClose (cd_cand s') = concat (map cand (enumerate 0 us))"
    "flatClose (cd_w s') = concat (map rec_of (map wEntry (filter (inWindow ?w) us)))"
    using mfor_writeCandidate [OF assms(1), of "\<lparr>cd_rowId = 0, cd_cand = FlatWriter, cd_w = FlatWriter\<rparr>" ?w] assms(3) by auto
  have ok: "utxo_ok (snd p)" if "p \<in> set (enumerate 0 us)" for p
    using that assms(1) by (auto simp: in_set_enumerate_eq dest: nth_mem)
  have c: "sortByKey CAND_REC_SIZE CAND_KEY_SIZE (dc_ramBudgetBytes ctx) (concat (map cand (enumerate 0 us))) = Some (Inr (concat (map cand (cands us))))"
  proof (subst sortByKey_concat)
    show "\<forall>r \<in> set (map cand (enumerate 0 us)). length r = CAND_REC_SIZE" using ok cand_parts(1) by (auto simp: CAND_REC_SIZE_def)
    have "sort_key (\<lambda>p. take 36 (cand p)) (enumerate 0 us) = cands us"
      unfolding cands_def using ok cand_parts(2) by (intro sort_key_eq) auto
    then show "Some (Inr (concat (sort_key (take CAND_KEY_SIZE) (map cand (enumerate 0 us))))) = Some (Inr (concat (map cand (cands us))))"
      by (simp add: CAND_KEY_SIZE_def sort_map)
  qed (simp_all add: CAND_KEY_SIZE_def CAND_REC_SIZE_def)
  have "\<forall>e \<in> set (map wEntry (filter (inWindow ?w) us)). widths 69 32 e" using assms(1) entry_widths by auto
  note sw = sortByKey_entries [OF this, of "dc_ramBudgetBytes ctx"]
  have "scanned (readRecords HEADER_SIZE OUTPUTS_RECORD_SIZE (writeCandidate ?w) (oh @ concat (map enc_utxo us))
      \<lparr>cd_rowId = 0, cd_cand = FlatWriter, cd_w = FlatWriter\<rparr>) = Some (Inr s')"
    using scan_file [OF _ _ len, of oh HEADER_SIZE "writeCandidate ?w"] assms(2) s'(1) by (simp add: HEADER_SIZE_def OUTPUTS_RECORD_SIZE_def)
  then show ?thesis
    using s' c sw unfolding writeScriptCandidates_def Let_def assms(4) by (simp add: sorted_file_def)
qed

subsection \<open>First sightings of scripts\<close>

lemma fold_writeFirstSeen:
  assumes "\<forall>p \<in> set ps. utxo_ok (snd p)"
  shows "flushed (fs_s (fold (writeFirstSeen w) (map cand ps) s))
      = flushed (fs_s s) @ concat (map (\<lambda>p. rec_of (sEntry (snd p))) (run_heads (\<lambda>p. ux_script (snd p)) (fs_lastScript s) ps))
    \<and> flatClose (fs_z (fold (writeFirstSeen w) (map cand ps) s))
      = flatClose (fs_z s) @ concat (map (\<lambda>p. rec_of (zEntry (snd p))) (filter (\<lambda>p. inWindow w (snd p)) (run_heads (\<lambda>p. ux_script (snd p)) (fs_lastScript s) ps)))"
  using assms
proof (induction ps arbitrary: s)
  case (Cons p ps)
  have ok: "utxo_ok (snd p)" using Cons.prems by simp
  note c = cand_parts [OF ok]
  have h: "int (unbe (ux_height4 (snd p))) = ux_height (snd p) mod 4294967296"
    by (simp add: ux_height4_def nat_less_iff)
  have "sRecord (cand p) = rec_of (sEntry (snd p))" "zRecord (cand p) = rec_of (zEntry (snd p))"
    by (simp_all add: sRecord_def zRecord_def c rec_of_def sEntry_def zEntry_def sKey_def zKey_def)
  then show ?case
    using Cons.IH [of "writeFirstSeen w (cand p) s"] Cons.prems
    by (cases "fs_lastScript s = Some (ux_script (snd p))") (auto simp: writeFirstSeen_def Let_def c h inWindow_def)
qed simp

text \<open>The rows of a script stand together after the sort, its first row in front.\<close>

lemma be_less: "i < j \<Longrightarrow> j < 256 ^ n \<Longrightarrow> be n i < be n j"
proof (induction n arbitrary: i j)
  case (Suc n)
  show ?case
  proof (cases "i div 256 = j div 256")
    case True
    then have "i mod 256 < j mod 256" using Suc.prems(1) by (metis div_mult_mod_eq nat_add_left_cancel_less)
    then have "(of_nat i :: byte) < of_nat j" by (simp add: word_less_nat_alt)
    then show ?thesis using True by simp
  next
    case False
    then have "be n (i div 256) < be n (j div 256)" using Suc.prems
      by (intro Suc.IH) (auto simp: less_mult_imp_div_less mult.commute intro: le_neq_implies_less div_le_mono)
    moreover have "length (be n (i div 256)) = length (be n (j div 256))" by simp
    ultimately show ?thesis by (auto simp: list_less_def lexord_append_leftI lexord_append_rightI intro: lexord_sufI)
  qed
qed simp

lemma map_of_keyed_hd: "map_of (keyed f xs) k = (case filter (\<lambda>x. f x = k) xs of [] \<Rightarrow> None | x # _ \<Rightarrow> Some x)"
  by (induction xs) auto

lemma append_le_front: "length a = length b \<Longrightarrow> a @ x \<le> b @ y \<Longrightarrow> a \<le> b"
  for a b :: "bytes"
proof (induction a b rule: list_induct2)
  case (Cons c cs d ds)
  then show ?case by (auto simp: Cons_le_Cons_iff)
qed simp

lemma sort_key_sorted: "sorted (map f xs) \<Longrightarrow> sort_key f xs = xs"
proof (induction xs)
  case (Cons x xs)
  then show ?case by (cases xs) (simp_all add: insort_is_Cons)
qed simp

lemma sorted_enumerate_be: "n + length us \<le> 256 ^ 4 \<Longrightarrow> sorted_wrt (<) (map (\<lambda>p. be 4 (fst p)) (enumerate n us))"
proof (induction us arbitrary: n)
  case (Cons u us)
  have "be 4 n < be 4 (fst p)" if "p \<in> set (enumerate (Suc n) us)" for p
  proof (rule be_less)
    show "n < fst p" "fst p < 256 ^ 4" using that Cons.prems by (auto simp: in_set_enumerate_eq)
  qed
  then show ?case using Cons by simp
qed simp

abbreviation cand_script :: "nat \<times> utxo \<Rightarrow> bytes" where
  "cand_script p \<equiv> ux_script (snd p)"

definition firsts :: "utxo list \<Rightarrow> utxo list" where
  "firsts us = map snd (run_heads cand_script None (cands us))"

lemma map_of_cands:
  assumes "length us \<le> 4294967296"
  shows "map_of (keyed cand_script (cands us)) = map_of (keyed cand_script (enumerate 0 us))"
proof
  fix k
  let ?E = "filter (\<lambda>p. cand_script p = k) (enumerate 0 us)"
  have "sorted (map cand_key ?E)"
  proof -
    have "sorted (map (\<lambda>p. be 4 (fst p)) (enumerate 0 us))"
      using sorted_enumerate_be [of 0 us] assms by (intro strict_sorted_imp_sorted) simp
    then have "sorted (map (\<lambda>p. be 4 (fst p)) ?E)" by (rule sorted_filter)
    moreover have "map cand_key ?E = map (\<lambda>p. k @ be 4 (fst p)) ?E" by (rule map_cong) (simp_all add: cand_key_def)
    moreover have "sorted (map (\<lambda>p. k @ be 4 (fst p)) ps)" if "sorted (map (\<lambda>p. be 4 (fst p)) ps)" for ps :: "(nat \<times> utxo) list"
      using that unfolding sorted_map append_le_cancel .
    ultimately show ?thesis by (simp only:)
  qed
  then have "filter (\<lambda>p. cand_script p = k) (cands us) = ?E"
    by (simp add: cands_def filter_sort sort_key_sorted)
  then show "map_of (keyed cand_script (cands us)) k = map_of (keyed cand_script (enumerate 0 us)) k"
    by (simp add: map_of_keyed_hd)
qed

lemma map_of_keyed_snd: "map_of (keyed f (map snd ps)) k = map_option snd (map_of (keyed (\<lambda>p. f (snd p)) ps) k)"
  by (induction ps) auto

lemma firsts_spec:
  assumes "\<forall>u \<in> set us. utxo_ok u" and "length us \<le> 4294967296"
  shows "mset (firsts us) = mset (first_by ux_script us)"
proof -
  have ok: "utxo_ok (snd p)" if "p \<in> set (cands us)" for p
    using that assms(1) by (auto simp: cands_def in_set_enumerate_eq dest: nth_mem)
  have "sorted (map cand_key (cands us))" by (simp add: cands_def)
  then have "sorted (map cand_script (cands us))"
    unfolding sorted_map
    by (rule sorted_wrt_mono_rel [rotated]) (use ok in \<open>auto simp: cand_key_def utxo_ok_def elim: append_le_front [rotated]\<close>)
  then have "sorted_wrt (<) (map cand_script (run_heads cand_script None (cands us)))" using run_heads_sorted by fastforce
  then have d: "distinct (map ux_script (firsts us))" by (simp add: firsts_def comp_def strict_sorted_iff)
  have "map_of (keyed ux_script (firsts us)) k = map_of (keyed ux_script (first_by ux_script us)) k" for k
  proof -
    have "map_of (keyed ux_script (firsts us)) k = map_option snd (map_of (keyed cand_script (enumerate 0 us)) k)"
      by (simp add: firsts_def map_of_keyed_snd map_of_run_heads map_of_cands [OF assms(2)])
    also have "\<dots> = map_of (keyed ux_script (map snd (enumerate 0 us))) k" by (simp only: map_of_keyed_snd)
    finally show ?thesis by (simp add: map_of_first_by)
  qed
  then have "set (firsts us) = set (first_by ux_script us)"
    using d distinct_first_by by (intro keyed_set_eq [of ux_script]) auto
  moreover have "distinct (firsts us)" "distinct (first_by ux_script us)"
    using d distinct_first_by [of ux_script us] by (simp_all add: distinct_map)
  ultimately show ?thesis by (simp add: set_eq_iff_mset_eq_distinct)
qed

lemma deriveScriptKeys_enc:
  assumes "\<forall>u \<in> set us. utxo_ok u"
  shows "deriveScriptKeys ctx (concat (map cand (cands us))) w d = Some (Inr
    (putFile (CHR ''Z'') (sorted_file (map zEntry (filter (inWindow w) (firsts us))))
      (putFile (CHR ''S'') (concat (map rec_of (map sEntry (firsts us)))) d)))"
proof -
  have ok: "\<forall>p \<in> set (cands us). utxo_ok (snd p)"
    using assms by (auto simp: cands_def in_set_enumerate_eq dest: nth_mem)
  have len: "\<forall>r \<in> set (map cand (cands us)). length r = CAND_REC_SIZE" using ok cand_parts(1) by (auto simp: CAND_REC_SIZE_def)
  define s0 where "s0 = \<lparr>fs_lastScript = None, fs_s = RecordWriter, fs_z = FlatWriter\<rparr>"
  define s1 where "s1 = fold (writeFirstSeen w) (map cand (cands us)) s0"
  have scan: "scanned (readRecords 0 CAND_REC_SIZE (\<lambda>rec. mmod (writeFirstSeen w rec)) (concat (map cand (cands us))) s0) = Some (Inr s1)"
    using scan_mmod [OF _ refl len, of "[]" "writeFirstSeen w" s0] by (simp add: s1_def CAND_REC_SIZE_def)
  have f: "flushed (fs_s s1) = concat (map rec_of (map sEntry (firsts us)))"
    "flatClose (fs_z s1) = concat (map rec_of (map zEntry (filter (inWindow w) (firsts us))))"
    using fold_writeFirstSeen [OF ok, of w s0] by (simp_all add: s1_def s0_def firsts_def comp_def filter_map)
  have "set (firsts us) \<subseteq> set us"
    using set_run_heads [of cand_script None "cands us"] by (auto simp: firsts_def cands_def in_set_enumerate_eq)
  then have "\<forall>e \<in> set (map zEntry (filter (inWindow w) (firsts us))). widths 65 0 e" using assms entry_widths(6) by auto
  note sz = sortByKey_entries [OF this, of "dc_ramBudgetBytes ctx"]
  show ?thesis
    using scan f sz by (simp add: deriveScriptKeys_def s0_def [symmetric] sorted_file_def)
qed

subsection \<open>The transaction index\<close>

definition tx_heads :: "utxo list \<Rightarrow> utxo list" where
  "tx_heads us = run_heads ux_txid None us"

definition tFile :: "utxo list \<Rightarrow> bytes" where
  "tFile txs = concat (map (\<lambda>u. txRecordT (enc_utxo u)) (sort_key (\<lambda>u. take 37 (txRecordT (enc_utxo u))) txs))"

lemma fold_writeTx:
  assumes "\<forall>u \<in> set us. utxo_ok u"
  shows "flatClose (ts_t (fold (writeTxRecord w) (map enc_utxo us) s))
      = flatClose (ts_t s) @ concat (map (\<lambda>u. txRecordT (enc_utxo u)) (run_heads ux_txid (ts_prev s) us))
    \<and> flatClose (ts_x (fold (writeTxRecord w) (map enc_utxo us) s))
      = flatClose (ts_x s) @ concat (map (\<lambda>u. rec_of (xEntry u)) (run_heads ux_txid (ts_prev s) us))
    \<and> flatClose (ts_y (fold (writeTxRecord w) (map enc_utxo us) s))
      = flatClose (ts_y s) @ concat (map (\<lambda>u. rec_of (yEntry u)) (filter (inWindow w) (run_heads ux_txid (ts_prev s) us)))"
  using assms
proof (induction us arbitrary: s)
  case (Cons u us)
  have ok: "utxo_ok u" using Cons.prems by simp
  show ?case
    using Cons.IH [of "writeTxRecord w (enc_utxo u) s"] Cons.prems enc_utxo_fields(1) [OF ok] records_of_utxo(3,4,8) [OF ok]
    by (cases "ts_prev s = Some (ux_txid u)") (auto simp: writeTxRecord_def Let_def inWindow_def)
qed simp

lemma length_txRecordT: "utxo_ok u \<Longrightarrow> length (txRecordT (enc_utxo u)) = 101"
  by (simp add: records_of_utxo) (simp add: utxo_ok_def)

lemma deriveTxIndexKeys_enc:
  assumes "\<forall>u \<in> set us. utxo_ok u" and "length oh = 64" and "dc_outputsRecordSize ctx = OUTPUTS_RECORD_SIZE"
  shows "deriveTxIndexKeys ctx (oh @ concat (map enc_utxo us)) w d = Some (Inr
    (putFile (CHR ''Y'') (sorted_file (map yEntry (filter (inWindow w) (tx_heads us))))
      (putFile (CHR ''X'') (sorted_file (map xEntry (tx_heads us))) (putFile (CHR ''T'') (tFile (tx_heads us)) d))))"
proof -
  have len: "\<forall>r \<in> set (map enc_utxo us). length r = OUTPUTS_RECORD_SIZE" using assms(1) by (simp add: length_enc_utxo)
  define s0 where "s0 = \<lparr>ts_prev = None, ts_t = FlatWriter, ts_x = FlatWriter, ts_y = FlatWriter\<rparr>"
  define s1 where "s1 = fold (writeTxRecord w) (map enc_utxo us) s0"
  have scan: "scanned (readRecords HEADER_SIZE OUTPUTS_RECORD_SIZE (\<lambda>rec. mmod (writeTxRecord w rec)) (oh @ concat (map enc_utxo us)) s0) = Some (Inr s1)"
    using scan_mmod [OF _ _ len, of oh HEADER_SIZE "writeTxRecord w" s0] assms(2) by (simp add: s1_def HEADER_SIZE_def OUTPUTS_RECORD_SIZE_def)
  have f: "flatClose (ts_t s1) = concat (map (\<lambda>u. txRecordT (enc_utxo u)) (tx_heads us))"
    "flatClose (ts_x s1) = concat (map rec_of (map xEntry (tx_heads us)))"
    "flatClose (ts_y s1) = concat (map rec_of (map yEntry (filter (inWindow w) (tx_heads us))))"
    using fold_writeTx [OF assms(1), of w s0] by (simp_all add: s1_def s0_def tx_heads_def comp_def)
  have ok: "\<forall>u \<in> set (tx_heads us). utxo_ok u" using set_run_heads [of ux_txid None us] assms(1) by (auto simp: tx_heads_def)
  have st: "sortByKey 101 37 (dc_ramBudgetBytes ctx) (concat (map (\<lambda>u. txRecordT (enc_utxo u)) (tx_heads us))) = Some (Inr (tFile (tx_heads us)))"
    using ok by (subst sortByKey_concat) (auto simp: length_txRecordT tFile_def sort_map)
  have "\<forall>e \<in> set (map xEntry (tx_heads us)). widths 33 32 e" using ok entry_widths(3) by simp
  note sx = sortByKey_entries [OF this, of "dc_ramBudgetBytes ctx"]
  have "\<forall>e \<in> set (map yEntry (filter (inWindow w) (tx_heads us))). widths 65 32 e" using ok entry_widths(4) by auto
  note sy = sortByKey_entries [OF this, of "dc_ramBudgetBytes ctx"]
  show ?thesis
    using scan f st sx sy by (simp add: deriveTxIndexKeys_def s0_def [symmetric] assms(3) sorted_file_def)
qed

subsection \<open>The directory of key files\<close>

lemma putFile_sel [simp]: "kd_files (putFile c f d) = (kd_files d)(c \<mapsto> f)" "kd_last (putFile c f d) = kd_last d"
  by (simp_all add: putFile_def)

lemma resolveUndoBlocks_pos: "resolveUndoBlocks env network opts = Inr (n, big) \<Longrightarrow> 1 \<le> n"
  by (auto simp: resolveUndoBlocks_def Let_def dest!: DEFAULT_UNDO_BLOCKS_pos split: option.splits if_splits)

lemma resolveDeriveOptions_ctx:
  assumes "resolveDeriveOptions env opts = Inr ctx"
  shows "0 < dc_undoBlocks ctx" and "dc_outputsRecordSize ctx = OUTPUTS_RECORD_SIZE" and "dc_removeSpent ctx = (do_removeSpent opts \<noteq> Some False)"
    and "dc_txIndex ctx = (case do_txIndex opts of None \<Rightarrow> \<not> isBitcoin (do_network opts) | Some b \<Rightarrow> b)"
  using assms
  by (auto simp: resolveDeriveOptions_def Let_def rbind_Inr_iff dest!: resolveUndoBlocks_pos split: if_splits)

definition window_start :: "derive_ctx \<Rightarrow> chain_block list \<Rightarrow> int" where
  "window_start ctx bs = max 0 (fst (last bs) - dc_undoBlocks ctx + 1)"

lemma deriveKeys_enc:
  assumes "resolveDeriveOptions env opts = Inr ctx" and "dc_removeSpent ctx" and "bs \<noteq> []" and "\<forall>b \<in> set bs. block_ok b"
    and "meta_file mh bs" and "length oh = 64" and "\<forall>u \<in> set us. utxo_ok u" and "length us \<le> 4294967296" and "\<forall>u \<in> set lv. utxo_ok u"
  obtains dir where "deriveKeys env opts \<lparr>di_meta = mh @ concat (map meta_of bs), di_outputs = oh @ concat (map enc_utxo us),
      di_liveUtxos = concat (map enc_utxo lv), di_spendsByPrev = sp\<rparr> d0 = Some (Inr dir)"
    and "kd_last dir = Some \<lparr>lm_height = Some (hexint (fst (last bs))), lm_hash = Some (b2h (block_hash (last bs))), lm_txIndex = Some (dc_txIndex ctx)\<rparr>"
    and "kd_files dir (CHR ''B'') = Some (sorted_file (map bEntry bs))"
    and "kd_files dir (CHR ''H'') = Some (concat (map rec_of (map hEntry lv)))"
    and "kd_files dir (CHR ''N'') = Some (sorted_file (map (\<lambda>b. nEntry (block_hash b)) (lastN (nat (dc_undoBlocks ctx)) bs)))"
    and "kd_files dir (CHR ''O'') = Some (oFile lv)"
    and "kd_files dir (CHR ''S'') = Some (concat (map rec_of (map sEntry (firsts us))))"
    and "kd_files dir (CHR ''W'') = Some (sorted_file (map wEntry (filter (inWindow (window_start ctx bs)) us)))"
    and "kd_files dir (CHR ''Z'') = Some (sorted_file (map zEntry (filter (inWindow (window_start ctx bs)) (firsts us))))"
    and "dc_txIndex ctx \<Longrightarrow> kd_files dir (CHR ''T'') = Some (tFile (tx_heads us))
      \<and> kd_files dir (CHR ''X'') = Some (sorted_file (map xEntry (tx_heads us)))
      \<and> kd_files dir (CHR ''Y'') = Some (sorted_file (map yEntry (filter (inWindow (window_start ctx bs)) (tx_heads us))))"
proof -
  note ctx = resolveDeriveOptions_ctx [OF assms(1)]
  note run = deriveBlockKeys_enc [OF assms(4,5) disjI1 [OF assms(2)] ctx(1) assms(3)] deriveOutputKeys_enc [OF assms(9) ctx(2)]
    deriveTxIndexKeys_enc [OF assms(7,6) ctx(2)] writeScriptCandidates_enc [OF assms(7,6,8) ctx(2)] deriveScriptKeys_enc [OF assms(7)]
  show ?thesis
    by (cases "dc_txIndex ctx"; rule that,
        (simp add: deriveKeys_def Let_def assms(1) run deriveSpendKeys_def assms(2) writeLastBlockMarkers_def; fail))
      (simp_all add: window_start_def)
qed

subsection \<open>The loader reads the entries back\<close>

text \<open>The records of a prefix file in the order of the file; \<open>w\<close> is where the window starts.\<close>

definition seed_file :: "nat \<Rightarrow> int \<Rightarrow> chain_block list \<Rightarrow> utxo list \<Rightarrow> utxo list \<Rightarrow> char \<Rightarrow> (bytes \<times> bytes) list" where
  "seed_file undo w bs us lv c =
     (if c = CHR ''B'' then sort_key fst (map bEntry bs)
      else if c = CHR ''H'' then map hEntry lv
      else if c = CHR ''N'' then sort_key fst (map (\<lambda>b. nEntry (block_hash b)) (lastN undo bs))
      else if c = CHR ''O'' then map oEntry (sort_key (\<lambda>u. fst (oEntry u)) lv)
      else if c = CHR ''S'' then map sEntry (firsts us)
      else if c = CHR ''T'' then map tEntry (sort_key (\<lambda>u. take 37 (txRecordT (enc_utxo u))) (tx_heads us))
      else if c = CHR ''W'' then sort_key fst (map wEntry (filter (inWindow w) us))
      else if c = CHR ''X'' then sort_key fst (map xEntry (tx_heads us))
      else if c = CHR ''Y'' then sort_key fst (map yEntry (filter (inWindow w) (tx_heads us)))
      else if c = CHR ''Z'' then sort_key fst (map zEntry (filter (inWindow w) (firsts us)))
      else [])"

lemma entry_ok_plain:
  assumes "widths (pl_keySize p) v e" and "pl_recordSize p = pl_keySize p + v" and "pl_recordValidator p (fst e) (snd e) = Inr ()"
    and "pl_valueTransform p = Inr"
  shows "entry_ok p (rec_of e) e"
  using assms by (simp add: entry_ok_def widths_def rec_of_def slice_def)

lemma holds_fileI:
  assumes "preparePrefixLoad dir c tx = Inr (p, concat (map g xs))" and "0 < pl_recordSize p"
    and "\<And>x. x \<in> set xs \<Longrightarrow> length (g x) = pl_recordSize p \<and> entry_ok p (g x) (e x)"
  shows "holds_file dir tx c (map e xs)"
proof -
  have "\<forall>r \<in> set (map g xs). length r = pl_recordSize p" using assms(3) by simp
  moreover have "list_all2 (entry_ok p) (map g xs) (map e xs)" using assms(3) by (simp add: list_all2_map1 list_all2_map2 list_all2_same)
  ultimately show ?thesis unfolding holds_file_def using assms(1,2) by blast
qed

lemma holds_plain:
  assumes "preparePrefixLoad dir c tx = Inr (p, concat (map rec_of es))" and "\<forall>e \<in> set es. widths (pl_keySize p) v e"
    and "pl_recordSize p = pl_keySize p + v" and "0 < pl_keySize p"
    and "\<forall>e \<in> set es. pl_recordValidator p (fst e) (snd e) = Inr ()" and "pl_valueTransform p = Inr"
  shows "holds_file dir tx c es"
proof -
  have "holds_file dir tx c (map (\<lambda>e. e) es)"
    by (rule holds_fileI [OF assms(1)]) (use assms(2-6) entry_ok_plain [of p v] in \<open>auto simp: length_rec_of\<close>)
  then show ?thesis by simp
qed

lemma validateW: "utxo_ok u \<Longrightarrow> validateWRecord (fst (wEntry u)) (snd (wEntry u)) = Inr ()"
  by (simp add: validateWRecord_def wEntry_def utxo_ok_def wKey_def slice_def kOutBlk_def assertTxid_def)

lemma transformO:
  assumes "utxo_ok u"
  shows "transformOValue (be 8 (nat (ux_value u)) @ ux_height4 u @ ux_txid u @ [if ux_coinbase u then 1 else 0]) = Inr (snd (oEntry u))"
proof -
  have v: "0 \<le> ux_value u" "ux_value u \<le> 18446744073709551615" and h: "- 2147483648 \<le> ux_height u" "ux_height u \<le> 2147483647"
    and t: "length (ux_txid u) = 32" using assms by (simp_all add: utxo_ok_def)
  let ?v = "be 8 (nat (ux_value u)) @ ux_height4 u @ ux_txid u @ [if ux_coinbase u then 1 else (0 :: byte)]"
  have s: "slice 0 8 ?v = be 8 (nat (ux_value u))" "slice 8 12 ?v = ux_height4 u" "slice 12 44 ?v = ux_txid u" "length ?v = 45"
    "?v ! 44 = (if ux_coinbase u then 1 else 0)" using t by (simp_all add: slice_def nth_append)
  have m: "ux_height u mod 4294967296 = (if ux_height u < 0 then ux_height u + 4294967296 else ux_height u)"
    using h by (simp add: mod_pos_pos_trivial) (smt (verit) mod_add_self2 mod_pos_pos_trivial)
  have u: "int (unbe (be 8 (nat (ux_value u)))) = ux_value u" "int (unbe (ux_height4 u)) = ux_height u mod 4294967296"
    using v by (simp_all add: ux_height4_def nat_less_iff)
  have "readBigUInt64BE 0 ?v = Inr (ux_value u)" "readInt32BE 8 ?v = Inr (ux_height u)"
    using s u m h by (simp_all add: readBigUInt64BE_def readInt32BE_def)
  then show ?thesis
    unfolding transformOValue_def s(3) s(4) s(5) using t v h
    by (cases "ux_txid u") (simp_all add: encodeOutput_def writeBigUInt64BE_def writeInt32BE_def oEntry_def ux_height4_def)
qed

lemma holds_O:
  assumes "kd_files dir (CHR ''O'') = Some (oFile lv)" and "\<forall>u \<in> set lv. utxo_ok u"
  shows "holds_file dir tx (CHR ''O'') (map oEntry (sort_key (\<lambda>u. fst (oEntry u)) lv))"
proof -
  define p where "p = \<lparr>pl_keySize = 69, pl_recordSize = 114, pl_valueTransform = transformOValue, pl_recordValidator = (\<lambda>_ _. Inr ())\<rparr>"
  have p: "preparePrefixLoad dir (CHR ''O'') tx = Inr (p, concat (map (\<lambda>u. oRecord (enc_utxo u)) (sort_key (\<lambda>u. fst (oEntry u)) lv)))"
    using assms(1) by (simp add: preparePrefixLoad_def LAYOUT_def TX_INDEX_LAYOUT_def p_def oFile_def)
  have "entry_ok p (oRecord (enc_utxo u)) (oEntry u)" if "utxo_ok u" for u
  proof -
    have "length (fst (oEntry u)) = 69" using that by (simp add: oEntry_def utxo_ok_def)
    moreover have "oRecord (enc_utxo u) = fst (oEntry u) @ be 8 (nat (ux_value u)) @ ux_height4 u @ ux_txid u @ [if ux_coinbase u then 1 else 0]"
      using records_of_utxo(5) [OF that] by (simp add: oEntry_def)
    ultimately show ?thesis using transformO [OF that] that by (simp add: entry_ok_def p_def slice_def utxo_ok_def)
  qed
  then show ?thesis
    using assms(2) length_oRecord by (intro holds_fileI [OF p]) (simp_all add: p_def)
qed

lemma holds_T:
  assumes "kd_files dir (CHR ''T'') = Some (tFile txs)" and "\<forall>u \<in> set txs. utxo_ok u"
  shows "holds_file dir True (CHR ''T'') (map tEntry (sort_key (\<lambda>u. take 37 (txRecordT (enc_utxo u))) txs))"
proof -
  define p where "p = \<lparr>pl_keySize = 33, pl_recordSize = 101, pl_valueTransform = (\<lambda>v. Inr (dropTHeight v)), pl_recordValidator = (\<lambda>_ _. Inr ())\<rparr>"
  have p: "preparePrefixLoad dir (CHR ''T'') True
      = Inr (p, concat (map (\<lambda>u. txRecordT (enc_utxo u)) (sort_key (\<lambda>u. take 37 (txRecordT (enc_utxo u))) txs)))"
    using assms(1) by (simp add: preparePrefixLoad_def TX_INDEX_LAYOUT_def p_def tFile_def)
  have "entry_ok p (txRecordT (enc_utxo u)) (tEntry u)" if "utxo_ok u" for u
    using records_of_utxo(6) [OF that] that by (simp add: entry_ok_def p_def slice_def tEntry_def utxo_ok_def dropTHeight_def)
  then show ?thesis
    using assms(2) length_txRecordT by (intro holds_fileI [OF p]) (simp_all add: p_def)
qed

lemma selectPrefixes_seed: "selectPrefixes True False = ''BHNOSWZ''" "selectPrefixes True True = ''BHNOSTWXYZ''"
  by (simp_all add: selectPrefixes_def PREFIX_FILES_def TX_INDEX_FILES_def)

lemma preparePlain:
  assumes "kd_files dir c = Some file" and "LAYOUT c = Some (lay k v (k + v))" and "TX_INDEX_LAYOUT c = None" and "c \<noteq> CHR ''O''"
  shows "preparePrefixLoad dir c tx = Inr (\<lparr>pl_keySize = k, pl_recordSize = k + v, pl_valueTransform = Inr,
    pl_recordValidator = (if c = CHR ''W'' then validateWRecord else (\<lambda>_ _. Inr ()))\<rparr>, file)"
  using assms by (auto simp: preparePrefixLoad_def TX_INDEX_LAYOUT_def)

lemma holds_prefix:
  assumes "kd_files dir c = Some (concat (map rec_of es))" and "LAYOUT c = Some (lay k v (k + v))" and "TX_INDEX_LAYOUT c = None"
    and "c \<noteq> CHR ''O''" and "0 < k" and "\<forall>e \<in> set es. widths k v e" and "c = CHR ''W'' \<Longrightarrow> \<forall>e \<in> set es. validateWRecord (fst e) (snd e) = Inr ()"
  shows "holds_file dir tx c es"
  by (rule holds_plain [OF preparePlain [OF assms(1-4)]]) (use assms(5-7) in simp_all)

lemma holds_txprefix:
  assumes "kd_files dir c = Some (concat (map rec_of es))" and "TX_INDEX_LAYOUT c = Some (lay k v (k + v))" and "c = CHR ''X'' \<or> c = CHR ''Y''"
    and "0 < k" and "\<forall>e \<in> set es. widths k v e"
  shows "holds_file dir True c es"
proof -
  have "preparePrefixLoad dir c True = Inr (\<lparr>pl_keySize = k, pl_recordSize = k + v, pl_valueTransform = Inr, pl_recordValidator = (\<lambda>_ _. Inr ())\<rparr>,
      concat (map rec_of es))"
    using assms(1-3) by (auto simp: preparePrefixLoad_def)
  then show ?thesis by (rule holds_plain) (use assms(4,5) in simp_all)
qed

lemma firsts_ok: "\<forall>u \<in> set us. utxo_ok u \<Longrightarrow> \<forall>u \<in> set (firsts us). utxo_ok u"
  using set_run_heads [of cand_script None "cands us"] by (auto simp: firsts_def cands_def in_set_enumerate_eq dest!: subsetD)

lemma tx_heads_ok: "\<forall>u \<in> set us. utxo_ok u \<Longrightarrow> \<forall>u \<in> set (tx_heads us). utxo_ok u"
  using set_run_heads [of ux_txid None us] by (auto simp: tx_heads_def)

lemma seed_files_hold:
  assumes "\<forall>u \<in> set us. utxo_ok u" and "\<forall>u \<in> set lv. utxo_ok u" and "\<forall>b \<in> set bs. block_ok b"
    and "kd_files dir (CHR ''B'') = Some (sorted_file (map bEntry bs))"
    and "kd_files dir (CHR ''H'') = Some (concat (map rec_of (map hEntry lv)))"
    and "kd_files dir (CHR ''N'') = Some (sorted_file (map (\<lambda>b. nEntry (block_hash b)) (lastN undo bs)))"
    and "kd_files dir (CHR ''O'') = Some (oFile lv)"
    and "kd_files dir (CHR ''S'') = Some (concat (map rec_of (map sEntry (firsts us))))"
    and "kd_files dir (CHR ''W'') = Some (sorted_file (map wEntry (filter (inWindow w) us)))"
    and "kd_files dir (CHR ''Z'') = Some (sorted_file (map zEntry (filter (inWindow w) (firsts us))))"
    and "tx \<Longrightarrow> kd_files dir (CHR ''T'') = Some (tFile (tx_heads us))
      \<and> kd_files dir (CHR ''X'') = Some (sorted_file (map xEntry (tx_heads us)))
      \<and> kd_files dir (CHR ''Y'') = Some (sorted_file (map yEntry (filter (inWindow w) (tx_heads us))))"
  shows "\<forall>c \<in> set (selectPrefixes True tx). holds_file dir tx c (seed_file undo w bs us lv c)"
proof -
  note e = entry_widths firsts_ok [OF assms(1)] tx_heads_ok [OF assms(1)]
  have n: "widths 33 0 (nEntry (block_hash b))" if "b \<in> set (lastN undo bs)" for b
    using assms(3) that set_drop_subset [of "length bs - undo" bs] by (fastforce simp: lastN_def widths_def nEntry_def block_ok_def block_hash_def)
  have b: "holds_file dir tx (CHR ''B'') (seed_file undo w bs us lv (CHR ''B''))"
    by (rule holds_prefix [where k = 33 and v = 40])
      (use assms(3,4) bEntry_rec in \<open>simp_all add: seed_file_def sorted_file_def LAYOUT_def TX_INDEX_LAYOUT_def\<close>)
  have h: "holds_file dir tx (CHR ''H'') (seed_file undo w bs us lv (CHR ''H''))"
    by (rule holds_prefix [where k = 37 and v = 32])
      (use assms(2,5) e(1) in \<open>simp_all add: seed_file_def LAYOUT_def TX_INDEX_LAYOUT_def\<close>)
  have nn: "holds_file dir tx (CHR ''N'') (seed_file undo w bs us lv (CHR ''N''))"
    by (rule holds_prefix [where k = 33 and v = 0])
      (use n assms(6) in \<open>simp_all add: seed_file_def sorted_file_def LAYOUT_def TX_INDEX_LAYOUT_def\<close>)
  have o: "holds_file dir tx (CHR ''O'') (seed_file undo w bs us lv (CHR ''O''))"
    using holds_O [OF assms(7,2)] by (simp add: seed_file_def)
  have s: "holds_file dir tx (CHR ''S'') (seed_file undo w bs us lv (CHR ''S''))"
    by (rule holds_prefix [where k = 33 and v = 4])
      (use assms(8) e in \<open>simp_all add: seed_file_def LAYOUT_def TX_INDEX_LAYOUT_def\<close>)
  have ww: "holds_file dir tx (CHR ''W'') (seed_file undo w bs us lv (CHR ''W''))"
    by (rule holds_prefix [where k = 69 and v = 32])
      (use assms(1,9) e(2) validateW in \<open>auto simp: seed_file_def sorted_file_def LAYOUT_def TX_INDEX_LAYOUT_def\<close>)
  have z: "holds_file dir tx (CHR ''Z'') (seed_file undo w bs us lv (CHR ''Z''))"
    by (rule holds_prefix [where k = 65 and v = 0])
      (use assms(10) e in \<open>auto simp: seed_file_def sorted_file_def LAYOUT_def TX_INDEX_LAYOUT_def\<close>)
  show ?thesis
  proof (cases tx)
    case False
    then show ?thesis using b h nn o s ww z by (simp add: selectPrefixes_seed)
  next
    case True
    note f = assms(11) [OF True]
    have "holds_file dir True (CHR ''T'') (seed_file undo w bs us lv (CHR ''T''))"
      using holds_T [OF f [THEN conjunct1] e(8)] by (simp add: seed_file_def)
    moreover have "holds_file dir True (CHR ''X'') (seed_file undo w bs us lv (CHR ''X''))"
      by (rule holds_txprefix [where k = 33 and v = 32])
        (use f e in \<open>auto simp: seed_file_def sorted_file_def TX_INDEX_LAYOUT_def\<close>)
    moreover have "holds_file dir True (CHR ''Y'') (seed_file undo w bs us lv (CHR ''Y''))"
      by (rule holds_txprefix [where k = 65 and v = 32])
        (use f e in \<open>auto simp: seed_file_def sorted_file_def TX_INDEX_LAYOUT_def\<close>)
    ultimately show ?thesis using b h nn o s ww z True by (simp add: selectPrefixes_seed)
  qed
qed

subsection \<open>The content of a seeded store\<close>

definition seed_entries :: "nat \<Rightarrow> int \<Rightarrow> bool \<Rightarrow> chain_block list \<Rightarrow> utxo list \<Rightarrow> utxo list \<Rightarrow> (bytes \<times> bytes) list" where
  "seed_entries undo w tx bs us lv =
     (let txs = first_by ux_txid us; scripts = first_by ux_script us in
      map bEntry bs @ map hEntry lv @ map (\<lambda>b. nEntry (block_hash b)) (lastN undo bs) @ map oEntry lv @ map sEntry scripts
      @ (if tx then map tEntry txs else []) @ map wEntry (filter (inWindow w) us)
      @ (if tx then map xEntry txs @ map yEntry (filter (inWindow w) txs) else []) @ map zEntry (filter (inWindow w) scripts))"

lemma tx_heads_spec:
  assumes "distinct (map ux_txid (tx_heads us))"
  shows "mset (tx_heads us) = mset (first_by ux_txid us)"
proof -
  have "map_of (keyed ux_txid (tx_heads us)) = map_of (keyed ux_txid (first_by ux_txid us))"
    by (rule ext) (simp add: tx_heads_def map_of_run_heads map_of_first_by)
  then have "set (tx_heads us) = set (first_by ux_txid us)"
    using assms distinct_first_by by (intro keyed_set_eq [of ux_txid]) auto
  moreover have "distinct (tx_heads us)" "distinct (first_by ux_txid us)"
    using assms distinct_first_by [of ux_txid us] by (simp_all add: distinct_map)
  ultimately show ?thesis by (simp add: set_eq_iff_mset_eq_distinct)
qed

lemma mset_seed_entries:
  assumes "\<forall>u \<in> set us. utxo_ok u" and "length us \<le> 4294967296" and "tx \<Longrightarrow> distinct (map ux_txid (tx_heads us))" and "mset lv = mset lv'"
  shows "mset (concat (map (seed_file undo w bs us lv) (selectPrefixes True tx))) = mset (seed_entries undo w tx bs us lv')"
  using firsts_spec [OF assms(1,2)] tx_heads_spec assms(3,4)
  by (cases tx) (simp_all add: selectPrefixes_seed seed_file_def seed_entries_def Let_def)

lemma distinct_via:
  assumes "distinct (map f xs)" and "\<And>x y. x \<in> set xs \<Longrightarrow> y \<in> set xs \<Longrightarrow> g x = g y \<Longrightarrow> f x = f y"
  shows "distinct (map g xs)"
  using assms unfolding distinct_map inj_on_def by blast

text \<open>Lists of entries whose keys start with different bytes.\<close>

definition tagged :: "byte \<Rightarrow> (bytes \<times> bytes) list \<Rightarrow> bool" where
  "tagged c es \<longleftrightarrow> distinct (map fst es) \<and> (\<forall>e \<in> set es. hd (fst e) = c)"

lemma tagged_Nil [simp]: "tagged c []"
  by (simp add: tagged_def)

lemma distinct_tagged: "list_all2 tagged cs ls \<Longrightarrow> distinct cs \<Longrightarrow> distinct (map fst (concat ls)) \<and> (\<forall>e \<in> set (concat ls). hd (fst e) \<in> set cs)"
proof (induction cs ls rule: list_all2_induct)
  case (Cons c cs es ls)
  then have ih: "distinct (map fst (concat ls))" "\<forall>e \<in> set (concat ls). hd (fst e) \<in> set cs" by simp_all
  have "fst e \<noteq> fst e'" if "e \<in> set es" "e' \<in> set (concat ls)" for e e'
    using that ih(2) Cons.hyps(1) Cons.prems unfolding tagged_def by force
  then have "set (map fst es) \<inter> set (map fst (concat ls)) = {}" unfolding set_map by blast
  then show ?case using ih Cons.hyps(1) by (auto simp: tagged_def)
qed simp

lemma seed_keys_distinct:
  assumes us: "\<forall>u \<in> set us. utxo_ok u" "distinct (map point us)" and lv: "\<forall>u \<in> set lv. utxo_ok u" "distinct (map point lv)"
    and bs: "\<forall>b \<in> set bs. block_ok b" "distinct (map block_hash bs)"
  shows "distinct (map fst (seed_entries undo w tx bs us lv @ marker_entries height hash n))"
proof -
  let ?txs = "first_by ux_txid us" and ?sc = "first_by ux_script us"
  have sub: "set ?txs \<subseteq> set us" "set ?sc \<subseteq> set us" by (rule set_first_by)+
  have ok: "length (ux_txid u) = 32 \<and> length (ux_script u) = 32 \<and> length (ux_block u) = 32" if "u \<in> set us \<or> u \<in> set lv" for u
    using that us(1) lv(1) by (auto simp: utxo_ok_def)
  have okb: "length (block_hash b) = 32" if "b \<in> set bs" for b using that bs(1) by (auto simp: block_ok_def block_hash_def)
  have B: "tagged P_BLOCK (map bEntry bs)"
    unfolding tagged_def map_map
    by (rule conjI, rule distinct_via [OF bs(2)]) (use okb in \<open>auto simp: bEntry_def block_hash_def split: prod.splits\<close>)
  have subN: "set (lastN undo bs) \<subseteq> set bs" and dN: "distinct (map block_hash (lastN undo bs))"
    using bs(2) by (simp_all add: lastN_def set_drop_subset flip: drop_map)
  have N: "tagged P_STORED_BLK (map (\<lambda>b. nEntry (block_hash b)) (lastN undo bs))"
    unfolding tagged_def map_map
    by (rule conjI, rule distinct_via [OF dN]) (use okb subN in \<open>auto simp: nEntry_def subset_iff\<close>)
  have H: "tagged P_OUT_HINT (map hEntry lv)"
    unfolding tagged_def map_map
    by (rule conjI, rule distinct_via [OF lv(2)]) (use ok in \<open>auto simp: hEntry_def point_def\<close>)
  have O: "tagged P_OUTPUT (map oEntry lv)"
    unfolding tagged_def map_map
    by (rule conjI, rule distinct_via [OF lv(2)]) (use ok in \<open>auto simp: oEntry_def point_def\<close>)
  have dW: "distinct (map point (filter (inWindow w) us))" using us(2) by (rule distinct_map_filter)
  have W: "tagged P_OUT_BLK (map wEntry (filter (inWindow w) us))"
    unfolding tagged_def map_map
    by (rule conjI, rule distinct_via [OF dW]) (use ok in \<open>auto simp: wEntry_def point_def\<close>)
  have S: "tagged P_SCRIPT_BLK (map sEntry ?sc)"
    unfolding tagged_def map_map
    by (rule conjI, rule distinct_via [OF distinct_first_by]) (use ok sub in \<open>auto simp: sEntry_def subset_iff\<close>)
  have Z: "tagged P_BLK_SCRIPT (map zEntry (filter (inWindow w) ?sc))"
    unfolding tagged_def map_map
    by (rule conjI, rule distinct_via [OF distinct_map_filter [OF distinct_first_by]]) (use ok sub in \<open>auto simp: zEntry_def subset_iff\<close>)
  have T: "tagged P_TX (map tEntry ?txs)"
    unfolding tagged_def map_map
    by (rule conjI, rule distinct_via [OF distinct_first_by]) (use ok sub in \<open>auto simp: tEntry_def subset_iff\<close>)
  have X: "tagged P_TX_EXACT (map xEntry ?txs)"
    unfolding tagged_def map_map
    by (rule conjI, rule distinct_via [OF distinct_first_by]) (use ok sub in \<open>auto simp: xEntry_def subset_iff\<close>)
  have Y: "tagged P_TX_BLOCK_RECOVERY (map yEntry (filter (inWindow w) ?txs))"
    unfolding tagged_def map_map
    by (rule conjI, rule distinct_via [OF distinct_map_filter [OF distinct_first_by]]) (use ok sub in \<open>auto simp: yEntry_def subset_iff\<close>)
  define last3 where "last3 = [(PREFIX_LAST_BLOCK_HEIGHT, utf8 height), (PREFIX_LAST_BLOCK_HASH, utf8 hash), (PREFIX_LAYOUT_VERSION, utf8 (dec STORE_LAYOUT_VERSION))]"
  define q where "q = (if n > 0 then [(Q_UNDO_WATERMARK_KEY, utf8 (dec n))] else [])"
  have M: "tagged 0x4C last3" "tagged 0x51 q"
    by (simp_all add: last3_def q_def tagged_def meta_defs)
  let ?tx = "\<lambda>es. if tx then es else []"
  have "distinct (map fst (concat [map bEntry bs, map hEntry lv, map (\<lambda>b. nEntry (block_hash b)) (lastN undo bs), map oEntry lv, map sEntry ?sc,
      ?tx (map tEntry ?txs), map wEntry (filter (inWindow w) us), ?tx (map xEntry ?txs), ?tx (map yEntry (filter (inWindow w) ?txs)),
      map zEntry (filter (inWindow w) ?sc), last3, q]))"
    by (rule distinct_tagged [THEN conjunct1, of "[P_BLOCK, P_OUT_HINT, P_STORED_BLK, P_OUTPUT, P_SCRIPT_BLK, P_TX, P_OUT_BLK, P_TX_EXACT,
        P_TX_BLOCK_RECOVERY, P_BLK_SCRIPT, 0x4C, 0x51]"]) (use B N H O W S Z T X Y M in simp_all, simp_all add: prefix_defs)
  moreover have "marker_entries height hash n = last3 @ q" by (simp add: marker_entries_def last3_def q_def)
  ultimately show ?thesis by (cases tx) (simp_all add: seed_entries_def Let_def)
qed

lemma puts_permuted:
  assumes "mset es = mset es'" and "distinct (map fst (es' @ fs))"
  shows "puts (es @ fs) Map.empty = map_of (es' @ fs)"
proof -
  have "mset (map fst (es @ fs)) = mset (map fst (es' @ fs))" using assms(1) by simp
  then have d: "distinct (map fst (es @ fs))" using assms(2) by (rule mset_eq_imp_distinct_iff [THEN iffD2])
  have "set es = set es'" using assms(1) by (rule mset_eq_setD)
  then have "map_of (es @ fs) = map_of (es' @ fs)" by (subst map_of_inject_set [OF d assms(2)]) simp
  then show ?thesis using puts_map_of [OF d, of Map.empty] by simp
qed

lemma distinct_heads: "distinct (map f (concat gs)) \<Longrightarrow> \<forall>g \<in> set gs. g \<noteq> [] \<Longrightarrow> distinct (map (\<lambda>g. f (hd g)) gs)"
proof (induction gs)
  case (Cons g gs)
  have disj: "f x \<noteq> f y" if "x \<in> set g" "y \<in> set (concat gs)" for x y
    using Cons.prems(1) that unfolding concat.simps map_append distinct_append set_map by blast
  have "f (hd g) \<noteq> f (hd h)" if "h \<in> set gs" for h
  proof (rule disj)
    show "hd g \<in> set g" using Cons.prems(2) by simp
    have "hd h \<in> set h" using Cons.prems(2) that by simp
    then show "hd h \<in> set (concat gs)" using that by auto
  qed
  then show ?case using Cons by auto
qed simp

text \<open>In a chain whose outpoints differ the outputs of a transaction come as one run.\<close>

lemma tx_heads_distinct:
  assumes "distinct (map point (concat (map (created sha) bs)))"
  shows "distinct (map ux_txid (tx_heads (concat (map (created sha) bs))))"
proof -
  define gs where "gs = filter (\<lambda>g. g \<noteq> []) (concat (map (\<lambda>(h, bh, block). map (tx_created sha h bh) (bl_transactions block)) bs))"
  have cf: "concat (filter (\<lambda>g. g \<noteq> []) xs) = concat xs" for xs :: "utxo list list" by (induction xs) auto
  have "concat (map (created sha) bs) = concat gs"
    unfolding gs_def cf by (induction bs) (auto simp: created_def)
  moreover have grp: "\<forall>g \<in> set gs. one_key ux_txid g \<and> ux_vout (hd g) = 0"
  proof
    fix g assume "g \<in> set gs"
    then obtain h bh t where g: "g = tx_created sha h bh t" "g \<noteq> []" by (auto simp: gs_def)
    then show "one_key ux_txid g \<and> ux_vout (hd g) = 0"
      by (cases "tx_outs t") (auto simp: one_key_def tx_created_def utxo_of_def)
  qed
  moreover have "distinct (map (\<lambda>g. point (hd g)) gs)"
    using assms calculation by (intro distinct_heads) (auto simp: one_key_def)
  then have "distinct (map (ux_txid \<circ> hd) gs)"
    by (rule distinct_via) (use grp in \<open>auto simp: point_def\<close>)
  moreover from this have "tx_heads (concat gs) = map hd gs"
    unfolding tx_heads_def using grp by (intro run_heads_groups) auto
  ultimately show ?thesis by simp
qed

subsection \<open>The seeded store\<close>

text \<open>The outputs the ledger of the chain still holds, in the order of the chain.\<close>

definition unspent :: "(bytes \<Rightarrow> bytes) \<Rightarrow> chain_block list \<Rightarrow> utxo list" where
  "unspent sha bs = filter (\<lambda>u. ledger sha bs (point u) = Some u) (concat (map (created sha) bs))"

text \<open>Everything in a seeded store: the entries of the blocks \<open>bs\<close>, of which the last \<open>undo\<close> can be undone, and the markers.\<close>

definition seed_content :: "int \<Rightarrow> bool \<Rightarrow> chain_block list \<Rightarrow> utxo list \<Rightarrow> utxo list \<Rightarrow> (bytes \<times> bytes) list" where
  "seed_content undo tx bs us lv =
     seed_entries (nat undo) (max 0 (fst (last bs) - undo + 1)) tx bs us lv
     @ marker_entries (hexint (fst (last bs))) (b2h (block_hash (last bs))) (min (nat undo) (length bs))"

lemma mset_live:
  assumes "distinct (map point us)" and "map_of (pairs us) |` (- X) = ledger sha bs" and "us = concat (map (created sha) bs)"
  shows "mset (filter (\<lambda>u. point u \<notin> X) (sorted_outputs us)) = mset (unspent sha bs)"
proof -
  have "ledger sha bs (point u) = Some u \<longleftrightarrow> point u \<notin> X" if "u \<in> set us" for u
  proof -
    have "map_of (pairs us) (point u) = Some u"
      by (rule map_of_is_SomeI) (use assms(1) that in \<open>simp_all add: fst_pairs\<close>, simp add: pairs_def)
    then show ?thesis unfolding assms(2) [symmetric] by (simp add: restrict_map_def)
  qed
  then have "unspent sha bs = filter (\<lambda>u. point u \<notin> X) us" unfolding unspent_def assms(3) [symmetric] by (intro filter_cong) simp_all
  then show ?thesis by (simp add: sorted_outputs_def mset_filter)
qed

lemma deriveLevelDbKeys_ctx:
  assumes "resolveUndoBlocks env network None = Inr (undo, big)"
  obtains ctx where "resolveDeriveOptions env \<lparr>do_ramBudgetBytes = ram, do_network = network, do_undoBlocks = None, do_removeSpent = Some True,
      do_txIndex = None, do_outputsRecordSize = OUTPUTS_RECORD_SIZE\<rparr> = Inr ctx"
    and "dc_undoBlocks ctx = undo" and "dc_removeSpent ctx" and "dc_txIndex ctx = (\<not> isBitcoin network)"
  by (rule that [of "\<lparr>dc_ramBudgetBytes = (if ram = 0 then 1024 * 1024 * 1024 else ram), dc_undoBlocks = undo, dc_removeSpent = True,
      dc_txIndex = (\<not> isBitcoin network), dc_outputsRecordSize = OUTPUTS_RECORD_SIZE\<rparr>"])
    (use assms in \<open>simp_all add: resolveDeriveOptions_def Let_def\<close>)

lemma seed_load:
  fixes us bs lv lv' undo
  defines "w \<equiv> max 0 (fst (last bs) - undo + 1)"
  assumes K: "leveldb K" and d: "holdsNothingButCurrentStamp K d" and undo: "resolveUndoBlocks env network None = Inr (undo, big)"
    and bs: "bs \<noteq> []" "\<forall>b \<in> set bs. block_ok b" "distinct (map block_hash bs)"
    and us: "\<forall>u \<in> set us. utxo_ok u" "length us \<le> 4294967296" "distinct (map point us)" "distinct (map ux_txid (tx_heads us))"
    and lv: "\<forall>u \<in> set lv. utxo_ok u" "mset lv = mset lv'" "distinct (map point lv')"
    and h: "length oh = 64" "meta_file mh bs"
  shows "\<exists>dir1 r d'. deriveLevelDbKeys env network True OUTPUTS_RECORD_SIZE ram
      \<lparr>pm_allOutputs = oh @ concat (map enc_utxo us), pm_allMeta = mh @ concat (map meta_of bs), pm_sortedSpends = sp, pm_liveUtxos = concat (map enc_utxo lv)\<rparr> dir
        = Some (Inr dir1)
    \<and> phaseLoad K batchSize True dir1 d = Some (r, d')
    \<and> (r = Inl DbError \<and> batch_fails K \<and> kv_get K d' PREFIX_LAST_BLOCK_HEIGHT = None \<and> kv_get K d' PREFIX_LAST_BLOCK_HASH = None
      \<or> (\<exists>st. r = Inr st) \<and> kv_get K d' = map_of (seed_content undo (\<not> isBitcoin network) bs us lv'))"
proof -
  obtain ctx where ctx: "resolveDeriveOptions env \<lparr>do_ramBudgetBytes = ram, do_network = network, do_undoBlocks = None, do_removeSpent = Some True,
      do_txIndex = None, do_outputsRecordSize = OUTPUTS_RECORD_SIZE\<rparr> = Inr ctx"
    "dc_undoBlocks ctx = undo" "dc_removeSpent ctx" "dc_txIndex ctx = (\<not> isBitcoin network)"
    by (rule deriveLevelDbKeys_ctx [OF undo])
  obtain dir1 where dir1: "deriveLevelDbKeys env network True OUTPUTS_RECORD_SIZE ram
      \<lparr>pm_allOutputs = oh @ concat (map enc_utxo us), pm_allMeta = mh @ concat (map meta_of bs), pm_sortedSpends = sp, pm_liveUtxos = concat (map enc_utxo lv)\<rparr> dir
        = Some (Inr dir1)"
    and L: "kd_last dir1 = Some \<lparr>lm_height = Some (hexint (fst (last bs))), lm_hash = Some (b2h (block_hash (last bs))), lm_txIndex = Some (\<not> isBitcoin network)\<rparr>"
    and holds: "\<forall>c \<in> set (selectPrefixes True (\<not> isBitcoin network)). holds_file dir1 (\<not> isBitcoin network) c (seed_file (nat undo) w bs us lv c)"
    by (rule deriveKeys_enc [OF ctx(1,3) bs(1,2) h(2,1) us(1,2) lv(1), where sp = sp and ?d0.0 = dir], rule that,
        unfold deriveLevelDbKeys_def merged.simps, assumption)
      (simp add: ctx, rule seed_files_hold [OF us(1) lv(1) bs(2)], simp_all add: window_start_def ctx w_def)
  let ?tx = "\<not> isBitcoin network" and ?n = "min (nat undo) (length bs)"
  let ?es = "concat (map (seed_file (nat undo) w bs us lv) (selectPrefixes True ?tx))"
  let ?seed = "seed_entries (nat undo) w ?tx bs us lv'" and ?mk = "marker_entries (hexint (fst (last bs))) (b2h (block_hash (last bs))) ?n"
  have tx: "resolveTxIndex dir1 None = ?tx" by (simp add: resolveTxIndex_def L)
  have mk: "readLastMarkers dir1 = Inr (hexint (fst (last bs)), b2h (block_hash (last bs)))" by (simp add: readLastMarkers_def L)
  have n: "(if CHR ''N'' \<in> set (selectPrefixes True ?tx) then length (seed_file (nat undo) w bs us lv (CHR ''N'')) else 0) = ?n"
    by (cases ?tx) (simp_all add: selectPrefixes_seed seed_file_def lastN_def min_def)
  obtain r d' where run: "phaseLoad K batchSize True dir1 d = Some (r, d')" and
    res: "r = Inl DbError \<and> batch_fails K \<and> (\<forall>m. m \<notin> fst ` set ?es \<longrightarrow> kv_get K d' m = kv_get K d m) \<or> (\<exists>st. r = Inr st) \<and> kv_get K d' = puts (?es @ ?mk) Map.empty"
    using leveldb.loadKeys_puts [OF K d, where opts = "\<lparr>lo_batchSize = batchSize, lo_removeSpent = Some True, lo_txIndex = None\<rparr>" and dir = dir1,
        simplified load_options.simps option.inject simp_thms, unfolded tx, OF holds mk, unfolded n] unfolding phaseLoad_def by blast
  have perm: "mset ?es = mset ?seed" by (rule mset_seed_entries [OF us(1,2,4) lv(2)])
  have "set lv' = set lv" using mset_eq_setD [OF lv(2)] by simp
  then have dist: "distinct (map fst (?seed @ ?mk))" using lv(1) by (intro seed_keys_distinct us bs lv(3)) simp
  have mem: "kv_get K d' (fst e) = None" if "r = Inl DbError" "e \<in> {hd ?mk, ?mk ! 1}" for e
  proof -
    have "fst e \<in> fst ` set ?mk" using that(2) by (auto simp: marker_entries_def)
    moreover have "fst ` set ?mk \<inter> fst ` set ?es = {}" using dist mset_eq_setD [OF perm] by (simp add: Int_commute)
    moreover have "kv_get K d' m = kv_get K d m" if "m \<notin> fst ` set ?es" for m using res that \<open>r = Inl DbError\<close> by blast
    ultimately have "kv_get K d' (fst e) = kv_get K d (fst e)" by blast
    moreover have "fst e \<noteq> PREFIX_LAYOUT_VERSION" using that(2) by (auto simp: marker_entries_def meta_defs)
    ultimately show ?thesis using leveldb.fresh_store [OF K d] by auto
  qed
  have "r = Inl DbError \<and> batch_fails K \<and> kv_get K d' PREFIX_LAST_BLOCK_HEIGHT = None \<and> kv_get K d' PREFIX_LAST_BLOCK_HASH = None
      \<or> (\<exists>st. r = Inr st) \<and> kv_get K d' = map_of (seed_content undo (\<not> isBitcoin network) bs us lv')"
    using res mem [of "hd ?mk"] mem [of "?mk ! 1"] puts_permuted [OF perm dist] by (auto simp: seed_content_def w_def marker_entries_def)
  then show ?thesis using dir1 run by blast
qed

text \<open>
  What a run is given: the dumps of consecutive height ranges, what one worker each made of them, and
  a chain in which no two outputs share an outpoint and every spend finds an output of its own, made
  in the same block or earlier.
\<close>

definition bulk_input :: "(bytes \<Rightarrow> bytes) \<Rightarrow> (bytes \<Rightarrow> error + block) \<Rightarrow> bytes list \<Rightarrow> streams list \<Rightarrow> chain_block list \<Rightarrow> bool" where
  "bulk_input sha decode dumps ss bs \<longleftrightarrow> decoder_ok decode \<and> (\<forall>s. length (sha s) = 32) \<and> map (parseWorker sha decode) dumps = map Inr ss
     \<and> (\<exists>rs bss. map XdmpReader dumps = map Inr rs \<and> contiguous rs \<and> map (dumpBlocks decode) dumps = map Inr bss \<and> bs = concat bss)"

definition chain_ok :: "(bytes \<Rightarrow> bytes) \<Rightarrow> chain_block list \<Rightarrow> bool" where
  "chain_ok sha bs \<longleftrightarrow> (let us = concat (map (created sha) bs); sp = concat (map spends bs) in
     bs \<noteq> [] \<and> (\<forall>b \<in> set bs. block_ok b) \<and> distinct (map block_hash bs) \<and> distinct (map point us)
     \<and> spends_in_order sha bs \<and> distinct (map spent_point sp) \<and> set (map spent_point sp) \<subseteq> set (map point us)
     \<and> length us \<le> 2 ^ 32 \<and> length sp < 2 ^ 64 \<and> length bs < 2 ^ 64)"

lemma bulk_seed_result:
  assumes "leveldb K" and "holdsNothingButCurrentStamp K d" and "bulk_input sha decode dumps ss bs" and "chain_ok sha bs"
    and "resolveUndoBlocks env (ba_network args) None = Inr (undo, big)" and "ba_removeSpent args" and "ba_from args = 0"
  shows "(\<forall>u \<in> set (concat (map (created sha) bs)). utxo_ok u)
    \<and> (\<exists>r d'. mergeAndLoad K env args ss dir d = Some (r, d')
      \<and> (r = Inl DbError \<and> batch_fails K \<and> kv_get K d' PREFIX_LAST_BLOCK_HEIGHT = None \<and> kv_get K d' PREFIX_LAST_BLOCK_HASH = None
        \<or> (\<exists>st. r = Inr st) \<and> kv_get K d' = map_of (seed_content undo (\<not> isBitcoin (ba_network args)) bs
          (concat (map (created sha) bs)) (unspent sha bs))))"
proof -
  define us where "us = concat (map (created sha) bs)"
  define sp where "sp = concat (map spends bs)"
  let ?X = "set (map spent_point sp)"
  have c: "bs \<noteq> []" "\<forall>b \<in> set bs. block_ok b" "distinct (map block_hash bs)" "distinct (map point us)" "spends_in_order sha bs"
    "distinct (map spent_point sp)" "?X \<subseteq> set (map point us)" "length us \<le> 2 ^ 32" "length us < 2 ^ 64" "length sp < 2 ^ 64" "length bs < 2 ^ 64"
    using assms(4) by (simp_all add: chain_ok_def Let_def us_def sp_def)
  obtain rs bss where i: "map (parseWorker sha decode) dumps = map Inr ss" "map XdmpReader dumps = map Inr rs"
    "map (dumpBlocks decode) dumps = map Inr bss" "contiguous rs" "decoder_ok decode" "\<And>s. length (sha s) = 32" and bs: "bs = concat bss"
    using assms(3) by (auto simp: bulk_input_def)
  obtain oh mh where ok: "\<forall>u \<in> set us. utxo_ok u" and L: "map_of (pairs us) |` (- ?X) = ledger sha bs"
    and h: "length oh = 64" "length mh = 64" "take 8 mh = MAGIC_META" "unle (slice 20 28 mh) = length bs"
    and m: "phaseMerge (ba_ramBudget args) 0 ss = Some (Inr \<lparr>pm_allOutputs = oh @ concat (map enc_utxo us), pm_allMeta = mh @ concat (map meta_of bs),
        pm_sortedSpends = concat (map enc_spend (sorted_spends sp)),
        pm_liveUtxos = concat (map enc_utxo (filter (\<lambda>u. point u \<notin> ?X) (sorted_outputs us)))\<rparr>)"
    using bulk_merge_result [OF i, folded bs, folded us_def sp_def, OF c(9-11,4,5), of "ba_ramBudget args"] c(6,7) by auto
  let ?lv = "filter (\<lambda>u. point u \<notin> ?X) (sorted_outputs us)"
  have lv: "\<forall>u \<in> set ?lv. utxo_ok u" "mset ?lv = mset (unspent sha bs)" "distinct (map point (unspent sha bs))"
    using ok mset_live [OF c(4) L us_def] distinct_map_filter [OF c(4)] by (simp_all add: unspent_def us_def [symmetric])
  have "length us \<le> 4294967296" using c(8) by simp
  note l = seed_load [OF assms(1,2,5) c(1-3) ok this c(4) tx_heads_distinct [OF c(4) [unfolded us_def], folded us_def] lv h(1),
      of mh "ba_ramBudget args * 1024 * 1024" "concat (map enc_spend (sorted_spends sp))" dir "ba_batchSize args"]
  have "meta_file mh bs" using h by (simp add: meta_file_def)
  then show ?thesis using l m assms(6,7) ok by (auto simp: mergeAndLoad_def us_def [symmetric])
qed

text \<open>
  C5. Bulk sync from dumps to database. Take dumps of consecutive height ranges of one chain, let one
  worker parse each, and merge, derive and load what the workers wrote into a database without
  content. Provided every spend finds an output of its own, created in the same block or earlier, the
  run always ends. Unless a batch fails, the database then holds exactly the records of the live
  store's layout for that chain and no other key: block records and the undo window by height, the
  outputs the ledger still holds with their hints, the first sighting of every script, the output and
  script journals of the window, on chains other than bitcoin the transaction index, and the markers.
  If a batch fails, and only then, the run stops with that error, and the markers of the last block are not there.
\<close>

theorem bulk_seed_content:
  assumes "leveldb K" and "holdsNothingButCurrentStamp K d" and "bulk_input sha decode dumps ss bs" and "chain_ok sha bs"
    and "resolveUndoBlocks env (ba_network args) None = Inr (undo, big)" and "ba_removeSpent args" and "ba_from args = 0"
  shows "\<exists>r d'. mergeAndLoad K env args ss dir d = Some (r, d')
    \<and> (r = Inl DbError \<and> batch_fails K \<and> kv_get K d' PREFIX_LAST_BLOCK_HEIGHT = None \<and> kv_get K d' PREFIX_LAST_BLOCK_HASH = None
      \<or> (\<exists>st. r = Inr st) \<and> kv_get K d' = map_of (seed_content undo (\<not> isBitcoin (ba_network args)) bs
        (concat (map (created sha) bs)) (unspent sha bs)))"
  using bulk_seed_result [OF assms] by blast

text \<open>The two blocks of theory BulkMerge, seeded with a window of twelve blocks.\<close>

lemma demo_input: "\<exists>d s. bulk_input demo_sha demo_decode [d] [s] demo_chain"
proof -
  obtain d r s where "XdmpReader d = Inr r" "dumpBlocks demo_decode d = Inr demo_chain" "parseWorker demo_sha demo_decode d = Inr s"
    using demo_worker by blast
  moreover have "decoder_ok demo_decode"
    by (auto simp: decoder_ok_def demo_decode_def demo_block_def demo_coinbase_def demo_spend_def demo_tx_def tx_ok_def split: if_splits)
  ultimately have "bulk_input demo_sha demo_decode [d] [s] demo_chain"
    unfolding bulk_input_def by (intro conjI exI [of _ "[r]"] exI [of _ "[demo_chain]"]) (simp_all add: demo_sha_def)
  then show ?thesis by blast
qed

definition demo_utxo :: "byte \<Rightarrow> int \<Rightarrow> bool \<Rightarrow> bytes \<Rightarrow> utxo" where
  "demo_utxo c h cb bh = \<lparr>ux_txid = replicate 32 c, ux_vout = 0, ux_value = 50, ux_height = h, ux_script = replicate 32 0, ux_block = bh, ux_coinbase = cb\<rparr>"

lemma demo_created: "concat (map (created demo_sha) demo_chain) = [demo_utxo 1 0 True (replicate 32 8), demo_utxo 2 1 False (replicate 32 9)]"
  by (simp add: demo_chain_def created_def demo_block_def demo_coinbase_def demo_spend_def demo_tx_def tx_created_def utxo_of_def
    isCoinbaseTransaction_def COINBASE_INDEX_def demo_sha_def demo_utxo_def)

lemma demo_spent: "map spent_point (concat (map spends demo_chain)) = [(replicate 32 1, 0)]"
  by (simp add: demo_chain_def spends_def demo_block_def demo_coinbase_def demo_spend_def demo_tx_def tx_spends_def traced_def
    COINBASE_INDEX_def spent_point_def prevTxHash_def)

lemma demo_in_order: "spends_in_order demo_sha demo_chain"
  by (simp add: demo_chain_def spends_def demo_block_def demo_coinbase_def demo_spend_def demo_tx_def tx_spends_def traced_def COINBASE_INDEX_def)

lemma demo_points: "replicate 32 (1 :: byte) \<noteq> replicate 32 2" "replicate 32 (8 :: byte) \<noteq> replicate 32 9"
  by (simp_all add: replicate_eq_replicate)

lemma demo_ok: "chain_ok demo_sha demo_chain"
proof -
  have "length (concat (map spends demo_chain)) = 1" using arg_cong [OF demo_spent, of length] by simp
  moreover have "\<forall>b \<in> set demo_chain. block_ok b"
    by (simp add: demo_chain_def block_ok_def demo_block_def demo_coinbase_def demo_spend_def demo_tx_def)
  moreover have "length demo_chain = 2" "demo_chain \<noteq> []" "map block_hash demo_chain = [replicate 32 8, replicate 32 9]"
    by (simp_all add: demo_chain_def block_hash_def)
  ultimately show ?thesis
    unfolding chain_ok_def Let_def demo_created demo_spent using demo_points demo_in_order by (simp add: point_def demo_utxo_def)
qed

lemma demo_undo: "resolveUndoBlocks (\<lambda>_. None) ''bitcoin-mainnet'' None = Inr (12, False)"
proof -
  have "map lower ''bitcoin-mainnet'' = ''bitcoin-mainnet''" by code_simp
  moreover have "splitLastHyphen ''bitcoin-mainnet'' = Some (''bitcoin'', ''mainnet'')" by (simp add: splitLastHyphen_def)
  ultimately have n: "coinFromNetwork ''bitcoin-mainnet'' = Some BTC" "netFromNetwork ''bitcoin-mainnet'' = ''mainnet''"
    by (simp_all add: coinFromNetwork_def netFromNetwork_def Let_def FULL_NAME_TO_TICK_def)
  have k: "undoBlocksKey (tick_name BTC) ''mainnet'' = ''BTC_MAINNET''" by code_simp
  have "safeUndoBlocksCeiling ''bitcoin-mainnet'' = 126"
    by (simp add: safeUndoBlocksCeiling_def n k LTC_TESTNET_SAFE_UNDO_BLOCKS_def MAX_SAFE_UNDO_BLOCKS_def del: tick_name.simps)
  moreover have "DEFAULT_UNDO_BLOCKS ''BTC_MAINNET'' = Some 12" by (simp add: DEFAULT_UNDO_BLOCKS_def)
  moreover have "envInt (\<lambda>_. None) k 12 1 = 12" for k by (simp add: envInt_def intKnob_def readInt_def)
  ultimately show ?thesis using n k by (simp add: resolveUndoBlocks_def Let_def del: tick_name.simps)
qed

definition demo_args :: bulk_args where
  "demo_args = \<lparr>ba_network = ''bitcoin-mainnet'', ba_from = 0, ba_ramBudget = 1, ba_batchSize = 2, ba_removeSpent = True\<rparr>"

definition demo_dir :: keys_dir where
  "demo_dir = \<lparr>kd_files = Map.empty, kd_last = None\<rparr>"

lemma demo_setting: "resolveUndoBlocks (\<lambda>_. None) (ba_network demo_args) None = Inr (12, False)" "ba_removeSpent demo_args" "ba_from demo_args = 0"
  using demo_undo by (simp_all add: demo_args_def)

text \<open>A database whose batches never fail.\<close>

definition sure_kv :: "ref_db kv" where
  "sure_kv = ref_kv\<lparr>kv_batch := (\<lambda>d ops. (True, d\<lparr>ref_entries := fold ref_apply ops (ref_entries d)\<rparr>))\<rparr>"

interpretation sure: leveldb sure_kv
  by unfold_locales (auto simp: sure_kv_def ref_get_def map_of_ref_fold
    dest: ref.iter_set [simplified] ref.iter_limit [simplified] intro: ref.iter_sorted [simplified])

lemma leveldb_sure_kv: "leveldb sure_kv"
  by (rule sure.leveldb_axioms)

lemma sure_kv_simps: "kv_get sure_kv = ref_get" "kv_iter sure_kv = ref_iter" "\<not> batch_fails sure_kv"
  by (simp_all add: sure_kv_def batch_fails_def)

definition demo_db :: ref_db where
  "demo_db = \<lparr>ref_entries = [], ref_left = 0\<rparr>"

lemma demo_fresh: "holdsNothingButCurrentStamp sure_kv demo_db"
  by (simp add: holdsNothingButCurrentStamp_def demo_db_def ref_iter_def sure_kv_simps)

lemma demo_ledger: "ledger demo_sha demo_chain = [(replicate 32 2, 0) \<mapsto> demo_utxo 2 1 False (replicate 32 9)]"
  unfolding ledger_def using ledger_from [of demo_sha demo_chain Map.empty] demo_in_order demo_points
  by (auto simp: demo_created demo_spent pairs_def point_def restrict_map_def fun_eq_iff demo_utxo_def)

lemma demo_unspent: "unspent demo_sha demo_chain = [demo_utxo 2 1 False (replicate 32 9)]"
  using demo_points unfolding unspent_def demo_created demo_ledger by (simp add: point_def demo_utxo_def)

theorem bulk_seed_content_witness:
  "\<exists>s st d'. mergeAndLoad sure_kv (\<lambda>_. None) demo_args [s] demo_dir demo_db = Some (Inr st, d')
    \<and> ref_get d' = map_of (seed_content 12 (\<not> isBitcoin ''bitcoin-mainnet'') demo_chain
        [demo_utxo 1 0 True (replicate 32 8), demo_utxo 2 1 False (replicate 32 9)] [demo_utxo 2 1 False (replicate 32 9)])"
proof -
  obtain d s where i: "bulk_input demo_sha demo_decode [d] [s] demo_chain" using demo_input by blast
  have n: "ba_network demo_args = ''bitcoin-mainnet''" by (simp add: demo_args_def)
  show ?thesis
    using bulk_seed_content [OF leveldb_sure_kv demo_fresh i demo_ok demo_setting, of demo_dir] sure_kv_simps(3)
    unfolding demo_created sure_kv_simps(1) n demo_unspent by metis
qed

end
