(* ===== verification/Query.thy ===== *)
theory Query
  imports Complex_Main Outputs
begin

text \<open>
  The reads of \<^verbatim>\<open>src/store/level_up_db/output_scripts.js\<close> behind the address API:
  \<open>getOutputsScriptPubKey\<close>, paged or under a ceiling, and \<open>getValuesFromKeyPattern\<close>. A limit is
  \<open>None\<close> when it is absent or not a finite number. The lemmas say what an iterator that resumes
  after a key still gives, so that a page is a segment of the unbounded read.
\<close>

subsection \<open>Reads\<close>

record out_row =
  or_txid :: bytes
  or_fullTxid :: "bytes option"
  or_vout :: u32
  or_value :: int
  or_height :: int
  or_coinbase :: bool

definition readOutputRow :: "bytes \<times> bytes \<Rightarrow> error + out_row" where
  "readOutputRow = (\<lambda>(key, value).
     rbind (readUInt32BE 65 key) (\<lambda>n.
     rbind (decodeOutput value) (\<lambda>decoded.
     Inr \<lparr>or_txid = slice 33 65 key, or_fullTxid = out_t decoded, or_vout = word_of_int n,
          or_value = out_v decoded, or_height = out_h decoded, or_coinbase = out_cb decoded\<rparr>)))"

text \<open>The loop over the iterator: the ceiling is tested before a row is read.\<close>

fun collectUnder :: "(bytes \<times> bytes \<Rightarrow> error + 'r) \<Rightarrow> nat option \<Rightarrow> nat \<Rightarrow> (bytes \<times> bytes) list \<Rightarrow> error + 'r list" where
  "collectUnder row cap n [] = Inr []"
| "collectUnder row cap n (e # es) =
     (case cap of
        Some m \<Rightarrow> if n \<ge> m then Inl (AddressTooLarge m)
                  else rbind (row e) (\<lambda>r. rbind (collectUnder row cap (Suc n) es) (\<lambda>rs. Inr (r # rs)))
      | None \<Rightarrow> rbind (row e) (\<lambda>r. rbind (collectUnder row cap (Suc n) es) (\<lambda>rs. Inr (r # rs))))"

definition pageLimit :: "rat option \<Rightarrow> nat option" where
  "pageLimit limit = (case limit of None \<Rightarrow> None | Some l \<Rightarrow> if l > 0 then Some (nat \<lfloor>l\<rfloor>) else None)"

definition outputsRange :: "bytes \<Rightarrow> string option \<Rightarrow> nat option \<Rightarrow> error + range" where
  "outputsRange scriptPubKey after limit =
     (let pfx = P_OUTPUT # scriptPubKey in
      case after of
        None \<Rightarrow> Inr \<lparr>r_gte = Some pfx, r_gt = None, r_lte = Some (rangeEnd pfx), r_limit = limit\<rparr>
      | Some cursor \<Rightarrow> (case parseOutputCursor cursor of
            None \<Rightarrow> Inl InvalidCursor
          | Some (txid, vout) \<Rightarrow>
              Inr \<lparr>r_gte = None, r_gt = Some (pfx @ txid @ be32 vout),
                   r_lte = Some (rangeEnd pfx), r_limit = limit\<rparr>))"

definition getOutputsScriptPubKey ::
  "'d kv \<Rightarrow> bytes \<Rightarrow> rat option \<Rightarrow> string option \<Rightarrow> nat option \<Rightarrow> ('d store, out_row list) m"
where
  "getOutputsScriptPubKey K scriptPubKey limit after maxOutputs =
     mbind (mlift (outputsRange scriptPubKey after (pageLimit limit))) (\<lambda>options.
     mbind (dbIter K options) (\<lambda>es.
     mlift (collectUnder readOutputRow (if pageLimit limit = None then maxOutputs else None) 0 es)))"

datatype pattern = PText string | PBuffer bytes

fun pattern_bytes :: "pattern \<Rightarrow> bytes" where
  "pattern_bytes (PText s) = h2b s"
| "pattern_bytes (PBuffer b) = b"

definition getValuesFromKeyPattern ::
  "'d kv \<Rightarrow> pattern \<Rightarrow> nat option \<Rightarrow> ('d store, (string \<times> string) list) m"
where
  "getValuesFromKeyPattern K pattern maxValues =
     (let patternBuf = pattern_bytes pattern in
      if length patternBuf < 2 then mthrow (BadRequest ''pattern must decode to at least 2 bytes of key prefix'')
      else mbind (dbIter K (range_of patternBuf)) (\<lambda>es.
        mlift (collectUnder (\<lambda>(key, value). Inr (b2h key, b2h value)) maxValues 0 es)))"

subsection \<open>Collecting rows\<close>

text \<open>The rows of entries that can all be read.\<close>

definition readable :: "(bytes \<times> bytes) list \<Rightarrow> bool" where
  "readable es \<longleftrightarrow> (\<forall>e \<in> set es. \<exists>r. readOutputRow e = Inr r)"

definition rows :: "(bytes \<times> bytes) list \<Rightarrow> out_row list" where
  "rows es = map (\<lambda>e. projr (readOutputRow e)) es"

lemma collect_unbounded: "readable es \<Longrightarrow> collectUnder readOutputRow None n es = Inr (rows es)"
  by (induction es arbitrary: n) (auto simp: readable_def rows_def)

lemma collect_ceiling:
  "readable es \<Longrightarrow> n \<le> m \<Longrightarrow> collectUnder readOutputRow (Some m) n es
     = (if n + length es > m then Inl (AddressTooLarge m) else Inr (rows es))"
proof (induction es arbitrary: n)
  case Nil
  then show ?case by (simp add: rows_def)
next
  case (Cons e es)
  obtain r where r: "readOutputRow e = Inr r" using Cons.prems by (auto simp: readable_def)
  have "readable es" using Cons.prems by (simp add: readable_def)
  then show ?case using Cons.IH [of "Suc n"] Cons.prems r by (auto simp: rows_def)
qed

lemma collect_pure_ceiling:
  "n \<le> m \<Longrightarrow> collectUnder (\<lambda>e. Inr (f e)) (Some m) n es
     = (if n + length es > m then Inl (AddressTooLarge m) else Inr (map f es))"
  by (induction es arbitrary: n) auto

lemma readable_take: "readable es \<Longrightarrow> readable (take n es)"
  by (auto simp: readable_def dest: in_set_takeD)

lemma readable_drop: "readable es \<Longrightarrow> readable (drop n es)"
  by (auto simp: readable_def dest: in_set_dropD)

lemma rows_take: "rows (take n es) = take n (rows es)" and rows_drop: "rows (drop n es) = drop n (rows es)"
  and length_rows [simp]: "length (rows es) = length es"
  by (simp_all add: rows_def take_map drop_map)

subsection \<open>The output records of a script\<close>

text \<open>
  What \<open>insertOutput\<close> keeps of the O records: each key is the full key of an outpoint and each
  value decodes.
\<close>

definition oscript_ok :: "'d kv \<Rightarrow> 'd \<Rightarrow> bytes \<Rightarrow> bool" where
  "oscript_ok K d script \<longleftrightarrow> length script = 32 \<and>
     (\<forall>k v. kv_get K d k = Some v \<and> prefix (P_OUTPUT # script) k
        \<longrightarrow> (\<exists>t i r. length t = 32 \<and> k = oKey script t i \<and> decodeOutput v = Inr r))"

definition output_row :: "bytes \<Rightarrow> u32 \<Rightarrow> output_rec \<Rightarrow> out_row" where
  "output_row t i r = \<lparr>or_txid = t, or_fullTxid = out_t r, or_vout = i,
     or_value = out_v r, or_height = out_h r, or_coinbase = out_cb r\<rparr>"

definition script_entries :: "'d kv \<Rightarrow> 'd \<Rightarrow> bytes \<Rightarrow> (bytes \<times> bytes) list" where
  "script_entries K d script = kv_iter K d (range_of (P_OUTPUT # script))"

lemma read_output_row:
  assumes "length script = 32" and "length t = 32" and "decodeOutput v = Inr r"
  shows "readOutputRow (oKey script t i, v) = Inr (output_row t i r)"
proof -
  have "readUInt32BE 65 (oKey script t i) = Inr (int (unbe (be32 i)))" and "slice 33 65 (oKey script t i) = t"
    using assms by (simp_all add: readUInt32BE_def oKey_def slice_def be32_def)
  then show ?thesis using assms(3) unat_u32_lt [of i] by (simp add: readOutputRow_def output_row_def be32_def)
qed

text \<open>The cursor of a row.\<close>

definition row_cursor :: "out_row \<Rightarrow> string" where
  "row_cursor r = printOutputCursor (or_txid r) (or_vout r)"

context leveldb begin

lemma script_entry:
  assumes "oscript_ok K d script" and "e \<in> set (script_entries K d script)"
  obtains t i r where "length t = 32" "fst e = oKey script t i" "decodeOutput (snd e) = Inr r"
    "readOutputRow e = Inr (output_row t i r)"
proof -
  obtain k v where e: "e = (k, v)" by (cases e)
  then have "kv_get K d k = Some v" "in_range (range_of (P_OUTPUT # script)) k"
    using assms(2) iter_mem by (simp_all add: script_entries_def)
  then obtain t i r where "length t = 32" "k = oKey script t i" "decodeOutput v = Inr r"
    using assms(1) in_range_of_prefix unfolding oscript_ok_def by metis
  then show ?thesis using that e read_output_row assms(1) by (simp add: oscript_ok_def)
qed

lemma script_readable: "oscript_ok K d script \<Longrightarrow> readable (script_entries K d script)"
  unfolding readable_def by (meson script_entry)

lemma script_rows_mem:
  assumes "oscript_ok K d script" and "length t = 32"
  shows "output_row t i r \<in> set (rows (script_entries K d script))
    \<longleftrightarrow> (\<exists>v r'. kv_get K d (oKey script t i) = Some v \<and> decodeOutput v = Inr r' \<and> output_row t i r' = output_row t i r)"
    (is "?l \<longleftrightarrow> ?r")
proof
  assume ?l
  then obtain e where e: "e \<in> set (script_entries K d script)" and p: "projr (readOutputRow e) = output_row t i r"
    by (auto simp: rows_def)
  obtain t' i' r' where f: "length t' = 32" "fst e = oKey script t' i'" "decodeOutput (snd e) = Inr r'"
    "readOutputRow e = Inr (output_row t' i' r')" by (rule script_entry [OF assms(1) e])
  moreover have "kv_get K d (fst e) = Some (snd e)"
    using e iter_mem [of "range_of (P_OUTPUT # script)" "fst e" "snd e" d] by (simp add: script_entries_def)
  moreover have "t' = t" "i' = i" "output_row t i r' = output_row t i r" using p f(4) by (auto simp: output_row_def)
  ultimately show ?r by metis
next
  assume ?r
  then obtain v r' where v: "kv_get K d (oKey script t i) = Some v" "decodeOutput v = Inr r'" "output_row t i r' = output_row t i r"
    by blast
  have s: "length script = 32" using assms(1) by (simp add: oscript_ok_def)
  have "in_range (range_of (P_OUTPUT # script)) (oKey script t i)"
    using s assms(2) by (subst in_range_of_short) (simp_all add: MAX_KEY_LEN_def, simp add: oKey_def)
  then have "(oKey script t i, v) \<in> set (script_entries K d script)"
    using v(1) iter_mem by (simp add: script_entries_def)
  moreover have "readOutputRow (oKey script t i, v) = Inr (output_row t i r)"
    using read_output_row [OF s assms(2) v(2)] v(3) by simp
  ultimately show ?l unfolding rows_def by (force simp: image_iff)
qed

text \<open>An iterator that resumes strictly after an entry gives the entries behind it.\<close>

lemma iter_after:
  assumes "kv_iter K d r = xs @ e # ys" and "r_limit r = None" and "r_gte r = Some a" and "r_gt r = None"
  shows "kv_iter K d (r\<lparr>r_gte := None, r_gt := Some (fst e)\<rparr>) = ys"
proof (rule iter_unique)
  have s: "sorted_wrt (<) (map fst xs @ fst e # map fst ys)" using iter_sorted [of d r] assms(1) by simp
  then show "sorted_wrt (<) (map fst ys)" by (simp add: sorted_wrt_append)
  have m: "(k, v) \<in> set (xs @ e # ys) \<longleftrightarrow> kv_get K d k = Some v \<and> in_range r k" for k v
    using iter_mem [OF assms(2)] assms(1) by metis
  have e: "in_range r (fst e)" using m [of "fst e" "snd e"] by simp
  have "(k, v) \<in> set ys \<longleftrightarrow> (k, v) \<in> set (xs @ e # ys) \<and> fst e < k" for k v
  proof
    assume "(k, v) \<in> set ys"
    then show "(k, v) \<in> set (xs @ e # ys) \<and> fst e < k" using s by (force simp: sorted_wrt_append)
  next
    assume a: "(k, v) \<in> set (xs @ e # ys) \<and> fst e < k"
    have "\<not> fst e < k" if "(k, v) \<in> set xs" using s that by (force simp: sorted_wrt_append dest: order.asym)
    moreover have "(k, v) \<noteq> e" using a by auto
    ultimately show "(k, v) \<in> set ys" using a by auto
  qed
  moreover have "in_range (r\<lparr>r_gte := None, r_gt := Some (fst e)\<rparr>) k \<longleftrightarrow> in_range r k \<and> fst e < k" for k
    using e assms(3,4) by (auto simp: in_range_def)
  ultimately show "set ys = {(k, v). kv_get K d k = Some v \<and> in_range (r\<lparr>r_gte := None, r_gt := Some (fst e)\<rparr>) k}"
    using m by auto
  show "r_limit (r\<lparr>r_gte := None, r_gt := Some (fst e)\<rparr>) = None" using assms(2) by simp
qed

lemma unbounded_read:
  assumes "oscript_ok K (db s) script"
  shows "getOutputsScriptPubKey K script None None (Some m) s
    = (if length (script_entries K (db s) script) > m then Inl (AddressTooLarge m)
       else Inr (rows (script_entries K (db s) script)), s)"
    and "getOutputsScriptPubKey K script None None None s = (Inr (rows (script_entries K (db s) script)), s)"
  using collect_ceiling [OF script_readable [OF assms], of 0 m] collect_unbounded [OF script_readable [OF assms], of 0]
  by (simp_all add: getOutputsScriptPubKey_def outputsRange_def pageLimit_def Let_def script_entries_def range_of_def)

lemma first_page:
  assumes "oscript_ok K (db s) script" and "pageLimit limit = Some n"
  shows "getOutputsScriptPubKey K script limit None mx s = (Inr (rows (take n (script_entries K (db s) script))), s)"
proof -
  have "kv_iter K (db s) \<lparr>r_gte = Some (P_OUTPUT # script), r_gt = None, r_lte = Some (rangeEnd (P_OUTPUT # script)), r_limit = Some n\<rparr>
    = take n (script_entries K (db s) script)"
    by (subst iter_limit [of _ n]) (simp_all add: no_limit_def script_entries_def range_of_def)
  then show ?thesis using assms collect_unbounded [OF readable_take [OF script_readable [OF assms(1)]]]
    by (simp add: getOutputsScriptPubKey_def outputsRange_def Let_def)
qed

lemma next_page:
  assumes ok: "oscript_ok K (db s) script" and lim: "pageLimit limit = Some n"
    and es: "script_entries K (db s) script = xs @ e # ys"
  shows "getOutputsScriptPubKey K script limit (Some (row_cursor (projr (readOutputRow e)))) mx s = (Inr (rows (take n ys)), s)"
proof -
  obtain t i r where e: "length t = 32" "fst e = oKey script t i" "readOutputRow e = Inr (output_row t i r)"
    using script_entry [OF ok, of e] es by (metis in_set_conv_decomp)
  have a: "kv_iter K (db s) \<lparr>r_gte = None, r_gt = Some (oKey script t i), r_lte = Some (rangeEnd (P_OUTPUT # script)), r_limit = None\<rparr> = ys"
    using iter_after [OF es [unfolded script_entries_def]] e(2) by (simp add: range_of_def)
  have "kv_iter K (db s) \<lparr>r_gte = None, r_gt = Some (oKey script t i), r_lte = Some (rangeEnd (P_OUTPUT # script)), r_limit = Some n\<rparr>
    = take n ys"
    by (subst iter_limit [of _ n]) (simp_all add: no_limit_def a)
  moreover have "readable ys" using script_readable [OF ok] es by (simp add: readable_def)
  ultimately show ?thesis using lim e collect_unbounded [OF readable_take, of ys]
    by (simp add: getOutputsScriptPubKey_def outputsRange_def Let_def row_cursor_def output_row_def parse_printed_cursor oKey_def)
qed

end

end
