(* ===== verification/AddressQueries.thy ===== *)
theory AddressQueries
  imports Query Halt "HOL-Library.Multiset"
begin

text \<open>
  The address reads of \<^verbatim>\<open>src/XChainUtxoTracker/address_queries.js\<close>. They change nothing, so they are
  functions of the tracker that may throw; \<open>withStoreRead\<close> (theory CommitLock) is what makes both
  stores stand still while one runs. Address decoding and SHA-256 are bitcoinjs-lib and Node
  calls, given by a parameter. \<open>mx\<close> is \<open>MAX_ADDRESS_OUTPUTS\<close>, which the configuration sets.
\<close>

subsection \<open>Amounts\<close>

definition satoshiToDecimalString :: "int \<Rightarrow> string" where
  "satoshiToDecimalString val =
     (let absv = (if val < 0 then - val else val); whole = absv div 100000000; frac = absv mod 100000000 in
      (if val < 0 then ''-'' else []) @ dec (nat whole) @ ''.'' @ padStart 8 (CHR ''0'') (dec (nat frac)))"

subsection \<open>Addresses\<close>

record network =
  net_bech32 :: string
  net_scriptHash :: int

text \<open>\<open>toOutputScript\<close> gives the script or the message it throws.\<close>

record btc_lib =
  toOutputScript :: "string \<Rightarrow> network option \<Rightarrow> string + bytes"
  fromBase58Check :: "string \<Rightarrow> (int \<times> bytes) option"
  toBase58Check :: "bytes \<Rightarrow> int \<Rightarrow> string"
  sha256 :: "bytes \<Rightarrow> bytes"
  addressType :: "string \<Rightarrow> network option \<Rightarrow> string"

definition LTC_TEST_BECH32 :: "string set" where "LTC_TEST_BECH32 = {''tltc'', ''rltc''}"
definition LTC_P2SH_V2_VERSION :: int where "LTC_P2SH_V2_VERSION = 0x3a"

definition decodeAddressScript :: "btc_lib \<Rightarrow> string \<Rightarrow> network option \<Rightarrow> string + bytes" where
  "decodeAddressScript L address net = (case toOutputScript L address net of
     Inr script \<Rightarrow> Inr script
   | Inl err \<Rightarrow> (case net of
         None \<Rightarrow> Inl err
       | Some nw \<Rightarrow>
           if net_bech32 nw \<notin> LTC_TEST_BECH32 then Inl err
           else (case fromBase58Check L address of
               None \<Rightarrow> Inl err
             | Some (version, hash) \<Rightarrow>
                 if version \<noteq> LTC_P2SH_V2_VERSION \<or> length hash \<noteq> 20 then Inl err
                 else toOutputScript L (toBase58Check L hash (net_scriptHash nw)) net)))"

text \<open>An address that is not a string is \<open>None\<close>.\<close>

definition addressToScript :: "btc_lib \<Rightarrow> string option \<Rightarrow> network option \<Rightarrow> error + bytes" where
  "addressToScript L address net =
     (let reason = ''invalid address for this network'' in
      case address of
        None \<Rightarrow> Inl (BadRequest reason)
      | Some a \<Rightarrow>
          if 0 < length a \<and> length a \<le> 128
          then (case decodeAddressScript L a net of
              Inr script \<Rightarrow> Inr script
            | Inl err \<Rightarrow> Inl (BadRequest (take 256 (if err = [] then reason else err))))
          else Inl (BadRequest reason))"

subsection \<open>The snapshot a reply is labelled with\<close>

record snapshot =
  sn_height :: "int option"
  sn_hash :: "bytes option"
  sn_reorgCount :: nat
  sn_mempoolEpoch :: nat
  sn_reconverged :: bool

text \<open>A read of one of the stores: what it gives or throws.\<close>

definition reading :: "('d store, 'a) m \<Rightarrow> 'd store \<Rightarrow> error + 'a" where
  "reading f s = fst (f s)"

definition readCommittedSnapshot :: "'d kv \<Rightarrow> ('d, 'n) tracker \<Rightarrow> error + snapshot" where
  "readCommittedSnapshot K T =
     rbind (reading (getLastBlockHeight K) (confirmed T)) (\<lambda>height.
     rbind (reading (getLastBlockHash K) (confirmed T)) (\<lambda>hash.
     Inr \<lparr>sn_height = height, sn_hash = hash, sn_reorgCount = reorgCount T, sn_mempoolEpoch = mempoolEpoch T,
          sn_reconverged = mempoolReconverged T\<rparr>))"

subsection \<open>First seen\<close>

definition getFirstSeen ::
  "'d kv \<Rightarrow> btc_lib \<Rightarrow> network option \<Rightarrow> ('d, 'n) tracker \<Rightarrow> string option \<Rightarrow> error + int option" where
  "getFirstSeen K L net T address =
     rbind (addressToScript L address net) (\<lambda>script.
     reading (getOutputScriptBlock K (sha256 L script)) (confirmed T))"

definition getFirstSeenAt ::
  "'d kv \<Rightarrow> btc_lib \<Rightarrow> network option \<Rightarrow> ('d, 'n) tracker \<Rightarrow> string option \<Rightarrow> error + int option \<times> snapshot" where
  "getFirstSeenAt K L net T address =
     rbind (addressToScript L address net) (\<lambda>script.
     rbind (readCommittedSnapshot K T) (\<lambda>snap.
     rbind (reading (getOutputScriptBlock K (sha256 L script)) (confirmed T)) (\<lambda>seen.
     Inr (seen, snap))))"

subsection \<open>Unspent outputs\<close>

definition requireFullTxid :: "out_row \<Rightarrow> error + bytes" where
  "requireFullTxid r =
     (let txid = (case or_fullTxid r of None \<Rightarrow> or_txid r | Some t \<Rightarrow> t) in
      if length txid \<noteq> 32 then Inl MissingFullTxHash else Inr txid)"

definition claimConfirmedOutpoint :: "(bytes \<times> u32) set \<Rightarrow> out_row \<Rightarrow> error + bytes \<times> (bytes \<times> u32) set" where
  "claimConfirmedOutpoint keys r = rbind (requireFullTxid r) (\<lambda>txid. Inr (txid, insert (txid, or_vout r) keys))"

record query_plan =
  qp_scriptHash :: bytes
  qp_scriptPubKeyHex :: string
  qp_paged :: bool
  qp_pageLimit :: "nat option"

definition utxoQueryPlan :: "btc_lib \<Rightarrow> string option \<Rightarrow> network option \<Rightarrow> rat option \<Rightarrow> error + query_plan" where
  "utxoQueryPlan L address net limit =
     rbind (addressToScript L address net) (\<lambda>script.
     Inr \<lparr>qp_scriptHash = sha256 L script, qp_scriptPubKeyHex = uint8ArrayToHex script,
          qp_paged = (pageLimit limit \<noteq> None), qp_pageLimit = pageLimit limit\<rparr>)"

text \<open>A full page of no rows has no last row: reading its txid throws.\<close>

definition nextPageCursor :: "out_row list \<Rightarrow> bool \<Rightarrow> nat option \<Rightarrow> error + string option" where
  "nextPageCursor confirmedOutputs paged lm =
     (if paged \<and> lm = Some (length confirmedOutputs)
      then (if confirmedOutputs = [] then Inl TypeError
            else Inr (Some (printOutputCursor (or_txid (last confirmedOutputs)) (or_vout (last confirmedOutputs)))))
      else Inr None)"

record utxo =
  ut_txid :: bytes
  ut_fullTxid :: "bytes option"
  ut_vout :: u32
  ut_value :: int
  ut_height :: "int option"
  ut_coinbase :: bool
  ut_confirmations :: int
  ut_amount :: string
  ut_scriptPubKey :: string

definition confirmedUtxo :: "out_row \<Rightarrow> bytes \<Rightarrow> int \<Rightarrow> string \<Rightarrow> utxo" where
  "confirmedUtxo r txid confirmations scriptPubKeyHex =
     \<lparr>ut_txid = txid, ut_fullTxid = or_fullTxid r, ut_vout = or_vout r, ut_value = or_value r,
      ut_height = Some (or_height r), ut_coinbase = or_coinbase r, ut_confirmations = confirmations,
      ut_amount = satoshiToDecimalString (or_value r), ut_scriptPubKey = scriptPubKeyHex\<rparr>"

definition addServableConfirmedUtxo :: "('d, 'n) tracker \<Rightarrow> utxo list \<Rightarrow> out_row \<Rightarrow> bytes \<Rightarrow> string \<Rightarrow> utxo list" where
  "addServableConfirmedUtxo T results r txid scriptPubKeyHex =
     (let confirmations = blockchainInfoLastBlock T - or_height r + 1 in
      if confirmations < 0 then results
      else if or_coinbase r \<and> coinbaseMaturity T > 0 \<and> confirmations < coinbaseMaturity T then results
      else results @ [confirmedUtxo r txid confirmations scriptPubKeyHex])"

definition mempoolUtxo :: "out_row \<Rightarrow> bytes \<Rightarrow> string \<Rightarrow> utxo" where
  "mempoolUtxo r txid scriptPubKeyHex =
     \<lparr>ut_txid = txid, ut_fullTxid = or_fullTxid r, ut_vout = or_vout r, ut_value = or_value r,
      ut_height = None, ut_coinbase = or_coinbase r, ut_confirmations = 0,
      ut_amount = satoshiToDecimalString (or_value r), ut_scriptPubKey = scriptPubKeyHex\<rparr>"

definition addServableMempoolUtxo ::
  "'d kv \<Rightarrow> ('d, 'n) tracker \<Rightarrow> utxo list \<Rightarrow> out_row \<Rightarrow> (bytes \<times> u32) set \<Rightarrow> bool \<Rightarrow> string \<Rightarrow> error + utxo list"
where
  "addServableMempoolUtxo K T results r keys paged scriptPubKeyHex =
     rbind (requireFullTxid r) (\<lambda>txid.
     if (txid, or_vout r) \<in> keys then Inr results
     else rbind (if paged then reading (hasOutputForTx K txid (or_vout r)) (confirmed T) else Inr False) (\<lambda>twin.
     if twin then Inr results
     else rbind (reading (getInput K txid (or_vout r)) (mempool T)) (\<lambda>mempoolInput.
     if mempoolInput \<noteq> None then Inr results
     else Inr (results @ [mempoolUtxo r txid scriptPubKeyHex]))))"

fun confirmedLoop ::
  "'d kv \<Rightarrow> ('d, 'n) tracker \<Rightarrow> string \<Rightarrow> out_row list \<Rightarrow> (bytes \<times> u32) set \<Rightarrow> utxo list
    \<Rightarrow> error + (bytes \<times> u32) set \<times> utxo list"
where
  "confirmedLoop K T hex [] keys results = Inr (keys, results)"
| "confirmedLoop K T hex (r # rs) keys results =
     rbind (claimConfirmedOutpoint keys r) (\<lambda>(txid, keys').
     rbind (reading (getInput K txid (or_vout r)) (mempool T)) (\<lambda>mempoolInput.
     confirmedLoop K T hex rs keys'
       (if mempoolInput \<noteq> None then results else addServableConfirmedUtxo T results r txid hex)))"

fun mempoolLoop ::
  "'d kv \<Rightarrow> ('d, 'n) tracker \<Rightarrow> string \<Rightarrow> (bytes \<times> u32) set \<Rightarrow> bool \<Rightarrow> out_row list \<Rightarrow> utxo list \<Rightarrow> error + utxo list"
where
  "mempoolLoop K T hex keys paged [] results = Inr results"
| "mempoolLoop K T hex keys paged (r # rs) results =
     rbind (addServableMempoolUtxo K T results r keys paged hex) (mempoolLoop K T hex keys paged rs)"

text \<open>\<open>pg_nextCursor\<close> is there in paged mode only, and null when no row is left.\<close>

record utxo_page =
  pg_utxos :: "utxo list"
  pg_nextCursor :: "string option option"
  pg_snapshot :: snapshot

definition withNextCursor :: "utxo list \<Rightarrow> bool \<Rightarrow> string option \<Rightarrow> snapshot \<Rightarrow> utxo_page" where
  "withNextCursor results paged nextCursor snap =
     \<lparr>pg_utxos = results, pg_nextCursor = (if paged then Some nextCursor else None), pg_snapshot = snap\<rparr>"

definition readUtxosAddress ::
  "'d kv \<Rightarrow> btc_lib \<Rightarrow> network option \<Rightarrow> nat \<Rightarrow> ('d, 'n) tracker \<Rightarrow> string option \<Rightarrow> rat option \<Rightarrow> string option
    \<Rightarrow> error + utxo_page"
where
  "readUtxosAddress K L net mx T address limit after =
     rbind (utxoQueryPlan L address net limit) (\<lambda>plan.
     rbind (readCommittedSnapshot K T) (\<lambda>snap.
     rbind (reading (if qp_paged plan
         then getOutputsScriptPubKey K (qp_scriptHash plan) (map_option of_nat (qp_pageLimit plan)) after None
         else getOutputsScriptPubKey K (qp_scriptHash plan) None None (Some mx)) (confirmed T)) (\<lambda>confirmedOutputs.
     rbind (nextPageCursor confirmedOutputs (qp_paged plan) (qp_pageLimit plan)) (\<lambda>nextCursor.
     rbind (if \<not> qp_paged plan \<or> after = None
         then reading (getOutputsScriptPubKey K (qp_scriptHash plan) None None (Some mx)) (mempool T)
         else Inr []) (\<lambda>mempoolOutputs.
     rbind (confirmedLoop K T (qp_scriptPubKeyHex plan) confirmedOutputs {} []) (\<lambda>(keys, results).
     rbind (mempoolLoop K T (qp_scriptPubKeyHex plan) keys (qp_paged plan) mempoolOutputs results) (\<lambda>results'.
     Inr (withNextCursor results' (qp_paged plan) nextCursor snap))))))))"

subsection \<open>Balances\<close>

record tally =
  ta_confirmed :: int
  ta_pending :: int
  ta_received :: int
  ta_utxosConfirmed :: nat
  ta_utxosPending :: nat

fun balanceConfirmedLoop ::
  "'d kv \<Rightarrow> ('d, 'n) tracker \<Rightarrow> out_row list \<Rightarrow> (bytes \<times> u32) set \<Rightarrow> tally \<Rightarrow> error + (bytes \<times> u32) set \<times> tally"
where
  "balanceConfirmedLoop K T [] keys b = Inr (keys, b)"
| "balanceConfirmedLoop K T (r # rs) keys b =
     rbind (requireFullTxid r) (\<lambda>txid.
     rbind (reading (getInput K txid (or_vout r)) (mempool T)) (\<lambda>mempoolInput.
     balanceConfirmedLoop K T rs (insert (txid, or_vout r) keys)
       (b\<lparr>ta_received := ta_received b + or_value r,
          ta_pending := (if mempoolInput \<noteq> None then ta_pending b - or_value r else ta_pending b),
          ta_confirmed := ta_confirmed b + or_value r,
          ta_utxosConfirmed := ta_utxosConfirmed b + 1\<rparr>)))"

fun balanceMempoolLoop ::
  "'d kv \<Rightarrow> ('d, 'n) tracker \<Rightarrow> (bytes \<times> u32) set \<Rightarrow> out_row list \<Rightarrow> tally \<Rightarrow> error + tally"
where
  "balanceMempoolLoop K T keys [] b = Inr b"
| "balanceMempoolLoop K T keys (r # rs) b =
     rbind (requireFullTxid r) (\<lambda>txid.
     if (txid, or_vout r) \<in> keys then balanceMempoolLoop K T keys rs b
     else rbind (reading (getInput K txid (or_vout r)) (mempool T)) (\<lambda>mempoolInput.
       balanceMempoolLoop K T keys rs
         (if mempoolInput = None
          then b\<lparr>ta_pending := ta_pending b + or_value r, ta_utxosPending := ta_utxosPending b + 1\<rparr> else b)))"

record balance_info =
  bi_address :: "string option"
  bi_type :: string
  bi_confirmed :: string
  bi_pending :: string
  bi_received :: string
  bi_utxosConfirmed :: nat
  bi_utxosPending :: nat
  bi_snapshot :: snapshot

definition balanceInfoResult :: "btc_lib \<Rightarrow> network option \<Rightarrow> string option \<Rightarrow> tally \<Rightarrow> snapshot \<Rightarrow> balance_info" where
  "balanceInfoResult L net address b snap =
     \<lparr>bi_address = address, bi_type = addressType L (case address of None \<Rightarrow> [] | Some a \<Rightarrow> a) net,
      bi_confirmed = satoshiToDecimalString (ta_confirmed b), bi_pending = satoshiToDecimalString (ta_pending b),
      bi_received = satoshiToDecimalString (ta_received b),
      bi_utxosConfirmed = ta_utxosConfirmed b, bi_utxosPending = ta_utxosPending b, bi_snapshot = snap\<rparr>"

definition readBalanceOutputs ::
  "'d kv \<Rightarrow> nat \<Rightarrow> ('d, 'n) tracker \<Rightarrow> bytes \<Rightarrow> error + out_row list \<times> out_row list" where
  "readBalanceOutputs K mx T scriptHash =
     rbind (reading (getOutputsScriptPubKey K scriptHash None None (Some mx)) (confirmed T)) (\<lambda>confirmedOutputs.
     rbind (reading (getOutputsScriptPubKey K scriptHash None None (Some mx)) (mempool T)) (\<lambda>mempoolOutputs.
     Inr (confirmedOutputs, mempoolOutputs)))"

definition readBalanceInfo ::
  "'d kv \<Rightarrow> btc_lib \<Rightarrow> network option \<Rightarrow> nat \<Rightarrow> ('d, 'n) tracker \<Rightarrow> string option \<Rightarrow> error + balance_info" where
  "readBalanceInfo K L net mx T address =
     rbind (addressToScript L address net) (\<lambda>script.
     rbind (readCommittedSnapshot K T) (\<lambda>snap.
     rbind (readBalanceOutputs K mx T (sha256 L script)) (\<lambda>(confirmedOutputs, mempoolOutputs).
     rbind (balanceConfirmedLoop K T confirmedOutputs {}
         \<lparr>ta_confirmed = 0, ta_pending = 0, ta_received = 0, ta_utxosConfirmed = 0, ta_utxosPending = 0\<rparr>) (\<lambda>(keys, b).
     rbind (balanceMempoolLoop K T keys mempoolOutputs b) (\<lambda>b'.
     Inr (balanceInfoResult L net address b' snap))))))"

subsection \<open>What the loops compute\<close>

text \<open>A row read from a key with its txid in full, and the outpoint it is.\<close>

definition row_ok :: "out_row \<Rightarrow> bool" where
  "row_ok r \<longleftrightarrow> length (or_txid r) = 32 \<and> (or_fullTxid r = None \<or> or_fullTxid r = Some (or_txid r))"

definition row_key :: "out_row \<Rightarrow> bytes \<times> u32" where
  "row_key r = (or_txid r, or_vout r)"

definition spent_in_mempool :: "'d kv \<Rightarrow> ('d, 'n) tracker \<Rightarrow> bytes \<times> u32 \<Rightarrow> bool" where
  "spent_in_mempool K T op \<longleftrightarrow> kv_get K (db (mempool T)) (iKey (fst op) (snd op)) \<noteq> None"

definition confirmations :: "('d, 'n) tracker \<Rightarrow> int \<Rightarrow> int" where
  "confirmations T height = blockchainInfoLastBlock T - height + 1"

definition withheld :: "('d, 'n) tracker \<Rightarrow> int \<Rightarrow> bool \<Rightarrow> bool" where
  "withheld T height coinbase \<longleftrightarrow> confirmations T height < 0
     \<or> coinbase \<and> coinbaseMaturity T > 0 \<and> confirmations T height < coinbaseMaturity T"

definition confirmedServed :: "'d kv \<Rightarrow> ('d, 'n) tracker \<Rightarrow> out_row \<Rightarrow> bool" where
  "confirmedServed K T r \<longleftrightarrow> \<not> spent_in_mempool K T (row_key r) \<and> \<not> withheld T (or_height r) (or_coinbase r)"

definition hinted :: "'d kv \<Rightarrow> ('d, 'n) tracker \<Rightarrow> bytes \<times> u32 \<Rightarrow> bool" where
  "hinted K T op \<longleftrightarrow> kv_get K (db (confirmed T)) (hKey (fst op) (snd op)) \<noteq> None"

definition servedConfirmed :: "('d, 'n) tracker \<Rightarrow> string \<Rightarrow> out_row \<Rightarrow> utxo" where
  "servedConfirmed T hex r = confirmedUtxo r (or_txid r) (confirmations T (or_height r)) hex"

definition servedMempool :: "string \<Rightarrow> out_row \<Rightarrow> utxo" where
  "servedMempool hex r = mempoolUtxo r (or_txid r) hex"

lemma require_ok [simp]: "row_ok r \<Longrightarrow> requireFullTxid r = Inr (or_txid r)"
  by (auto simp: row_ok_def requireFullTxid_def)

lemma read_input [simp]:
  "row_ok r \<Longrightarrow> reading (getInput K (or_txid r) i) s = Inr (kv_get K (db s) (iKey (or_txid r) i))"
  by (simp add: row_ok_def reading_def getInput_def codec_simps)

lemma read_hint [simp]:
  "row_ok r \<Longrightarrow> reading (hasOutputForTx K (or_txid r) i) s = Inr (kv_get K (db s) (hKey (or_txid r) i) \<noteq> None)"
  by (simp add: row_ok_def reading_def hasOutputForTx_def codec_simps)

lemma confirmed_loop:
  "\<forall>r \<in> set rs. row_ok r \<Longrightarrow> confirmedLoop K T hex rs keys results
     = Inr (keys \<union> row_key ` set rs, results @ map (servedConfirmed T hex) (filter (confirmedServed K T) rs))"
  by (induction rs arbitrary: keys results)
    (auto simp: claimConfirmedOutpoint_def addServableConfirmedUtxo_def Let_def confirmedServed_def servedConfirmed_def
      spent_in_mempool_def row_key_def withheld_def confirmations_def)

lemma mempool_loop:
  "\<forall>r \<in> set rs. row_ok r \<Longrightarrow> mempoolLoop K T hex keys paged rs results
     = Inr (results @ map (servedMempool hex) (filter (\<lambda>r. row_key r \<notin> keys \<and> \<not> (paged \<and> hinted K T (row_key r))
          \<and> \<not> spent_in_mempool K T (row_key r)) rs))"
  by (induction rs arbitrary: results)
    (auto simp: addServableMempoolUtxo_def servedMempool_def spent_in_mempool_def row_key_def hinted_def)

lemma balance_confirmed_loop:
  "\<forall>r \<in> set rs. row_ok r \<Longrightarrow> balanceConfirmedLoop K T rs keys b
     = Inr (keys \<union> row_key ` set rs,
        \<lparr>ta_confirmed = ta_confirmed b + sum_list (map or_value rs),
         ta_pending = ta_pending b - sum_list (map or_value (filter (\<lambda>r. spent_in_mempool K T (row_key r)) rs)),
         ta_received = ta_received b + sum_list (map or_value rs),
         ta_utxosConfirmed = ta_utxosConfirmed b + length rs, ta_utxosPending = ta_utxosPending b\<rparr>)"
  by (induction rs arbitrary: keys b) (auto simp: spent_in_mempool_def row_key_def)

lemma balance_mempool_loop:
  "\<forall>r \<in> set rs. row_ok r \<Longrightarrow> balanceMempoolLoop K T keys rs b
     = Inr (let fresh = filter (\<lambda>r. row_key r \<notin> keys \<and> \<not> spent_in_mempool K T (row_key r)) rs in
        b\<lparr>ta_pending := ta_pending b + sum_list (map or_value fresh),
          ta_utxosPending := ta_utxosPending b + length fresh\<rparr>)"
  by (induction rs arbitrary: b) (auto simp: spent_in_mempool_def row_key_def Let_def)

subsection \<open>The rows of a script\<close>

text \<open>The txid an O value carries is the one of its key, or none.\<close>

definition txids_ok :: "'d kv \<Rightarrow> 'd \<Rightarrow> bytes \<Rightarrow> bool" where
  "txids_ok K d script \<longleftrightarrow> oscript_ok K d script \<and> (\<forall>t i v r. length t = 32 \<and> kv_get K d (oKey script t i) = Some v
     \<and> decodeOutput v = Inr r \<longrightarrow> out_t r = None \<or> out_t r = Some t)"

abbreviation script_rows :: "'d kv \<Rightarrow> 'd \<Rightarrow> bytes \<Rightarrow> out_row list" where
  "script_rows K d script \<equiv> rows (script_entries K d script)"

context leveldb begin

lemma script_row:
  assumes "txids_ok K d script" and "r \<in> set (script_rows K d script)"
  obtains t i v q where "length t = 32" "r = output_row t i q" "kv_get K d (oKey script t i) = Some v"
    "decodeOutput v = Inr q" "out_t q = None \<or> out_t q = Some t"
proof -
  obtain e where e: "e \<in> set (script_entries K d script)" "r = projr (readOutputRow e)"
    using assms(2) by (auto simp: rows_def)
  obtain t i q where f: "length t = 32" "fst e = oKey script t i" "decodeOutput (snd e) = Inr q"
    "readOutputRow e = Inr (output_row t i q)"
    using script_entry [OF _ e(1)] assms(1) unfolding txids_ok_def by blast
  have "kv_get K d (fst e) = Some (snd e)"
    using e(1) iter_mem [of "range_of (P_OUTPUT # script)" "fst e" "snd e" d] by (simp add: script_entries_def)
  then show ?thesis using that [of t i q "snd e"] e(2) f assms(1) unfolding txids_ok_def by simp
qed

lemma script_rows_ok: "txids_ok K d script \<Longrightarrow> r \<in> set (script_rows K d script) \<Longrightarrow> row_ok r"
  by (erule script_row, assumption) (auto simp: row_ok_def output_row_def)

lemma script_row_keys:
  assumes "txids_ok K d script" and "length t = 32"
  shows "(t, i) \<in> row_key ` set (script_rows K d script) \<longleftrightarrow> kv_get K d (oKey script t i) \<noteq> None"
proof
  assume "(t, i) \<in> row_key ` set (script_rows K d script)"
  then obtain r where r: "r \<in> set (script_rows K d script)" "row_key r = (t, i)" by auto
  obtain t' i' v q where "r = output_row t' i' q" "kv_get K d (oKey script t' i') = Some v"
    by (rule script_row [OF assms(1) r(1)])
  then show "kv_get K d (oKey script t i) \<noteq> None" using r(2) by (simp add: row_key_def output_row_def)
next
  assume "kv_get K d (oKey script t i) \<noteq> None"
  then obtain v where v: "kv_get K d (oKey script t i) = Some v" by auto
  have "length script = 32" using assms(1) by (simp add: txids_ok_def oscript_ok_def)
  then obtain q where "decodeOutput v = Inr q"
    using assms v unfolding txids_ok_def oscript_ok_def by (metis Cons_prefix_Cons oKey_def prefixI)
  then have "output_row t i q \<in> set (script_rows K d script)"
    using script_rows_mem assms v unfolding txids_ok_def by blast
  then show "(t, i) \<in> row_key ` set (script_rows K d script)"
    by (force simp: row_key_def output_row_def image_iff)
qed

lemma script_keys_distinct:
  assumes "txids_ok K d script"
  shows "distinct (map row_key (script_rows K d script))"
proof -
  have k: "fst e = oKey script (fst (row_key (projr (readOutputRow e)))) (snd (row_key (projr (readOutputRow e))))"
    if e: "e \<in> set (script_entries K d script)" for e
  proof -
    have "oscript_ok K d script" using assms by (simp add: txids_ok_def)
    then show ?thesis by (rule script_entry [OF _ e]) (simp add: row_key_def output_row_def)
  qed
  have d: "distinct (map fst (script_entries K d script))" by (simp add: script_entries_def iter_distinct)
  have "inj_on (\<lambda>e. row_key (projr (readOutputRow e))) (set (script_entries K d script))"
  proof (rule inj_onI)
    fix e e' assume e: "e \<in> set (script_entries K d script)" "e' \<in> set (script_entries K d script)"
      "row_key (projr (readOutputRow e)) = row_key (projr (readOutputRow e'))"
    then have "fst e = fst e'" using k [OF e(1)] k [OF e(2)] by simp
    then show "e = e'" using e(1,2) d by (auto simp: distinct_map inj_on_def)
  qed
  then show ?thesis using d unfolding rows_def map_map distinct_map by (simp add: comp_def)
qed

end

subsection \<open>What a read gives\<close>

definition stores_ok :: "'d kv \<Rightarrow> ('d, 'n) tracker \<Rightarrow> bytes \<Rightarrow> bool" where
  "stores_ok K T script \<longleftrightarrow> txids_ok K (db (confirmed T)) script \<and> txids_ok K (db (mempool T)) script"

definition servable :: "'d kv \<Rightarrow> ('d, 'n) tracker \<Rightarrow> string \<Rightarrow> out_row list \<Rightarrow> utxo list" where
  "servable K T hex rs = map (servedConfirmed T hex) (filter (confirmedServed K T) rs)"

definition freshRows :: "'d kv \<Rightarrow> ('d, 'n) tracker \<Rightarrow> bytes \<Rightarrow> out_row list" where
  "freshRows K T script = filter (\<lambda>r. row_key r \<notin> row_key ` set (script_rows K (db (confirmed T)) script)
      \<and> \<not> spent_in_mempool K T (row_key r)) (script_rows K (db (mempool T)) script)"

text \<open>What the outpoints of a reply are.\<close>

definition ut_key :: "utxo \<Rightarrow> bytes \<times> u32" where
  "ut_key u = (ut_txid u, ut_vout u)"

lemma served_keys [simp]: "ut_key (servedConfirmed T hex r) = row_key r" "ut_key (servedMempool hex r) = row_key r"
  by (simp_all add: ut_key_def row_key_def servedConfirmed_def servedMempool_def confirmedUtxo_def mempoolUtxo_def)

lemma served_key_maps:
  "map ut_key (servable K T hex rs) = map row_key (filter (confirmedServed K T) rs)"
  "map ut_key (map (servedMempool hex) ms) = map row_key ms"
  by (simp_all add: servable_def)

lemma distinct_map_filter: "distinct (map f xs) \<Longrightarrow> distinct (map f (filter P xs))"
  by (auto simp: distinct_map inj_on_def)

lemma snapshot_read: "\<exists>snap. readCommittedSnapshot K T = Inr snap"
  by (auto simp: readCommittedSnapshot_def reading_def getLastBlockHeight_def getLastBlockHash_def mbind_def split: option.splits)

context leveldb begin

lemma unpaged_read:
  assumes "addressToScript L address net = Inr script" and "stores_ok K T (sha256 L script)"
    and "length (script_entries K (db (confirmed T)) (sha256 L script)) \<le> mx"
    and "length (script_entries K (db (mempool T)) (sha256 L script)) \<le> mx"
  obtains page where "readUtxosAddress K L net mx T address None after = Inr page"
    "pg_utxos page = servable K T (uint8ArrayToHex script) (script_rows K (db (confirmed T)) (sha256 L script))
       @ map (servedMempool (uint8ArrayToHex script)) (freshRows K T (sha256 L script))"
proof -
  let ?h = "sha256 L script"
  have ok: "\<forall>r \<in> set (script_rows K (db (confirmed T)) ?h). row_ok r"
    "\<forall>r \<in> set (script_rows K (db (mempool T)) ?h). row_ok r"
    using assms(2) script_rows_ok unfolding stores_ok_def by blast+
  have o: "oscript_ok K (db (confirmed T)) ?h" "oscript_ok K (db (mempool T)) ?h"
    using assms(2) by (simp_all add: stores_ok_def txids_ok_def)
  have rd: "reading (getOutputsScriptPubKey K ?h None None (Some mx)) (confirmed T) = Inr (script_rows K (db (confirmed T)) ?h)"
    "reading (getOutputsScriptPubKey K ?h None None (Some mx)) (mempool T) = Inr (script_rows K (db (mempool T)) ?h)"
    using unbounded_read(1) [OF o(1), of mx] unbounded_read(1) [OF o(2), of mx] assms(3,4) by (simp_all add: reading_def)
  obtain snap where "readCommittedSnapshot K T = Inr snap" using snapshot_read by blast
  then show ?thesis
    using that assms(1) rd confirmed_loop [OF ok(1), where T = T] mempool_loop [OF ok(2), where T = T]
    by (simp add: readUtxosAddress_def utxoQueryPlan_def pageLimit_def nextPageCursor_def withNextCursor_def
        servable_def freshRows_def)
qed

lemma balance_read:
  assumes "addressToScript L address net = Inr script" and "stores_ok K T (sha256 L script)"
    and "length (script_entries K (db (confirmed T)) (sha256 L script)) \<le> mx"
    and "length (script_entries K (db (mempool T)) (sha256 L script)) \<le> mx"
  obtains info where "readBalanceInfo K L net mx T address = Inr info"
    "bi_confirmed info = satoshiToDecimalString (sum_list (map or_value (script_rows K (db (confirmed T)) (sha256 L script))))"
    "bi_pending info = satoshiToDecimalString (sum_list (map or_value (freshRows K T (sha256 L script)))
       - sum_list (map or_value (filter (\<lambda>r. spent_in_mempool K T (row_key r)) (script_rows K (db (confirmed T)) (sha256 L script)))))"
    "bi_utxosConfirmed info = length (script_rows K (db (confirmed T)) (sha256 L script))"
    "bi_utxosPending info = length (freshRows K T (sha256 L script))"
proof -
  let ?h = "sha256 L script"
  have ok: "\<forall>r \<in> set (script_rows K (db (confirmed T)) ?h). row_ok r"
    "\<forall>r \<in> set (script_rows K (db (mempool T)) ?h). row_ok r"
    using assms(2) script_rows_ok unfolding stores_ok_def by blast+
  have o: "oscript_ok K (db (confirmed T)) ?h" "oscript_ok K (db (mempool T)) ?h"
    using assms(2) by (simp_all add: stores_ok_def txids_ok_def)
  have rd: "readBalanceOutputs K mx T ?h = Inr (script_rows K (db (confirmed T)) ?h, script_rows K (db (mempool T)) ?h)"
    using unbounded_read(1) [OF o(1), of mx] unbounded_read(1) [OF o(2), of mx] assms(3,4)
    by (simp add: reading_def readBalanceOutputs_def)
  obtain snap where "readCommittedSnapshot K T = Inr snap" using snapshot_read by blast
  then show ?thesis
    using that assms(1) rd balance_confirmed_loop [OF ok(1), where T = T] balance_mempool_loop [OF ok(2), where T = T]
    by (simp add: readBalanceInfo_def balanceInfoResult_def freshRows_def Let_def)
qed

lemma served_confirmed_iff:
  assumes "txids_ok K (db (confirmed T)) script" and "length t = 32"
  shows "(t, i) \<in> set (map row_key (filter (confirmedServed K T) (script_rows K (db (confirmed T)) script)))
    \<longleftrightarrow> \<not> spent_in_mempool K T (t, i) \<and> (\<exists>v r. kv_get K (db (confirmed T)) (oKey script t i) = Some v
          \<and> decodeOutput v = Inr r \<and> \<not> withheld T (out_h r) (out_cb r))" (is "?l \<longleftrightarrow> ?r")
proof
  assume ?l
  then obtain x where x: "x \<in> set (script_rows K (db (confirmed T)) script)" "confirmedServed K T x" "row_key x = (t, i)"
    by auto
  obtain t' i' v q where "x = output_row t' i' q" "kv_get K (db (confirmed T)) (oKey script t' i') = Some v" "decodeOutput v = Inr q"
    by (rule script_row [OF assms(1) x(1)])
  then show ?r using x(2,3) by (auto simp: confirmedServed_def output_row_def row_key_def)
next
  assume ?r
  then obtain v r where "\<not> spent_in_mempool K T (t, i)" "kv_get K (db (confirmed T)) (oKey script t i) = Some v"
    "decodeOutput v = Inr r" "\<not> withheld T (out_h r) (out_cb r)" by blast
  moreover from this have "output_row t i r \<in> set (script_rows K (db (confirmed T)) script)"
    using script_rows_mem assms unfolding txids_ok_def by blast
  ultimately show ?l by (auto simp: confirmedServed_def output_row_def row_key_def image_iff intro!: bexI [of _ "output_row t i r"])
qed

lemma served_fresh_iff:
  assumes "stores_ok K T script" and "length t = 32"
  shows "(t, i) \<in> set (map row_key (freshRows K T script)) \<longleftrightarrow> \<not> spent_in_mempool K T (t, i)
    \<and> kv_get K (db (confirmed T)) (oKey script t i) = None \<and> kv_get K (db (mempool T)) (oKey script t i) \<noteq> None"
proof -
  have "(t, i) \<in> row_key ` set (freshRows K T script) \<longleftrightarrow> (t, i) \<in> row_key ` set (script_rows K (db (mempool T)) script)
    \<and> (t, i) \<notin> row_key ` set (script_rows K (db (confirmed T)) script) \<and> \<not> spent_in_mempool K T (t, i)"
    unfolding freshRows_def by (auto simp: image_iff)
  then show ?thesis using assms script_row_keys [OF _ assms(2)] by (auto simp: stores_ok_def)
qed

lemma served_distinct:
  assumes "stores_ok K T script"
  shows "distinct (map row_key (filter (confirmedServed K T) (script_rows K (db (confirmed T)) script)) @ map row_key (freshRows K T script))"
  using script_keys_distinct assms unfolding stores_ok_def freshRows_def distinct_append
  by (auto intro!: distinct_map_filter)

end

subsection \<open>Following the cursors\<close>

text \<open>
  A client that asks for the next page until none is left; \<open>None\<close> when it runs out of fuel or a
  page throws. The hint of a mempool outpoint in the confirmed store is there exactly when its
  output record is.
\<close>

fun followPages ::
  "nat \<Rightarrow> 'd kv \<Rightarrow> btc_lib \<Rightarrow> network option \<Rightarrow> nat \<Rightarrow> ('d, 'n) tracker \<Rightarrow> string option \<Rightarrow> rat option
    \<Rightarrow> string option \<Rightarrow> utxo list option"
where
  "followPages 0 K L net mx T address limit after = None"
| "followPages (Suc fuel) K L net mx T address limit after =
     (case readUtxosAddress K L net mx T address limit after of
        Inl e \<Rightarrow> None
      | Inr page \<Rightarrow> (case pg_nextCursor page of
            Some (Some c) \<Rightarrow> (case followPages fuel K L net mx T address limit (Some c) of
                None \<Rightarrow> None
              | Some rest \<Rightarrow> Some (pg_utxos page @ rest))
          | _ \<Rightarrow> Some (pg_utxos page)))"

definition hints_agree :: "'d kv \<Rightarrow> ('d, 'n) tracker \<Rightarrow> bytes \<Rightarrow> bool" where
  "hints_agree K T script \<longleftrightarrow> (\<forall>t i. length t = 32 \<and> kv_get K (db (mempool T)) (oKey script t i) \<noteq> None
     \<longrightarrow> hinted K T (t, i) = (kv_get K (db (confirmed T)) (oKey script t i) \<noteq> None))"

definition cursorAfter :: "nat \<Rightarrow> (bytes \<times> bytes) list \<Rightarrow> string option" where
  "cursorAfter n es = (if length es = n then Some (row_cursor (projr (readOutputRow (last es)))) else None)"

lemma next_page_cursor:
  "n > 0 \<Longrightarrow> nextPageCursor (rows es) True (Some n) = Inr (cursorAfter n es)"
  by (auto simp: nextPageCursor_def cursorAfter_def row_cursor_def rows_def last_map)

lemma page_limit_nat: "pageLimit limit = Some n \<Longrightarrow> n > 0 \<Longrightarrow> pageLimit (Some (of_nat n)) = Some n"
  by (simp add: pageLimit_def)

lemma servable_append [simp]: "servable K T hex (rows (es @ fs)) = servable K T hex (rows es) @ servable K T hex (rows fs)"
  by (simp add: servable_def rows_def)

context leveldb begin

lemma rows_subset_ok:
  "txids_ok K d script \<Longrightarrow> set es \<subseteq> set (script_entries K d script) \<Longrightarrow> \<forall>r \<in> set (rows es). row_ok r"
  using script_rows_ok [of d script] by (auto simp: rows_def)

lemma paged_next:
  assumes a: "addressToScript L address net = Inr script" and ok: "stores_ok K T (sha256 L script)"
    and lim: "pageLimit limit = Some n" "n > 0"
    and es: "script_entries K (db (confirmed T)) (sha256 L script) = xs @ e # ys"
  obtains page where "readUtxosAddress K L net mx T address limit (Some (row_cursor (projr (readOutputRow e)))) = Inr page"
    "pg_utxos page = servable K T (uint8ArrayToHex script) (rows (take n ys))"
    "pg_nextCursor page = Some (cursorAfter n (take n ys))"
proof -
  let ?h = "sha256 L script"
  have o: "oscript_ok K (db (confirmed T)) ?h" using ok by (simp add: stores_ok_def txids_ok_def)
  have r: "reading (getOutputsScriptPubKey K ?h (Some (of_nat n)) (Some (row_cursor (projr (readOutputRow e)))) None) (confirmed T)
      = Inr (rows (take n ys))"
    using next_page [OF o page_limit_nat [OF lim] es] by (simp add: reading_def)
  have "set (take n ys) \<subseteq> set (script_entries K (db (confirmed T)) ?h)" using es by (auto dest: in_set_takeD)
  then have k: "\<forall>r \<in> set (rows (take n ys)). row_ok r" using ok rows_subset_ok unfolding stores_ok_def by blast
  obtain snap where "readCommittedSnapshot K T = Inr snap" using snapshot_read by blast
  then show ?thesis
    using that a r lim confirmed_loop [OF k, where T = T] next_page_cursor [OF lim(2)]
    by (simp add: readUtxosAddress_def utxoQueryPlan_def withNextCursor_def servable_def)
qed

lemma paged_first:
  assumes a: "addressToScript L address net = Inr script" and ok: "stores_ok K T (sha256 L script)"
    and lim: "pageLimit limit = Some n" "n > 0" and hint: "hints_agree K T (sha256 L script)"
    and mx: "length (script_entries K (db (mempool T)) (sha256 L script)) \<le> mx"
  obtains page where "readUtxosAddress K L net mx T address limit None = Inr page"
    "pg_utxos page = servable K T (uint8ArrayToHex script) (rows (take n (script_entries K (db (confirmed T)) (sha256 L script))))
       @ map (servedMempool (uint8ArrayToHex script)) (freshRows K T (sha256 L script))"
    "pg_nextCursor page = Some (cursorAfter n (take n (script_entries K (db (confirmed T)) (sha256 L script))))"
proof -
  let ?h = "sha256 L script" and ?es = "script_entries K (db (confirmed T)) (sha256 L script)"
  have o: "oscript_ok K (db (confirmed T)) ?h" "oscript_ok K (db (mempool T)) ?h"
    using ok by (simp_all add: stores_ok_def txids_ok_def)
  have t: "txids_ok K (db (confirmed T)) ?h" "txids_ok K (db (mempool T)) ?h" using ok by (simp_all add: stores_ok_def)
  have r: "reading (getOutputsScriptPubKey K ?h (Some (of_nat n)) None None) (confirmed T) = Inr (rows (take n ?es))"
    "reading (getOutputsScriptPubKey K ?h None None (Some mx)) (mempool T) = Inr (script_rows K (db (mempool T)) ?h)"
    using first_page [OF o(1) page_limit_nat [OF lim]] unbounded_read(1) [OF o(2), of mx] mx by (simp_all add: reading_def)
  have k: "\<forall>r \<in> set (rows (take n ?es)). row_ok r" "\<forall>r \<in> set (script_rows K (db (mempool T)) ?h). row_ok r"
    using rows_subset_ok [OF t(1)] rows_subset_ok [OF t(2)] by (auto dest: in_set_takeD)
  have "hinted K T (row_key r) \<longleftrightarrow> row_key r \<in> row_key ` set (script_rows K (db (confirmed T)) ?h)"
    if "r \<in> set (script_rows K (db (mempool T)) ?h)" for r
  proof -
    have l: "length (or_txid r) = 32" using k(2) that by (simp add: row_ok_def)
    have "(or_txid r, or_vout r) \<in> row_key ` set (script_rows K (db (mempool T)) ?h)" using that by (auto simp: row_key_def)
    then show ?thesis using l hint script_row_keys [OF t(1) l, of "or_vout r"] script_row_keys [OF t(2) l, of "or_vout r"]
      by (simp add: row_key_def hints_agree_def)
  qed
  moreover have "row_key ` set (rows (take n ?es)) \<subseteq> row_key ` set (rows ?es)" by (auto simp: rows_def dest: in_set_takeD)
  ultimately have f: "filter (\<lambda>r. row_key r \<notin> row_key ` set (rows (take n ?es)) \<and> \<not> hinted K T (row_key r)
      \<and> \<not> spent_in_mempool K T (row_key r)) (script_rows K (db (mempool T)) ?h) = freshRows K T ?h"
    unfolding freshRows_def by (intro filter_cong) auto
  obtain snap where "readCommittedSnapshot K T = Inr snap" using snapshot_read by blast
  then show ?thesis
    using that a r lim f confirmed_loop [OF k(1), where T = T] mempool_loop [OF k(2), where T = T] next_page_cursor [OF lim(2)]
    by (simp add: readUtxosAddress_def utxoQueryPlan_def withNextCursor_def servable_def)
qed

lemma follow_rest:
  assumes a: "addressToScript L address net = Inr script" and ok: "stores_ok K T (sha256 L script)"
    and lim: "pageLimit limit = Some n" "n > 0"
  shows "script_entries K (db (confirmed T)) (sha256 L script) = xs @ e # ys \<Longrightarrow> length ys < fuel
    \<Longrightarrow> followPages fuel K L net mx T address limit (Some (row_cursor (projr (readOutputRow e))))
      = Some (servable K T (uint8ArrayToHex script) (rows ys))"
proof (induction fuel arbitrary: xs e ys)
  case 0
  then show ?case by simp
next
  case (Suc fuel)
  obtain page where p: "readUtxosAddress K L net mx T address limit (Some (row_cursor (projr (readOutputRow e)))) = Inr page"
    "pg_utxos page = servable K T (uint8ArrayToHex script) (rows (take n ys))"
    "pg_nextCursor page = Some (cursorAfter n (take n ys))"
    by (rule paged_next [OF a ok lim Suc.prems(1)])
  show ?case
  proof (cases "n \<le> length ys")
    case False
    then show ?thesis using p by (simp add: cursorAfter_def)
  next
    case True
    let ?t = "take n ys"
    have t: "?t \<noteq> []" "length ?t = n" using True lim(2) by auto
    have "xs @ e # ys = (xs @ e # butlast ?t) @ last ?t # drop n ys"
      using append_butlast_last_id [OF t(1)] by (metis append.assoc append_Cons append_Nil append_take_drop_id)
    then have "followPages fuel K L net mx T address limit (Some (row_cursor (projr (readOutputRow (last ?t)))))
        = Some (servable K T (uint8ArrayToHex script) (rows (drop n ys)))"
      using Suc.prems lim(2) True by (intro Suc.IH [of "xs @ e # butlast ?t"]) simp_all
    then show ?thesis using p t servable_append [of K T "uint8ArrayToHex script" ?t "drop n ys"]
      by (simp add: cursorAfter_def)
  qed
qed

end

subsection \<open>Properties\<close>

lemma undec_append: "undec (xs @ ys) = undec xs * 10 ^ length ys + undec ys"
proof (induction ys rule: rev_induct)
  case (snoc y ys)
  then show ?case using undec_snoc [of "xs @ ys" y] undec_snoc [of ys y] by (simp add: algebra_simps)
qed (simp add: undec_def)

lemma undec_zeros [simp]: "undec (replicate n (CHR ''0'') @ ys) = undec ys"
  by (induction n) (simp_all add: undec_def)

lemma length_dec: "n < 10 ^ k \<Longrightarrow> 0 < k \<Longrightarrow> length (dec n) \<le> k"
proof (induction n arbitrary: k rule: dec.induct)
  case (1 n)
  show ?case
  proof (cases "n < 10")
    case True
    then show ?thesis using 1(3) by (subst dec.simps) simp
  next
    case False
    obtain j where k: "k = Suc j" using 1(3) by (cases k) auto
    then have "n div 10 < 10 ^ j" using 1(2) by (simp add: div_less_iff_less_mult mult.commute)
    moreover have "j \<noteq> 0" using False 1(2) k by (cases j) auto
    ultimately have "length (dec (n div 10)) \<le> j" using 1(1) [OF False, of j] by simp
    then show ?thesis using False k by (subst dec.simps) simp
  qed
qed

lemma pad_dec:
  assumes "n < 10 ^ k" and "0 < k"
  shows "length (padStart k (CHR ''0'') (dec n)) = k" and "undec (padStart k (CHR ''0'') (dec n)) = n"
    and "list_all is_digit (padStart k (CHR ''0'') (dec n))"
  using length_dec [OF assms] dec_digits [of n] by (simp_all add: padStart_def list_all_length nth_append is_digit_def)

text \<open>
  C31. An amount is printed exactly: a minus sign when negative, whole coins without padding, a point
  and eight decimals, and the digits read without the point are the satoshis.
\<close>

theorem amount_string_exact:
  "\<exists>whole frac. satoshiToDecimalString v = (if v < 0 then ''-'' else []) @ whole @ ''.'' @ frac
     \<and> whole = dec (undec whole) \<and> length frac = 8 \<and> list_all is_digit (whole @ frac) \<and> int (undec (whole @ frac)) = \<bar>v\<bar>"
proof (intro exI conjI)
  let ?w = "nat (\<bar>v\<bar> div 100000000)" and ?f = "nat (\<bar>v\<bar> mod 100000000)"
  let ?whole = "dec ?w" and ?frac = "padStart 8 (CHR ''0'') (dec ?f)"
  have f: "?f < 10 ^ 8" by simp
  show "satoshiToDecimalString v = (if v < 0 then ''-'' else []) @ ?whole @ ''.'' @ ?frac"
    by (simp add: satoshiToDecimalString_def Let_def)
  show "length ?frac = 8" "list_all is_digit (?whole @ ?frac)" using pad_dec [OF f] dec_digits by simp_all
  have "int (undec (?whole @ ?frac)) = int ?w * 100000000 + int ?f"
    using pad_dec [OF f] by (simp add: undec_append)
  also have "\<dots> = \<bar>v\<bar>" by (simp add: pos_imp_zdiv_nonneg_iff)
  finally show "int (undec (?whole @ ?frac)) = \<bar>v\<bar>" .
qed simp

text \<open>
  C2. What \<open>get_utxos\<close> serves, read in one go: no outpoint twice, and exactly the outpoints that no
  mempool transaction spends and that are either in the confirmed store, with a block the node's
  tip has reached and, for a coinbase, enough confirmations, or in the mempool store only.
\<close>

theorem utxos_exact:
  assumes "leveldb K" and "addressToScript L address net = Inr script" and "stores_ok K T (sha256 L script)"
    and "length (script_entries K (db (confirmed T)) (sha256 L script)) \<le> mx"
    and "length (script_entries K (db (mempool T)) (sha256 L script)) \<le> mx"
  shows "\<exists>page. readUtxosAddress K L net mx T address None after = Inr page \<and> distinct (map ut_key (pg_utxos page))
    \<and> (\<forall>t i. length t = 32 \<longrightarrow> (t, i) \<in> set (map ut_key (pg_utxos page)) \<longleftrightarrow> \<not> spent_in_mempool K T (t, i) \<and>
        (case kv_get K (db (confirmed T)) (oKey (sha256 L script) t i) of
           Some v \<Rightarrow> \<exists>r. decodeOutput v = Inr r \<and> \<not> withheld T (out_h r) (out_cb r)
         | None \<Rightarrow> kv_get K (db (mempool T)) (oKey (sha256 L script) t i) \<noteq> None))"
proof -
  note db = assms(1)
  let ?h = "sha256 L script" and ?hex = "uint8ArrayToHex script"
  have tc: "txids_ok K (db (confirmed T)) ?h" and tm: "txids_ok K (db (mempool T)) ?h"
    using assms(3) by (simp_all add: stores_ok_def)
  obtain page where p: "readUtxosAddress K L net mx T address None after = Inr page"
    "pg_utxos page = servable K T ?hex (script_rows K (db (confirmed T)) ?h) @ map (servedMempool ?hex) (freshRows K T ?h)"
    by (rule leveldb.unpaged_read [OF db assms(2-5)])
  have keys: "map ut_key (pg_utxos page) = map row_key (filter (confirmedServed K T) (script_rows K (db (confirmed T)) ?h))
      @ map row_key (freshRows K T ?h)"
    by (simp only: p(2) map_append served_key_maps)
  have served: "(t, i) \<in> set (map ut_key (pg_utxos page)) \<longleftrightarrow> \<not> spent_in_mempool K T (t, i) \<and>
      (case kv_get K (db (confirmed T)) (oKey ?h t i) of
         Some v \<Rightarrow> \<exists>r. decodeOutput v = Inr r \<and> \<not> withheld T (out_h r) (out_cb r)
       | None \<Rightarrow> kv_get K (db (mempool T)) (oKey ?h t i) \<noteq> None)" if t: "length t = 32" for t i
    using leveldb.served_confirmed_iff [OF db tc t] leveldb.served_fresh_iff [OF db assms(3) t]
    by (simp only: keys set_append Un_iff) (auto split: option.splits)
  have "distinct (map ut_key (pg_utxos page))"
    using leveldb.served_distinct [OF db assms(3)] by (simp only: keys)
  then show ?thesis using p(1) served by (intro exI [of _ page] conjI allI impI)
qed

text \<open>
  C11. The two endpoints agree: for one state of the stores, the confirmed and the pending balance of
  \<open>get_info\<close> are the printed numbers \<open>c\<close> and \<open>p\<close>, \<open>c\<close> is the value of the script's confirmed
  outputs, and \<open>c + p\<close> is the value of everything \<open>get_utxos\<close> serves and of the unspent outputs it
  withholds (immature coinbases and outputs above the node's known tip).
\<close>

theorem balances_match_utxos:
  assumes "leveldb K" and "addressToScript L address net = Inr script" and "stores_ok K T (sha256 L script)"
    and "length (script_entries K (db (confirmed T)) (sha256 L script)) \<le> mx"
    and "length (script_entries K (db (mempool T)) (sha256 L script)) \<le> mx"
  shows "\<exists>page info c p. readUtxosAddress K L net mx T address None after = Inr page
    \<and> readBalanceInfo K L net mx T address = Inr info
    \<and> bi_confirmed info = satoshiToDecimalString c \<and> bi_pending info = satoshiToDecimalString p
    \<and> c = sum_list (map or_value (script_rows K (db (confirmed T)) (sha256 L script)))
    \<and> c + p = sum_list (map ut_value (pg_utxos page))
        + sum_list (map or_value (filter (\<lambda>r. \<not> spent_in_mempool K T (row_key r) \<and> withheld T (or_height r) (or_coinbase r))
            (script_rows K (db (confirmed T)) (sha256 L script))))"
proof -
  let ?h = "sha256 L script" and ?hex = "uint8ArrayToHex script"
  let ?rs = "script_rows K (db (confirmed T)) ?h" and ?fs = "freshRows K T ?h"
  obtain page where p: "readUtxosAddress K L net mx T address None after = Inr page"
    "pg_utxos page = servable K T ?hex ?rs @ map (servedMempool ?hex) ?fs"
    by (rule leveldb.unpaged_read [OF assms])
  obtain info where i: "readBalanceInfo K L net mx T address = Inr info"
    "bi_confirmed info = satoshiToDecimalString (sum_list (map or_value ?rs))"
    "bi_pending info = satoshiToDecimalString (sum_list (map or_value ?fs)
       - sum_list (map or_value (filter (\<lambda>r. spent_in_mempool K T (row_key r)) ?rs)))"
    by (rule leveldb.balance_read [OF assms])
  have v: "ut_value (servedConfirmed T ?hex r) = or_value r" "ut_value (servedMempool ?hex r) = or_value r" for r
    by (simp_all add: servedConfirmed_def servedMempool_def confirmedUtxo_def mempoolUtxo_def)
  have "sum_list (map or_value rs) - sum_list (map or_value (filter (\<lambda>r. spent_in_mempool K T (row_key r)) rs))
      = sum_list (map ut_value (servable K T ?hex rs))
        + sum_list (map or_value (filter (\<lambda>r. \<not> spent_in_mempool K T (row_key r) \<and> withheld T (or_height r) (or_coinbase r)) rs))" for rs
    by (induction rs) (auto simp: servable_def v confirmedServed_def)
  moreover have "sum_list (map ut_value (map (servedMempool ?hex) ms)) = sum_list (map or_value ms)" for ms
    by (induction ms) (simp_all add: v)
  ultimately show ?thesis using p i by (intro exI conjI) (assumption | rule refl | simp)+
qed

text \<open>
  C12. Paging loses and repeats nothing: while the stores stand still, a client that follows the
  cursors with any positive page size gets, over all its pages, the very entries of the unpaged
  reply, after at most one page per confirmed output and one more.
\<close>

theorem pages_equal_unpaged:
  assumes "leveldb K" and "addressToScript L address net = Inr script" and "stores_ok K T (sha256 L script)"
    and "length (script_entries K (db (confirmed T)) (sha256 L script)) \<le> mx"
    and "length (script_entries K (db (mempool T)) (sha256 L script)) \<le> mx"
    and "hints_agree K T (sha256 L script)" and "pageLimit limit = Some n" and "n > 0"
    and "length (script_entries K (db (confirmed T)) (sha256 L script)) < fuel"
  shows "\<exists>page utxos. readUtxosAddress K L net mx T address None None = Inr page
    \<and> followPages fuel K L net mx T address limit None = Some utxos \<and> mset utxos = mset (pg_utxos page)"
proof -
  let ?h = "sha256 L script" and ?hex = "uint8ArrayToHex script"
  let ?es = "script_entries K (db (confirmed T)) ?h"
  let ?t = "take n ?es"
  obtain whole where w: "readUtxosAddress K L net mx T address None None = Inr whole"
    "pg_utxos whole = servable K T ?hex (rows ?es) @ map (servedMempool ?hex) (freshRows K T ?h)"
    by (rule leveldb.unpaged_read [OF assms(1-5)])
  obtain page where p: "readUtxosAddress K L net mx T address limit None = Inr page"
    "pg_utxos page = servable K T ?hex (rows ?t) @ map (servedMempool ?hex) (freshRows K T ?h)"
    "pg_nextCursor page = Some (cursorAfter n ?t)"
    by (rule leveldb.paged_first [OF assms(1-3,7,8,6,5)])
  obtain f where f: "fuel = Suc f" "length ?es \<le> f" using assms(9) by (cases fuel) auto
  have "\<exists>utxos. followPages fuel K L net mx T address limit None = Some utxos \<and> mset utxos = mset (pg_utxos whole)"
  proof (cases "n \<le> length ?es")
    case False
    then show ?thesis using p w f by (simp add: cursorAfter_def)
  next
    case True
    have t: "?t \<noteq> []" "length ?t = n" using True assms(8) by auto
    have "?es = butlast ?t @ last ?t # drop n ?es"
      using append_butlast_last_id [OF t(1)] by (metis append.assoc append_Cons append_Nil append_take_drop_id)
    then have "followPages f K L net mx T address limit (Some (row_cursor (projr (readOutputRow (last ?t)))))
        = Some (servable K T ?hex (rows (drop n ?es)))"
      using f(2) t(2) assms(8) True by (intro leveldb.follow_rest [OF assms(1-3,7,8)]) simp_all
    moreover have whole: "pg_utxos whole = servable K T ?hex (rows ?t) @ servable K T ?hex (rows (drop n ?es))
        @ map (servedMempool ?hex) (freshRows K T ?h)"
      using w(2) servable_append [of K T ?hex ?t "drop n ?es"] by simp
    moreover have "cursorAfter n ?t = Some (row_cursor (projr (readOutputRow (last ?t))))"
      by (simp only: cursorAfter_def t(2) if_True simp_thms)
    ultimately have "followPages fuel K L net mx T address limit None
        = Some (pg_utxos page @ servable K T ?hex (rows (drop n ?es)))" using p(1,3) f(1) by simp
    moreover have "mset (pg_utxos page @ servable K T ?hex (rows (drop n ?es))) = mset (pg_utxos whole)"
      by (simp only: p(2) whole mset_append ac_simps)
    ultimately show ?thesis by blast
  qed
  then show ?thesis using w(1) by blast
qed

subsection \<open>An address with confirmed, spent and pending outputs\<close>

definition ex_address_lib :: btc_lib where
  "ex_address_lib = \<lparr>toOutputScript = (\<lambda>a net. if a = ''addr'' then Inr [0x51] else Inl ''bad''),
     fromBase58Check = (\<lambda>_. None), toBase58Check = (\<lambda>_ _. []), sha256 = (\<lambda>_. replicate 32 5), addressType = (\<lambda>_ _. ''p2sh'')\<rparr>"

definition ex_value :: "byte \<Rightarrow> byte \<Rightarrow> bytes" where
  "ex_value v b = be 8 (unat v) @ be 4 10 @ replicate 32 b"

definition ex_queried :: "(ref_db, unit) tracker" where
  "ex_queried = (newTracker
     \<lparr>stat = resetCaches, db = \<lparr>ref_entries = [(oKey (replicate 32 5) (replicate 32 1) 0, ex_value 70 1), (hKey (replicate 32 1) 0, replicate 32 5),
        (oKey (replicate 32 5) (replicate 32 2) 0, ex_value 30 2), (hKey (replicate 32 2) 0, replicate 32 5)], ref_left = 9\<rparr>,
      transactionArray = None, deletedTransactionArray = None\<rparr>
     \<lparr>stat = resetCaches, db = \<lparr>ref_entries = [(oKey (replicate 32 5) (replicate 32 3) 1, ex_value 25 3), (iKey (replicate 32 2) 0, replicate 32 3)], ref_left = 9\<rparr>,
      transactionArray = None, deletedTransactionArray = None\<rparr> () 100 100 False True 0)\<lparr>blockchainInfoLastBlock := 150\<rparr>"

lemma ex_value_decodes: "decodeOutput (ex_value v b) = Inr (output_norm (uint v, Some 10, Some (replicate 32 b), False))"
proof (rule decode_encode_output)
  have "uint v < 256" using unsigned_less [of v, where ?'a = int] by simp
  then show "encodeOutput (uint v) (Some 10) (Some (replicate 32 b)) False = Inr (ex_value v b)"
    by (simp add: encodeOutput_def writeBigUInt64BE_def writeInt32BE_def ex_value_def flip: unat_eq_nat_uint)
qed

lemma ex_queried_stores:
  "kv_get ref_kv (db (confirmed ex_queried)) = map_of [(oKey (replicate 32 5) (replicate 32 1) 0, ex_value 70 1), (hKey (replicate 32 1) 0, replicate 32 5),
     (oKey (replicate 32 5) (replicate 32 2) 0, ex_value 30 2), (hKey (replicate 32 2) 0, replicate 32 5)]"
  "kv_get ref_kv (db (mempool ex_queried)) = map_of [(oKey (replicate 32 5) (replicate 32 3) 1, ex_value 25 3), (iKey (replicate 32 2) 0, replicate 32 3)]"
  by (simp_all add: ex_queried_def newTracker_def ref_get_def)

lemmas ex_queried_gets = ex_queried_stores [unfolded ref_kv_simps]

lemma script_prefix_only: "\<not> prefix (P_OUTPUT # s) (hKey t i)" "\<not> prefix (P_OUTPUT # s) (iKey t i)"
  by (auto simp: hKey_def iKey_def prefix_defs)

lemma zero_hash_not: "b \<noteq> 0 \<Longrightarrow> replicate 32 b \<noteq> (ZERO_HASH :: bytes)"
  by (simp add: ZERO_HASH_def replicate_eq_replicate)

lemma ex_output_t: "b \<noteq> 0 \<Longrightarrow> out_t (output_norm (v, h, Some (replicate 32 b), c)) = Some (replicate 32 b)"
  by (simp add: output_norm_def stored_txid_def zero_hash_not)

lemma ex_queried_ok: "stores_ok ref_kv ex_queried (replicate 32 5)" "hints_agree ref_kv ex_queried (replicate 32 5)"
proof -
  show "stores_ok ref_kv ex_queried (replicate 32 5)"
    unfolding stores_ok_def txids_ok_def oscript_ok_def ex_queried_stores
    by (auto simp: script_prefix_only ex_value_decodes ex_output_t split: if_splits)
  show "hints_agree ref_kv ex_queried (replicate 32 5)"
    unfolding hints_agree_def hinted_def ex_queried_stores by (auto simp: replicate_eq_replicate split: if_splits)
qed

lemma ref_scan_short: "length (script_entries ref_kv d s) \<le> length (ref_entries d)"
proof -
  have "length (filter P (sort (remdups (map fst (ref_entries d))))) \<le> length (ref_entries d)" for P
    using length_filter_le [of P "sort (remdups (map fst (ref_entries d)))"] length_remdups_leq [of "map fst (ref_entries d)"]
    by simp
  then show ?thesis by (simp add: script_entries_def ref_iter_def Let_def range_of_def)
qed

lemma ex_queried_small:
  "length (script_entries ref_kv (db (confirmed ex_queried)) s) \<le> 4" "length (script_entries ref_kv (db (mempool ex_queried)) s) \<le> 4"
  using ref_scan_short [of "db (confirmed ex_queried)" s] ref_scan_short [of "db (mempool ex_queried)" s]
  by (simp_all add: ex_queried_def newTracker_def)

lemma ex_queried_fits:
  "length (script_entries ref_kv (db (confirmed ex_queried)) s) \<le> 10" "length (script_entries ref_kv (db (mempool ex_queried)) s) \<le> 10"
  using ex_queried_small [of s] by simp_all

lemma ex_withheld: "withheld ex_queried (out_h (output_norm (v, Some 10, t, False))) (out_cb (output_norm (v, Some 10, t, False))) = False"
  by (simp add: withheld_def confirmations_def output_norm_def ex_queried_def newTracker_def)

lemma ex_address: "addressToScript ex_address_lib (Some ''addr'') None = Inr [0x51]" "sha256 ex_address_lib [0x51] = replicate 32 5"
  by (simp_all add: addressToScript_def decodeAddressScript_def ex_address_lib_def)

theorem utxos_exact_witness:
  "\<exists>page. readUtxosAddress ref_kv ex_address_lib None 10 ex_queried (Some ''addr'') None None = Inr page
     \<and> (replicate 32 1, 0) \<in> set (map ut_key (pg_utxos page)) \<and> (replicate 32 2, 0) \<notin> set (map ut_key (pg_utxos page))
     \<and> (replicate 32 3, 1) \<in> set (map ut_key (pg_utxos page))"
proof -
  obtain page where p: "readUtxosAddress ref_kv ex_address_lib None 10 ex_queried (Some ''addr'') None None = Inr page"
    and k: "\<And>t i. length t = 32 \<Longrightarrow> (t, i) \<in> set (map ut_key (pg_utxos page)) \<longleftrightarrow> \<not> spent_in_mempool ref_kv ex_queried (t, i) \<and>
        (case kv_get ref_kv (db (confirmed ex_queried)) (oKey (replicate 32 5) t i) of
           Some v \<Rightarrow> \<exists>r. decodeOutput v = Inr r \<and> \<not> withheld ex_queried (out_h r) (out_cb r)
         | None \<Rightarrow> kv_get ref_kv (db (mempool ex_queried)) (oKey (replicate 32 5) t i) \<noteq> None)"
    using utxos_exact [OF leveldb_ref_kv ex_address(1), of ex_queried 10 None, unfolded ex_address,
      OF ex_queried_ok(1) ex_queried_fits] by blast
  have "(replicate 32 1, 0) \<in> set (map ut_key (pg_utxos page))" "(replicate 32 2, 0) \<notin> set (map ut_key (pg_utxos page))"
    "(replicate 32 3, 1) \<in> set (map ut_key (pg_utxos page))"
    by (subst k; simp add: spent_in_mempool_def ex_queried_gets replicate_eq_replicate ex_value_decodes ex_withheld)+
  then show ?thesis using p by blast
qed

theorem balances_match_utxos_witness:
  "\<exists>info. readBalanceInfo ref_kv ex_address_lib None 10 ex_queried (Some ''addr'') = Inr info"
  using balances_match_utxos [OF leveldb_ref_kv ex_address(1), of ex_queried 10 None] ex_queried_ok ex_queried_small [of "replicate 32 5"]
  by (auto simp: ex_address)

theorem pages_equal_unpaged_witness:
  "\<exists>page utxos. readUtxosAddress ref_kv ex_address_lib None 10 ex_queried (Some ''addr'') None None = Inr page
    \<and> followPages 5 ref_kv ex_address_lib None 10 ex_queried (Some ''addr'') (Some 1) None = Some utxos
    \<and> mset utxos = mset (pg_utxos page)"
  using ex_queried_ok ex_queried_small [of "replicate 32 5"]
  by (intro pages_equal_unpaged [OF leveldb_ref_kv ex_address(1), where n = 1]) (simp_all add: ex_address pageLimit_def)

end
