(* ===== verification/SeedServe.thy ===== *)
theory SeedServe
  imports SeedSpec AddressQueries
begin

text \<open>
  The query side on a store that bulk sync seeded: what \<open>get_utxos\<close> of theory AddressQueries answers
  from the database theory SeedSpec describes. The two halves of the program meet only in the
  layout of the output records.
\<close>

subsection \<open>Output records of a seeded store\<close>

lemma seed_content_outputs:
  assumes "(k, v) \<in> set (seed_content undo tx bs us lv)" and "hd k = P_OUTPUT"
  shows "\<exists>u \<in> set lv. (k, v) = oEntry u"
proof -
  have "hd (fst (bEntry b)) \<noteq> P_OUTPUT" "hd (fst (nEntry h)) \<noteq> P_OUTPUT" "hd (fst (hEntry u)) \<noteq> P_OUTPUT" "hd (fst (wEntry u)) \<noteq> P_OUTPUT"
    "hd (fst (sEntry u)) \<noteq> P_OUTPUT" "hd (fst (zEntry u)) \<noteq> P_OUTPUT" "hd (fst (tEntry u)) \<noteq> P_OUTPUT" "hd (fst (xEntry u)) \<noteq> P_OUTPUT"
    "hd (fst (yEntry u)) \<noteq> P_OUTPUT" for b h and u :: BulkStreams.utxo
    by (cases b, simp_all add: bEntry_def nEntry_def hEntry_def wEntry_def sEntry_def zEntry_def tEntry_def xEntry_def yEntry_def key_defs prefix_defs)
  note no = this
  have ent: "e \<in> oEntry ` set lv \<or> hd (fst e) \<noteq> P_OUTPUT" if "e \<in> set (seed_entries n w tx bs us lv)" for e n w
    using that no by (auto simp: seed_entries_def Let_def split: if_splits)
  have "hd (fst e) \<noteq> P_OUTPUT" if "e \<in> set (marker_entries height hash n)" for e height hash n
    using that by (auto simp: marker_entries_def meta_defs prefix_defs split: if_splits)
  then show ?thesis using assms ent unfolding seed_content_def by fastforce
qed

lemma oEntry_parts:
  assumes "utxo_ok u"
  shows "fst (oEntry u) = oKey (ux_script u) (ux_txid u) (ux_vout u)" and "length (ux_script u) = 32" and "length (ux_txid u) = 32"
    and "decodeOutput (snd (oEntry u)) = Inr (output_norm (ux_value u, Some (ux_height u), Some (ux_txid u), ux_coinbase u))"
proof -
  show "fst (oEntry u) = oKey (ux_script u) (ux_txid u) (ux_vout u)" by (simp add: oEntry_def)
  have b: "0 \<le> ux_value u" "ux_value u \<le> 18446744073709551615" "- 2147483648 \<le> ux_height u" "ux_height u \<le> 2147483647"
    and l: "length (ux_script u) = 32" "length (ux_txid u) = 32" using assms by (simp_all add: utxo_ok_def)
  show "length (ux_script u) = 32" "length (ux_txid u) = 32" by (fact l)+
  have "encodeOutput (ux_value u) (Some (ux_height u)) (Some (ux_txid u)) (ux_coinbase u) = Inr (snd (oEntry u))"
    using b l by (cases "ux_txid u") (simp_all add: encodeOutput_def writeBigUInt64BE_def writeInt32BE_def oEntry_def ux_height4_def)
  then show "decodeOutput (snd (oEntry u)) = Inr (output_norm (ux_value u, Some (ux_height u), Some (ux_txid u), ux_coinbase u))"
    by (rule decode_encode_output)
qed

text \<open>A database that holds the output records of \<open>lv\<close> and no others.\<close>

definition holds_outputs :: "(bytes \<rightharpoonup> bytes) \<Rightarrow> BulkStreams.utxo list \<Rightarrow> bool" where
  "holds_outputs m lv \<longleftrightarrow> (\<forall>u \<in> set lv. utxo_ok u) \<and> distinct (map point lv) \<and> (\<forall>u \<in> set lv. m (fst (oEntry u)) = Some (snd (oEntry u)))
     \<and> (\<forall>k v. m k = Some v \<and> hd k = P_OUTPUT \<longrightarrow> (k, v) \<in> oEntry ` set lv)"

lemma seeded_outputs:
  assumes us: "\<forall>u \<in> set us. utxo_ok u" "distinct (map point us)" and lv: "\<forall>u \<in> set lv. utxo_ok u" "distinct (map point lv)"
    and bs: "\<forall>b \<in> set bs. block_ok b" "distinct (map block_hash bs)"
  shows "holds_outputs (map_of (seed_content undo tx bs us lv)) lv"
proof -
  have d: "distinct (map fst (seed_content undo tx bs us lv))" unfolding seed_content_def by (rule seed_keys_distinct [OF us lv bs])
  have "oEntry u \<in> set (seed_content undo tx bs us lv)" if "u \<in> set lv" for u
    using that by (simp add: seed_content_def seed_entries_def Let_def)
  then have "\<forall>u \<in> set lv. map_of (seed_content undo tx bs us lv) (fst (oEntry u)) = Some (snd (oEntry u))"
    using d by (auto intro!: map_of_is_SomeI)
  moreover have "(k, v) \<in> oEntry ` set lv" if "map_of (seed_content undo tx bs us lv) k = Some v" "hd k = P_OUTPUT" for k v
    using seed_content_outputs [OF map_of_SomeD [OF that(1)] that(2)] by auto
  ultimately show ?thesis using lv by (simp add: holds_outputs_def)
qed

lemma outputs_at:
  assumes "holds_outputs m lv" and "length h = 32" and "length t = 32"
  shows "m (oKey h t i) = Some v \<longleftrightarrow> (\<exists>u \<in> set lv. ux_script u = h \<and> point u = (t, i) \<and> v = snd (oEntry u))"
proof
  assume m: "m (oKey h t i) = Some v"
  moreover have "hd (oKey h t i) = P_OUTPUT" by (simp add: oKey_def)
  ultimately have "(oKey h t i, v) \<in> oEntry ` set lv" using assms(1) by (simp add: holds_outputs_def)
  then obtain u where u: "u \<in> set lv" "oEntry u = (oKey h t i, v)" by (metis imageE)
  then have ok: "utxo_ok u" using assms(1) by (simp add: holds_outputs_def)
  have "oKey (ux_script u) (ux_txid u) (ux_vout u) = oKey h t i" using oEntry_parts(1) [OF ok] u(2) by simp
  then show "\<exists>u \<in> set lv. ux_script u = h \<and> point u = (t, i) \<and> v = snd (oEntry u)"
    using u oEntry_parts(2,3) [OF ok] assms(2,3) by (auto simp: point_def intro!: bexI [of _ u])
next
  assume "\<exists>u \<in> set lv. ux_script u = h \<and> point u = (t, i) \<and> v = snd (oEntry u)"
  then obtain u where u: "u \<in> set lv" "ux_script u = h" "point u = (t, i)" "v = snd (oEntry u)" by blast
  then have "m (fst (oEntry u)) = Some v" using assms(1) by (simp add: holds_outputs_def)
  then show "m (oKey h t i) = Some v" using u(2,3) by (simp add: oEntry_def point_def)
qed

lemma prefixed_output:
  assumes "holds_outputs m lv" and "length h = 32" and "m k = Some v" and "prefix (P_OUTPUT # h) k"
  obtains u where "u \<in> set lv" and "ux_script u = h" and "k = oKey h (ux_txid u) (ux_vout u)" and "v = snd (oEntry u)"
proof -
  have "hd k = P_OUTPUT" using assms(4) by (cases k) auto
  then have "(k, v) \<in> oEntry ` set lv" using assms(1,3) by (simp add: holds_outputs_def)
  then obtain u where u: "u \<in> set lv" "oEntry u = (k, v)" by (metis imageE)
  then have ok: "utxo_ok u" using assms(1) by (simp add: holds_outputs_def)
  have k: "k = oKey (ux_script u) (ux_txid u) (ux_vout u)" using oEntry_parts(1) [OF ok] u(2) by simp
  then have "ux_script u = h" using assms(2,4) oEntry_parts(2) [OF ok] by (auto simp: oKey_def prefix_def)
  then show ?thesis using that [OF u(1)] k u(2) by simp
qed

context leveldb
begin

lemma seeded_txids:
  assumes "holds_outputs (kv_get K d) lv" and "length h = 32"
  shows "txids_ok K d h"
  unfolding txids_ok_def oscript_ok_def
proof (intro conjI allI impI)
  fix k v assume "kv_get K d k = Some v \<and> prefix (P_OUTPUT # h) k"
  then obtain u where u: "u \<in> set lv" "k = oKey h (ux_txid u) (ux_vout u)" "v = snd (oEntry u)"
    using prefixed_output [OF assms] by metis
  then have "utxo_ok u" using assms(1) by (simp add: holds_outputs_def)
  then show "\<exists>t i r. length t = 32 \<and> k = oKey h t i \<and> decodeOutput v = Inr r" using u oEntry_parts(3,4) by blast
next
  fix t i v r assume a: "length t = 32 \<and> kv_get K d (oKey h t i) = Some v \<and> decodeOutput v = Inr r"
  then obtain u where u: "u \<in> set lv" "point u = (t, i)" "v = snd (oEntry u)" using outputs_at [OF assms] by blast
  then have "utxo_ok u" using assms(1) by (simp add: holds_outputs_def)
  then have "r = output_norm (ux_value u, Some (ux_height u), Some t, ux_coinbase u)"
    using a u oEntry_parts(4) [of u] by (simp add: point_def)
  then show "out_t r = None \<or> out_t r = Some t" by (simp add: output_norm_def stored_txid_def split: list.split)
qed (rule assms(2))

lemma seeded_scan:
  assumes "holds_outputs (kv_get K d) lv" and "length h = 32"
  shows "length (script_entries K d h) \<le> length (filter (\<lambda>u. ux_script u = h) lv)"
proof -
  have d: "distinct (map fst (script_entries K d h))" by (simp add: script_entries_def iter_distinct)
  have "e \<in> oEntry ` set (filter (\<lambda>u. ux_script u = h) lv)" if "e \<in> set (script_entries K d h)" for e
  proof -
    obtain k v where e: "e = (k, v)" by force
    have "kv_get K d k = Some v" "prefix (P_OUTPUT # h) k"
      using that iter_mem [of "range_of (P_OUTPUT # h)" k v d] in_range_of_prefix e by (simp_all add: script_entries_def)
    then obtain u where "u \<in> set lv" "ux_script u = h" "k = oKey h (ux_txid u) (ux_vout u)" "v = snd (oEntry u)"
      by (rule prefixed_output [OF assms])
    then show ?thesis using e by (auto simp: oEntry_def intro!: image_eqI [of _ _ u])
  qed
  then have "set (script_entries K d h) \<subseteq> oEntry ` set (filter (\<lambda>u. ux_script u = h) lv)" by blast
  then have "card (set (script_entries K d h)) \<le> card (set (filter (\<lambda>u. ux_script u = h) lv))"
    by (meson List.finite_set card_image_le card_mono finite_imageI order_trans)
  also have "\<dots> \<le> length (filter (\<lambda>u. ux_script u = h) lv)" by (rule card_length)
  finally show ?thesis using distinct_card [of "script_entries K d h"] d by (simp add: distinct_map)
qed

text \<open>An empty mempool store adds nothing and spends nothing.\<close>

lemma empty_store:
  assumes "kv_get K d = Map.empty" and "length h = 32"
  shows "txids_ok K d h" and "script_entries K d h = []"
proof -
  show "txids_ok K d h" using assms by (simp add: txids_ok_def oscript_ok_def)
  have "(k, v) \<notin> set (script_entries K d h)" for k v using iter_mem [of "range_of (P_OUTPUT # h)" k v d] assms(1) by (simp add: script_entries_def)
  then show "script_entries K d h = []" by (cases "script_entries K d h") auto
qed

lemma outputs_served:
  assumes lv: "holds_outputs (kv_get K (db (confirmed T))) lv" and mem: "kv_get K (db (mempool T)) = Map.empty"
    and a: "addressToScript L address net = Inr script" and h: "length (sha256 L script) = 32"
    and small: "length (filter (\<lambda>u. ux_script u = sha256 L script) lv) \<le> mx"
  shows "\<exists>page. readUtxosAddress K L net mx T address None after = Inr page \<and> distinct (map ut_key (pg_utxos page))
    \<and> (\<forall>t i. length t = 32 \<longrightarrow> (t, i) \<in> set (map ut_key (pg_utxos page)) \<longleftrightarrow>
        (\<exists>u \<in> set lv. point u = (t, i) \<and> ux_script u = sha256 L script \<and> \<not> withheld T (ux_height u) (ux_coinbase u)))"
proof -
  let ?h = "sha256 L script"
  have tc: "txids_ok K (db (confirmed T)) ?h" by (rule seeded_txids [OF lv h])
  note m = empty_store [OF mem h]
  have ok: "stores_ok K T ?h" using tc m(1) by (simp add: stores_ok_def)
  have "length (script_entries K (db (confirmed T)) ?h) \<le> mx" "length (script_entries K (db (mempool T)) ?h) \<le> mx"
    using seeded_scan [OF lv h] small m(2) by simp_all
  then obtain page where p: "readUtxosAddress K L net mx T address None after = Inr page"
    "pg_utxos page = servable K T (uint8ArrayToHex script) (script_rows K (db (confirmed T)) ?h)
       @ map (servedMempool (uint8ArrayToHex script)) (freshRows K T ?h)"
    by (rule unpaged_read [OF a ok])
  have keys: "map ut_key (pg_utxos page) = map row_key (filter (confirmedServed K T) (script_rows K (db (confirmed T)) ?h))
      @ map row_key (freshRows K T ?h)"
    by (simp only: p(2) map_append served_key_maps)
  have none: "freshRows K T ?h = []" using m(2) by (simp add: freshRows_def rows_def)
  have "(t, i) \<in> set (map ut_key (pg_utxos page)) \<longleftrightarrow>
      (\<exists>u \<in> set lv. point u = (t, i) \<and> ux_script u = ?h \<and> \<not> withheld T (ux_height u) (ux_coinbase u))" if t: "length t = 32" for t i
  proof -
    have dec: "decodeOutput (snd (oEntry u)) = Inr r \<longleftrightarrow> r = output_norm (ux_value u, Some (ux_height u), Some (ux_txid u), ux_coinbase u)"
      if "u \<in> set lv" for u r
      using lv that oEntry_parts(4) [of u] by (auto simp: holds_outputs_def)
    have "(t, i) \<in> set (map ut_key (pg_utxos page)) \<longleftrightarrow>
        (\<exists>v r. kv_get K (db (confirmed T)) (oKey ?h t i) = Some v \<and> decodeOutput v = Inr r \<and> \<not> withheld T (out_h r) (out_cb r))"
      using served_confirmed_iff [OF tc t, of i] mem by (simp only: keys none) (simp add: spent_in_mempool_def)
    also have "\<dots> \<longleftrightarrow> (\<exists>u \<in> set lv. point u = (t, i) \<and> ux_script u = ?h \<and> \<not> withheld T (ux_height u) (ux_coinbase u))"
      unfolding outputs_at [OF lv h t] using dec by (force simp: output_norm_def)
    finally show ?thesis .
  qed
  moreover have "distinct (map ut_key (pg_utxos page))" using served_distinct [OF ok] by (simp only: keys)
  ultimately show ?thesis using p(1) by blast
qed

end

subsection \<open>From dumps to answers\<close>

lemma ledger_entries:
  assumes "chain_ok sha bs"
  shows "(\<exists>u \<in> set (unspent sha bs). point u = p \<and> Q u) \<longleftrightarrow> (\<exists>u. ledger sha bs p = Some u \<and> Q u)"
proof -
  have L: "ledger sha bs = map_of (pairs (concat (map (BulkStreams.created sha) bs))) |` (- set (map spent_point (concat (map spends bs))))"
    unfolding ledger_def using ledger_from [of sha bs Map.empty] assms by (simp add: chain_ok_def Let_def)
  have "u \<in> set (concat (map (BulkStreams.created sha) bs)) \<and> point u = q" if "ledger sha bs q = Some u" for q u
  proof -
    have "map_of (pairs (concat (map (BulkStreams.created sha) bs))) q = Some u"
      using that unfolding L by (simp add: restrict_map_def split: if_splits)
    then have "(q, u) \<in> set (pairs (concat (map (BulkStreams.created sha) bs)))" by (rule map_of_SomeD)
    then show ?thesis by (auto simp: pairs_def)
  qed
  then have "u \<in> set (unspent sha bs) \<and> point u = q \<longleftrightarrow> ledger sha bs q = Some u" for u q
    unfolding unspent_def set_filter by blast
  then show ?thesis by blast
qed

text \<open>
  C6. From dumps to answers. Let bulk sync seed a fresh database from the dumps of a chain, and let a
  tracker with an empty mempool store run on that database. Then \<open>get_utxos\<close> of an address, read in
  one go, serves no outpoint twice, and exactly the outpoints of the ledger of the chain that pay to
  the script of the address, except the outputs it withholds: those above the node's tip and coinbases
  that are not mature. The limit of a reply has to cover the outputs of the script.
\<close>

theorem seeded_tracker_serves_ledger:
  assumes "leveldb K" and "holdsNothingButCurrentStamp K d" and "bulk_input (sha256 L) decode dumps ss bs" and "chain_ok (sha256 L) bs"
    and "resolveUndoBlocks env (ba_network args) None = Inr (undo, big)" and "ba_removeSpent args" and "ba_from args = 0"
    and "mergeAndLoad K env args ss dir d = Some (Inr stats, db (confirmed T))" and "kv_get K (db (mempool T)) = Map.empty"
    and "addressToScript L address net = Inr script"
    and "length (filter (\<lambda>u. ux_script u = sha256 L script) (unspent (sha256 L) bs)) \<le> mx"
  shows "\<exists>page. readUtxosAddress K L net mx T address None after = Inr page \<and> distinct (map ut_key (pg_utxos page))
    \<and> (\<forall>t i. length t = 32 \<longrightarrow> (t, i) \<in> set (map ut_key (pg_utxos page)) \<longleftrightarrow>
        (\<exists>u. ledger (sha256 L) bs (t, i) = Some u \<and> ux_script u = sha256 L script \<and> \<not> withheld T (ux_height u) (ux_coinbase u)))"
proof -
  let ?us = "concat (map (BulkStreams.created (sha256 L)) bs)" and ?lv = "unspent (sha256 L) bs"
  have ok: "\<forall>u \<in> set ?us. utxo_ok u" and g: "kv_get K (db (confirmed T)) = map_of (seed_content undo (\<not> isBitcoin (ba_network args)) bs ?us ?lv)"
    using bulk_seed_result [OF assms(1-7), of dir] assms(8) by auto
  have c: "\<forall>b \<in> set bs. block_ok b" "distinct (map block_hash bs)" "distinct (map point ?us)" using assms(4) by (simp_all add: chain_ok_def Let_def)
  have "\<forall>u \<in> set ?lv. utxo_ok u" "distinct (map point ?lv)" using ok distinct_map_filter [OF c(3)] by (auto simp: unspent_def)
  then have "holds_outputs (kv_get K (db (confirmed T))) ?lv" unfolding g by (intro seeded_outputs ok c)
  moreover have "length (sha256 L script) = 32" using assms(3) by (simp add: bulk_input_def)
  ultimately show ?thesis
    using leveldb.outputs_served [OF assms(1) _ assms(9,10) _ assms(11), where after = after] unfolding ledger_entries [OF assms(4)] by blast
qed

text \<open>The seeded two-block chain of theory SeedSpec, asked for the outputs of its only script.\<close>

definition demo_lib :: btc_lib where
  "demo_lib = ex_address_lib\<lparr>sha256 := demo_sha\<rparr>"

definition seeded_tracker :: "ref_db \<Rightarrow> (ref_db, unit) tracker" where
  "seeded_tracker d = (newTracker \<lparr>stat = resetCaches, db = d, transactionArray = None, deletedTransactionArray = None\<rparr>
     \<lparr>stat = resetCaches, db = demo_db, transactionArray = None, deletedTransactionArray = None\<rparr> () 100 100 False True 0)\<lparr>blockchainInfoLastBlock := 150\<rparr>"

theorem seeded_tracker_serves_ledger_witness:
  "\<exists>s st d page. mergeAndLoad sure_kv (\<lambda>_. None) demo_args [s] demo_dir demo_db = Some (Inr st, d)
    \<and> readUtxosAddress sure_kv demo_lib None 10 (seeded_tracker d) (Some ''addr'') None None = Inr page
    \<and> (replicate 32 2, 0) \<in> set (map ut_key (pg_utxos page)) \<and> (replicate 32 1, 0) \<notin> set (map ut_key (pg_utxos page))"
proof -
  have sha: "sha256 demo_lib = demo_sha" by (simp add: demo_lib_def)
  obtain f s where i: "bulk_input (sha256 demo_lib) demo_decode [f] [s] demo_chain" using demo_input sha by auto
  note c = demo_ok [folded sha]
  obtain st d where run: "mergeAndLoad sure_kv (\<lambda>_. None) demo_args [s] demo_dir demo_db = Some (Inr st, d)"
    using bulk_seed_result [OF leveldb_sure_kv demo_fresh i c demo_setting, of demo_dir] sure_kv_simps(3) by blast
  let ?T = "seeded_tracker d"
  have db: "db (confirmed ?T) = d" "kv_get sure_kv (db (mempool ?T)) = Map.empty"
    by (simp_all add: seeded_tracker_def newTracker_def sure_kv_simps(1) demo_db_def ref_get_def)
  have a: "addressToScript demo_lib (Some ''addr'') None = Inr [0x51]"
    by (simp add: addressToScript_def decodeAddressScript_def demo_lib_def ex_address_lib_def)
  have "length (filter (\<lambda>u. ux_script u = sha256 demo_lib [0x51]) (unspent (sha256 demo_lib) demo_chain)) \<le> 10"
    by (simp add: sha demo_unspent)
  note served = seeded_tracker_serves_ledger [where T = ?T and after = None, unfolded db(1), OF leveldb_sure_kv demo_fresh i c demo_setting run db(2) a this]
  have w: "\<not> withheld ?T 1 False" by (simp add: withheld_def confirmations_def seeded_tracker_def newTracker_def)
  obtain page where p: "readUtxosAddress sure_kv demo_lib None 10 ?T (Some ''addr'') None None = Inr page" and
    k: "\<And>t i. length t = 32 \<Longrightarrow> (t, i) \<in> set (map ut_key (pg_utxos page)) \<longleftrightarrow>
        (\<exists>u. ledger demo_sha demo_chain (t, i) = Some u \<and> ux_script u = demo_sha [0x51] \<and> \<not> withheld ?T (ux_height u) (ux_coinbase u))"
    using served unfolding sha by blast
  have "(replicate 32 2, 0) \<in> set (map ut_key (pg_utxos page))" "(replicate 32 1, 0) \<notin> set (map ut_key (pg_utxos page))"
    using demo_points w by (subst k; simp add: demo_ledger demo_utxo_def demo_sha_def)+
  then show ?thesis using run p by blast
qed

end
