(* ===== verification/Spec2Isabelle.thy ===== *)
theory Spec2Isabelle
  imports SyncLoop CommitLock Mempool BlockDecoder ConcurrencyGate SeedServe
begin

text \<open>
  A model of the XChain UTXO tracker, the service that follows a coin node, indexes every unspent
  output in LevelDB and answers balance and UTXO queries. The theories translate the JavaScript
  under \<^verbatim>\<open>src/\<close> function by function; names are the source's. The paths below are relative to
  \<^verbatim>\<open>src/\<close>.

  \<^bold>\<open>How the program is put together.\<close> The sync loop polls the node through the RPC connector,
  fetches blocks, decodes them, stages their records in the store and commits them in batches.
  Before each block it compares its tip with the node's chain and rolls tip blocks back when they
  differ. A mempool pass keeps a second, in-memory store in step with the node's mempool. Address
  queries read both stores under a lock that keeps commits out. For a first sync from nothing a
  separate pipeline dumps blocks to files, parses them into record streams, sorts and joins the
  streams, and loads the result.

  \<^bold>\<open>The store.\<close>
  \<^item> Prelude: bytes (8-bit words), the error type, the state-and-error monad \<open>('s, 'a) m\<close> in which
    every operation that awaits or throws is written, and the generic lemmas on lists, maps and
    big-endian fields.
  \<^item> Hexadecimal, KeyCodec, ValueCodec (\<^verbatim>\<open>common/util.js\<close>, \<^verbatim>\<open>store/level_up_db/constants.js\<close>,
    \<^verbatim>\<open>key_codec.js\<close>, \<^verbatim>\<open>value_codec.js\<close>): hexadecimal text, the key schema and the record formats.
    Every builder checks its widths as the code does. The locale \<open>key_family\<close> states what a reader
    relies on for one kind of key, the locale \<open>value_codec\<close> the round trip of one kind of value;
    each is interpreted for every builder and codec.
  \<^item> Kv: LevelDB is not part of the repository, so a database is a parameter; the locale \<open>leveldb\<close>
    states its documented behaviour and is interpreted on a sorted association list.
  \<^item> Store, Records, Outputs, Cleanup, Query (\<^verbatim>\<open>store/level_up_db.js\<close> and
    \<^verbatim>\<open>store/level_up_db/*.js\<close>): the staging Map that stands for a transaction, commit and discard,
    metadata, the operations on blocks, transactions, inputs and outputs, the scans that undo and
    prune them, and the paged reads. Each operation has a \<open>_run\<close> lemma that gives the items it
    stages as a list computed from the view before it.

  \<^bold>\<open>The tracker.\<close>
  \<^item> Config (\<^verbatim>\<open>config/env_int.js\<close>, \<^verbatim>\<open>chain/undo_blocks.js\<close>, \<^verbatim>\<open>chain/coinbase_maturity.js\<close>,
    \<^verbatim>\<open>store/memory_budget.js\<close>): numeric knobs read as JavaScript's \<open>Number\<close> reads a text.
  \<^item> Tracker, Blocks, Undo, Rollback (\<^verbatim>\<open>XChainUtxoTracker/transaction_parsing.js\<close>,
    \<^verbatim>\<open>sync_loop_block_apply.js\<close>, \<^verbatim>\<open>last_blocks_window.js\<close>, \<^verbatim>\<open>reorg_verification.js\<close>): staging a
    block, flushing, the undo window, and taking the tip block back. Blocks describes what staging
    does to the view, Undo what the rollback does, and Rollback composes them: indexing a block and
    rolling it back restores every record of the block's scripts.
  \<^item> Node, Reorg, Halt, BatchSize, SyncLoop (\<^verbatim>\<open>XChainUtxoTracker/catch_up_helpers.js\<close>, \<^verbatim>\<open>reorg_*.js\<close>,
    \<^verbatim>\<open>halt_marker.js\<close>, \<^verbatim>\<open>fetch_failures_and_halt.js\<close>, \<^verbatim>\<open>status_and_stop.js\<close>, \<^verbatim>\<open>sync_loop*.js\<close>): the
    node as a parameter whose own state is threaded through every call, so that two readings may
    differ; the reorg walk with its budget and refusals; the halted state; one pass of the loop on
    every branch. BatchSize counts the block records of the open batch, so that the bound on a batch
    speaks of what is staged and not of a counter.
  \<^item> CommitLock, ConcurrencyGate (\<^verbatim>\<open>store_commit_lock.js\<close>, \<^verbatim>\<open>server/concurrency_gate.js\<close>): step
    relations whose steps are the code between two awaits; the properties hold in every reachable
    state, by rule induction.
  \<^item> AddressQueries, Mempool (\<^verbatim>\<open>address_queries.js\<close>, \<^verbatim>\<open>mempool_refresh.js\<close>): the reads the API
    serves, and a mempool pass. Partial has the computations that may throw and may not return; the
    mempool pass and the loader of bulk sync are written in them.

  \<^bold>\<open>Blocks from the wire.\<close> Wire, AuxPow, BlockDecoder (\<^verbatim>\<open>chain/bufferutils.js\<close>,
  \<^verbatim>\<open>chain/blockchain_connector/auxpow_codec.js\<close>, \<^verbatim>\<open>chain/XChainBlockDecoder.js\<close>): readers and writers
  of the wire format, the walk that finds the end of an AuxPoW section, Litecoin's flagged
  transactions, and the check that a block is whole. bitcoinjs-lib and varuint-bitcoin are
  parameters.

  \<^bold>\<open>Bulk sync.\<close> ExternalSort, StreamingJoin, Xdmp, BulkStreams, BulkMerge
  (\<^verbatim>\<open>bulk_sync/*.js\<close>, \<^verbatim>\<open>bulk_sync/merger\<close>, \<^verbatim>\<open>bulk_sync/orchestrator\<close>): the run-and-merge sort with
  its heap, the join that cancels spent outputs, the dump format, the parse worker, and the merge
  phase. The locales \<open>min_queue\<close> (what the merge needs of the heap) and \<open>record_source\<close> (what the
  join needs of a buffered reader) are interpreted on the code's heap and reader. BulkMerge shows
  that the phase computes the unspent outputs of the ledger that applies the blocks one by one.
  SeedKeys (\<^verbatim>\<open>bulk_sync/merger/derive_keys\<close>, \<^verbatim>\<open>meta_reader.js\<close>) models the files of sorted records
  derived from the merged streams, one for each prefix of the store, and SeedLoad
  (\<^verbatim>\<open>bulk_sync/merger/loader.js\<close>, the phases of \<^verbatim>\<open>bulk_sync/orchestrator\<close>) the loader that puts them into an
  empty database and writes the markers last. SeedSpec states the content of a seeded store as a list
  of entries over the blocks and the ledger and shows that a run from dumps to database leaves exactly
  these; SeedServe that a tracker on such a database serves exactly the ledger.

  \<^bold>\<open>Fuel and bounds.\<close> The reorg walk runs with fuel \<open>22 * window + 22\<close>: \<open>reorg_terminates\<close> shows that
  it never runs out, since every turn either spends budget or lowers the tip. The merge loop has
  one unit for each record, the join loop one for each byte of its two files, and the loops over a
  stream of records or of blocks one for each byte of the file; each turn consumes a record, and the
  properties state that the result exists. The retries of a mempool
  fetch have no bound of their own, as in the code: they are a partial function, and \<open>mempool_pass_ends\<close>
  shows that it returns because the fifth failure in a row throws. The settling reads carry the code's
  own bound. Integers are unbounded where JavaScript's stay below
  \<open>2 ^ 53\<close>, and fields are cut to their width where they are written.

  \<^bold>\<open>Not modelled.\<close> A height that is no number in a stored pointer; waiting for \<open>mempoolBusy\<close>; closing
  database handles; sleeps, timers and log lines; \<open>JSON.parse\<close> of anything but an array of
  hexadecimal strings; the messages of errors that wrap another error; in bulk sync, file handles,
  temporary names, progress output and the reuse of an earlier run's files. Left out as a whole:
  the HTTP routes and their middleware, observability, the coin data files, process start-up and
  shutdown, the bootstrap archive, and the scripts under \<^verbatim>\<open>bin/\<close>: they are glue around libraries
  and the operating system, with little state of their own.
\<close>

end
